(* ===== verification/Prelude.thy ===== *)
theory Prelude
  imports Main "HOL-Library.Word"
begin

text \<open>
  Shared vocabulary of the development: machine integers, byte memories and big-endian
  encodings, and the generic lemmas the component theories rely on.

  Memory areas of the C code (packet buffers, frames) are lists of bytes. A read or a
  write at an offset is \<open>mread\<close> or \<open>mwrite\<close>; both are meaningful for ranges inside the
  area only, and the component theories prove that their accesses stay in range.
\<close>

unbundle bit_operations_syntax

type_synonym u8 = "8 word"
type_synonym u16 = "16 word"
type_synonym u32 = "32 word"
type_synonym u64 = "64 word"
type_synonym byte = u8

named_theorems mem_simps \<open>reads and writes of byte memories\<close>
named_theorems enc_simps \<open>encodings and decodings of words\<close>

section \<open>Byte memories\<close>

definition mread :: "nat \<Rightarrow> nat \<Rightarrow> 'a list \<Rightarrow> 'a list" where
  "mread off n m = take n (drop off m)"

definition mwrite :: "nat \<Rightarrow> 'a list \<Rightarrow> 'a list \<Rightarrow> 'a list" where
  "mwrite off bs m = take off m @ bs @ drop (off + length bs) m"

lemma length_mread [simp]: "length (mread off n m) = min n (length m - off)"
  by (simp add: mread_def min.commute)

lemma length_mwrite [simp, mem_simps]:
  "off + length bs \<le> length m \<Longrightarrow> length (mwrite off bs m) = length m"
  by (simp add: mwrite_def)

lemma mread_mwrite_same [mem_simps]:
  "off + length bs \<le> length m \<Longrightarrow> n = length bs \<Longrightarrow> mread off n (mwrite off bs m) = bs"
  by (simp add: mread_def mwrite_def)

lemma nth_mwrite:
  assumes "off + length bs \<le> length m" and "i < length m"
  shows "mwrite off bs m ! i = (if off \<le> i \<and> i < off + length bs then bs ! (i - off) else m ! i)"
  using assms by (auto simp: mwrite_def nth_append min_def)

lemma mread_mwrite_disjoint:
  assumes "off + length bs \<le> length m" and "i + n \<le> off \<or> off + length bs \<le> i"
  shows "mread i n (mwrite off bs m) = mread i n m"
proof (rule nth_equalityI)
  show "length (mread i n (mwrite off bs m)) = length (mread i n m)"
    using assms(1) by simp
next
  fix j assume j: "j < length (mread i n (mwrite off bs m))"
  then have ij: "i + j < length m" "j < n" using assms(1) by auto
  have "mread i n (mwrite off bs m) ! j = mwrite off bs m ! (i + j)"
    using ij assms(1) by (simp add: mread_def)
  also have "\<dots> = m ! (i + j)"
    using ij assms by (auto simp: nth_mwrite)
  also have "\<dots> = mread i n m ! j"
    using ij by (simp add: mread_def)
  finally show "mread i n (mwrite off bs m) ! j = mread i n m ! j" .
qed

lemma mwrite_append:
  assumes "off + length a + length b \<le> length m" "k = off + length a"
  shows "mwrite k b (mwrite off a m) = mwrite off (a @ b) m" "mwrite off a (mwrite k b m) = mwrite off (a @ b) m"
  using assms by (simp_all add: mwrite_def ac_simps)

lemma mread_append_split:
  "off + n + k \<le> length m \<Longrightarrow> mread off (n + k) m = mread off n m @ mread (off + n) k m"
  by (simp add: mread_def take_add add.commute [of n off])

lemma nth_mread [simp]: "j < n \<Longrightarrow> off + j < length m \<Longrightarrow> mread off n m ! j = m ! (off + j)"
  by (simp add: mread_def)

lemma mread_0 [simp]: "mread off 0 m = []"
  by (simp add: mread_def)

lemma drop_mwrite_0: "length bs \<le> length m \<Longrightarrow> drop (length bs) (mwrite 0 bs m) = drop (length bs) m"
  by (simp add: mwrite_def)

lemma nth_update_if: "xs[i := x] ! j = (if i = j \<and> i < length xs then x else xs ! j)"
  by (cases "i < length xs") (auto simp: nth_list_update list_update_beyond not_less)

section \<open>Big-endian encodings\<close>

text \<open>The bytes \<open>htobe16\<close>, \<open>htobe32\<close> and \<open>htobe64\<close> leave in memory, and what
  \<open>be16toh\<close>, \<open>be32toh\<close> and \<open>be64toh\<close> read back.\<close>

definition be16_enc :: "u16 \<Rightarrow> u8 list" where
  "be16_enc w = [ucast (drop_bit 8 w), ucast w]"

definition be32_enc :: "u32 \<Rightarrow> u8 list" where
  "be32_enc w = [ucast (drop_bit 24 w), ucast (drop_bit 16 w), ucast (drop_bit 8 w), ucast w]"

definition be64_enc :: "u64 \<Rightarrow> u8 list" where
  "be64_enc w = [ucast (drop_bit 56 w), ucast (drop_bit 48 w), ucast (drop_bit 40 w),
     ucast (drop_bit 32 w), ucast (drop_bit 24 w), ucast (drop_bit 16 w),
     ucast (drop_bit 8 w), ucast w]"

definition be16_dec :: "u8 list \<Rightarrow> u16" where
  "be16_dec bs = push_bit 8 (ucast (bs ! 0)) OR ucast (bs ! 1)"

definition be32_dec :: "u8 list \<Rightarrow> u32" where
  "be32_dec bs = push_bit 24 (ucast (bs ! 0)) OR push_bit 16 (ucast (bs ! 1)) OR
     push_bit 8 (ucast (bs ! 2)) OR ucast (bs ! 3)"

definition be64_dec :: "u8 list \<Rightarrow> u64" where
  "be64_dec bs = push_bit 56 (ucast (bs ! 0)) OR push_bit 48 (ucast (bs ! 1)) OR
     push_bit 40 (ucast (bs ! 2)) OR push_bit 32 (ucast (bs ! 3)) OR
     push_bit 24 (ucast (bs ! 4)) OR push_bit 16 (ucast (bs ! 5)) OR
     push_bit 8 (ucast (bs ! 6)) OR ucast (bs ! 7)"

lemma length_be_enc [simp]:
  "length (be16_enc w) = 2" "length (be32_enc x) = 4" "length (be64_enc y) = 8"
  by (simp_all add: be16_enc_def be32_enc_def be64_enc_def)

lemma be16_dec_enc [simp, enc_simps]: "be16_dec (be16_enc w) = w"
proof (rule bit_word_eqI)
  fix n assume "n < LENGTH(16)"
  then consider "n < 8" | "8 \<le> n" "n < 16" by fastforce
  then show "bit (be16_dec (be16_enc w)) n \<longleftrightarrow> bit w n"
    by cases (simp_all add: be16_dec_def be16_enc_def bit_simps less_diff_conv2)
qed

lemma be32_dec_enc [simp, enc_simps]: "be32_dec (be32_enc w) = w"
proof (rule bit_word_eqI)
  fix n assume "n < LENGTH(32)"
  then consider "n < 8" | "8 \<le> n" "n < 16" | "16 \<le> n" "n < 24" | "24 \<le> n" "n < 32"
    by fastforce
  then show "bit (be32_dec (be32_enc w)) n \<longleftrightarrow> bit w n"
    by cases (simp_all add: be32_dec_def be32_enc_def bit_simps less_diff_conv2)
qed

lemma be64_dec_enc [simp, enc_simps]: "be64_dec (be64_enc w) = w"
proof (rule bit_word_eqI)
  fix n assume "n < LENGTH(64)"
  then consider "n < 8" | "8 \<le> n" "n < 16" | "16 \<le> n" "n < 24" | "24 \<le> n" "n < 32"
    | "32 \<le> n" "n < 40" | "40 \<le> n" "n < 48" | "48 \<le> n" "n < 56" | "56 \<le> n" "n < 64"
    by fastforce
  then show "bit (be64_dec (be64_enc w)) n \<longleftrightarrow> bit w n"
    by cases (simp_all add: be64_dec_def be64_enc_def bit_simps less_diff_conv2)
qed

section \<open>Words\<close>

lemma xor_cancel_right [simp]: "x XOR c = y XOR c \<longleftrightarrow> x = y" for x y c :: "'a::len word"
  by (metis xor.assoc xor.right_neutral xor_self_eq)

lemma xor_cancel_left [simp]: "c XOR x = c XOR y \<longleftrightarrow> x = y" for x y c :: "'a::len word"
  by (simp add: xor.commute [of c])

lemma funpow_8: "(f ^^ 8) x = f (f (f (f (f (f (f (f x)))))))"
  by (simp add: numeral_eq_Suc)

lemma unat_and_mask_less: "unat (w AND mask k) < 2 ^ k" for w :: "'a::len word"
  by (simp add: take_bit_eq_mask [symmetric] unsigned_take_bit_eq)

lemma not_bit_beyond: "LENGTH('a) \<le> n \<Longrightarrow> \<not> bit (w :: 'a::len word) n"
  using bit_imp_le_length [of w n] by auto

lemma unat_add_below:
  fixes a b n :: u32
  assumes "unat a + unat b \<le> unat n"
  shows "unat (a + b) = unat a + unat b"
proof -
  have "unat n < 2 ^ LENGTH(32)" by (rule unsigned_less)
  with assms have "unat a + unat b < 2 ^ LENGTH(32)" by linarith
  then show ?thesis by (rule unat_add_lem [THEN iffD1])
qed

lemma unat_add_length:
  fixes a n :: u32 and l :: u16
  assumes "unat a + unat l \<le> unat n"
  shows "unat (a + ucast l) = unat a + unat l"
proof -
  have "unat l < 2 ^ LENGTH(16)" by (rule unsigned_less)
  then have "unat (ucast l :: u32) = unat l" by (simp add: unsigned_ucast_eq take_bit_nat_eq_self)
  then show ?thesis using unat_add_below [of a "ucast l" n] assms by simp
qed

text \<open>Data of \<open>n\<close> bytes that is handled in pieces of at most \<open>m\<close>: the piece at \<open>a\<close>.\<close>

lemma chunk_size:
  fixes n m a :: u32
  assumes "a < n" "m \<noteq> 0"
  shows "unat (if n - a > m then m else n - a) = min (unat m) (unat n - unat a)"
    "unat (a + (if n - a > m then m else n - a)) = unat a + min (unat m) (unat n - unat a)"
    "0 < min (unat m) (unat n - unat a)"
proof -
  have s: "unat (n - a) = unat n - unat a" using assms(1) by (intro unat_sub) simp
  then show l: "unat (if n - a > m then m else n - a) = min (unat m) (unat n - unat a)"
    by (auto simp: word_less_nat_alt min_def)
  show "unat (a + (if n - a > m then m else n - a)) = unat a + min (unat m) (unat n - unat a)"
    by (subst unat_add_below [of _ _ n]) (use l assms(1) in \<open>auto simp: word_less_nat_alt\<close>)
  show "0 < min (unat m) (unat n - unat a)" using assms by (simp add: word_less_nat_alt unat_gt_0)
qed

lemma chunk_eq: "(if m > n - a then n - a else m) = (if n - a > m then m else n - a)" for m n a :: u32
  by auto

end
