(* ===== verification/Csp_Types.thy ===== *)
theory Csp_Types
  imports Prelude
begin

text \<open>
  Data model of libcsp (\<open>include/csp/csp_types.h\<close>, \<open>include/csp/csp_error.h\<close>,
  \<open>include/csp/csp_debug.h\<close>): identifiers, packets, error codes and header flags, and
  the compile-time configuration the application build sets in its \<open>meson.build\<close>.

  A packet is modelled with the memory it owns. The C structure places the array
  \<open>header[CSP_PACKET_PADDING_BYTES]\<close> directly before \<open>data[CSP_BUFFER_SIZE]\<close>, and the
  layer-2 code uses the two as one area; \<open>pmem\<close> is that area, with \<open>data[0]\<close> at index
  \<open>CSP_PACKET_PADDING_BYTES\<close>. The pointer \<open>frame_begin\<close> is an index into \<open>pmem\<close>.
  The fields of the two structures in the anonymous union (layer 2 and layer 3) are
  separate fields here: each layer writes its own fields before it reads them. The exception is
  \<open>last_used\<close>, which has the place of \<open>timestamp_rx\<close>: \<open>csp_id_strip\<close> clears \<open>timestamp_rx\<close> while the
  CAN interface still needs \<open>last_used\<close>. The two are the one field \<open>timestamp_rx\<close>. The list pointer
  \<open>next\<close> is part of the CAN interface.
\<close>

section \<open>Build configuration\<close>

definition CSP_PACKET_PADDING_BYTES :: nat where "CSP_PACKET_PADDING_BYTES = 8"
definition CSP_BUFFER_SIZE :: nat where "CSP_BUFFER_SIZE = 2048"
definition CSP_BUFFER_COUNT :: nat where "CSP_BUFFER_COUNT = 1000"
definition CSP_CONN_MAX :: nat where "CSP_CONN_MAX = 20"
definition CSP_CONN_RXQUEUE_LEN :: nat where "CSP_CONN_RXQUEUE_LEN = 1000"
definition CSP_QFIFO_LEN :: nat where "CSP_QFIFO_LEN = 1000"
definition CSP_RDP_MAX_WINDOW :: nat where "CSP_RDP_MAX_WINDOW = 1000"
definition CSP_PORT_MAX_BIND :: nat where "CSP_PORT_MAX_BIND = 16"

lemmas csp_config_defs = CSP_PACKET_PADDING_BYTES_def CSP_BUFFER_SIZE_def CSP_BUFFER_COUNT_def
  CSP_CONN_MAX_def CSP_CONN_RXQUEUE_LEN_def CSP_QFIFO_LEN_def CSP_RDP_MAX_WINDOW_def
  CSP_PORT_MAX_BIND_def

section \<open>Identifiers and packets\<close>

record csp_id =
  pri :: u8
  flags :: u8
  src :: u16
  dst :: u16
  dport :: u8
  sport :: u8

record csp_packet =
  rdp_quarantine :: u32
  timestamp_tx :: u32
  timestamp_rx :: u32
  pconn :: "nat option"
  rx_count :: u16
  remain :: u16
  cfpid :: u32
  frame_begin :: nat
  frame_length :: u16
  plength :: u16
  pid :: csp_id
  pmem :: "byte list"

text \<open>The well-formed packets: the memory has the size of the C arrays.\<close>

definition packet_wf :: "csp_packet \<Rightarrow> bool" where
  "packet_wf p \<longleftrightarrow> length (pmem p) = CSP_PACKET_PADDING_BYTES + CSP_BUFFER_SIZE
     \<and> unat (plength p) \<le> CSP_BUFFER_SIZE"

text \<open>\<open>&packet->data[i]\<close> as an index into the packet's memory.\<close>

definition data_at :: "nat \<Rightarrow> nat" where
  "data_at i = CSP_PACKET_PADDING_BYTES + i"

definition pdata :: "csp_packet \<Rightarrow> byte list" where
  "pdata p = mread (data_at 0) (unat (plength p)) (pmem p)"

definition pframe :: "csp_packet \<Rightarrow> byte list" where
  "pframe p = mread (frame_begin p) (unat (frame_length p)) (pmem p)"

definition csp_id_clear :: "csp_id" where
  "csp_id_clear = \<lparr>pri = 0, flags = 0, src = 0, dst = 0, dport = 0, sport = 0\<rparr>"

text \<open>\<open>csp_id_copy\<close> assigns every field of the identifier.\<close>

definition csp_id_copy :: "csp_id \<Rightarrow> csp_id \<Rightarrow> csp_id" where
  "csp_id_copy target source = target\<lparr>pri := pri source, dst := dst source, src := src source,
     dport := dport source, sport := sport source, flags := flags source\<rparr>"

lemma csp_id_copy_eq [simp]: "csp_id_copy target source = source"
  by (simp add: csp_id_copy_def)

section \<open>Header flags and options\<close>

definition CSP_FFRAG :: u8 where "CSP_FFRAG = 0x10"
definition CSP_FHMAC :: u8 where "CSP_FHMAC = 0x08"
definition CSP_FRDP :: u8 where "CSP_FRDP = 0x02"
definition CSP_FCRC32 :: u8 where "CSP_FCRC32 = 0x01"

definition CSP_SO_RDPREQ :: u32 where "CSP_SO_RDPREQ = 0x0001"
definition CSP_SO_HMACREQ :: u32 where "CSP_SO_HMACREQ = 0x0004"
definition CSP_SO_CRC32REQ :: u32 where "CSP_SO_CRC32REQ = 0x0040"
definition CSP_SO_CRC32PROHIB :: u32 where "CSP_SO_CRC32PROHIB = 0x0080"
definition CSP_SO_CONN_LESS :: u32 where "CSP_SO_CONN_LESS = 0x0100"
definition CSP_SO_SAME :: u32 where "CSP_SO_SAME = 0x8000"

text \<open>The modes of the duplicate filter (\<open>csp.h\<close>).\<close>

definition CSP_DEDUP_OFF :: u8 where "CSP_DEDUP_OFF = 0"
definition CSP_DEDUP_FWD :: u8 where "CSP_DEDUP_FWD = 1"
definition CSP_DEDUP_INCOMING :: u8 where "CSP_DEDUP_INCOMING = 2"
definition CSP_DEDUP_ALL :: u8 where "CSP_DEDUP_ALL = 3"

lemmas csp_flag_defs = CSP_FFRAG_def CSP_FHMAC_def CSP_FRDP_def CSP_FCRC32_def
  CSP_SO_RDPREQ_def CSP_SO_HMACREQ_def CSP_SO_CRC32REQ_def CSP_SO_CRC32PROHIB_def
  CSP_SO_CONN_LESS_def CSP_SO_SAME_def

section \<open>Error codes\<close>

definition CSP_ERR_NONE :: int where "CSP_ERR_NONE = 0"
definition CSP_ERR_NOMEM :: int where "CSP_ERR_NOMEM = -1"
definition CSP_ERR_INVAL :: int where "CSP_ERR_INVAL = -2"
definition CSP_ERR_TIMEDOUT :: int where "CSP_ERR_TIMEDOUT = -3"
definition CSP_ERR_USED :: int where "CSP_ERR_USED = -4"
definition CSP_ERR_ALREADY :: int where "CSP_ERR_ALREADY = -7"
definition CSP_ERR_RESET :: int where "CSP_ERR_RESET = -8"
definition CSP_ERR_NOBUFS :: int where "CSP_ERR_NOBUFS = -9"
definition CSP_ERR_TX :: int where "CSP_ERR_TX = -10"
definition CSP_ERR_AGAIN :: int where "CSP_ERR_AGAIN = -12"
definition CSP_ERR_DRIVER :: int where "CSP_ERR_DRIVER = -11"
definition CSP_ERR_HMAC :: int where "CSP_ERR_HMAC = -100"
definition CSP_ERR_CRC32 :: int where "CSP_ERR_CRC32 = -102"
definition CSP_ERR_SFP :: int where "CSP_ERR_SFP = -103"

lemmas csp_err_defs = CSP_ERR_NONE_def CSP_ERR_NOMEM_def CSP_ERR_INVAL_def CSP_ERR_TIMEDOUT_def
  CSP_ERR_USED_def CSP_ERR_ALREADY_def CSP_ERR_RESET_def CSP_ERR_NOBUFS_def CSP_ERR_TX_def
  CSP_ERR_AGAIN_def CSP_ERR_DRIVER_def CSP_ERR_HMAC_def CSP_ERR_CRC32_def CSP_ERR_SFP_def

section \<open>Debug counters\<close>

text \<open>The error counters and the central errno of \<open>csp_debug.h\<close>, all \<open>uint8_t\<close>.\<close>

record csp_dbg =
  csp_dbg_buffer_out :: u8
  csp_dbg_conn_out :: u8
  csp_dbg_conn_ovf :: u8
  csp_dbg_inval_reply :: u8
  csp_dbg_errno :: u8

definition CSP_DBG_ERR_CORRUPT_BUFFER :: u8 where "CSP_DBG_ERR_CORRUPT_BUFFER = 1"
definition CSP_DBG_ERR_ALREADY_FREE :: u8 where "CSP_DBG_ERR_ALREADY_FREE = 3"
definition CSP_DBG_ERR_REFCOUNT :: u8 where "CSP_DBG_ERR_REFCOUNT = 4"
definition CSP_DBG_ERR_INVALID_RTABLE_ENTRY :: u8 where "CSP_DBG_ERR_INVALID_RTABLE_ENTRY = 6"
definition CSP_DBG_ERR_UNSUPPORTED :: u8 where "CSP_DBG_ERR_UNSUPPORTED = 7"
definition CSP_DBG_ERR_INVALID_BIND_PORT :: u8 where "CSP_DBG_ERR_INVALID_BIND_PORT = 8"
definition CSP_DBG_ERR_PORT_ALREADY_IN_USE :: u8 where "CSP_DBG_ERR_PORT_ALREADY_IN_USE = 9"
definition CSP_DBG_ERR_ALREADY_CLOSED :: u8 where "CSP_DBG_ERR_ALREADY_CLOSED = 10"
definition CSP_DBG_ERR_INVALID_POINTER :: u8 where "CSP_DBG_ERR_INVALID_POINTER = 11"

section \<open>Facts on packets\<close>

lemma data_at_less [simp]: "packet_wf p \<Longrightarrow> data_at (unat (plength p)) \<le> length (pmem p)"
  by (simp add: packet_wf_def data_at_def)

lemma length_pdata [simp]: "packet_wf p \<Longrightarrow> length (pdata p) = unat (plength p)"
  by (simp add: pdata_def packet_wf_def data_at_def)

lemma packet_wf_pmemI:
  "packet_wf p \<Longrightarrow> length m = length (pmem p) \<Longrightarrow> packet_wf (p\<lparr>pmem := m\<rparr>)"
  by (simp add: packet_wf_def)

text \<open>A zeroed packet buffer, the concrete packet of the examples.\<close>

definition packet0 :: csp_packet where
  "packet0 = \<lparr>rdp_quarantine = 0, timestamp_tx = 0, timestamp_rx = 0, pconn = None,
     rx_count = 0, remain = 0, cfpid = 0, frame_begin = 0, frame_length = 0,
     plength = 0, pid = csp_id_clear, pmem = replicate (CSP_PACKET_PADDING_BYTES + CSP_BUFFER_SIZE) 0\<rparr>"

lemma packet_wf_packet0 [simp]: "packet_wf packet0"
  by (simp add: packet_wf_def packet0_def)

lemma packet_wf_packet0_upd [simp]:
  "packet_wf (packet0\<lparr>pid := i\<rparr>)"
  "unat n \<le> CSP_BUFFER_SIZE \<Longrightarrow> packet_wf (packet0\<lparr>plength := n\<rparr>)"
  "unat n \<le> CSP_BUFFER_SIZE \<Longrightarrow> packet_wf (packet0\<lparr>plength := n, pid := i\<rparr>)"
  by (simp_all add: packet_wf_def packet0_def)

end
