(* ===== verification/Csp_Queue.thy ===== *)
theory Csp_Queue
  imports Prelude
begin

text \<open>
  The bounded queue every component of libcsp uses (\<open>src/arch/posix/pthread_queue.c\<close>
  behind \<open>src/arch/posix/csp_queue.c\<close>): a ring buffer with an insert and an extract
  index. The interface \<open>bounded_queue\<close> states it as a bounded first-in first-out list;
  the ring buffer is an interpretation of it.

  Each operation runs under the queue's mutex and is modelled as one atomic step. While
  an operation waits on a condition variable other tasks may run: the argument \<open>ws\<close>
  lists the queue states observed each time the waiting task wakes up, and the end of
  the list is the deadline. With timeout 0 no wait succeeds and the list is empty.
\<close>

section \<open>The ring buffer\<close>

definition CSP_QUEUE_OK :: int where "CSP_QUEUE_OK = 0"
definition CSP_QUEUE_ERROR :: int where "CSP_QUEUE_ERROR = -1"

lemma csp_queue_codes [simp]: "CSP_QUEUE_OK \<noteq> CSP_QUEUE_ERROR" "CSP_QUEUE_ERROR \<noteq> CSP_QUEUE_OK"
  by (simp_all add: CSP_QUEUE_OK_def CSP_QUEUE_ERROR_def)

record 'a pthread_queue =
  qbuffer :: "'a list"
  qsize :: nat
  qitems :: nat
  q_in :: nat
  q_out :: nat

text \<open>The fresh memory holds some element \<open>junk\<close> in every slot. \<open>None\<close> is a failed
  allocation or a failed initialisation of the mutex or a condition variable.\<close>

definition pthread_queue_create :: "bool \<Rightarrow> 'a \<Rightarrow> nat \<Rightarrow> 'a pthread_queue option" where
  "pthread_queue_create ok junk len =
     (if ok then Some \<lparr>qbuffer = replicate len junk, qsize = len, qitems = 0, q_in = 0, q_out = 0\<rparr>
      else None)"

fun wait_slot_available :: "'a pthread_queue \<Rightarrow> 'a pthread_queue list \<Rightarrow> int \<times> 'a pthread_queue" where
  "wait_slot_available q [] = (if qitems q = qsize q then CSP_QUEUE_ERROR else CSP_QUEUE_OK, q)"
| "wait_slot_available q (q' # ws) =
     (if qitems q = qsize q then wait_slot_available q' ws else (CSP_QUEUE_OK, q))"

definition pthread_queue_enqueue ::
    "'a pthread_queue list \<Rightarrow> 'a \<Rightarrow> 'a pthread_queue \<Rightarrow> int \<times> 'a pthread_queue" where
  "pthread_queue_enqueue ws v q =
     (case wait_slot_available q ws of (ret, q) \<Rightarrow>
        if ret = CSP_QUEUE_OK
        then (ret, q\<lparr>qbuffer := (qbuffer q)[q_in q := v], qitems := qitems q + 1,
                     q_in := (q_in q + 1) mod qsize q\<rparr>)
        else (ret, q))"

fun wait_item_available :: "'a pthread_queue \<Rightarrow> 'a pthread_queue list \<Rightarrow> int \<times> 'a pthread_queue" where
  "wait_item_available q [] = (if qitems q = 0 then CSP_QUEUE_ERROR else CSP_QUEUE_OK, q)"
| "wait_item_available q (q' # ws) =
     (if qitems q = 0 then wait_item_available q' ws else (CSP_QUEUE_OK, q))"

definition pthread_queue_dequeue ::
    "'a pthread_queue list \<Rightarrow> 'a pthread_queue \<Rightarrow> 'a option \<times> 'a pthread_queue" where
  "pthread_queue_dequeue ws q =
     (case wait_item_available q ws of (ret, q) \<Rightarrow>
        if ret = CSP_QUEUE_OK
        then (Some (qbuffer q ! q_out q), q\<lparr>qitems := qitems q - 1, q_out := (q_out q + 1) mod qsize q\<rparr>)
        else (None, q))"

definition pthread_queue_items :: "'a pthread_queue \<Rightarrow> nat" where
  "pthread_queue_items q = qitems q"

definition pthread_queue_free :: "'a pthread_queue \<Rightarrow> nat" where
  "pthread_queue_free q = qsize q - qitems q"

section \<open>The portable queue calls\<close>

definition csp_queue_enqueue :: "'a \<Rightarrow> 'a pthread_queue \<Rightarrow> int \<times> 'a pthread_queue" where
  "csp_queue_enqueue v q = pthread_queue_enqueue [] v q"

definition csp_queue_dequeue :: "'a pthread_queue \<Rightarrow> 'a option \<times> 'a pthread_queue" where
  "csp_queue_dequeue q = pthread_queue_dequeue [] q"

definition csp_queue_size :: "'a pthread_queue \<Rightarrow> nat" where
  "csp_queue_size q = pthread_queue_items q"

definition csp_queue_free :: "'a pthread_queue \<Rightarrow> nat" where
  "csp_queue_free q = pthread_queue_free q"

section \<open>The interface\<close>

locale bounded_queue =
  fixes enq :: "'a \<Rightarrow> 'q \<Rightarrow> int \<times> 'q"
    and deq :: "'q \<Rightarrow> 'a option \<times> 'q"
    and qlen :: "'q \<Rightarrow> nat"
    and qfree :: "'q \<Rightarrow> nat"
    and contents :: "'q \<Rightarrow> 'a list"
    and invar :: "'q \<Rightarrow> bool"
  assumes qlen_eq: "invar q \<Longrightarrow> qlen q = length (contents q)"
    and enq_ok: "invar q \<Longrightarrow> 0 < qfree q \<Longrightarrow> \<exists>q'. enq v q = (CSP_QUEUE_OK, q') \<and> invar q'
        \<and> contents q' = contents q @ [v] \<and> Suc (qfree q') = qfree q"
    and enq_full: "invar q \<Longrightarrow> qfree q = 0 \<Longrightarrow> enq v q = (CSP_QUEUE_ERROR, q)"
    and deq_some: "invar q \<Longrightarrow> contents q = v # vs \<Longrightarrow> \<exists>q'. deq q = (Some v, q') \<and> invar q'
        \<and> contents q' = vs \<and> qfree q' = Suc (qfree q)"
    and deq_none: "invar q \<Longrightarrow> contents q = [] \<Longrightarrow> deq q = (None, q)"

fun enqueue_all :: "('a \<Rightarrow> 'q \<Rightarrow> int \<times> 'q) \<Rightarrow> 'a list \<Rightarrow> 'q \<Rightarrow> 'q" where
  "enqueue_all enq [] q = q"
| "enqueue_all enq (v # vs) q = enqueue_all enq vs (snd (enq v q))"

fun dequeue_n :: "('q \<Rightarrow> 'a option \<times> 'q) \<Rightarrow> nat \<Rightarrow> 'q \<Rightarrow> 'a option list" where
  "dequeue_n deq 0 q = []"
| "dequeue_n deq (Suc n) q = fst (deq q) # dequeue_n deq n (snd (deq q))"

context bounded_queue
begin

lemma invar_enq: "invar q \<Longrightarrow> invar (snd (enq v q))"
  using enq_ok [of q v] enq_full [of q v] by (cases "qfree q") auto

lemma invar_deq: "invar q \<Longrightarrow> invar (snd (deq q))"
  using deq_some [of q] deq_none [of q] by (cases "contents q") fastforce+

lemma contents_enq:
  "invar q \<Longrightarrow> contents (snd (enq v q)) = contents q @ (if 0 < qfree q then [v] else [])"
  using enq_ok [of q v] enq_full [of q v] by (cases "qfree q") auto

lemma contents_deq: "invar q \<Longrightarrow> contents (snd (deq q)) = tl (contents q)"
  using deq_some [of q] deq_none [of q] by (cases "contents q") fastforce+

lemma deq_hd: "invar q \<Longrightarrow> fst (deq q) = (case contents q of [] \<Rightarrow> None | v # _ \<Rightarrow> Some v)"
  using deq_some [of q] deq_none [of q] by (cases "contents q") fastforce+

lemma enqueue_all_contents:
  "invar q \<Longrightarrow> length vs \<le> qfree q \<Longrightarrow>
     invar (enqueue_all enq vs q) \<and> contents (enqueue_all enq vs q) = contents q @ vs"
proof (induction vs arbitrary: q)
  case (Cons v vs)
  then obtain q' where q': "enq v q = (CSP_QUEUE_OK, q')" "invar q'" "contents q' = contents q @ [v]"
    "Suc (qfree q') = qfree q"
    using enq_ok [of q v] by auto
  then show ?case using Cons.IH [of q'] Cons.prems by simp
qed simp

lemma dequeue_n_contents:
  "invar q \<Longrightarrow> dequeue_n deq n q = map Some (take n (contents q)) @ replicate (n - length (contents q)) None"
proof (induction n arbitrary: q)
  case (Suc n)
  show ?case
  proof (cases "contents q")
    case Nil
    then show ?thesis using Suc deq_none [of q] by simp
  next
    case (Cons v vs)
    then obtain q' where "deq q = (Some v, q')" "invar q'" "contents q' = vs"
      using Suc.prems deq_some [of q] by blast
    then show ?thesis using Suc.IH [of q'] Cons by simp
  qed
qed simp

text \<open>First in, first out: what was put in comes out in order, after what was there.\<close>

lemma fifo:
  assumes "invar q" and "length vs \<le> qfree q" and "n = length (contents q) + length vs"
  shows "dequeue_n deq n (enqueue_all enq vs q) = map Some (contents q @ vs)"
  using enqueue_all_contents [OF assms(1,2)] dequeue_n_contents [of "enqueue_all enq vs q" n] assms(3)
  by simp

end

section \<open>The ring buffer implements the interface\<close>

definition queue_inv :: "'a pthread_queue \<Rightarrow> bool" where
  "queue_inv q \<longleftrightarrow> 0 < qsize q \<and> length (qbuffer q) = qsize q \<and> qitems q \<le> qsize q
     \<and> q_out q < qsize q \<and> q_in q = (q_out q + qitems q) mod qsize q"

definition queue_list :: "'a pthread_queue \<Rightarrow> 'a list" where
  "queue_list q = map (\<lambda>k. qbuffer q ! ((q_out q + k) mod qsize q)) [0..<qitems q]"

lemma length_queue_list: "length (queue_list q) = qitems q"
  by (simp add: queue_list_def)

lemma ring_index_neq:
  "k < items \<Longrightarrow> items < sz \<Longrightarrow> (start + k) mod sz \<noteq> (start + items) mod (sz::nat)"
proof
  assume less: "k < items" "items < sz" and eq: "(start + k) mod sz = (start + items) mod sz"
  have "sz dvd (start + items) - (start + k)"
    using eq less mod_eq_dvd_iff_nat [of "start + k" "start + items" sz] by simp
  then have "sz \<le> items - k"
    using less by (intro dvd_imp_le) simp_all
  with less show False by simp
qed

interpretation ring: bounded_queue csp_queue_enqueue csp_queue_dequeue csp_queue_size csp_queue_free
  queue_list queue_inv
proof unfold_locales
  fix q :: "'a pthread_queue" and v
  assume inv: "queue_inv q" and room: "0 < csp_queue_free q"
  let ?q = "q\<lparr>qbuffer := (qbuffer q)[q_in q := v], qitems := qitems q + 1, q_in := (q_in q + 1) mod qsize q\<rparr>"
  have less: "qitems q < qsize q"
    using room by (simp add: csp_queue_free_def pthread_queue_free_def)
  have old: "(qbuffer q)[q_in q := v] ! ((q_out q + k) mod qsize q) = qbuffer q ! ((q_out q + k) mod qsize q)"
    if "k < qitems q" for k
    using that less inv ring_index_neq [of k "qitems q" "qsize q" "q_out q"] by (simp add: queue_inv_def)
  have new: "(qbuffer q)[q_in q := v] ! ((q_out q + qitems q) mod qsize q) = v"
    using inv by (simp add: queue_inv_def)
  have "queue_list ?q = queue_list q @ [v]"
    using old new by (simp add: queue_list_def)
  moreover have "queue_inv ?q"
    using inv less by (simp add: queue_inv_def mod_Suc_eq)
  moreover have "csp_queue_enqueue v q = (CSP_QUEUE_OK, ?q)"
    using less by (simp add: csp_queue_enqueue_def pthread_queue_enqueue_def)
  ultimately show "\<exists>q'. csp_queue_enqueue v q = (CSP_QUEUE_OK, q') \<and> queue_inv q'
      \<and> queue_list q' = queue_list q @ [v] \<and> Suc (csp_queue_free q') = csp_queue_free q"
    using less by (simp add: csp_queue_free_def pthread_queue_free_def)
next
  fix q :: "'a pthread_queue" and v
  assume "queue_inv q" and "csp_queue_free q = 0"
  then show "csp_queue_enqueue v q = (CSP_QUEUE_ERROR, q)"
    by (simp add: csp_queue_free_def pthread_queue_free_def csp_queue_enqueue_def
        pthread_queue_enqueue_def queue_inv_def)
next
  fix q :: "'a pthread_queue" and v vs
  assume inv: "queue_inv q" and cs: "queue_list q = v # vs"
  let ?q = "q\<lparr>qitems := qitems q - 1, q_out := (q_out q + 1) mod qsize q\<rparr>"
  have items: "qitems q = Suc (length vs)" using arg_cong [OF cs, of length] by (simp add: length_queue_list)
  have upt: "[0..<qitems q] = 0 # map Suc [0..<length vs]"
    by (simp add: items map_Suc_upt upt_conv_Cons del: upt_Suc)
  have v: "v = qbuffer q ! q_out q"
    and vs: "vs = map (\<lambda>k. qbuffer q ! ((q_out q + Suc k) mod qsize q)) [0..<length vs]"
    using cs inv by (simp_all add: queue_list_def upt queue_inv_def comp_def del: upt_Suc)
  have "queue_list ?q = map (\<lambda>k. qbuffer q ! ((q_out q + Suc k) mod qsize q)) [0..<length vs]"
    by (simp add: queue_list_def items mod_add_left_eq)
  then have "queue_list ?q = vs" using vs by simp
  moreover have "queue_inv ?q"
    using inv by (simp add: queue_inv_def items mod_add_left_eq)
  moreover have "csp_queue_dequeue q = (Some v, ?q)"
    by (simp add: csp_queue_dequeue_def pthread_queue_dequeue_def items v)
  ultimately show "\<exists>q'. csp_queue_dequeue q = (Some v, q') \<and> queue_inv q'
      \<and> queue_list q' = vs \<and> csp_queue_free q' = Suc (csp_queue_free q)"
    using inv by (simp add: csp_queue_free_def pthread_queue_free_def items queue_inv_def Suc_diff_Suc)
qed (auto simp: csp_queue_size_def pthread_queue_items_def csp_queue_dequeue_def
      pthread_queue_dequeue_def queue_list_def length_queue_list)

lemma qsize_enq [simp]: "qsize (snd (csp_queue_enqueue v q)) = qsize q"
  by (simp add: csp_queue_enqueue_def pthread_queue_enqueue_def)

lemma qsize_deq [simp]: "qsize (snd (csp_queue_dequeue q)) = qsize q"
  by (simp add: csp_queue_dequeue_def pthread_queue_dequeue_def)

lemma queue_free_iff: "queue_inv q \<Longrightarrow> 0 < csp_queue_free q \<longleftrightarrow> length (queue_list q) < qsize q"
  by (auto simp: csp_queue_free_def pthread_queue_free_def length_queue_list)

lemmas ring_facts = ring.invar_enq ring.invar_deq ring.contents_enq ring.contents_deq ring.deq_hd

lemma queue_create_inv:
  "0 < len \<Longrightarrow> pthread_queue_create True junk len = Some q \<Longrightarrow>
     queue_inv q \<and> queue_list q = [] \<and> csp_queue_free q = len"
  by (auto simp: pthread_queue_create_def queue_inv_def queue_list_def csp_queue_free_def pthread_queue_free_def)

section \<open>Properties of the queue\<close>


definition wrapped_queue :: "nat pthread_queue" where
  "wrapped_queue = \<lparr>qbuffer = [0, 0, 5], qsize = 3, qitems = 1, q_in = 0, q_out = 2\<rparr>"


lemma wait_slot_available_state:
  "\<exists>s \<in> set (q # ws). wait_slot_available q ws =
     (if qitems s = qsize s then CSP_QUEUE_ERROR else CSP_QUEUE_OK, s)"
  by (induction q ws rule: wait_slot_available.induct) simp_all



end
