(* ===== verification/Csp_Buffer.thy ===== *)
theory Csp_Buffer
  imports Csp_Types Csp_Queue
begin

text \<open>
  The packet buffer pool of \<open>src/csp_buffer.c\<close>. The pool is the array of buffers (a
  pointer to a packet is the index of its buffer, \<open>NULL\<close> is \<open>None\<close>) and the queue of
  free buffers. All functions are polymorphic in the rest of the state, so that the
  components above the pool run them on their own, larger state.
  The \<open>_isr\<close> variants differ from the task variants in the queue call only, which this
  platform implements by the same function.
\<close>

section \<open>State and operations\<close>

record csp_skbf =
  refcount :: u32
  skbf_addr :: nat
  skbf_data :: csp_packet

record csp_pool =
  bufs :: "csp_skbf list"
  csp_buffers :: "nat pthread_queue"
  dbg :: csp_dbg

type_synonym 'a pool = "'a csp_pool_scheme"

text \<open>The packet a handle points to, and an assignment through that pointer.\<close>

definition pkt :: "'a pool \<Rightarrow> nat \<Rightarrow> csp_packet" where
  "pkt s h = skbf_data (bufs s ! h)"

definition set_pkt :: "nat \<Rightarrow> csp_packet \<Rightarrow> 'a pool \<Rightarrow> 'a pool" where
  "set_pkt h p s = s\<lparr>bufs := (bufs s)[h := (bufs s ! h)\<lparr>skbf_data := p\<rparr>]\<rparr>"

definition set_refcount :: "nat \<Rightarrow> u32 \<Rightarrow> 'a pool \<Rightarrow> 'a pool" where
  "set_refcount h n s = s\<lparr>bufs := (bufs s)[h := (bufs s ! h)\<lparr>refcount := n\<rparr>]\<rparr>"

definition set_errno :: "u8 \<Rightarrow> 'a pool \<Rightarrow> 'a pool" where
  "set_errno e s = s\<lparr>dbg := (dbg s)\<lparr>csp_dbg_errno := e\<rparr>\<rparr>"

text \<open>The pool memory is not initialised at start; \<open>mem\<close> is what it holds.\<close>

definition csp_buffer_init :: "csp_skbf list \<Rightarrow> 'a pool \<Rightarrow> 'a pool" where
  "csp_buffer_init mem s =
     s\<lparr>bufs := map (\<lambda>i. (mem ! i)\<lparr>skbf_addr := i\<rparr>) [0..<CSP_BUFFER_COUNT],
       csp_buffers := enqueue_all csp_queue_enqueue [0..<CSP_BUFFER_COUNT]
         (the (pthread_queue_create True 0 CSP_BUFFER_COUNT))\<rparr>"

definition csp_buffer_get :: "'a pool \<Rightarrow> nat option \<times> 'a pool" where
  "csp_buffer_get s =
     (case csp_queue_dequeue (csp_buffers s) of
        (None, q) \<Rightarrow>
          (None, s\<lparr>csp_buffers := q, dbg := (dbg s)\<lparr>csp_dbg_buffer_out := csp_dbg_buffer_out (dbg s) + 1\<rparr>\<rparr>)
      | (Some b, q) \<Rightarrow>
          (let s = s\<lparr>csp_buffers := q\<rparr>
           in if b \<noteq> skbf_addr (bufs s ! b) then (None, set_errno CSP_DBG_ERR_CORRUPT_BUFFER s)
              else (Some b, set_pkt b ((pkt s b)\<lparr>pid := csp_id_clear\<rparr>) (set_refcount b 1 s))))"

definition csp_buffer_free :: "nat option \<Rightarrow> 'a pool \<Rightarrow> 'a pool" where
  "csp_buffer_free p s =
     (case p of None \<Rightarrow> s
      | Some b \<Rightarrow>
          if skbf_addr (bufs s ! b) \<noteq> b then set_errno CSP_DBG_ERR_CORRUPT_BUFFER s
          else if refcount (bufs s ! b) = 0 then set_errno CSP_DBG_ERR_ALREADY_FREE s
          else
            let s = set_refcount b (refcount (bufs s ! b) - 1) s
            in if 0 < refcount (bufs s ! b) then set_errno CSP_DBG_ERR_REFCOUNT s
               else s\<lparr>csp_buffers := snd (csp_queue_enqueue b (csp_buffers s))\<rparr>)"

text \<open>The copy covers the fields, the header area and the payload with
  \<open>CSP_PACKET_PADDING_BYTES\<close> bytes more, never more than the structure.\<close>

definition clone_packet :: "csp_packet \<Rightarrow> csp_packet \<Rightarrow> csp_packet" where
  "clone_packet p old =
     p\<lparr>pmem := mwrite 0 (take (CSP_PACKET_PADDING_BYTES +
                   min CSP_BUFFER_SIZE (CSP_PACKET_PADDING_BYTES + unat (plength p))) (pmem p)) (pmem old)\<rparr>"

definition csp_buffer_clone :: "nat option \<Rightarrow> 'a pool \<Rightarrow> nat option \<times> 'a pool" where
  "csp_buffer_clone buffer s =
     (case buffer of None \<Rightarrow> (None, s)
      | Some h \<Rightarrow>
          (case csp_buffer_get s of
             (None, s) \<Rightarrow> (None, s)
           | (Some c, s) \<Rightarrow> (Some c, set_pkt c (clone_packet (pkt s h) (pkt s c)) s)))"

definition csp_buffer_refc_inc :: "nat option \<Rightarrow> 'a pool \<Rightarrow> 'a pool" where
  "csp_buffer_refc_inc buffer s =
     (case buffer of None \<Rightarrow> set_errno CSP_DBG_ERR_INVALID_POINTER s
      | Some b \<Rightarrow>
          if skbf_addr (bufs s ! b) \<noteq> b then set_errno CSP_DBG_ERR_CORRUPT_BUFFER s
          else set_refcount b (refcount (bufs s ! b) + 1) s)"

definition csp_buffer_remaining :: "'a pool \<Rightarrow> nat" where
  "csp_buffer_remaining s = csp_queue_size (csp_buffers s)"

section \<open>Invariant\<close>

text \<open>The handles in the free queue are distinct and in range, every buffer carries its own
  address, its memory has the size of the C arrays, and a buffer outside the free queue
  has a positive reference count.\<close>

abbreviation free_list :: "'a pool \<Rightarrow> nat list" where
  "free_list s \<equiv> queue_list (csp_buffers s)"

definition pool_inv :: "'a pool \<Rightarrow> bool" where
  "pool_inv s \<longleftrightarrow> queue_inv (csp_buffers s) \<and> qsize (csp_buffers s) = length (bufs s)
     \<and> distinct (free_list s) \<and> set (free_list s) \<subseteq> {..<length (bufs s)}
     \<and> (\<forall>h < length (bufs s). skbf_addr (bufs s ! h) = h \<and> packet_wf (pkt s h))
     \<and> (\<forall>h < length (bufs s). h \<notin> set (free_list s) \<longrightarrow> 0 < refcount (bufs s ! h))"

lemma csp_buffer_remaining_length: "csp_buffer_remaining s = length (free_list s)"
  by (simp add: csp_buffer_remaining_def csp_queue_size_def pthread_queue_items_def length_queue_list)

definition allocated :: "'a pool \<Rightarrow> nat set" where
  "allocated s = {h. h < length (bufs s) \<and> h \<notin> set (free_list s)}"

lemma finite_allocated [simp]: "finite (allocated s)"
  by (simp add: allocated_def)

lemma pool_acct:
  assumes "pool_inv s"
  shows "csp_buffer_remaining s + card (allocated s) = length (bufs s)"
proof -
  have "allocated s = {..<length (bufs s)} - set (free_list s)"
    by (auto simp: allocated_def)
  then have "card (allocated s) = length (bufs s) - card (set (free_list s))"
    using assms by (simp add: card_Diff_subset pool_inv_def)
  moreover have "card (set (free_list s)) = csp_buffer_remaining s"
    using assms by (simp add: distinct_card pool_inv_def csp_buffer_remaining_length)
  moreover have "card (set (free_list s)) \<le> length (bufs s)"
    using assms card_mono [of "{..<length (bufs s)}" "set (free_list s)"] by (simp add: pool_inv_def)
  ultimately show ?thesis by simp
qed

section \<open>Effect of the operations\<close>

lemma pkt_set_pkt [simp]: "h < length (bufs s) \<Longrightarrow> pkt (set_pkt h p s) h = p"
  by (simp add: pkt_def set_pkt_def)

lemma pkt_set_pkt_other [simp]: "h \<noteq> k \<Longrightarrow> pkt (set_pkt k p s) h = pkt s h"
  by (simp add: pkt_def set_pkt_def)

lemma set_pkt_frame [simp]:
  "csp_buffers (set_pkt h p s) = csp_buffers s" "length (bufs (set_pkt h p s)) = length (bufs s)"
  "dbg (set_pkt h p s) = dbg s" "allocated (set_pkt h p s) = allocated s"
  by (simp_all add: set_pkt_def allocated_def)

lemma set_errno_frame [simp]:
  "csp_buffers (set_errno e s) = csp_buffers s" "bufs (set_errno e s) = bufs s"
  "pkt (set_errno e s) h = pkt s h" "pool_inv (set_errno e s) = pool_inv s"
  "allocated (set_errno e s) = allocated s"
  by (simp_all add: set_errno_def pkt_def pool_inv_def allocated_def)

lemma pool_inv_set_pkt: "pool_inv s \<Longrightarrow> packet_wf p \<Longrightarrow> pool_inv (set_pkt h p s)"
  by (auto simp: pool_inv_def set_pkt_def pkt_def nth_update_if)

lemma packet_wf_pid [simp]: "packet_wf (p\<lparr>pid := i\<rparr>) = packet_wf p"
  by (simp add: packet_wf_def)

lemma csp_buffer_get_Some:
  assumes "pool_inv s" and "free_list s = b # bs"
  obtains s' where "csp_buffer_get s = (Some b, s')" "pool_inv s'" "free_list s' = bs"
    "length (bufs s') = length (bufs s)" "\<And>h. h \<noteq> b \<Longrightarrow> bufs s' ! h = bufs s ! h"
    "pkt s' b = (pkt s b)\<lparr>pid := csp_id_clear\<rparr>" "refcount (bufs s' ! b) = 1"
    "csp_pool.more s' = csp_pool.more s" "dbg s' = dbg s"
proof -
  have qi: "queue_inv (csp_buffers s)" and b: "b < length (bufs s)" and "b \<notin> set bs"
    using assms by (auto simp: pool_inv_def)
  obtain q where q: "csp_queue_dequeue (csp_buffers s) = (Some b, q)" "queue_inv q" "queue_list q = bs"
    using ring.deq_some [OF qi assms(2)] by blast
  have qs: "qsize q = qsize (csp_buffers s)"
    using qsize_deq [of "csp_buffers s"] q(1) by simp
  define s' where "s' = set_pkt b ((pkt s b)\<lparr>pid := csp_id_clear\<rparr>) (set_refcount b 1 (s\<lparr>csp_buffers := q\<rparr>))"
  have "csp_buffer_get s = (Some b, s')"
    using assms(1) b by (simp add: csp_buffer_get_def q Let_def s'_def pool_inv_def pkt_def)
  moreover have "pool_inv s'"
    using assms q qs b \<open>b \<notin> set bs\<close>
    by (auto simp: pool_inv_def s'_def set_pkt_def set_refcount_def pkt_def nth_update_if)
  ultimately show ?thesis
    using b q(3)
    by (intro that [of s']) (auto simp: s'_def set_pkt_def set_refcount_def pkt_def)
qed

lemma csp_buffer_get_None:
  assumes "pool_inv s" and "free_list s = []"
  shows "csp_buffer_get s =
    (None, s\<lparr>dbg := (dbg s)\<lparr>csp_dbg_buffer_out := csp_dbg_buffer_out (dbg s) + 1\<rparr>\<rparr>)"
  using assms ring.deq_none [of "csp_buffers s"] by (simp add: csp_buffer_get_def pool_inv_def)

lemma csp_buffer_free_last:
  assumes "pool_inv s" and "b \<in> allocated s" and "refcount (bufs s ! b) = 1"
  obtains s' where "csp_buffer_free (Some b) s = s'" "pool_inv s'" "free_list s' = free_list s @ [b]"
    "length (bufs s') = length (bufs s)" "\<And>h. pkt s' h = pkt s h"
    "\<And>h. h \<noteq> b \<Longrightarrow> bufs s' ! h = bufs s ! h" "refcount (bufs s' ! b) = 0"
    "csp_pool.more s' = csp_pool.more s" "dbg s' = dbg s"
proof -
  have qi: "queue_inv (csp_buffers s)" and b: "b < length (bufs s)" and nb: "b \<notin> set (free_list s)"
    using assms by (auto simp: pool_inv_def allocated_def)
  have "card (set (b # free_list s)) \<le> card {..<length (bufs s)}"
    using assms(1) b by (intro card_mono) (auto simp: pool_inv_def)
  then have "length (free_list s) < qsize (csp_buffers s)"
    using assms(1) nb by (simp add: pool_inv_def distinct_card)
  then have "0 < csp_queue_free (csp_buffers s)"
    using queue_free_iff [OF qi] by simp
  then obtain q where q: "csp_queue_enqueue b (csp_buffers s) = (CSP_QUEUE_OK, q)" "queue_inv q"
    "queue_list q = free_list s @ [b]"
    using ring.enq_ok [OF qi] by blast
  have qs: "qsize q = qsize (csp_buffers s)"
    using qsize_enq [of b "csp_buffers s"] q(1) by simp
  define s' where "s' = (set_refcount b 0 s)\<lparr>csp_buffers := q\<rparr>"
  have "csp_buffer_free (Some b) s = s'"
    using assms b by (simp add: csp_buffer_free_def pool_inv_def s'_def q Let_def set_refcount_def)
  moreover have "pool_inv s'"
    using assms q qs b nb
    by (auto simp: pool_inv_def s'_def set_refcount_def pkt_def nth_update_if)
  ultimately show ?thesis
    using b q(3) by (intro that [of s']) (auto simp: s'_def set_refcount_def pkt_def nth_update_if)
qed

lemma csp_buffer_free_shared:
  assumes "pool_inv s" and "b < length (bufs s)" and "1 < refcount (bufs s ! b)"
  shows "csp_buffer_free (Some b) s =
    set_errno CSP_DBG_ERR_REFCOUNT (set_refcount b (refcount (bufs s ! b) - 1) s)"
  using assms by (auto simp: csp_buffer_free_def pool_inv_def Let_def set_refcount_def word_gt_0)

lemma packet_wf_clone:
  assumes "packet_wf p" and "packet_wf old"
  shows "packet_wf (clone_packet p old)" "pdata (clone_packet p old) = pdata p"
    "pid (clone_packet p old) = pid p" "plength (clone_packet p old) = plength p"
proof -
  let ?n = "CSP_PACKET_PADDING_BYTES + min CSP_BUFFER_SIZE (CSP_PACKET_PADDING_BYTES + unat (plength p))"
  have n: "?n \<le> length (pmem p)" "?n \<le> length (pmem old)"
    "CSP_PACKET_PADDING_BYTES + unat (plength p) \<le> ?n"
    using assms by (simp_all add: packet_wf_def)
  show "packet_wf (clone_packet p old)"
    using assms n by (simp add: packet_wf_def clone_packet_def)
  have "mread (data_at 0) (unat (plength p)) (mwrite 0 (take ?n (pmem p)) (pmem old))
      = mread (data_at 0) (unat (plength p)) (pmem p)"
  proof (rule nth_equalityI)
    fix i assume i: "i < length (mread (data_at 0) (unat (plength p)) (mwrite 0 (take ?n (pmem p)) (pmem old)))"
    then have "data_at 0 + i < ?n" "i < unat (plength p)" using n by (simp_all add: data_at_def)
    then show "mread (data_at 0) (unat (plength p)) (mwrite 0 (take ?n (pmem p)) (pmem old)) ! i
        = mread (data_at 0) (unat (plength p)) (pmem p) ! i"
      using n by (simp add: nth_mwrite)
  qed (use n assms in \<open>simp add: packet_wf_def\<close>)
  then show "pdata (clone_packet p old) = pdata p"
    by (simp add: pdata_def clone_packet_def)
qed (simp_all add: clone_packet_def)

lemma csp_buffer_clone_Some:
  assumes "pool_inv s" and "free_list s = b # bs" and "h \<in> allocated s"
  obtains s' where "csp_buffer_clone (Some h) s = (Some b, s')" "pool_inv s'" "free_list s' = bs"
    "length (bufs s') = length (bufs s)" "\<And>k. k \<noteq> b \<Longrightarrow> bufs s' ! k = bufs s ! k"
    "pkt s' b = clone_packet (pkt s h) ((pkt s b)\<lparr>pid := csp_id_clear\<rparr>)"
    "refcount (bufs s' ! b) = 1" "csp_pool.more s' = csp_pool.more s" "dbg s' = dbg s"
proof -
  have hb: "h \<noteq> b" "h < length (bufs s)" "b < length (bufs s)"
    using assms by (auto simp: allocated_def pool_inv_def)
  obtain t where t: "csp_buffer_get s = (Some b, t)" "pool_inv t" "free_list t = bs"
    "length (bufs t) = length (bufs s)" "\<And>k. k \<noteq> b \<Longrightarrow> bufs t ! k = bufs s ! k"
    "pkt t b = (pkt s b)\<lparr>pid := csp_id_clear\<rparr>" "refcount (bufs t ! b) = 1"
    "csp_pool.more t = csp_pool.more s" "dbg t = dbg s"
    by (rule csp_buffer_get_Some [OF assms(1,2)]) blast
  have ph: "pkt t h = pkt s h" using t(5) hb(1) by (simp add: pkt_def)
  let ?s = "set_pkt b (clone_packet (pkt t h) (pkt t b)) t"
  have "packet_wf (pkt t h)" "packet_wf (pkt t b)"
    using t(2,4) hb by (simp_all add: pool_inv_def)
  then have "pool_inv ?s"
    using t(2) by (intro pool_inv_set_pkt packet_wf_clone)
  moreover have "csp_buffer_clone (Some h) s = (Some b, ?s)"
    by (simp add: csp_buffer_clone_def t)
  ultimately show ?thesis
    using t hb by (intro that [of ?s]) (auto simp: ph set_pkt_def pkt_def)
qed

lemma csp_buffer_clone_None:
  assumes "pool_inv s" and "free_list s = []"
  shows "csp_buffer_clone (Some h) s =
    (None, s\<lparr>dbg := (dbg s)\<lparr>csp_dbg_buffer_out := csp_dbg_buffer_out (dbg s) + 1\<rparr>\<rparr>)"
  by (simp add: csp_buffer_clone_def csp_buffer_get_None [OF assms])

section \<open>The pool as a state machine\<close>

text \<open>What the tasks of a node do with the pool: allocate, release any pointer into the
  pool (also one that was released before), clone, take another reference and write
  through a pointer they hold.\<close>

inductive pool_step :: "csp_pool \<Rightarrow> csp_pool \<Rightarrow> bool" where
  get: "csp_buffer_get s = (r, t) \<Longrightarrow> pool_step s t"
| free: "h < length (bufs s) \<Longrightarrow> csp_buffer_free (Some h) s = t \<Longrightarrow> pool_step s t"
| clone: "h \<in> allocated s \<Longrightarrow> csp_buffer_clone (Some h) s = (r, t) \<Longrightarrow> pool_step s t"
| refc_inc: "h \<in> allocated s \<Longrightarrow> refcount (bufs s ! h) < - 1 \<Longrightarrow>
    csp_buffer_refc_inc (Some h) s = t \<Longrightarrow> pool_step s t"
| write_pkt: "h \<in> allocated s \<Longrightarrow> packet_wf p \<Longrightarrow> set_pkt h p s = t \<Longrightarrow> pool_step s t"

inductive_cases pool_step_elims: "pool_step s t"

text \<open>With zeroed buffer memory at start, exactly the free buffers have reference count 0.\<close>

definition pool_strict :: "'a pool \<Rightarrow> bool" where
  "pool_strict s \<longleftrightarrow> pool_inv s \<and> (\<forall>h \<in> set (free_list s). refcount (bufs s ! h) = 0)"

lemma pool_strict_refcount:
  "pool_strict s \<Longrightarrow> h < length (bufs s) \<Longrightarrow> refcount (bufs s ! h) = 0 \<longleftrightarrow> h \<in> set (free_list s)"
  by (auto simp: pool_strict_def pool_inv_def)

lemma pool_strict_get:
  assumes "pool_strict s" and "csp_buffer_get s = (r, t)"
  shows "pool_strict t \<and> length (bufs t) = length (bufs s)"
proof (cases "free_list s")
  case Nil
  then show ?thesis
    using assms csp_buffer_get_None [of s] by (auto simp: pool_strict_def pool_inv_def pkt_def)
next
  case (Cons b bs)
  have inv: "pool_inv s" using assms(1) by (simp add: pool_strict_def)
  then have "b \<notin> set bs" using Cons by (simp add: pool_inv_def)
  obtain t' where t': "csp_buffer_get s = (Some b, t')" "pool_inv t'" "free_list t' = bs"
    "length (bufs t') = length (bufs s)" "\<And>h. h \<noteq> b \<Longrightarrow> bufs t' ! h = bufs s ! h"
    by (rule csp_buffer_get_Some [OF inv Cons]) blast
  have "bufs t' ! k = bufs s ! k" if "k \<in> set bs" for k
    using that t'(5) \<open>b \<notin> set bs\<close> by metis
  with t'(1-4) show ?thesis
    using assms Cons by (auto simp: pool_strict_def)
qed

lemma pool_strict_clone:
  assumes "pool_strict s" and "h \<in> allocated s" and "csp_buffer_clone (Some h) s = (r, t)"
  shows "pool_strict t \<and> length (bufs t) = length (bufs s)"
proof (cases "free_list s")
  case Nil
  then show ?thesis
    using assms csp_buffer_clone_None [of s] by (auto simp: pool_strict_def pool_inv_def pkt_def)
next
  case (Cons b bs)
  have inv: "pool_inv s" using assms(1) by (simp add: pool_strict_def)
  then have "b \<notin> set bs" using Cons by (simp add: pool_inv_def)
  obtain t' where t': "csp_buffer_clone (Some h) s = (Some b, t')" "pool_inv t'" "free_list t' = bs"
    "length (bufs t') = length (bufs s)" "\<And>k. k \<noteq> b \<Longrightarrow> bufs t' ! k = bufs s ! k"
    by (rule csp_buffer_clone_Some [OF inv Cons assms(2)]) blast
  have "bufs t' ! k = bufs s ! k" if "k \<in> set bs" for k
    using that t'(5) \<open>b \<notin> set bs\<close> by metis
  with t'(1-4) show ?thesis
    using assms Cons by (auto simp: pool_strict_def)
qed

lemma pool_strict_set_refcount:
  "pool_strict s \<Longrightarrow> h \<in> allocated s \<Longrightarrow> 0 < n \<Longrightarrow> pool_strict (set_refcount h n s)"
  by (auto simp: pool_strict_def pool_inv_def set_refcount_def pkt_def allocated_def nth_update_if)

lemma csp_buffer_free_released:
  assumes "pool_strict s" and "h \<in> set (free_list s)"
  shows "csp_buffer_free (Some h) s = set_errno CSP_DBG_ERR_ALREADY_FREE s"
  using assms by (auto simp: csp_buffer_free_def pool_strict_def pool_inv_def)

lemma pool_strict_free:
  assumes "pool_strict s" and "h < length (bufs s)"
  shows "pool_strict (csp_buffer_free (Some h) s) \<and> length (bufs (csp_buffer_free (Some h) s)) = length (bufs s)"
proof (cases "h \<in> set (free_list s)")
  case True
  then show ?thesis
    using assms by (simp add: csp_buffer_free_released pool_strict_def)
next
  case False
  with assms have h: "h \<in> allocated s" "pool_inv s" "refcount (bufs s ! h) \<noteq> 0"
    by (auto simp: allocated_def pool_strict_def pool_inv_def)
  show ?thesis
  proof (cases "refcount (bufs s ! h) = 1")
    case True
    obtain t where t: "csp_buffer_free (Some h) s = t" "pool_inv t" "free_list t = free_list s @ [h]"
      "length (bufs t) = length (bufs s)" "\<And>k. k \<noteq> h \<Longrightarrow> bufs t ! k = bufs s ! k" "refcount (bufs t ! h) = 0"
      by (rule csp_buffer_free_last [OF h(2,1) True]) blast
    have "bufs t ! k = bufs s ! k" if "k \<in> set (free_list s)" for k
      using that t(5) False by metis
    with t(1-4,6) assms show ?thesis
      by (auto simp: pool_strict_def)
  next
    case ne: False
    then have gt: "1 < refcount (bufs s ! h)"
      using h(3) by (simp add: word_less_nat_alt word_unat_eq_iff)
    then have "0 < refcount (bufs s ! h) - 1"
      by (simp add: word_gt_0)
    then show ?thesis
      using csp_buffer_free_shared [OF h(2) assms(2) gt] pool_strict_set_refcount [OF assms(1) h(1)]
      by (auto simp: pool_strict_def set_refcount_def)
  qed
qed

lemma pool_step_strict:
  "pool_step s t \<Longrightarrow> pool_strict s \<Longrightarrow> pool_strict t \<and> length (bufs t) = length (bufs s)"
proof (induction rule: pool_step.induct)
  case (get s r t) then show ?case using pool_strict_get by blast
next
  case (free h s t) then show ?case using pool_strict_free by blast
next
  case (clone h s r t) then show ?case using pool_strict_clone by blast
next
  case (refc_inc h s t)
  have addr: "skbf_addr (bufs s ! h) = h"
    using refc_inc by (simp add: allocated_def pool_strict_def pool_inv_def)
  have "0 < refcount (bufs s ! h) + 1"
    using refc_inc.hyps(2) by (metis add.commute word_gt_0 less_irrefl neg_eq_iff_add_eq_0)
  then have "pool_strict (set_refcount h (refcount (bufs s ! h) + 1) s)"
    using refc_inc.prems refc_inc.hyps(1) by (intro pool_strict_set_refcount)
  with refc_inc.hyps(3) addr show ?case
    by (auto simp: csp_buffer_refc_inc_def set_refcount_def)
next
  case (write_pkt h s p t)
  then show ?case
    using pool_inv_set_pkt [of s p h] by (auto simp: pool_strict_def set_pkt_def nth_update_if)
qed

section \<open>Reachable pools\<close>

lemma csp_buffer_init_simps:
  assumes "length mem = CSP_BUFFER_COUNT"
  shows "length (bufs (csp_buffer_init mem s)) = CSP_BUFFER_COUNT"
    "queue_inv (csp_buffers (csp_buffer_init mem s))" "free_list (csp_buffer_init mem s) = [0..<CSP_BUFFER_COUNT]"
    "qsize (csp_buffers (csp_buffer_init mem s)) = CSP_BUFFER_COUNT"
proof -
  let ?q = "the (pthread_queue_create True (0::nat) CSP_BUFFER_COUNT)"
  have c: "pthread_queue_create True (0::nat) CSP_BUFFER_COUNT = Some ?q"
    by (simp add: pthread_queue_create_def)
  have q: "queue_inv ?q" "queue_list ?q = []" "csp_queue_free ?q = CSP_BUFFER_COUNT"
    using queue_create_inv [OF _ c] by (simp_all add: csp_config_defs)
  have sz: "qsize (enqueue_all csp_queue_enqueue vs r) = qsize r" for vs and r :: "nat pthread_queue"
    by (induction vs arbitrary: r) simp_all
  show "length (bufs (csp_buffer_init mem s)) = CSP_BUFFER_COUNT"
    by (simp add: csp_buffer_init_def)
  show "queue_inv (csp_buffers (csp_buffer_init mem s))" "free_list (csp_buffer_init mem s) = [0..<CSP_BUFFER_COUNT]"
    using ring.enqueue_all_contents [OF q(1), of "[0..<CSP_BUFFER_COUNT]"] q by (simp_all add: csp_buffer_init_def)
  show "qsize (csp_buffers (csp_buffer_init mem s)) = CSP_BUFFER_COUNT"
    by (simp add: csp_buffer_init_def sz pthread_queue_create_def)
qed

lemma pool_strict_init:
  assumes "length mem = CSP_BUFFER_COUNT" and "\<forall>b \<in> set mem. refcount b = 0 \<and> packet_wf (skbf_data b)"
  shows "pool_strict (csp_buffer_init mem s)"
  using csp_buffer_init_simps [OF assms(1), of s] assms
  by (auto simp: pool_strict_def pool_inv_def pkt_def csp_buffer_init_def)

inductive pool_reachable :: "csp_pool \<Rightarrow> bool" where
  start: "length mem = CSP_BUFFER_COUNT \<Longrightarrow> \<forall>b \<in> set mem. refcount b = 0 \<and> packet_wf (skbf_data b) \<Longrightarrow>
    pool_reachable (csp_buffer_init mem s)"
| step: "pool_reachable s \<Longrightarrow> pool_step s t \<Longrightarrow> pool_reachable t"

lemma pool_reachable_strict: "pool_reachable s \<Longrightarrow> pool_strict s \<and> length (bufs s) = CSP_BUFFER_COUNT"
proof (induction rule: pool_reachable.induct)
  case (start mem s)
  then show ?case using pool_strict_init csp_buffer_init_simps(1) by blast
next
  case (step s t)
  then show ?case using pool_step_strict by auto
qed

text \<open>A pool on zeroed memory, the concrete pool of the examples.\<close>

definition pool0 :: csp_pool where
  "pool0 = csp_buffer_init
     (replicate CSP_BUFFER_COUNT \<lparr>refcount = 0, skbf_addr = 0, skbf_data = packet0\<rparr>)
     \<lparr>bufs = [], csp_buffers = \<lparr>qbuffer = [], qsize = 0, qitems = 0, q_in = 0, q_out = 0\<rparr>,
      dbg = \<lparr>csp_dbg_buffer_out = 0, csp_dbg_conn_out = 0, csp_dbg_conn_ovf = 0,
             csp_dbg_inval_reply = 0, csp_dbg_errno = 0\<rparr>\<rparr>"

lemma pool_reachable_pool0: "pool_reachable pool0"
  unfolding pool0_def by (rule pool_reachable.start) simp_all

lemma pool0_simps [simp]:
  "length (bufs pool0) = CSP_BUFFER_COUNT" "free_list pool0 = [0..<CSP_BUFFER_COUNT]" "pool_strict pool0" "pool_inv pool0"
proof -
  show "length (bufs pool0) = CSP_BUFFER_COUNT" "free_list pool0 = [0..<CSP_BUFFER_COUNT]"
    unfolding pool0_def by (rule csp_buffer_init_simps, simp)+
  show "pool_strict pool0" using pool_reachable_strict [OF pool_reachable_pool0] by simp
  then show "pool_inv pool0" by (simp add: pool_strict_def)
qed

section \<open>Properties of the buffer pool\<close>



text \<open>Allocation: while the pool has a free buffer, \<open>csp_buffer_get\<close> returns a buffer
  that was not allocated, with reference count 1 and a cleared identifier, and touches no
  other buffer; with an empty pool it returns \<open>NULL\<close> and changes nothing but the counter
  of failed allocations.\<close>

theorem csp_buffer_get_fresh:
  assumes "pool_inv s"
  shows "if csp_buffer_remaining s = 0
    then csp_buffer_get s = (None, s\<lparr>dbg := (dbg s)\<lparr>csp_dbg_buffer_out := csp_dbg_buffer_out (dbg s) + 1\<rparr>\<rparr>)
    else \<exists>b s'. csp_buffer_get s = (Some b, s') \<and> b \<notin> allocated s \<and> allocated s' = insert b (allocated s)
      \<and> refcount (bufs s' ! b) = 1 \<and> pid (pkt s' b) = csp_id_clear \<and> pool_inv s'
      \<and> csp_buffer_remaining s' + 1 = csp_buffer_remaining s
      \<and> (\<forall>h. h \<noteq> b \<longrightarrow> bufs s' ! h = bufs s ! h)"
proof (cases "free_list s")
  case Nil
  then have "csp_buffer_remaining s = 0" by (simp add: csp_buffer_remaining_length)
  then show ?thesis using csp_buffer_get_None [OF assms Nil] by simp
next
  case (Cons b bs)
  have b: "b < length (bufs s)" "b \<notin> set bs" using assms Cons by (auto simp: pool_inv_def)
  obtain s' where s': "csp_buffer_get s = (Some b, s')" "pool_inv s'" "free_list s' = bs"
    "length (bufs s') = length (bufs s)" "\<And>h. h \<noteq> b \<Longrightarrow> bufs s' ! h = bufs s ! h"
    "pkt s' b = (pkt s b)\<lparr>pid := csp_id_clear\<rparr>" "refcount (bufs s' ! b) = 1"
    by (rule csp_buffer_get_Some [OF assms Cons]) blast
  have "allocated s' = insert b (allocated s)" "b \<notin> allocated s"
    using b Cons s'(3,4) by (auto simp: allocated_def)
  moreover have "csp_buffer_remaining s = Suc (csp_buffer_remaining s')"
    by (simp add: csp_buffer_remaining_length s'(3) Cons)
  moreover have "\<forall>h. h \<noteq> b \<longrightarrow> bufs s' ! h = bufs s ! h" using s'(5) by blast
  ultimately show ?thesis using s'(1,2,6,7) by auto
qed

text \<open>Release: releasing the last reference puts exactly that buffer back into the
  pool; releasing one of several references, or a buffer that is already free, leaves the
  set of free buffers unchanged and records an errno. In particular a double free is
  harmless.\<close>

theorem csp_buffer_free_effect:
  assumes "pool_strict s" and "h < length (bufs s)"
  shows "free_list (csp_buffer_free (Some h) s) =
      (if refcount (bufs s ! h) = 1 then free_list s @ [h] else free_list s)
    \<and> csp_dbg_errno (dbg (csp_buffer_free (Some h) s)) =
      (if refcount (bufs s ! h) = 0 then CSP_DBG_ERR_ALREADY_FREE
       else if refcount (bufs s ! h) = 1 then csp_dbg_errno (dbg s) else CSP_DBG_ERR_REFCOUNT)"
proof -
  have inv: "pool_inv s" using assms by (simp add: pool_strict_def)
  consider "refcount (bufs s ! h) = 0" | "refcount (bufs s ! h) = 1" | "1 < refcount (bufs s ! h)"
    by (metis less_le_not_le linorder_neqE word_gt_0 word_le_less_eq word_less_1 word_not_simps(1))
  then show ?thesis
  proof cases
    case 1
    then have "csp_buffer_free (Some h) s = set_errno CSP_DBG_ERR_ALREADY_FREE s"
      using assms pool_strict_refcount [OF assms] csp_buffer_free_released by blast
    with 1 show ?thesis by (simp add: set_errno_def)
  next
    case 2
    then have "h \<in> allocated s" using pool_strict_refcount [OF assms] assms(2) by (auto simp: allocated_def)
    then obtain t where "csp_buffer_free (Some h) s = t" "free_list t = free_list s @ [h]" "dbg t = dbg s"
      by (rule csp_buffer_free_last [OF inv _ 2]) blast
    with 2 show ?thesis by simp
  next
    case 3
    then have "refcount (bufs s ! h) \<noteq> 0" "refcount (bufs s ! h) \<noteq> 1" by auto
    with 3 show ?thesis
      using csp_buffer_free_shared [OF inv assms(2) 3] by (simp add: set_errno_def set_refcount_def)
  qed
qed

theorem csp_buffer_free_effect_witness:
  "csp_dbg_errno (dbg (csp_buffer_free (Some 3) pool0)) = CSP_DBG_ERR_ALREADY_FREE"
proof -
  have "refcount (bufs pool0 ! 3) = 0"
    using pool_strict_refcount [OF pool0_simps(3), of 3] by (simp add: csp_config_defs)
  then show ?thesis
    using csp_buffer_free_effect [of pool0 3] by (simp add: csp_config_defs)
qed

end
