(* ===== verification/Csp_Id.thy ===== *)
theory Csp_Id
  imports Csp_Types
begin

text \<open>
  The CSP header codec of \<open>src/csp_id.c\<close>, for the version 1 (32-bit) and the version 2
  (48-bit) header. \<open>csp_conf.version\<close> is the argument \<open>version\<close> of the dispatching
  functions. The header is written into the bytes directly before the payload.
\<close>

section \<open>Version 1 headers\<close>

definition CSP_ID1_HEADER_SIZE :: nat where "CSP_ID1_HEADER_SIZE = 4"
definition CSP_ID1_HOST_SIZE :: nat where "CSP_ID1_HOST_SIZE = 5"
definition CSP_ID1_PORT_SIZE :: nat where "CSP_ID1_PORT_SIZE = 6"

definition csp_id1_word :: "csp_id \<Rightarrow> u32" where
  "csp_id1_word i =
     push_bit 30 (ucast (pri i)) OR push_bit 20 (ucast (dst i)) OR
     push_bit 25 (ucast (src i)) OR push_bit 14 (ucast (dport i)) OR
     push_bit 8 (ucast (sport i)) OR ucast (flags i)"

definition csp_id1_parse :: "u32 \<Rightarrow> csp_id" where
  "csp_id1_parse w =
     \<lparr>pri = ucast (drop_bit 30 w AND 0x3),
      flags = ucast (w AND 0xFF),
      src = ucast (drop_bit 25 w AND 0x1F),
      dst = ucast (drop_bit 20 w AND 0x1F),
      dport = ucast (drop_bit 14 w AND 0x3F),
      sport = ucast (drop_bit 8 w AND 0x3F)\<rparr>"

definition csp_id1_prepend :: "csp_packet \<Rightarrow> csp_packet" where
  "csp_id1_prepend p =
     p\<lparr>frame_begin := data_at 0 - CSP_ID1_HEADER_SIZE,
       frame_length := plength p + of_nat CSP_ID1_HEADER_SIZE,
       pmem := mwrite (data_at 0 - CSP_ID1_HEADER_SIZE) (be32_enc (csp_id1_word (pid p))) (pmem p)\<rparr>"

definition csp_id1_strip :: "csp_packet \<Rightarrow> int \<times> csp_packet" where
  "csp_id1_strip p =
     (if unat (frame_length p) < CSP_ID1_HEADER_SIZE then (-1, p)
      else (0, p\<lparr>plength := frame_length p - of_nat CSP_ID1_HEADER_SIZE,
                 pid := csp_id1_parse
                          (be32_dec (mread (frame_begin p) CSP_ID1_HEADER_SIZE (pmem p)))\<rparr>))"

definition csp_id1_setup_rx :: "csp_packet \<Rightarrow> csp_packet" where
  "csp_id1_setup_rx p = p\<lparr>frame_begin := data_at 0 - CSP_ID1_HEADER_SIZE, frame_length := 0\<rparr>"

section \<open>Version 2 headers\<close>

definition CSP_ID2_HEADER_SIZE :: nat where "CSP_ID2_HEADER_SIZE = 6"
definition CSP_ID2_HOST_SIZE :: nat where "CSP_ID2_HOST_SIZE = 14"
definition CSP_ID2_PORT_SIZE :: nat where "CSP_ID2_PORT_SIZE = 6"

definition csp_id2_word :: "csp_id \<Rightarrow> u64" where
  "csp_id2_word i =
     push_bit 46 (ucast (pri i)) OR push_bit 32 (ucast (dst i)) OR
     push_bit 18 (ucast (src i)) OR push_bit 12 (ucast (dport i)) OR
     push_bit 6 (ucast (sport i)) OR ucast (flags i)"

definition csp_id2_parse :: "u64 \<Rightarrow> csp_id" where
  "csp_id2_parse w =
     \<lparr>pri = ucast (drop_bit 46 w AND 0x3),
      flags = ucast (w AND 0x3F),
      src = ucast (drop_bit 18 w AND 0x3FFF),
      dst = ucast (drop_bit 32 w AND 0x3FFF),
      dport = ucast (drop_bit 12 w AND 0x3F),
      sport = ucast (drop_bit 6 w AND 0x3F)\<rparr>"

text \<open>The first six bytes of the big-endian 64-bit word, shifted up by 16 bits.\<close>

definition csp_id2_prepend :: "csp_packet \<Rightarrow> csp_packet" where
  "csp_id2_prepend p =
     p\<lparr>frame_begin := data_at 0 - CSP_ID2_HEADER_SIZE,
       frame_length := plength p + of_nat CSP_ID2_HEADER_SIZE,
       pmem := mwrite (data_at 0 - CSP_ID2_HEADER_SIZE)
                 (take CSP_ID2_HEADER_SIZE (be64_enc (push_bit 16 (csp_id2_word (pid p))))) (pmem p)\<rparr>"

definition csp_id2_strip :: "csp_packet \<Rightarrow> int \<times> csp_packet" where
  "csp_id2_strip p =
     (if unat (frame_length p) < CSP_ID2_HEADER_SIZE then (-1, p)
      else (0, p\<lparr>plength := frame_length p - of_nat CSP_ID2_HEADER_SIZE,
                 pid := csp_id2_parse (drop_bit 16
                          (be64_dec (mread (frame_begin p) CSP_ID2_HEADER_SIZE (pmem p) @ [0, 0])))\<rparr>))"

definition csp_id2_setup_rx :: "csp_packet \<Rightarrow> csp_packet" where
  "csp_id2_setup_rx p = p\<lparr>frame_begin := data_at 0 - CSP_ID2_HEADER_SIZE, frame_length := 0\<rparr>"

section \<open>Dispatch on the version\<close>

definition csp_id_prepend :: "u8 \<Rightarrow> csp_packet \<Rightarrow> csp_packet" where
  "csp_id_prepend version p = (if version = 2 then csp_id2_prepend p else csp_id1_prepend p)"

definition csp_id_strip :: "u8 \<Rightarrow> csp_packet \<Rightarrow> int \<times> csp_packet" where
  "csp_id_strip version p =
     (let p = p\<lparr>timestamp_rx := 0\<rparr>
      in if version = 2 then csp_id2_strip p else csp_id1_strip p)"

definition csp_id_setup_rx :: "u8 \<Rightarrow> csp_packet \<Rightarrow> nat \<times> csp_packet" where
  "csp_id_setup_rx version p =
     (if version = 2 then (CSP_ID2_HEADER_SIZE, csp_id2_setup_rx p)
      else (CSP_ID1_HEADER_SIZE, csp_id1_setup_rx p))"

definition csp_id_get_host_bits :: "u8 \<Rightarrow> nat" where
  "csp_id_get_host_bits version = (if version = 2 then CSP_ID2_HOST_SIZE else CSP_ID1_HOST_SIZE)"

definition csp_id_get_max_nodeid :: "u8 \<Rightarrow> u16" where
  "csp_id_get_max_nodeid version =
     (if version = 2 then push_bit CSP_ID2_HOST_SIZE 1 - 1 else push_bit CSP_ID1_HOST_SIZE 1 - 1)"

definition csp_id_get_max_port :: "u8 \<Rightarrow> nat" where
  "csp_id_get_max_port version =
     (if version = 2 then 2 ^ CSP_ID2_PORT_SIZE - 1 else 2 ^ CSP_ID1_PORT_SIZE - 1)"

text \<open>\<open>csp_id_is_broadcast\<close> reads the address and the prefix length of the interface. The
  C shift is undefined for a prefix longer than the host bits; users of this definition
  assume \<open>unat netmask \<le> csp_id_get_host_bits version\<close>.\<close>

definition csp_id_is_broadcast :: "u8 \<Rightarrow> u16 \<Rightarrow> u16 \<Rightarrow> u16 \<Rightarrow> bool" where
  "csp_id_is_broadcast version addr if_addr if_netmask =
     (let hostmask = push_bit (csp_id_get_host_bits version - unat if_netmask) 1 - 1;
          netmask = push_bit (csp_id_get_host_bits version) 1 - 1 - hostmask
      in (addr AND hostmask = hostmask \<and> addr AND netmask = if_addr AND netmask)
         \<or> addr = csp_id_get_max_nodeid version)"

lemmas csp_id_size_defs = CSP_ID1_HEADER_SIZE_def CSP_ID1_HOST_SIZE_def CSP_ID1_PORT_SIZE_def
  CSP_ID2_HEADER_SIZE_def CSP_ID2_HOST_SIZE_def CSP_ID2_PORT_SIZE_def

section \<open>Which identifiers a header can carry\<close>

definition id_fits :: "u8 \<Rightarrow> csp_id \<Rightarrow> bool" where
  "id_fits version i \<longleftrightarrow> unat (pri i) < 4 \<and> unat (dport i) < 64 \<and> unat (sport i) < 64 \<and>
     (if version = 2 then unat (src i) < 2 ^ 14 \<and> unat (dst i) < 2 ^ 14 \<and> unat (flags i) < 64
      else unat (src i) < 2 ^ 5 \<and> unat (dst i) < 2 ^ 5)"

section \<open>Field isolation\<close>

text \<open>A word below \<open>2 ^ k\<close> has no bit at \<open>k\<close> or above.\<close>

lemma bit_of_small:
  fixes w :: "'a::len word"
  assumes "unat w < 2 ^ k" and "k \<le> n"
  shows "\<not> bit w n"
proof -
  have "unat w < 2 ^ n"
    using assms by (meson less_le_trans one_le_numeral power_increasing)
  then have "\<not> bit (unat w) n"
    by (simp add: bit_iff_odd)
  then show ?thesis
    by (simp add: bit_unsigned_iff bit_imp_le_length)
qed

lemma bit_small_less:
  fixes w :: "'a::len word"
  shows "unat w < 2 ^ k \<Longrightarrow> bit w n \<Longrightarrow> n < k"
  using bit_of_small [of w k n] by (meson not_less)

lemma field_masks:
  "(0x3::'a::len word) = mask 2" "(0x1F::'a word) = mask 5" "(0x3F::'a word) = mask 6"
  "(0xFF::'a word) = mask 8" "(0x3FFF::'a word) = mask 14"
  by (simp_all add: mask_eq_exp_minus_1)

lemma id1_parse_word:
  assumes "id_fits version i" and "version \<noteq> 2"
  shows "csp_id1_parse (csp_id1_word i) = i"
proof -
  have fit: "unat (pri i) < 2 ^ 2" "unat (dport i) < 2 ^ 6" "unat (sport i) < 2 ^ 6"
    "unat (src i) < 2 ^ 5" "unat (dst i) < 2 ^ 5" "unat (flags i) < 2 ^ 8"
    using assms unsigned_less [of "flags i"] by (simp_all add: id_fits_def)
  note bits = fit [THEN bit_of_small] and less = fit [THEN bit_small_less]
  note unfolds = csp_id1_parse_def csp_id1_word_def field_masks
  have "pri (csp_id1_parse (csp_id1_word i)) = pri i"
    unfolding unfolds by (rule bit_word_eqI) (auto simp: bit_simps bits less_diff_conv2 dest: less)
  moreover have "flags (csp_id1_parse (csp_id1_word i)) = flags i"
    unfolding unfolds by (rule bit_word_eqI) (auto simp: bit_simps bits less_diff_conv2)
  moreover have "src (csp_id1_parse (csp_id1_word i)) = src i"
    unfolding unfolds by (rule bit_word_eqI) (auto simp: bit_simps bits less_diff_conv2 dest: less)
  moreover have "dst (csp_id1_parse (csp_id1_word i)) = dst i"
    unfolding unfolds by (rule bit_word_eqI) (auto simp: bit_simps bits less_diff_conv2 dest: less)
  moreover have "dport (csp_id1_parse (csp_id1_word i)) = dport i"
    unfolding unfolds by (rule bit_word_eqI) (auto simp: bit_simps bits less_diff_conv2 dest: less)
  moreover have "sport (csp_id1_parse (csp_id1_word i)) = sport i"
    unfolding unfolds by (rule bit_word_eqI) (auto simp: bit_simps bits less_diff_conv2 dest: less)
  ultimately show ?thesis by simp
qed

lemma id2_parse_word:
  assumes "id_fits 2 i"
  shows "csp_id2_parse (csp_id2_word i) = i"
proof -
  have fit: "unat (pri i) < 2 ^ 2" "unat (dport i) < 2 ^ 6" "unat (sport i) < 2 ^ 6"
    "unat (src i) < 2 ^ 14" "unat (dst i) < 2 ^ 14" "unat (flags i) < 2 ^ 6"
    using assms by (simp_all add: id_fits_def)
  note bits = fit [THEN bit_of_small] and less = fit [THEN bit_small_less]
  note unfolds = csp_id2_parse_def csp_id2_word_def field_masks
  have "pri (csp_id2_parse (csp_id2_word i)) = pri i"
    unfolding unfolds by (rule bit_word_eqI) (auto simp: bit_simps bits less_diff_conv2 dest: less)
  moreover have "flags (csp_id2_parse (csp_id2_word i)) = flags i"
    unfolding unfolds by (rule bit_word_eqI) (auto simp: bit_simps bits less_diff_conv2 dest: less)
  moreover have "src (csp_id2_parse (csp_id2_word i)) = src i"
    unfolding unfolds by (rule bit_word_eqI) (auto simp: bit_simps bits less_diff_conv2 dest: less)
  moreover have "dst (csp_id2_parse (csp_id2_word i)) = dst i"
    unfolding unfolds by (rule bit_word_eqI) (auto simp: bit_simps bits less_diff_conv2 dest: less)
  moreover have "dport (csp_id2_parse (csp_id2_word i)) = dport i"
    unfolding unfolds by (rule bit_word_eqI) (auto simp: bit_simps bits less_diff_conv2 dest: less)
  moreover have "sport (csp_id2_parse (csp_id2_word i)) = sport i"
    unfolding unfolds by (rule bit_word_eqI) (auto simp: bit_simps bits less_diff_conv2 dest: less)
  ultimately show ?thesis by simp
qed

text \<open>The 48-bit word survives the trip through the six header bytes.\<close>

lemma id2_word_small: "id_fits 2 i \<Longrightarrow> 48 \<le> n \<Longrightarrow> \<not> bit (csp_id2_word i) n"
proof -
  assume "id_fits 2 i" and n: "48 \<le> n"
  then have fit: "unat (pri i) < 2 ^ 2" "unat (dport i) < 2 ^ 6" "unat (sport i) < 2 ^ 6"
    "unat (src i) < 2 ^ 14" "unat (dst i) < 2 ^ 14" "unat (flags i) < 2 ^ 6"
    by (simp_all add: id_fits_def)
  show ?thesis
    using n by (auto simp: csp_id2_word_def bit_simps fit [THEN bit_of_small])
qed

lemma be64_six_bytes:
  assumes "\<And>n. 48 \<le> n \<Longrightarrow> \<not> bit w n"
  shows "drop_bit 16 (be64_dec (take 6 (be64_enc (push_bit 16 w)) @ [0, 0])) = w"
proof -
  have zero: "ucast (drop_bit 8 (push_bit 16 w)) = (0::u8)" "ucast (push_bit 16 w) = (0::u8)"
    by (rule bit_word_eqI, simp add: bit_simps)+
  have "take 6 (be64_enc (push_bit 16 w)) @ [0, 0] = be64_enc (push_bit 16 w)"
    by (simp add: be64_enc_def zero)
  then have "drop_bit 16 (be64_dec (take 6 (be64_enc (push_bit 16 w)) @ [0, 0]))
      = drop_bit 16 (push_bit 16 w)"
    by simp
  also have "\<dots> = w"
  proof (rule bit_word_eqI)
    fix n
    have "bit w n \<Longrightarrow> n < 48" using assms by (meson not_less)
    then show "bit (drop_bit 16 (push_bit 16 w)) n \<longleftrightarrow> bit w n"
      by (auto simp: bit_simps)
  qed
  finally show ?thesis .
qed

lemma unat_masked_field: "unat (ucast (w AND mask k) :: 'b::len word) < 2 ^ k"
  for w :: "'a::len word"
proof -
  have "unat (ucast (w AND mask k) :: 'b word) \<le> unat (w AND mask k)"
    by (simp add: unsigned_ucast_eq)
  also have "\<dots> < 2 ^ k"
    by (simp add: take_bit_eq_mask [symmetric] unsigned_take_bit_eq)
  finally show ?thesis .
qed

lemma id1_parse_fits: "version \<noteq> 2 \<Longrightarrow> id_fits version (csp_id1_parse w)"
  using unat_masked_field [of "drop_bit 30 w" 2] unat_masked_field [of "drop_bit 25 w" 5]
    unat_masked_field [of "drop_bit 20 w" 5] unat_masked_field [of "drop_bit 14 w" 6]
    unat_masked_field [of "drop_bit 8 w" 6]
  by (simp add: id_fits_def csp_id1_parse_def field_masks)

lemma id2_parse_fits: "id_fits 2 (csp_id2_parse w)"
  using unat_masked_field [of "drop_bit 46 w" 2] unat_masked_field [of "drop_bit 32 w" 14]
    unat_masked_field [of "drop_bit 18 w" 14] unat_masked_field [of "drop_bit 12 w" 6]
    unat_masked_field [of "drop_bit 6 w" 6] unat_masked_field [of w 6]
  by (simp add: id_fits_def csp_id2_parse_def field_masks)

lemma id1_word_parse: "csp_id1_word (csp_id1_parse w) = w"
proof (rule bit_word_eqI)
  fix n assume "n < LENGTH(32)"
  then consider "n < 8" | "8 \<le> n" "n < 14" | "14 \<le> n" "n < 20" | "20 \<le> n" "n < 25"
    | "25 \<le> n" "n < 30" | "30 \<le> n" "n < 32"
    by fastforce
  then show "bit (csp_id1_word (csp_id1_parse w)) n \<longleftrightarrow> bit w n"
    by cases (simp_all add: csp_id1_parse_def csp_id1_word_def field_masks bit_simps less_diff_conv2)
qed

lemma id2_word_parse:
  assumes "unat w < 2 ^ 48"
  shows "csp_id2_word (csp_id2_parse w) = w"
proof (rule bit_word_eqI)
  fix n assume "n < LENGTH(64)"
  then consider "n < 6" | "6 \<le> n" "n < 12" | "12 \<le> n" "n < 18" | "18 \<le> n" "n < 32"
    | "32 \<le> n" "n < 46" | "46 \<le> n" "n < 48" | "48 \<le> n" "n < 64"
    by fastforce
  then show "bit (csp_id2_word (csp_id2_parse w)) n \<longleftrightarrow> bit w n"
    by cases (simp_all add: csp_id2_parse_def csp_id2_word_def field_masks bit_simps less_diff_conv2
        bit_of_small [OF assms])
qed

section \<open>The header codec on packets\<close>

lemma data_at_0: "data_at 0 = 8"
  by (simp add: data_at_def csp_config_defs)

lemma header_write_fits:
  "packet_wf p \<Longrightarrow> n \<le> 6 \<Longrightarrow> data_at 0 - n + n \<le> length (pmem p)"
  by (simp add: packet_wf_def data_at_0 csp_config_defs)

lemma packet_wf_prepend [simp]: "packet_wf p \<Longrightarrow> packet_wf (csp_id_prepend version p)"
  by (simp add: csp_id_prepend_def csp_id1_prepend_def csp_id2_prepend_def packet_wf_def
      csp_id_size_defs data_at_0 csp_config_defs)

lemma pdata_prepend: "packet_wf p \<Longrightarrow> pdata (csp_id_prepend version p) = pdata p"
  by (auto simp: csp_id_prepend_def csp_id1_prepend_def csp_id2_prepend_def pdata_def packet_wf_def
      csp_id_size_defs data_at_0 csp_config_defs intro!: mread_mwrite_disjoint)

lemma unat_header_add:
  assumes "packet_wf p" and "n \<le> 6"
  shows "unat (plength p + of_nat n) = unat (plength p) + n"
  using assms by (simp add: packet_wf_def csp_config_defs unat_word_ariths unat_of_nat)

definition csp_id_header :: "u8 \<Rightarrow> csp_id \<Rightarrow> byte list" where
  "csp_id_header version i =
    (if version = 2 then take 6 (be64_enc (push_bit 16 (csp_id2_word i)))
     else be32_enc (csp_id1_word i))"

lemma length_csp_id_header: "length (csp_id_header version i) = (if version = 2 then 6 else 4)"
  by (simp add: csp_id_header_def)

text \<open>The frame is the encoded header followed by the payload.\<close>

lemma pframe_prepend:
  assumes "packet_wf p"
  shows "pframe (csp_id_prepend version p) = csp_id_header version (pid p) @ pdata p"
proof -
  have len: "unat (plength p + 4) = 4 + unat (plength p)" "unat (plength p + 6) = 6 + unat (plength p)"
    using unat_header_add [OF assms, of 4] unat_header_add [OF assms, of 6] by simp_all
  have split: "mread 4 (4 + unat (plength p)) m = mread 4 4 m @ mread 8 (unat (plength p)) m"
    "mread 2 (6 + unat (plength p)) m = mread 2 6 m @ mread 8 (unat (plength p)) m"
    if "length m = length (pmem p)" for m
    using that assms mread_append_split [of 4 4 "unat (plength p)" m]
      mread_append_split [of 2 6 "unat (plength p)" m]
    by (simp_all add: packet_wf_def csp_config_defs)
  show ?thesis
    using assms pdata_prepend [OF assms, of version]
    by (auto simp: pframe_def pdata_def csp_id_prepend_def csp_id1_prepend_def csp_id2_prepend_def
        csp_id_header_def csp_id_size_defs data_at_0 len split packet_wf_def csp_config_defs
        mread_mwrite_same)
qed

text \<open>The header bytes of a frame as the receiver sees them.\<close>

definition csp_id_decode :: "u8 \<Rightarrow> byte list \<Rightarrow> csp_id" where
  "csp_id_decode version bs =
     (if version = 2 then csp_id2_parse (drop_bit 16 (be64_dec (take 6 bs @ [0, 0])))
      else csp_id1_parse (be32_dec (take 4 bs)))"

lemma csp_id_decode_header:
  assumes "id_fits version i"
  shows "csp_id_decode version (csp_id_header version i @ rest) = i"
proof (cases "version = 2")
  case True
  with assms show ?thesis
    using be64_six_bytes [of "csp_id2_word i", OF id2_word_small]
    by (simp add: csp_id_decode_def csp_id_header_def id2_parse_word min_def)
next
  case False
  with assms show ?thesis
    by (simp add: csp_id_decode_def csp_id_header_def id1_parse_word [OF assms])
qed

lemma csp_id_strip_decode:
  assumes "(if version = 2 then 6 else 4) \<le> unat (frame_length p)"
    and "frame_begin p + unat (frame_length p) \<le> length (pmem p)"
  shows "csp_id_strip version p = (0, p\<lparr>timestamp_rx := 0,
    plength := frame_length p - (if version = 2 then 6 else 4),
    pid := csp_id_decode version (pframe p)\<rparr>)"
  using assms
  by (cases "version = 2") (simp_all add: csp_id_strip_def csp_id1_strip_def csp_id2_strip_def
      csp_id_decode_def pframe_def csp_id_size_defs mread_def Let_def min_def)

section \<open>Properties of the header codec\<close>

text \<open>C1. Header round trip: a packet whose identifier fits the header fields, once
  the header is prepended and stripped again by the receiver, has the same identifier,
  the same length and the same payload, for both protocol versions.\<close>

theorem csp_id_roundtrip:
  assumes wf: "packet_wf p" and fits: "id_fits version (pid p)"
  shows "\<exists>p'. csp_id_strip version (csp_id_prepend version p) = (0, p')
    \<and> pid p' = pid p \<and> plength p' = plength p \<and> pdata p' = pdata p"
proof -
  let ?q = "csp_id_prepend version p"
  let ?n = "if version = 2 then 6 else 4 :: nat"
  have len: "frame_length ?q = plength p + of_nat ?n" and fb: "frame_begin ?q = data_at 0 - ?n"
    by (simp_all add: csp_id_prepend_def csp_id1_prepend_def csp_id2_prepend_def csp_id_size_defs)
  have ulen: "unat (frame_length ?q) = unat (plength p) + ?n"
    unfolding len by (rule unat_header_add [OF wf]) simp
  have "packet_wf ?q" using wf by simp
  then have inb: "frame_begin ?q + unat (frame_length ?q) \<le> length (pmem ?q)"
    using wf unfolding fb ulen by (simp add: packet_wf_def data_at_0 csp_config_defs)
  have "csp_id_decode version (pframe ?q) = pid p"
    by (simp add: pframe_prepend [OF wf] csp_id_decode_header [OF fits])
  then have "csp_id_strip version ?q = (0, ?q\<lparr>timestamp_rx := 0, plength := plength p, pid := pid p\<rparr>)"
    using csp_id_strip_decode [of version ?q] inb ulen len
    by (cases "version = 2") simp_all
  moreover have "pdata (?q\<lparr>timestamp_rx := 0, plength := plength p, pid := pid p\<rparr>) = pdata p"
    using pdata_prepend [OF wf, of version]
    by (cases "version = 2")
      (simp_all add: pdata_def csp_id_prepend_def csp_id1_prepend_def csp_id2_prepend_def)
  ultimately show ?thesis by simp
qed

theorem csp_id_roundtrip_witness:
  "\<exists>p'. csp_id_strip 2 (csp_id_prepend 2
      (packet0\<lparr>plength := 3, pid := \<lparr>pri = 2, flags = 1, src = 21, dst = 4000, dport = 7, sport = 40\<rparr>\<rparr>)) = (0, p')
    \<and> pid p' = \<lparr>pri = 2, flags = 1, src = 21, dst = 4000, dport = 7, sport = 40\<rparr> \<and> plength p' = 3"
  using csp_id_roundtrip [of "packet0\<lparr>plength := 3,
      pid := \<lparr>pri = 2, flags = 1, src = 21, dst = 4000, dport = 7, sport = 40\<rparr>\<rparr>" 2]
  by (auto simp: id_fits_def csp_config_defs)

text \<open>Received headers are canonical: whatever 32-bit (version 1) or 48-bit (version 2)
  header arrives, the parsed identifier fits the header fields and encodes back to
  exactly the received header word, so no information is lost or invented.\<close>

theorem csp_id_parse_canonical:
  "(version \<noteq> 2 \<longrightarrow> id_fits version (csp_id1_parse w) \<and> csp_id1_word (csp_id1_parse w) = w)
   \<and> (unat x < 2 ^ 48 \<longrightarrow> id_fits 2 (csp_id2_parse x) \<and> csp_id2_word (csp_id2_parse x) = x)"
  by (simp add: id1_parse_fits id2_parse_fits id1_word_parse id2_word_parse)

section \<open>Broadcast addresses\<close>

text \<open>Comparing two addresses under a mask of \<open>n\<close> network bits above \<open>h\<close> host bits
  compares the network numbers.\<close>

lemma and_netmask_eq_iff:
  fixes a b :: "'a::len word"
  assumes "n + h \<le> LENGTH('a)"
  shows "a AND push_bit h (mask n) = b AND push_bit h (mask n) \<longleftrightarrow>
    unat a div 2 ^ h mod 2 ^ n = unat b div 2 ^ h mod 2 ^ n"
proof -
  have shift: "c AND push_bit h (mask n) = push_bit h (take_bit n (drop_bit h c))" for c :: "'a word"
    by (rule bit_word_eqI) (auto simp: bit_simps)
  have inj: "push_bit h (take_bit n (drop_bit h a)) = push_bit h (take_bit n (drop_bit h b))
      \<longleftrightarrow> take_bit n (drop_bit h a) = take_bit n (drop_bit h b)"
  proof
    assume eq: "push_bit h (take_bit n (drop_bit h a)) = push_bit h (take_bit n (drop_bit h b))"
    show "take_bit n (drop_bit h a) = take_bit n (drop_bit h b)"
    proof (rule bit_word_eqI)
      fix i assume "i < LENGTH('a)"
      show "bit (take_bit n (drop_bit h a)) i = bit (take_bit n (drop_bit h b)) i"
      proof (cases "i < n")
        case True
        then have "bit (push_bit h (take_bit n (drop_bit h a))) (h + i)
            = bit (push_bit h (take_bit n (drop_bit h b))) (h + i)"
          using eq by simp
        with True assms show ?thesis by (simp add: bit_simps)
      qed (simp add: bit_simps)
    qed
  qed simp
  have val: "unat (take_bit n (drop_bit h c)) = unat c div 2 ^ h mod 2 ^ n" for c :: "'a word"
  proof -
    have "unat (take_bit n (drop_bit h c)) = take_bit n (drop_bit h (unat c))"
      by (rule bit_eqI) (auto simp: bit_simps bit_unsigned_iff dest: bit_imp_le_length)
    then show ?thesis by (simp add: take_bit_eq_mod drop_bit_eq_div)
  qed
  show ?thesis
    unfolding shift inj by (simp only: word_unat_eq_iff val)
qed

lemma and_hostmask_eq_iff:
  fixes a :: "'a::len word"
  assumes "h \<le> LENGTH('a)"
  shows "a AND mask h = mask h \<longleftrightarrow> unat a mod 2 ^ h = 2 ^ h - 1"
proof -
  have "a AND mask h = mask h \<longleftrightarrow> take_bit h a = mask h"
    by (simp add: take_bit_eq_mask)
  also have "\<dots> \<longleftrightarrow> unat (take_bit h a) = unat (mask h :: 'a word)"
    by (simp add: word_unat_eq_iff)
  also have "unat (mask h :: 'a word) = mask h"
    using assms by (intro bit_eqI) (auto simp: bit_simps bit_unsigned_iff)
  finally show ?thesis
    by (simp add: unsigned_take_bit_eq take_bit_eq_mod [of h "unat a"] mask_eq_exp_minus_1 [where 'a = nat])
qed

lemma push_bit_1_minus_1: "push_bit k 1 - 1 = (mask k :: 'a::len word)"
  by (simp add: mask_eq_exp_minus_1 push_bit_eq_mult)

lemma mask_minus_mask:
  assumes "h \<le> k"
  shows "mask k - mask h = (push_bit h (mask (k - h)) :: 'a::len word)"
proof -
  have "mask k - mask h = (2 ^ k - 2 ^ h :: 'a word)"
    by (simp add: mask_eq_exp_minus_1)
  also have "\<dots> = 2 ^ h * (2 ^ (k - h) - 1)"
    using assms by (simp add: right_diff_distrib power_add [symmetric])
  finally show ?thesis
    by (simp add: push_bit_eq_mult mask_eq_exp_minus_1 mult.commute)
qed

text \<open>Broadcast test: for a prefix length the protocol allows, an address is a
  broadcast address of an interface iff its host part is all ones and its network number
  is the interface's, or it is the highest node number of the protocol.\<close>

theorem csp_id_is_broadcast_iff:
  assumes "unat if_netmask \<le> csp_id_get_host_bits version"
  defines "h \<equiv> csp_id_get_host_bits version - unat if_netmask"
  shows "csp_id_is_broadcast version addr if_addr if_netmask \<longleftrightarrow>
     (unat addr mod 2 ^ h = 2 ^ h - 1 \<and>
      unat addr div 2 ^ h mod 2 ^ unat if_netmask = unat if_addr div 2 ^ h mod 2 ^ unat if_netmask)
     \<or> unat addr = 2 ^ csp_id_get_host_bits version - 1"
proof -
  let ?hb = "csp_id_get_host_bits version"
  have hb: "?hb \<le> 14" by (simp add: csp_id_get_host_bits_def csp_id_size_defs)
  have "?hb - h = unat if_netmask" and "h \<le> ?hb" and "unat if_netmask + h \<le> LENGTH(16)"
    using assms(1) hb by (simp_all add: h_def)
  then have "addr AND (push_bit ?hb 1 - 1 - (push_bit h 1 - 1)) = if_addr AND (push_bit ?hb 1 - 1 - (push_bit h 1 - 1))
      \<longleftrightarrow> unat addr div 2 ^ h mod 2 ^ unat if_netmask = unat if_addr div 2 ^ h mod 2 ^ unat if_netmask"
    by (simp add: push_bit_1_minus_1 mask_minus_mask and_netmask_eq_iff del: push_bit_of_1)
  moreover have "addr AND (push_bit h 1 - 1) = push_bit h 1 - 1 \<longleftrightarrow> unat addr mod 2 ^ h = 2 ^ h - 1"
    using hb by (simp add: push_bit_1_minus_1 and_hostmask_eq_iff h_def del: push_bit_of_1)
  moreover have "addr = csp_id_get_max_nodeid version \<longleftrightarrow> unat addr = 2 ^ ?hb - 1"
    by (simp add: csp_id_get_max_nodeid_def csp_id_get_host_bits_def csp_id_size_defs word_unat_eq_iff)
  ultimately show ?thesis
    by (simp add: csp_id_is_broadcast_def Let_def h_def)
qed

theorem csp_id_is_broadcast_iff_witness:
  "csp_id_is_broadcast 2 0x00FF 0x0015 6 \<and> \<not> csp_id_is_broadcast 2 0x00FE 0x0015 6"
  using csp_id_is_broadcast_iff [of 6 2 "0x00FF" "0x0015"] csp_id_is_broadcast_iff [of 6 2 "0x00FE" "0x0015"]
  by (simp add: csp_id_get_host_bits_def csp_id_size_defs)

end
