(* ===== verification/Csp_Iflist.thy ===== *)
theory Csp_Iflist
  imports Csp_Id
begin

text \<open>
  The interface list of \<open>src/csp_iflist.c\<close> (interface structure:
  \<open>include/csp/csp_interface.h\<close>). A pointer to an interface is its index in \<open>ifs\<close>;
  \<open>interfaces\<close> holds the pointers in the order of the linked list, so setting the
  \<open>next\<close> pointer of an element to \<open>NULL\<close> cuts the list behind that element.
  The loopback interface \<open>csp_if_lo\<close> is the structure at index 0.

  The transmit function of an interface is either the loopback function or a driver; a
  driver is modelled by the error code it returns for a via address, a packet and the
  flag whether the packet is from this node.
\<close>

section \<open>State\<close>

datatype nexthop = Csp_lo_tx | Driver "u16 \<Rightarrow> csp_packet \<Rightarrow> bool \<Rightarrow> int"

record csp_iface =
  if_addr :: u16
  if_netmask :: u16
  if_name :: string
  if_nexthop :: nexthop
  is_default :: u8
  if_tx :: u32
  if_rx :: u32
  tx_error :: u32
  rx_error :: u32
  if_drop :: u32
  autherr :: u32
  if_frame :: u32
  txbytes :: u32
  rxbytes :: u32

record csp_iflist =
  ifs :: "csp_iface list"
  interfaces :: "nat list"

definition csp_if_lo :: nat where "csp_if_lo = 0"

definition CSP_IFLIST_NAME_MAX :: nat where "CSP_IFLIST_NAME_MAX = 10"

text \<open>\<open>strncmp (a, b, CSP_IFLIST_NAME_MAX) == 0\<close> on strings without a zero byte.\<close>

definition name_eq :: "string \<Rightarrow> string \<Rightarrow> bool" where
  "name_eq a b \<longleftrightarrow> take CSP_IFLIST_NAME_MAX a = take CSP_IFLIST_NAME_MAX b"

section \<open>Operations\<close>

text \<open>\<open>csp_iflist_is_within_subnet\<close> for an interface pointer that may be \<open>NULL\<close>.\<close>

definition csp_iflist_is_within_subnet :: "u8 \<Rightarrow> u16 \<Rightarrow> csp_iface option \<Rightarrow> bool" where
  "csp_iflist_is_within_subnet version addr ifc =
     (case ifc of None \<Rightarrow> False
      | Some i \<Rightarrow>
          let netmask = push_bit (csp_id_get_host_bits version - unat (if_netmask i))
                          (push_bit (unat (if_netmask i)) 1 - 1);
              network_a = if_addr i AND netmask;
              network_b = addr AND netmask
          in network_a = network_b)"

text \<open>Where an iteration continues: at the head, or behind the interface passed in.\<close>

definition iflist_from :: "csp_iflist \<Rightarrow> nat option \<Rightarrow> nat list" where
  "iflist_from l ifc =
     (case ifc of None \<Rightarrow> interfaces l | Some i \<Rightarrow> tl (dropWhile (\<lambda>j. j \<noteq> i) (interfaces l)))"

definition csp_iflist_get_by_subnet :: "u8 \<Rightarrow> csp_iflist \<Rightarrow> u16 \<Rightarrow> nat option \<Rightarrow> nat option" where
  "csp_iflist_get_by_subnet version l addr ifc =
     find (\<lambda>i. if_netmask (ifs l ! i) \<noteq> 0 \<and> csp_iflist_is_within_subnet version addr (Some (ifs l ! i)))
       (iflist_from l ifc)"

definition csp_iflist_get_by_isdfl :: "csp_iflist \<Rightarrow> nat option \<Rightarrow> nat option" where
  "csp_iflist_get_by_isdfl l ifc = find (\<lambda>i. is_default (ifs l ! i) = 1) (iflist_from l ifc)"

definition csp_iflist_iterate :: "csp_iflist \<Rightarrow> nat option \<Rightarrow> nat option" where
  "csp_iflist_iterate l ifc = (case iflist_from l ifc of [] \<Rightarrow> None | i # _ \<Rightarrow> Some i)"

text \<open>The loop of \<open>csp_iflist_check_dfl\<close> over the list.\<close>

fun set_all_default :: "nat list \<Rightarrow> csp_iface list \<Rightarrow> csp_iface list" where
  "set_all_default [] xs = xs"
| "set_all_default (i # is) xs =
     set_all_default is (if i = csp_if_lo then xs else xs[i := (xs ! i)\<lparr>is_default := 1\<rparr>])"

definition csp_iflist_check_dfl :: "csp_iflist \<Rightarrow> csp_iflist" where
  "csp_iflist_check_dfl l =
     (case csp_iflist_get_by_isdfl l None of
        Some _ \<Rightarrow> l
      | None \<Rightarrow> l\<lparr>ifs := set_all_default (interfaces l) (ifs l)\<rparr>)"

definition csp_iflist_get_by_addr :: "csp_iflist \<Rightarrow> u16 \<Rightarrow> nat option" where
  "csp_iflist_get_by_addr l addr = find (\<lambda>i. if_addr (ifs l ! i) = addr) (interfaces l)"

definition csp_iflist_get_by_name :: "csp_iflist \<Rightarrow> string \<Rightarrow> nat option" where
  "csp_iflist_get_by_name l name = find (\<lambda>i. name_eq (if_name (ifs l ! i)) name) (interfaces l)"

text \<open>The loop stops at the end of the list or when the counter reaches 0.\<close>

fun by_index_loop :: "nat list \<Rightarrow> int \<Rightarrow> nat option" where
  "by_index_loop [] idx = None"
| "by_index_loop (i # is) idx = (if idx = 0 then Some i else by_index_loop is (idx - 1))"

definition csp_iflist_get_by_index :: "csp_iflist \<Rightarrow> int \<Rightarrow> nat option" where
  "csp_iflist_get_by_index l idx = by_index_loop (interfaces l) idx"

text \<open>\<open>csp_iflist_add\<close> clears the \<open>next\<close> pointer of the interface before it looks whether
  the interface is in the list already.\<close>

definition csp_iflist_add :: "nat \<Rightarrow> csp_iflist \<Rightarrow> int \<times> csp_iflist" where
  "csp_iflist_add ifc l =
     (let l = (if ifc \<in> set (interfaces l)
               then l\<lparr>interfaces := takeWhile (\<lambda>j. j \<noteq> ifc) (interfaces l) @ [ifc]\<rparr> else l)
      in if interfaces l = [] then (CSP_ERR_NONE, l\<lparr>interfaces := [ifc]\<rparr>)
         else if \<exists>i \<in> set (interfaces l). i = ifc \<or> name_eq (if_name (ifs l ! ifc)) (if_name (ifs l ! i))
         then (CSP_ERR_ALREADY, l)
         else (CSP_ERR_NONE, l\<lparr>interfaces := interfaces l @ [ifc]\<rparr>))"

text \<open>Unlinking the element: the head, or the first element behind which it is found.\<close>

definition csp_iflist_remove :: "nat option \<Rightarrow> csp_iflist \<Rightarrow> csp_iflist" where
  "csp_iflist_remove ifc l =
     (case ifc of None \<Rightarrow> l
      | Some i \<Rightarrow> l\<lparr>interfaces := remove1 i (interfaces l)\<rparr>)"

section \<open>Iteration\<close>

fun run_iterator :: "nat \<Rightarrow> (nat option \<Rightarrow> nat option) \<Rightarrow> nat option \<Rightarrow> nat list" where
  "run_iterator 0 nxt p = []"
| "run_iterator (Suc n) nxt p = (case nxt p of None \<Rightarrow> [] | Some i \<Rightarrow> i # run_iterator n nxt (Some i))"

text \<open>The contract of the \<open>csp_iflist_*\<close> iterators: started with \<open>NULL\<close> and called
  again with the last result they enumerate the elements \<open>elems s\<close> of a state \<open>s\<close>.\<close>

locale iterator =
  fixes nxt :: "'s \<Rightarrow> nat option \<Rightarrow> nat option"
    and elems :: "'s \<Rightarrow> nat list"
    and ok :: "'s \<Rightarrow> bool"
  assumes first: "ok s \<Longrightarrow> nxt s None = (case elems s of [] \<Rightarrow> None | i # _ \<Rightarrow> Some i)"
    and step: "ok s \<Longrightarrow> elems s = xs @ i # ys \<Longrightarrow>
      nxt s (Some i) = (case ys of [] \<Rightarrow> None | j # _ \<Rightarrow> Some j)"
begin

lemma run_from:
  "ok s \<Longrightarrow> elems s = xs @ i # ys \<Longrightarrow> length ys < n \<Longrightarrow> run_iterator n (nxt s) (Some i) = ys"
proof (induction n arbitrary: xs i ys)
  case (Suc n)
  show ?case
  proof (cases ys)
    case Nil
    then show ?thesis using step [OF Suc.prems(1,2)] by simp
  next
    case (Cons j zs)
    then have "elems s = (xs @ [i]) @ j # zs" using Suc.prems(2) by simp
    with Suc.prems(1) have "run_iterator n (nxt s) (Some j) = zs"
      by (rule Suc.IH) (use Cons Suc.prems in simp)
    then show ?thesis using step [OF Suc.prems(1,2)] Cons by simp
  qed
qed simp

text \<open>The loop \<open>while ((i = nxt (i)) != NULL)\<close> ends and visits every element once, in order.\<close>

lemma run_all: "ok s \<Longrightarrow> length (elems s) < n \<Longrightarrow> run_iterator n (nxt s) None = elems s"
proof (cases "elems s")
  case Nil
  assume "ok s"
  with Nil show ?thesis using first by (cases n) simp_all
next
  case (Cons i ys)
  assume ok: "ok s" and "length (elems s) < n"
  then obtain m where m: "n = Suc m" "length ys < m" using Cons by (cases n) auto
  then have "run_iterator m (nxt s) (Some i) = ys" using run_from [of s "[]" i ys m] Cons ok by simp
  then show ?thesis using first [OF ok] Cons m by simp
qed

end

lemma find_eq_filter: "find P xs = (case filter P xs of [] \<Rightarrow> None | x # _ \<Rightarrow> Some x)"
  by (induction xs) auto

lemma tl_dropWhile_split: "distinct (xs @ i # ys) \<Longrightarrow> tl (dropWhile (\<lambda>j. j \<noteq> i) (xs @ i # ys)) = ys"
  by (induction xs) auto

lemma filter_eq_split:
  "filter P zs = xs @ i # ys \<Longrightarrow> \<exists>us vs. zs = us @ i # vs \<and> filter P us = xs \<and> filter P vs = ys \<and> P i"
proof (induction zs arbitrary: xs)
  case (Cons z zs)
  show ?case
  proof (cases "P z")
    case True
    show ?thesis
    proof (cases xs)
      case Nil
      with True Cons.prems show ?thesis by (intro exI [of _ "[]"] exI [of _ zs]) auto
    next
      case (Cons x xs')
      with True Cons.prems have "filter P zs = xs' @ i # ys" "x = z" by auto
      with Cons.IH obtain us vs where
        "zs = us @ i # vs" "filter P us = xs'" "filter P vs = ys" "P i" by blast
      with True \<open>x = z\<close> Cons show ?thesis by (intro exI [of _ "z # us"] exI [of _ vs]) auto
    qed
  next
    case False
    with Cons.prems have "filter P zs = xs @ i # ys" by simp
    with Cons.IH obtain us vs where
      "zs = us @ i # vs" "filter P us = xs" "filter P vs = ys" "P i" by blast
    with False show ?thesis by (intro exI [of _ "z # us"] exI [of _ vs]) auto
  qed
qed simp

lemma find_from_first:
  "find P (iflist_from l None) = (case filter P (interfaces l) of [] \<Rightarrow> None | i # _ \<Rightarrow> Some i)"
  by (simp add: iflist_from_def find_eq_filter)

lemma find_from_step:
  assumes "distinct (interfaces l)" "filter P (interfaces l) = xs @ i # ys"
  shows "find P (iflist_from l (Some i)) = (case ys of [] \<Rightarrow> None | j # _ \<Rightarrow> Some j)"
proof -
  obtain us vs where "interfaces l = us @ i # vs" "filter P vs = ys"
    using filter_eq_split [OF assms(2)] by blast
  with assms(1) show ?thesis
    by (simp add: iflist_from_def find_eq_filter tl_dropWhile_split)
qed

definition subnet_match :: "u8 \<Rightarrow> csp_iflist \<Rightarrow> u16 \<Rightarrow> nat \<Rightarrow> bool" where
  "subnet_match version l addr i \<longleftrightarrow>
     if_netmask (ifs l ! i) \<noteq> 0 \<and> csp_iflist_is_within_subnet version addr (Some (ifs l ! i))"

lemma get_by_subnet_find:
  "csp_iflist_get_by_subnet version l addr p = find (subnet_match version l addr) (iflist_from l p)"
  by (simp add: csp_iflist_get_by_subnet_def subnet_match_def [abs_def])

interpretation by_subnet: iterator
  "\<lambda>(version, addr, l). csp_iflist_get_by_subnet version l addr"
  "\<lambda>(version, addr, l). filter (subnet_match version l addr) (interfaces l)"
  "\<lambda>(version, addr, l). distinct (interfaces l)"
  by unfold_locales (auto simp: get_by_subnet_find find_from_first intro: find_from_step)

interpretation by_isdfl: iterator csp_iflist_get_by_isdfl
  "\<lambda>l. filter (\<lambda>i. is_default (ifs l ! i) = 1) (interfaces l)"
  "\<lambda>l. distinct (interfaces l)"
  by unfold_locales (auto simp: csp_iflist_get_by_isdfl_def find_from_first intro: find_from_step)

lemma iterate_find: "csp_iflist_iterate l p = find (\<lambda>_. True) (iflist_from l p)"
  by (simp add: csp_iflist_iterate_def split: list.split)

interpretation all_ifaces: iterator csp_iflist_iterate "interfaces :: csp_iflist \<Rightarrow> nat list"
  "\<lambda>l. distinct (interfaces l)"
proof unfold_locales
  fix s :: csp_iflist
  show "csp_iflist_iterate s None = (case interfaces s of [] \<Rightarrow> None | i # _ \<Rightarrow> Some i)"
    by (simp add: iterate_find find_from_first)
next
  fix s :: csp_iflist and xs i ys
  assume "distinct (interfaces s)" "interfaces s = xs @ i # ys"
  then show "csp_iflist_iterate s (Some i) = (case ys of [] \<Rightarrow> None | j # _ \<Rightarrow> Some j)"
    using find_from_step [of s "\<lambda>_. True" xs i ys] by (simp add: iterate_find)
qed

section \<open>Well-formed lists\<close>

text \<open>Pointers in the list point to interfaces, and no interface is in it twice, neither by
  pointer nor by name.\<close>

definition iflist_wf :: "csp_iflist \<Rightarrow> bool" where
  "iflist_wf l \<longleftrightarrow> (\<forall>i \<in> set (interfaces l). i < length (ifs l)) \<and>
     distinct (map (\<lambda>i. take CSP_IFLIST_NAME_MAX (if_name (ifs l ! i))) (interfaces l))"

lemma iflist_wf_distinct: "iflist_wf l \<Longrightarrow> distinct (interfaces l)"
  by (simp add: iflist_wf_def distinct_map)

lemma add_new:
  assumes "ifc \<notin> set (interfaces l)"
  shows "csp_iflist_add ifc l =
    (if \<exists>i \<in> set (interfaces l). name_eq (if_name (ifs l ! ifc)) (if_name (ifs l ! i))
     then (CSP_ERR_ALREADY, l) else (CSP_ERR_NONE, l\<lparr>interfaces := interfaces l @ [ifc]\<rparr>))"
  using assms by (auto simp: csp_iflist_add_def Let_def)

lemma set_all_default_nth:
  "k < length xs \<Longrightarrow> set_all_default is xs ! k =
     (if k \<in> set is \<and> k \<noteq> csp_if_lo then (xs ! k)\<lparr>is_default := 1\<rparr> else xs ! k)"
proof (induction "is" arbitrary: xs)
  case (Cons a "is")
  then show ?case by (cases "a = k") auto
qed simp

lemma length_set_all_default [simp]: "length (set_all_default is xs) = length xs"
  by (induction "is" arbitrary: xs) auto

lemma by_index_loop_eq:
  "by_index_loop is idx = (if 0 \<le> idx \<and> nat idx < length is then Some (is ! nat idx) else None)"
  by (induction "is" arbitrary: idx) (auto simp: nth_Cons' nat_diff_distrib nat_less_iff)

section \<open>Properties\<close>

text \<open>\<open>csp_iflist_is_within_subnet\<close> decides whether an address lies in the network of an
  interface: the \<open>netmask\<close> leading bits of the host number of the address are those of the
  interface address (never true for \<open>NULL\<close>). The prefix is taken within the host field, so for
  the loopback interface, whose netmask is the whole field, it compares the full host number.\<close>

theorem csp_iflist_is_within_subnet_iff:
  assumes "unat (if_netmask i) \<le> csp_id_get_host_bits version"
  defines "h \<equiv> csp_id_get_host_bits version - unat (if_netmask i)"
  shows "(csp_iflist_is_within_subnet version addr (Some i) \<longleftrightarrow>
      unat (if_addr i) div 2 ^ h mod 2 ^ unat (if_netmask i) = unat addr div 2 ^ h mod 2 ^ unat (if_netmask i))
    \<and> \<not> csp_iflist_is_within_subnet version addr None"
proof -
  have "unat (if_netmask i) + h \<le> 16"
    using assms by (auto simp: csp_id_get_host_bits_def csp_id_size_defs split: if_splits)
  then show ?thesis
    using and_netmask_eq_iff [of "unat (if_netmask i)" h "if_addr i" addr]
    by (simp add: csp_iflist_is_within_subnet_def mask_eq_exp_minus_1 h_def Let_def)
qed

definition iface_ex :: "u16 \<Rightarrow> u16 \<Rightarrow> string \<Rightarrow> csp_iface" where
  "iface_ex a m n = \<lparr>if_addr = a, if_netmask = m, if_name = n, if_nexthop = Driver (\<lambda>_ _ _. 0),
     is_default = 0, if_tx = 0, if_rx = 0, tx_error = 0, rx_error = 0, if_drop = 0, autherr = 0,
     if_frame = 0, txbytes = 0, rxbytes = 0\<rparr>"

theorem csp_iflist_is_within_subnet_iff_witness:
  "csp_iflist_is_within_subnet 2 0x105 (Some (iface_ex 0x101 6 ''CAN''))"
  using csp_iflist_is_within_subnet_iff [of "iface_ex 0x101 6 ''CAN''" 2 "0x105"]
  by (simp add: iface_ex_def csp_id_get_host_bits_def csp_id_size_defs)

text \<open>C8: the iteration loops over the interfaces of a subnet and over the default interfaces,
  as \<open>csp_send_direct\<close> and \<open>csp_bridge_work\<close> run them, terminate after as many calls as the
  list is long plus one and visit exactly the matching interfaces, each once and in list order.\<close>

theorem csp_iflist_loops_enumerate:
  assumes "iflist_wf l"
  defines "n \<equiv> Suc (length (interfaces l))"
  shows "run_iterator n (csp_iflist_get_by_subnet version l addr) None =
      filter (\<lambda>i. if_netmask (ifs l ! i) \<noteq> 0 \<and>
        csp_iflist_is_within_subnet version addr (Some (ifs l ! i))) (interfaces l)
    \<and> run_iterator n (csp_iflist_get_by_isdfl l) None =
      filter (\<lambda>i. is_default (ifs l ! i) = 1) (interfaces l)
    \<and> run_iterator n (csp_iflist_iterate l) None = interfaces l"
proof -
  have d: "distinct (interfaces l)" using assms(1) by (rule iflist_wf_distinct)
  have short: "length (filter P (interfaces l)) < n" for P
    unfolding n_def by (simp add: le_imp_less_Suc)
  have "run_iterator n (csp_iflist_get_by_subnet version l addr) None =
      filter (subnet_match version l addr) (interfaces l)"
    using by_subnet.run_all [of "(version, addr, l)" n] d short by simp
  moreover have "run_iterator n (csp_iflist_get_by_isdfl l) None =
      filter (\<lambda>i. is_default (ifs l ! i) = 1) (interfaces l)"
    using by_isdfl.run_all [of l n] d short by simp
  moreover have "run_iterator n (csp_iflist_iterate l) None = interfaces l"
    using all_ifaces.run_all [of l n] d n_def by simp
  ultimately show ?thesis by (simp add: subnet_match_def [abs_def])
qed

definition iflist_ex :: csp_iflist where
  "iflist_ex = \<lparr>ifs = [iface_ex 0 14 ''LOOP'', iface_ex 0x101 6 ''CAN'', iface_ex 0x102 6 ''KISS''],
     interfaces = [0, 1, 2]\<rparr>"

lemma iflist_ex_wf: "iflist_wf iflist_ex"
  by (simp add: iflist_wf_def iflist_ex_def iface_ex_def CSP_IFLIST_NAME_MAX_def)

lemma iflist_ex_filter:
  "filter (\<lambda>i. if_netmask (ifs iflist_ex ! i) \<noteq> 0 \<and>
     csp_iflist_is_within_subnet 2 0x105 (Some (ifs iflist_ex ! i))) (interfaces iflist_ex) = [1, 2]"
  by (simp add: iflist_ex_def iface_ex_def csp_iflist_is_within_subnet_def csp_id_get_host_bits_def
      csp_id_size_defs)

theorem csp_iflist_loops_enumerate_witness:
  "run_iterator (Suc (length (interfaces iflist_ex)))
     (csp_iflist_get_by_subnet 2 iflist_ex 0x105) None = [1, 2]"
  using csp_iflist_loops_enumerate [OF iflist_ex_wf, of 2 "0x105"] iflist_ex_filter by simp

text \<open>Adding an interface that is not in the list keeps the list well-formed; it
  is appended exactly if no listed interface has its name, else the list is unchanged and
  \<open>CSP_ERR_ALREADY\<close> is returned, and in the first case \<open>csp_iflist_get_by_name\<close> finds it.
  Adding an interface that is in the list already returns \<open>CSP_ERR_ALREADY\<close> too, but drops
  every interface behind it.\<close>

theorem csp_iflist_add_effect:
  assumes "iflist_wf l" "ifc < length (ifs l)"
  defines "l' \<equiv> snd (csp_iflist_add ifc l)" and "name \<equiv> if_name (ifs l ! ifc)"
  shows "iflist_wf l' \<and>
    (if ifc \<in> set (interfaces l)
     then fst (csp_iflist_add ifc l) = CSP_ERR_ALREADY \<and>
       interfaces l' = takeWhile (\<lambda>j. j \<noteq> ifc) (interfaces l) @ [ifc]
     else if csp_iflist_get_by_name l name \<noteq> None
     then fst (csp_iflist_add ifc l) = CSP_ERR_ALREADY \<and> l' = l
     else fst (csp_iflist_add ifc l) = CSP_ERR_NONE \<and> interfaces l' = interfaces l @ [ifc] \<and>
       csp_iflist_get_by_name l' name = Some ifc)"
proof (cases "ifc \<in> set (interfaces l)")
  case True
  then obtain us vs where split: "interfaces l = us @ ifc # vs" "ifc \<notin> set us"
    by (meson split_list_first)
  then have tw: "takeWhile (\<lambda>j. j \<noteq> ifc) (interfaces l) = us" by (auto simp: takeWhile_append)
  have "csp_iflist_add ifc l = (CSP_ERR_ALREADY, l\<lparr>interfaces := us @ [ifc]\<rparr>)"
    using True tw by (simp add: csp_iflist_add_def)
  then show ?thesis using assms(1) True tw split by (auto simp: l'_def iflist_wf_def)
next
  case False
  have gone: "csp_iflist_get_by_name l name \<noteq> None \<longleftrightarrow>
      (\<exists>i \<in> set (interfaces l). name_eq name (if_name (ifs l ! i)))"
    unfolding csp_iflist_get_by_name_def find_None_iff name_eq_def by metis
  show ?thesis
  proof (cases "csp_iflist_get_by_name l name")
    case None
    with gone have fresh: "\<forall>i \<in> set (interfaces l). \<not> name_eq name (if_name (ifs l ! i))" by blast
    then have add: "csp_iflist_add ifc l = (CSP_ERR_NONE, l\<lparr>interfaces := interfaces l @ [ifc]\<rparr>)"
      using False by (auto simp: add_new name_def)
    have "csp_iflist_get_by_name l' name = Some ifc"
      using fresh None add by (auto simp: csp_iflist_get_by_name_def l'_def name_def name_eq_def
          find_eq_filter split: list.splits)
    then show ?thesis using assms(1,2) fresh add False None
      by (auto simp: l'_def iflist_wf_def name_eq_def name_def)
  next
    case (Some i)
    with gone have "csp_iflist_add ifc l = (CSP_ERR_ALREADY, l)"
      using False by (auto simp: add_new name_def)
    then show ?thesis using assms(1) False Some by (simp add: l'_def)
  qed
qed

theorem csp_iflist_add_effect_witness:
  "interfaces (snd (csp_iflist_add 0 iflist_ex)) = [0]"
  using csp_iflist_add_effect [OF iflist_ex_wf, of 0] by (simp add: iflist_ex_def)

text \<open>\<open>csp_iflist_check_dfl\<close> changes only the \<open>is_default\<close> marks, and only when no listed interface
  is a default; then exactly the listed interfaces other than the loopback interface become
  defaults. Afterwards a default interface exists unless only the loopback is listed.\<close>

theorem csp_iflist_check_dfl_effect:
  assumes "iflist_wf l" "is_default (ifs l ! csp_if_lo) \<noteq> 1"
  defines "l' \<equiv> csp_iflist_check_dfl l"
    and "dfl \<equiv> \<lambda>l. {i \<in> set (interfaces l). is_default (ifs l ! i) = 1}"
  shows "interfaces l' = interfaces l \<and> length (ifs l') = length (ifs l) \<and>
    (\<forall>k < length (ifs l). (ifs l' ! k)\<lparr>is_default := 0\<rparr> = (ifs l ! k)\<lparr>is_default := 0\<rparr>) \<and>
    dfl l' = (if dfl l \<noteq> {} then dfl l else set (interfaces l) - {csp_if_lo})"
proof (cases "csp_iflist_get_by_isdfl l None")
  case None
  then have none: "dfl l = {}"
    by (auto simp: csp_iflist_get_by_isdfl_def iflist_from_def find_None_iff dfl_def)
  have l': "l' = l\<lparr>ifs := set_all_default (interfaces l) (ifs l)\<rparr>"
    using None by (simp add: l'_def csp_iflist_check_dfl_def)
  have bound: "i < length (ifs l)" if "i \<in> set (interfaces l)" for i
    using assms(1) that by (auto simp: iflist_wf_def)
  have "dfl l' = set (interfaces l) - {csp_if_lo}"
    using none assms(2) by (auto simp: dfl_def l' set_all_default_nth bound split: if_splits)
  then show ?thesis using none by (auto simp: l' set_all_default_nth)
next
  case (Some i)
  then have "dfl l \<noteq> {}"
    by (force simp: csp_iflist_get_by_isdfl_def iflist_from_def find_Some_iff dfl_def in_set_conv_nth)
  then show ?thesis using Some by (simp add: l'_def csp_iflist_check_dfl_def)
qed

lemma iflist_ex_dfl:
  "is_default (ifs iflist_ex ! csp_if_lo) \<noteq> 1"
  "{i \<in> set (interfaces iflist_ex). is_default (ifs iflist_ex ! i) = 1} = {}"
  "set (interfaces iflist_ex) - {csp_if_lo} = {1, 2}"
proof -
  have "\<forall>i \<in> set (interfaces iflist_ex). is_default (ifs iflist_ex ! i) \<noteq> 1"
    by (simp add: iflist_ex_def iface_ex_def)
  then show "{i \<in> set (interfaces iflist_ex). is_default (ifs iflist_ex ! i) = 1} = {}" by blast
qed (auto simp: iflist_ex_def iface_ex_def csp_if_lo_def)

theorem csp_iflist_check_dfl_effect_witness:
  "{i \<in> set (interfaces (csp_iflist_check_dfl iflist_ex)).
     is_default (ifs (csp_iflist_check_dfl iflist_ex) ! i) = 1} = {1, 2}"
  using csp_iflist_check_dfl_effect [OF iflist_ex_wf iflist_ex_dfl(1)]
  unfolding iflist_ex_dfl(2,3) by auto

end
