(* ===== verification/Csp_Rtable.thy ===== *)
theory Csp_Rtable
  imports Csp_Iflist
begin

text \<open>
  The CIDR routing table of \<open>src/csp_rtable_cidr.c\<close>. The array \<open>rtable\<close> is a list of
  \<open>CSP_RTABLE_SIZE\<close> routes, a pointer to a route is its index, and \<open>rtable_inptr\<close> is the
  number of entries in use. A write outside the array is the result \<open>None\<close>.
\<close>

section \<open>State\<close>

record csp_route =
  rt_address :: u16
  rt_netmask :: u16
  rt_via :: u16
  rt_iface :: "nat option"

record csp_rtable =
  rtable :: "csp_route list"
  rtable_inptr :: nat

definition CSP_RTABLE_SIZE :: nat where "CSP_RTABLE_SIZE = 10"

definition CSP_NO_VIA_ADDRESS :: u16 where "CSP_NO_VIA_ADDRESS = 0xFFFF"

definition zero_route :: csp_route where
  "zero_route = \<lparr>rt_address = 0, rt_netmask = 0, rt_via = 0, rt_iface = None\<rparr>"

definition rtable0 :: csp_rtable where
  "rtable0 = \<lparr>rtable = replicate CSP_RTABLE_SIZE zero_route, rtable_inptr = 0\<rparr>"

section \<open>Operations\<close>

definition csp_rtable_find_exact :: "csp_rtable \<Rightarrow> u16 \<Rightarrow> u16 \<Rightarrow> nat option \<Rightarrow> nat option" where
  "csp_rtable_find_exact t addr netmask ifc =
     find (\<lambda>i. rt_address (rtable t ! i) = addr \<and> rt_netmask (rtable t ! i) = netmask
               \<and> rt_iface (rtable t ! i) = ifc) [0..<rtable_inptr t]"

text \<open>\<open>csp_rtable_search_backward\<close>: the loop walks down from the route before \<open>start_route\<close>.\<close>

definition csp_rtable_search_backward :: "csp_rtable \<Rightarrow> nat option \<Rightarrow> nat option" where
  "csp_rtable_search_backward t start_route =
     (case start_route of None \<Rightarrow> None
      | Some s \<Rightarrow>
          if s = 0 then None
          else find (\<lambda>r. rt_netmask (rtable t ! r) = rt_netmask (rtable t ! s)
                       \<and> rt_address (rtable t ! r) = rt_address (rtable t ! s)) (rev [0..<s]))"

text \<open>The body of the search loop of \<open>csp_rtable_find_route\<close>, with the best result so far.\<close>

definition route_matches :: "u8 \<Rightarrow> u16 \<Rightarrow> csp_route \<Rightarrow> bool" where
  "route_matches version addr r =
     (let hostbits = push_bit (csp_id_get_host_bits version - unat (rt_netmask r)) 1 - 1;
          netbits = NOT hostbits;
          net_a = rt_address r AND netbits;
          net_b = addr AND netbits
      in net_a = net_b)"

fun find_route_loop ::
    "u8 \<Rightarrow> u16 \<Rightarrow> csp_rtable \<Rightarrow> nat list \<Rightarrow> nat option \<Rightarrow> u16 \<Rightarrow> nat option" where
  "find_route_loop version addr t [] best_result best_result_mask = best_result"
| "find_route_loop version addr t (i # is) best_result best_result_mask =
     (if route_matches version addr (rtable t ! i) \<and> rt_netmask (rtable t ! i) \<ge> best_result_mask
      then find_route_loop version addr t is (Some i) (rt_netmask (rtable t ! i))
      else find_route_loop version addr t is best_result best_result_mask)"

definition csp_rtable_find_route :: "u8 \<Rightarrow> csp_rtable \<Rightarrow> u16 \<Rightarrow> nat option" where
  "csp_rtable_find_route version t addr = find_route_loop version addr t [0..<rtable_inptr t] None 0"

text \<open>\<open>csp_rtable_set_internal\<close>: when the table is full the new entry is behind the array.\<close>

definition csp_rtable_set_internal ::
    "csp_rtable \<Rightarrow> u16 \<Rightarrow> u16 \<Rightarrow> nat option \<Rightarrow> u16 \<Rightarrow> (int \<times> csp_rtable) option" where
  "csp_rtable_set_internal t address netmask ifc via =
     (let (entry, inptr) =
        (case csp_rtable_find_exact t address netmask ifc of
           Some e \<Rightarrow> (e, rtable_inptr t)
         | None \<Rightarrow> (rtable_inptr t, min (Suc (rtable_inptr t)) CSP_RTABLE_SIZE))
      in if entry < length (rtable t)
         then Some (CSP_ERR_NONE,
           t\<lparr>rtable := (rtable t)[entry :=
               \<lparr>rt_address = address, rt_netmask = netmask, rt_via = via, rt_iface = ifc\<rparr>],
             rtable_inptr := inptr\<rparr>)
         else None)"

definition csp_rtable_free :: "csp_rtable \<Rightarrow> csp_rtable" where
  "csp_rtable_free t = t\<lparr>rtable := replicate CSP_RTABLE_SIZE zero_route\<rparr>"

definition csp_rtable_clear :: "csp_rtable \<Rightarrow> csp_rtable" where
  "csp_rtable_clear t = csp_rtable_free t"

text \<open>\<open>csp_rtable_set\<close>; an invalid call also sets \<open>csp_dbg_errno\<close>, the last component.\<close>

definition csp_rtable_set ::
    "u8 \<Rightarrow> csp_rtable \<Rightarrow> u16 \<Rightarrow> int \<Rightarrow> nat option \<Rightarrow> u16 \<Rightarrow> (int \<times> csp_rtable \<times> bool) option" where
  "csp_rtable_set version t address netmask ifc via =
     (let hb = int (csp_id_get_host_bits version);
          netmask = (if netmask < 0 \<or> netmask > hb then hb else netmask)
      in if ifc = None \<or> netmask > hb
         then Some (CSP_ERR_INVAL, t, True)
         else map_option (\<lambda>(e, t'). (e, t', False))
                (csp_rtable_set_internal t address (word_of_int netmask) ifc via))"

definition csp_rtable_iterate :: "('c \<Rightarrow> csp_route \<Rightarrow> 'c) \<Rightarrow> csp_rtable \<Rightarrow> 'c \<Rightarrow> 'c" where
  "csp_rtable_iterate iter t ctx = fold (\<lambda>i c. iter c (rtable t ! i)) [0..<rtable_inptr t] ctx"

section \<open>Invariant\<close>

definition route_key :: "csp_route \<Rightarrow> u16 \<times> u16 \<times> nat option" where
  "route_key r = (rt_address r, rt_netmask r, rt_iface r)"

definition routes :: "csp_rtable \<Rightarrow> csp_route list" where
  "routes t = take (rtable_inptr t) (rtable t)"

text \<open>The table built by \<open>csp_rtable_set\<close>: no two entries in use have the same address, mask and
  interface, every one has an interface, and every mask is a prefix length.\<close>

definition rtable_wf :: "u8 \<Rightarrow> csp_rtable \<Rightarrow> bool" where
  "rtable_wf version t \<longleftrightarrow>
     length (rtable t) = CSP_RTABLE_SIZE \<and> rtable_inptr t \<le> CSP_RTABLE_SIZE \<and>
     distinct (map route_key (routes t)) \<and>
     (\<forall>r \<in> set (routes t). rt_iface r \<noteq> None \<and> unat (rt_netmask r) \<le> csp_id_get_host_bits version)"

lemma length_routes [simp]:
  "rtable_wf version t \<Longrightarrow> length (routes t) = rtable_inptr t"
  by (simp add: rtable_wf_def routes_def)

lemma nth_routes: "i < rtable_inptr t \<Longrightarrow> routes t ! i = rtable t ! i"
  by (simp add: routes_def)

lemma find_exact_Some:
  assumes "csp_rtable_find_exact t a m ifc = Some e"
  shows "e < rtable_inptr t" "route_key (rtable t ! e) = (a, m, ifc)"
  using assms by (auto simp: csp_rtable_find_exact_def find_Some_iff route_key_def)

lemma find_exact_None:
  assumes "rtable_wf version t"
  shows "csp_rtable_find_exact t a m ifc = None \<longleftrightarrow> (a, m, ifc) \<notin> route_key ` set (routes t)"
proof -
  have "set (routes t) = (\<lambda>i. rtable t ! i) ` {..<rtable_inptr t}"
    using assms by (simp add: routes_def rtable_wf_def lessThan_atLeast0 flip: nth_image)
  then show ?thesis
    by (auto simp: csp_rtable_find_exact_def find_None_iff route_key_def)
qed

text \<open>\<open>csp_rtable_set_internal\<close> on the list of the entries in use.\<close>

lemma set_internal_existing:
  assumes "rtable_wf version t" "csp_rtable_find_exact t a m ifc = Some e"
  shows "\<exists>t'. csp_rtable_set_internal t a m ifc via = Some (CSP_ERR_NONE, t') \<and>
    routes t' = (routes t)[e := (routes t ! e)\<lparr>rt_via := via\<rparr>] \<and>
    rtable_inptr t' = rtable_inptr t \<and> length (rtable t') = length (rtable t)"
proof -
  have e: "e < length (rtable t)" "e < rtable_inptr t"
    using assms find_exact_Some(1) [OF assms(2)] by (auto simp: rtable_wf_def)
  have "(routes t ! e)\<lparr>rt_via := via\<rparr> =
      \<lparr>rt_address = a, rt_netmask = m, rt_via = via, rt_iface = ifc\<rparr>"
    using find_exact_Some(2) [OF assms(2)] e
    by (cases "rtable t ! e") (simp add: nth_routes route_key_def)
  then show ?thesis
    using e assms(2) by (simp add: csp_rtable_set_internal_def routes_def take_update_swap)
qed

lemma set_internal_new:
  assumes "rtable_wf version t" "csp_rtable_find_exact t a m ifc = None"
    and "rtable_inptr t < CSP_RTABLE_SIZE"
  shows "\<exists>t'. csp_rtable_set_internal t a m ifc via = Some (CSP_ERR_NONE, t') \<and>
    routes t' = routes t @ [\<lparr>rt_address = a, rt_netmask = m, rt_via = via, rt_iface = ifc\<rparr>] \<and>
    rtable_inptr t' = Suc (rtable_inptr t) \<and> length (rtable t') = length (rtable t)"
  using assms by (simp add: csp_rtable_set_internal_def routes_def rtable_wf_def
      take_Suc_conv_app_nth min_def)

lemma set_internal_full:
  assumes "rtable_wf version t" "csp_rtable_find_exact t a m ifc = None"
    and "\<not> rtable_inptr t < CSP_RTABLE_SIZE"
  shows "csp_rtable_set_internal t a m ifc via = None"
  using assms by (simp add: csp_rtable_set_internal_def rtable_wf_def)

section \<open>Longest-prefix match\<close>

lemma and_not_hostmask_eq_iff:
  fixes a b :: "'a::len word"
  assumes "h \<le> LENGTH('a)"
  shows "a AND NOT (mask h) = b AND NOT (mask h) \<longleftrightarrow> unat a div 2 ^ h = unat b div 2 ^ h"
proof -
  have "a AND NOT (mask h) = b AND NOT (mask h) \<longleftrightarrow> drop_bit h a = drop_bit h b"
  proof
    assume eq: "a AND NOT (mask h) = b AND NOT (mask h)"
    show "drop_bit h a = drop_bit h b"
    proof (rule bit_word_eqI)
      fix n assume "n < LENGTH('a)"
      have "bit (a AND NOT (mask h)) (h + n) = bit (b AND NOT (mask h)) (h + n)" by (simp only: eq)
      then show "bit (drop_bit h a) n = bit (drop_bit h b) n"
        by (auto simp: bit_simps dest: bit_imp_le_length)
    qed
  next
    assume eq: "drop_bit h a = drop_bit h b"
    show "a AND NOT (mask h) = b AND NOT (mask h)"
    proof (rule bit_word_eqI)
      fix n assume "n < LENGTH('a)"
      have "bit (drop_bit h a) (n - h) = bit (drop_bit h b) (n - h)" by (simp only: eq)
      then show "bit (a AND NOT (mask h)) n = bit (b AND NOT (mask h)) n"
        by (cases "h \<le> n") (auto simp: bit_simps)
    qed
  qed
  also have "\<dots> \<longleftrightarrow> unat a div 2 ^ h = unat b div 2 ^ h"
    by (simp only: word_unat_eq_iff unat_drop_bit_eq) (simp add: drop_bit_eq_div)
  finally show ?thesis .
qed

text \<open>Numerically: the numbers of the two networks agree.\<close>

definition in_prefix :: "u8 \<Rightarrow> u16 \<Rightarrow> csp_route \<Rightarrow> bool" where
  "in_prefix version addr r \<longleftrightarrow>
     (let h = csp_id_get_host_bits version - unat (rt_netmask r)
      in unat addr div 2 ^ h = unat (rt_address r) div 2 ^ h)"

lemma host_bits_le: "csp_id_get_host_bits version \<le> 14"
  by (simp add: csp_id_get_host_bits_def csp_id_size_defs)

lemma route_matches_iff: "route_matches version addr r \<longleftrightarrow> in_prefix version addr r"
proof -
  let ?h = "csp_id_get_host_bits version - unat (rt_netmask r)"
  have "?h \<le> LENGTH(16)" using host_bits_le [of version] by simp
  from and_not_hostmask_eq_iff [OF this, of "rt_address r" addr] show ?thesis
    by (auto simp: route_matches_def in_prefix_def Let_def mask_eq_exp_minus_1)
qed

text \<open>What the loop has found after the entries \<open>is\<close>: the last one of the longest matching
  prefixes.\<close>

definition best_route :: "u8 \<Rightarrow> u16 \<Rightarrow> csp_rtable \<Rightarrow> nat set \<Rightarrow> nat option \<Rightarrow> bool" where
  "best_route version addr t S r \<longleftrightarrow>
     (case r of
        None \<Rightarrow> (\<forall>j \<in> S. \<not> in_prefix version addr (rtable t ! j))
      | Some i \<Rightarrow> i \<in> S \<and> in_prefix version addr (rtable t ! i) \<and>
          (\<forall>j \<in> S. in_prefix version addr (rtable t ! j) \<longrightarrow>
             rt_netmask (rtable t ! j) < rt_netmask (rtable t ! i) \<or>
             rt_netmask (rtable t ! j) = rt_netmask (rtable t ! i) \<and> j \<le> i))"

lemma find_route_loop_best:
  assumes "best_route version addr t {..<i} best"
    and "m = (case best of None \<Rightarrow> 0 | Some b \<Rightarrow> rt_netmask (rtable t ! b))"
    and "i \<le> n"
  shows "best_route version addr t {..<n} (find_route_loop version addr t [i..<n] best m)"
  using assms
proof (induction "n - i" arbitrary: i best m)
  case (Suc k)
  then have less: "i < n" and upt: "[i..<n] = i # [Suc i..<n]"
    by (simp_all add: upt_conv_Cons)
  have set: "{..<Suc i} = insert i {..<i}" by auto
  show ?case
  proof (cases "route_matches version addr (rtable t ! i) \<and> rt_netmask (rtable t ! i) \<ge> m")
    case True
    then have "best_route version addr t {..<Suc i} (Some i)"
      using Suc.prems(1,2) unfolding best_route_def set
      by (auto simp: route_matches_iff split: option.splits)
    moreover have "k = n - Suc i" using Suc.hyps(2) by simp
    ultimately show ?thesis
      using Suc.hyps(1) [of "Suc i" "Some i" "rt_netmask (rtable t ! i)"] True less upt by simp
  next
    case False
    then have "best_route version addr t {..<Suc i} best"
      using Suc.prems(1,2) unfolding best_route_def set
      by (auto simp: route_matches_iff split: option.splits)
    moreover have "k = n - Suc i" using Suc.hyps(2) by simp
    ultimately show ?thesis
      using Suc.hyps(1) [of "Suc i" best m] Suc.prems(2) False less upt by auto
  qed
qed simp

lemma find_route_best:
  "best_route version addr t {..<rtable_inptr t} (csp_rtable_find_route version t addr)"
  unfolding csp_rtable_find_route_def
  by (rule find_route_loop_best) (simp_all add: best_route_def)

text \<open>The loop of \<open>csp_send_direct\<close> over the routes to an address: \<open>csp_rtable_find_route\<close>
  first, then \<open>csp_rtable_search_backward\<close>.\<close>

definition next_route :: "u8 \<Rightarrow> csp_rtable \<Rightarrow> u16 \<Rightarrow> nat option \<Rightarrow> nat option" where
  "next_route version t addr p =
     (case p of None \<Rightarrow> csp_rtable_find_route version t addr
      | Some i \<Rightarrow> csp_rtable_search_backward t (Some i))"

definition same_dest :: "csp_rtable \<Rightarrow> nat \<Rightarrow> nat \<Rightarrow> bool" where
  "same_dest t i j \<longleftrightarrow> rt_netmask (rtable t ! j) = rt_netmask (rtable t ! i) \<and>
     rt_address (rtable t ! j) = rt_address (rtable t ! i)"

definition parallel_routes :: "u8 \<Rightarrow> csp_rtable \<Rightarrow> u16 \<Rightarrow> nat list" where
  "parallel_routes version t addr =
     (case csp_rtable_find_route version t addr of
        None \<Rightarrow> []
      | Some b \<Rightarrow> filter (same_dest t b) (rev [0..<Suc b]))"

lemma search_backward_find:
  "csp_rtable_search_backward t (Some s) = find (same_dest t s) (rev [0..<s])"
  by (simp add: csp_rtable_search_backward_def same_dest_def [abs_def])

lemma rev_upt_split: "rev [0..<n] = us @ i # vs \<Longrightarrow> vs = rev [0..<i]"
proof (induction n arbitrary: us)
  case (Suc n)
  then show ?case by (cases us) auto
qed simp

interpretation routes_to: iterator
  "\<lambda>(version, t, addr). next_route version t addr"
  "\<lambda>(version, t, addr). parallel_routes version t addr" "\<lambda>_. True"
proof unfold_locales
  fix s :: "u8 \<times> csp_rtable \<times> u16"
  show "(case s of (version, t, addr) \<Rightarrow> next_route version t addr) None =
    (case case s of (version, t, addr) \<Rightarrow> parallel_routes version t addr of
       [] \<Rightarrow> None | i # _ \<Rightarrow> Some i)"
    by (cases s) (simp add: next_route_def parallel_routes_def same_dest_def split: option.split)
next
  fix s :: "u8 \<times> csp_rtable \<times> u16" and xs i ys
  obtain version t addr where s: "s = (version, t, addr)" by (rule prod_cases3)
  assume "(case s of (version, t, addr) \<Rightarrow> parallel_routes version t addr) = xs @ i # ys"
  then obtain b where b: "filter (same_dest t b) (rev [0..<Suc b]) = xs @ i # ys"
    by (simp add: s parallel_routes_def split: option.splits)
  from filter_eq_split [OF this] obtain us vs where
    sp: "rev [0..<Suc b] = us @ i # vs" "filter (same_dest t b) vs = ys" "same_dest t b i"
    by blast
  have "same_dest t i = same_dest t b" using sp(3) by (auto simp: same_dest_def)
  then have "csp_rtable_search_backward t (Some i) = find (same_dest t b) vs"
    using rev_upt_split [OF sp(1)] by (simp add: search_backward_find)
  then show "(case s of (version, t, addr) \<Rightarrow> next_route version t addr) (Some i) =
      (case ys of [] \<Rightarrow> None | j # _ \<Rightarrow> Some j)"
    using sp(2) by (simp add: s next_route_def find_eq_filter)
qed

section \<open>Properties\<close>

text \<open>C6: \<open>csp_rtable_find_route\<close> is longest-prefix match: it returns \<open>NULL\<close> exactly if no entry
  in use has the network of the address; else an entry that matches, no matching entry has
  a longer mask, and of several with the longest mask it is the last one. The loop
  that continues with \<open>csp_rtable_search_backward\<close> then visits, in descending order, exactly the
  entries up to that one with the same address and mask.\<close>

theorem csp_rtable_find_route_longest_prefix:
  "(case csp_rtable_find_route version t addr of
      None \<Rightarrow> \<forall>j < rtable_inptr t. \<not> in_prefix version addr (rtable t ! j)
    | Some i \<Rightarrow> i < rtable_inptr t \<and> in_prefix version addr (rtable t ! i) \<and>
        (\<forall>j < rtable_inptr t. in_prefix version addr (rtable t ! j) \<longrightarrow>
           rt_netmask (rtable t ! j) < rt_netmask (rtable t ! i) \<or>
           rt_netmask (rtable t ! j) = rt_netmask (rtable t ! i) \<and> j \<le> i) \<and>
        run_iterator (i + 2) (next_route version t addr) None =
          filter (\<lambda>j. rt_netmask (rtable t ! j) = rt_netmask (rtable t ! i) \<and>
            rt_address (rtable t ! j) = rt_address (rtable t ! i)) (rev [0..<Suc i]))"
proof (cases "csp_rtable_find_route version t addr")
  case None
  then show ?thesis using find_route_best [of version addr t] by (auto simp: best_route_def)
next
  case (Some i)
  then have elems: "parallel_routes version t addr = filter (same_dest t i) (rev [0..<Suc i])"
    by (simp add: parallel_routes_def)
  have "length (filter (same_dest t i) (rev [0..<Suc i])) \<le> Suc i"
    using length_filter_le [of "same_dest t i" "rev [0..<Suc i]"] by simp
  then have "run_iterator (i + 2) (next_route version t addr) None =
      filter (same_dest t i) (rev [0..<Suc i])"
    using routes_to.run_all [of "(version, t, addr)" "i + 2"] elems by simp
  then show ?thesis using find_route_best [of version addr t] Some
    by (auto simp: best_route_def same_dest_def [abs_def])
qed

definition route_ex :: "u16 \<Rightarrow> u16 \<Rightarrow> nat \<Rightarrow> csp_route" where
  "route_ex a m i = \<lparr>rt_address = a, rt_netmask = m, rt_via = 7, rt_iface = Some i\<rparr>"

definition rtable_ex :: csp_rtable where
  "rtable_ex = \<lparr>rtable = [route_ex 0 0 1, route_ex 0x100 6 1, route_ex 0x100 6 2] @
     replicate 7 zero_route, rtable_inptr = 3\<rparr>"

theorem csp_rtable_find_route_longest_prefix_witness:
  "run_iterator 4 (next_route 2 rtable_ex 0x105) None = [2, 1]"
proof -
  have "csp_rtable_find_route 2 rtable_ex 0x105 = Some 2"
    by (simp add: csp_rtable_find_route_def rtable_ex_def route_ex_def route_matches_def
        csp_id_get_host_bits_def csp_id_size_defs upt_rec)
  then have "run_iterator 4 (next_route 2 rtable_ex 0x105) None =
    filter (\<lambda>j. rt_netmask (rtable rtable_ex ! j) = rt_netmask (rtable rtable_ex ! 2) \<and>
      rt_address (rtable rtable_ex ! j) = rt_address (rtable rtable_ex ! 2)) (rev [0..<Suc 2])"
    using csp_rtable_find_route_longest_prefix [where version = 2 and t = rtable_ex and addr = "0x105"]
    by simp
  then show ?thesis by (simp add: rtable_ex_def route_ex_def upt_rec)
qed

lemma wf_append:
  assumes "rtable_wf version t" "rtable_inptr t < CSP_RTABLE_SIZE"
    and "routes t' = routes t @ [r]" "rtable_inptr t' = Suc (rtable_inptr t)"
    and "length (rtable t') = length (rtable t)" "route_key r \<notin> route_key ` set (routes t)"
    and "rt_iface r \<noteq> None" "unat (rt_netmask r) \<le> csp_id_get_host_bits version"
  shows "rtable_wf version t'"
  using assms by (auto simp: rtable_wf_def)

lemma wf_update_via:
  assumes "rtable_wf version t" "e < rtable_inptr t"
    and "routes t' = (routes t)[e := (routes t ! e)\<lparr>rt_via := via\<rparr>]"
    and "rtable_inptr t' = rtable_inptr t" "length (rtable t') = length (rtable t)"
  shows "rtable_wf version t'"
proof -
  have "map route_key (routes t') = map route_key (routes t)"
    unfolding assms(3) map_update
    by (rule list_update_same_conv [THEN iffD2]) (use assms in \<open>auto simp: route_key_def\<close>)
  moreover have "rt_iface r \<noteq> None \<and> unat (rt_netmask r) \<le> csp_id_get_host_bits version"
    if "r \<in> set (routes t')" for r
  proof -
    from that assms(3) have "r \<in> insert ((routes t ! e)\<lparr>rt_via := via\<rparr>) (set (routes t))"
      by (metis set_update_subset_insert subsetD)
    moreover have "routes t ! e \<in> set (routes t)" using assms(1,2) by simp
    ultimately show ?thesis using assms(1) by (auto simp: rtable_wf_def)
  qed
  ultimately show ?thesis using assms by (simp add: rtable_wf_def)
qed

text \<open>C7: \<open>csp_rtable_set\<close> with an interface keeps the table well-formed and stores the entry, with
  a mask outside the host field replaced by the full one: an existing entry for address, mask
  and interface gets the new via address, else the entry is appended. Exactly when
  the entry is new and the table is full, the code writes behind the array.\<close>

theorem csp_rtable_set_effect:
  fixes netmask :: int and address via :: u16 and ifc :: nat
  assumes "rtable_wf version t"
  defines "hb \<equiv> csp_id_get_host_bits version"
  defines "m \<equiv> (if netmask < 0 \<or> netmask > int hb then of_nat hb else word_of_int netmask)"
  defines "key \<equiv> (address, m, Some ifc)"
  shows "case csp_rtable_set version t address netmask (Some ifc) via of
      None \<Rightarrow> rtable_inptr t = CSP_RTABLE_SIZE \<and> key \<notin> route_key ` set (routes t)
    | Some (err, t', dbg) \<Rightarrow> err = CSP_ERR_NONE \<and> \<not> dbg \<and> rtable_wf version t' \<and>
        (if key \<in> route_key ` set (routes t)
         then \<exists>e < rtable_inptr t. route_key (routes t ! e) = key \<and>
           routes t' = (routes t)[e := (routes t ! e)\<lparr>rt_via := via\<rparr>]
         else rtable_inptr t < CSP_RTABLE_SIZE \<and>
           routes t' = routes t @ [\<lparr>rt_address = address, rt_netmask = m, rt_via = via, rt_iface = Some ifc\<rparr>])"
proof -
  have set: "csp_rtable_set version t address netmask (Some ifc) via =
    map_option (\<lambda>(e, t'). (e, t', False)) (csp_rtable_set_internal t address m (Some ifc) via)"
    by (auto simp: csp_rtable_set_def Let_def m_def hb_def)
  have m: "unat m \<le> hb"
  proof (cases "netmask < 0 \<or> netmask > int hb")
    case True
    then show ?thesis using host_bits_le [of version] by (simp add: m_def hb_def unat_of_nat)
  next
    case False
    then obtain k where "netmask = int k" "k \<le> hb" by (metis not_less of_nat_le_iff zero_le_imp_eq_int)
    then show ?thesis using host_bits_le [of version] by (simp add: m_def hb_def unat_of_nat)
  qed
  show ?thesis
  proof (cases "csp_rtable_find_exact t address m (Some ifc)")
    case (Some e)
    note e = find_exact_Some [OF Some]
    have "routes t ! e \<in> set (routes t)" using e(1) assms(1) by (intro nth_mem) simp
    moreover have "route_key (routes t ! e) = key" using e by (simp add: nth_routes key_def)
    moreover obtain t' where t': "csp_rtable_set_internal t address m (Some ifc) via = Some (CSP_ERR_NONE, t')"
      "routes t' = (routes t)[e := (routes t ! e)\<lparr>rt_via := via\<rparr>]"
      "rtable_inptr t' = rtable_inptr t" "length (rtable t') = length (rtable t)"
      using set_internal_existing [OF assms(1) Some] by blast
    moreover have "rtable_wf version t'" by (rule wf_update_via [OF assms(1) e(1) t'(2-4)])
    ultimately show ?thesis using set e(1) by (auto intro: rev_image_eqI)
  next
    case None
    then have new: "key \<notin> route_key ` set (routes t)"
      using find_exact_None [OF assms(1)] by (simp add: key_def)
    show ?thesis
    proof (cases "rtable_inptr t < CSP_RTABLE_SIZE")
      case True
      obtain t' where t': "csp_rtable_set_internal t address m (Some ifc) via = Some (CSP_ERR_NONE, t')"
        "routes t' = routes t @ [\<lparr>rt_address = address, rt_netmask = m, rt_via = via, rt_iface = Some ifc\<rparr>]"
        "rtable_inptr t' = Suc (rtable_inptr t)" "length (rtable t') = length (rtable t)"
        using set_internal_new [OF assms(1) None True] by blast
      moreover have "rtable_wf version t'"
        by (rule wf_append [OF assms(1) True t'(2-4)]) (use new m in \<open>auto simp: route_key_def key_def hb_def\<close>)
      ultimately show ?thesis using set new True by simp
    next
      case False
      with assms(1) have "rtable_inptr t = CSP_RTABLE_SIZE" by (simp add: rtable_wf_def)
      then show ?thesis using set new set_internal_full [OF assms(1) None False] by simp
    qed
  qed
qed

lemma rtable_ex_wf: "rtable_wf 2 rtable_ex"
  by (simp add: rtable_wf_def rtable_ex_def route_ex_def routes_def route_key_def CSP_RTABLE_SIZE_def
      csp_id_get_host_bits_def csp_id_size_defs)

theorem csp_rtable_set_effect_witness:
  "\<exists>t'. csp_rtable_set 2 rtable_ex 0x200 (- 1) (Some 1) 9 = Some (CSP_ERR_NONE, t', False) \<and>
     routes t' = routes rtable_ex @ [\<lparr>rt_address = 0x200, rt_netmask = 14, rt_via = 9, rt_iface = Some 1\<rparr>]"
proof -
  have "(0x200, 14, Some 1) \<notin> route_key ` set (routes rtable_ex)" "rtable_inptr rtable_ex \<noteq> CSP_RTABLE_SIZE"
    by (simp_all add: rtable_ex_def route_ex_def routes_def route_key_def CSP_RTABLE_SIZE_def)
  then show ?thesis
    using csp_rtable_set_effect [OF rtable_ex_wf, of "0x200" "- 1" 1 9]
    by (auto simp: csp_id_get_host_bits_def csp_id_size_defs split: option.splits)
qed

text \<open>\<open>csp_rtable_clear\<close> does not empty the table: \<open>rtable_inptr\<close> keeps its value, so
  afterwards every address has a route, to the last cleared entry, whose interface is \<open>NULL\<close>.\<close>

theorem csp_rtable_clear_leaves_default_route:
  assumes "0 < rtable_inptr t" "rtable_inptr t \<le> CSP_RTABLE_SIZE" "unat addr < 2 ^ csp_id_get_host_bits version"
  shows "csp_rtable_find_route version (csp_rtable_clear t) addr = Some (rtable_inptr t - 1) \<and>
    rt_iface (rtable (csp_rtable_clear t) ! (rtable_inptr t - 1)) = None"
proof -
  let ?t = "csp_rtable_clear t"
  have nth: "rtable ?t ! j = zero_route" if "j < rtable_inptr t" for j
    using that assms(2) by (simp add: csp_rtable_clear_def csp_rtable_free_def)
  have inptr: "rtable_inptr ?t = rtable_inptr t"
    by (simp add: csp_rtable_clear_def csp_rtable_free_def)
  have match: "in_prefix version addr zero_route"
    using assms(3) by (simp add: in_prefix_def zero_route_def)
  have "csp_rtable_find_route version ?t addr = Some (rtable_inptr t - 1)"
  proof (cases "csp_rtable_find_route version ?t addr")
    case None
    then show ?thesis using find_route_best [of version addr ?t] nth [of 0] match assms(1) inptr
      by (auto simp: best_route_def dest!: bspec [of _ _ 0])
  next
    case (Some i)
    then have i: "i < rtable_inptr t" and last: "j \<le> i" if "j < rtable_inptr t" for j
      using find_route_best [of version addr ?t] nth match inptr that
      by (auto simp: best_route_def dest!: bspec [of _ _ j])
    show ?thesis using i [OF assms(1)] last [of "rtable_inptr t - 1"] Some assms(1) by simp
  qed
  then show ?thesis using assms(1) nth by (simp add: zero_route_def)
qed

theorem csp_rtable_clear_leaves_default_route_witness:
  "csp_rtable_find_route 2 (csp_rtable_clear rtable_ex) 5 = Some 2"
  using csp_rtable_clear_leaves_default_route [of rtable_ex 5 2]
  by (simp add: rtable_ex_def CSP_RTABLE_SIZE_def csp_id_get_host_bits_def csp_id_size_defs)

end
