(* ===== verification/Csp_Crc32.thy ===== *)
theory Csp_Crc32
  imports Csp_Id
begin

text \<open>
  The CRC-32C checksum of \<open>src/csp_crc32.c\<close>: the table-driven computation, its
  equivalence with the bitwise definition of the reflected polynomial \<open>0x82F63B78\<close>, its
  detection of corruptions confined to four consecutive bytes, and the packet
  operations \<open>csp_crc32_append\<close> and \<open>csp_crc32_verify\<close>. \<open>CSP_21\<close> is not defined in
  this build, so the checksum covers the payload without the header.
\<close>

section \<open>The table-driven checksum\<close>

definition crc_tab :: "u32 list" where
  "crc_tab =
    [0x00000000, 0xF26B8303, 0xE13B70F7, 0x1350F3F4, 0xC79A971F, 0x35F1141C, 0x26A1E7E8, 0xD4CA64EB,
     0x8AD958CF, 0x78B2DBCC, 0x6BE22838, 0x9989AB3B, 0x4D43CFD0, 0xBF284CD3, 0xAC78BF27, 0x5E133C24,
     0x105EC76F, 0xE235446C, 0xF165B798, 0x030E349B, 0xD7C45070, 0x25AFD373, 0x36FF2087, 0xC494A384,
     0x9A879FA0, 0x68EC1CA3, 0x7BBCEF57, 0x89D76C54, 0x5D1D08BF, 0xAF768BBC, 0xBC267848, 0x4E4DFB4B,
     0x20BD8EDE, 0xD2D60DDD, 0xC186FE29, 0x33ED7D2A, 0xE72719C1, 0x154C9AC2, 0x061C6936, 0xF477EA35,
     0xAA64D611, 0x580F5512, 0x4B5FA6E6, 0xB93425E5, 0x6DFE410E, 0x9F95C20D, 0x8CC531F9, 0x7EAEB2FA,
     0x30E349B1, 0xC288CAB2, 0xD1D83946, 0x23B3BA45, 0xF779DEAE, 0x05125DAD, 0x1642AE59, 0xE4292D5A,
     0xBA3A117E, 0x4851927D, 0x5B016189, 0xA96AE28A, 0x7DA08661, 0x8FCB0562, 0x9C9BF696, 0x6EF07595,
     0x417B1DBC, 0xB3109EBF, 0xA0406D4B, 0x522BEE48, 0x86E18AA3, 0x748A09A0, 0x67DAFA54, 0x95B17957,
     0xCBA24573, 0x39C9C670, 0x2A993584, 0xD8F2B687, 0x0C38D26C, 0xFE53516F, 0xED03A29B, 0x1F682198,
     0x5125DAD3, 0xA34E59D0, 0xB01EAA24, 0x42752927, 0x96BF4DCC, 0x64D4CECF, 0x77843D3B, 0x85EFBE38,
     0xDBFC821C, 0x2997011F, 0x3AC7F2EB, 0xC8AC71E8, 0x1C661503, 0xEE0D9600, 0xFD5D65F4, 0x0F36E6F7,
     0x61C69362, 0x93AD1061, 0x80FDE395, 0x72966096, 0xA65C047D, 0x5437877E, 0x4767748A, 0xB50CF789,
     0xEB1FCBAD, 0x197448AE, 0x0A24BB5A, 0xF84F3859, 0x2C855CB2, 0xDEEEDFB1, 0xCDBE2C45, 0x3FD5AF46,
     0x7198540D, 0x83F3D70E, 0x90A324FA, 0x62C8A7F9, 0xB602C312, 0x44694011, 0x5739B3E5, 0xA55230E6,
     0xFB410CC2, 0x092A8FC1, 0x1A7A7C35, 0xE811FF36, 0x3CDB9BDD, 0xCEB018DE, 0xDDE0EB2A, 0x2F8B6829,
     0x82F63B78, 0x709DB87B, 0x63CD4B8F, 0x91A6C88C, 0x456CAC67, 0xB7072F64, 0xA457DC90, 0x563C5F93,
     0x082F63B7, 0xFA44E0B4, 0xE9141340, 0x1B7F9043, 0xCFB5F4A8, 0x3DDE77AB, 0x2E8E845F, 0xDCE5075C,
     0x92A8FC17, 0x60C37F14, 0x73938CE0, 0x81F80FE3, 0x55326B08, 0xA759E80B, 0xB4091BFF, 0x466298FC,
     0x1871A4D8, 0xEA1A27DB, 0xF94AD42F, 0x0B21572C, 0xDFEB33C7, 0x2D80B0C4, 0x3ED04330, 0xCCBBC033,
     0xA24BB5A6, 0x502036A5, 0x4370C551, 0xB11B4652, 0x65D122B9, 0x97BAA1BA, 0x84EA524E, 0x7681D14D,
     0x2892ED69, 0xDAF96E6A, 0xC9A99D9E, 0x3BC21E9D, 0xEF087A76, 0x1D63F975, 0x0E330A81, 0xFC588982,
     0xB21572C9, 0x407EF1CA, 0x532E023E, 0xA145813D, 0x758FE5D6, 0x87E466D5, 0x94B49521, 0x66DF1622,
     0x38CC2A06, 0xCAA7A905, 0xD9F75AF1, 0x2B9CD9F2, 0xFF56BD19, 0x0D3D3E1A, 0x1E6DCDEE, 0xEC064EED,
     0xC38D26C4, 0x31E6A5C7, 0x22B65633, 0xD0DDD530, 0x0417B1DB, 0xF67C32D8, 0xE52CC12C, 0x1747422F,
     0x49547E0B, 0xBB3FFD08, 0xA86F0EFC, 0x5A048DFF, 0x8ECEE914, 0x7CA56A17, 0x6FF599E3, 0x9D9E1AE0,
     0xD3D3E1AB, 0x21B862A8, 0x32E8915C, 0xC083125F, 0x144976B4, 0xE622F5B7, 0xF5720643, 0x07198540,
     0x590AB964, 0xAB613A67, 0xB831C993, 0x4A5A4A90, 0x9E902E7B, 0x6CFBAD78, 0x7FAB5E8C, 0x8DC0DD8F,
     0xE330A81A, 0x115B2B19, 0x020BD8ED, 0xF0605BEE, 0x24AA3F05, 0xD6C1BC06, 0xC5914FF2, 0x37FACCF1,
     0x69E9F0D5, 0x9B8273D6, 0x88D28022, 0x7AB90321, 0xAE7367CA, 0x5C18E4C9, 0x4F48173D, 0xBD23943E,
     0xF36E6F75, 0x0105EC76, 0x12551F82, 0xE03E9C81, 0x34F4F86A, 0xC69F7B69, 0xD5CF889D, 0x27A40B9E,
     0x79B737BA, 0x8BDCB4B9, 0x988C474D, 0x6AE7C44E, 0xBE2DA0A5, 0x4C4623A6, 0x5F16D052, 0xAD7D5351]"

definition csp_crc32_init :: u32 where
  "csp_crc32_init = 0xFFFFFFFF"

fun csp_crc32_update :: "u32 \<Rightarrow> byte list \<Rightarrow> u32" where
  "csp_crc32_update crc [] = crc"
| "csp_crc32_update crc (b # bs) =
     csp_crc32_update (crc_tab ! unat ((crc XOR ucast b) AND 0xFF) XOR drop_bit 8 crc) bs"

definition csp_crc32_final :: "u32 \<Rightarrow> u32" where
  "csp_crc32_final crc = crc XOR 0xFFFFFFFF"

definition csp_crc32_memory :: "byte list \<Rightarrow> u32" where
  "csp_crc32_memory bs = csp_crc32_final (csp_crc32_update csp_crc32_init bs)"

section \<open>The checksum on packets\<close>

definition csp_crc32_append :: "csp_packet \<Rightarrow> int \<times> csp_packet" where
  "csp_crc32_append p =
     (if unat (plength p) + 4 > CSP_BUFFER_SIZE then (CSP_ERR_NOMEM, p)
      else (CSP_ERR_NONE,
            p\<lparr>pmem := mwrite (data_at (unat (plength p))) (be32_enc (csp_crc32_memory (pdata p))) (pmem p),
              plength := plength p + 4\<rparr>))"

definition csp_crc32_verify :: "u8 \<Rightarrow> csp_packet \<Rightarrow> int \<times> csp_packet" where
  "csp_crc32_verify version p =
     (if unat (plength p) < 4 then (CSP_ERR_CRC32, p)
      else
        let p = csp_id_prepend version p;
            stored = mread (data_at (unat (plength p)) - 4) 4 (pmem p);
            crc = csp_crc32_memory (pframe p)
        in if stored \<noteq> be32_enc crc \<and>
              stored \<noteq> be32_enc (csp_crc32_memory (mread (data_at 0) (unat (plength p) - 4) (pmem p)))
           then (CSP_ERR_CRC32, p)
           else (CSP_ERR_NONE, p\<lparr>plength := plength p - 4\<rparr>))"

section \<open>The bitwise reference\<close>

definition crc_bit :: "u32 \<Rightarrow> u32" where
  "crc_bit x = drop_bit 1 x XOR (if bit x 0 then 0x82F63B78 else 0)"

definition crc32c_step :: "u32 \<Rightarrow> byte \<Rightarrow> u32" where
  "crc32c_step crc b = (crc_bit ^^ 8) (crc XOR ucast b)"

definition crc32c_ref :: "byte list \<Rightarrow> u32" where
  "crc32c_ref bs = foldl crc32c_step 0xFFFFFFFF bs XOR 0xFFFFFFFF"

lemma crc_bit_xor: "crc_bit (x XOR y) = crc_bit x XOR crc_bit y"
  by (rule bit_word_eqI) (auto simp: crc_bit_def bit_simps)

lemma crc_bit_funpow_xor: "(crc_bit ^^ n) (x XOR y) = (crc_bit ^^ n) x XOR (crc_bit ^^ n) y"
  by (induction n arbitrary: x y) (simp_all add: crc_bit_xor)

lemma crc_bit_even: "\<not> bit x 0 \<Longrightarrow> crc_bit x = drop_bit 1 x"
  by (simp add: crc_bit_def)

lemma crc_bit_funpow_low_zero:
  "(\<And>i. i < n \<Longrightarrow> \<not> bit x i) \<Longrightarrow> (crc_bit ^^ n) x = drop_bit n x"
proof (induction n arbitrary: x)
  case (Suc n)
  have "crc_bit x = drop_bit 1 x"
    using Suc.prems by (simp add: crc_bit_even)
  moreover have "(crc_bit ^^ n) (drop_bit 1 x) = drop_bit n (drop_bit 1 x)"
    by (rule Suc.IH) (use Suc.prems in \<open>simp add: bit_drop_bit_eq\<close>)
  ultimately show ?case
    by (simp add: funpow_Suc_right del: funpow.simps)
qed simp

lemma crc_split_low:
  fixes x :: u32
  shows "x = (x AND mask n) XOR (x AND NOT (mask n))"
  by (rule bit_word_eqI) (auto simp: bit_simps)

text \<open>Eight bit steps are one table lookup on the low byte, xored into the shifted rest.\<close>

lemma crc_bit_funpow_8: "(crc_bit ^^ 8) x = (crc_bit ^^ 8) (x AND 0xFF) XOR drop_bit 8 x"
proof -
  have "(crc_bit ^^ 8) x = (crc_bit ^^ 8) (x AND mask 8) XOR (crc_bit ^^ 8) (x AND NOT (mask 8))"
    by (subst crc_split_low [of x 8]) (rule crc_bit_funpow_xor)
  also have "(crc_bit ^^ 8) (x AND NOT (mask 8)) = drop_bit 8 (x AND NOT (mask 8))"
    by (rule crc_bit_funpow_low_zero) (simp add: bit_simps)
  also have "drop_bit 8 (x AND NOT (mask 8)) = drop_bit 8 x"
    by (rule bit_word_eqI) (auto simp: bit_simps dest: bit_imp_le_length)
  finally show ?thesis by (simp add: mask_eq_exp_minus_1)
qed

lemma crc_bit_inj: "crc_bit x = crc_bit y \<Longrightarrow> x = y"
proof -
  assume eq: "crc_bit x = crc_bit y"
  have msb: "bit (crc_bit z) 31 \<longleftrightarrow> bit z 0" for z
    by (auto simp: crc_bit_def bit_simps dest: bit_imp_le_length)
  have low: "bit x 0 \<longleftrightarrow> bit y 0" using eq msb by metis
  then have shifted: "drop_bit 1 x = drop_bit 1 y"
    using eq by (simp add: crc_bit_def)
  show "x = y"
  proof (rule bit_word_eqI)
    fix n
    show "bit x n \<longleftrightarrow> bit y n"
    proof (cases n)
      case (Suc m)
      then have "bit (drop_bit 1 x) m = bit (drop_bit 1 y) m" using shifted by simp
      with Suc show ?thesis by (simp add: bit_drop_bit_eq)
    qed (use low in simp)
  qed
qed

lemma crc_bit_funpow_inj: "(crc_bit ^^ n) x = (crc_bit ^^ n) y \<Longrightarrow> x = y"
  by (induction n) (auto dest: crc_bit_inj)

text \<open>The table is checked entry by entry through two recurrences: halving an index is
  one bit step, and an odd index differs from the even one below it by entry 1.\<close>

fun evens :: "'a list \<Rightarrow> 'a list" where
  "evens (x # y # xs) = x # evens xs"
| "evens xs = xs"

fun odds :: "'a list \<Rightarrow> 'a list" where
  "odds (x # y # xs) = y # odds xs"
| "odds xs = []"

lemma nth_evens: "2 * i < length xs \<Longrightarrow> evens xs ! i = xs ! (2 * i)"
  by (induction xs arbitrary: i rule: evens.induct) (auto simp: nth_Cons split: nat.splits)

lemma nth_odds: "2 * i + 1 < length xs \<Longrightarrow> odds xs ! i = xs ! (2 * i + 1)"
  by (induction xs arbitrary: i rule: odds.induct) (auto simp: nth_Cons split: nat.splits)

lemma length_evens_odds [simp]: "length (evens xs) = (length xs + 1) div 2" "length (odds xs) = length xs div 2"
  by (induction xs rule: evens.induct) auto

lemma length_crc_tab: "length crc_tab = 256"
  by (simp add: crc_tab_def)

lemma crc_tab_evens: "map crc_bit (evens crc_tab) = take 128 crc_tab"
  by (simp add: crc_tab_def crc_bit_def)

lemma crc_tab_odds: "odds crc_tab = map (\<lambda>x. x XOR 0xF26B8303) (evens crc_tab)"
  by (simp add: crc_tab_def)

lemma crc_tab_1: "crc_tab ! 0 = 0" "crc_tab ! 1 = 0xF26B8303" "(crc_bit ^^ 8) 1 = 0xF26B8303"
proof -
  show "crc_tab ! 0 = 0" "crc_tab ! 1 = 0xF26B8303" by (simp_all add: crc_tab_def)
  show "(crc_bit ^^ 8) 1 = 0xF26B8303" by (simp add: funpow_8 crc_bit_def)
qed

lemma crc_tab_nth: "i < 256 \<Longrightarrow> crc_tab ! i = (crc_bit ^^ 8) (of_nat i)"
proof (induction i rule: less_induct)
  case (less i)
  define j where "j = i div 2"
  consider "i = 0" | "i = 1" | "i = 2 * j" "0 < j" | "i = 2 * j + 1" "0 < j"
    unfolding j_def by (cases "i = 0"; cases "i = 1"; cases "even i") auto
  then show ?case
  proof cases
    case 3
    then have "j < i" "j < 128" using less.prems by auto
    then have "crc_tab ! j = (crc_bit ^^ 8) (of_nat j)" using less.IH less.prems by simp
    moreover have "crc_bit (crc_tab ! i) = crc_tab ! j"
      using arg_cong [OF crc_tab_evens, of "\<lambda>xs. xs ! j"] \<open>j < 128\<close> \<open>i = 2 * j\<close>
      by (simp add: nth_evens length_crc_tab)
    moreover have "crc_bit ((crc_bit ^^ 8) (of_nat i)) = (crc_bit ^^ 8) (of_nat j)"
    proof -
      have "\<not> bit (of_nat i :: u32) 0"
        using 3 by (simp add: bit_iff_odd)
      then have "crc_bit (of_nat i) = drop_bit 1 (of_nat i)"
        by (rule crc_bit_even)
      also have "unat (drop_bit 1 (of_nat i) :: u32) = unat (of_nat j :: u32)"
      proof -
        have "unat (of_nat i :: u32) = i" "unat (of_nat j :: u32) = j"
          using \<open>j < 128\<close> less.prems by (simp_all add: unat_of_nat)
        moreover have "drop_bit 1 i = j"
          using 3 by (simp add: drop_bit_eq_div)
        ultimately show ?thesis
          by (simp only: unat_drop_bit_eq)
      qed
      then have "drop_bit 1 (of_nat i) = (of_nat j :: u32)"
        by (simp only: word_unat_eq_iff)
      finally show ?thesis by (metis funpow_swap1)
    qed
    ultimately show ?thesis by (metis crc_bit_inj)
  next
    case 4
    then have "2 * j < i" "j < 128" using less.prems by auto
    then have "crc_tab ! (2 * j) = (crc_bit ^^ 8) (of_nat (2 * j))" using less.IH less.prems by simp
    moreover have "crc_tab ! i = crc_tab ! (2 * j) XOR 0xF26B8303"
      using arg_cong [OF crc_tab_odds, of "\<lambda>xs. xs ! j"] \<open>j < 128\<close> \<open>i = 2 * j + 1\<close>
      by (simp add: nth_evens nth_odds length_crc_tab)
    moreover have "of_nat i = of_nat (2 * j) XOR (1 :: u32)"
      using 4 by (simp add: xor_one_eq)
    ultimately show ?thesis
      by (simp add: crc_bit_funpow_xor crc_tab_1)
  qed (simp_all add: crc_tab_1 crc_tab_1 [unfolded One_nat_def] crc_bit_funpow_low_zero)
qed

lemma csp_crc32_update_step:
  "crc_tab ! unat ((crc XOR ucast b) AND 0xFF) XOR drop_bit 8 crc = crc32c_step crc b"
proof -
  let ?x = "crc XOR ucast b :: u32"
  have "unat (?x AND mask 8) < 2 ^ 8"
    by (rule unat_and_mask_less)
  then have "crc_tab ! unat (?x AND 0xFF) = (crc_bit ^^ 8) (?x AND 0xFF)"
    by (subst crc_tab_nth) (simp_all add: mask_eq_exp_minus_1)
  moreover have "drop_bit 8 ?x = drop_bit 8 crc"
    by (rule bit_word_eqI) (auto simp: bit_simps not_bit_beyond)
  ultimately show ?thesis
    by (simp add: crc32c_step_def crc_bit_funpow_8 [of ?x])
qed

lemma csp_crc32_update_foldl: "csp_crc32_update crc bs = foldl crc32c_step crc bs"
  by (induction bs arbitrary: crc) (simp_all add: csp_crc32_update_step)

lemma csp_crc32_update_append: "csp_crc32_update crc (xs @ ys) = csp_crc32_update (csp_crc32_update crc xs) ys"
  by (simp add: csp_crc32_update_foldl)

text \<open>C2. The table-driven checksum is CRC-32C: on every byte string it computes what
  the bit-by-bit shift register with the reflected polynomial 0x82F63B78 computes.\<close>

theorem csp_crc32_memory_is_crc32c: "csp_crc32_memory bs = crc32c_ref bs"
  by (simp add: csp_crc32_memory_def csp_crc32_final_def csp_crc32_init_def crc32c_ref_def
      csp_crc32_update_foldl)

section \<open>Error detection\<close>

lemma crc32c_step_inj: "crc32c_step s b = crc32c_step t b \<Longrightarrow> s = t"
  by (auto simp: crc32c_step_def dest: crc_bit_funpow_inj)

lemma crc_update_inj: "csp_crc32_update s bs = csp_crc32_update t bs \<Longrightarrow> s = t"
  by (induction bs arbitrary: s t)
    (auto simp: csp_crc32_update_step simp del: xor_cancel_right dest: crc32c_step_inj)

text \<open>Up to four bytes enter the register as one little-endian word.\<close>

fun le_word :: "byte list \<Rightarrow> u32" where
  "le_word [] = 0"
| "le_word (b # bs) = ucast b XOR push_bit 8 (le_word bs)"

lemma bit_le_word: "length bs \<le> 4 \<Longrightarrow> bit (le_word bs) n \<longleftrightarrow> n < 8 * length bs \<and> bit (bs ! (n div 8)) (n mod 8)"
proof (induction bs arbitrary: n)
  case (Cons b bs)
  show ?case
  proof (cases "n < 8")
    case False
    then obtain m where n: "n = m + 8" using le_Suc_ex [of 8 n] by (auto simp: add.commute)
    have "\<not> bit (ucast b :: u32) (m + 8)"
      by (simp add: bit_ucast_iff not_bit_beyond)
    moreover have "bit (push_bit 8 (le_word bs)) (m + 8) \<longleftrightarrow> m < 24 \<and> bit (le_word bs) m"
      by (simp add: bit_push_bit_iff)
    ultimately have "bit (le_word (b # bs)) n \<longleftrightarrow> m < 24 \<and> bit (le_word bs) m"
      by (simp only: n le_word.simps bit_xor_iff) simp
    moreover have "bit (le_word bs) m \<longleftrightarrow> m < 8 * length bs \<and> bit (bs ! (m div 8)) (m mod 8)"
      by (rule Cons.IH) (use Cons.prems in simp)
    moreover have "m < 8 * length bs \<Longrightarrow> m < 24" using Cons.prems by simp
    moreover have "n div 8 = Suc (m div 8)" "n mod 8 = m mod 8"
      "n < 8 * length (b # bs) \<longleftrightarrow> m < 8 * length bs"
      by (simp_all add: n)
    ultimately show ?thesis by (simp only: nth_Cons_Suc) blast
  qed (simp add: bit_simps)
qed simp

lemma le_word_inj:
  assumes "length xs = length ys" and "length xs \<le> 4" and "le_word xs = le_word ys"
  shows "xs = ys"
proof (rule nth_equalityI)
  fix i assume i: "i < length xs"
  show "xs ! i = ys ! i"
  proof (rule bit_word_eqI)
    fix n assume "n < LENGTH(8)"
    then have "bit (le_word xs) (8 * i + n) = bit (xs ! i) n" "bit (le_word ys) (8 * i + n) = bit (ys ! i) n"
      using i assms(1,2) by (simp_all add: bit_le_word)
    then show "bit (xs ! i) n = bit (ys ! i) n" using assms(3) by simp
  qed
qed (use assms in simp)

lemma crc_update_short:
  "length bs \<le> 4 \<Longrightarrow> csp_crc32_update s bs = (crc_bit ^^ (8 * length bs)) (s XOR le_word bs)"
proof (induction bs arbitrary: s)
  case (Cons b bs)
  have "csp_crc32_update s (b # bs) = csp_crc32_update (crc32c_step s b) bs"
    by (simp add: csp_crc32_update_step)
  also have "\<dots> = (crc_bit ^^ (8 * length bs)) (crc32c_step s b XOR le_word bs)"
    using Cons by simp
  also have "le_word bs = (crc_bit ^^ 8) (push_bit 8 (le_word bs))"
  proof -
    have "(crc_bit ^^ 8) (push_bit 8 (le_word bs)) = drop_bit 8 (push_bit 8 (le_word bs))"
      by (rule crc_bit_funpow_low_zero) (simp add: bit_simps)
    also have "\<dots> = le_word bs"
      using Cons.prems by (intro bit_word_eqI) (auto simp: bit_simps bit_le_word)
    finally show ?thesis ..
  qed
  also have "crc32c_step s b XOR (crc_bit ^^ 8) (push_bit 8 (le_word bs))
      = (crc_bit ^^ 8) (s XOR le_word (b # bs))"
    by (simp add: crc32c_step_def crc_bit_funpow_xor xor.assoc)
  also have "(crc_bit ^^ (8 * length bs)) ((crc_bit ^^ 8) (s XOR le_word (b # bs)))
      = (crc_bit ^^ (8 * length bs + 8)) (s XOR le_word (b # bs))"
    by (simp only: funpow_add comp_apply)
  finally show ?case
    by (simp add: add.commute)
qed simp

text \<open>Burst detection: two messages that differ only inside a window of at most four
  consecutive bytes never have the same checksum.\<close>

theorem csp_crc32_detects_burst:
  assumes "length x = length y" and "length x \<le> 4" and "x \<noteq> y"
  shows "csp_crc32_memory (pre @ x @ post) \<noteq> csp_crc32_memory (pre @ y @ post)"
proof
  assume "csp_crc32_memory (pre @ x @ post) = csp_crc32_memory (pre @ y @ post)"
  then have "csp_crc32_update (csp_crc32_update csp_crc32_init pre) x
      = csp_crc32_update (csp_crc32_update csp_crc32_init pre) y"
    by (auto simp: csp_crc32_memory_def csp_crc32_final_def csp_crc32_update_append dest: crc_update_inj)
  then have "le_word x = le_word y"
    using assms by (auto simp: crc_update_short dest: crc_bit_funpow_inj)
  then show False
    using assms le_word_inj by blast
qed

theorem csp_crc32_detects_burst_witness:
  "csp_crc32_memory ([1, 2] @ [3, 4] @ [5]) \<noteq> csp_crc32_memory ([1, 2] @ [3, 6] @ [5])"
  by (rule csp_crc32_detects_burst) simp_all

section \<open>Appending and verifying\<close>

lemma crc32_append_simps:
  assumes "packet_wf p" and "unat (plength p) + 4 \<le> CSP_BUFFER_SIZE"
    and "csp_crc32_append p = (e, q)"
  shows "e = CSP_ERR_NONE" "packet_wf q" "unat (plength q) = unat (plength p) + 4"
    "plength q - 4 = plength p" "pid q = pid p"
    "pdata q = pdata p @ be32_enc (csp_crc32_memory (pdata p))"
proof -
  let ?n = "unat (plength p)"
  have q: "q = p\<lparr>pmem := mwrite (data_at ?n) (be32_enc (csp_crc32_memory (pdata p))) (pmem p),
      plength := plength p + 4\<rparr>" and e: "e = CSP_ERR_NONE"
    using assms by (auto simp: csp_crc32_append_def)
  have len: "unat (plength p + 4) = ?n + 4"
    using assms(1) unat_header_add [of p 4] by simp
  have fits: "data_at ?n + 4 \<le> length (pmem p)"
    using assms by (simp add: packet_wf_def data_at_def)
  have "mread (data_at 0) (?n + 4) (pmem q) = mread (data_at 0) ?n (pmem q) @ mread (data_at ?n) 4 (pmem q)"
    using fits by (simp add: q mread_append_split data_at_def)
  also have "mread (data_at 0) ?n (pmem q) = pdata p"
    using fits by (simp add: q pdata_def mread_mwrite_disjoint data_at_def)
  also have "mread (data_at ?n) 4 (pmem q) = be32_enc (csp_crc32_memory (pdata p))"
    using fits by (simp add: q mread_mwrite_same)
  finally show "pdata q = pdata p @ be32_enc (csp_crc32_memory (pdata p))"
    by (simp add: pdata_def q len)
  show "e = CSP_ERR_NONE" "unat (plength q) = unat (plength p) + 4" "plength q - 4 = plength p" "pid q = pid p"
    using e by (simp_all add: q len)
  show "packet_wf q"
    using assms(1,2) fits by (simp add: q packet_wf_def len)
qed

lemma mread_prefix: "k \<le> n \<Longrightarrow> mread off k m = take k (mread off n m)"
  by (simp add: mread_def min_def)

lemma mread_suffix:
  "k \<le> n \<Longrightarrow> off + n \<le> length m \<Longrightarrow> mread (off + (n - k)) k m = drop (n - k) (mread off n m)"
  by (simp add: mread_def drop_take add.commute)

text \<open>The checks of \<open>csp_crc32_verify\<close> in terms of the payload and the frame.\<close>

lemma csp_crc32_verify_unfold:
  assumes "packet_wf p" and "4 \<le> unat (plength p)"
  defines "body \<equiv> take (unat (plength p) - 4) (pdata p)"
    and "stored \<equiv> drop (unat (plength p) - 4) (pdata p)"
  shows "csp_crc32_verify version p =
    (let q = csp_id_prepend version p
     in if stored = be32_enc (csp_crc32_memory (csp_id_header version (pid p) @ pdata p)) \<or>
           stored = be32_enc (csp_crc32_memory body)
        then (CSP_ERR_NONE, q\<lparr>plength := plength p - 4\<rparr>) else (CSP_ERR_CRC32, q))"
proof -
  let ?q = "csp_id_prepend version p" and ?n = "unat (plength p)"
  have len: "plength ?q = plength p" "pid ?q = pid p"
    by (simp_all add: csp_id_prepend_def csp_id1_prepend_def csp_id2_prepend_def)
  have data: "mread (data_at 0) ?n (pmem ?q) = pdata p"
    using pdata_prepend [OF assms(1), of version] by (simp add: pdata_def len)
  have "packet_wf ?q" using assms(1) by simp
  then have inb: "data_at 0 + ?n \<le> length (pmem ?q)"
    by (simp add: packet_wf_def len data_at_def)
  have "data_at ?n - 4 = data_at 0 + (?n - 4)"
    using assms(2) by (simp add: data_at_def)
  then have "mread (data_at ?n - 4) 4 (pmem ?q) = stored"
    using mread_suffix [OF assms(2) inb] by (simp only: data stored_def)
  moreover have "mread (data_at 0) (?n - 4) (pmem ?q) = body"
    using mread_prefix [of "?n - 4" ?n "data_at 0" "pmem ?q"] by (simp add: data body_def)
  ultimately show ?thesis
    using assms(2) by (simp add: csp_crc32_verify_def Let_def len pframe_prepend [OF assms(1)])
qed

text \<open>Checksum round trip: a packet with room for the checksum is accepted by
  \<open>csp_crc32_verify\<close> after \<open>csp_crc32_append\<close>, and comes back with its identifier, its
  length and its payload unchanged.\<close>

theorem csp_crc32_append_verify:
  assumes wf: "packet_wf p" and room: "unat (plength p) + 4 \<le> CSP_BUFFER_SIZE"
  shows "\<exists>q r. csp_crc32_append p = (CSP_ERR_NONE, q) \<and> csp_crc32_verify version q = (CSP_ERR_NONE, r)
    \<and> pid r = pid p \<and> plength r = plength p \<and> pdata r = pdata p"
proof -
  obtain e q where app: "csp_crc32_append p = (e, q)" by (rule prod.exhaust)
  note q = crc32_append_simps [OF wf room app]
  let ?r = "(csp_id_prepend version q)\<lparr>plength := plength q - 4\<rparr>"
  have "csp_crc32_verify version q = (CSP_ERR_NONE, ?r)"
    using csp_crc32_verify_unfold [OF q(2), of version] wf by (simp add: q Let_def)
  moreover have "pdata ?r = pdata p"
  proof -
    have "pdata ?r = take (unat (plength q) - 4) (pdata (csp_id_prepend version q))"
      by (simp add: pdata_def q csp_id_prepend_def csp_id1_prepend_def csp_id2_prepend_def mread_def min_def)
    then show ?thesis using wf by (simp add: pdata_prepend [OF q(2)] q)
  qed
  moreover have "pid ?r = pid p"
    by (simp add: q csp_id_prepend_def csp_id1_prepend_def csp_id2_prepend_def)
  ultimately show ?thesis using app q by auto
qed

text \<open>What the receiver accepts: a received packet of at least four bytes passes
  \<open>csp_crc32_verify\<close> exactly when its last four bytes are the checksum of the payload
  before them, or the checksum of the header followed by the whole payload including
  these four bytes; on acceptance the packet is shortened by the four bytes, otherwise
  its length and payload stay. In particular a checksum computed over header and payload
  without the trailer, as the CSP 2.1 sender computes it, is not what is compared.\<close>

theorem csp_crc32_verify_accepts:
  assumes "packet_wf p" and "4 \<le> unat (plength p)"
    and "csp_crc32_verify version p = (e, q)"
  shows "(e = CSP_ERR_NONE \<longleftrightarrow>
      (drop (unat (plength p) - 4) (pdata p) = be32_enc (csp_crc32_memory (take (unat (plength p) - 4) (pdata p)))
       \<or> drop (unat (plength p) - 4) (pdata p) = be32_enc (csp_crc32_memory (csp_id_header version (pid p) @ pdata p))))
    \<and> plength q = (if e = CSP_ERR_NONE then plength p - 4 else plength p)"
  using assms csp_crc32_verify_unfold [OF assms(1,2), of version]
  by (auto simp: Let_def csp_err_defs csp_id_prepend_def csp_id1_prepend_def csp_id2_prepend_def
      split: if_splits)

theorem csp_crc32_verify_accepts_witness:
  "\<exists>e q. csp_crc32_verify 2 (packet0\<lparr>plength := 4\<rparr>) = (e, q) \<and>
     plength q = (if e = CSP_ERR_NONE then 0 else 4)"
proof -
  obtain e q where v: "csp_crc32_verify 2 (packet0\<lparr>plength := 4\<rparr>) = (e, q)" by (rule prod.exhaust)
  then show ?thesis
    using csp_crc32_verify_accepts [OF _ _ v] by (auto simp: csp_config_defs)
qed

end
