(* ===== verification/Csp_Dedup.thy ===== *)
theory Csp_Dedup
  imports Csp_Crc32
begin

text \<open>
  Packet deduplication, \<open>src/csp_dedup.c\<close>: a ring of the checksums of recent packets
  with the time they were seen. The operation also packs the header of the packet in place.
\<close>

section \<open>State and operation\<close>

definition CSP_DEDUP_COUNT :: nat where "CSP_DEDUP_COUNT = 16"

definition CSP_DEDUP_WINDOW_MS :: u32 where "CSP_DEDUP_WINDOW_MS = 100"

record csp_dedup =
  dedup_array :: "u32 list"
  dedup_timestamp :: "u32 list"
  dedup_in :: nat

definition dedup0 :: csp_dedup where
  "dedup0 = \<lparr>dedup_array = replicate CSP_DEDUP_COUNT 0, dedup_timestamp = replicate CSP_DEDUP_COUNT 0,
     dedup_in = 0\<rparr>"

text \<open>The search loop; the unsigned \<open>i - 1\<close> is \<open>i + CSP_DEDUP_COUNT - 1\<close> modulo the size. The
  first argument bounds the iterations by the size of the ring.\<close>

fun dedup_loop :: "nat \<Rightarrow> csp_dedup \<Rightarrow> u32 \<Rightarrow> u32 \<Rightarrow> nat \<Rightarrow> bool" where
  "dedup_loop 0 d crc time i = False"
| "dedup_loop (Suc n) d crc time i =
     (if i = dedup_in d then False
      else if time > dedup_timestamp d ! i + CSP_DEDUP_WINDOW_MS then False
      else if crc = dedup_array d ! i then True
      else dedup_loop n d crc time ((i + (CSP_DEDUP_COUNT - 1)) mod CSP_DEDUP_COUNT))"

definition csp_dedup_is_duplicate ::
    "u8 \<Rightarrow> u32 \<Rightarrow> csp_packet \<Rightarrow> csp_dedup \<Rightarrow> bool \<times> csp_packet \<times> csp_dedup" where
  "csp_dedup_is_duplicate version time p d =
     (let p = csp_id_prepend version p;
          crc = csp_crc32_memory (pframe p);
          i = (dedup_in d + (CSP_DEDUP_COUNT - 1)) mod CSP_DEDUP_COUNT
      in if dedup_loop CSP_DEDUP_COUNT d crc time i then (True, p, d)
         else (False, p,
           d\<lparr>dedup_array := (dedup_array d)[dedup_in d := crc],
             dedup_timestamp := (dedup_timestamp d)[dedup_in d := time],
             dedup_in := Suc (dedup_in d) mod CSP_DEDUP_COUNT\<rparr>))"

section \<open>The window\<close>

definition dedup_wf :: "csp_dedup \<Rightarrow> bool" where
  "dedup_wf d \<longleftrightarrow> length (dedup_array d) = CSP_DEDUP_COUNT \<and>
     length (dedup_timestamp d) = CSP_DEDUP_COUNT \<and> dedup_in d < CSP_DEDUP_COUNT"

text \<open>The slot of the \<open>k\<close>-th newest entry, counted from 0.\<close>

definition newest :: "csp_dedup \<Rightarrow> nat \<Rightarrow> nat" where
  "newest d k = (dedup_in d + (CSP_DEDUP_COUNT - 1 - k)) mod CSP_DEDUP_COUNT"

lemma newest_Suc:
  "k < 15 \<Longrightarrow> (newest d k + (CSP_DEDUP_COUNT - 1)) mod CSP_DEDUP_COUNT = newest d (Suc k)"
proof -
  assume "k < 15"
  then have "dedup_in d + (16 - 1 - k) + (16 - 1) = dedup_in d + (16 - 1 - Suc k) + 16" by simp
  then have "(dedup_in d + (16 - 1 - k) + (16 - 1)) mod 16 = (dedup_in d + (16 - 1 - Suc k)) mod 16"
    by (metis mod_add_self2)
  then show ?thesis unfolding newest_def CSP_DEDUP_COUNT_def mod_add_left_eq .
qed

lemma newest_neq: "dedup_wf d \<Longrightarrow> k < 15 \<Longrightarrow> newest d k \<noteq> dedup_in d"
  by (simp add: newest_def CSP_DEDUP_COUNT_def dedup_wf_def mod_if) presburger

lemma newest_15: "dedup_wf d \<Longrightarrow> newest d 15 = dedup_in d"
  by (simp add: newest_def CSP_DEDUP_COUNT_def dedup_wf_def)

definition seen_within :: "csp_dedup \<Rightarrow> u32 \<Rightarrow> u32 \<Rightarrow> nat \<Rightarrow> bool" where
  "seen_within d crc time k \<longleftrightarrow>
     dedup_array d ! newest d k = crc \<and>
     (\<forall>j \<le> k. time \<le> dedup_timestamp d ! newest d j + CSP_DEDUP_WINDOW_MS)"

lemma ex_from_Suc:
  assumes "\<not> R k" "Q k"
  shows "(\<exists>m \<ge> k. m < N \<and> R m \<and> (\<forall>j. k \<le> j \<and> j \<le> m \<longrightarrow> Q j)) \<longleftrightarrow>
    (\<exists>m \<ge> Suc k. m < (N :: nat) \<and> R m \<and> (\<forall>j. Suc k \<le> j \<and> j \<le> m \<longrightarrow> Q j))"
proof (rule iff_exI)
  fix m
  have "k \<le> m \<longleftrightarrow> Suc k \<le> m" if "R m"
    using assms(1) that by (metis Suc_leD Suc_leI le_neq_implies_less)
  moreover have "(\<forall>j. k \<le> j \<and> j \<le> m \<longrightarrow> Q j) \<longleftrightarrow> (\<forall>j. Suc k \<le> j \<and> j \<le> m \<longrightarrow> Q j)"
    using assms(2) by (metis Suc_leD Suc_leI le_neq_implies_less)
  ultimately show "(k \<le> m \<and> m < N \<and> R m \<and> (\<forall>j. k \<le> j \<and> j \<le> m \<longrightarrow> Q j)) \<longleftrightarrow>
      (Suc k \<le> m \<and> m < N \<and> R m \<and> (\<forall>j. Suc k \<le> j \<and> j \<le> m \<longrightarrow> Q j))"
    by blast
qed

lemma dedup_loop_iff:
  assumes "dedup_wf d" "k \<le> 15" "15 - k < n"
  shows "dedup_loop n d crc time (newest d k) \<longleftrightarrow>
    (\<exists>m \<ge> k. m < 15 \<and> dedup_array d ! newest d m = crc \<and>
      (\<forall>j. k \<le> j \<and> j \<le> m \<longrightarrow> time \<le> dedup_timestamp d ! newest d j + CSP_DEDUP_WINDOW_MS))"
  using assms
proof (induction n arbitrary: k)
  case (Suc n)
  show ?case
  proof (cases "k = 15")
    case True
    then show ?thesis using Suc.prems by (simp add: newest_15)
  next
    case False
    then have k: "k < 15" using Suc.prems by simp
    have IH: "dedup_loop n d crc time (newest d (Suc k)) \<longleftrightarrow>
      (\<exists>m \<ge> Suc k. m < 15 \<and> dedup_array d ! newest d m = crc \<and>
        (\<forall>j. Suc k \<le> j \<and> j \<le> m \<longrightarrow> time \<le> dedup_timestamp d ! newest d j + CSP_DEDUP_WINDOW_MS))"
      using Suc.prems k by (intro Suc.IH) auto
    have neq: "newest d k \<noteq> dedup_in d" using Suc.prems(1) k by (rule newest_neq)
    consider (old) "time > dedup_timestamp d ! newest d k + CSP_DEDUP_WINDOW_MS"
      | (hit) "time \<le> dedup_timestamp d ! newest d k + CSP_DEDUP_WINDOW_MS" "dedup_array d ! newest d k = crc"
      | (miss) "time \<le> dedup_timestamp d ! newest d k + CSP_DEDUP_WINDOW_MS" "dedup_array d ! newest d k \<noteq> crc"
      by force
    then show ?thesis
    proof cases
      case old
      then show ?thesis using neq by (auto simp: not_le [symmetric])
    next
      case hit
      then show ?thesis using neq k by (auto intro!: exI [of _ k])
    next
      case miss
      have "dedup_loop (Suc n) d crc time (newest d k) = dedup_loop n d crc time (newest d (Suc k))"
        using miss neq newest_Suc [OF k, of d] by (auto simp: not_less)
      then show ?thesis unfolding IH using miss by (subst ex_from_Suc) auto
    qed
  qed
qed simp

definition packet_crc :: "u8 \<Rightarrow> csp_packet \<Rightarrow> u32" where
  "packet_crc version p = csp_crc32_memory (csp_id_header version (pid p) @ pdata p)"

lemma is_duplicate_iff:
  assumes "dedup_wf d" "packet_wf p"
  shows "fst (csp_dedup_is_duplicate version time p d) \<longleftrightarrow>
    (\<exists>k < 15. seen_within d (packet_crc version p) time k)"
proof -
  have "newest d 0 = (dedup_in d + (CSP_DEDUP_COUNT - 1)) mod CSP_DEDUP_COUNT"
    by (simp add: newest_def)
  then have "fst (csp_dedup_is_duplicate version time p d) \<longleftrightarrow>
      dedup_loop CSP_DEDUP_COUNT d (packet_crc version p) time (newest d 0)"
    using pframe_prepend [OF assms(2)]
    by (simp add: csp_dedup_is_duplicate_def Let_def packet_crc_def)
  also have "\<dots> \<longleftrightarrow> (\<exists>k < 15. seen_within d (packet_crc version p) time k)"
    using dedup_loop_iff [OF assms(1), of 0 CSP_DEDUP_COUNT "packet_crc version p" time]
    by (auto simp: CSP_DEDUP_COUNT_def seen_within_def)
  finally show ?thesis .
qed

lemma newest_0_insert: "i < 16 \<Longrightarrow> (Suc i mod 16 + 15) mod 16 = (i :: nat)"
  by (cases "i = 15") auto

section \<open>Properties\<close>

text \<open>C9: a packet is a duplicate exactly if one of the last 15 recorded packets has the same
  header and payload checksum and neither it nor a newer one is older than the window. A
  duplicate leaves the ring as it is. A packet that is not a duplicate is recorded:
  the same packet seen again within the window is recognised.\<close>

theorem csp_dedup_is_duplicate_spec:
  assumes "dedup_wf d" "packet_wf p"
  shows "(fst (csp_dedup_is_duplicate version time p d) \<longleftrightarrow>
      (\<exists>k < 15. seen_within d (packet_crc version p) time k)) \<and>
    (case csp_dedup_is_duplicate version time p d of (dup, p', d') \<Rightarrow>
      dedup_wf d' \<and> pdata p' = pdata p \<and> pid p' = pid p \<and>
      (if dup then d' = d
       else \<forall>time' q. packet_wf q \<and> pid q = pid p \<and> pdata q = pdata p \<and>
           time' \<le> time + CSP_DEDUP_WINDOW_MS \<longrightarrow>
         fst (csp_dedup_is_duplicate version time' q d')))"
proof -
  obtain dup p' d' where r: "csp_dedup_is_duplicate version time p d = (dup, p', d')"
    by (rule prod_cases3)
  have iff: "dup \<longleftrightarrow> (\<exists>k < 15. seen_within d (packet_crc version p) time k)"
    using is_duplicate_iff [OF assms, of version time] r by simp
  have p': "p' = csp_id_prepend version p" and d': "d' = (if dup then d else
      d\<lparr>dedup_array := (dedup_array d)[dedup_in d := packet_crc version p],
        dedup_timestamp := (dedup_timestamp d)[dedup_in d := time],
        dedup_in := Suc (dedup_in d) mod CSP_DEDUP_COUNT\<rparr>)"
    using r pframe_prepend [OF assms(2), of version]
    by (auto simp: csp_dedup_is_duplicate_def packet_crc_def Let_def split: if_splits)
  have wf: "dedup_wf d'" using assms(1) by (simp add: d' dedup_wf_def CSP_DEDUP_COUNT_def)
  have again: "fst (csp_dedup_is_duplicate version time' q d')"
    if "\<not> dup" "packet_wf q" "pid q = pid p" "pdata q = pdata p"
      "time' \<le> time + CSP_DEDUP_WINDOW_MS" for time' q
  proof -
    have "newest d' 0 = dedup_in d"
      using assms(1) that(1) newest_0_insert [of "dedup_in d"]
      by (simp add: newest_def d' dedup_wf_def CSP_DEDUP_COUNT_def)
    then have "seen_within d' (packet_crc version q) time' 0"
      using that assms(1) by (simp add: seen_within_def packet_crc_def d' dedup_wf_def)
    then show ?thesis using is_duplicate_iff [OF wf that(2)] by (auto intro!: exI [of _ 0])
  qed
  have "pid p' = pid p"
    by (simp add: p' csp_id_prepend_def csp_id1_prepend_def csp_id2_prepend_def Let_def)
  then show ?thesis
    using r iff wf again pdata_prepend [OF assms(2), of version] by (simp add: p' d')
qed

theorem csp_dedup_is_duplicate_spec_witness:
  "\<not> fst (csp_dedup_is_duplicate 2 5000 packet0 dedup0) \<and>
   fst (csp_dedup_is_duplicate 2 5050 packet0 (snd (snd (csp_dedup_is_duplicate 2 5000 packet0 dedup0))))"
proof -
  have wf: "dedup_wf dedup0" "packet_wf packet0"
    by (simp_all add: dedup_wf_def dedup0_def CSP_DEDUP_COUNT_def)
  note spec = csp_dedup_is_duplicate_spec [OF wf, of 2 5000]
  have "\<not> seen_within dedup0 crc 5000 k" for crc k
    by (auto simp: seen_within_def dedup0_def newest_def CSP_DEDUP_COUNT_def CSP_DEDUP_WINDOW_MS_def
        intro!: exI [of _ 0])
  with spec have "\<not> fst (csp_dedup_is_duplicate 2 5000 packet0 dedup0)" by blast
  with spec show ?thesis
    by (auto simp: CSP_DEDUP_WINDOW_MS_def wf(2) split: prod.splits)
qed

end
