(* ===== verification/Csp_Sha1.thy ===== *)
theory Csp_Sha1
  imports Csp_Types
begin

text \<open>
  The SHA-1 implementation of \<open>src/crypto/csp_sha1.c\<close>, with its macros, and the
  standard definition of SHA-1 (padding, message schedule, 80 steps per block) it is
  compared with.
\<close>

section \<open>The implementation\<close>

definition ROL :: "u32 \<Rightarrow> nat \<Rightarrow> u32" where
  "ROL x y = push_bit y x OR drop_bit (32 - y) x"

definition F0 :: "u32 \<Rightarrow> u32 \<Rightarrow> u32 \<Rightarrow> u32" where "F0 x y z = z XOR (x AND (y XOR z))"
definition F1 :: "u32 \<Rightarrow> u32 \<Rightarrow> u32 \<Rightarrow> u32" where "F1 x y z = x XOR y XOR z"
definition F2 :: "u32 \<Rightarrow> u32 \<Rightarrow> u32 \<Rightarrow> u32" where "F2 x y z = (x AND y) OR (z AND (x OR y))"
definition F3 :: "u32 \<Rightarrow> u32 \<Rightarrow> u32 \<Rightarrow> u32" where "F3 x y z = x XOR y XOR z"

type_synonym sha1_regs = "u32 \<times> u32 \<times> u32 \<times> u32 \<times> u32"

record csp_sha1_state =
  sha_length :: u64
  sha_state :: sha1_regs
  curlen :: nat
  sha_buf :: "byte list"

definition CSP_SHA1_BLOCKSIZE :: nat where "CSP_SHA1_BLOCKSIZE = 64"
definition CSP_SHA1_DIGESTSIZE :: nat where "CSP_SHA1_DIGESTSIZE = 20"

text \<open>One iteration of a round loop of \<open>csp_sha1_compress\<close>: five uses of the \<open>FF\<close> macro, each of
  which assigns two of the registers.\<close>

definition FF_rounds ::
    "(u32 \<Rightarrow> u32 \<Rightarrow> u32 \<Rightarrow> u32) \<Rightarrow> u32 \<Rightarrow> u32 list \<Rightarrow> nat \<Rightarrow> sha1_regs \<Rightarrow> sha1_regs" where
  "FF_rounds F k W i = (\<lambda>(a, b, c, d, e).
     let e = ROL a 5 + F b c d + e + W ! i + k; b = ROL b 30;
         d = ROL e 5 + F a b c + d + W ! (i + 1) + k; a = ROL a 30;
         c = ROL d 5 + F e a b + c + W ! (i + 2) + k; e = ROL e 30;
         b = ROL c 5 + F d e a + b + W ! (i + 3) + k; d = ROL d 30;
         a = ROL b 5 + F c d e + a + W ! (i + 4) + k; c = ROL c 30
     in (a, b, c, d, e))"

definition sha1_load :: "byte list \<Rightarrow> u32 list" where
  "sha1_load buf = map (\<lambda>i. be32_dec (drop (4 * i) buf)) [0..<16]"

definition sha1_expand :: "u32 list \<Rightarrow> u32 list" where
  "sha1_expand W0 =
     fold (\<lambda>i W. W @ [ROL (W ! (i - 3) XOR W ! (i - 8) XOR W ! (i - 14) XOR W ! (i - 16)) 1]) [16..<80] W0"

definition csp_sha1_compress :: "csp_sha1_state \<Rightarrow> byte list \<Rightarrow> csp_sha1_state" where
  "csp_sha1_compress sha1 buf =
     (let W = sha1_expand (sha1_load buf);
          r = sha_state sha1;
          r = fold (FF_rounds F0 0x5a827999 W) [0, 5, 10, 15] r;
          r = fold (FF_rounds F1 0x6ed9eba1 W) [20, 25, 30, 35] r;
          r = fold (FF_rounds F2 0x8f1bbcdc W) [40, 45, 50, 55] r;
          r = fold (FF_rounds F3 0xca62c1d6 W) [60, 65, 70, 75] r
      in sha1\<lparr>sha_state := (case (sha_state sha1, r) of
           ((s0, s1, s2, s3, s4), (a, b, c, d, e)) \<Rightarrow> (s0 + a, s1 + b, s2 + c, s3 + d, s4 + e))\<rparr>)"

definition csp_sha1_init :: csp_sha1_state where
  "csp_sha1_init = \<lparr>sha_length = 0,
     sha_state = (0x67452301, 0xefcdab89, 0x98badcfe, 0x10325476, 0xc3d2e1f0),
     curlen = 0, sha_buf = replicate CSP_SHA1_BLOCKSIZE 0\<rparr>"

text \<open>The loop of \<open>csp_sha1_process\<close>; every iteration consumes input, so the length of the
  input bounds their number.\<close>

fun sha1_process_loop :: "nat \<Rightarrow> csp_sha1_state \<Rightarrow> byte list \<Rightarrow> csp_sha1_state" where
  "sha1_process_loop 0 sha1 inp = sha1"
| "sha1_process_loop (Suc k) sha1 inp =
     (if inp = [] then sha1
      else if curlen sha1 = 0 \<and> length inp \<ge> CSP_SHA1_BLOCKSIZE
      then let sha1 = csp_sha1_compress sha1 inp;
               sha1 = sha1\<lparr>sha_length := sha_length sha1 + 512\<rparr>
           in sha1_process_loop k sha1 (drop CSP_SHA1_BLOCKSIZE inp)
      else let n = min (length inp) (CSP_SHA1_BLOCKSIZE - curlen sha1);
               sha1 = sha1\<lparr>sha_buf := mwrite (curlen sha1) (take n inp) (sha_buf sha1),
                           curlen := curlen sha1 + n\<rparr>;
               sha1 = (if curlen sha1 = CSP_SHA1_BLOCKSIZE
                       then (csp_sha1_compress sha1 (sha_buf sha1))
                              \<lparr>sha_length := sha_length sha1 + 512, curlen := 0\<rparr>
                       else sha1)
           in sha1_process_loop k sha1 (drop n inp))"

definition csp_sha1_process :: "csp_sha1_state \<Rightarrow> byte list \<Rightarrow> csp_sha1_state" where
  "csp_sha1_process sha1 data = sha1_process_loop (length data) sha1 data"

text \<open>\<open>csp_sha1_done\<close>: the loops \<open>while (curlen < n) buf[curlen++] = 0\<close> fill the buffer with zeros.\<close>

definition zero_fill :: "nat \<Rightarrow> csp_sha1_state \<Rightarrow> csp_sha1_state" where
  "zero_fill n sha1 = sha1\<lparr>sha_buf := mwrite (curlen sha1) (replicate (n - curlen sha1) 0) (sha_buf sha1),
     curlen := max n (curlen sha1)\<rparr>"

definition csp_sha1_done :: "csp_sha1_state \<Rightarrow> byte list" where
  "csp_sha1_done sha1 =
     (let sha1 = sha1\<lparr>sha_length := sha_length sha1 + of_nat (curlen sha1 * 8)\<rparr>;
          sha1 = sha1\<lparr>sha_buf := mwrite (curlen sha1) [0x80] (sha_buf sha1), curlen := curlen sha1 + 1\<rparr>;
          sha1 = (if curlen sha1 > 56
                  then let sha1 = zero_fill 64 sha1
                       in (csp_sha1_compress sha1 (sha_buf sha1))\<lparr>curlen := 0\<rparr>
                  else sha1);
          sha1 = zero_fill 56 sha1;
          sha1 = sha1\<lparr>sha_buf := mwrite 56 (be64_enc (sha_length sha1)) (sha_buf sha1)\<rparr>;
          sha1 = csp_sha1_compress sha1 (sha_buf sha1)
      in case sha_state sha1 of (s0, s1, s2, s3, s4) \<Rightarrow>
           be32_enc s0 @ be32_enc s1 @ be32_enc s2 @ be32_enc s3 @ be32_enc s4)"

definition csp_sha1_memory :: "byte list \<Rightarrow> byte list" where
  "csp_sha1_memory msg = csp_sha1_done (csp_sha1_process csp_sha1_init msg)"

section \<open>The standard\<close>

definition Ch :: "u32 \<Rightarrow> u32 \<Rightarrow> u32 \<Rightarrow> u32" where "Ch x y z = (x AND y) XOR (NOT x AND z)"
definition Parity :: "u32 \<Rightarrow> u32 \<Rightarrow> u32 \<Rightarrow> u32" where "Parity x y z = x XOR y XOR z"
definition Maj :: "u32 \<Rightarrow> u32 \<Rightarrow> u32 \<Rightarrow> u32" where "Maj x y z = (x AND y) XOR (x AND z) XOR (y AND z)"

definition std_f :: "nat \<Rightarrow> u32 \<Rightarrow> u32 \<Rightarrow> u32 \<Rightarrow> u32" where
  "std_f t = (if t < 20 then Ch else if t < 40 then Parity else if t < 60 then Maj else Parity)"

definition std_K :: "nat \<Rightarrow> u32" where
  "std_K t = (if t < 20 then 0x5a827999 else if t < 40 then 0x6ed9eba1
              else if t < 60 then 0x8f1bbcdc else 0xca62c1d6)"

definition std_step :: "u32 list \<Rightarrow> nat \<Rightarrow> sha1_regs \<Rightarrow> sha1_regs" where
  "std_step W t = (\<lambda>(a, b, c, d, e).
     (word_rotl 5 a + std_f t b c d + e + std_K t + W ! t, a, word_rotl 30 b, c, d))"

definition std_schedule :: "byte list \<Rightarrow> u32 list" where
  "std_schedule block =
     fold (\<lambda>t W. W @ [word_rotl 1 (W ! (t - 3) XOR W ! (t - 8) XOR W ! (t - 14) XOR W ! (t - 16))])
       [16..<80] (map (\<lambda>i. be32_dec (take 4 (drop (4 * i) block))) [0..<16])"

definition std_compress :: "sha1_regs \<Rightarrow> byte list \<Rightarrow> sha1_regs" where
  "std_compress H block =
     (case (H, fold (std_step (std_schedule block)) [0..<80] H) of
        ((h0, h1, h2, h3, h4), (a, b, c, d, e)) \<Rightarrow> (h0 + a, h1 + b, h2 + c, h3 + d, h4 + e))"

fun blocks :: "nat \<Rightarrow> byte list \<Rightarrow> byte list list" where
  "blocks 0 m = []"
| "blocks (Suc n) m = take 64 m # blocks n (drop 64 m)"

definition std_pad :: "byte list \<Rightarrow> byte list" where
  "std_pad m = m @ [0x80] @ replicate ((119 - length m mod 64) mod 64) 0 @ be64_enc (of_nat (8 * length m))"

definition sha1_digest :: "sha1_regs \<Rightarrow> byte list" where
  "sha1_digest = (\<lambda>(a, b, c, d, e). be32_enc a @ be32_enc b @ be32_enc c @ be32_enc d @ be32_enc e)"

definition sha1_std :: "byte list \<Rightarrow> byte list" where
  "sha1_std m = (let p = std_pad m in sha1_digest (foldl std_compress
     (0x67452301, 0xefcdab89, 0x98badcfe, 0x10325476, 0xc3d2e1f0) (blocks (length p div 64) p)))"

section \<open>The compression function\<close>

lemma ROL_rotl:
  assumes "0 < n" "n < 32"
  shows "ROL x n = word_rotl n x"
proof (rule bit_word_eqI)
  fix k assume k: "k < LENGTH(32)"
  have rot: "bit (word_rotl n x) k = bit x ((k + (32 - n)) mod 32)"
    using k assms by (simp add: bit_word_rotl_iff)
  show "bit (ROL x n) k \<longleftrightarrow> bit (word_rotl n x) k"
  proof (cases "k < n")
    case True
    then have "(k + (32 - n)) mod 32 = 32 - n + k" using assms by simp
    then show ?thesis unfolding rot using True k by (simp add: ROL_def bit_simps add.commute)
  next
    case False
    then have "(k + (32 - n)) mod 32 = k - n" using k assms by (simp add: mod_if)
    then show ?thesis unfolding rot using False assms k
      by (auto simp: ROL_def bit_simps not_bit_beyond)
  qed
qed

lemma F0_Ch: "F0 = Ch"
  by (intro ext bit_word_eqI) (auto simp: F0_def Ch_def bit_simps)

lemma F2_Maj: "F2 = Maj"
  by (intro ext bit_word_eqI) (auto simp: F2_def Maj_def bit_simps)

lemma F13_Parity: "F1 = Parity" "F3 = Parity"
  by (intro ext, simp add: F1_def F3_def Parity_def)+

lemma std_step_regs:
  "std_step W t (a, b, c, d, e) =
     (word_rotl 5 a + std_f t b c d + e + W ! t + std_K t, a, word_rotl 30 b, c, d)"
  by (simp add: std_step_def ac_simps)

lemma FF_rounds_steps:
  assumes "\<And>t. i \<le> t \<Longrightarrow> t < i + 5 \<Longrightarrow> std_f t = F \<and> std_K t = k"
  shows "FF_rounds F k W i r = fold (std_step W) [i..<i + 5] r"
proof -
  have upt: "[i..<i + 5] = [i, i + 1, i + 2, i + 3, i + 4]"
    by (simp add: upt_rec numeral_eq_Suc)
  have f: "std_f i = F" "std_f (i + 1) = F" "std_f (i + 2) = F" "std_f (i + 3) = F" "std_f (i + 4) = F"
    and k: "std_K i = k" "std_K (i + 1) = k" "std_K (i + 2) = k" "std_K (i + 3) = k" "std_K (i + 4) = k"
    by (use assms in auto)
  have rot: "ROL x 5 = word_rotl 5 x" "ROL x 30 = word_rotl 30 x" for x by (simp_all add: ROL_rotl)
  show ?thesis
    unfolding upt by (cases r) (simp only: FF_rounds_def fold.simps o_apply id_apply std_step_regs
        prod.case Let_def f k rot)
qed

lemma four_rounds:
  assumes "\<And>t. i \<le> t \<Longrightarrow> t < i + 20 \<Longrightarrow> std_f t = F \<and> std_K t = k"
  shows "fold (FF_rounds F k W) [i, i + 5, i + 10, i + 15] r = fold (std_step W) [i..<i + 20] r"
proof -
  have "[i..<i + 20] = [i..<i + 5] @ [i + 5..<i + 5 + 5] @ [i + 10..<i + 10 + 5] @ [i + 15..<i + 15 + 5]"
    using upt_add_eq_append [of i "i + 5" 15] upt_add_eq_append [of "i + 5" "i + 10" 10]
      upt_add_eq_append [of "i + 10" "i + 15" 5]
    by (simp only: add.assoc le_add1 numeral_plus_numeral add_num_simps nat_add_left_cancel_le
        numeral_le_iff le_num_simps less_num_simps append_assoc)
  moreover have "FF_rounds F k W j r = fold (std_step W) [j..<j + 5] r"
    if "i \<le> j" "j + 5 \<le> i + 20" for j r
    by (rule FF_rounds_steps) (use assms that in auto)
  ultimately show ?thesis by (simp del: upt.simps)
qed

lemma sha1_load_take: "sha1_load buf = map (\<lambda>i. be32_dec (take 4 (drop (4 * i) buf))) [0..<16]"
  by (simp add: sha1_load_def be32_dec_def)

lemma sha1_schedule: "sha1_expand (sha1_load buf) = std_schedule buf"
proof -
  have "ROL x 1 = word_rotl 1 x" for x by (simp add: ROL_rotl)
  then show ?thesis by (simp only: sha1_expand_def std_schedule_def sha1_load_take)
qed

lemma sha1_load_block: "sha1_load (take 64 buf) = sha1_load buf"
proof -
  have "be32_dec (drop (4 * i) (take 64 buf)) = be32_dec (drop (4 * i) buf)" if "i < 16" for i
    using that by (simp add: be32_dec_def nth_take nth_drop drop_take)
  then show ?thesis by (auto simp: sha1_load_def)
qed

text \<open>The unrolled compression with rotating registers is the standard one.\<close>

lemma compress_std:
  "csp_sha1_compress sha1 buf = sha1\<lparr>sha_state := std_compress (sha_state sha1) (take 64 buf)\<rparr>"
proof -
  let ?W = "std_schedule (take 64 buf)"
  have W: "sha1_expand (sha1_load buf) = ?W"
    using sha1_schedule [of "take 64 buf"] by (simp add: sha1_load_block)
  have r0: "fold (FF_rounds F0 0x5a827999 ?W) [0, 5, 10, 15] r = fold (std_step ?W) [0..<20] r" for r
    using four_rounds [of 0 F0 "0x5a827999" ?W r] by (simp add: std_f_def std_K_def F0_Ch)
  have r1: "fold (FF_rounds F1 0x6ed9eba1 ?W) [20, 25, 30, 35] r = fold (std_step ?W) [20..<40] r" for r
    using four_rounds [of 20 F1 "0x6ed9eba1" ?W r] by (simp add: std_f_def std_K_def F13_Parity)
  have r2: "fold (FF_rounds F2 0x8f1bbcdc ?W) [40, 45, 50, 55] r = fold (std_step ?W) [40..<60] r" for r
    using four_rounds [of 40 F2 "0x8f1bbcdc" ?W r] by (simp add: std_f_def std_K_def F2_Maj)
  have r3: "fold (FF_rounds F3 0xca62c1d6 ?W) [60, 65, 70, 75] r = fold (std_step ?W) [60..<80] r" for r
    using four_rounds [of 60 F3 "0xca62c1d6" ?W r] by (simp add: std_f_def std_K_def F13_Parity)
  have "[0..<80] = [0..<20] @ [20..<40] @ [40..<60] @ [60..<80]"
    by (simp add: upt_rec)
  then show ?thesis
    by (simp only: csp_sha1_compress_def Let_def W r0 r1 r2 r3 std_compress_def fold_append o_apply)
qed

section \<open>Streaming\<close>

lemma blocks_append: "length m = 64 * n \<Longrightarrow> blocks (n + k) (m @ r) = blocks n m @ blocks k r"
proof (induction n arbitrary: m)
  case (Suc n)
  then have "64 \<le> length m" "length (drop 64 m) = 64 * n" by simp_all
  with Suc.IH [of "drop 64 m"] show ?case by simp
qed simp

lemma blocks_prefix: "64 * n \<le> length m \<Longrightarrow> blocks n (m @ r) = blocks n m"
proof (induction n arbitrary: m)
  case (Suc n)
  then have "64 \<le> length m" "64 * n \<le> length (drop 64 m)" by simp_all
  with Suc.IH [of "drop 64 m"] show ?case by simp
qed simp

lemma blocks_snoc:
  assumes "64 * n \<le> length m" "length (drop (64 * n) m @ r) = 64"
  shows "blocks (Suc n) (m @ r) = blocks n m @ [drop (64 * n) m @ r]"
proof -
  have "blocks (n + 1) (take (64 * n) m @ (drop (64 * n) m @ r)) =
      blocks n (take (64 * n) m) @ blocks 1 (drop (64 * n) m @ r)"
    by (rule blocks_append) (use assms in simp)
  moreover have "blocks n (take (64 * n) m @ drop (64 * n) m) = blocks n (take (64 * n) m)"
    by (rule blocks_prefix) (use assms in simp)
  ultimately show ?thesis using assms(2) by (simp flip: append_assoc)
qed

definition H0 :: sha1_regs where
  "H0 = (0x67452301, 0xefcdab89, 0x98badcfe, 0x10325476, 0xc3d2e1f0)"

text \<open>The state after the input \<open>m\<close>: the full blocks are compressed, the rest is buffered.\<close>

definition sha1_inv :: "csp_sha1_state \<Rightarrow> byte list \<Rightarrow> bool" where
  "sha1_inv sha1 m \<longleftrightarrow>
     sha_length sha1 = of_nat (512 * (length m div 64)) \<and>
     sha_state sha1 = foldl std_compress H0 (blocks (length m div 64) m) \<and>
     curlen sha1 = length m mod 64 \<and> length (sha_buf sha1) = 64 \<and>
     take (curlen sha1) (sha_buf sha1) = drop (64 * (length m div 64)) m"

lemma sha1_inv_init: "sha1_inv csp_sha1_init []"
  by (simp add: sha1_inv_def csp_sha1_init_def H0_def CSP_SHA1_BLOCKSIZE_def)

lemma take_mwrite: "off + length bs \<le> length m \<Longrightarrow> take (off + length bs) (mwrite off bs m) = take off m @ bs"
  by (simp add: mwrite_def)

lemma div_mod_add_block:
  assumes "(a :: nat) mod 64 + n = 64"
  shows "(a + n) div 64 = Suc (a div 64) \<and> (a + n) mod 64 = 0"
proof -
  have "a + n = 64 * (a div 64) + (a mod 64 + n)" by simp
  then have "a + n = 64 * Suc (a div 64)" unfolding assms by simp
  then show ?thesis by simp
qed

lemma div_mod_add_part:
  assumes "(a :: nat) mod 64 + n < 64"
  shows "(a + n) div 64 = a div 64" "(a + n) mod 64 = a mod 64 + n"
proof -
  have eq: "a + n = (a mod 64 + n) + 64 * (a div 64)" by simp
  show "(a + n) div 64 = a div 64" by (subst eq, subst div_mult_self2) (use assms in simp_all)
  show "(a + n) mod 64 = a mod 64 + n" by (subst eq, subst mod_mult_self2) (use assms in simp)
qed

lemma sha1_inv_block:
  assumes "sha1_inv sha1 m" "curlen sha1 = 0" "64 \<le> length inp"
  shows "sha1_inv ((csp_sha1_compress sha1 inp)\<lparr>sha_length := sha_length sha1 + 512\<rparr>) (m @ take 64 inp)"
proof -
  have len: "length m mod 64 = 0" using assms by (simp add: sha1_inv_def)
  then have q: "length m = 64 * (length m div 64)" by (metis add.right_neutral div_mult_mod_eq mult.commute)
  have "blocks (Suc (length m div 64)) (m @ take 64 inp) = blocks (length m div 64) m @ [take 64 inp]"
    using blocks_snoc [of "length m div 64" m "take 64 inp"] q assms(3) by simp
  then show ?thesis
    using assms len by (auto simp: sha1_inv_def compress_std min_def)
qed

lemma sha1_inv_partial:
  assumes "sha1_inv sha1 m" "curlen sha1 + length bs < 64"
  shows "sha1_inv (sha1\<lparr>sha_buf := mwrite (curlen sha1) bs (sha_buf sha1),
    curlen := curlen sha1 + length bs\<rparr>) (m @ bs)"
proof -
  have cur: "length m mod 64 + length bs < 64" using assms by (simp add: sha1_inv_def)
  have dm: "(length m + length bs) div 64 = length m div 64"
    "(length m + length bs) mod 64 = length m mod 64 + length bs"
    using div_mod_add_part [OF cur] by simp_all
  have "blocks (length m div 64) (m @ bs) = blocks (length m div 64) m" by (rule blocks_prefix) simp
  moreover have "drop (64 * (length m div 64)) (m @ bs) = drop (64 * (length m div 64)) m @ bs" by simp
  ultimately show ?thesis
    using assms dm by (auto simp: sha1_inv_def take_mwrite)
qed

lemma sha1_inv_full:
  assumes "sha1_inv sha1 m" "curlen sha1 + length bs = 64" "bs \<noteq> []"
    and "sha1' = sha1\<lparr>sha_buf := mwrite (curlen sha1) bs (sha_buf sha1), curlen := 64\<rparr>"
  shows "sha1_inv ((csp_sha1_compress sha1' (sha_buf sha1'))\<lparr>sha_length := sha_length sha1' + 512, curlen := 0\<rparr>)
    (m @ bs)"
proof -
  have cur: "length m mod 64 + length bs = 64" using assms by (simp add: sha1_inv_def)
  note dm = div_mod_add_block [OF cur]
  have rest: "length (drop (64 * (length m div 64)) m) = length m mod 64"
    by (simp add: minus_mult_div_eq_mod)
  have "take 64 (mwrite (curlen sha1) bs (sha_buf sha1)) = drop (64 * (length m div 64)) m @ bs"
    using assms(1,2) take_mwrite [of "curlen sha1" bs "sha_buf sha1"] by (auto simp: sha1_inv_def)
  moreover have "blocks (Suc (length m div 64)) (m @ bs) =
      blocks (length m div 64) m @ [drop (64 * (length m div 64)) m @ bs]"
    by (rule blocks_snoc) (use cur rest in simp_all)
  ultimately show ?thesis
    using assms dm by (auto simp: sha1_inv_def compress_std)
qed

lemma sha1_inv_loop:
  "sha1_inv sha1 m \<Longrightarrow> length inp \<le> k \<Longrightarrow> sha1_inv (sha1_process_loop k sha1 inp) (m @ inp)"
proof (induction k arbitrary: sha1 m inp)
  case (Suc k)
  have cur: "curlen sha1 < 64" using Suc.prems(1) by (simp add: sha1_inv_def)
  consider "inp = []" | (block) "inp \<noteq> []" "curlen sha1 = 0" "64 \<le> length inp"
    | (part) "inp \<noteq> []" "\<not> (curlen sha1 = 0 \<and> 64 \<le> length inp)" by argo
  then show ?case
  proof cases
    case 1
    then show ?thesis using Suc.prems by simp
  next
    case block
    have "sha1_inv (sha1_process_loop k ((csp_sha1_compress sha1 inp)\<lparr>sha_length := sha_length sha1 + 512\<rparr>)
        (drop 64 inp)) ((m @ take 64 inp) @ drop 64 inp)"
      by (rule Suc.IH [OF sha1_inv_block [OF Suc.prems(1) block(2,3)]]) (use Suc.prems block in simp)
    then show ?thesis using block by (simp add: CSP_SHA1_BLOCKSIZE_def compress_std)
  next
    case part
    define n where "n = min (length inp) (64 - curlen sha1)"
    define sha1' where "sha1' = sha1\<lparr>sha_buf := mwrite (curlen sha1) (take n inp) (sha_buf sha1),
      curlen := curlen sha1 + n\<rparr>"
    define sha1'' where "sha1'' = (if curlen sha1' = 64 then (csp_sha1_compress sha1' (sha_buf sha1'))
      \<lparr>sha_length := sha_length sha1' + 512, curlen := 0\<rparr> else sha1')"
    have n: "n = length (take n inp)" "0 < n" "curlen sha1 + n \<le> 64"
      using part(1) cur by (auto simp: n_def)
    have "sha1_inv sha1'' (m @ take n inp)"
    proof (cases "curlen sha1 + n = 64")
      case True
      then show ?thesis using sha1_inv_full [of sha1 m "take n inp" sha1'] Suc.prems(1) n part(1)
        by (auto simp: sha1''_def sha1'_def)
    next
      case False
      then show ?thesis using sha1_inv_partial [of sha1 m "take n inp"] Suc.prems(1) n
        by (auto simp: sha1''_def sha1'_def)
    qed
    then have "sha1_inv (sha1_process_loop k sha1'' (drop n inp)) ((m @ take n inp) @ drop n inp)"
      by (rule Suc.IH) (use Suc.prems n in simp)
    moreover have "sha1_process_loop (Suc k) sha1 inp = sha1_process_loop k sha1'' (drop n inp)"
      unfolding sha1_process_loop.simps(2) if_not_P [OF part(1)] CSP_SHA1_BLOCKSIZE_def
        if_not_P [OF part(2)]
      by (simp only: Let_def sha1''_def sha1'_def n_def)
    ultimately show ?thesis by simp
  qed
qed simp

lemma sha1_inv_process: "sha1_inv sha1 m \<Longrightarrow> sha1_inv (csp_sha1_process sha1 inp) (m @ inp)"
  by (simp add: csp_sha1_process_def sha1_inv_loop)

section \<open>Padding\<close>

lemma mwrite_seq:
  "off + length bs + length cs \<le> length m \<Longrightarrow>
   mwrite (off + length bs) cs (mwrite off bs m) = mwrite off (bs @ cs) m"
  by (simp add: mwrite_def ac_simps)

lemma mwrite_all: "off \<le> length m \<Longrightarrow> off + length bs = length m \<Longrightarrow> mwrite off bs m = take off m @ bs"
  by (simp add: mwrite_def)

lemma pad_blocks:
  assumes "length (drop (64 * q) m @ z) = 64 * k" "64 * q \<le> length m"
  shows "blocks (length (m @ z) div 64) (m @ z) = blocks q m @ blocks k (drop (64 * q) m @ z)"
proof -
  have len: "length (m @ z) = 64 * (q + k)" using assms by simp
  have "blocks (q + k) (take (64 * q) m @ (drop (64 * q) m @ z)) =
      blocks q (take (64 * q) m) @ blocks k (drop (64 * q) m @ z)"
    by (rule blocks_append) (use assms in simp)
  moreover have "blocks q (take (64 * q) m @ drop (64 * q) m) = blocks q (take (64 * q) m)"
    by (rule blocks_prefix) (use assms in simp)
  ultimately show ?thesis unfolding len by (simp flip: append_assoc)
qed

lemma done_short:
  assumes "length (sha_buf sha1) = 64" "curlen sha1 \<le> 55"
  shows "csp_sha1_done sha1 = sha1_digest (std_compress (sha_state sha1)
    (take (curlen sha1) (sha_buf sha1) @ [0x80] @ replicate (55 - curlen sha1) 0 @
      be64_enc (sha_length sha1 + of_nat (curlen sha1 * 8))))"
proof -
  let ?c = "curlen sha1" and ?len = "be64_enc (sha_length sha1 + of_nat (curlen sha1 * 8))"
  have "mwrite 56 ?len (mwrite (?c + 1) (replicate (56 - (?c + 1)) 0) (mwrite ?c [0x80] (sha_buf sha1))) =
      mwrite ?c ([0x80] @ replicate (55 - ?c) 0 @ ?len) (sha_buf sha1)"
    using assms mwrite_seq [of ?c "[0x80]" "replicate (55 - ?c) 0" "sha_buf sha1"]
      mwrite_seq [of ?c "0x80 # replicate (55 - ?c) 0" ?len "sha_buf sha1"] by simp
  also have "\<dots> = take ?c (sha_buf sha1) @ [0x80] @ replicate (55 - ?c) 0 @ ?len"
    using assms by (subst mwrite_all) auto
  finally show ?thesis
    using assms by (simp add: csp_sha1_done_def Let_def zero_fill_def compress_std sha1_digest_def)
qed

lemma done_long:
  assumes "length (sha_buf sha1) = 64" "55 < curlen sha1" "curlen sha1 < 64"
  shows "csp_sha1_done sha1 = sha1_digest (std_compress (std_compress (sha_state sha1)
    (take (curlen sha1) (sha_buf sha1) @ [0x80] @ replicate (63 - curlen sha1) 0))
    (replicate 56 0 @ be64_enc (sha_length sha1 + of_nat (curlen sha1 * 8))))"
proof -
  let ?c = "curlen sha1" and ?len = "be64_enc (sha_length sha1 + of_nat (curlen sha1 * 8))"
  let ?b1 = "take ?c (sha_buf sha1) @ [0x80] @ replicate (63 - ?c) 0"
  have "mwrite (?c + 1) (replicate (64 - (?c + 1)) 0) (mwrite ?c [0x80] (sha_buf sha1)) =
      mwrite ?c ([0x80] @ replicate (63 - ?c) 0) (sha_buf sha1)"
    using assms mwrite_seq [of ?c "[0x80]" "replicate (63 - ?c) 0" "sha_buf sha1"] by simp
  also have "\<dots> = ?b1" using assms by (subst mwrite_all) auto
  finally have b1: "mwrite (Suc ?c) (replicate (63 - ?c) 0) (mwrite ?c [0x80] (sha_buf sha1)) = ?b1"
    by simp
  have len1: "length ?b1 = 64" using assms by simp
  have "mwrite 56 ?len (mwrite 0 (replicate 56 0) ?b1) = mwrite 0 (replicate 56 0 @ ?len) ?b1"
    using mwrite_seq [of 0 "replicate 56 0" ?len ?b1] len1 by simp
  also have "\<dots> = replicate 56 0 @ ?len" by (subst mwrite_all) (use len1 in auto)
  finally show ?thesis
    using assms b1 len1 by (simp add: csp_sha1_done_def Let_def zero_fill_def compress_std sha1_digest_def)
qed

lemma blocks_1_2:
  "length b = 64 \<Longrightarrow> blocks 1 b = [b]"
  "length b = 64 \<Longrightarrow> length c = 64 \<Longrightarrow> blocks 2 (b @ c) = [b, c]"
  by (simp_all add: numeral_2_eq_2)

lemma sha1_done_std:
  assumes "sha1_inv sha1 m"
  shows "csp_sha1_done sha1 = sha1_std m"
proof -
  define q c where "q = length m div 64" and "c = length m mod 64"
  have c: "c < 64" "curlen sha1 = c" "length m = 64 * q + c"
    using assms by (simp_all add: c_def q_def sha1_inv_def)
  have inv: "sha_state sha1 = foldl std_compress H0 (blocks q m)" "length (sha_buf sha1) = 64"
    "take c (sha_buf sha1) = drop (64 * q) m"
    using assms unfolding sha1_inv_def q_def c_def by auto
  have "sha_length sha1 + of_nat (c * 8) = of_nat (512 * q + c * 8)"
    using assms by (simp add: sha1_inv_def q_def)
  also have "512 * q + c * 8 = 8 * length m" using c(3) by simp
  finally have len: "sha_length sha1 + of_nat (curlen sha1 * 8) = of_nat (8 * length m)"
    unfolding c(2) .
  let ?r = "drop (64 * q) m" and ?len = "be64_enc (of_nat (8 * length m))"
  show ?thesis
  proof (cases "c \<le> 55")
    case True
    have pad: "std_pad m = m @ ([0x80] @ replicate (55 - c) 0 @ ?len)"
    proof -
      have eq: "119 - c = (55 - c) + 64" using True by simp
      have "(119 - c) mod 64 = (55 - c) mod 64" unfolding eq by (rule mod_add_self2)
      also have "\<dots> = 55 - c" by (rule mod_less) simp
      finally show ?thesis by (simp add: std_pad_def c_def)
    qed
    have "blocks (length (std_pad m) div 64) (std_pad m) =
        blocks q m @ blocks 1 (?r @ ([0x80] @ replicate (55 - c) 0 @ ?len))"
      unfolding pad by (rule pad_blocks) (use True c(3) in auto)
    also have "\<dots> = blocks q m @ [?r @ ([0x80] @ replicate (55 - c) 0 @ ?len)]"
      by (subst blocks_1_2) (use True c(3) in auto)
    finally show ?thesis
      using done_short [of sha1] True c(2) inv len by (simp add: sha1_std_def Let_def H0_def)
  next
    case False
    have rep: "replicate (119 - c) (0 :: u8) = replicate (63 - c) 0 @ replicate 56 0"
      using c(1) by (simp flip: replicate_add)
    have pad: "std_pad m = m @ (([0x80] @ replicate (63 - c) 0) @ (replicate 56 0 @ ?len))"
    proof -
      have "(119 - c) mod 64 = 119 - c" using False c(1) by simp
      then show ?thesis using rep by (simp add: std_pad_def c_def)
    qed
    have "blocks (length (std_pad m) div 64) (std_pad m) =
        blocks q m @ blocks 2 (?r @ (([0x80] @ replicate (63 - c) 0) @ (replicate 56 0 @ ?len)))"
      unfolding pad by (rule pad_blocks) (use False c in auto)
    also have "\<dots> = blocks q m @ [?r @ [0x80] @ replicate (63 - c) 0, replicate 56 0 @ ?len]"
      using blocks_1_2(2) [of "?r @ [0x80] @ replicate (63 - c) 0" "replicate 56 0 @ ?len"]
        False c by simp
    finally show ?thesis
      using done_long [of sha1] False c(1,2) inv len by (simp add: sha1_std_def Let_def H0_def)
  qed
qed

section \<open>Properties\<close>

text \<open>C10: the hash of a message given in pieces, in any split into calls of \<open>csp_sha1_process\<close>, is
  the SHA-1 standard hash of the whole message: block buffering, padding and the unrolled
  compression function are right for every message. In particular \<open>csp_sha1_memory\<close> is SHA-1.\<close>

theorem csp_sha1_is_sha1:
  "csp_sha1_done (foldl csp_sha1_process csp_sha1_init pieces) = sha1_std (concat pieces) \<and>
   csp_sha1_memory m = sha1_std m"
proof -
  have "sha1_inv (foldl csp_sha1_process sha1 pieces) (m @ concat pieces)" if "sha1_inv sha1 m"
    for sha1 m and pieces :: "byte list list"
    using that
  proof (induction pieces arbitrary: sha1 m)
    case (Cons p ps)
    then show ?case using Cons.IH [OF sha1_inv_process [OF Cons.prems, of p]] by simp
  qed simp
  from this [OF sha1_inv_init] sha1_inv_process [OF sha1_inv_init] show ?thesis
    by (simp add: csp_sha1_memory_def sha1_done_std)
qed

end
