(* ===== verification/Csp_Hmac.thy ===== *)
theory Csp_Hmac
  imports Csp_Sha1
begin

text \<open>
  Message authentication, \<open>src/crypto/csp_hmac.c\<close>: HMAC-SHA1 of a memory area, the key
  derivation, and appending and verifying the (truncated) code of a packet. The \<open>NULL\<close> checks
  of the local functions guard against pointers the callers never pass. The key of the
  stack is an argument here and a field of the state in the theories that send packets.
\<close>

section \<open>The implementation\<close>

definition HMAC_KEY_LENGTH :: nat where "HMAC_KEY_LENGTH = 16"

definition CSP_HMAC_LENGTH :: nat where "CSP_HMAC_LENGTH = 4"

record hmac_state =
  hmac_md :: csp_sha1_state
  hmac_key :: "byte list"

definition csp_hmac_init :: "byte list \<Rightarrow> hmac_state option" where
  "csp_hmac_init key =
     (if length key < 1 then None
      else let k = (if length key > CSP_SHA1_BLOCKSIZE
                    then csp_sha1_memory key @ replicate (CSP_SHA1_BLOCKSIZE - CSP_SHA1_DIGESTSIZE) 0
                    else key @ replicate (CSP_SHA1_BLOCKSIZE - length key) 0);
               buf = map (\<lambda>b. b XOR 0x36) k
           in Some \<lparr>hmac_md = csp_sha1_process csp_sha1_init buf, hmac_key = k\<rparr>)"

definition csp_hmac_process :: "hmac_state \<Rightarrow> byte list \<Rightarrow> hmac_state" where
  "csp_hmac_process hmac inp = hmac\<lparr>hmac_md := csp_sha1_process (hmac_md hmac) inp\<rparr>"

definition csp_hmac_done :: "hmac_state \<Rightarrow> byte list" where
  "csp_hmac_done hmac =
     (let isha = csp_sha1_done (hmac_md hmac);
          buf = map (\<lambda>b. b XOR 0x5C) (hmac_key hmac);
          md = csp_sha1_process csp_sha1_init buf;
          md = csp_sha1_process md isha
      in take CSP_SHA1_DIGESTSIZE (csp_sha1_done md))"

definition csp_hmac_memory :: "byte list \<Rightarrow> byte list \<Rightarrow> byte list option" where
  "csp_hmac_memory key data =
     (case csp_hmac_init key of None \<Rightarrow> None
      | Some state \<Rightarrow> Some (csp_hmac_done (csp_hmac_process state data)))"

definition csp_hmac_set_key :: "byte list \<Rightarrow> byte list" where
  "csp_hmac_set_key key = take HMAC_KEY_LENGTH (csp_sha1_memory key)"

text \<open>The stack calls these with \<open>include_header\<close> false or true; the code leaves the array \<open>hmac\<close>
  uninitialised if \<open>csp_hmac_memory\<close> fails, which the key of the stack rules out.\<close>

definition csp_hmac_append :: "byte list \<Rightarrow> bool \<Rightarrow> csp_packet \<Rightarrow> int \<times> csp_packet" where
  "csp_hmac_append key include_header p =
     (if unat (plength p) + CSP_HMAC_LENGTH > CSP_BUFFER_SIZE then (CSP_ERR_NOMEM, p)
      else if include_header
      then let hmac = the (csp_hmac_memory key (pframe p))
           in (CSP_ERR_NONE, p\<lparr>pmem := mwrite (frame_begin p + unat (frame_length p)) (take CSP_HMAC_LENGTH hmac) (pmem p),
                frame_length := frame_length p + 4\<rparr>)
      else let hmac = the (csp_hmac_memory key (pdata p))
           in (CSP_ERR_NONE, p\<lparr>pmem := mwrite (data_at (unat (plength p))) (take CSP_HMAC_LENGTH hmac) (pmem p),
                plength := plength p + 4\<rparr>))"

definition csp_hmac_verify :: "byte list \<Rightarrow> bool \<Rightarrow> csp_packet \<Rightarrow> int \<times> csp_packet" where
  "csp_hmac_verify key include_header p =
     (if unat (plength p) < CSP_HMAC_LENGTH then (CSP_ERR_HMAC, p)
      else if include_header
      then let hmac = the (csp_hmac_memory key (mread (frame_begin p) (unat (frame_length p - 4)) (pmem p)))
           in if mread (frame_begin p + unat (frame_length p) - CSP_HMAC_LENGTH) CSP_HMAC_LENGTH (pmem p)
                  \<noteq> take CSP_HMAC_LENGTH hmac
              then (CSP_ERR_HMAC, p)
              else (CSP_ERR_NONE, p\<lparr>frame_length := frame_length p - 4\<rparr>)
      else let hmac = the (csp_hmac_memory key (mread (data_at 0) (unat (plength p) - CSP_HMAC_LENGTH) (pmem p)))
           in if mread (data_at (unat (plength p) - CSP_HMAC_LENGTH)) CSP_HMAC_LENGTH (pmem p)
                  \<noteq> take CSP_HMAC_LENGTH hmac
              then (CSP_ERR_HMAC, p)
              else (CSP_ERR_NONE, p\<lparr>plength := plength p - 4\<rparr>))"

section \<open>HMAC\<close>

text \<open>The standard construction with a block of 64 bytes.\<close>

definition hmac_std :: "byte list \<Rightarrow> byte list \<Rightarrow> byte list" where
  "hmac_std key m =
     (let k = (if length key > 64 then sha1_std key else key);
          k = k @ replicate (64 - length k) 0
      in sha1_std (map (\<lambda>b. b XOR 0x5C) k @ sha1_std (map (\<lambda>b. b XOR 0x36) k @ m)))"

lemma length_sha1_std [simp]: "length (sha1_std m) = 20"
  by (simp add: sha1_std_def Let_def sha1_digest_def split: prod.split)

lemma memory_std: "csp_sha1_memory m = sha1_std m"
  using sha1_inv_process [OF sha1_inv_init, of m] by (simp add: csp_sha1_memory_def sha1_done_std)

lemma two_pieces_std:
  "csp_sha1_done (csp_sha1_process (csp_sha1_process csp_sha1_init a) b) = sha1_std (a @ b)"
  using sha1_inv_process [OF sha1_inv_process [OF sha1_inv_init, of a], of b]
  by (simp add: sha1_done_std)

lemma hmac_memory_std:
  assumes "key \<noteq> []"
  shows "csp_hmac_memory key m = Some (hmac_std key m)"
  using assms by (auto simp: csp_hmac_memory_def csp_hmac_init_def csp_hmac_process_def csp_hmac_done_def
      hmac_std_def Let_def two_pieces_std memory_std CSP_SHA1_BLOCKSIZE_def CSP_SHA1_DIGESTSIZE_def Suc_le_eq)

lemma length_hmac_std [simp]: "length (hmac_std key m) = 20"
  by (simp add: hmac_std_def Let_def)

section \<open>Packets\<close>

lemma hmac_append_fits:
  assumes "packet_wf p" "unat (plength p) + 4 \<le> CSP_BUFFER_SIZE" "key \<noteq> []"
  shows "csp_hmac_append key False p = (CSP_ERR_NONE,
      p\<lparr>pmem := mwrite (data_at (unat (plength p))) (take 4 (hmac_std key (pdata p))) (pmem p),
        plength := plength p + 4\<rparr>)"
  using assms by (simp add: csp_hmac_append_def CSP_HMAC_LENGTH_def hmac_memory_std)

lemma unat_plength_add_4:
  assumes "unat (plength p) + 4 \<le> CSP_BUFFER_SIZE"
  shows "unat (plength p + 4) = unat (plength p) + 4"
  using assms by (subst unat_add_lem [THEN iffD1]) (auto simp: csp_config_defs)

lemma hmac_append_parts:
  assumes "packet_wf p" "unat (plength p) + 4 \<le> CSP_BUFFER_SIZE" "key \<noteq> []"
  defines "p' \<equiv> snd (csp_hmac_append key False p)"
  shows "packet_wf p'" "pdata p' = pdata p @ take 4 (hmac_std key (pdata p))" "pid p' = pid p"
proof -
  let ?m = "mwrite (data_at (unat (plength p))) (take 4 (hmac_std key (pdata p))) (pmem p)"
  have p': "p' = p\<lparr>pmem := ?m, plength := plength p + 4\<rparr>"
    using hmac_append_fits [OF assms(1-3)] by (simp add: p'_def)
  have fits: "data_at (unat (plength p)) + 4 \<le> length (pmem p)"
    using assms(1,2) by (simp add: packet_wf_def data_at_def csp_config_defs)
  then have len: "length ?m = length (pmem p)" by simp
  show "packet_wf p'"
    using assms(1,2) fits by (simp add: p' packet_wf_def unat_plength_add_4)
  have "mread (data_at 0) (unat (plength p) + 4) ?m =
      mread (data_at 0) (unat (plength p)) ?m @ mread (data_at 0 + unat (plength p)) 4 ?m"
    by (rule mread_append_split) (use fits in \<open>simp add: data_at_def\<close>)
  also have "mread (data_at 0) (unat (plength p)) ?m = pdata p"
    unfolding pdata_def
    by (rule mread_mwrite_disjoint) (use fits in \<open>auto simp: data_at_def\<close>)
  also have "mread (data_at 0 + unat (plength p)) 4 ?m = take 4 (hmac_std key (pdata p))"
    by (subst mread_mwrite_same [symmetric, of "data_at (unat (plength p))" _ "pmem p" 4])
      (use fits in \<open>auto simp: data_at_def\<close>)
  finally show "pdata p' = pdata p @ take 4 (hmac_std key (pdata p))"
    by (simp add: p' pdata_def unat_plength_add_4 [OF assms(2)])
  show "pid p' = pid p" by (simp add: p')
qed

lemma hmac_verify_unfold:
  assumes "packet_wf p" "key \<noteq> []"
  shows "csp_hmac_verify key False p =
    (if 4 \<le> length (pdata p) \<and>
        drop (length (pdata p) - 4) (pdata p) = take 4 (hmac_std key (take (length (pdata p) - 4) (pdata p)))
     then (CSP_ERR_NONE, p\<lparr>plength := plength p - 4\<rparr>) else (CSP_ERR_HMAC, p))"
proof -
  have len: "length (pdata p) = unat (plength p)"
    using assms(1) by (simp add: pdata_def packet_wf_def data_at_def)
  have "mread (data_at 0) (unat (plength p) - 4) (pmem p) = take (unat (plength p) - 4) (pdata p)"
    by (simp add: pdata_def mread_def)
  moreover have "mread (data_at (unat (plength p) - 4)) 4 (pmem p) = drop (unat (plength p) - 4) (pdata p)"
    if "4 \<le> unat (plength p)"
    using that assms(1)
    by (simp add: pdata_def mread_def data_at_def drop_take add.commute)
  ultimately show ?thesis
    using assms(2) len by (auto simp: csp_hmac_verify_def CSP_HMAC_LENGTH_def hmac_memory_std Let_def)
qed

section \<open>Properties\<close>

text \<open>C11: \<open>csp_hmac_memory\<close> computes HMAC-SHA1 with the standard key handling (longer keys are
  hashed, shorter ones padded with zeros); it fails only for an empty key. The key derived by
  \<open>csp_hmac_set_key\<close> always has 16 bytes, so the stack never uses an empty one.\<close>

theorem csp_hmac_memory_is_hmac_sha1:
  "csp_hmac_memory key m = (if key = [] then None else Some (hmac_std key m)) \<and>
   csp_hmac_set_key secret = take 16 (sha1_std secret) \<and> length (csp_hmac_set_key secret) = 16"
proof -
  have "csp_hmac_memory [] m = None" by (simp add: csp_hmac_memory_def csp_hmac_init_def)
  then show ?thesis by (simp add: hmac_memory_std csp_hmac_set_key_def memory_std HMAC_KEY_LENGTH_def)
qed

text \<open>A packet with an appended authentication code verifies under the same key and comes
  back with its id and payload; appending fails exactly if the code does not fit behind the
  payload. Verification accepts exactly the packets whose last four bytes are the truncated
  code of the bytes before them, and then removes these bytes.\<close>

theorem csp_hmac_append_verify:
  assumes "packet_wf p" "key \<noteq> []"
  shows "(if unat (plength p) + 4 \<le> CSP_BUFFER_SIZE
      then fst (csp_hmac_append key False p) = CSP_ERR_NONE \<and>
        fst (csp_hmac_verify key False (snd (csp_hmac_append key False p))) = CSP_ERR_NONE \<and>
        pdata (snd (csp_hmac_verify key False (snd (csp_hmac_append key False p)))) = pdata p \<and>
        pid (snd (csp_hmac_verify key False (snd (csp_hmac_append key False p)))) = pid p
      else csp_hmac_append key False p = (CSP_ERR_NOMEM, p)) \<and>
    (case csp_hmac_verify key False p of (err, p') \<Rightarrow>
      if \<exists>body. pdata p = body @ take 4 (hmac_std key body)
      then err = CSP_ERR_NONE \<and> pdata p = pdata p' @ take 4 (hmac_std key (pdata p'))
      else err = CSP_ERR_HMAC \<and> p' = p)"
proof -
  have strip: "pdata (q\<lparr>plength := plength q - 4\<rparr>) = take (length (pdata q) - 4) (pdata q)"
    if "packet_wf q" "4 \<le> length (pdata q)" for q
  proof -
    have "unat (plength q - 4) = unat (plength q) - 4"
      using that by (subst unat_sub) (auto simp: word_le_nat_alt)
    moreover have "length (pdata q) = unat (plength q)" using that(1) by simp
    ultimately show ?thesis by (simp only:) (simp add: pdata_def mread_def)
  qed
  have app: "fst (csp_hmac_append key False p) = CSP_ERR_NONE \<and>
      fst (csp_hmac_verify key False (snd (csp_hmac_append key False p))) = CSP_ERR_NONE \<and>
      pdata (snd (csp_hmac_verify key False (snd (csp_hmac_append key False p)))) = pdata p \<and>
      pid (snd (csp_hmac_verify key False (snd (csp_hmac_append key False p)))) = pid p"
    if "unat (plength p) + 4 \<le> CSP_BUFFER_SIZE"
  proof -
    note parts = hmac_append_parts [OF assms(1) that assms(2)]
    show ?thesis
      using hmac_verify_unfold [OF parts(1) assms(2)] strip [OF parts(1)] parts
        hmac_append_fits [OF assms(1) that assms(2)] by simp
  qed
  have "(\<exists>body. pdata p = body @ take 4 (hmac_std key body)) \<longleftrightarrow>
      4 \<le> length (pdata p) \<and>
      drop (length (pdata p) - 4) (pdata p) = take 4 (hmac_std key (take (length (pdata p) - 4) (pdata p)))"
    (is "?ex \<longleftrightarrow> ?last")
  proof
    assume ?last
    then show ?ex by (metis append_take_drop_id)
  qed auto
  then have ver: "case csp_hmac_verify key False p of (err, p') \<Rightarrow>
      if \<exists>body. pdata p = body @ take 4 (hmac_std key body)
      then err = CSP_ERR_NONE \<and> pdata p = pdata p' @ take 4 (hmac_std key (pdata p'))
      else err = CSP_ERR_HMAC \<and> p' = p"
    using hmac_verify_unfold [OF assms] strip [OF assms(1)]
    by (cases ?last) (simp, metis append_take_drop_id, simp)
  show ?thesis
    using app ver by (auto simp: csp_hmac_append_def CSP_HMAC_LENGTH_def)
qed

end
