(* ===== verification/Csp_State.thy ===== *)
theory Csp_State
  imports Csp_Buffer Csp_Rtable Csp_Dedup Csp_Hmac "HOL-Library.Multiset"
begin

text \<open>
  The state of one node of the network: the static variables of the modules of
  \<open>lib/csp/src\<close> as the fields of one record that extends the buffer pool, with the
  structures of \<open>csp_conn.h\<close>, \<open>csp_types.h\<close> and \<open>csp_port.c\<close>.

  Pointers are indices: a packet pointer is the handle of its buffer, an interface, a
  connection and a socket pointer the position in its list. Calls run to completion one after
  the other; what other tasks do while a call blocks is an argument of the blocking calls.
  The clock does not move during a call. \<open>fault\<close> becomes true when the code
  dereferences \<open>NULL\<close> or leaves an array; the rest of the state then means nothing. \<open>wire\<close>
  records what the drivers sent.

  The second part is the ownership accounting: every allocated buffer is in exactly one queue
  or held by exactly one caller. The operations of all later components are checked
  against it.
\<close>

section \<open>Structures\<close>

datatype rdp_state = RDP_CLOSED | RDP_SYN_SENT | RDP_SYN_RCVD | RDP_OPEN | RDP_CLOSE_WAIT

datatype conn_state = CONN_CLOSED | CONN_OPEN

datatype conn_type = CONN_CLIENT | CONN_SERVER

record csp_rdp =
  rdp_st :: rdp_state
  closed_by :: u8
  snd_nxt :: u16
  snd_una :: u16
  snd_iss :: u16
  rcv_cur :: u16
  rcv_irs :: u16
  rcv_lsa :: u16
  window_size :: u32
  conn_timeout :: u32
  packet_timeout :: u32
  delayed_acks :: u32
  ack_timeout :: u32
  ack_delay_count :: u32
  ack_timestamp :: u32
  tx_wait :: bool

record csp_conn =
  ctype :: conn_type
  cstate :: conn_state
  cidin :: csp_id
  cidout :: csp_id
  sport_outgoing :: u8
  rx_queue :: "nat option pthread_queue"
  dest_socket :: "nat option"
  ctimestamp :: u32
  copts :: u32
  rdp :: csp_rdp

text \<open>The receive queue of a socket holds packets or connections; it does not exist before
  \<open>csp_listen\<close>.\<close>

datatype sock_item = Sock_packet nat | Sock_conn nat

record csp_socket =
  sock_queue :: "sock_item pthread_queue option"
  sock_opts :: u32

datatype csp_port = PORT_CLOSED | PORT_OPEN nat | PORT_OPEN_CB nat

text \<open>The settings for new outgoing RDP connections.\<close>

record rdp_opts =
  csp_rdp_window_size :: u32
  csp_rdp_conn_timeout :: u32
  csp_rdp_packet_timeout :: u32
  csp_rdp_delayed_acks :: u32
  csp_rdp_ack_timeout :: u32
  csp_rdp_ack_delay_count :: u32

record tx_event =
  tx_iface :: nat
  tx_via :: u16
  tx_packet :: csp_packet
  tx_from_me :: bool

record csp_state = csp_pool +
  conf_version :: u8
  conf_dedup :: u8
  conf_conn_dfl_so :: u32
  stack_key :: "byte list"
  rand_r :: "u32 \<Rightarrow> u32"
  now :: u32
  fault :: bool
  wire :: "tx_event list"
  iflist :: csp_iflist
  rtab :: csp_rtable
  dedup :: csp_dedup
  qfifo :: "(nat option \<times> nat option) pthread_queue"
  conns :: "csp_conn list"
  conn_last_given :: nat
  ports :: "csp_port list"
  sockets :: "csp_socket list"
  rdp_tx :: "nat pthread_queue"
  rdp_rx :: "nat pthread_queue"
  rdp_incr :: u8
  rdp_dfl :: rdp_opts
  promisc_queue :: "nat pthread_queue option"
  promisc_enabled :: bool

text \<open>Assignments through pointers.\<close>

definition iface :: "csp_state \<Rightarrow> nat \<Rightarrow> csp_iface" where
  "iface s i = ifs (iflist s) ! i"

definition upd_iface :: "nat \<Rightarrow> (csp_iface \<Rightarrow> csp_iface) \<Rightarrow> csp_state \<Rightarrow> csp_state" where
  "upd_iface i f s = s\<lparr>iflist := (iflist s)\<lparr>ifs := (ifs (iflist s))[i := f (iface s i)]\<rparr>\<rparr>"

definition conn :: "csp_state \<Rightarrow> nat \<Rightarrow> csp_conn" where
  "conn s c = conns s ! c"

definition upd_conn :: "nat \<Rightarrow> (csp_conn \<Rightarrow> csp_conn) \<Rightarrow> csp_state \<Rightarrow> csp_state" where
  "upd_conn c f s = s\<lparr>conns := (conns s)[c := f (conn s c)]\<rparr>"

definition upd_rdp :: "nat \<Rightarrow> (csp_rdp \<Rightarrow> csp_rdp) \<Rightarrow> csp_state \<Rightarrow> csp_state" where
  "upd_rdp c f = upd_conn c (\<lambda>k. k\<lparr>rdp := f (rdp k)\<rparr>)"

definition upd_dbg :: "(csp_dbg \<Rightarrow> csp_dbg) \<Rightarrow> csp_state \<Rightarrow> csp_state" where
  "upd_dbg f s = s\<lparr>dbg := f (dbg s)\<rparr>"

definition conn_ovf_inc :: "csp_state \<Rightarrow> csp_state" where
  "conn_ovf_inc = upd_dbg (\<lambda>d. d\<lparr>csp_dbg_conn_ovf := csp_dbg_conn_ovf d + 1\<rparr>)"

definition conn_out_inc :: "csp_state \<Rightarrow> csp_state" where
  "conn_out_inc = upd_dbg (\<lambda>d. d\<lparr>csp_dbg_conn_out := csp_dbg_conn_out d + 1\<rparr>)"

text \<open>\<open>csp_bin_sem_post\<close> on the semaphore of a connection.\<close>

definition sem_post :: "nat \<Rightarrow> csp_state \<Rightarrow> csp_state" where
  "sem_post c = upd_rdp c (\<lambda>r. r\<lparr>tx_wait := True\<rparr>)"

section \<open>Ownership of buffers\<close>

fun sock_packets :: "sock_item list \<Rightarrow> nat list" where
  "sock_packets [] = []"
| "sock_packets (Sock_packet p # xs) = p # sock_packets xs"
| "sock_packets (Sock_conn c # xs) = sock_packets xs"

definition conn_owned :: "csp_conn \<Rightarrow> nat multiset" where
  "conn_owned c = mset (List.map_filter (\<lambda>p. p) (queue_list (rx_queue c)))"

definition sock_owned :: "csp_socket \<Rightarrow> nat multiset" where
  "sock_owned k = (case sock_queue k of None \<Rightarrow> {#} | Some q \<Rightarrow> mset (sock_packets (queue_list q)))"

text \<open>The handles in the queues of the stack.\<close>

definition owned :: "csp_state \<Rightarrow> nat multiset" where
  "owned s =
     mset (List.map_filter snd (queue_list (qfifo s))) +
     (\<Sum>c \<leftarrow> conns s. conn_owned c) + (\<Sum>k \<leftarrow> sockets s. sock_owned k) +
     mset (queue_list (rdp_tx s)) + mset (queue_list (rdp_rx s)) +
     (case promisc_queue s of None \<Rightarrow> {#} | Some q \<Rightarrow> mset (queue_list q))"

definition stack_wf :: "csp_state \<Rightarrow> bool" where
  "stack_wf s \<longleftrightarrow> queue_inv (qfifo s) \<and> (\<forall>c \<in> set (conns s). queue_inv (rx_queue c)) \<and>
     (\<forall>k \<in> set (sockets s). \<forall>q. sock_queue k = Some q \<longrightarrow> queue_inv q) \<and>
     queue_inv (rdp_tx s) \<and> queue_inv (rdp_rx s) \<and> (\<forall>q. promisc_queue s = Some q \<longrightarrow> queue_inv q) \<and>
     length (stack_key s) = HMAC_KEY_LENGTH"

text \<open>Exact accounting: with the buffers \<open>M\<close> held by the callers, every allocated buffer is owned
  exactly once, with reference count 1.\<close>

definition acct :: "nat multiset \<Rightarrow> csp_state \<Rightarrow> bool" where
  "acct M s \<longleftrightarrow> pool_inv s \<and> stack_wf s \<and> (\<forall>h \<in> allocated s. refcount (bufs s ! h) = 1) \<and>
     owned s + M = mset_set (allocated s)"

text \<open>A change of the state outside the pool and the queues.\<close>

definition same_store :: "csp_state \<Rightarrow> csp_state \<Rightarrow> bool" where
  "same_store s t \<longleftrightarrow> bufs t = bufs s \<and> csp_buffers t = csp_buffers s \<and> qfifo t = qfifo s \<and>
     map rx_queue (conns t) = map rx_queue (conns s) \<and> map sock_queue (sockets t) = map sock_queue (sockets s) \<and>
     rdp_tx t = rdp_tx s \<and> rdp_rx t = rdp_rx s \<and> promisc_queue t = promisc_queue s \<and>
     stack_key t = stack_key s"

lemma sock_packets_append [simp]: "sock_packets (xs @ ys) = sock_packets xs @ sock_packets ys"
  by (induction xs rule: sock_packets.induct) simp_all

lemma conn_owned_cong: "map rx_queue cs = map rx_queue ds \<Longrightarrow> map conn_owned cs = map conn_owned ds"
  by (auto simp: list_eq_iff_nth_eq conn_owned_def)

lemma sock_owned_cong: "map sock_queue cs = map sock_queue ds \<Longrightarrow> map sock_owned cs = map sock_owned ds"
  by (auto simp: list_eq_iff_nth_eq sock_owned_def)

lemma stack_wf_map:
  "stack_wf s \<longleftrightarrow> queue_inv (qfifo s) \<and> (\<forall>q \<in> set (map rx_queue (conns s)). queue_inv q) \<and>
     (\<forall>k \<in> set (map sock_queue (sockets s)). \<forall>q. k = Some q \<longrightarrow> queue_inv q) \<and>
     queue_inv (rdp_tx s) \<and> queue_inv (rdp_rx s) \<and> (\<forall>q. promisc_queue s = Some q \<longrightarrow> queue_inv q) \<and>
     length (stack_key s) = HMAC_KEY_LENGTH"
  by (auto simp: stack_wf_def)

lemma acct_same_store:
  assumes "same_store s t"
  shows "acct M t = acct M s"
proof -
  have "owned t = owned s"
    using assms conn_owned_cong [of "conns t" "conns s"] sock_owned_cong [of "sockets t" "sockets s"]
    by (simp add: owned_def same_store_def)
  moreover have "stack_wf t = stack_wf s"
    unfolding stack_wf_map using assms by (simp add: same_store_def)
  ultimately show ?thesis
    using assms by (simp add: acct_def same_store_def pool_inv_def allocated_def pkt_def)
qed

section \<open>Accounting lemmas\<close>

named_theorems acct_simps \<open>assignments that do not touch the pool or a queue\<close>

lemma acct_plain_fields [simp, acct_simps]:
  "acct M (s\<lparr>dbg := d\<rparr>) = acct M s" "acct M (s\<lparr>wire := w\<rparr>) = acct M s"
  "acct M (s\<lparr>fault := b\<rparr>) = acct M s" "acct M (s\<lparr>iflist := l\<rparr>) = acct M s"
  "acct M (s\<lparr>rtab := t\<rparr>) = acct M s" "acct M (s\<lparr>dedup := dd\<rparr>) = acct M s"
  "acct M (s\<lparr>conn_last_given := n\<rparr>) = acct M s" "acct M (s\<lparr>ports := p\<rparr>) = acct M s"
  "acct M (s\<lparr>rdp_incr := u\<rparr>) = acct M s" "acct M (s\<lparr>rdp_dfl := o'\<rparr>) = acct M s"
  "acct M (s\<lparr>promisc_enabled := e\<rparr>) = acct M s" "acct M (s\<lparr>now := w'\<rparr>) = acct M s"
  by (rule acct_same_store; simp add: same_store_def)+

lemma acct_upd [simp, acct_simps]:
  "acct M (upd_iface j f s) = acct M s" "acct M (set_errno e s) = acct M s" "acct M (upd_dbg g s) = acct M s"
  "acct M (conn_ovf_inc s) = acct M s" "acct M (conn_out_inc s) = acct M s"
  by (rule acct_same_store; simp add: same_store_def upd_iface_def set_errno_def upd_dbg_def
      conn_ovf_inc_def conn_out_inc_def)+

lemma acct_upd_conn [acct_simps]:
  assumes "\<And>k. rx_queue (f k) = rx_queue k"
  shows "acct M (upd_conn c f s) = acct M s"
proof -
  have "map rx_queue ((conns s)[c := f (conn s c)]) = map rx_queue (conns s)"
    unfolding map_update assms conn_def
    by (cases "c < length (conns s)") (simp_all add: list_update_same_conv list_update_beyond)
  then show ?thesis by (intro acct_same_store) (simp add: same_store_def upd_conn_def)
qed

lemma acct_upd_rdp [simp, acct_simps]: "acct M (upd_rdp c f s) = acct M s"
  by (simp add: upd_rdp_def acct_upd_conn)

lemma acct_sem_post [simp, acct_simps]: "acct M (sem_post c s) = acct M s"
  by (simp add: sem_post_def)

lemma more_fields:
  assumes "csp_pool.more t = csp_pool.more (s :: csp_state)"
  shows "qfifo t = qfifo s" "conns t = conns s" "sockets t = sockets s" "rdp_tx t = rdp_tx s"
    "rdp_rx t = rdp_rx s" "promisc_queue t = promisc_queue s" "iflist t = iflist s" "wire t = wire s"
    "fault t = fault s" "conf_version t = conf_version s" "rtab t = rtab s" "stack_key t = stack_key s"
    "now t = now s" "promisc_enabled t = promisc_enabled s" "ports t = ports s" "dedup t = dedup s"
    "conn t c = conn s c" "iface t i = iface s i"
  using assms by (cases s, cases t, simp add: conn_def iface_def)+

lemma owned_more:
  assumes "csp_pool.more t = csp_pool.more (s :: csp_state)"
  shows "owned t = owned s"
  unfolding owned_def more_fields [OF assms] ..

lemma stack_wf_more:
  assumes "csp_pool.more t = csp_pool.more (s :: csp_state)"
  shows "stack_wf t = stack_wf s"
  unfolding stack_wf_def more_fields [OF assms] ..

lemma held_allocated:
  assumes "acct M s" "h \<in># M"
  shows "h \<in> allocated s" "h < length (bufs s)" "refcount (bufs s ! h) = 1" "packet_wf (pkt s h)"
proof -
  have "h \<in># mset_set (allocated s)" using assms unfolding acct_def by (metis union_iff)
  then show "h \<in> allocated s" by simp
  then show "h < length (bufs s)" "refcount (bufs s ! h) = 1" "packet_wf (pkt s h)"
    using assms(1) by (auto simp: acct_def allocated_def pool_inv_def)
qed

lemma acct_allocated: "acct M s \<Longrightarrow> h \<in> allocated s \<longleftrightarrow> h \<in># owned s + M"
  unfolding acct_def by (metis elem_mset_set finite_allocated)

lemma owned_allocated: "acct M s \<Longrightarrow> h \<in># owned s \<Longrightarrow> h \<in> allocated s"
  unfolding acct_def by (metis elem_mset_set finite_allocated union_iff)

lemma acct_set_pkt:
  assumes "acct M s" "packet_wf p"
  shows "acct M (set_pkt h p s)"
proof -
  have more: "csp_pool.more (set_pkt h p s) = csp_pool.more s" by (cases s) (simp add: set_pkt_def)
  show ?thesis
    using assms pool_inv_set_pkt [of s p h] stack_wf_more [OF more] owned_more [OF more]
    by (auto simp: acct_def set_pkt_def nth_update_if allocated_def)
qed

text \<open>Taking a fresh buffer.\<close>

lemma acct_fresh:
  assumes "acct M s" "pool_inv t" "free_list s = b # free_list t" "length (bufs t) = length (bufs s)"
    and "\<And>h. h \<noteq> b \<Longrightarrow> bufs t ! h = bufs s ! h" "refcount (bufs t ! b) = 1"
    and "csp_pool.more t = csp_pool.more s"
  shows "acct (add_mset b M) t"
proof -
  have b: "b \<notin> allocated s" "b < length (bufs s)" "b \<notin> set (free_list t)"
    using assms(1,3) by (auto simp: acct_def allocated_def pool_inv_def)
  have alloc: "allocated t = insert b (allocated s)"
    using assms(3,4) b by (auto simp: allocated_def)
  have ref: "refcount (bufs t ! h) = 1" if "h \<in> allocated t" for h
  proof (cases "h = b")
    case False
    with that alloc have "h \<in> allocated s" by simp
    with False assms(1,5) show ?thesis by (auto simp: acct_def)
  qed (use assms(6) in simp)
  show ?thesis
    using assms(1,2) ref stack_wf_more [OF assms(7)] owned_more [OF assms(7)] b(1)
    by (auto simp: acct_def alloc)
qed

lemma acct_get_None:
  "acct M s \<Longrightarrow> csp_buffer_get s = (None, t) \<Longrightarrow> acct M t \<and> csp_pool.more t = csp_pool.more s"
proof -
  assume acct: "acct M s" and get: "csp_buffer_get s = (None, t)"
  then have inv: "pool_inv s" by (simp add: acct_def)
  show ?thesis
  proof (cases "free_list s")
    case Nil
    then have t: "t = s\<lparr>dbg := (dbg s)\<lparr>csp_dbg_buffer_out := csp_dbg_buffer_out (dbg s) + 1\<rparr>\<rparr>"
      using csp_buffer_get_None [OF inv] get by simp
    then have "csp_pool.more t = csp_pool.more s" by (cases s) simp
    then show ?thesis using acct t by simp
  next
    case (Cons b bs)
    then show ?thesis using csp_buffer_get_Some [OF inv Cons] get by (metis option.distinct(1) fst_conv)
  qed
qed

lemma acct_get:
  assumes "acct M s" "csp_buffer_get s = (Some b, t)"
  shows "acct (add_mset b M) t" "csp_pool.more t = csp_pool.more s"
    "\<And>h. h \<noteq> b \<Longrightarrow> bufs t ! h = bufs s ! h" "b \<notin> allocated s" "pid (pkt t b) = csp_id_clear"
proof -
  have inv: "pool_inv s" using assms by (simp add: acct_def)
  have "free_list s \<noteq> []" using csp_buffer_get_None [OF inv] assms(2) by auto
  then obtain b' bs where Cons: "free_list s = b' # bs" by (meson neq_Nil_conv)
  obtain t' where t': "csp_buffer_get s = (Some b', t')" "pool_inv t'" "free_list t' = bs"
    "length (bufs t') = length (bufs s)" "\<And>h. h \<noteq> b' \<Longrightarrow> bufs t' ! h = bufs s ! h"
    "pkt t' b' = (pkt s b')\<lparr>pid := csp_id_clear\<rparr>" "refcount (bufs t' ! b') = 1"
    "csp_pool.more t' = csp_pool.more s"
    by (rule csp_buffer_get_Some [OF inv Cons]) blast
  have eq: "b' = b" "t' = t" using t'(1) assms(2) by auto
  show "acct (add_mset b M) t"
    using acct_fresh [OF assms(1), of t b] t' Cons eq by simp
  show "csp_pool.more t = csp_pool.more s" "\<And>h. h \<noteq> b \<Longrightarrow> bufs t ! h = bufs s ! h"
    "pid (pkt t b) = csp_id_clear"
    using t' eq by simp_all
  show "b \<notin> allocated s" using Cons eq by (simp add: allocated_def)
qed

lemma acct_clone:
  assumes "acct M s" "h \<in> allocated s" "csp_buffer_clone (Some h) s = (r, t)"
  shows "acct (case r of None \<Rightarrow> M | Some b \<Rightarrow> add_mset b M) t" "csp_pool.more t = csp_pool.more s"
    "h' \<in> allocated s \<Longrightarrow> pkt t h' = pkt s h'"
    "r = Some b \<Longrightarrow> b \<notin> allocated s \<and> pdata (pkt t b) = pdata (pkt s h) \<and> pid (pkt t b) = pid (pkt s h)"
proof -
  obtain r' u where get: "csp_buffer_get s = (r', u)" by (rule prod.exhaust)
  have "acct (case r of None \<Rightarrow> M | Some b \<Rightarrow> add_mset b M) t \<and> csp_pool.more t = csp_pool.more s \<and>
    (h' \<in> allocated s \<longrightarrow> pkt t h' = pkt s h') \<and>
    (r = Some b \<longrightarrow> b \<notin> allocated s \<and> pdata (pkt t b) = pdata (pkt s h) \<and> pid (pkt t b) = pid (pkt s h))"
  proof (cases r')
    case None
    then have rt: "r = None" "t = u" using assms(3) get by (auto simp: csp_buffer_clone_def)
    have inv: "pool_inv s" using assms by (simp add: acct_def)
    have "free_list s = []"
      using csp_buffer_get_Some [OF inv] get None by (metis neq_Nil_conv option.distinct(1) prod.inject)
    then have "bufs u = bufs s" using csp_buffer_get_None [OF inv] get None by auto
    then show ?thesis using acct_get_None [OF assms(1), of u] get None rt by (simp add: pkt_def)
  next
    case (Some c)
    note g = acct_get [OF assms(1) get [unfolded Some]]
    have rt: "r = Some c" "t = set_pkt c (clone_packet (pkt u h) (pkt u c)) u"
      using assms(3) get Some by (auto simp: csp_buffer_clone_def)
    have "h \<noteq> c" using g(4) assms(2) by auto
    then have ph: "pkt u h = pkt s h" using g(3) by (simp add: pkt_def)
    have c: "c < length (bufs u)" "packet_wf (pkt u c)" using held_allocated [OF g(1), of c] by simp_all
    have "packet_wf (pkt s h)" using assms(1,2) by (auto simp: acct_def pool_inv_def allocated_def)
    note clone = packet_wf_clone [OF this c(2)]
    have "csp_pool.more t = csp_pool.more u" unfolding rt by (cases u) (simp add: set_pkt_def)
    moreover have "pkt t h' = pkt s h'" if "h' \<in> allocated s"
      using that g(3,4) unfolding rt by (metis pkt_def pkt_set_pkt_other)
    ultimately show ?thesis
      using acct_set_pkt [OF g(1) clone(1)] g(2,4) clone(2,3) c(1) by (auto simp: rt ph)
  qed
  then show "acct (case r of None \<Rightarrow> M | Some b \<Rightarrow> add_mset b M) t" "csp_pool.more t = csp_pool.more s"
    "h' \<in> allocated s \<Longrightarrow> pkt t h' = pkt s h'"
    "r = Some b \<Longrightarrow> b \<notin> allocated s \<and> pdata (pkt t b) = pdata (pkt s h) \<and> pid (pkt t b) = pid (pkt s h)"
    by blast+
qed

lemma acct_free:
  assumes "acct (add_mset h M) s"
  shows "acct M (csp_buffer_free (Some h) s)"
    "csp_pool.more (csp_buffer_free (Some h) s) = csp_pool.more s"
    "pkt (csp_buffer_free (Some h) s) h' = pkt s h'"
proof -
  have h: "h \<in> allocated s" "refcount (bufs s ! h) = 1" and inv: "pool_inv s"
    using held_allocated [OF assms, of h] assms by (simp_all add: acct_def)
  obtain t where t: "csp_buffer_free (Some h) s = t" "pool_inv t" "free_list t = free_list s @ [h]"
    "length (bufs t) = length (bufs s)" "\<And>k. pkt t k = pkt s k"
    "\<And>k. k \<noteq> h \<Longrightarrow> bufs t ! k = bufs s ! k" "csp_pool.more t = csp_pool.more s"
    by (rule csp_buffer_free_last [OF inv h]) blast
  have alloc: "allocated t = allocated s - {h}" using t(3,4) by (auto simp: allocated_def)
  have "owned s + M = mset_set (allocated s) - {#h#}"
    using assms by (metis acct_def add_mset_remove_trivial union_mset_add_mset_right)
  also have "\<dots> = mset_set (allocated s - {h})" using h(1) by (simp add: mset_set_Diff)
  finally show "acct M (csp_buffer_free (Some h) s)"
    using assms t(1,2,6) alloc stack_wf_more [OF t(7)] owned_more [OF t(7)] by (auto simp: acct_def)
  show "csp_pool.more (csp_buffer_free (Some h) s) = csp_pool.more s"
    "pkt (csp_buffer_free (Some h) s) h' = pkt s h'" using t(1,5,7) by simp_all
qed

section \<open>Moving packets between queues\<close>

lemma enq_cases:
  assumes "queue_inv q" "csp_queue_enqueue v q = (e, q')"
  obtains (ok) "e = CSP_QUEUE_OK" "queue_inv q'" "queue_list q' = queue_list q @ [v]"
  | (full) "e = CSP_QUEUE_ERROR" "q' = q"
  using ring.enq_ok [OF assms(1), of v] ring.enq_full [OF assms(1), of v] assms(2)
  by (cases "csp_queue_free q") auto

lemma deq_cases:
  assumes "queue_inv q" "csp_queue_dequeue q = (r, q')"
  obtains (item) v where "r = Some v" "queue_list q = v # queue_list q'" "queue_inv q'"
  | (empty) "r = None" "queue_list q = []" "q' = q"
proof (cases "queue_list q")
  case Nil
  then show ?thesis using ring.deq_none [OF assms(1)] assms(2) empty by auto
next
  case (Cons v vs)
  then show ?thesis using ring.deq_some [OF assms(1) Cons] assms(2) item by auto
qed

lemma acct_transfer:
  assumes "acct M s" "bufs t = bufs s" "csp_buffers t = csp_buffers s" "stack_wf t"
    and "owned t + N = owned s + M"
  shows "acct N t"
  using assms by (simp add: acct_def pool_inv_def allocated_def pkt_def)

lemma acct_stack_wf: "acct M s \<Longrightarrow> stack_wf s"
  by (simp add: acct_def)

lemma acct_queue_inv:
  assumes "acct M s"
  shows "queue_inv (qfifo s)" "queue_inv (rdp_tx s)" "queue_inv (rdp_rx s)"
    "promisc_queue s = Some q \<Longrightarrow> queue_inv q" "c < length (conns s) \<Longrightarrow> queue_inv (rx_queue (conn s c))"
    "k < length (sockets s) \<Longrightarrow> sock_queue (sockets s ! k) = Some r \<Longrightarrow> queue_inv r"
  using acct_stack_wf [OF assms] by (auto simp: stack_wf_def conn_def)

lemma acct_qfifo:
  assumes "acct M s" "queue_inv q"
    and "mset (List.map_filter snd (queue_list q)) + N = mset (List.map_filter snd (queue_list (qfifo s))) + M"
  shows "acct N (s\<lparr>qfifo := q\<rparr>)"
  by (rule acct_transfer [OF assms(1)])
    (use assms acct_stack_wf [OF assms(1)] in \<open>simp_all add: stack_wf_def owned_def ac_simps\<close>)

lemma acct_rdp_tx:
  assumes "acct M s" "queue_inv q" "mset (queue_list q) + N = mset (queue_list (rdp_tx s)) + M"
  shows "acct N (s\<lparr>rdp_tx := q\<rparr>)"
  by (rule acct_transfer [OF assms(1)])
    (use assms acct_stack_wf [OF assms(1)] in \<open>simp_all add: stack_wf_def owned_def ac_simps\<close>)

lemma acct_rdp_rx:
  assumes "acct M s" "queue_inv q" "mset (queue_list q) + N = mset (queue_list (rdp_rx s)) + M"
  shows "acct N (s\<lparr>rdp_rx := q\<rparr>)"
  by (rule acct_transfer [OF assms(1)])
    (use assms acct_stack_wf [OF assms(1)] in \<open>simp_all add: stack_wf_def owned_def ac_simps\<close>)

lemma acct_promisc:
  assumes "acct M s" "promisc_queue s = Some p" "queue_inv q"
    and "mset (queue_list q) + N = mset (queue_list p) + M"
  shows "acct N (s\<lparr>promisc_queue := Some q\<rparr>)"
  by (rule acct_transfer [OF assms(1)])
    (use assms acct_stack_wf [OF assms(1)] in \<open>simp_all add: stack_wf_def owned_def ac_simps\<close>)

lemma sum_list_update:
  fixes g :: "'a \<Rightarrow> 'b multiset"
  shows "i < length xs \<Longrightarrow> (\<Sum>x \<leftarrow> xs[i := y]. g x) + g (xs ! i) = (\<Sum>x \<leftarrow> xs. g x) + g y"
proof (induction xs arbitrary: i)
  case (Cons x xs)
  then show ?case by (cases i) (simp_all add: ac_simps)
qed simp

lemma acct_conn_rx:
  assumes "acct M s" "c < length (conns s)" "queue_inv (rx_queue k)"
    and "conn_owned k + N = conn_owned (conn s c) + M"
  shows "acct N (s\<lparr>conns := (conns s)[c := k]\<rparr>)"
proof (rule acct_transfer [OF assms(1)])
  show "stack_wf (s\<lparr>conns := (conns s)[c := k]\<rparr>)"
    using acct_stack_wf [OF assms(1)] assms(3) set_update_subset_insert [of "conns s" c k]
    by (auto simp: stack_wf_def)
  have "(\<Sum>x \<leftarrow> (conns s)[c := k]. conn_owned x) + N + conn_owned (conn s c) =
      (\<Sum>x \<leftarrow> conns s. conn_owned x) + conn_owned k + N"
    using sum_list_update [OF assms(2), of conn_owned k] by (simp add: conn_def ac_simps)
  also have "\<dots> = (\<Sum>x \<leftarrow> conns s. conn_owned x) + M + conn_owned (conn s c)"
    using assms(4) by (simp add: ac_simps)
  finally have "(\<Sum>x \<leftarrow> (conns s)[c := k]. conn_owned x) + N = (\<Sum>x \<leftarrow> conns s. conn_owned x) + M"
    by simp
  then show "owned (s\<lparr>conns := (conns s)[c := k]\<rparr>) + N = owned s + M"
    by (simp add: owned_def ac_simps)
qed simp_all

lemma acct_sock_rx:
  assumes "acct M s" "i < length (sockets s)" "\<And>q. sock_queue k = Some q \<Longrightarrow> queue_inv q"
    and "sock_owned k + N = sock_owned (sockets s ! i) + M"
  shows "acct N (s\<lparr>sockets := (sockets s)[i := k]\<rparr>)"
proof (rule acct_transfer [OF assms(1)])
  show "stack_wf (s\<lparr>sockets := (sockets s)[i := k]\<rparr>)"
    using acct_stack_wf [OF assms(1)] assms(3) set_update_subset_insert [of "sockets s" i k]
    by (auto simp: stack_wf_def)
  have "(\<Sum>x \<leftarrow> (sockets s)[i := k]. sock_owned x) + N + sock_owned (sockets s ! i) =
      (\<Sum>x \<leftarrow> sockets s. sock_owned x) + sock_owned k + N"
    using sum_list_update [OF assms(2), of sock_owned k] by (simp add: ac_simps)
  also have "\<dots> = (\<Sum>x \<leftarrow> sockets s. sock_owned x) + M + sock_owned (sockets s ! i)"
    using assms(4) by (simp add: ac_simps)
  finally have "(\<Sum>x \<leftarrow> (sockets s)[i := k]. sock_owned x) + N = (\<Sum>x \<leftarrow> sockets s. sock_owned x) + M"
    by simp
  then show "owned (s\<lparr>sockets := (sockets s)[i := k]\<rparr>) + N = owned s + M"
    by (simp add: owned_def ac_simps)
qed simp_all

end
