(* ===== verification/Csp_Send.thy ===== *)
theory Csp_Send
  imports Csp_State
begin

text \<open>
  The transmit path: the promiscuous queue (\<open>src/csp_promisc.c\<close>), the router input
  queue (\<open>src/csp_qfifo.c\<close>), the loopback interface (\<open>src/interfaces/csp_if_lo.c\<close>) and
  the sending of a packet over the interfaces (\<open>csp_send_direct\<close> and \<open>csp_send_direct_iface\<close>
  of \<open>src/csp_io.c\<close>).

  An interface driver is its transmit function: it returns an error code and, on success, takes
  the packet, sends it and releases its buffer.
\<close>

section \<open>Promiscuous mode\<close>

definition csp_promisc_enable :: "csp_state \<Rightarrow> int \<times> csp_state" where
  "csp_promisc_enable s =
     (case promisc_queue s of
        Some _ \<Rightarrow> (CSP_ERR_NONE, s\<lparr>promisc_enabled := True\<rparr>)
      | None \<Rightarrow>
          (case pthread_queue_create True 0 CSP_CONN_RXQUEUE_LEN of
             None \<Rightarrow> (CSP_ERR_INVAL, s)
           | Some q \<Rightarrow> (CSP_ERR_NONE, s\<lparr>promisc_queue := Some q, promisc_enabled := True\<rparr>)))"

definition csp_promisc_disable :: "csp_state \<Rightarrow> csp_state" where
  "csp_promisc_disable s = s\<lparr>promisc_enabled := False\<rparr>"

definition csp_promisc_read :: "csp_state \<Rightarrow> nat option \<times> csp_state" where
  "csp_promisc_read s =
     (case promisc_queue s of None \<Rightarrow> (None, s)
      | Some q \<Rightarrow> (case csp_queue_dequeue q of (r, q) \<Rightarrow> (r, s\<lparr>promisc_queue := Some q\<rparr>)))"

definition csp_promisc_add :: "nat \<Rightarrow> csp_state \<Rightarrow> csp_state" where
  "csp_promisc_add packet s =
     (if \<not> promisc_enabled s then s
      else case promisc_queue s of None \<Rightarrow> s
      | Some _ \<Rightarrow>
          (case csp_buffer_clone (Some packet) s of
             (None, s) \<Rightarrow> s
           | (Some copy, s) \<Rightarrow>
               (case csp_queue_enqueue copy (the (promisc_queue s)) of
                  (e, q) \<Rightarrow>
                    let s = s\<lparr>promisc_queue := Some q\<rparr>
                    in if e \<noteq> CSP_QUEUE_OK then csp_buffer_free (Some copy) (conn_ovf_inc s) else s)))"

section \<open>Router input queue\<close>

definition csp_qfifo_init :: "csp_state \<Rightarrow> csp_state" where
  "csp_qfifo_init s = s\<lparr>qfifo := the (pthread_queue_create True (None, None) CSP_QFIFO_LEN)\<rparr>"

text \<open>\<open>csp_qfifo_read\<close>: an element, or \<open>None\<close> for \<open>CSP_ERR_TIMEDOUT\<close>.\<close>

definition csp_qfifo_read :: "csp_state \<Rightarrow> (nat option \<times> nat option) option \<times> csp_state" where
  "csp_qfifo_read s = (case csp_queue_dequeue (qfifo s) of (r, q) \<Rightarrow> (r, s\<lparr>qfifo := q\<rparr>))"

definition csp_qfifo_write :: "nat option \<Rightarrow> nat option \<Rightarrow> csp_state \<Rightarrow> csp_state" where
  "csp_qfifo_write packet ifc s =
     (case packet of
        None \<Rightarrow> set_errno CSP_DBG_ERR_INVALID_POINTER s
      | Some _ \<Rightarrow>
          (case ifc of
             None \<Rightarrow> csp_buffer_free packet (set_errno CSP_DBG_ERR_INVALID_POINTER s)
           | Some i \<Rightarrow>
               (case csp_queue_enqueue (ifc, packet) (qfifo s) of
                  (result, q) \<Rightarrow>
                    let s = s\<lparr>qfifo := q\<rparr>
                    in if result \<noteq> CSP_QUEUE_OK
                       then csp_buffer_free packet
                              (upd_iface i (\<lambda>f. f\<lparr>if_drop := if_drop f + 1\<rparr>) (conn_ovf_inc s))
                       else s)))"

definition csp_qfifo_wake_up :: "csp_state \<Rightarrow> csp_state" where
  "csp_qfifo_wake_up s = s\<lparr>qfifo := snd (csp_queue_enqueue (None, None) (qfifo s))\<rparr>"

section \<open>Sending on one interface\<close>

definition csp_lo_tx :: "nat \<Rightarrow> csp_state \<Rightarrow> int \<times> csp_state" where
  "csp_lo_tx packet s = (CSP_ERR_NONE, csp_qfifo_write (Some packet) (Some csp_if_lo) s)"

text \<open>\<open>(*iface->nexthop) (iface, via, packet, from_me)\<close>.\<close>

definition nexthop_call :: "nat \<Rightarrow> u16 \<Rightarrow> nat \<Rightarrow> bool \<Rightarrow> csp_state \<Rightarrow> int \<times> csp_state" where
  "nexthop_call i via packet from_me s =
     (case if_nexthop (iface s i) of
        Csp_lo_tx \<Rightarrow> csp_lo_tx packet s
      | Driver f \<Rightarrow>
          let err = f via (pkt s packet) from_me
          in if err = CSP_ERR_NONE
             then (err, csp_buffer_free (Some packet)
               (s\<lparr>wire := wire s @ [\<lparr>tx_iface = i, tx_via = via, tx_packet = pkt s packet, tx_from_me = from_me\<rparr>]\<rparr>))
             else (err, s))"

definition tx_err :: "nat \<Rightarrow> nat \<Rightarrow> csp_state \<Rightarrow> csp_state" where
  "tx_err packet i s =
     upd_iface i (\<lambda>f. f\<lparr>tx_error := tx_error f + 1\<rparr>) (csp_buffer_free (Some packet) s)"

text \<open>The protection added to packets of this node: HMAC, then CRC32.\<close>

definition add_trailers :: "byte list \<Rightarrow> u8 \<Rightarrow> csp_packet \<Rightarrow> csp_packet option" where
  "add_trailers key fl p =
     (case (if fl AND CSP_FHMAC \<noteq> 0 then csp_hmac_append key False p else (CSP_ERR_NONE, p)) of
        (e, p) \<Rightarrow>
          if e \<noteq> CSP_ERR_NONE then None
          else (case (if fl AND CSP_FCRC32 \<noteq> 0 then csp_crc32_append p else (CSP_ERR_NONE, p)) of
                  (e, p) \<Rightarrow> if e \<noteq> CSP_ERR_NONE then None else Some p))"

definition csp_send_direct_iface :: "csp_id \<Rightarrow> nat \<Rightarrow> nat \<Rightarrow> u16 \<Rightarrow> bool \<Rightarrow> csp_state \<Rightarrow> csp_state" where
  "csp_send_direct_iface idout packet i via from_me s =
     (let s = set_pkt packet ((pkt s packet)\<lparr>pid := csp_id_copy (pid (pkt s packet)) idout\<rparr>) s;
          s = (if from_me \<and> i \<noteq> csp_if_lo then csp_promisc_add packet s else s)
      in case (if from_me then add_trailers (stack_key s) (flags idout) (pkt s packet)
               else Some (pkt s packet)) of
           None \<Rightarrow> tx_err packet i s
         | Some p \<Rightarrow>
             let s = set_pkt packet p s; bytes = plength (pkt s packet)
             in case nexthop_call i via packet from_me s of
                  (err, s) \<Rightarrow>
                    if err \<noteq> CSP_ERR_NONE then tx_err packet i s
                    else upd_iface i (\<lambda>f. f\<lparr>if_tx := if_tx f + 1, txbytes := txbytes f + ucast bytes\<rparr>) s)"

section \<open>Sending over all interfaces\<close>

text \<open>\<open>if (copy != NULL) csp_send_direct_iface (...)\<close> on a fresh copy of the packet.\<close>

definition send_copy :: "csp_id \<Rightarrow> nat option \<Rightarrow> nat \<Rightarrow> u16 \<Rightarrow> bool \<Rightarrow> csp_state \<Rightarrow> csp_state" where
  "send_copy idout packet i via from_me s =
     (case csp_buffer_clone packet s of
        (None, s) \<Rightarrow> s
      | (Some copy, s) \<Rightarrow> csp_send_direct_iface idout copy i via from_me s)"

text \<open>Split horizon: not back to the interface the packet came from, nor to one in its subnet.\<close>

definition split_horizon :: "csp_state \<Rightarrow> nat \<Rightarrow> nat option \<Rightarrow> bool" where
  "split_horizon s i routed_from \<longleftrightarrow> Some i = routed_from \<or>
     csp_iflist_is_within_subnet (conf_version s) (if_addr (iface s i)) (map_option (iface s) routed_from)"

text \<open>The three loops. The first argument bounds the iterations; the local copy \<open>_idout\<close> of the
  first loop keeps what an earlier iteration wrote to it. In the other two the source
  address is written to the caller's id.\<close>

fun send_subnet_loop ::
    "nat \<Rightarrow> csp_id \<Rightarrow> csp_id \<Rightarrow> nat option \<Rightarrow> nat option \<Rightarrow> nat option \<Rightarrow> bool \<Rightarrow> csp_state \<Rightarrow> bool \<times> csp_state" where
  "send_subnet_loop 0 idout idout' packet routed_from ifc local_found s = (local_found, s)"
| "send_subnet_loop (Suc n) idout idout' packet routed_from ifc local_found s =
     (case csp_iflist_get_by_subnet (conf_version s) (iflist s) (dst idout) ifc of
        None \<Rightarrow> (local_found, s)
      | Some i \<Rightarrow>
          if split_horizon s i routed_from
          then send_subnet_loop n idout idout' packet routed_from (Some i) True s
          else
            let idout' = (if routed_from = None \<and> src idout = 0
                          then idout'\<lparr>src := if_addr (iface s i)\<rparr> else idout');
                idout' = (if csp_id_is_broadcast (conf_version s) (dst idout) (if_addr (iface s i)) (if_netmask (iface s i))
                          then idout'\<lparr>dst := csp_id_get_max_nodeid (conf_version s)\<rparr> else idout');
                s = send_copy idout' packet i CSP_NO_VIA_ADDRESS (routed_from = None) s
            in send_subnet_loop n idout idout' packet routed_from (Some i) True s)"

text \<open>A route without interface: \<open>route->iface == routed_from\<close> skips it for packets of this node,
  otherwise \<open>route->iface->addr\<close> dereferences \<open>NULL\<close>.\<close>

fun send_route_loop ::
    "nat \<Rightarrow> csp_id \<Rightarrow> nat option \<Rightarrow> nat option \<Rightarrow> nat option \<Rightarrow> csp_state \<Rightarrow> csp_id \<times> csp_state" where
  "send_route_loop 0 idout packet routed_from route s = (idout, s)"
| "send_route_loop (Suc n) idout packet routed_from route s =
     (case route of
        None \<Rightarrow> (idout, s)
      | Some r \<Rightarrow>
          let e = rtable (rtab s) ! r; next = csp_rtable_search_backward (rtab s) route
          in case rt_iface e of
               None \<Rightarrow>
                 if routed_from = None then send_route_loop n idout packet routed_from next s
                 else (idout, s\<lparr>fault := True\<rparr>)
             | Some i \<Rightarrow>
                 if split_horizon s i routed_from
                 then send_route_loop n idout packet routed_from next s
                 else
                   let idout = (if routed_from = None \<and> src idout = 0
                                then idout\<lparr>src := if_addr (iface s i)\<rparr> else idout);
                       s = send_copy idout packet i (rt_via e) (routed_from = None) s
                   in send_route_loop n idout packet routed_from next s)"

fun send_default_loop ::
    "nat \<Rightarrow> csp_id \<Rightarrow> nat option \<Rightarrow> nat option \<Rightarrow> nat option \<Rightarrow> csp_state \<Rightarrow> csp_id \<times> csp_state" where
  "send_default_loop 0 idout packet routed_from ifc s = (idout, s)"
| "send_default_loop (Suc n) idout packet routed_from ifc s =
     (case csp_iflist_get_by_isdfl (iflist s) ifc of
        None \<Rightarrow> (idout, s)
      | Some i \<Rightarrow>
          if split_horizon s i routed_from
          then send_default_loop n idout packet routed_from (Some i) s
          else
            let idout = (if routed_from = None \<and> src idout = 0
                         then idout\<lparr>src := if_addr (iface s i)\<rparr> else idout);
                s = send_copy idout packet i CSP_NO_VIA_ADDRESS (routed_from = None) s
            in send_default_loop n idout packet routed_from (Some i) s)"

text \<open>\<open>csp_send_direct\<close>; the result is the id as the call leaves it. A list of \<open>n\<close> interfaces
  needs at most \<open>n + 1\<close> iterations, the routing table at most one per entry.\<close>

definition csp_send_direct :: "csp_id \<Rightarrow> nat option \<Rightarrow> nat option \<Rightarrow> csp_state \<Rightarrow> csp_id \<times> csp_state" where
  "csp_send_direct idout packet routed_from s =
     (let n = Suc (length (interfaces (iflist s))) in
      case send_subnet_loop n idout idout packet routed_from None False s of
        (local_found, s) \<Rightarrow>
          if local_found then (idout, csp_buffer_free packet s)
          else case csp_rtable_find_route (conf_version s) (rtab s) (dst idout) of
            Some r \<Rightarrow>
              (case send_route_loop (Suc r) idout packet routed_from (Some r) s of
                 (idout, s) \<Rightarrow> (idout, csp_buffer_free packet s))
          | None \<Rightarrow>
              (case send_default_loop n idout packet routed_from None s of
                 (idout, s) \<Rightarrow> (idout, csp_buffer_free packet s)))"

section \<open>What sending leaves alone\<close>

definition if_static :: "csp_iface \<Rightarrow> u16 \<times> u16 \<times> string \<times> nexthop \<times> u8" where
  "if_static f = (if_addr f, if_netmask f, if_name f, if_nexthop f, is_default f)"

definition net_frame :: "csp_state \<Rightarrow> csp_state \<Rightarrow> bool" where
  "net_frame s t \<longleftrightarrow> conf_version t = conf_version s \<and> interfaces (iflist t) = interfaces (iflist s) \<and>
     map if_static (ifs (iflist t)) = map if_static (ifs (iflist s)) \<and>
     rtab t = rtab s \<and> conns t = conns s \<and> sockets t = sockets s \<and> ports t = ports s \<and>
     rdp_tx t = rdp_tx s \<and> rdp_rx t = rdp_rx s \<and> now t = now s \<and> dedup t = dedup s \<and>
     stack_key t = stack_key s \<and> rdp_dfl t = rdp_dfl s"

lemma net_frame_refl [simp]: "net_frame s s"
  by (simp add: net_frame_def)

lemma net_frame_trans: "net_frame s t \<Longrightarrow> net_frame t u \<Longrightarrow> net_frame s u"
  by (simp add: net_frame_def)

lemma net_frame_more: "csp_pool.more t = csp_pool.more s \<Longrightarrow> net_frame s t"
  by (cases s, cases t) (simp add: net_frame_def)

lemma net_frame_static:
  assumes "net_frame s t" "i < length (ifs (iflist s))"
  shows "if_addr (iface t i) = if_addr (iface s i)" "if_netmask (iface t i) = if_netmask (iface s i)"
    "is_default (iface t i) = is_default (iface s i)" "if_nexthop (iface t i) = if_nexthop (iface s i)"
    "length (ifs (iflist t)) = length (ifs (iflist s))"
proof -
  have eq: "map if_static (ifs (iflist t)) = map if_static (ifs (iflist s))"
    using assms(1) by (simp add: net_frame_def)
  then show len: "length (ifs (iflist t)) = length (ifs (iflist s))" by (rule map_eq_imp_length_eq)
  have "if_static (iface t i) = if_static (iface s i)"
    using arg_cong [OF eq, of "\<lambda>xs. xs ! i"] assms(2) len by (simp add: iface_def)
  then show "if_addr (iface t i) = if_addr (iface s i)" "if_netmask (iface t i) = if_netmask (iface s i)"
    "is_default (iface t i) = is_default (iface s i)" "if_nexthop (iface t i) = if_nexthop (iface s i)"
    by (simp_all add: if_static_def)
qed

lemma net_frame_upd_iface:
  assumes "\<And>f. if_static (g f) = if_static f"
  shows "net_frame s (upd_iface i g s)"
proof -
  have "map if_static ((ifs (iflist s))[i := g (iface s i)]) = map if_static (ifs (iflist s))"
    unfolding map_update assms iface_def
    by (cases "i < length (ifs (iflist s))") (simp_all add: list_update_same_conv list_update_beyond)
  then show ?thesis by (simp add: net_frame_def upd_iface_def)
qed

lemma net_frame_fields [simp]:
  "net_frame s (s\<lparr>wire := w\<rparr>)" "net_frame s (s\<lparr>qfifo := q\<rparr>)" "net_frame s (s\<lparr>promisc_queue := p\<rparr>)"
  "net_frame s (s\<lparr>fault := b\<rparr>)" "net_frame s (conn_ovf_inc s)" "net_frame s (set_errno e s)"
  by (simp_all add: net_frame_def conn_ovf_inc_def upd_dbg_def set_errno_def)

lemma net_frame_set_pkt [simp]: "net_frame s (set_pkt h p s)"
  by (simp add: net_frame_def set_pkt_def)

lemma net_frame_free [simp]: "net_frame s (csp_buffer_free p s)"
  by (auto simp: csp_buffer_free_def net_frame_def set_errno_def set_refcount_def Let_def split: option.split)

lemma net_frame_clone [simp]: "net_frame s (snd (csp_buffer_clone p s))"
  by (auto simp: csp_buffer_clone_def csp_buffer_get_def net_frame_def set_errno_def set_refcount_def
      set_pkt_def Let_def split: option.split prod.split)

section \<open>Accounting of the transmit path\<close>

lemma map_filter_append: "List.map_filter f (xs @ ys) = List.map_filter f xs @ List.map_filter f ys"
  by (simp add: List.map_filter_def)

lemma promisc_add_spec:
  assumes "acct M s" "h \<in># M"
  shows "acct M (csp_promisc_add h s)" "net_frame s (csp_promisc_add h s)"
    "h' \<in> allocated s \<Longrightarrow> pkt (csp_promisc_add h s) h' = pkt s h'" "wire (csp_promisc_add h s) = wire s"
    "fault (csp_promisc_add h s) = fault s"
proof -
  have h: "h \<in> allocated s" using held_allocated [OF assms] by simp
  have "acct M (csp_promisc_add h s) \<and> net_frame s (csp_promisc_add h s) \<and>
    (h' \<in> allocated s \<longrightarrow> pkt (csp_promisc_add h s) h' = pkt s h') \<and> wire (csp_promisc_add h s) = wire s \<and>
    fault (csp_promisc_add h s) = fault s"
  proof (cases "promisc_enabled s \<and> promisc_queue s \<noteq> None")
    case False
    then show ?thesis using assms(1) by (auto simp: csp_promisc_add_def split: option.split)
  next
    case True
    then obtain p where p: "promisc_enabled s" "promisc_queue s = Some p" by blast
    obtain r t where clone: "csp_buffer_clone (Some h) s = (r, t)" by (rule prod.exhaust)
    note c = acct_clone [OF assms(1) h clone]
    note tf = more_fields [OF c(2)]
    show ?thesis
    proof (cases r)
      case None
      then show ?thesis using c(1) c(3) [of h'] tf net_frame_more [OF c(2)] p clone
        by (simp add: csp_promisc_add_def)
    next
      case (Some copy)
      have copy: "copy \<noteq> h" using c(4) [OF Some] h by auto
      have acct: "acct (add_mset copy M) t" using c(1) Some by simp
      have pt: "promisc_queue t = Some p" using tf p by simp
      obtain e q where enq: "csp_queue_enqueue copy p = (e, q)" by (rule prod.exhaust)
      have qi: "queue_inv p" by (rule acct_queue_inv(4) [OF acct pt])
      from qi enq show ?thesis
      proof (cases rule: enq_cases)
        case ok
        have "acct M (t\<lparr>promisc_queue := Some q\<rparr>)"
          by (rule acct_promisc [OF acct pt ok(2)]) (simp add: ok(3))
        then show ?thesis
          using p clone Some pt enq ok(1) c(3) [of h'] tf
            net_frame_trans [OF net_frame_more [OF c(2)] net_frame_fields(3)]
          by (simp add: csp_promisc_add_def Let_def pkt_def)
      next
        case full
        let ?t = "t\<lparr>promisc_queue := Some q\<rparr>"
        have eq: "?t = t" using full(2) pt by simp
        have a: "acct (add_mset copy M) (conn_ovf_inc t)" using acct by simp
        let ?u = "csp_buffer_free (Some copy) (conn_ovf_inc t)"
        have u: "csp_promisc_add h s = ?u"
          using p clone Some pt enq full(1) eq by (simp add: csp_promisc_add_def Let_def)
        have "net_frame s ?u"
          using net_frame_trans [OF net_frame_more [OF c(2)]
              net_frame_trans [OF net_frame_fields(5) net_frame_free]] .
        moreover have "wire ?u = wire s" "fault ?u = fault s"
          using more_fields [OF acct_free(2) [OF a]] tf by (simp_all add: conn_ovf_inc_def upd_dbg_def)
        moreover have "h' \<in> allocated s \<longrightarrow> pkt ?u h' = pkt s h'"
          using acct_free(3) [OF a] c(3) [of h'] by (simp add: conn_ovf_inc_def upd_dbg_def pkt_def)
        ultimately show ?thesis using acct_free(1) [OF a] by (simp only: u)
      qed
    qed
  qed
  then show "acct M (csp_promisc_add h s)" "net_frame s (csp_promisc_add h s)"
    "h' \<in> allocated s \<Longrightarrow> pkt (csp_promisc_add h s) h' = pkt s h'" "wire (csp_promisc_add h s) = wire s"
    "fault (csp_promisc_add h s) = fault s" by blast+
qed

lemma qfifo_write_spec:
  assumes "acct (add_mset h M) s"
  shows "acct M (csp_qfifo_write (Some h) (Some i) s)" "net_frame s (csp_qfifo_write (Some h) (Some i) s)"
    "wire (csp_qfifo_write (Some h) (Some i) s) = wire s" "fault (csp_qfifo_write (Some h) (Some i) s) = fault s"
proof -
  obtain e q where enq: "csp_queue_enqueue (Some i, Some h) (qfifo s) = (e, q)" by (rule prod.exhaust)
  have qi: "queue_inv (qfifo s)" by (rule acct_queue_inv(1) [OF assms])
  from qi enq have "acct M (csp_qfifo_write (Some h) (Some i) s) \<and> net_frame s (csp_qfifo_write (Some h) (Some i) s) \<and>
    wire (csp_qfifo_write (Some h) (Some i) s) = wire s \<and> fault (csp_qfifo_write (Some h) (Some i) s) = fault s"
  proof (cases rule: enq_cases)
    case ok
    have "acct M (s\<lparr>qfifo := q\<rparr>)"
      by (rule acct_qfifo [OF assms ok(2)]) (simp add: ok(3) map_filter_append List.map_filter_def)
    then show ?thesis using enq ok(1) by (simp add: csp_qfifo_write_def Let_def)
  next
    case full
    let ?u = "upd_iface i (\<lambda>f. f\<lparr>if_drop := if_drop f + 1\<rparr>) (conn_ovf_inc s)"
    have w: "csp_qfifo_write (Some h) (Some i) s = csp_buffer_free (Some h) ?u"
      using enq full by (simp add: csp_qfifo_write_def Let_def)
    have a: "acct (add_mset h M) ?u" using assms by simp
    have "net_frame s ?u"
      by (rule net_frame_trans [OF net_frame_fields(5) net_frame_upd_iface]) (simp add: if_static_def)
    then show ?thesis
      using w acct_free [OF a] more_fields [OF acct_free(2) [OF a]] net_frame_trans [OF _ net_frame_free]
      by (simp add: upd_iface_def conn_ovf_inc_def upd_dbg_def)
  qed
  then show "acct M (csp_qfifo_write (Some h) (Some i) s)" "net_frame s (csp_qfifo_write (Some h) (Some i) s)"
    "wire (csp_qfifo_write (Some h) (Some i) s) = wire s" "fault (csp_qfifo_write (Some h) (Some i) s) = fault s"
    by blast+
qed

lemma crc32_append_wf:
  assumes "packet_wf p"
  shows "packet_wf (snd (csp_crc32_append p))"
proof (cases "unat (plength p) + 4 > CSP_BUFFER_SIZE")
  case False
  then have "unat (plength p + 4) = unat (plength p) + 4" by (intro unat_plength_add_4) simp
  moreover have "data_at (unat (plength p)) + 4 \<le> length (pmem p)"
    using assms False by (simp add: packet_wf_def data_at_def)
  ultimately show ?thesis
    using assms False by (simp add: csp_crc32_append_def packet_wf_def)
qed (use assms in \<open>simp add: csp_crc32_append_def\<close>)

lemma hmac_append_wf:
  assumes "packet_wf p" "key \<noteq> []"
  shows "packet_wf (snd (csp_hmac_append key False p))"
proof (cases "unat (plength p) + 4 \<le> CSP_BUFFER_SIZE")
  case True
  then show ?thesis using hmac_append_parts(1) [OF assms(1) True assms(2)] by simp
qed (use assms in \<open>simp add: csp_hmac_append_def CSP_HMAC_LENGTH_def\<close>)

lemma add_trailers_wf:
  assumes "packet_wf p" "key \<noteq> []" "add_trailers key fl p = Some p'"
  shows "packet_wf p'"
  using assms hmac_append_wf [OF assms(1,2)] crc32_append_wf
  by (auto simp: add_trailers_def split: if_splits prod.splits) (metis snd_conv)+

lemma acct_key: "acct M s \<Longrightarrow> stack_key s \<noteq> []"
  by (auto simp: acct_def stack_wf_def HMAC_KEY_LENGTH_def)

text \<open>The next hop takes the packet exactly if it returns \<open>CSP_ERR_NONE\<close>.\<close>

lemma nexthop_spec:
  assumes "acct (add_mset h M) s" "nexthop_call i via h from_me s = (err, t)"
  shows "acct (if err = CSP_ERR_NONE then M else add_mset h M) t" "net_frame s t" "fault t = fault s"
    "err \<noteq> CSP_ERR_NONE \<Longrightarrow> t = s"
proof -
  have "acct (if err = CSP_ERR_NONE then M else add_mset h M) t \<and> net_frame s t \<and> fault t = fault s \<and>
    (err \<noteq> CSP_ERR_NONE \<longrightarrow> t = s)"
  proof (cases "if_nexthop (iface s i)")
    case Csp_lo_tx
    then show ?thesis
      using assms(2) qfifo_write_spec [OF assms(1), of csp_if_lo] by (auto simp: nexthop_call_def csp_lo_tx_def)
  next
    case (Driver f)
    let ?w = "s\<lparr>wire := wire s @ [\<lparr>tx_iface = i, tx_via = via, tx_packet = pkt s h, tx_from_me = from_me\<rparr>]\<rparr>"
    have a: "acct (add_mset h M) ?w" using assms(1) by simp
    have "net_frame s (csp_buffer_free (Some h) ?w)"
      by (rule net_frame_trans [OF net_frame_fields(1) net_frame_free])
    moreover have "fault (csp_buffer_free (Some h) ?w) = fault s"
      using more_fields [OF acct_free(2) [OF a]] by simp
    ultimately show ?thesis
      using Driver assms acct_free(1) [OF a] by (auto simp: nexthop_call_def Let_def split: if_splits)
  qed
  then show "acct (if err = CSP_ERR_NONE then M else add_mset h M) t" "net_frame s t" "fault t = fault s"
    "err \<noteq> CSP_ERR_NONE \<Longrightarrow> t = s" by blast+
qed

lemma tx_err_spec:
  assumes "acct (add_mset h M) s"
  shows "acct M (tx_err h i s)" "net_frame s (tx_err h i s)" "fault (tx_err h i s) = fault s"
    "wire (tx_err h i s) = wire s"
proof -
  show "acct M (tx_err h i s)" using acct_free(1) [OF assms] by (simp add: tx_err_def)
  show "net_frame s (tx_err h i s)" unfolding tx_err_def
    by (rule net_frame_trans [OF net_frame_free net_frame_upd_iface]) (simp add: if_static_def)
  show "fault (tx_err h i s) = fault s" "wire (tx_err h i s) = wire s"
    using more_fields [OF acct_free(2) [OF assms]] by (simp_all add: tx_err_def upd_iface_def)
qed

lemma send_direct_iface_spec:
  assumes "acct (add_mset h M) s"
  shows "acct M (csp_send_direct_iface idout h i via from_me s)"
    "net_frame s (csp_send_direct_iface idout h i via from_me s)"
    "fault (csp_send_direct_iface idout h i via from_me s) = fault s"
proof -
  define s1 where "s1 = set_pkt h ((pkt s h)\<lparr>pid := idout\<rparr>) s"
  define s2 where "s2 = (if from_me \<and> i \<noteq> csp_if_lo then csp_promisc_add h s1 else s1)"
  let ?r = "csp_send_direct_iface idout h i via from_me s"
  have h: "packet_wf (pkt s h)" using held_allocated [OF assms] by simp
  have a1: "acct (add_mset h M) s1" unfolding s1_def by (rule acct_set_pkt [OF assms]) (simp add: h)
  have f1: "net_frame s s1" "fault s1 = fault s" by (simp_all add: s1_def) (simp add: set_pkt_def)
  have a2: "acct (add_mset h M) s2" "net_frame s s2" "fault s2 = fault s"
    using promisc_add_spec [OF a1, of h] a1 f1 net_frame_trans [OF f1(1)] by (auto simp: s2_def)
  let ?tr = "if from_me then add_trailers (stack_key s2) (flags idout) (pkt s2 h) else Some (pkt s2 h)"
  have "acct M ?r \<and> net_frame s ?r \<and> fault ?r = fault s"
  proof (cases ?tr)
    case None
    then have "?r = tx_err h i s2"
      unfolding csp_send_direct_iface_def csp_id_copy_eq Let_def s1_def [symmetric] s2_def [symmetric]
      by (simp only: None option.case)
    then show ?thesis using tx_err_spec [OF a2(1)] a2 net_frame_trans by metis
  next
    case (Some p)
    define s3 where "s3 = set_pkt h p s2"
    obtain err t where nh: "nexthop_call i via h from_me s3 = (err, t)" by (rule prod.exhaust)
    have r: "?r = (if err \<noteq> CSP_ERR_NONE then tx_err h i t else
        upd_iface i (\<lambda>f. f\<lparr>if_tx := if_tx f + 1, txbytes := txbytes f + ucast (plength (pkt s3 h))\<rparr>) t)"
      unfolding csp_send_direct_iface_def csp_id_copy_eq Let_def s1_def [symmetric] s2_def [symmetric]
      by (simp only: Some option.case s3_def [symmetric] nh prod.case)
    have "packet_wf (pkt s2 h)" using held_allocated [OF a2(1)] by simp
    then have "packet_wf p"
      using Some add_trailers_wf [OF _ acct_key [OF a2(1)]] by (auto split: if_splits)
    then have a3: "acct (add_mset h M) s3" unfolding s3_def by (rule acct_set_pkt [OF a2(1)])
    have f3: "net_frame s s3" "fault s3 = fault s"
      using net_frame_trans [OF a2(2) net_frame_set_pkt] a2(3) by (simp_all add: s3_def) (simp add: set_pkt_def)
    note nh_spec = nexthop_spec [OF a3 nh]
    show ?thesis
    proof (cases "err = CSP_ERR_NONE")
      case True
      have "net_frame s ?r"
        unfolding r using True net_frame_trans [OF f3(1) net_frame_trans [OF nh_spec(2) net_frame_upd_iface]]
        by (simp add: if_static_def)
      then show ?thesis using True nh_spec f3 by (simp add: r) (simp add: upd_iface_def)
    next
      case False
      then have "acct (add_mset h M) t" using nh_spec(1) by simp
      from tx_err_spec [OF this, of i] show ?thesis
        using False nh_spec(2,3) f3 net_frame_trans [OF f3(1) net_frame_trans] by (auto simp: r)
    qed
  qed
  then show "acct M ?r" "net_frame s ?r" "fault ?r = fault s" by blast+
qed

text \<open>Sending a packet does not touch the other packets in use.\<close>

lemma pkt_fields [simp]:
  "pkt (s\<lparr>qfifo := q\<rparr>) h = pkt s h" "pkt (s\<lparr>wire := w\<rparr>) h = pkt s h" "pkt (upd_iface i f s) h = pkt s h"
  "pkt (conn_ovf_inc s) h = pkt s h" "pkt (s\<lparr>fault := b\<rparr>) h = pkt s h"
  by (simp_all add: pkt_def upd_iface_def conn_ovf_inc_def upd_dbg_def)

lemma qfifo_write_pkt:
  assumes "acct (add_mset h M) s"
  shows "pkt (csp_qfifo_write (Some h) (Some i) s) h' = pkt s h'"
proof -
  obtain e q where enq: "csp_queue_enqueue (Some i, Some h) (qfifo s) = (e, q)" by (rule prod.exhaust)
  from acct_queue_inv(1) [OF assms] enq show ?thesis
  proof (cases rule: enq_cases)
    case ok
    then show ?thesis using enq by (simp add: csp_qfifo_write_def Let_def)
  next
    case full
    have "acct (add_mset h M) (upd_iface i (\<lambda>f. f\<lparr>if_drop := if_drop f + 1\<rparr>) (conn_ovf_inc s))"
      using assms by simp
    from acct_free(3) [OF this] show ?thesis using enq full by (simp add: csp_qfifo_write_def Let_def)
  qed
qed

lemma nexthop_pkt:
  assumes "acct (add_mset h M) s" "nexthop_call i via h from_me s = (err, t)"
  shows "pkt t h' = pkt s h'"
proof (cases "if_nexthop (iface s i)")
  case Csp_lo_tx
  then show ?thesis using assms(2) qfifo_write_pkt [OF assms(1)] by (auto simp: nexthop_call_def csp_lo_tx_def)
next
  case (Driver f)
  have "acct (add_mset h M) (s\<lparr>wire := wire s @ [\<lparr>tx_iface = i, tx_via = via, tx_packet = pkt s h, tx_from_me = from_me\<rparr>]\<rparr>)"
    using assms(1) by simp
  from acct_free(3) [OF this] show ?thesis
    using Driver assms(2) by (auto simp: nexthop_call_def Let_def split: if_splits)
qed

lemma send_direct_iface_pkt:
  assumes "acct (add_mset h M) s" "h' \<in> allocated s" "h' \<noteq> h"
  shows "pkt (csp_send_direct_iface idout h i via from_me s) h' = pkt s h'"
proof -
  define s1 where "s1 = set_pkt h ((pkt s h)\<lparr>pid := idout\<rparr>) s"
  define s2 where "s2 = (if from_me \<and> i \<noteq> csp_if_lo then csp_promisc_add h s1 else s1)"
  have h: "packet_wf (pkt s h)" using held_allocated [OF assms(1)] by simp
  have a1: "acct (add_mset h M) s1" unfolding s1_def by (rule acct_set_pkt [OF assms(1)]) (simp add: h)
  have a2: "acct (add_mset h M) s2" using promisc_add_spec(1) [OF a1, of h] a1 by (auto simp: s2_def)
  have p1: "pkt s1 h' = pkt s h'" "h' \<in> allocated s1" using assms(2,3) by (simp_all add: s1_def)
  then have p2: "pkt s2 h' = pkt s h'"
    using promisc_add_spec(3) [OF a1, of h h'] by (simp add: s2_def)
  have err: "pkt (tx_err h i t) h' = pkt t h'" if "acct (add_mset h M) t" for t
    using acct_free(3) [OF that] by (simp add: tx_err_def)
  let ?tr = "if from_me then add_trailers (stack_key s2) (flags idout) (pkt s2 h) else Some (pkt s2 h)"
  show ?thesis
  proof (cases ?tr)
    case None
    then have "csp_send_direct_iface idout h i via from_me s = tx_err h i s2"
      unfolding csp_send_direct_iface_def csp_id_copy_eq Let_def s1_def [symmetric] s2_def [symmetric]
      by (simp only: None option.case)
    then show ?thesis using err [OF a2] p2 by simp
  next
    case (Some p)
    define s3 where "s3 = set_pkt h p s2"
    obtain e t where nh: "nexthop_call i via h from_me s3 = (e, t)" by (rule prod.exhaust)
    have r: "csp_send_direct_iface idout h i via from_me s = (if e \<noteq> CSP_ERR_NONE then tx_err h i t else
        upd_iface i (\<lambda>f. f\<lparr>if_tx := if_tx f + 1, txbytes := txbytes f + ucast (plength (pkt s3 h))\<rparr>) t)"
      unfolding csp_send_direct_iface_def csp_id_copy_eq Let_def s1_def [symmetric] s2_def [symmetric]
      by (simp only: Some option.case s3_def [symmetric] nh prod.case)
    have "packet_wf (pkt s2 h)" using held_allocated [OF a2] by simp
    then have "packet_wf p"
      using Some add_trailers_wf [OF _ acct_key [OF a2]] by (auto split: if_splits)
    then have a3: "acct (add_mset h M) s3" unfolding s3_def by (rule acct_set_pkt [OF a2])
    have p3: "pkt s3 h' = pkt s h'" using p2 assms(3) by (simp add: s3_def)
    show ?thesis
    proof (cases "e = CSP_ERR_NONE")
      case True
      then show ?thesis using nexthop_pkt [OF a3 nh] p3 by (simp add: r)
    next
      case False
      then have "acct (add_mset h M) t" using nexthop_spec(1) [OF a3 nh] by simp
      from err [OF this] False show ?thesis using nexthop_pkt [OF a3 nh] p3 by (simp add: r)
    qed
  qed
qed

lemma send_copy_spec:
  assumes "acct M s" "h \<in># M"
  shows "acct M (send_copy idout (Some h) i via from_me s)"
    "net_frame s (send_copy idout (Some h) i via from_me s)"
    "fault (send_copy idout (Some h) i via from_me s) = fault s"
    "h' \<in> allocated s \<Longrightarrow> pkt (send_copy idout (Some h) i via from_me s) h' = pkt s h'"
proof -
  have h: "h \<in> allocated s" using held_allocated [OF assms] by simp
  obtain r t where clone: "csp_buffer_clone (Some h) s = (r, t)" by (rule prod.exhaust)
  note c = acct_clone [OF assms(1) h clone]
  have ft: "net_frame s t" "fault t = fault s" using net_frame_more [OF c(2)] more_fields [OF c(2)] by simp_all
  let ?r = "send_copy idout (Some h) i via from_me s"
  have "acct M ?r \<and> net_frame s ?r \<and> fault ?r = fault s \<and> (h' \<in> allocated s \<longrightarrow> pkt ?r h' = pkt s h')"
  proof (cases r)
    case None
    then show ?thesis using c(1,3) ft clone by (simp add: send_copy_def)
  next
    case (Some b)
    have a: "acct (add_mset b M) t" using c(1) Some by simp
    have r: "?r = csp_send_direct_iface idout b i via from_me t" using clone Some by (simp add: send_copy_def)
    have "pkt ?r h' = pkt s h'" if "h' \<in> allocated s"
    proof -
      have nb: "h' \<noteq> b" using c(4) [OF Some] that by auto
      have "h' \<in># owned s + M" using that acct_allocated [OF assms(1)] by simp
      then have "h' \<in># owned t + add_mset b M" using owned_more [OF c(2)] by auto
      then have "h' \<in> allocated t" using acct_allocated [OF a] by simp
      then show ?thesis using send_direct_iface_pkt [OF a _ nb] c(3) [OF that] by (simp add: r)
    qed
    then show ?thesis
      using send_direct_iface_spec [OF a, of idout i via from_me] ft net_frame_trans [OF ft(1)] by (simp add: r)
  qed
  then show "acct M ?r" "net_frame s ?r" "fault ?r = fault s" "h' \<in> allocated s \<Longrightarrow> pkt ?r h' = pkt s h'"
    by blast+
qed

lemma send_copy_None: "send_copy idout None i via from_me s = s"
  by (simp add: send_copy_def csp_buffer_clone_def)

section \<open>The loops\<close>

lemma subnet_loop_acct:
  assumes "acct M s" "h \<in># M" "send_subnet_loop n idout idout' (Some h) from ifc found s = (found', t)"
  shows "acct M t \<and> net_frame s t \<and> fault t = fault s"
  using assms
proof (induction n arbitrary: idout' ifc found s)
  case (Suc n)
  show ?case
  proof (cases "csp_iflist_get_by_subnet (conf_version s) (iflist s) (dst idout) ifc")
    case (Some i)
    show ?thesis
    proof (cases "split_horizon s i from")
      case True
      then show ?thesis using Suc.IH [OF Suc.prems(1,2)] Suc.prems(3) Some by simp
    next
      case False
      let ?id1 = "if from = None \<and> src idout = 0 then idout'\<lparr>src := if_addr (iface s i)\<rparr> else idout'"
      let ?id = "if csp_id_is_broadcast (conf_version s) (dst idout) (if_addr (iface s i)) (if_netmask (iface s i))
        then ?id1\<lparr>dst := csp_id_get_max_nodeid (conf_version s)\<rparr> else ?id1"
      let ?u = "send_copy ?id (Some h) i CSP_NO_VIA_ADDRESS (from = None) s"
      note sc = send_copy_spec [OF Suc.prems(1,2), where idout = ?id and i = i and via = CSP_NO_VIA_ADDRESS
        and from_me = "from = None"]
      have "send_subnet_loop n idout ?id (Some h) from (Some i) True ?u = (found', t)"
        using Suc.prems(3) by (simp only: send_subnet_loop.simps Some option.case False if_False Let_def)
      from Suc.IH [OF sc(1) Suc.prems(2) this] have IH: "acct M t" "net_frame ?u t" "fault t = fault ?u"
        by blast+
      show ?thesis by (intro conjI IH(1) net_frame_trans [OF sc(2) IH(2)] trans [OF IH(3) sc(3)])
    qed
  qed (use Suc.prems in simp)
qed simp

lemma route_loop_acct:
  assumes "acct M s" "h \<in># M" "send_route_loop n idout (Some h) from route s = (idout', t)"
  shows "acct M t \<and> net_frame s t"
  using assms
proof (induction n arbitrary: idout route s)
  case (Suc n)
  show ?case
  proof (cases route)
    case (Some r)
    show ?thesis
    proof (cases "rt_iface (rtable (rtab s) ! r)")
      case None
      then show ?thesis using Suc.IH [OF Suc.prems(1,2)] Suc.prems(1,3) Some
        by (auto simp: Let_def split: if_splits)
    next
      case (Some i)
      let ?next = "csp_rtable_search_backward (rtab s) route"
      show ?thesis
      proof (cases "split_horizon s i from")
        case True
        then show ?thesis using Suc.IH [OF Suc.prems(1,2)] Suc.prems(3) Some \<open>route = Some r\<close>
          by (auto simp: Let_def)
      next
        case False
        let ?id = "if from = None \<and> src idout = 0 then idout\<lparr>src := if_addr (iface s i)\<rparr> else idout"
        let ?u = "send_copy ?id (Some h) i (rt_via (rtable (rtab s) ! r)) (from = None) s"
        note sc = send_copy_spec [OF Suc.prems(1,2), where idout = ?id and i = i and via = "rt_via (rtable (rtab s) ! r)"
        and from_me = "from = None"]
        have "send_route_loop n ?id (Some h) from ?next ?u = (idout', t)"
          using Suc.prems(3)
          by (simp only: send_route_loop.simps Some \<open>route = Some r\<close> option.case False if_False Let_def)
        from Suc.IH [OF sc(1) Suc.prems(2) this] have IH: "acct M t" "net_frame ?u t" by blast+
        show ?thesis by (intro conjI IH(1) net_frame_trans [OF sc(2) IH(2)])
      qed
    qed
  qed (use Suc.prems in simp)
qed simp

lemma default_loop_acct:
  assumes "acct M s" "h \<in># M" "send_default_loop n idout (Some h) from ifc s = (idout', t)"
  shows "acct M t \<and> net_frame s t \<and> fault t = fault s"
  using assms
proof (induction n arbitrary: idout ifc s)
  case (Suc n)
  show ?case
  proof (cases "csp_iflist_get_by_isdfl (iflist s) ifc")
    case (Some i)
    show ?thesis
    proof (cases "split_horizon s i from")
      case True
      then show ?thesis using Suc.IH [OF Suc.prems(1,2)] Suc.prems(3) Some by simp
    next
      case False
      let ?id = "if from = None \<and> src idout = 0 then idout\<lparr>src := if_addr (iface s i)\<rparr> else idout"
      let ?u = "send_copy ?id (Some h) i CSP_NO_VIA_ADDRESS (from = None) s"
      note sc = send_copy_spec [OF Suc.prems(1,2), where idout = ?id and i = i and via = CSP_NO_VIA_ADDRESS
        and from_me = "from = None"]
      have "send_default_loop n ?id (Some h) from (Some i) ?u = (idout', t)"
        using Suc.prems(3) by (simp only: send_default_loop.simps Some option.case False if_False Let_def)
      from Suc.IH [OF sc(1) Suc.prems(2) this] have IH: "acct M t" "net_frame ?u t" "fault t = fault ?u"
        by blast+
      show ?thesis by (intro conjI IH(1) net_frame_trans [OF sc(2) IH(2)] trans [OF IH(3) sc(3)])
    qed
  qed (use Suc.prems in simp)
qed simp

lemma send_direct_acct:
  assumes "acct (add_mset h M) s"
  shows "acct M (snd (csp_send_direct idout (Some h) from s))"
    "net_frame s (snd (csp_send_direct idout (Some h) from s))"
proof -
  define n where "n = Suc (length (interfaces (iflist s)))"
  obtain found s1 where l1: "send_subnet_loop n idout idout (Some h) from None False s = (found, s1)"
    by (rule prod.exhaust)
  have a1: "acct (add_mset h M) s1" "net_frame s s1"
    using subnet_loop_acct [OF assms _ l1] by simp_all
  have free: "acct M (csp_buffer_free (Some h) t) \<and> net_frame s (csp_buffer_free (Some h) t)"
    if "acct (add_mset h M) t" "net_frame s t" for t
    using acct_free(1) [OF that(1)] net_frame_trans [OF that(2) net_frame_free] by simp
  have "acct M (snd (csp_send_direct idout (Some h) from s)) \<and>
    net_frame s (snd (csp_send_direct idout (Some h) from s))"
  proof (cases found)
    case True
    then show ?thesis using l1 free [OF a1] by (simp add: csp_send_direct_def n_def)
  next
    case False
    show ?thesis
    proof (cases "csp_rtable_find_route (conf_version s1) (rtab s1) (dst idout)")
      case (Some r)
      obtain id' s2 where l2: "send_route_loop (Suc r) idout (Some h) from (Some r) s1 = (id', s2)"
        by (rule prod.exhaust)
      have "acct (add_mset h M) s2" "net_frame s s2"
        using route_loop_acct [OF a1(1) _ l2] a1(2) net_frame_trans by auto
      from free [OF this] l1 l2 False Some show ?thesis
        by (simp add: csp_send_direct_def n_def del: send_route_loop.simps)
    next
      case None
      obtain id' s2 where l2: "send_default_loop n idout (Some h) from None s1 = (id', s2)"
        by (rule prod.exhaust)
      have "acct (add_mset h M) s2" "net_frame s s2"
        using default_loop_acct [OF a1(1) _ l2] a1(2) net_frame_trans by auto
      from free [OF this] l1 l2 False None show ?thesis
        by (simp add: csp_send_direct_def n_def del: send_default_loop.simps send_subnet_loop.simps)
    qed
  qed
  then show "acct M (snd (csp_send_direct idout (Some h) from s))"
    "net_frame s (snd (csp_send_direct idout (Some h) from s))" by blast+
qed

section \<open>Forwarding\<close>

text \<open>A driver that always accepts.\<close>

definition driver_ok :: "csp_iface \<Rightarrow> bool" where
  "driver_ok f \<longleftrightarrow> (\<exists>d. if_nexthop f = Driver d \<and> (\<forall>via p from_me. d via p from_me = CSP_ERR_NONE))"

text \<open>What one copy puts on the wire when a buffer is free: the packet with the given id.\<close>

lemma send_copy_driver:
  fixes idout :: csp_id and via :: u16
  assumes "acct M s" "h \<in># M" "free_list s \<noteq> []" "driver_ok (iface s i)"
  defines "t \<equiv> send_copy idout (Some h) i via False s"
  shows "\<exists>p. wire t = wire s @ [\<lparr>tx_iface = i, tx_via = via, tx_packet = p, tx_from_me = False\<rparr>] \<and>
    pid p = idout \<and> pdata p = pdata (pkt s h)" "free_list t \<noteq> []"
proof -
  have h: "h \<in> allocated s" using held_allocated [OF assms(1,2)] by simp
  have inv: "pool_inv s" using assms(1) by (simp add: acct_def)
  obtain b bs where Cons: "free_list s = b # bs" using assms(3) by (meson neq_Nil_conv)
  obtain u where u: "csp_buffer_clone (Some h) s = (Some b, u)"
    by (rule csp_buffer_clone_Some [OF inv Cons h]) blast
  note c = acct_clone [OF assms(1) h u]
  have a: "acct (add_mset b M) u" using c(1) by simp
  have content: "pdata (pkt u b) = pdata (pkt s h)" using c(4) by simp
  let ?p = "(pkt u b)\<lparr>pid := idout\<rparr>"
  let ?ev = "\<lparr>tx_iface = i, tx_via = via, tx_packet = ?p, tx_from_me = False\<rparr>"
  let ?v = "(set_pkt b ?p u)\<lparr>wire := wire u @ [?ev]\<rparr>"
  have bu: "b < length (bufs u)" "packet_wf (pkt u b)" using held_allocated [OF a, of b] by simp_all
  obtain d where d: "if_nexthop (iface u i) = Driver d" "\<And>via p from_me. d via p from_me = CSP_ERR_NONE"
    using assms(4) more_fields(18) [OF c(2)] by (auto simp: driver_ok_def)
  have fields: "stack_key (set_pkt b ?p u) = stack_key u" "wire (set_pkt b ?p u) = wire u"
    "iface (set_pkt b ?p u) i = iface u i" "set_pkt b ?p (set_pkt b ?p u) = set_pkt b ?p u"
    using bu(1) by (simp_all add: set_pkt_def iface_def)
  have t: "t = upd_iface i (\<lambda>f. f\<lparr>if_tx := if_tx f + 1, txbytes := txbytes f + ucast (plength (pkt u b))\<rparr>)
      (csp_buffer_free (Some b) ?v)"
    using bu(1) d by (simp add: t_def send_copy_def u csp_send_direct_iface_def nexthop_call_def fields)
  have av: "acct (add_mset b M) ?v" using acct_set_pkt [OF a, of ?p b] bu(2) by simp
  note fr = acct_free [OF av]
  have "wire t = wire s @ [?ev]"
    using more_fields(8) [OF fr(2)] more_fields(8) [OF c(2)] by (simp add: t upd_iface_def)
  then show "\<exists>p. wire t = wire s @ [\<lparr>tx_iface = i, tx_via = via, tx_packet = p, tx_from_me = False\<rparr>] \<and>
    pid p = idout \<and> pdata p = pdata (pkt s h)"
    using content by (intro exI [of _ ?p]) (simp add: pdata_def)
  have hb: "b \<in> allocated ?v" "refcount (bufs ?v ! b) = 1" "pool_inv ?v"
    using held_allocated [OF av, of b] av by (simp_all add: acct_def)
  obtain w where "csp_buffer_free (Some b) ?v = w" "free_list w = free_list ?v @ [b]"
    by (rule csp_buffer_free_last [OF hb(3,1,2)]) blast
  then show "free_list t \<noteq> []" by (simp add: t upd_iface_def)
qed

lemma subnet_match_frame:
  assumes "net_frame s t" "iflist_wf (iflist s)" "i \<in> set (interfaces (iflist s))"
  shows "subnet_match v (iflist t) a i = subnet_match v (iflist s) a i"
    "split_horizon t i from = split_horizon s i from \<or> (\<exists>r. from = Some r \<and> \<not> r < length (ifs (iflist s)))"
    "driver_ok (iface t i) = driver_ok (iface s i)"
proof -
  have i: "i < length (ifs (iflist s))" using assms(2,3) by (auto simp: iflist_wf_def)
  note st = net_frame_static [OF assms(1) i]
  have within: "csp_iflist_is_within_subnet v a (Some f) = csp_iflist_is_within_subnet v a (Some g)"
    if "if_addr f = if_addr g" "if_netmask f = if_netmask g" for f g v a
    using that by (simp add: csp_iflist_is_within_subnet_def)
  show "subnet_match v (iflist t) a i = subnet_match v (iflist s) a i"
    using st(1,2) within [OF st(1,2), of v a] by (simp add: subnet_match_def iface_def)
  show "driver_ok (iface t i) = driver_ok (iface s i)" using st(4) by (simp add: driver_ok_def)
  show "split_horizon t i from = split_horizon s i from \<or> (\<exists>r. from = Some r \<and> \<not> r < length (ifs (iflist s)))"
  proof (cases "from")
    case None
    then show ?thesis by (simp add: split_horizon_def csp_iflist_is_within_subnet_def)
  next
    case (Some r)
    show ?thesis
    proof (cases "r < length (ifs (iflist s))")
      case True
      note rt = net_frame_static [OF assms(1) True]
      have "conf_version t = conf_version s" using assms(1) by (simp add: net_frame_def)
      then show ?thesis using Some st(1) within [OF rt(1,2)] by (simp add: split_horizon_def)
    qed (use Some in blast)
  qed
qed

lemma net_frame_iflist_wf:
  assumes "net_frame s t" "iflist_wf (iflist s)"
  shows "iflist_wf (iflist t)"
proof -
  have eq: "map if_static (ifs (iflist t)) = map if_static (ifs (iflist s))"
    using assms(1) by (simp add: net_frame_def)
  then have len: "length (ifs (iflist t)) = length (ifs (iflist s))" by (rule map_eq_imp_length_eq)
  have name: "if_name (ifs (iflist t) ! k) = if_name (ifs (iflist s) ! k)" if "k < length (ifs (iflist s))" for k
    using arg_cong [OF eq, of "\<lambda>xs. xs ! k"] that len by (simp add: if_static_def)
  have ids: "interfaces (iflist t) = interfaces (iflist s)" using assms(1) by (simp add: net_frame_def)
  have "map (\<lambda>i. take CSP_IFLIST_NAME_MAX (if_name (ifs (iflist t) ! i))) (interfaces (iflist s)) =
      map (\<lambda>i. take CSP_IFLIST_NAME_MAX (if_name (ifs (iflist s) ! i))) (interfaces (iflist s))"
    by (rule map_cong) (use name assms(2) in \<open>auto simp: iflist_wf_def\<close>)
  then show ?thesis using assms(2) unfolding iflist_wf_def ids len by metis
qed

text \<open>The subnet loop of a forwarded packet from any point of the iteration.\<close>

lemma forward_loop:
  assumes "acct M s" "h \<in># M" "free_list s \<noteq> []" "iflist_wf (iflist s)" "r < length (ifs (iflist s))"
    and "filter (subnet_match (conf_version s) (iflist s) (dst idout)) (interfaces (iflist s)) = xs @ ys"
    and "p = (if xs = [] then None else Some (last xs))" "length ys < n"
    and "\<forall>i \<in> set ys. driver_ok (iface s i)"
    and "\<forall>i \<in> set ys. \<not> csp_id_is_broadcast (conf_version s) (dst idout) (if_addr (iface s i)) (if_netmask (iface s i))"
    and "send_subnet_loop n idout idout (Some h) (Some r) p found s = (found', t)"
  shows "(found' \<longleftrightarrow> found \<or> ys \<noteq> []) \<and> (\<exists>evs. wire t = wire s @ evs \<and>
    map tx_iface evs = filter (\<lambda>i. \<not> split_horizon s i (Some r)) ys \<and>
    (\<forall>e \<in> set evs. tx_via e = CSP_NO_VIA_ADDRESS \<and> \<not> tx_from_me e \<and> pid (tx_packet e) = idout \<and>
       pdata (tx_packet e) = pdata (pkt s h)))"
  using assms
proof (induction ys arbitrary: xs p n found s)
  case Nil
  let ?st = "(conf_version s, dst idout, iflist s)"
  have ok: "distinct (interfaces (iflist s))" using Nil.prems(4) by (rule iflist_wf_distinct)
  have "csp_iflist_get_by_subnet (conf_version s) (iflist s) (dst idout) p = None"
  proof (cases "xs = []")
    case True
    then show ?thesis using by_subnet.first [of ?st] ok Nil.prems(6,7) by simp
  next
    case False
    then have "xs = butlast xs @ last xs # []" by simp
    then show ?thesis using by_subnet.step [of ?st "butlast xs" "last xs" "[]"] ok Nil.prems(6,7) False by simp
  qed
  moreover obtain m where "n = Suc m" using Nil.prems(8) by (cases n) auto
  ultimately show ?case using Nil.prems(11) by auto
next
  case (Cons i ys)
  let ?st = "(conf_version s, dst idout, iflist s)"
  have ok: "distinct (interfaces (iflist s))" using Cons.prems(4) by (rule iflist_wf_distinct)
  obtain m where n: "n = Suc m" "length ys < m" using Cons.prems(8) by (cases n) auto
  have nxt: "csp_iflist_get_by_subnet (conf_version s) (iflist s) (dst idout) p = Some i"
  proof (cases "xs = []")
    case True
    then show ?thesis using by_subnet.first [of ?st] ok Cons.prems(6,7) by simp
  next
    case False
    then have "xs @ i # ys = butlast xs @ last xs # i # ys" by simp
    then show ?thesis
      using by_subnet.step [of ?st "butlast xs" "last xs" "i # ys"] ok Cons.prems(6,7) False by simp
  qed
  have elems: "filter (subnet_match (conf_version s) (iflist s) (dst idout)) (interfaces (iflist s)) = (xs @ [i]) @ ys"
    using Cons.prems(6) by simp
  have pos: "Some i = (if xs @ [i] = [] then None else Some (last (xs @ [i])))" by simp
  show ?case
  proof (cases "split_horizon s i (Some r)")
    case True
    then have "send_subnet_loop m idout idout (Some h) (Some r) (Some i) True s = (found', t)"
      using Cons.prems(11) n(1) nxt by simp
    from Cons.IH [OF Cons.prems(1-5) elems pos n(2) _ _ this] Cons.prems(9,10) True show ?thesis by auto
  next
    case False
    define u where "u = send_copy idout (Some h) i CSP_NO_VIA_ADDRESS False s"
    have nb: "\<not> csp_id_is_broadcast (conf_version s) (dst idout) (if_addr (iface s i)) (if_netmask (iface s i))"
      using Cons.prems(10) by simp
    have loop: "send_subnet_loop m idout idout (Some h) (Some r) (Some i) True u = (found', t)"
      using Cons.prems(11) n(1) nxt False nb by (simp add: u_def)
    note sc = send_copy_spec [OF Cons.prems(1,2), where idout = idout and i = i
        and via = CSP_NO_VIA_ADDRESS and from_me = False, folded u_def]
    have dr: "driver_ok (iface s i)" using Cons.prems(9) by simp
    note w = send_copy_driver [OF Cons.prems(1,2,3) dr, of idout CSP_NO_VIA_ADDRESS, folded u_def]
    have frame: "conf_version u = conf_version s" "interfaces (iflist u) = interfaces (iflist s)"
      using sc(2) by (simp_all add: net_frame_def)
    have in_list: "j \<in> set (interfaces (iflist s))" if "j \<in> set (i # ys)" for j
      using that Cons.prems(6) by (metis Un_iff filter_is_subset set_append subsetD)
    have wf_u: "iflist_wf (iflist u)" by (rule net_frame_iflist_wf [OF sc(2) Cons.prems(4)])
    have elems_u: "filter (subnet_match (conf_version u) (iflist u) (dst idout)) (interfaces (iflist u)) = (xs @ [i]) @ ys"
      unfolding frame elems [symmetric]
      by (rule filter_cong) (simp_all add: subnet_match_frame(1) [OF sc(2) Cons.prems(4)])
    have r_u: "r < length (ifs (iflist u))" using net_frame_static(5) [OF sc(2) Cons.prems(5)] Cons.prems(5) by simp
    have dr_u: "\<forall>j \<in> set ys. driver_ok (iface u j)"
      using Cons.prems(9) subnet_match_frame(3) [OF sc(2) Cons.prems(4) in_list] by simp
    have bc_u: "\<forall>j \<in> set ys. \<not> csp_id_is_broadcast (conf_version u) (dst idout) (if_addr (iface u j)) (if_netmask (iface u j))"
    proof
      fix j assume j: "j \<in> set ys"
      then have "j < length (ifs (iflist s))" using in_list [of j] Cons.prems(4) by (auto simp: iflist_wf_def)
      from net_frame_static(1,2) [OF sc(2) this] j Cons.prems(10)
      show "\<not> csp_id_is_broadcast (conf_version u) (dst idout) (if_addr (iface u j)) (if_netmask (iface u j))"
        by (simp add: frame)
    qed
    have sh: "filter (\<lambda>j. \<not> split_horizon u j (Some r)) ys = filter (\<lambda>j. \<not> split_horizon s j (Some r)) ys"
      using subnet_match_frame(2) [OF sc(2) Cons.prems(4) in_list, of _ "Some r"] Cons.prems(5)
      by (intro filter_cong) auto
    have ph: "pkt u h = pkt s h" using sc(4) [of h] held_allocated [OF Cons.prems(1,2)] by simp
    obtain evs where evs: "found'" "wire t = wire u @ evs"
      "map tx_iface evs = filter (\<lambda>i. \<not> split_horizon s i (Some r)) ys"
      "\<forall>e \<in> set evs. tx_via e = CSP_NO_VIA_ADDRESS \<and> \<not> tx_from_me e \<and> pid (tx_packet e) = idout \<and>
         pdata (tx_packet e) = pdata (pkt s h)"
      using Cons.IH [OF sc(1) Cons.prems(2) w(2) wf_u r_u elems_u pos n(2) dr_u bc_u loop] sh ph by auto
    obtain q where q: "wire u = wire s @ [\<lparr>tx_iface = i, tx_via = CSP_NO_VIA_ADDRESS, tx_packet = q, tx_from_me = False\<rparr>]"
      "pid q = idout" "pdata q = pdata (pkt s h)" using w(1) by blast
    show ?thesis
    proof (intro conjI exI [of _ "\<lparr>tx_iface = i, tx_via = CSP_NO_VIA_ADDRESS, tx_packet = q, tx_from_me = False\<rparr> # evs"])
      show "found' \<longleftrightarrow> found \<or> i # ys \<noteq> []" using evs(1) by simp
    qed (use evs(2-4) q False in simp_all)
  qed
qed

section \<open>Properties\<close>

text \<open>Sending a packet never loses or duplicates a buffer. If every allocated buffer is owned
  exactly once (by a queue, by the caller of the send, or by another holder \<open>M\<close>), then after
  \<open>csp_send_direct\<close>, which takes the packet, it still is, without the caller: whatever the
  interfaces, the routing table, the drivers' results and the number of free buffers are,
  with or without promiscuous mode. Sending changes no connection, socket, port, route or
  interface address.\<close>

theorem csp_send_direct_conserves_buffers:
  assumes "acct (add_mset h M) s"
  shows "acct M (snd (csp_send_direct idout (Some h) routed_from s)) \<and>
    net_frame s (snd (csp_send_direct idout (Some h) routed_from s))"
  using send_direct_acct [OF assms] by blast


text \<open>A node with three interfaces, a pool of three buffers of which one holds a packet.\<close>

definition node_ex :: csp_state where
  "node_ex = \<lparr>bufs = map (\<lambda>i. \<lparr>refcount = (if i = 0 then 1 else 0), skbf_addr = i, skbf_data = packet0\<rparr>) [0, 1, 2],
     csp_buffers = \<lparr>qbuffer = [1, 2, 0], qsize = 3, qitems = 2, q_in = 2, q_out = 0\<rparr>,
     dbg = \<lparr>csp_dbg_buffer_out = 0, csp_dbg_conn_out = 0, csp_dbg_conn_ovf = 0, csp_dbg_inval_reply = 0,
            csp_dbg_errno = 0\<rparr>,
     conf_version = 2, conf_dedup = 0, conf_conn_dfl_so = 0, stack_key = replicate 16 0, rand_r = (\<lambda>x. x),
     now = 1000, fault = False, wire = [], iflist = iflist_ex, rtab = rtable_ex, dedup = dedup0,
     qfifo = \<lparr>qbuffer = [(None, None), (None, None)], qsize = 2, qitems = 0, q_in = 0, q_out = 0\<rparr>,
     conns = [], conn_last_given = 0, ports = replicate 18 PORT_CLOSED, sockets = [],
     rdp_tx = \<lparr>qbuffer = [0, 0], qsize = 2, qitems = 0, q_in = 0, q_out = 0\<rparr>,
     rdp_rx = \<lparr>qbuffer = [0, 0], qsize = 2, qitems = 0, q_in = 0, q_out = 0\<rparr>, rdp_incr = 0,
     rdp_dfl = \<lparr>csp_rdp_window_size = 4, csp_rdp_conn_timeout = 10000, csp_rdp_packet_timeout = 1000,
       csp_rdp_delayed_acks = 1, csp_rdp_ack_timeout = 250, csp_rdp_ack_delay_count = 2\<rparr>,
     promisc_queue = None, promisc_enabled = False\<rparr>"

lemma node_ex_free: "free_list node_ex = [1, 2]"
  by (simp add: node_ex_def queue_list_def upt_rec)

lemma node_ex_acct: "acct {#0#} node_ex"
proof -
  have upto: "h < Suc (Suc (Suc 0)) \<longleftrightarrow> h = 0 \<or> h = 1 \<or> h = 2" for h by auto
  have alloc: "allocated node_ex = {0}"
    unfolding allocated_def node_ex_free by (auto simp: node_ex_def)
  moreover have "pool_inv node_ex"
    unfolding pool_inv_def node_ex_free
    by (auto simp: node_ex_def queue_inv_def pkt_def upto)
  moreover have "stack_wf node_ex" by (simp add: node_ex_def stack_wf_def queue_inv_def HMAC_KEY_LENGTH_def)
  moreover have "owned node_ex = {#}" by (simp add: node_ex_def owned_def queue_list_def List.map_filter_def)
  moreover have "refcount (bufs node_ex ! 0) = 1" by (simp add: node_ex_def)
  ultimately show ?thesis by (simp add: acct_def)
qed

theorem csp_send_direct_conserves_buffers_witness:
  "acct {#} (snd (csp_send_direct (csp_id_clear\<lparr>dst := 0x105\<rparr>) (Some 0) None node_ex))"
  using csp_send_direct_conserves_buffers [OF node_ex_acct] by blast

lemma node_ex_ifaces:
  "\<forall>i \<in> set (interfaces (iflist node_ex)). driver_ok (iface node_ex i)"
  "\<forall>i \<in> set (interfaces (iflist node_ex)). \<not> csp_id_is_broadcast (conf_version node_ex)
     0x105 (if_addr (iface node_ex i)) (if_netmask (iface node_ex i))"
  "filter (subnet_match (conf_version node_ex) (iflist node_ex) 0x105) (interfaces (iflist node_ex)) = [1, 2]"
  "filter (\<lambda>i. \<not> split_horizon node_ex i (Some 0)) [1, 2] = [1, 2]"
proof -
  show "\<forall>i \<in> set (interfaces (iflist node_ex)). driver_ok (iface node_ex i)"
    by (simp add: node_ex_def iflist_ex_def iface_ex_def iface_def driver_ok_def CSP_ERR_NONE_def)
  show "\<forall>i \<in> set (interfaces (iflist node_ex)). \<not> csp_id_is_broadcast (conf_version node_ex)
     0x105 (if_addr (iface node_ex i)) (if_netmask (iface node_ex i))"
    by (simp add: node_ex_def iflist_ex_def iface_ex_def iface_def csp_id_is_broadcast_def
        csp_id_get_host_bits_def csp_id_get_max_nodeid_def csp_id_size_defs)
  show "filter (subnet_match (conf_version node_ex) (iflist node_ex) 0x105) (interfaces (iflist node_ex)) = [1, 2]"
    using iflist_ex_filter by (simp add: node_ex_def subnet_match_def [abs_def])
  show "filter (\<lambda>i. \<not> split_horizon node_ex i (Some 0)) [1, 2] = [1, 2]"
    by (simp add: split_horizon_def node_ex_def iflist_ex_def iface_ex_def iface_def
        csp_iflist_is_within_subnet_def csp_id_get_host_bits_def csp_id_size_defs)
qed


end
