(* ===== verification/Csp_Rdp_Queue.thy ===== *)
theory Csp_Rdp_Queue
  imports Csp_Send
begin

text \<open>
  The two packet queues of RDP, \<open>src/csp_rdp_queue.c\<close>: all connections share one queue
  of sent and one of received packets, and a packet carries the connection it belongs
  to. The code of the two queues is the same, so the loops are written once, over the access
  to the queue. The queues never hold \<open>NULL\<close>, as only the add functions fill them.
\<close>

section \<open>Operations\<close>

text \<open>Putting a packet back at the end of a queue; it is released if it does not fit.\<close>

definition requeue ::
    "(csp_state \<Rightarrow> nat pthread_queue) \<Rightarrow> (nat pthread_queue \<Rightarrow> csp_state \<Rightarrow> csp_state) \<Rightarrow> nat \<Rightarrow> csp_state \<Rightarrow> csp_state" where
  "requeue qof setq p s =
     (case csp_queue_enqueue p (qof s) of
        (e, q) \<Rightarrow> let s = setq q s in if e \<noteq> CSP_QUEUE_OK then csp_buffer_free (Some p) s else s)"

fun flush_loop ::
    "(csp_state \<Rightarrow> nat pthread_queue) \<Rightarrow> (nat pthread_queue \<Rightarrow> csp_state \<Rightarrow> csp_state) \<Rightarrow>
     nat \<Rightarrow> nat option \<Rightarrow> csp_state \<Rightarrow> csp_state" where
  "flush_loop qof setq 0 c s = s"
| "flush_loop qof setq (Suc n) c s =
     (case csp_queue_dequeue (qof s) of
        (None, _) \<Rightarrow> s
      | (Some p, q) \<Rightarrow>
          let s = setq q s;
              s = (if c = None \<or> c = pconn (pkt s p) then csp_buffer_free (Some p) s else requeue qof setq p s)
          in flush_loop qof setq n c s)"

fun get_loop ::
    "(csp_state \<Rightarrow> nat pthread_queue) \<Rightarrow> (nat pthread_queue \<Rightarrow> csp_state \<Rightarrow> csp_state) \<Rightarrow>
     nat \<Rightarrow> nat \<Rightarrow> csp_state \<Rightarrow> nat option \<times> csp_state" where
  "get_loop qof setq 0 c s = (None, s)"
| "get_loop qof setq (Suc n) c s =
     (case csp_queue_dequeue (qof s) of
        (None, _) \<Rightarrow> (None, s)
      | (Some p, q) \<Rightarrow>
          let s = setq q s
          in if pconn (pkt s p) = Some c then (Some p, s)
             else get_loop qof setq n c (requeue qof setq p s))"

definition set_rdp_tx :: "nat pthread_queue \<Rightarrow> csp_state \<Rightarrow> csp_state" where
  "set_rdp_tx q s = s\<lparr>rdp_tx := q\<rparr>"

definition set_rdp_rx :: "nat pthread_queue \<Rightarrow> csp_state \<Rightarrow> csp_state" where
  "set_rdp_rx q s = s\<lparr>rdp_rx := q\<rparr>"

definition csp_rdp_queue_init :: "csp_state \<Rightarrow> csp_state" where
  "csp_rdp_queue_init s =
     s\<lparr>rdp_tx := the (pthread_queue_create True 0 (CSP_RDP_MAX_WINDOW * 2)),
       rdp_rx := the (pthread_queue_create True 0 (CSP_RDP_MAX_WINDOW * 2))\<rparr>"

definition csp_rdp_queue_flush :: "nat option \<Rightarrow> csp_state \<Rightarrow> csp_state" where
  "csp_rdp_queue_flush c s =
     (let s = flush_loop rdp_tx set_rdp_tx (csp_queue_size (rdp_tx s)) c s
      in flush_loop rdp_rx set_rdp_rx (csp_queue_size (rdp_rx s)) c s)"

definition csp_rdp_queue_tx_size :: "csp_state \<Rightarrow> nat" where
  "csp_rdp_queue_tx_size s = csp_queue_size (rdp_tx s)"

definition csp_rdp_queue_tx_add :: "nat \<Rightarrow> nat \<Rightarrow> csp_state \<Rightarrow> csp_state" where
  "csp_rdp_queue_tx_add c packet s =
     requeue rdp_tx set_rdp_tx packet (set_pkt packet ((pkt s packet)\<lparr>pconn := Some c\<rparr>) s)"

definition csp_rdp_queue_tx_get :: "nat \<Rightarrow> csp_state \<Rightarrow> nat option \<times> csp_state" where
  "csp_rdp_queue_tx_get c s = get_loop rdp_tx set_rdp_tx (csp_queue_size (rdp_tx s)) c s"

definition csp_rdp_queue_rx_size :: "csp_state \<Rightarrow> nat" where
  "csp_rdp_queue_rx_size s = csp_queue_size (rdp_rx s)"

definition csp_rdp_queue_rx_add :: "nat \<Rightarrow> nat \<Rightarrow> csp_state \<Rightarrow> csp_state" where
  "csp_rdp_queue_rx_add c packet s =
     requeue rdp_rx set_rdp_rx packet (set_pkt packet ((pkt s packet)\<lparr>pconn := Some c\<rparr>) s)"

definition csp_rdp_queue_rx_get :: "nat \<Rightarrow> csp_state \<Rightarrow> nat option \<times> csp_state" where
  "csp_rdp_queue_rx_get c s = get_loop rdp_rx set_rdp_rx (csp_queue_size (rdp_rx s)) c s"

section \<open>A queue of packets inside the state\<close>

locale packet_queue =
  fixes qof :: "csp_state \<Rightarrow> nat pthread_queue"
    and setq :: "nat pthread_queue \<Rightarrow> csp_state \<Rightarrow> csp_state"
  assumes qof_setq: "qof (setq q s) = q"
    and setq_setq: "setq q (setq r s) = setq q s"
    and setq_qof: "setq (qof s) s = s"
    and pkt_setq: "pkt (setq q s) h = pkt s h"
    and qof_inv: "acct M s \<Longrightarrow> queue_inv (qof s)"
    and acct_setq: "acct M s \<Longrightarrow> queue_inv q \<Longrightarrow>
      mset (queue_list q) + N = mset (queue_list (qof s)) + M \<Longrightarrow> acct N (setq q s)"
    and qof_more: "csp_pool.more t = csp_pool.more s \<Longrightarrow> qof t = qof s"
    and setq_more: "csp_pool.more t = csp_pool.more (setq q s) \<Longrightarrow>
      csp_pool.more (setq r t) = csp_pool.more (setq r s)"
begin

lemma requeue_acct:
  assumes "acct (add_mset p M) s"
  shows "acct M (requeue qof setq p s)"
proof -
  obtain e q where enq: "csp_queue_enqueue p (qof s) = (e, q)" by (rule prod.exhaust)
  from qof_inv [OF assms] enq show ?thesis
  proof (cases rule: enq_cases)
    case ok
    have "acct M (setq q s)" by (rule acct_setq [OF assms ok(2)]) (simp add: ok(3))
    then show ?thesis using enq ok(1) by (simp add: requeue_def)
  next
    case full
    then show ?thesis using enq acct_free(1) [OF assms] by (simp add: requeue_def setq_qof)
  qed
qed

text \<open>Putting back what was just taken out always fits.\<close>

lemma requeue_taken:
  assumes "queue_inv (qof s)" "queue_list (qof s) = p # ps"
  obtains q r where "csp_queue_dequeue (qof s) = (Some p, q)" "requeue qof setq p (setq q s) = setq r s"
    "queue_inv r" "queue_list r = ps @ [p]" "queue_inv q" "queue_list q = ps"
proof -
  obtain q where q: "csp_queue_dequeue (qof s) = (Some p, q)" "queue_inv q" "queue_list q = ps"
    "csp_queue_free q = Suc (csp_queue_free (qof s))"
    using ring.deq_some [OF assms] by blast
  obtain r where r: "csp_queue_enqueue p q = (CSP_QUEUE_OK, r)" "queue_inv r" "queue_list r = queue_list q @ [p]"
    using ring.enq_ok [OF q(2), of p] q(4) by auto
  show ?thesis
    by (rule that [OF q(1) _ r(2) _ q(2,3)]) (simp_all add: requeue_def qof_setq r(1,3) setq_setq q(3))
qed

lemma get_loop_spec:
  assumes "queue_inv (qof s)" "queue_list (qof s) = xs @ ys" "n = length xs"
  shows "\<exists>q. queue_inv q \<and>
    (if \<exists>p \<in> set xs. pconn (pkt s p) = Some c
     then \<exists>us p vs. xs = us @ p # vs \<and> (\<forall>u \<in> set us. pconn (pkt s u) \<noteq> Some c) \<and> pconn (pkt s p) = Some c \<and>
       get_loop qof setq n c s = (Some p, setq q s) \<and> queue_list q = vs @ ys @ us
     else get_loop qof setq n c s = (None, setq q s) \<and> queue_list q = ys @ xs)"
  using assms
proof (induction xs arbitrary: s ys n)
  case Nil
  then show ?case by (intro exI [of _ "qof s"]) (simp add: setq_qof)
next
  case (Cons x xs)
  obtain q r where q: "csp_queue_dequeue (qof s) = (Some x, q)" "requeue qof setq x (setq q s) = setq r s"
    "queue_inv r" "queue_list r = (xs @ ys) @ [x]" "queue_inv q" "queue_list q = xs @ ys"
    by (rule requeue_taken [OF Cons.prems(1), of x "xs @ ys"]) (use Cons.prems(2) in auto)
  have n: "n = Suc (length xs)" using Cons.prems(3) by simp
  show ?case
  proof (cases "pconn (pkt s x) = Some c")
    case True
    then have "get_loop qof setq n c s = (Some x, setq q s)" using q(1) n by (simp add: Let_def pkt_setq)
    then have "\<exists>us p vs. x # xs = us @ p # vs \<and> (\<forall>u \<in> set us. pconn (pkt s u) \<noteq> Some c) \<and>
        pconn (pkt s p) = Some c \<and> get_loop qof setq n c s = (Some p, setq q s) \<and> queue_list q = vs @ ys @ us"
      using True q(6) by (intro exI [where x = "[]"], intro exI [where x = x], intro exI [where x = xs]) simp
    then show ?thesis using True q(5) by (intro exI [of _ q]) simp
  next
    case False
    have step: "get_loop qof setq n c s = get_loop qof setq (length xs) c (setq r s)"
      using q(1,2) n False by (simp add: Let_def pkt_setq)
    have inv_r: "queue_inv (qof (setq r s))" and list_r: "queue_list (qof (setq r s)) = xs @ (ys @ [x])"
      using q(3,4) by (simp_all add: qof_setq)
    obtain q' where q': "queue_inv q'"
      "if \<exists>p \<in> set xs. pconn (pkt s p) = Some c
       then \<exists>us p vs. xs = us @ p # vs \<and> (\<forall>u \<in> set us. pconn (pkt s u) \<noteq> Some c) \<and> pconn (pkt s p) = Some c \<and>
         get_loop qof setq n c s = (Some p, setq q' s) \<and> queue_list q' = vs @ (ys @ [x]) @ us
       else get_loop qof setq n c s = (None, setq q' s) \<and> queue_list q' = (ys @ [x]) @ xs"
      using Cons.IH [OF inv_r list_r refl] by (simp only: pkt_setq setq_setq step) blast
    show ?thesis
    proof (cases "\<exists>p \<in> set xs. pconn (pkt s p) = Some c")
      case True
      then obtain us p vs where "xs = us @ p # vs" "\<forall>u \<in> set us. pconn (pkt s u) \<noteq> Some c"
        "pconn (pkt s p) = Some c" "get_loop qof setq n c s = (Some p, setq q' s)"
        "queue_list q' = vs @ (ys @ [x]) @ us" using q'(2) by auto
      then have "\<exists>us p vs. x # xs = us @ p # vs \<and> (\<forall>u \<in> set us. pconn (pkt s u) \<noteq> Some c) \<and>
          pconn (pkt s p) = Some c \<and> get_loop qof setq n c s = (Some p, setq q' s) \<and> queue_list q' = vs @ ys @ us"
        using False
        by (intro exI [where x = "x # us"], intro exI [where x = p], intro exI [where x = vs]) simp
      then show ?thesis using True q'(1) by (intro exI [of _ q']) simp
    next
      case none: False
      then show ?thesis using q' False by (intro exI [of _ q']) auto
    qed
  qed
qed

text \<open>Taking the first packet of a connection leaves all others in the queue.\<close>

lemma get_loop_acct:
  assumes "acct M s" "get_loop qof setq (csp_queue_size (qof s)) c s = (r, t)"
  shows "acct (case r of None \<Rightarrow> M | Some p \<Rightarrow> add_mset p M) t" "pkt t h = pkt s h"
    "r = Some p \<Longrightarrow> pconn (pkt t p) = Some c" "\<exists>q. t = setq q s"
proof -
  have inv: "queue_inv (qof s)" by (rule qof_inv [OF assms(1)])
  let ?L = "queue_list (qof s)"
  have size: "csp_queue_size (qof s) = length ?L" by (rule ring.qlen_eq [OF inv])
  have loop: "get_loop qof setq (length ?L) c s = (r, t)" using assms(2) size by simp
  obtain q where q: "queue_inv q"
    "if \<exists>p \<in> set ?L. pconn (pkt s p) = Some c
     then \<exists>us p vs. ?L = us @ p # vs \<and> (\<forall>u \<in> set us. pconn (pkt s u) \<noteq> Some c) \<and> pconn (pkt s p) = Some c \<and>
       (r, t) = (Some p, setq q s) \<and> queue_list q = vs @ us
     else (r, t) = (None, setq q s) \<and> queue_list q = ?L"
    using get_loop_spec [OF inv append_Nil2 [symmetric] refl, of c]
    by (simp only: loop append_Nil append_Nil2) blast
  have "acct (case r of None \<Rightarrow> M | Some p \<Rightarrow> add_mset p M) t \<and> (\<forall>h. pkt t h = pkt s h) \<and>
    (\<forall>p. r = Some p \<longrightarrow> pconn (pkt t p) = Some c) \<and> (\<exists>q. t = setq q s)"
  proof (cases "\<exists>p \<in> set ?L. pconn (pkt s p) = Some c")
    case True
    then obtain us p vs where g: "?L = us @ p # vs" "pconn (pkt s p) = Some c" "r = Some p" "t = setq q s"
      "queue_list q = vs @ us" using q(2) by auto
    have "acct (add_mset p M) (setq q s)" by (rule acct_setq [OF assms(1) q(1)]) (simp add: g(1,5))
    then show ?thesis using g by (auto simp: pkt_setq)
  next
    case False
    then have g: "r = None" "t = setq q s" "queue_list q = ?L" using q(2) by auto
    have "acct M (setq q s)" by (rule acct_setq [OF assms(1) q(1)]) (simp add: g(3))
    then show ?thesis using g by (auto simp: pkt_setq)
  qed
  then show "acct (case r of None \<Rightarrow> M | Some p \<Rightarrow> add_mset p M) t" "pkt t h = pkt s h"
    "r = Some p \<Longrightarrow> pconn (pkt t p) = Some c" "\<exists>q. t = setq q s" by blast+
qed

text \<open>Flushing keeps the packets of the other connections, in order, and releases the rest.\<close>

lemma flush_loop_spec:
  assumes "acct M s" "queue_list (qof s) = xs @ ys" "n = length xs"
  shows "acct M (flush_loop qof setq n c s)" "pkt (flush_loop qof setq n c s) h = pkt s h"
    "queue_list (qof (flush_loop qof setq n c s)) = ys @ filter (\<lambda>p. c \<noteq> None \<and> c \<noteq> pconn (pkt s p)) xs"
    "\<exists>q. csp_pool.more (flush_loop qof setq n c s) = csp_pool.more (setq q s)"
proof -
  let ?f = "\<lambda>s. filter (\<lambda>p. c \<noteq> None \<and> c \<noteq> pconn (pkt s p))"
  have "acct M (flush_loop qof setq n c s) \<and> (\<forall>h. pkt (flush_loop qof setq n c s) h = pkt s h) \<and>
    queue_list (qof (flush_loop qof setq n c s)) = ys @ ?f s xs \<and>
    (\<exists>q. csp_pool.more (flush_loop qof setq n c s) = csp_pool.more (setq q s))"
    using assms
  proof (induction xs arbitrary: s ys n)
    case Nil
    then show ?case by (auto simp: setq_qof intro: exI [of _ "qof s"])
  next
    case (Cons x xs)
    have inv: "queue_inv (qof s)" by (rule qof_inv [OF Cons.prems(1)])
    obtain q r where q: "csp_queue_dequeue (qof s) = (Some x, q)" "requeue qof setq x (setq q s) = setq r s"
      "queue_inv r" "queue_list r = (xs @ ys) @ [x]" "queue_inv q" "queue_list q = xs @ ys"
      by (rule requeue_taken [OF inv, of x "xs @ ys"]) (use Cons.prems(2) in auto)
    have n: "n = Suc (length xs)" using Cons.prems(3) by simp
    show ?case
    proof (cases "c = None \<or> c = pconn (pkt s x)")
      case True
      let ?t = "csp_buffer_free (Some x) (setq q s)"
      have a: "acct (add_mset x M) (setq q s)"
        by (rule acct_setq [OF Cons.prems(1) q(5)]) (simp add: q(6) Cons.prems(2))
      note fr = acct_free [OF a]
      have qt: "queue_list (qof ?t) = xs @ ys" using qof_more [OF fr(2)] q(6) by (simp add: qof_setq)
      have step: "flush_loop qof setq n c s = flush_loop qof setq (length xs) c ?t"
        using q(1) n True by (auto simp: Let_def pkt_setq)
      have more: "csp_pool.more (setq q' ?t) = csp_pool.more (setq q' s)" for q'
        by (rule setq_more [OF fr(2)])
      show ?thesis
        using Cons.IH [OF fr(1) qt refl] step True fr(3) more by (auto simp: pkt_setq)
    next
      case False
      have a: "acct M (setq r s)"
        by (rule acct_setq [OF Cons.prems(1) q(3)]) (simp add: q(4) Cons.prems(2))
      have qt: "queue_list (qof (setq r s)) = xs @ (ys @ [x])" using q(4) by (simp add: qof_setq)
      have step: "flush_loop qof setq n c s = flush_loop qof setq (length xs) c (setq r s)"
        using q(1,2) n False by (auto simp: Let_def pkt_setq)
      show ?thesis using Cons.IH [OF a qt refl] step False by (auto simp: pkt_setq setq_setq)
    qed
  qed
  then show "acct M (flush_loop qof setq n c s)" "pkt (flush_loop qof setq n c s) h = pkt s h"
    "queue_list (qof (flush_loop qof setq n c s)) = ys @ ?f s xs"
    "\<exists>q. csp_pool.more (flush_loop qof setq n c s) = csp_pool.more (setq q s)" by blast+
qed

end

interpretation tx_queue: packet_queue rdp_tx set_rdp_tx
proof unfold_locales
  show "rdp_tx t = rdp_tx s" if "csp_pool.more t = csp_pool.more s" for s t :: csp_state
    by (rule more_fields(4) [OF that])
  show "csp_pool.more (set_rdp_tx r t) = csp_pool.more (set_rdp_tx r s)"
    if "csp_pool.more t = csp_pool.more (set_rdp_tx q s)" for s t :: csp_state and q r
    using that by (cases s, cases t) (simp add: set_rdp_tx_def)
qed (auto simp: set_rdp_tx_def pkt_def acct_queue_inv intro: acct_rdp_tx)

interpretation rx_queue: packet_queue rdp_rx set_rdp_rx
proof unfold_locales
  show "rdp_rx t = rdp_rx s" if "csp_pool.more t = csp_pool.more s" for s t :: csp_state
    by (rule more_fields(5) [OF that])
  show "csp_pool.more (set_rdp_rx r t) = csp_pool.more (set_rdp_rx r s)"
    if "csp_pool.more t = csp_pool.more (set_rdp_rx q s)" for s t :: csp_state and q r
    using that by (cases s, cases t) (simp add: set_rdp_rx_def)
qed (auto simp: set_rdp_rx_def pkt_def acct_queue_inv intro: acct_rdp_rx)

section \<open>The operations\<close>

lemma packet_wf_pconn [simp]:
  "packet_wf (p\<lparr>pconn := c\<rparr>) = packet_wf p" "packet_wf (p\<lparr>timestamp_tx := w\<rparr>) = packet_wf p"
  "packet_wf (p\<lparr>rdp_quarantine := w\<rparr>) = packet_wf p" "packet_wf (p\<lparr>timestamp_rx := w\<rparr>) = packet_wf p"
  by (simp_all add: packet_wf_def)

lemma tx_add_acct: "acct (add_mset h M) s \<Longrightarrow> acct M (csp_rdp_queue_tx_add c h s)"
  unfolding csp_rdp_queue_tx_add_def
  using held_allocated(4) [of "add_mset h M" s h]
  by (intro tx_queue.requeue_acct acct_set_pkt) simp_all

lemma rx_add_acct: "acct (add_mset h M) s \<Longrightarrow> acct M (csp_rdp_queue_rx_add c h s)"
  unfolding csp_rdp_queue_rx_add_def
  using held_allocated(4) [of "add_mset h M" s h]
  by (intro rx_queue.requeue_acct acct_set_pkt) simp_all

lemma tx_get_acct:
  assumes "acct M s" "csp_rdp_queue_tx_get c s = (r, t)"
  shows "acct (case r of None \<Rightarrow> M | Some p \<Rightarrow> add_mset p M) t" "pkt t h = pkt s h"
    "r = Some p \<Longrightarrow> pconn (pkt t p) = Some c" "\<exists>q. t = s\<lparr>rdp_tx := q\<rparr>"
  using tx_queue.get_loop_acct [OF assms(1) assms(2) [unfolded csp_rdp_queue_tx_get_def]]
  by (auto simp: set_rdp_tx_def)

lemma rx_get_acct:
  assumes "acct M s" "csp_rdp_queue_rx_get c s = (r, t)"
  shows "acct (case r of None \<Rightarrow> M | Some p \<Rightarrow> add_mset p M) t" "pkt t h = pkt s h"
    "r = Some p \<Longrightarrow> pconn (pkt t p) = Some c" "\<exists>q. t = s\<lparr>rdp_rx := q\<rparr>"
  using rx_queue.get_loop_acct [OF assms(1) assms(2) [unfolded csp_rdp_queue_rx_get_def]]
  by (auto simp: set_rdp_rx_def)

lemma queue_flush_spec:
  fixes c :: "nat option"
  assumes "acct M s"
  defines "t \<equiv> csp_rdp_queue_flush c s" and "keep \<equiv> \<lambda>p. c \<noteq> None \<and> c \<noteq> pconn (pkt s p)"
  shows "acct M t" "queue_list (rdp_tx t) = filter keep (queue_list (rdp_tx s))"
    "queue_list (rdp_rx t) = filter keep (queue_list (rdp_rx s))"
    "\<exists>q r. csp_pool.more t = csp_pool.more (s\<lparr>rdp_tx := q, rdp_rx := r\<rparr>)" "pkt t h = pkt s h"
proof -
  define u where "u = flush_loop rdp_tx set_rdp_tx (csp_queue_size (rdp_tx s)) c s"
  have size: "csp_queue_size (rdp_tx s) = length (queue_list (rdp_tx s))"
    by (rule ring.qlen_eq [OF acct_queue_inv(2) [OF assms(1)]])
  note f = tx_queue.flush_loop_spec [OF assms(1) append_Nil2 [symmetric] size, of c, folded u_def]
  have t: "t = flush_loop rdp_rx set_rdp_rx (csp_queue_size (rdp_rx u)) c u"
    by (simp add: t_def csp_rdp_queue_flush_def u_def Let_def)
  have size_u: "csp_queue_size (rdp_rx u) = length (queue_list (rdp_rx u))"
    by (rule ring.qlen_eq [OF acct_queue_inv(3) [OF f(1)]])
  note g = rx_queue.flush_loop_spec [OF f(1) append_Nil2 [symmetric] size_u, of c, folded t]
  obtain q where q: "csp_pool.more u = csp_pool.more (set_rdp_tx q s)" using f(4) by blast
  obtain r where r: "csp_pool.more t = csp_pool.more (set_rdp_rx r u)" using g(4) by blast
  have more: "csp_pool.more t = csp_pool.more (s\<lparr>rdp_tx := q, rdp_rx := r\<rparr>)"
    using q r by (cases s, cases u, cases t) (simp add: set_rdp_tx_def set_rdp_rx_def)
  have "rdp_rx u = rdp_rx s" using more_fields(5) [OF q] by (simp add: set_rdp_tx_def)
  moreover have "rdp_tx t = rdp_tx u" using more_fields(4) [OF r] by (simp add: set_rdp_rx_def)
  ultimately show "queue_list (rdp_tx t) = filter keep (queue_list (rdp_tx s))"
    "queue_list (rdp_rx t) = filter keep (queue_list (rdp_rx s))"
    using f(3) g(3) by (simp_all add: f(2) keep_def)
  show "acct M t" by (rule g(1))
  show "\<exists>q r. csp_pool.more t = csp_pool.more (s\<lparr>rdp_tx := q, rdp_rx := r\<rparr>)" using more by blast
  show "pkt t h = pkt s h" using f(2) g(2) by simp
qed

section \<open>Properties\<close>

text \<open>\<open>csp_rdp_queue_tx_get\<close> returns the oldest sent packet of the connection if there is one,
  and leaves exactly the other packets in the queue: no packet is lost, released or
  changed, also none of another connection, although the loop takes every packet out of the queue
  until it finds one. Without a packet of the connection it returns \<open>NULL\<close> and the
  queue has the same packets in the same order.\<close>

theorem csp_rdp_queue_tx_get_oldest:
  assumes "acct M s" "csp_rdp_queue_tx_get c s = (r, t)"
  shows "acct (case r of None \<Rightarrow> M | Some p \<Rightarrow> add_mset p M) t \<and> (\<forall>h. pkt t h = pkt s h) \<and>
    r = find (\<lambda>p. pconn (pkt s p) = Some c) (queue_list (rdp_tx s)) \<and>
    (case r of None \<Rightarrow> queue_list (rdp_tx t) = queue_list (rdp_tx s)
     | Some p \<Rightarrow> mset (queue_list (rdp_tx t)) = mset (queue_list (rdp_tx s)) - {#p#})"
proof -
  let ?L = "queue_list (rdp_tx s)" and ?P = "\<lambda>p. pconn (pkt s p) = Some c"
  have inv: "queue_inv (rdp_tx s)" by (rule acct_queue_inv(2) [OF assms(1)])
  have loop: "get_loop rdp_tx set_rdp_tx (length ?L) c s = (r, t)"
    using assms(2) ring.qlen_eq [OF inv] by (simp add: csp_rdp_queue_tx_get_def)
  obtain q where q: "if \<exists>p \<in> set ?L. ?P p
     then \<exists>us p vs. ?L = us @ p # vs \<and> (\<forall>u \<in> set us. \<not> ?P u) \<and> ?P p \<and>
       (r, t) = (Some p, set_rdp_tx q s) \<and> queue_list q = vs @ us
     else (r, t) = (None, set_rdp_tx q s) \<and> queue_list q = ?L"
    using tx_queue.get_loop_spec [OF inv append_Nil2 [symmetric] refl, of c]
    by (simp only: loop append_Nil append_Nil2) blast
  have "r = find ?P ?L \<and> (case r of None \<Rightarrow> queue_list (rdp_tx t) = ?L
     | Some p \<Rightarrow> mset (queue_list (rdp_tx t)) = mset ?L - {#p#})"
  proof (cases "\<exists>p \<in> set ?L. ?P p")
    case True
    then obtain us p vs where g: "?L = us @ p # vs" "\<forall>u \<in> set us. \<not> ?P u" "?P p" "r = Some p"
      "t = set_rdp_tx q s" "queue_list q = vs @ us" using q by auto
    have "filter ?P us = []" using g(2) by (simp add: filter_empty_conv)
    then have "find ?P ?L = Some p" using g(1,3) by (simp add: find_eq_filter)
    then show ?thesis using g(1,4-6) by (simp add: set_rdp_tx_def)
  next
    case False
    then have "r = None" "t = set_rdp_tx q s" "queue_list q = ?L" using q by auto
    moreover have "find ?P ?L = None" using False by (simp add: find_None_iff)
    ultimately show ?thesis by (simp add: set_rdp_tx_def)
  qed
  then show ?thesis using tx_get_acct(1,2) [OF assms] by blast
qed

text \<open>\<open>csp_rdp_queue_flush\<close> releases exactly the packets of the connection (of all connections,
  for \<open>NULL\<close>) from both queues, each once, and keeps the packets of the other connections in
  their order.\<close>

theorem csp_rdp_queue_flush_exact:
  assumes "acct M s"
  shows "acct M (csp_rdp_queue_flush c s) \<and>
    queue_list (rdp_tx (csp_rdp_queue_flush c s)) =
      filter (\<lambda>p. c \<noteq> None \<and> c \<noteq> pconn (pkt s p)) (queue_list (rdp_tx s)) \<and>
    queue_list (rdp_rx (csp_rdp_queue_flush c s)) =
      filter (\<lambda>p. c \<noteq> None \<and> c \<noteq> pconn (pkt s p)) (queue_list (rdp_rx s))"
  using queue_flush_spec [OF assms, of c] by blast

text \<open>A node whose only packet waits for an acknowledgment on connection 3.\<close>

definition rdp_ex :: csp_state where
  "rdp_ex = csp_rdp_queue_tx_add 3 0 node_ex"

lemma rdp_ex_acct: "acct {#} rdp_ex"
  unfolding rdp_ex_def using node_ex_acct by (rule tx_add_acct)

lemma rdp_ex_queue: "queue_list (rdp_tx rdp_ex) = [0]" "pconn (pkt rdp_ex 0) = Some 3"
proof -
  have "csp_queue_enqueue 0 (rdp_tx node_ex) =
      (CSP_QUEUE_OK, \<lparr>qbuffer = [0, 0], qsize = 2, qitems = 1, q_in = 1, q_out = 0\<rparr>)"
    by (simp add: node_ex_def csp_queue_enqueue_def pthread_queue_enqueue_def)
  then have eq: "rdp_ex = (set_pkt 0 ((pkt node_ex 0)\<lparr>pconn := Some 3\<rparr>) node_ex)
      \<lparr>rdp_tx := \<lparr>qbuffer = [0, 0], qsize = 2, qitems = 1, q_in = 1, q_out = 0\<rparr>\<rparr>"
    by (simp add: rdp_ex_def csp_rdp_queue_tx_add_def requeue_def set_pkt_def set_rdp_tx_def)
  show "queue_list (rdp_tx rdp_ex) = [0]" by (simp add: eq queue_list_def)
  show "pconn (pkt rdp_ex 0) = Some 3" by (simp add: eq set_pkt_def pkt_def node_ex_def)
qed

end
