(* ===== verification/Csp_Rdp.thy ===== *)
theory Csp_Rdp
  imports Csp_Rdp_Queue
begin

text \<open>
  The Reliable Datagram Protocol, \<open>src/csp_rdp.c\<close>: header access, sequence number and
  time comparisons, control messages, reception, acknowledgment, retransmission, the
  state machine and the blocking calls. \<open>csp_conn_enqueue_packet\<close>, \<open>csp_conn_flush_rx_queue\<close> and
  \<open>csp_conn_close\<close> of \<open>src/csp_conn.c\<close> are here too, as the two modules call each other.

  The header is the packed structure of flags, sequence and acknowledgment number in the last
  five bytes of the payload; on reception the two numbers are converted in place
  to the byte order of the host, which is little-endian.
\<close>

section \<open>Header and comparisons\<close>

definition RDP_SYN :: u8 where "RDP_SYN = 0x08"
definition RDP_ACK :: u8 where "RDP_ACK = 0x04"
definition RDP_EAK :: u8 where "RDP_EAK = 0x02"
definition RDP_RST :: u8 where "RDP_RST = 0x01"

definition CSP_RDP_CLOSED_BY_USERSPACE :: u8 where "CSP_RDP_CLOSED_BY_USERSPACE = 0x01"
definition CSP_RDP_CLOSED_BY_PROTOCOL :: u8 where "CSP_RDP_CLOSED_BY_PROTOCOL = 0x02"
definition CSP_RDP_CLOSED_BY_TIMEOUT :: u8 where "CSP_RDP_CLOSED_BY_TIMEOUT = 0x04"
definition CSP_RDP_CLOSED_BY_ALL :: u8 where "CSP_RDP_CLOSED_BY_ALL = 0x07"

definition CSP_RDP_HEADER_SIZE :: nat where "CSP_RDP_HEADER_SIZE = 5"

definition CSP_PRIO_HIGH :: u8 where "CSP_PRIO_HIGH = 1"

text \<open>\<open>NULL\<close> if the header does not fit, else the packet with a zeroed header behind the payload.\<close>

definition csp_rdp_header_add :: "csp_packet \<Rightarrow> csp_packet option" where
  "csp_rdp_header_add p =
     (if unat (plength p) + CSP_RDP_HEADER_SIZE > CSP_BUFFER_SIZE then None
      else Some (p\<lparr>pmem := mwrite (data_at (unat (plength p))) (replicate CSP_RDP_HEADER_SIZE 0) (pmem p),
                   plength := plength p + 5\<rparr>))"

definition csp_rdp_header_remove :: "csp_packet \<Rightarrow> csp_packet" where
  "csp_rdp_header_remove p = p\<lparr>plength := plength p - 5\<rparr>"

text \<open>The position \<open>csp_rdp_header_ref\<close> points to. For a payload shorter than the header it lies
  in the header area in front of the payload.\<close>

definition csp_rdp_header_ref :: "csp_packet \<Rightarrow> nat" where
  "csp_rdp_header_ref p = data_at (unat (plength p)) - CSP_RDP_HEADER_SIZE"

definition hdr_flags :: "csp_packet \<Rightarrow> u8" where
  "hdr_flags p = pmem p ! csp_rdp_header_ref p"

definition hdr_seq_be :: "csp_packet \<Rightarrow> u16" where
  "hdr_seq_be p = be16_dec (mread (csp_rdp_header_ref p + 1) 2 (pmem p))"

definition hdr_ack_be :: "csp_packet \<Rightarrow> u16" where
  "hdr_ack_be p = be16_dec (mread (csp_rdp_header_ref p + 3) 2 (pmem p))"

definition hdr_seq_host :: "csp_packet \<Rightarrow> u16" where
  "hdr_seq_host p = be16_dec (rev (mread (csp_rdp_header_ref p + 1) 2 (pmem p)))"

definition hdr_write :: "u8 \<Rightarrow> u16 \<Rightarrow> u16 \<Rightarrow> csp_packet \<Rightarrow> csp_packet" where
  "hdr_write fl seq ack p =
     p\<lparr>pmem := mwrite (csp_rdp_header_ref p) (fl # be16_enc seq @ be16_enc ack) (pmem p)\<rparr>"

definition hdr_set_ack :: "u16 \<Rightarrow> csp_packet \<Rightarrow> csp_packet" where
  "hdr_set_ack ack p = p\<lparr>pmem := mwrite (csp_rdp_header_ref p + 3) (be16_enc ack) (pmem p)\<rparr>"

text \<open>The conversion in place at reception.\<close>

definition hdr_to_host :: "csp_packet \<Rightarrow> csp_packet" where
  "hdr_to_host p =
     p\<lparr>pmem := mwrite (csp_rdp_header_ref p + 1)
         (rev (be16_enc (hdr_seq_be p)) @ rev (be16_enc (hdr_ack_be p))) (pmem p)\<rparr>"

definition csp_rdp_seq_between :: "u16 \<Rightarrow> u16 \<Rightarrow> u16 \<Rightarrow> bool" where
  "csp_rdp_seq_between seq start end' \<longleftrightarrow> end' - start \<ge> seq - start"

definition csp_rdp_seq_before :: "u16 \<Rightarrow> u16 \<Rightarrow> bool" where
  "csp_rdp_seq_before seq cmp \<longleftrightarrow> sint (seq - cmp) < 0"

definition csp_rdp_seq_after :: "u16 \<Rightarrow> u16 \<Rightarrow> bool" where
  "csp_rdp_seq_after seq cmp = csp_rdp_seq_before cmp seq"

definition csp_rdp_time_before :: "u32 \<Rightarrow> u32 \<Rightarrow> bool" where
  "csp_rdp_time_before time cmp \<longleftrightarrow> sint (time - cmp) < 0"

definition csp_rdp_time_after :: "u32 \<Rightarrow> u32 \<Rightarrow> bool" where
  "csp_rdp_time_after time cmp = csp_rdp_time_before cmp time"

section \<open>Control messages\<close>

text \<open>The transmission of a control message, with high priority.\<close>

definition cmp_transmit :: "nat \<Rightarrow> nat \<Rightarrow> u8 \<Rightarrow> u16 \<Rightarrow> csp_state \<Rightarrow> csp_state" where
  "cmp_transmit c packet fl ack_nr s =
     (let idout = (cidout (conn s c))
            \<lparr>pri := (if pri (cidout (conn s c)) < CSP_PRIO_HIGH then pri (cidout (conn s c)) else CSP_PRIO_HIGH)\<rparr>;
          s = snd (csp_send_direct idout (Some packet) None s)
      in if fl AND RDP_ACK \<noteq> 0
         then upd_rdp c (\<lambda>r. r\<lparr>rcv_lsa := ack_nr, ack_timestamp := now s\<rparr>) s else s)"

text \<open>The part of \<open>csp_rdp_send_cmp\<close> behind the allocation.\<close>

definition send_cmp_packet :: "nat \<Rightarrow> nat \<Rightarrow> u8 \<Rightarrow> u16 \<Rightarrow> u16 \<Rightarrow> csp_state \<Rightarrow> int \<times> csp_state" where
  "send_cmp_packet c packet fl seq_nr ack_nr s =
     (case csp_rdp_header_add (pkt s packet) of
        None \<Rightarrow> (CSP_ERR_NOMEM, csp_buffer_free (Some packet) s)
      | Some p \<Rightarrow>
          let p = hdr_write (push_bit 4 (rdp_incr s) OR fl) seq_nr ack_nr p;
              s = (set_pkt packet p s)\<lparr>rdp_incr := rdp_incr s + 1\<rparr>
          in if fl AND RDP_SYN \<noteq> 0
             then (case csp_buffer_clone (Some packet) s of
                     (None, s) \<Rightarrow> (CSP_ERR_NOMEM, s)
                   | (Some rdp_packet, s) \<Rightarrow>
                       let s = set_pkt rdp_packet ((pkt s rdp_packet)\<lparr>timestamp_tx := now s\<rparr>) s;
                           s = csp_rdp_queue_tx_add c rdp_packet s
                       in (CSP_ERR_NONE, cmp_transmit c packet fl ack_nr s))
             else (CSP_ERR_NONE, cmp_transmit c packet fl ack_nr s))"

definition csp_rdp_send_cmp :: "nat \<Rightarrow> nat option \<Rightarrow> u8 \<Rightarrow> u16 \<Rightarrow> u16 \<Rightarrow> csp_state \<Rightarrow> int \<times> csp_state" where
  "csp_rdp_send_cmp c packet fl seq_nr ack_nr s =
     (case packet of
        Some p \<Rightarrow> send_cmp_packet c p fl seq_nr ack_nr s
      | None \<Rightarrow>
          (case csp_buffer_get s of
             (None, s) \<Rightarrow> (CSP_ERR_NOMEM, s)
           | (Some p, s) \<Rightarrow>
               send_cmp_packet c p fl seq_nr ack_nr (set_pkt p ((pkt s p)\<lparr>plength := 0\<rparr>) s)))"

definition syn_payload :: "rdp_opts \<Rightarrow> byte list" where
  "syn_payload o' = be32_enc (csp_rdp_window_size o') @ be32_enc (csp_rdp_conn_timeout o') @
     be32_enc (csp_rdp_packet_timeout o') @ be32_enc (csp_rdp_delayed_acks o') @
     be32_enc (csp_rdp_ack_timeout o') @ be32_enc (csp_rdp_ack_delay_count o')"

definition csp_rdp_send_syn :: "nat \<Rightarrow> csp_state \<Rightarrow> int \<times> csp_state" where
  "csp_rdp_send_syn c s =
     (case csp_buffer_get s of
        (None, s) \<Rightarrow> (CSP_ERR_NOMEM, s)
      | (Some p, s) \<Rightarrow>
          let s = set_pkt p ((pkt s p)\<lparr>pmem := mwrite (data_at 0) (syn_payload (rdp_dfl s)) (pmem (pkt s p)),
                                       plength := 24\<rparr>) s
          in csp_rdp_send_cmp c (Some p) RDP_SYN (snd_iss (rdp (conn s c))) 0 s)"

section \<open>Reception\<close>

definition csp_conn_enqueue_packet :: "nat \<Rightarrow> nat option \<Rightarrow> csp_state \<Rightarrow> int \<times> csp_state" where
  "csp_conn_enqueue_packet c packet s =
     (case csp_queue_enqueue packet (rx_queue (conn s c)) of
        (e, q) \<Rightarrow>
          let s = upd_conn c (\<lambda>k. k\<lparr>rx_queue := q\<rparr>) s
          in if e \<noteq> CSP_QUEUE_OK then (CSP_ERR_NOMEM, conn_ovf_inc s) else (CSP_ERR_NONE, s))"

definition csp_rdp_receive_data :: "nat \<Rightarrow> nat \<Rightarrow> csp_state \<Rightarrow> int \<times> csp_state" where
  "csp_rdp_receive_data c packet s =
     (let s = set_pkt packet (csp_rdp_header_remove (pkt s packet)) s
      in case csp_conn_enqueue_packet c (Some packet) s of
           (e, s) \<Rightarrow> if e < 0 then (CSP_ERR_NOBUFS, conn_ovf_inc s) else (CSP_ERR_NONE, s))"

text \<open>The \<open>for\<close> loop of \<open>csp_rdp_rx_queue_flush\<close>; the first result tells that the code jumps back to
  \<open>front\<close>.\<close>

fun rx_flush_for :: "nat \<Rightarrow> nat \<Rightarrow> csp_state \<Rightarrow> bool \<times> csp_state" where
  "rx_flush_for 0 c s = (False, s)"
| "rx_flush_for (Suc n) c s =
     (if csp_queue_free (rx_queue (conn s c)) \<le> 2 then (False, s)
      else case csp_rdp_queue_rx_get c s of
        (None, s) \<Rightarrow> (False, s)
      | (Some p, s) \<Rightarrow>
          if hdr_seq_host (pkt s p) = rcv_cur (rdp (conn s c)) + 1
          then (case csp_rdp_receive_data c p s of
                  (e, s) \<Rightarrow>
                    let s = (if e \<noteq> CSP_ERR_NONE then csp_buffer_free (Some p) s else s)
                    in (True, upd_rdp c (\<lambda>r. r\<lparr>rcv_cur := rcv_cur r + 1\<rparr>) s))
          else rx_flush_for n c (csp_rdp_queue_rx_add c p s))"

text \<open>Every jump back has taken a packet out of the queue, so its size bounds their number.\<close>

fun rx_flush_front :: "nat \<Rightarrow> nat \<Rightarrow> csp_state \<Rightarrow> csp_state" where
  "rx_flush_front 0 c s = s"
| "rx_flush_front (Suc n) c s =
     (case rx_flush_for (csp_rdp_queue_rx_size s) c s of
        (again, s) \<Rightarrow> if again then rx_flush_front n c s else s)"

definition csp_rdp_rx_queue_flush :: "nat \<Rightarrow> csp_state \<Rightarrow> csp_state" where
  "csp_rdp_rx_queue_flush c s = rx_flush_front (Suc (csp_rdp_queue_rx_size s)) c s"

fun seq_in_rx_loop :: "nat \<Rightarrow> nat \<Rightarrow> u16 \<Rightarrow> csp_state \<Rightarrow> bool \<times> csp_state" where
  "seq_in_rx_loop 0 c seq_nr s = (False, s)"
| "seq_in_rx_loop (Suc n) c seq_nr s =
     (case csp_rdp_queue_rx_get c s of
        (None, s) \<Rightarrow> (False, s)
      | (Some p, s) \<Rightarrow>
          let s = csp_rdp_queue_rx_add c p s
          in if hdr_seq_host (pkt s p) = seq_nr then (True, s) else seq_in_rx_loop n c seq_nr s)"

definition csp_rdp_seq_in_rx_queue :: "nat \<Rightarrow> u16 \<Rightarrow> csp_state \<Rightarrow> bool \<times> csp_state" where
  "csp_rdp_seq_in_rx_queue c seq_nr s = seq_in_rx_loop (csp_rdp_queue_rx_size s) c seq_nr s"

definition csp_rdp_rx_queue_add :: "nat \<Rightarrow> nat \<Rightarrow> u16 \<Rightarrow> csp_state \<Rightarrow> int \<times> csp_state" where
  "csp_rdp_rx_queue_add c packet seq_nr s =
     (case csp_rdp_seq_in_rx_queue c seq_nr s of
        (True, s) \<Rightarrow> (-1, s)
      | (False, s) \<Rightarrow> (0, csp_rdp_queue_rx_add c packet s))"

section \<open>Acknowledgment\<close>

definition csp_rdp_should_ack :: "nat \<Rightarrow> csp_state \<Rightarrow> bool" where
  "csp_rdp_should_ack c s =
     (let r = rdp (conn s c)
      in if delayed_acks r = 0 then True
         else if csp_rdp_time_after (now s) (ack_timestamp r + ack_timeout r) then True
         else csp_rdp_seq_after (rcv_cur r) (ucast (ucast (rcv_lsa r) + ack_delay_count r)))"

definition csp_rdp_check_ack :: "nat \<Rightarrow> csp_state \<Rightarrow> int \<times> csp_state" where
  "csp_rdp_check_ack c s =
     (if int CSP_CONN_RXQUEUE_LEN - int (csp_queue_size (rx_queue (conn s c))) \<le> 2 * sint (window_size (rdp (conn s c)))
      then (CSP_ERR_NONE, s)
      else if csp_rdp_should_ack c s
      then (CSP_ERR_NONE, snd (csp_rdp_send_cmp c None RDP_ACK (snd_nxt (rdp (conn s c))) (rcv_cur (rdp (conn s c))) s))
      else (CSP_ERR_NONE, s))"

definition csp_rdp_is_conn_ready_for_tx :: "nat \<Rightarrow> csp_state \<Rightarrow> bool" where
  "csp_rdp_is_conn_ready_for_tx c s =
     (let r = rdp (conn s c)
      in \<not> csp_rdp_seq_after (snd_nxt r) (ucast (ucast (snd_una r) + window_size r - 1)))"

section \<open>Closing\<close>

definition csp_rdp_close_internal :: "nat \<Rightarrow> u8 \<Rightarrow> bool \<Rightarrow> csp_state \<Rightarrow> int \<times> csp_state" where
  "csp_rdp_close_internal c by' send_rst s =
     (if rdp_st (rdp (conn s c)) = RDP_CLOSED then (CSP_ERR_NONE, s)
      else
        let s = upd_rdp c (\<lambda>r. r\<lparr>closed_by := closed_by r OR by'\<rparr>) s;
            s = (if rdp_st (rdp (conn s c)) \<noteq> RDP_CLOSE_WAIT
                 then
                   let s = upd_conn c (\<lambda>k. k\<lparr>rdp := (rdp k)\<lparr>rdp_st := RDP_CLOSE_WAIT\<rparr>, ctimestamp := now s\<rparr>) s;
                       s = (if send_rst
                            then snd (csp_rdp_send_cmp c None (RDP_ACK OR RDP_RST)
                              (snd_nxt (rdp (conn s c))) (rcv_cur (rdp (conn s c))) s)
                            else s)
                   in sem_post c s
                 else s)
        in if closed_by (rdp (conn s c)) \<noteq> CSP_RDP_CLOSED_BY_ALL then (CSP_ERR_AGAIN, s)
           else (CSP_ERR_NONE, upd_rdp c (\<lambda>r. r\<lparr>rdp_st := RDP_CLOSED, closed_by := 0\<rparr>) s))"

definition csp_rdp_close :: "nat \<Rightarrow> u8 \<Rightarrow> csp_state \<Rightarrow> int \<times> csp_state" where
  "csp_rdp_close c by' s = csp_rdp_close_internal c by' True s"

text \<open>The loop of \<open>csp_conn_flush_rx_queue\<close>, at most the length of the queue.\<close>

fun conn_flush_loop :: "nat \<Rightarrow> nat \<Rightarrow> csp_state \<Rightarrow> csp_state" where
  "conn_flush_loop 0 c s = s"
| "conn_flush_loop (Suc n) c s =
     (case csp_queue_dequeue (rx_queue (conn s c)) of
        (None, _) \<Rightarrow> s
      | (Some p, q) \<Rightarrow> conn_flush_loop n c (csp_buffer_free p (upd_conn c (\<lambda>k. k\<lparr>rx_queue := q\<rparr>) s)))"

definition csp_conn_flush_rx_queue :: "nat \<Rightarrow> csp_state \<Rightarrow> csp_state" where
  "csp_conn_flush_rx_queue c s = conn_flush_loop (csp_queue_size (rx_queue (conn s c))) c s"

definition csp_conn_close :: "nat option \<Rightarrow> u8 \<Rightarrow> csp_state \<Rightarrow> int \<times> csp_state" where
  "csp_conn_close conn' by' s =
     (case conn' of None \<Rightarrow> (CSP_ERR_NONE, s)
      | Some c \<Rightarrow>
          if cstate (conn s c) = CONN_CLOSED then (CSP_ERR_NONE, set_errno CSP_DBG_ERR_ALREADY_CLOSED s)
          else
            let (e, s) =
              (if flags (cidin (conn s c)) AND CSP_FRDP \<noteq> 0 \<or> flags (cidout (conn s c)) AND CSP_FRDP \<noteq> 0
               then csp_rdp_close c by' s else (CSP_ERR_NONE, s))
            in if e = CSP_ERR_AGAIN then (CSP_ERR_NONE, s)
               else
                 let s = csp_conn_flush_rx_queue c s;
                     s = (if flags (cidin (conn s c)) AND CSP_FRDP \<noteq> 0 then csp_rdp_queue_flush (Some c) s else s)
                 in (CSP_ERR_NONE, upd_conn c (\<lambda>k. k\<lparr>cstate := CONN_CLOSED\<rparr>) s))"

definition csp_close :: "nat option \<Rightarrow> csp_state \<Rightarrow> int \<times> csp_state" where
  "csp_close conn' s = csp_conn_close conn' CSP_RDP_CLOSED_BY_USERSPACE s"

section \<open>Packets kept while sending\<close>

text \<open>Every loop of \<open>csp_send_direct\<close> is a sequence of sent copies.\<close>

inductive copies :: "nat \<Rightarrow> csp_state \<Rightarrow> csp_state \<Rightarrow> bool" for h where
  copies_refl: "copies h s s"
| copies_step: "copies h (send_copy idout (Some h) i via from_me s) t \<Longrightarrow> copies h s t"
| copies_fault: "copies h s (s\<lparr>fault := True\<rparr>)"

lemma subnet_loop_copies:
  "copies h s (snd (send_subnet_loop n idout idout' (Some h) from ifc found s))"
proof (induction n arbitrary: idout' "from" ifc found s)
  case (Suc n)
  show ?case
    by (cases "csp_iflist_get_by_subnet (conf_version s) (iflist s) (dst idout) ifc")
      (auto simp: Let_def intro: copies_refl Suc.IH copies_step)
qed (simp add: copies_refl)

lemma default_loop_copies:
  "copies h s (snd (send_default_loop n idout (Some h) from ifc s))"
proof (induction n arbitrary: idout "from" ifc s)
  case (Suc n)
  show ?case
    by (cases "csp_iflist_get_by_isdfl (iflist s) ifc")
      (auto simp: Let_def intro: copies_refl Suc.IH copies_step)
qed (simp add: copies_refl)

lemma route_loop_copies:
  "copies h s (snd (send_route_loop n idout (Some h) from route s))"
proof (induction n arbitrary: idout "from" route s)
  case (Suc n)
  show ?case
  proof (cases route)
    case (Some r)
    then show ?thesis
      by (cases "rt_iface (rtable (rtab s) ! r)")
        (auto simp: Let_def intro: copies_refl copies_fault Suc.IH copies_step)
  qed (simp add: copies_refl)
qed (simp add: copies_refl)

text \<open>The buffers in the queues of RDP and of the connections stay as they are.\<close>

definition kept :: "csp_state \<Rightarrow> nat multiset" where
  "kept s = mset (queue_list (rdp_tx s)) + mset (queue_list (rdp_rx s)) + (\<Sum>c \<leftarrow> conns s. conn_owned c)"

lemma kept_frame: "net_frame s t \<Longrightarrow> kept t = kept s"
  by (simp add: kept_def net_frame_def)

lemma kept_allocated: "acct M s \<Longrightarrow> h \<in># M + kept s \<Longrightarrow> h \<in> allocated s"
  by (auto simp: acct_allocated owned_def kept_def)

lemma copies_pkt:
  assumes "copies h s t" "acct M s" "h \<in># M" "h' \<in># M + kept s"
  shows "pkt t h' = pkt s h'"
  using assms
proof (induction rule: copies.induct)
  case (copies_step idout i via from_me s t)
  note sc = send_copy_spec [OF copies_step.prems(1,2), where idout = idout and i = i and via = via and from_me = from_me]
  have h': "h' \<in># M + kept (send_copy idout (Some h) i via from_me s)"
    using copies_step.prems(3) kept_frame [OF sc(2)] by simp
  have "pkt (send_copy idout (Some h) i via from_me s) h' = pkt s h'"
    by (rule sc(4)) (rule kept_allocated [OF copies_step.prems(1,3)])
  then show ?case using copies_step.IH [OF sc(1) copies_step.prems(2) h'] by simp
qed simp_all

lemma send_direct_pkt:
  assumes "acct (add_mset h M) s" "h' \<in># M + kept s"
  shows "pkt (snd (csp_send_direct idout (Some h) from s)) h' = pkt s h'"
proof -
  define n where "n = Suc (length (interfaces (iflist s)))"
  obtain found s1 where l1: "send_subnet_loop n idout idout (Some h) from None False s = (found, s1)"
    by (rule prod.exhaust)
  have c1: "copies h s s1" using subnet_loop_copies [of h s n idout idout "from" None False] l1 by simp
  have a1: "acct (add_mset h M) s1" "net_frame s s1"
    using subnet_loop_acct [OF assms(1) _ l1] by simp_all
  have p1: "pkt s1 h' = pkt s h'" using copies_pkt [OF c1 assms(1)] assms(2) by auto
  have k1: "h' \<in># add_mset h M + kept s1" using assms(2) kept_frame [OF a1(2)] by auto
  have free: "pkt (csp_buffer_free (Some h) t) h' = pkt s h'"
    if "copies h s1 t" "acct (add_mset h M) t" for t
    using copies_pkt [OF that(1) a1(1) _ k1] acct_free(3) [OF that(2)] p1 by simp
  show ?thesis
  proof (cases found)
    case True
    then show ?thesis using l1 free [OF copies_refl a1(1)] by (simp add: csp_send_direct_def n_def [symmetric])
  next
    case False
    note step = csp_send_direct_def [of idout "Some h" "from" s, folded n_def, unfolded Let_def l1 prod.case]
    show ?thesis
    proof (cases "csp_rtable_find_route (conf_version s1) (rtab s1) (dst idout)")
      case None
      obtain i2 s2 where l2: "send_default_loop n idout (Some h) from None s1 = (i2, s2)" by (rule prod.exhaust)
      have "copies h s1 s2" using default_loop_copies [of h s1 n idout "from" None] l2 by simp
      then show ?thesis
        using free default_loop_acct [OF a1(1) _ l2] False None l2
        by (auto simp: csp_send_direct_def Let_def n_def [symmetric] l1)
    next
      case (Some r)
      obtain i2 s2 where l2: "send_route_loop (Suc r) idout (Some h) from (Some r) s1 = (i2, s2)" by (rule prod.exhaust)
      have "copies h s1 s2" using route_loop_copies [of h s1 "Suc r" idout "from" "Some r"] l2 by simp
      then have "pkt (csp_buffer_free (Some h) s2) h' = pkt s h'"
        using free route_loop_acct [OF a1(1) _ l2] by simp
      then show ?thesis unfolding step using False Some l2 by (simp del: send_route_loop.simps)
    qed
  qed
qed

section \<open>Header lemmas\<close>

text \<open>The header lies inside the memory of the packet for every length.\<close>

lemma header_ref_range: "packet_wf p \<Longrightarrow> csp_rdp_header_ref p + 5 \<le> length (pmem p)"
  "csp_rdp_header_ref p + 5 = data_at (unat (plength p))"
  by (simp_all add: csp_rdp_header_ref_def packet_wf_def data_at_def csp_config_defs CSP_RDP_HEADER_SIZE_def)

lemma header_wf [simp]:
  assumes "packet_wf p"
  shows "packet_wf (hdr_write fl seq ack p)" "packet_wf (hdr_set_ack ack p)" "packet_wf (hdr_to_host p)"
    "plength (hdr_write fl seq ack p) = plength p" "plength (hdr_set_ack ack p) = plength p"
    "plength (hdr_to_host p) = plength p"
  using header_ref_range(1) [OF assms] assms
  by (auto simp: hdr_write_def hdr_set_ack_def hdr_to_host_def intro!: packet_wf_pmemI)

lemma unat_plength_add_5:
  assumes "unat (w :: u16) + 5 \<le> CSP_BUFFER_SIZE" shows "unat (w + 5) = unat w + 5"
proof -
  have "unat w + unat (5 :: u16) < 2 ^ LENGTH(16)" using assms by (simp add: CSP_BUFFER_SIZE_def)
  then show ?thesis using unat_add_lem [of w 5] by simp
qed

lemma header_add_Some:
  assumes "packet_wf p" "csp_rdp_header_add p = Some p'"
  shows "packet_wf p'" "unat (plength p') = unat (plength p) + 5" "pid p' = pid p" "pconn p' = pconn p"
    "pdata p' = pdata p @ replicate 5 0"
proof -
  have le: "unat (plength p) + 5 \<le> CSP_BUFFER_SIZE"
    and p': "p' = p\<lparr>pmem := mwrite (data_at (unat (plength p))) (replicate 5 0) (pmem p), plength := plength p + 5\<rparr>"
    using assms(2) by (auto simp: csp_rdp_header_add_def CSP_RDP_HEADER_SIZE_def split: if_splits)
  have fit: "data_at (unat (plength p)) + 5 \<le> length (pmem p)"
    using assms(1) le by (simp add: packet_wf_def data_at_def)
  show u: "unat (plength p') = unat (plength p) + 5" using unat_plength_add_5 [OF le] p' by simp
  show "packet_wf p'" using assms(1) fit le u by (simp add: packet_wf_def p')
  show "pid p' = pid p" "pconn p' = pconn p" by (simp_all add: p')
  have "pdata p' = mread (data_at 0) (unat (plength p)) (pmem p') @ mread (data_at (unat (plength p))) 5 (pmem p')"
    using fit mread_append_split [of "data_at 0" "unat (plength p)" 5 "pmem p'"] u
    by (simp add: pdata_def data_at_def p')
  then show "pdata p' = pdata p @ replicate 5 0"
    using fit by (simp add: p' pdata_def mread_mwrite_disjoint mread_mwrite_same data_at_def)
qed

lemma header_bytes:
  assumes "packet_wf p" "mread (csp_rdp_header_ref p) 5 (pmem p) = fl # be16_enc seq @ be16_enc ack"
  shows "hdr_flags p = fl" "hdr_seq_be p = seq" "hdr_ack_be p = ack"
proof -
  let ?r = "csp_rdp_header_ref p"
  note fit = header_ref_range(1) [OF assms(1)]
  have at: "pmem p ! (?r + j) = (fl # be16_enc seq @ be16_enc ack) ! j" if "j < 5" for j
    using arg_cong [OF assms(2), of "\<lambda>xs. xs ! j"] that fit by simp
  show "hdr_flags p = fl" using at [of 0] by (simp add: hdr_flags_def)
  have two: "mread (?r + k) 2 (pmem p) = be16_enc w"
    if "pmem p ! (?r + k) = be16_enc w ! 0" "pmem p ! (?r + (k + 1)) = be16_enc w ! 1" "k + 2 \<le> 5" for k w
    using that fit by (intro nth_equalityI) (auto simp: less_2_cases_iff)
  have "mread (?r + 1) 2 (pmem p) = be16_enc seq" "mread (?r + 3) 2 (pmem p) = be16_enc ack"
    by (rule two; use at [of 1] at [of 2] at [of 3] at [of 4] in \<open>simp add: nth_append eval_nat_numeral\<close>)+
  then show "hdr_seq_be p = seq" "hdr_ack_be p = ack" by (simp_all add: hdr_seq_be_def hdr_ack_be_def)
qed

lemma header_read_back:
  assumes "packet_wf p"
  shows "hdr_flags (hdr_write fl seq ack p) = fl" "hdr_seq_be (hdr_write fl seq ack p) = seq"
    "hdr_ack_be (hdr_write fl seq ack p) = ack"
proof -
  have ref: "csp_rdp_header_ref (hdr_write fl seq ack p) = csp_rdp_header_ref p"
    by (simp add: csp_rdp_header_ref_def hdr_write_def)
  have "mread (csp_rdp_header_ref p) 5 (pmem (hdr_write fl seq ack p)) = fl # be16_enc seq @ be16_enc ack"
    using header_ref_range(1) [OF assms] by (simp add: hdr_write_def mread_mwrite_same)
  then have eq: "mread (csp_rdp_header_ref (hdr_write fl seq ack p)) 5 (pmem (hdr_write fl seq ack p)) =
      fl # be16_enc seq @ be16_enc ack" by (simp only: ref)
  note hb = header_bytes [OF header_wf(1) [OF assms] eq]
  show "hdr_flags (hdr_write fl seq ack p) = fl" "hdr_seq_be (hdr_write fl seq ack p) = seq"
    "hdr_ack_be (hdr_write fl seq ack p) = ack" by (rule hb)+
qed

lemma header_to_host:
  assumes "packet_wf p"
  shows "hdr_seq_host (hdr_to_host p) = hdr_seq_be p" "hdr_flags (hdr_to_host p) = hdr_flags p"
    "pid (hdr_to_host p) = pid p" "pconn (hdr_to_host p) = pconn p"
proof -
  let ?r = "csp_rdp_header_ref p" and ?n = "rev (be16_enc (hdr_seq_be p)) @ rev (be16_enc (hdr_ack_be p))"
  note fit = header_ref_range(1) [OF assms]
  have ref: "csp_rdp_header_ref (hdr_to_host p) = ?r" by (simp add: csp_rdp_header_ref_def hdr_to_host_def)
  have four: "mread (?r + 1) 4 (pmem (hdr_to_host p)) = ?n"
    using fit by (simp add: hdr_to_host_def mread_mwrite_same)
  have "mread (?r + 1) 2 (pmem (hdr_to_host p)) = take 2 (mread (?r + 1) 4 (pmem (hdr_to_host p)))"
    by (simp add: mread_def)
  then have "mread (?r + 1) 2 (pmem (hdr_to_host p)) = rev (be16_enc (hdr_seq_be p))"
    unfolding four by simp
  then show "hdr_seq_host (hdr_to_host p) = hdr_seq_be p" by (simp add: hdr_seq_host_def ref)
  show "hdr_flags (hdr_to_host p) = hdr_flags p"
    using fit by (simp add: hdr_flags_def ref) (simp add: hdr_to_host_def nth_mwrite)
  show "pid (hdr_to_host p) = pid p" "pconn (hdr_to_host p) = pconn p" by (simp_all add: hdr_to_host_def)
qed

lemma header_remove:
  assumes "packet_wf p" "5 \<le> unat (plength p)"
  shows "packet_wf (csp_rdp_header_remove p)" "pdata (csp_rdp_header_remove p) = take (unat (plength p) - 5) (pdata p)"
proof -
  have "unat (plength p - 5) = unat (plength p) - 5"
    using assms(2) unat_sub [of 5 "plength p"] by (simp add: word_le_nat_alt)
  then show "packet_wf (csp_rdp_header_remove p)" "pdata (csp_rdp_header_remove p) = take (unat (plength p) - 5) (pdata p)"
    using assms(1) le_trans [OF diff_le_self [of "unat (plength p)" 5]]
    by (simp_all add: csp_rdp_header_remove_def packet_wf_def pdata_def mread_def)
qed

section \<open>Effect of a control message\<close>

text \<open>What the RDP operations on connection \<open>c\<close> leave alone.\<close>

definition rdp_frame :: "nat \<Rightarrow> csp_state \<Rightarrow> csp_state \<Rightarrow> bool" where
  "rdp_frame c s t \<longleftrightarrow> length (conns t) = length (conns s) \<and> (\<forall>d. d \<noteq> c \<longrightarrow> conn t d = conn s d) \<and>
     length (sockets t) = length (sockets s) \<and> map sock_opts (sockets t) = map sock_opts (sockets s) \<and>
     ports t = ports s \<and> now t = now s \<and> rdp_dfl t = rdp_dfl s \<and> conf_version t = conf_version s \<and>
     rtab t = rtab s \<and> interfaces (iflist t) = interfaces (iflist s) \<and>
     map if_static (ifs (iflist t)) = map if_static (ifs (iflist s))"

lemma rdp_frame_refl [simp]: "rdp_frame c s s"
  by (simp add: rdp_frame_def)

lemma rdp_frame_trans: "rdp_frame c s t \<Longrightarrow> rdp_frame c t u \<Longrightarrow> rdp_frame c s u"
  by (simp add: rdp_frame_def)

lemma rdp_frame_net: "net_frame s t \<Longrightarrow> rdp_frame c s t"
  by (simp add: rdp_frame_def net_frame_def conn_def)

lemma rdp_frame_fields [simp]:
  "rdp_frame c s (upd_conn c f s)" "rdp_frame c s (upd_rdp c g s)" "rdp_frame c s (sem_post c s)"
  "rdp_frame c s (conn_ovf_inc s)" "rdp_frame c s (s\<lparr>rdp_incr := i\<rparr>)" "rdp_frame c s (set_pkt h p s)"
  "rdp_frame c s (s\<lparr>rdp_tx := q\<rparr>)" "rdp_frame c s (s\<lparr>rdp_rx := q\<rparr>)" "rdp_frame c s (csp_buffer_free x s)"
  "rdp_frame c s (set_errno e s)" "rdp_frame c s (s\<lparr>fault := b\<rparr>)"
  using rdp_frame_net [OF net_frame_free] rdp_frame_net [OF net_frame_set_pkt]
  by (simp_all add: rdp_frame_def upd_conn_def upd_rdp_def sem_post_def conn_def conn_ovf_inc_def upd_dbg_def
      set_errno_def)

lemma conn_upd:
  "c < length (conns s) \<Longrightarrow> conn (upd_conn c f s) c = f (conn s c)"
  "c < length (conns s) \<Longrightarrow> conn (upd_rdp c g s) c = (conn s c)\<lparr>rdp := g (rdp (conn s c))\<rparr>"
  "c < length (conns s) \<Longrightarrow> conn (sem_post c s) c = (conn s c)\<lparr>rdp := (rdp (conn s c))\<lparr>tx_wait := True\<rparr>\<rparr>"
  by (simp_all add: conn_def upd_conn_def upd_rdp_def sem_post_def)

lemma length_conns_upd [simp]:
  "length (conns (upd_conn c f s)) = length (conns s)" "length (conns (upd_rdp c g s)) = length (conns s)"
  "length (conns (sem_post c s)) = length (conns s)"
  by (simp_all add: upd_conn_def upd_rdp_def sem_post_def)

lemma pkt_upd [simp]:
  "pkt (upd_conn c f s) h = pkt s h" "pkt (upd_rdp c g s) h = pkt s h" "pkt (sem_post c s) h = pkt s h"
  "pkt (s\<lparr>rdp_incr := i\<rparr>) h = pkt s h" "pkt (s\<lparr>rdp_tx := q\<rparr>) h = pkt s h" "pkt (s\<lparr>rdp_rx := q\<rparr>) h = pkt s h"
  by (simp_all add: pkt_def upd_conn_def upd_rdp_def sem_post_def)

lemma upd_fields [simp]:
  "sockets (upd_conn c f s) = sockets s" "sockets (upd_rdp c g s) = sockets s" "sockets (sem_post c s) = sockets s"
  "rdp_rx (upd_conn c f s) = rdp_rx s" "rdp_rx (upd_rdp c g s) = rdp_rx s" "rdp_rx (sem_post c s) = rdp_rx s"
  "rdp_tx (upd_conn c f s) = rdp_tx s" "rdp_tx (upd_rdp c g s) = rdp_tx s" "rdp_tx (sem_post c s) = rdp_tx s"
  "now (upd_conn c f s) = now s" "now (upd_rdp c g s) = now s" "now (sem_post c s) = now s"
  by (simp_all add: upd_conn_def upd_rdp_def sem_post_def)

text \<open>A control message changes of its connection at most the record of the last acknowledgment.\<close>

definition ack_recorded :: "u16 \<Rightarrow> u32 \<Rightarrow> csp_conn \<Rightarrow> csp_conn" where
  "ack_recorded ack t k = k\<lparr>rdp := (rdp k)\<lparr>rcv_lsa := ack, ack_timestamp := t\<rparr>\<rparr>"

definition cmp_effect :: "nat \<Rightarrow> u16 \<Rightarrow> csp_state \<Rightarrow> csp_state \<Rightarrow> bool" where
  "cmp_effect c ack s t \<longleftrightarrow> rdp_frame c s t \<and> sockets t = sockets s \<and> rdp_rx t = rdp_rx s \<and>
     (conns t = conns s \<or> conns t = (conns s)[c := ack_recorded ack (now s) (conn s c)])"

lemma rx_queue_ack_recorded [simp]: "rx_queue (ack_recorded ack t k) = rx_queue k"
  by (simp add: ack_recorded_def)

lemma more_set_pkt: "csp_pool.more (set_pkt h p s) = csp_pool.more (s :: csp_state)"
  by (cases s) (simp add: set_pkt_def)

lemma tx_add_effect:
  assumes "acct (add_mset h M) s"
  shows "\<exists>q. csp_pool.more (csp_rdp_queue_tx_add c h s) = csp_pool.more (s\<lparr>rdp_tx := q\<rparr>)"
    "h' \<noteq> h \<Longrightarrow> pkt (csp_rdp_queue_tx_add c h s) h' = pkt s h'"
proof -
  let ?s = "set_pkt h ((pkt s h)\<lparr>pconn := Some c\<rparr>) s"
  have a: "acct (add_mset h M) ?s"
    using held_allocated(4) [OF assms, of h] by (intro acct_set_pkt [OF assms]) simp
  obtain e q where enq: "csp_queue_enqueue h (rdp_tx ?s) = (e, q)" by (rule prod.exhaust)
  have more: "csp_pool.more (?s\<lparr>rdp_tx := q\<rparr>) = csp_pool.more (s\<lparr>rdp_tx := q\<rparr>)"
    using more_set_pkt [of h "(pkt s h)\<lparr>pconn := Some c\<rparr>" s] by (cases s) (simp add: set_pkt_def)
  from acct_queue_inv(2) [OF a] enq
  have "(\<exists>q. csp_pool.more (csp_rdp_queue_tx_add c h s) = csp_pool.more (s\<lparr>rdp_tx := q\<rparr>)) \<and>
    (h' \<noteq> h \<longrightarrow> pkt (csp_rdp_queue_tx_add c h s) h' = pkt s h')"
  proof (cases rule: enq_cases)
    case ok
    then have eq: "csp_rdp_queue_tx_add c h s = ?s\<lparr>rdp_tx := q\<rparr>"
      using enq by (simp add: csp_rdp_queue_tx_add_def requeue_def set_rdp_tx_def)
    show ?thesis using more unfolding eq by (auto simp: pkt_set_pkt_other)
  next
    case full
    have "acct (add_mset h M) (?s\<lparr>rdp_tx := q\<rparr>)" using a full by simp
    note f = acct_free [OF this]
    have eq: "csp_rdp_queue_tx_add c h s = csp_buffer_free (Some h) (?s\<lparr>rdp_tx := q\<rparr>)"
      using enq full by (simp add: csp_rdp_queue_tx_add_def requeue_def set_rdp_tx_def CSP_QUEUE_OK_def CSP_QUEUE_ERROR_def)
    show ?thesis using more f(2,3) unfolding eq by (auto simp: pkt_set_pkt_other)
  qed
  then show "\<exists>q. csp_pool.more (csp_rdp_queue_tx_add c h s) = csp_pool.more (s\<lparr>rdp_tx := q\<rparr>)"
    "h' \<noteq> h \<Longrightarrow> pkt (csp_rdp_queue_tx_add c h s) h' = pkt s h'" by blast+
qed

lemma more_fields_tx:
  assumes "csp_pool.more t = csp_pool.more ((s :: csp_state)\<lparr>rdp_tx := q\<rparr>)"
  shows "net_frame (s\<lparr>rdp_tx := q\<rparr>) t" "conns t = conns s" "sockets t = sockets s" "rdp_rx t = rdp_rx s"
    "now t = now s" "rdp_frame c s t"
proof -
  show n: "net_frame (s\<lparr>rdp_tx := q\<rparr>) t" by (rule net_frame_more [OF assms])
  show "conns t = conns s" "sockets t = sockets s" "rdp_rx t = rdp_rx s" "now t = now s"
    using more_fields [OF assms] by simp_all
  show "rdp_frame c s t" using rdp_frame_trans [OF rdp_frame_fields(7) rdp_frame_net [OF n]] .
qed

text \<open>The packets that stay as they are: those the caller holds and those in the queues.\<close>

definition fixed_pkts :: "nat multiset \<Rightarrow> csp_state \<Rightarrow> nat multiset" where
  "fixed_pkts M s = M + mset (queue_list (rdp_rx s)) + (\<Sum>c \<leftarrow> conns s. conn_owned c)"

lemma fixed_allocated: "acct M s \<Longrightarrow> h \<in># fixed_pkts M s \<Longrightarrow> h \<in> allocated s"
  by (rule kept_allocated) (auto simp: fixed_pkts_def kept_def)

lemma held_once: "acct (add_mset h M) s \<Longrightarrow> h \<notin># M + owned s"
proof -
  assume "acct (add_mset h M) s"
  then have "add_mset h (M + owned s) = mset_set (allocated s)" by (simp add: acct_def ac_simps)
  then have "count (add_mset h (M + owned s)) h \<le> 1" by (simp add: count_mset_set')
  then show ?thesis by (auto simp: not_in_iff)
qed

lemma fixed_owned: "h \<in># fixed_pkts M s \<Longrightarrow> h \<in># M + owned s"
  by (auto simp: fixed_pkts_def owned_def)

lemma conn_owned_ack_recorded:
  "(\<Sum>k \<leftarrow> (conns s)[c := ack_recorded ack t (conn s c)]. conn_owned k) = (\<Sum>k \<leftarrow> conns s. conn_owned k)"
proof -
  have "map conn_owned ((conns s)[c := ack_recorded ack t (conn s c)]) = map conn_owned (conns s)"
    by (rule conn_owned_cong, cases "c < length (conns s)")
      (simp_all add: map_update conn_def list_update_same_conv list_update_beyond)
  then show ?thesis by simp
qed

lemma fixed_cmp_effect: "cmp_effect c ack s t \<Longrightarrow> fixed_pkts M t = fixed_pkts M s"
  by (auto simp: cmp_effect_def fixed_pkts_def conn_owned_ack_recorded)

lemma cmp_transmit_spec:
  assumes "acct (add_mset p M) s" and t_def: "t = cmp_transmit c p fl ack s"
  shows "acct M t" "cmp_effect c ack s t" "h \<in># fixed_pkts M s \<Longrightarrow> pkt t h = pkt s h"
proof -
  define idout where "idout = (cidout (conn s c))
    \<lparr>pri := (if pri (cidout (conn s c)) < CSP_PRIO_HIGH then pri (cidout (conn s c)) else CSP_PRIO_HIGH)\<rparr>"
  note t_def = t_def [unfolded cmp_transmit_def, folded idout_def]
  let ?s = "snd (csp_send_direct idout (Some p) None s)"
  note d = send_direct_acct [OF assms(1), of idout None]
  show "acct M t" using d(1) by (simp add: t_def Let_def)
  have f: "conns ?s = conns s" "now ?s = now s" "sockets ?s = sockets s" "rdp_rx ?s = rdp_rx s" "rdp_frame c s ?s"
    using d(2) rdp_frame_net [OF d(2)] by (simp_all add: net_frame_def)
  have "conns (upd_rdp c (\<lambda>r. r\<lparr>rcv_lsa := ack, ack_timestamp := now ?s\<rparr>) ?s) =
      (conns s)[c := ack_recorded ack (now s) (conn s c)]"
    by (simp add: upd_rdp_def upd_conn_def ack_recorded_def f conn_def)
  moreover have "rdp_frame c s t"
    using f(5) rdp_frame_trans [OF f(5) rdp_frame_fields(2)] by (simp add: t_def Let_def)
  moreover have "sockets t = sockets s" "rdp_rx t = rdp_rx s"
    using f by (simp_all add: t_def Let_def upd_rdp_def upd_conn_def)
  ultimately show "cmp_effect c ack s t" using f(1) by (auto simp: cmp_effect_def t_def Let_def)
  show "pkt t h = pkt s h" if "h \<in># fixed_pkts M s"
  proof -
    have "h \<in># M + kept s" using that by (auto simp: fixed_pkts_def kept_def)
    from send_direct_pkt [OF assms(1) this] show ?thesis by (simp add: t_def Let_def)
  qed
qed

lemma cmp_effect_chain:
  assumes "cmp_effect c ack t u" "conns t = conns s" "now t = now s" "sockets t = sockets s" "rdp_rx t = rdp_rx s"
    and "rdp_frame c s t"
  shows "cmp_effect c ack s u"
  using assms rdp_frame_trans [OF assms(6)] by (auto simp: cmp_effect_def conn_def)

lemma clone_None_free:
  assumes "acct M s" "h \<in> allocated s" "csp_buffer_clone (Some h) s = (None, t)"
  shows "free_list s = []"
proof (cases "free_list s")
  case (Cons b bs)
  have "pool_inv s" using assms(1) by (simp add: acct_def)
  then obtain t' where "csp_buffer_clone (Some h) s = (Some b, t')"
    by (rule csp_buffer_clone_Some [OF _ Cons assms(2)]) blast
  then show ?thesis using assms(3) by simp
qed

text \<open>A control message takes its packet. The one exception is a SYN for which no second buffer
  is left: the function returns \<open>CSP_ERR_NOMEM\<close> and its packet is lost.\<close>

lemma send_cmp_packet_spec:
  assumes "acct (add_mset p M) s" "send_cmp_packet c p fl seq ack s = (e, t)"
  shows "acct M t \<or> (fl AND RDP_SYN \<noteq> 0 \<and> e = CSP_ERR_NOMEM \<and> free_list s = [] \<and> acct (add_mset p M) t)"
    "cmp_effect c ack s t" "h \<in># fixed_pkts M s \<Longrightarrow> pkt t h = pkt s h"
proof -
  have wf: "packet_wf (pkt s p)" using held_allocated(4) [OF assms(1)] by simp
  have P: "(acct M t \<or> (fl AND RDP_SYN \<noteq> 0 \<and> e = CSP_ERR_NOMEM \<and> free_list s = [] \<and> acct (add_mset p M) t)) \<and>
    cmp_effect c ack s t \<and> (h \<in># fixed_pkts M s \<longrightarrow> pkt t h = pkt s h)"
  proof (cases "csp_rdp_header_add (pkt s p)")
    case None
    then have t: "t = csp_buffer_free (Some p) s" using assms(2) by (simp add: send_cmp_packet_def)
    note f = acct_free [OF assms(1)]
    show ?thesis using f more_fields [OF f(2)] by (simp add: t cmp_effect_def)
  next
    case (Some p')
    let ?p = "hdr_write (push_bit 4 (rdp_incr s) OR fl) seq ack p'"
    define s1 where "s1 = (set_pkt p ?p s)\<lparr>rdp_incr := rdp_incr s + 1\<rparr>"
    have a1: "acct (add_mset p M) s1"
      unfolding s1_def using header_add_Some(1) [OF wf Some] by (simp add: acct_set_pkt [OF assms(1)])
    have e1: "conns s1 = conns s" "now s1 = now s" "sockets s1 = sockets s" "rdp_rx s1 = rdp_rx s" "rdp_frame c s s1"
      unfolding s1_def using rdp_frame_trans [OF rdp_frame_fields(6) rdp_frame_fields(5)]
      by (simp_all add: set_pkt_def)
    have k1: "fixed_pkts M s1 = fixed_pkts M s" by (simp add: fixed_pkts_def e1)
    have fl1: "free_list s1 = free_list s" by (simp add: s1_def set_pkt_def)
    have neq: "h \<noteq> p" if "h \<in># fixed_pkts M s"
      using fixed_owned [OF that] held_once [OF assms(1)] by auto
    have p1: "pkt s1 h = pkt s h" if "h \<in># fixed_pkts M s"
      using neq [OF that] by (simp add: s1_def)
    let ?tl = "cmp_transmit c p fl ack"
    have tail: "acct M (?tl u) \<and> cmp_effect c ack s (?tl u) \<and> (h \<in># fixed_pkts M s \<longrightarrow> pkt (?tl u) h = pkt s h)"
      if "acct (add_mset p M) u" "conns u = conns s1" "now u = now s1" "sockets u = sockets s1" "rdp_rx u = rdp_rx s1"
        "rdp_frame c s1 u" "h \<in># fixed_pkts M s \<Longrightarrow> pkt u h = pkt s1 h" for u
    proof -
      note tl = cmp_transmit_spec [OF that(1) refl, where c = c and fl = fl and ack = ack]
      have fr: "rdp_frame c s u" by (rule rdp_frame_trans [OF e1(5) that(6)])
      have "cmp_effect c ack s (?tl u)"
        by (rule cmp_effect_chain [OF tl(2) _ _ _ _ fr]) (simp_all add: e1 that(2-5))
      moreover have "fixed_pkts M u = fixed_pkts M s" using that(2,5) e1 by (simp add: fixed_pkts_def)
      ultimately show ?thesis using tl(1) tl(3) [of h] that(7) p1 by simp
    qed
    show ?thesis
    proof (cases "fl AND RDP_SYN = 0")
      case True
      then have "t = ?tl s1"
        using assms(2) Some by (simp add: send_cmp_packet_def s1_def [symmetric] Let_def)
      then show ?thesis using tail [OF a1] by simp
    next
      case syn: False
      obtain r s2 where cl: "csp_buffer_clone (Some p) s1 = (r, s2)" by (rule prod.exhaust)
      have pa: "p \<in> allocated s1" using held_allocated(1) [OF a1] by simp
      note c = acct_clone [OF a1 pa cl]
      note m2 = more_fields [OF c(2)]
      have p2: "pkt s2 h = pkt s1 h" if "h \<in># fixed_pkts M s"
        by (rule c(3)) (rule fixed_allocated [OF a1], use that in \<open>simp add: fixed_pkts_def e1\<close>)
      show ?thesis
      proof (cases r)
        case None
        then have t: "t = s2" "e = CSP_ERR_NOMEM"
          using assms(2) Some syn cl by (simp_all add: send_cmp_packet_def s1_def [symmetric] Let_def)
        have "free_list s1 = []"
          using clone_None_free [OF a1 pa] cl None by simp
        moreover have "cmp_effect c ack s s2"
          using m2 e1 rdp_frame_trans [OF e1(5) rdp_frame_net [OF net_frame_more [OF c(2)]]] by (simp add: cmp_effect_def)
        ultimately show ?thesis using c(1) None syn t p1 p2 fl1 by simp
      next
        case (Some b)
        let ?b = "(pkt s2 b)\<lparr>timestamp_tx := now s2\<rparr>"
        define s3 where "s3 = set_pkt b ?b s2"
        have a2: "acct (add_mset b (add_mset p M)) s2" using c(1) Some by simp
        have a3: "acct (add_mset b (add_mset p M)) s3"
          unfolding s3_def using held_allocated(4) [OF a2, of b] by (intro acct_set_pkt [OF a2]) simp
        define s4 where "s4 = csp_rdp_queue_tx_add c b s3"
        have a4: "acct (add_mset p M) s4" unfolding s4_def by (rule tx_add_acct [OF a3])
        obtain q where q: "csp_pool.more s4 = csp_pool.more (s3\<lparr>rdp_tx := q\<rparr>)"
          using tx_add_effect(1) [OF a3] unfolding s4_def by blast
        have m3: "csp_pool.more s3 = csp_pool.more s1" using c(2) more_set_pkt unfolding s3_def by metis
        have f4: "conns s4 = conns s1" "now s4 = now s1" "sockets s4 = sockets s1" "rdp_rx s4 = rdp_rx s1"
          using more_fields_tx [OF q] more_fields [OF m3] by simp_all
        have fr4: "rdp_frame c s1 s4"
          by (rule rdp_frame_trans [OF rdp_frame_net [OF net_frame_more [OF m3]] more_fields_tx(6) [OF q]])
        have p4: "pkt s4 h = pkt s1 h" if "h \<in># fixed_pkts M s"
        proof -
          have "h \<in> allocated s1"
            by (rule fixed_allocated [OF a1]) (use that in \<open>simp add: fixed_pkts_def e1\<close>)
          then have "h \<noteq> b" using c(4) Some by auto
          then show ?thesis using tx_add_effect(2) [OF a3] p2 [OF that] by (simp add: s4_def s3_def)
        qed
        have "t = ?tl s4"
          using assms(2) \<open>csp_rdp_header_add (pkt s p) = Some p'\<close> syn cl Some
          by (simp add: send_cmp_packet_def s1_def [symmetric] s3_def [symmetric] s4_def [symmetric] Let_def)
        then show ?thesis using tail [OF a4 f4 fr4 p4] by simp
      qed
    qed
  qed
  from P show "acct M t \<or> (fl AND RDP_SYN \<noteq> 0 \<and> e = CSP_ERR_NOMEM \<and> free_list s = [] \<and> acct (add_mset p M) t)"
    "cmp_effect c ack s t" "h \<in># fixed_pkts M s \<Longrightarrow> pkt t h = pkt s h" by blast+
qed

lemma send_cmp_spec:
  assumes "acct M s" "csp_rdp_send_cmp c None fl seq ack s = (e, t)"
  shows "acct M t \<or> (fl AND RDP_SYN \<noteq> 0 \<and> e = CSP_ERR_NOMEM \<and> length (free_list s) = 1 \<and> (\<exists>p. acct (add_mset p M) t))"
    "cmp_effect c ack s t" "h \<in># fixed_pkts M s \<Longrightarrow> pkt t h = pkt s h"
proof -
  obtain r s1 where get: "csp_buffer_get s = (r, s1)" by (rule prod.exhaust)
  have P: "(acct M t \<or> (fl AND RDP_SYN \<noteq> 0 \<and> e = CSP_ERR_NOMEM \<and> length (free_list s) = 1 \<and> (\<exists>p. acct (add_mset p M) t))) \<and>
    cmp_effect c ack s t \<and> (h \<in># fixed_pkts M s \<longrightarrow> pkt t h = pkt s h)"
  proof (cases r)
    case None
    then have t: "t = s1" using assms(2) get by (simp add: csp_rdp_send_cmp_def)
    have g: "acct M s1" "csp_pool.more s1 = csp_pool.more s"
      using acct_get_None [OF assms(1)] get None by simp_all
    have "bufs s1 = bufs s" using get None by (auto simp: csp_buffer_get_def Let_def split: option.splits prod.splits if_splits)
    then show ?thesis
      using g more_fields [OF g(2)] rdp_frame_net [OF net_frame_more [OF g(2)]] by (simp add: t cmp_effect_def pkt_def)
  next
    case (Some p)
    note g = acct_get [OF assms(1) get [unfolded Some]]
    define s2 where "s2 = set_pkt p ((pkt s1 p)\<lparr>plength := 0\<rparr>) s1"
    have a2: "acct (add_mset p M) s2"
      unfolding s2_def using held_allocated(4) [OF g(1), of p]
      by (intro acct_set_pkt [OF g(1)]) (simp add: packet_wf_def)
    have m2: "csp_pool.more s2 = csp_pool.more s" using g(2) more_set_pkt unfolding s2_def by metis
    note f2 = more_fields [OF m2]
    have "send_cmp_packet c p fl seq ack s2 = (e, t)"
      using assms(2) get Some by (simp add: csp_rdp_send_cmp_def s2_def)
    note sp = send_cmp_packet_spec [OF a2 this]
    have "free_list s = p # free_list s1"
    proof -
      have inv: "pool_inv s" using assms(1) by (simp add: acct_def)
      have "free_list s \<noteq> []" using csp_buffer_get_None [OF inv] get Some by auto
      then obtain b bs where Cons: "free_list s = b # bs" by (meson neq_Nil_conv)
      then show ?thesis using csp_buffer_get_Some [OF inv Cons] get Some by (metis fst_conv option.inject snd_conv)
    qed
    then have len: "free_list s2 = [] \<Longrightarrow> length (free_list s) = 1" by (simp add: s2_def set_pkt_def)
    have "cmp_effect c ack s t"
      by (rule cmp_effect_chain [OF sp(2)]) (simp_all add: f2 rdp_frame_net [OF net_frame_more [OF m2]])
    moreover have "pkt t h = pkt s h" if "h \<in># fixed_pkts M s"
    proof -
      have "h \<noteq> p" using fixed_allocated [OF assms(1) that] g(4) by auto
      moreover have "h \<in># fixed_pkts M s2" using that by (simp add: fixed_pkts_def f2)
      ultimately show ?thesis using sp(3) [of h] g(3) by (simp add: s2_def pkt_def) (simp add: set_pkt_def)
    qed
    ultimately show ?thesis using sp(1) len by blast
  qed
  from P show "acct M t \<or> (fl AND RDP_SYN \<noteq> 0 \<and> e = CSP_ERR_NOMEM \<and> length (free_list s) = 1 \<and> (\<exists>p. acct (add_mset p M) t))"
    "cmp_effect c ack s t" "h \<in># fixed_pkts M s \<Longrightarrow> pkt t h = pkt s h" by blast+
qed

section \<open>Queue of out-of-order packets\<close>

definition capacity :: "'a pthread_queue \<Rightarrow> nat" where
  "capacity q = csp_queue_free q + length (queue_list q)"

context packet_queue
begin

lemma get_loop_capacity:
  assumes "queue_inv (qof s)" "n \<le> length (queue_list (qof s))"
  shows "capacity (qof (snd (get_loop qof setq n c s))) = capacity (qof s)"
  using assms
proof (induction n arbitrary: s)
  case (Suc n)
  then obtain p ps where L: "queue_list (qof s) = p # ps" by (cases "queue_list (qof s)") auto
  obtain q where q: "csp_queue_dequeue (qof s) = (Some p, q)" "queue_inv q" "queue_list q = ps"
    "csp_queue_free q = Suc (csp_queue_free (qof s))"
    using ring.deq_some [OF Suc.prems(1) L] by blast
  obtain r where r: "csp_queue_enqueue p q = (CSP_QUEUE_OK, r)" "queue_inv r" "queue_list r = queue_list q @ [p]"
    "Suc (csp_queue_free r) = csp_queue_free q"
    using ring.enq_ok [OF q(2), of p] q(4) by auto
  have "requeue qof setq p (setq q s) = setq r s" by (simp add: requeue_def qof_setq r(1) setq_setq)
  then show ?case
    using Suc.IH [of "setq r s"] Suc.prems(2) r q L
    by (simp add: Let_def pkt_setq qof_setq capacity_def)
qed simp

text \<open>Taking the oldest packet of a connection, as a change of the queue.\<close>

lemma get_effect:
  assumes "acct M s" "get_loop qof setq (csp_queue_size (qof s)) c s = (r, t)"
  shows "\<exists>q. t = setq q s \<and> queue_inv q \<and> capacity q = capacity (qof s) \<and>
    (case r of None \<Rightarrow> queue_list q = queue_list (qof s) \<and> (\<forall>p \<in> set (queue_list q). pconn (pkt s p) \<noteq> Some c)
     | Some p \<Rightarrow> pconn (pkt s p) = Some c \<and>
         (\<exists>us vs. queue_list (qof s) = us @ p # vs \<and> queue_list q = vs @ us \<and> (\<forall>u \<in> set us. pconn (pkt s u) \<noteq> Some c)))"
proof -
  have inv: "queue_inv (qof s)" by (rule qof_inv [OF assms(1)])
  let ?L = "queue_list (qof s)"
  have loop: "get_loop qof setq (length ?L) c s = (r, t)" using assms(2) ring.qlen_eq [OF inv] by simp
  obtain q where q: "queue_inv q"
    "if \<exists>p \<in> set ?L. pconn (pkt s p) = Some c
     then \<exists>us p vs. ?L = us @ p # vs \<and> (\<forall>u \<in> set us. pconn (pkt s u) \<noteq> Some c) \<and> pconn (pkt s p) = Some c \<and>
       (r, t) = (Some p, setq q s) \<and> queue_list q = vs @ us
     else (r, t) = (None, setq q s) \<and> queue_list q = ?L"
    using get_loop_spec [OF inv append_Nil2 [symmetric] refl, of c] unfolding loop append_Nil by blast
  have t: "t = setq q s" using q(2) by (auto split: if_splits)
  then have "capacity q = capacity (qof s)"
    using get_loop_capacity [OF inv order.refl, of c] unfolding loop by (simp add: qof_setq)
  moreover have "case r of None \<Rightarrow> queue_list q = ?L \<and> (\<forall>p \<in> set (queue_list q). pconn (pkt s p) \<noteq> Some c)
     | Some p \<Rightarrow> pconn (pkt s p) = Some c \<and>
         (\<exists>us vs. ?L = us @ p # vs \<and> queue_list q = vs @ us \<and> (\<forall>u \<in> set us. pconn (pkt s u) \<noteq> Some c))"
  proof (cases "\<exists>p \<in> set ?L. pconn (pkt s p) = Some c")
    case True
    then obtain us p vs where "?L = us @ p # vs" "\<forall>u \<in> set us. pconn (pkt s u) \<noteq> Some c" "pconn (pkt s p) = Some c"
      "r = Some p" "queue_list q = vs @ us" using q(2) by auto
    then show ?thesis by (auto intro: exI [where x = us])
  next
    case False
    then show ?thesis using q(2) by simp
  qed
  ultimately show ?thesis using q(1) t by blast
qed

text \<open>Putting a packet of the connection back where there is room.\<close>

lemma requeue_room:
  assumes "queue_inv (qof s)" "0 < csp_queue_free (qof s)"
  shows "\<exists>q. requeue qof setq p s = setq q s \<and> queue_inv q \<and> queue_list q = queue_list (qof s) @ [p] \<and>
    capacity q = capacity (qof s)"
  using ring.enq_ok [OF assms, of p] by (auto simp: requeue_def capacity_def)

end

lemma rx_get_effect:
  assumes "acct M s" "csp_rdp_queue_rx_get c s = (r, t)"
  shows "\<exists>q. t = s\<lparr>rdp_rx := q\<rparr> \<and> queue_inv q \<and> capacity q = capacity (rdp_rx s) \<and>
    (case r of None \<Rightarrow> queue_list q = queue_list (rdp_rx s) \<and> (\<forall>p \<in> set (queue_list q). pconn (pkt s p) \<noteq> Some c)
     | Some p \<Rightarrow> pconn (pkt s p) = Some c \<and>
         (\<exists>us vs. queue_list (rdp_rx s) = us @ p # vs \<and> queue_list q = vs @ us \<and> (\<forall>u \<in> set us. pconn (pkt s u) \<noteq> Some c)))"
  using rx_queue.get_effect [OF assms(1) assms(2) [unfolded csp_rdp_queue_rx_get_def]] by (simp only: set_rdp_rx_def)

lemma set_pkt_same [simp]: "set_pkt h (pkt s h) s = s"
  by (cases "h < length (bufs s)") (simp_all add: set_pkt_def pkt_def list_update_beyond)

lemma rx_readd:
  assumes "acct M s" "pconn (pkt s p) = Some c" "0 < csp_queue_free (rdp_rx s)"
  shows "\<exists>q. csp_rdp_queue_rx_add c p s = s\<lparr>rdp_rx := q\<rparr> \<and> queue_inv q \<and> queue_list q = queue_list (rdp_rx s) @ [p] \<and>
    capacity q = capacity (rdp_rx s)"
proof -
  have "(pkt s p)\<lparr>pconn := Some c\<rparr> = pkt s p" using assms(2) by simp
  then have "csp_rdp_queue_rx_add c p s = requeue rdp_rx set_rdp_rx p s"
    by (simp only: csp_rdp_queue_rx_add_def set_pkt_same)
  then show ?thesis
    using rx_queue.requeue_room [OF acct_queue_inv(3) [OF assms(1)] assms(3), of p] by (simp add: set_rdp_rx_def)
qed

text \<open>A packet taken out can be put back: the queue then holds the same packets as before.\<close>

lemma rx_get_readd:
  assumes "acct M s" "csp_rdp_queue_rx_get c s = (Some p, t)"
  shows "\<exists>q. csp_rdp_queue_rx_add c p t = s\<lparr>rdp_rx := q\<rparr> \<and> acct M (s\<lparr>rdp_rx := q\<rparr>) \<and>
    mset (queue_list q) = mset (queue_list (rdp_rx s)) \<and> capacity q = capacity (rdp_rx s)"
proof -
  obtain q us vs where q: "t = s\<lparr>rdp_rx := q\<rparr>" "queue_inv q" "capacity q = capacity (rdp_rx s)"
    "pconn (pkt s p) = Some c" "queue_list (rdp_rx s) = us @ p # vs" "queue_list q = vs @ us"
    using rx_get_effect [OF assms] by auto
  have at: "acct (add_mset p M) t" using rx_get_acct(1) [OF assms] by simp
  have "0 < csp_queue_free q" using q(3,5,6) by (simp add: capacity_def)
  then obtain r where r: "csp_rdp_queue_rx_add c p t = t\<lparr>rdp_rx := r\<rparr>" "queue_list r = queue_list q @ [p]"
    "capacity r = capacity q"
    using rx_readd [OF at, of p c] q(1,4) by auto
  have "acct M (csp_rdp_queue_rx_add c p t)" by (rule rx_add_acct [OF at])
  then show ?thesis using r q by (intro exI [of _ r]) simp
qed

section \<open>Delivery in order\<close>

lemma conn_enqueue_spec:
  assumes "acct (case x of None \<Rightarrow> M | Some p \<Rightarrow> add_mset p M) s" "c < length (conns s)"
    and "csp_conn_enqueue_packet c x s = (e, t)"
  shows "(e = CSP_ERR_NONE \<and> acct M t \<and>
      (\<exists>q. t = upd_conn c (\<lambda>k. k\<lparr>rx_queue := q\<rparr>) s \<and> queue_list q = queue_list (rx_queue (conn s c)) @ [x] \<and>
         Suc (csp_queue_free q) = csp_queue_free (rx_queue (conn s c)))) \<or>
    (e = CSP_ERR_NOMEM \<and> t = conn_ovf_inc s \<and> csp_queue_free (rx_queue (conn s c)) = 0)"
proof -
  have inv: "queue_inv (rx_queue (conn s c))" by (rule acct_queue_inv(5) [OF assms(1,2)])
  show ?thesis
  proof (cases "csp_queue_free (rx_queue (conn s c))")
    case 0
    then have "csp_queue_enqueue x (rx_queue (conn s c)) = (CSP_QUEUE_ERROR, rx_queue (conn s c))"
      by (rule ring.enq_full [OF inv])
    moreover have "upd_conn c (\<lambda>k. k\<lparr>rx_queue := rx_queue (conn s c)\<rparr>) s = s"
      using assms(2) by (simp add: upd_conn_def conn_def)
    ultimately show ?thesis using assms(3) 0 by (simp add: csp_conn_enqueue_packet_def Let_def)
  next
    case (Suc n)
    obtain q where q: "csp_queue_enqueue x (rx_queue (conn s c)) = (CSP_QUEUE_OK, q)" "queue_inv q"
      "queue_list q = queue_list (rx_queue (conn s c)) @ [x]" "Suc (csp_queue_free q) = csp_queue_free (rx_queue (conn s c))"
      using ring.enq_ok [OF inv, of x] Suc by auto
    have t: "t = upd_conn c (\<lambda>k. k\<lparr>rx_queue := q\<rparr>) s" "e = CSP_ERR_NONE"
      using assms(3) q(1) by (simp_all add: csp_conn_enqueue_packet_def Let_def)
    have "acct M t"
      unfolding t(1) upd_conn_def
      by (rule acct_conn_rx [OF assms(1,2)])
        (use q(2,3) in \<open>simp_all add: conn_owned_def map_filter_append List.map_filter_def split: option.split\<close>)
    then show ?thesis using t q(3,4) by blast
  qed
qed

lemma err_distinct [simp]:
  "CSP_ERR_NOMEM \<noteq> CSP_ERR_NONE" "CSP_ERR_NOBUFS \<noteq> CSP_ERR_NONE" "CSP_ERR_AGAIN \<noteq> CSP_ERR_NONE"
  "CSP_ERR_NOMEM < 0" "\<not> CSP_ERR_NONE < 0" "CSP_ERR_NONE \<noteq> CSP_ERR_AGAIN"
  by (simp_all add: csp_err_defs)

lemma receive_data_spec:
  assumes "acct (add_mset p M) s" "c < length (conns s)" "5 < unat (plength (pkt s p))"
    and "csp_rdp_receive_data c p s = (e, t)"
  defines "u \<equiv> set_pkt p (csp_rdp_header_remove (pkt s p)) s"
  shows "(e = CSP_ERR_NONE \<and> acct M t \<and>
      (\<exists>q. t = upd_conn c (\<lambda>k. k\<lparr>rx_queue := q\<rparr>) u \<and> queue_list q = queue_list (rx_queue (conn s c)) @ [Some p] \<and>
         Suc (csp_queue_free q) = csp_queue_free (rx_queue (conn s c)))) \<or>
    (e = CSP_ERR_NOBUFS \<and> acct (add_mset p M) t \<and> t = conn_ovf_inc (conn_ovf_inc u) \<and>
      csp_queue_free (rx_queue (conn s c)) = 0)"
proof -
  have wf: "packet_wf (pkt s p)" using held_allocated(4) [OF assms(1)] by simp
  have a: "acct (add_mset p M) u"
    unfolding u_def using header_remove(1) [OF wf] assms(3) by (intro acct_set_pkt [OF assms(1)]) simp
  have cs: "conns u = conns s" by (simp add: u_def set_pkt_def)
  obtain e1 t1 where enq: "csp_conn_enqueue_packet c (Some p) u = (e1, t1)" by (rule prod.exhaust)
  have res: "csp_rdp_receive_data c p s = (if e1 < 0 then (CSP_ERR_NOBUFS, conn_ovf_inc t1) else (CSP_ERR_NONE, t1))"
    by (simp add: csp_rdp_receive_data_def u_def [symmetric] enq)
  have "acct (case Some p of None \<Rightarrow> M | Some p \<Rightarrow> add_mset p M) u" using a by simp
  from conn_enqueue_spec [OF this _ enq] assms(2,4) a show ?thesis
    by (auto simp: cs res conn_def)
qed

text \<open>Only packets with data are queued.\<close>

definition rx_sized :: "csp_state \<Rightarrow> bool" where
  "rx_sized s \<longleftrightarrow> (\<forall>h \<in> set (queue_list (rdp_rx s)). 5 < unat (plength (pkt s h)))"

abbreviation next_seq :: "csp_state \<Rightarrow> nat \<Rightarrow> u16" where
  "next_seq s c \<equiv> rcv_cur (rdp (conn s c)) + 1"

lemma conn_rdp_rx [simp]: "conn (s\<lparr>rdp_rx := q\<rparr>) c = conn s c"
  by (simp add: conn_def)

lemma rx_flush_for_spec:
  assumes "acct M s" "rx_sized s" "c < length (conns s)" "rx_flush_for n c s = (again, t)"
  shows "if again
    then \<exists>p q r. acct M t \<and> mset (queue_list (rdp_rx s)) = add_mset p (mset (queue_list q)) \<and>
      hdr_seq_host (pkt s p) = next_seq s c \<and> queue_list r = queue_list (rx_queue (conn s c)) @ [Some p] \<and>
      t = upd_rdp c (\<lambda>x. x\<lparr>rcv_cur := rcv_cur x + 1\<rparr>) (upd_conn c (\<lambda>k. k\<lparr>rx_queue := r\<rparr>)
        (set_pkt p (csp_rdp_header_remove (pkt s p)) (s\<lparr>rdp_rx := q\<rparr>)))
    else acct M t \<and> (\<exists>q. t = s\<lparr>rdp_rx := q\<rparr> \<and> mset (queue_list q) = mset (queue_list (rdp_rx s)))"
  using assms
proof (induction n arbitrary: s)
  case 0
  then show ?case by (auto intro: exI [of _ "rdp_rx s"])
next
  case (Suc n)
  show ?case
  proof (cases "csp_queue_free (rx_queue (conn s c)) \<le> 2")
    case True
    then show ?thesis using Suc.prems by (auto intro: exI [of _ "rdp_rx s"])
  next
    case room: False
    obtain r s1 where get: "csp_rdp_queue_rx_get c s = (r, s1)" by (rule prod.exhaust)
    note a1 = rx_get_acct(1) [OF Suc.prems(1) get] and eff = rx_get_effect [OF Suc.prems(1) get]
    show ?thesis
    proof (cases r)
      case None
      then show ?thesis using Suc.prems(4) room get a1 eff by auto
    next
      case (Some p)
      obtain q us vs where q: "s1 = s\<lparr>rdp_rx := q\<rparr>" "queue_list (rdp_rx s) = us @ p # vs" "queue_list q = vs @ us"
        using eff Some by auto
      have a: "acct (add_mset p M) s1" using a1 Some by simp
      have size: "5 < unat (plength (pkt s1 p))" using Suc.prems(2) q by (simp add: rx_sized_def)
      show ?thesis
      proof (cases "hdr_seq_host (pkt s1 p) = next_seq s1 c")
        case True
        obtain e s2 where rd: "csp_rdp_receive_data c p s1 = (e, s2)" by (rule prod.exhaust)
        have len: "c < length (conns s1)" using Suc.prems(3) q(1) by simp
        obtain k where k: "e = CSP_ERR_NONE" "acct M s2"
          "s2 = upd_conn c (\<lambda>x. x\<lparr>rx_queue := k\<rparr>) (set_pkt p (csp_rdp_header_remove (pkt s1 p)) s1)"
          "queue_list k = queue_list (rx_queue (conn s1 c)) @ [Some p]"
          using receive_data_spec [OF a len size rd] room q(1) by auto
        have res: "again" "t = upd_rdp c (\<lambda>x. x\<lparr>rcv_cur := rcv_cur x + 1\<rparr>) s2"
          using Suc.prems(4) room get Some True rd k(1) by simp_all
        have "acct M t" using k(2) res(2) by simp
        then show ?thesis
          using res k(3,4) q True by (auto intro!: exI [of _ p] exI [of _ q] exI [of _ k])
      next
        case False
        obtain q' where q': "csp_rdp_queue_rx_add c p s1 = s\<lparr>rdp_rx := q'\<rparr>" "acct M (s\<lparr>rdp_rx := q'\<rparr>)"
          "mset (queue_list q') = mset (queue_list (rdp_rx s))"
          using rx_get_readd [OF Suc.prems(1) get [unfolded Some]] by blast
        have sized: "rx_sized (s\<lparr>rdp_rx := q'\<rparr>)"
          using Suc.prems(2) mset_eq_setD [OF q'(3)] by (simp add: rx_sized_def)
        have rest: "rx_flush_for n c (s\<lparr>rdp_rx := q'\<rparr>) = (again, t)"
          using Suc.prems(4) room get Some False q'(1) by simp
        have "(s\<lparr>rdp_rx := q'\<rparr>)\<lparr>rdp_rx := x\<rparr> = s\<lparr>rdp_rx := x\<rparr>" for x by simp
        with Suc.IH [OF q'(2) sized _ rest] Suc.prems(3) q'(3) show ?thesis by (cases again) simp_all
      qed
    qed
  qed
qed

text \<open>When the loop ends without a delivery and there is room, no queued packet of the connection is
  the next in sequence: all of them have been looked at.\<close>

lemma rx_flush_for_complete:
  assumes "acct M s" "rx_flush_for n c s = (False, t)" "2 < csp_queue_free (rx_queue (conn s c))"
    and "filter (\<lambda>p. pconn (pkt s p) = Some c) (queue_list (rdp_rx s)) = xs @ ys" "length xs \<le> n"
  shows "\<forall>p \<in> set xs. hdr_seq_host (pkt s p) \<noteq> next_seq s c"
  using assms
proof (induction n arbitrary: s xs ys)
  case (Suc n)
  obtain r s1 where get: "csp_rdp_queue_rx_get c s = (r, s1)" by (rule prod.exhaust)
  note eff = rx_get_effect [OF Suc.prems(1) get]
  show ?case
  proof (cases xs)
    case (Cons x xs')
    have "filter (\<lambda>p. pconn (pkt s p) = Some c) (queue_list (rdp_rx s)) \<noteq> []" using Suc.prems(4) Cons by simp
    then have "\<exists>p \<in> set (queue_list (rdp_rx s)). pconn (pkt s p) = Some c" by (auto simp: filter_empty_conv)
    then obtain p where r: "r = Some p" using eff by (cases r) auto
    obtain q us vs where q: "s1 = s\<lparr>rdp_rx := q\<rparr>" "queue_inv q" "capacity q = capacity (rdp_rx s)"
      "pconn (pkt s p) = Some c" "queue_list (rdp_rx s) = us @ p # vs" "queue_list q = vs @ us"
      "\<forall>u \<in> set us. pconn (pkt s u) \<noteq> Some c"
      using eff r by auto
    have none: "filter (\<lambda>p. pconn (pkt s p) = Some c) us = []" using q(7) by (simp add: filter_empty_conv)
    have head: "p = x" "filter (\<lambda>p. pconn (pkt s p) = Some c) vs = xs' @ ys"
      using Suc.prems(4) Cons q(4,5) none by simp_all
    have ne: "hdr_seq_host (pkt s p) \<noteq> next_seq s c"
      using Suc.prems(2,3) get r q(1) by (auto simp: Let_def split: if_splits prod.splits)
    have at: "acct (add_mset p M) s1" using rx_get_acct(1) [OF Suc.prems(1) get] r by simp
    have "0 < csp_queue_free (rdp_rx s1)" using q(1,3,5,6) by (simp add: capacity_def)
    then obtain q' where q': "csp_rdp_queue_rx_add c p s1 = s\<lparr>rdp_rx := q'\<rparr>" "queue_list q' = (vs @ us) @ [p]"
      using rx_readd [OF at, of p c] q(1,4,6) by auto
    have acct: "acct M (s\<lparr>rdp_rx := q'\<rparr>)" using rx_add_acct [OF at, of c] q'(1) by simp
    have rest: "rx_flush_for n c (s\<lparr>rdp_rx := q'\<rparr>) = (False, t)"
      using Suc.prems(2,3) get r ne q'(1) q(1) by (auto split: if_splits)
    have "filter (\<lambda>p. pconn (pkt s p) = Some c) (queue_list q') = xs' @ (ys @ [p])"
      using q'(2) head(2) none q(4) by simp
    then have "\<forall>p \<in> set xs'. hdr_seq_host (pkt s p) \<noteq> next_seq s c"
      using Suc.IH [OF acct rest, of xs' "ys @ [p]"] Suc.prems(3,5) Cons by simp
    then show ?thesis using ne head(1) Cons by simp
  qed simp
qed simp

text \<open>The packets \<open>ps\<close> went from the stack to the receive queue of the connection: their sequence
  numbers are consecutive from the expected one on, and their payload is complete.\<close>

definition delivered :: "nat \<Rightarrow> nat list \<Rightarrow> csp_state \<Rightarrow> csp_state \<Rightarrow> bool" where
  "delivered c ps s t \<longleftrightarrow>
     queue_list (rx_queue (conn t c)) = queue_list (rx_queue (conn s c)) @ map Some ps \<and>
     rcv_cur (rdp (conn t c)) = rcv_cur (rdp (conn s c)) + of_nat (length ps) \<and>
     (\<forall>i < length ps. hdr_seq_host (pkt s (ps ! i)) = next_seq s c + of_nat i \<and>
        pdata (pkt t (ps ! i)) = take (unat (plength (pkt s (ps ! i))) - 5) (pdata (pkt s (ps ! i))))"

lemma delivered_Nil [simp]:
  "delivered c [] s t \<longleftrightarrow> queue_list (rx_queue (conn t c)) = queue_list (rx_queue (conn s c)) \<and>
     rcv_cur (rdp (conn t c)) = rcv_cur (rdp (conn s c))"
  by (simp add: delivered_def)

lemma delivered_Cons:
  assumes "delivered c [p] s t" "delivered c ps t u" "pkt u p = pkt t p" "\<forall>h \<in> set ps. pkt t h = pkt s h"
  shows "delivered c (p # ps) s u"
  unfolding delivered_def
proof (intro conjI allI impI)
  have st: "queue_list (rx_queue (conn t c)) = queue_list (rx_queue (conn s c)) @ [Some p]"
    "rcv_cur (rdp (conn t c)) = rcv_cur (rdp (conn s c)) + 1" "hdr_seq_host (pkt s p) = next_seq s c"
    "pdata (pkt t p) = take (unat (plength (pkt s p)) - 5) (pdata (pkt s p))"
    using assms(1) by (simp_all add: delivered_def)
  have tu: "queue_list (rx_queue (conn u c)) = queue_list (rx_queue (conn t c)) @ map Some ps"
    "rcv_cur (rdp (conn u c)) = rcv_cur (rdp (conn t c)) + of_nat (length ps)"
    "\<forall>i < length ps. hdr_seq_host (pkt t (ps ! i)) = next_seq t c + of_nat i \<and>
        pdata (pkt u (ps ! i)) = take (unat (plength (pkt t (ps ! i))) - 5) (pdata (pkt t (ps ! i)))"
    using assms(2) by (simp_all add: delivered_def)
  show "queue_list (rx_queue (conn u c)) = queue_list (rx_queue (conn s c)) @ map Some (p # ps)"
    "rcv_cur (rdp (conn u c)) = rcv_cur (rdp (conn s c)) + of_nat (length (p # ps))"
    using st tu by (simp_all add: ac_simps)
  fix i assume "i < length (p # ps)"
  then show "hdr_seq_host (pkt s ((p # ps) ! i)) = next_seq s c + of_nat i"
    "pdata (pkt u ((p # ps) ! i)) = take (unat (plength (pkt s ((p # ps) ! i))) - 5) (pdata (pkt s ((p # ps) ! i)))"
    using st tu assms(3,4) by (cases i; simp add: ac_simps)+
qed

lemma rx_once: "acct M s \<Longrightarrow> mset (queue_list (rdp_rx s)) = add_mset p N \<Longrightarrow> p \<notin># N"
proof -
  assume a: "acct M s" and q: "mset (queue_list (rdp_rx s)) = add_mset p N"
  have "mset (queue_list (rdp_rx s)) \<subseteq># owned s + M" by (simp add: owned_def subset_mset.add_increasing2)
  then have "add_mset p N \<subseteq># mset_set (allocated s)" using a q by (simp add: acct_def)
  then have "count (add_mset p N) p \<le> count (mset_set (allocated s)) p" by (rule mset_subset_eq_count)
  then have "count N p = 0" by (simp add: count_mset_set' split: if_splits)
  then show "p \<notin># N" by (simp add: not_in_iff)
qed

definition flushed :: "nat \<Rightarrow> nat list \<Rightarrow> csp_state \<Rightarrow> csp_state \<Rightarrow> bool" where
  "flushed c ps s t \<longleftrightarrow> delivered c ps s t \<and> rdp_frame c s t \<and> sockets t = sockets s \<and>
     mset (queue_list (rdp_rx s)) = mset ps + mset (queue_list (rdp_rx t)) \<and>
     (\<forall>h. h \<notin> set ps \<longrightarrow> pkt t h = pkt s h) \<and>
     (\<exists>q n. conn t c = (conn s c)\<lparr>rx_queue := q, rdp := (rdp (conn s c))\<lparr>rcv_cur := n\<rparr>\<rparr>)"

text \<open>No packet of the connection that waits in the stack could be delivered now.\<close>

definition rx_settled :: "nat \<Rightarrow> csp_state \<Rightarrow> bool" where
  "rx_settled c s \<longleftrightarrow> csp_queue_free (rx_queue (conn s c)) \<le> 2 \<or>
     (\<forall>p \<in> set (queue_list (rdp_rx s)). pconn (pkt s p) = Some c \<longrightarrow> hdr_seq_host (pkt s p) \<noteq> next_seq s c)"

lemma flushed_conn_refl: "\<exists>q n. k = k\<lparr>rx_queue := q, rdp := (rdp k)\<lparr>rcv_cur := n\<rparr>\<rparr>"
  by (intro exI [where x = "rx_queue k"], intro exI [where x = "rcv_cur (rdp k)"]) simp

lemma rx_flush_again:
  assumes "acct M s" "rx_sized s" "c < length (conns s)" "rx_flush_for n c s = (True, t)"
  obtains p where "acct M t" "flushed c [p] s t" "rx_sized t" "c < length (conns t)"
    "p \<in># mset (queue_list (rdp_rx s))" "p \<notin># mset (queue_list (rdp_rx t))"
proof -
  obtain p q r where u: "acct M t" "mset (queue_list (rdp_rx s)) = add_mset p (mset (queue_list q))"
    "hdr_seq_host (pkt s p) = next_seq s c" "queue_list r = queue_list (rx_queue (conn s c)) @ [Some p]"
    "t = upd_rdp c (\<lambda>x. x\<lparr>rcv_cur := rcv_cur x + 1\<rparr>) (upd_conn c (\<lambda>k. k\<lparr>rx_queue := r\<rparr>)
        (set_pkt p (csp_rdp_header_remove (pkt s p)) (s\<lparr>rdp_rx := q\<rparr>)))"
    using rx_flush_for_spec [OF assms] by (simp only: if_True) blast
  define v where "v = set_pkt p (csp_rdp_header_remove (pkt s p)) (s\<lparr>rdp_rx := q\<rparr>)"
  have t: "t = upd_rdp c (\<lambda>x. x\<lparr>rcv_cur := rcv_cur x + 1\<rparr>) (upd_conn c (\<lambda>k. k\<lparr>rx_queue := r\<rparr>) v)"
    using u(5) by (simp add: v_def)
  have vf: "conns v = conns s" "rdp_rx v = q" "sockets v = sockets s" "length (conns v) = length (conns s)"
    by (simp_all add: v_def set_pkt_def)
  have rx: "rdp_rx t = q" "sockets t = sockets s" "length (conns t) = length (conns s)"
    using vf by (simp_all add: t upd_rdp_def upd_conn_def)
  have p: "p \<in># mset (queue_list (rdp_rx s))" using u(2) by simp
  have pa: "p \<in> allocated s"
    using owned_allocated [OF assms(1), of p] p by (simp add: owned_def)
  then have pl: "p < length (bufs s)" "packet_wf (pkt s p)"
    using assms(1) by (auto simp: allocated_def acct_def pool_inv_def)
  have pt: "pkt t h = (if h = p then csp_rdp_header_remove (pkt s p) else pkt s h)" for h
    using pl(1) by (simp add: t v_def)
  have np: "p \<notin># mset (queue_list q)" by (rule rx_once [OF assms(1) u(2)])
  have ct: "conn t c = (conn s c)\<lparr>rx_queue := r, rdp := (rdp (conn s c))\<lparr>rcv_cur := next_seq s c\<rparr>\<rparr>"
    using assms(3) vf by (simp add: t conn_upd) (simp add: conn_def)
  have fr: "rdp_frame c s t" unfolding t v_def
    by (rule rdp_frame_trans [OF rdp_frame_fields(8) rdp_frame_trans [OF rdp_frame_fields(6)
          rdp_frame_trans [OF rdp_frame_fields(1) rdp_frame_fields(2)]]])
  have "5 \<le> unat (plength (pkt s p))" using assms(2) p by (auto simp: rx_sized_def)
  then have "pdata (pkt t p) = take (unat (plength (pkt s p)) - 5) (pdata (pkt s p))"
    using header_remove(2) [OF pl(2)] pt by simp
  then have "delivered c [p] s t" using ct u(3,4) by (simp add: delivered_def)
  then have "flushed c [p] s t" unfolding flushed_def using fr rx u(2) pt ct by auto
  moreover have "rx_sized t"
    using assms(2) np rx(1) pt mset_eq_setD [of "queue_list (rdp_rx s)" "p # queue_list q"] u(2)
    by (auto simp: rx_sized_def)
  ultimately show ?thesis using that [OF u(1)] rx p np assms(3) by simp
qed

lemma flushed_Cons:
  assumes "flushed c [p] s t" "flushed c ps t u" "p \<notin># mset (queue_list (rdp_rx t))"
  shows "flushed c (p # ps) s u"
proof -
  have "p \<notin> set ps" using assms(2,3) by (auto simp: flushed_def)
  moreover have "h \<noteq> p" if "h \<in> set ps" for h using \<open>p \<notin> set ps\<close> that by auto
  ultimately have "delivered c (p # ps) s u"
    using assms(1,2) by (intro delivered_Cons [of c p s t ps u]) (auto simp: flushed_def)
  moreover have "rdp_frame c s u" using assms(1,2) rdp_frame_trans by (auto simp: flushed_def)
  moreover obtain q n q' n' where "conn t c = (conn s c)\<lparr>rx_queue := q, rdp := (rdp (conn s c))\<lparr>rcv_cur := n\<rparr>\<rparr>"
    "conn u c = (conn t c)\<lparr>rx_queue := q', rdp := (rdp (conn t c))\<lparr>rcv_cur := n'\<rparr>\<rparr>"
    using assms(1,2) unfolding flushed_def by blast
  then have "\<exists>q n. conn u c = (conn s c)\<lparr>rx_queue := q, rdp := (rdp (conn s c))\<lparr>rcv_cur := n\<rparr>\<rparr>" by auto
  ultimately show ?thesis using assms(1,2) by (auto simp: flushed_def)
qed

lemma rx_flush_front_spec:
  assumes "acct M s" "rx_sized s" "c < length (conns s)"
  shows "acct M (rx_flush_front n c s) \<and> rx_sized (rx_flush_front n c s) \<and>
    (\<exists>ps. flushed c ps s (rx_flush_front n c s)) \<and>
    (length (queue_list (rdp_rx s)) < n \<longrightarrow> rx_settled c (rx_flush_front n c s))"
  using assms
proof (induction n arbitrary: s)
  case 0
  then show ?case by (auto simp: flushed_def intro!: exI [of _ "[]"] flushed_conn_refl)
next
  case (Suc n)
  obtain again t where f: "rx_flush_for (csp_rdp_queue_rx_size s) c s = (again, t)" by (rule prod.exhaust)
  show ?case
  proof (cases again)
    case True
    obtain p where p: "acct M t" "flushed c [p] s t" "rx_sized t" "c < length (conns t)"
      "p \<in># mset (queue_list (rdp_rx s))" "p \<notin># mset (queue_list (rdp_rx t))"
      by (rule rx_flush_again [OF Suc.prems, of "csp_rdp_queue_rx_size s" t]) (use f True in simp_all)
    note IH = Suc.IH [OF p(1,3,4)]
    have eq: "rx_flush_front (Suc n) c s = rx_flush_front n c t" using f True by simp
    have "mset (queue_list (rdp_rx s)) = mset [p] + mset (queue_list (rdp_rx t))"
      using p(2) unfolding flushed_def by blast
    from arg_cong [OF this, of size] have "length (queue_list (rdp_rx s)) = Suc (length (queue_list (rdp_rx t)))"
      by simp
    then show ?thesis unfolding eq using IH flushed_Cons [OF p(2) _ p(6)] by auto
  next
    case False
    have eq: "rx_flush_front (Suc n) c s = t" using f False by simp
    obtain q where q: "acct M t" "t = s\<lparr>rdp_rx := q\<rparr>" "mset (queue_list q) = mset (queue_list (rdp_rx s))"
      using rx_flush_for_spec [OF Suc.prems f] False by auto
    have sets: "set (queue_list q) = set (queue_list (rdp_rx s))" by (rule mset_eq_setD [OF q(3)])
    let ?xs = "filter (\<lambda>p. pconn (pkt s p) = Some c) (queue_list (rdp_rx s))"
    have "length ?xs \<le> csp_rdp_queue_rx_size s"
      using ring.qlen_eq [OF acct_queue_inv(3) [OF Suc.prems(1)]]
      by (simp add: csp_rdp_queue_rx_size_def length_filter_le)
    then have "rx_settled c t"
      using rx_flush_for_complete [OF Suc.prems(1), of "csp_rdp_queue_rx_size s" c t ?xs "[]"] sets q(2) f False
      by (auto simp: rx_settled_def)
    moreover have "rx_sized t" using Suc.prems(2) q(2) sets by (simp add: rx_sized_def)
    moreover have "flushed c [] s t" using q(2,3) by (simp add: flushed_def flushed_conn_refl)
    ultimately show ?thesis unfolding eq using q(1) by blast
  qed
qed

section \<open>Effect of acknowledging and closing\<close>

lemma rdp_flag_bits [simp]:
  "RDP_ACK AND RDP_SYN = 0" "(RDP_ACK OR RDP_RST) AND RDP_SYN = 0" "RDP_RST AND RDP_SYN = 0"
  "(RDP_ACK OR RDP_SYN) AND RDP_SYN \<noteq> 0"
  by (simp_all add: RDP_ACK_def RDP_SYN_def RDP_RST_def)

lemma cmp_effect_refl [simp]: "cmp_effect c ack s s"
  by (simp add: cmp_effect_def)

lemma cmp_effect_conn:
  assumes "cmp_effect c ack s t" "c < length (conns s)"
  shows "conn t c = conn s c \<or> conn t c = ack_recorded ack (now s) (conn s c)" "length (conns t) = length (conns s)"
    "rdp_frame c s t" "sockets t = sockets s"
  using assms by (auto simp: cmp_effect_def conn_def)

lemma ack_recorded_fields [simp]:
  "ctype (ack_recorded a t k) = ctype k" "cstate (ack_recorded a t k) = cstate k" "cidin (ack_recorded a t k) = cidin k"
  "cidout (ack_recorded a t k) = cidout k" "dest_socket (ack_recorded a t k) = dest_socket k"
  "ctimestamp (ack_recorded a t k) = ctimestamp k" "copts (ack_recorded a t k) = copts k"
  "rdp_st (rdp (ack_recorded a t k)) = rdp_st (rdp k)" "closed_by (rdp (ack_recorded a t k)) = closed_by (rdp k)"
  "rcv_cur (rdp (ack_recorded a t k)) = rcv_cur (rdp k)" "snd_nxt (rdp (ack_recorded a t k)) = snd_nxt (rdp k)"
  "snd_una (rdp (ack_recorded a t k)) = snd_una (rdp k)" "window_size (rdp (ack_recorded a t k)) = window_size (rdp k)"
  "rcv_irs (rdp (ack_recorded a t k)) = rcv_irs (rdp k)" "snd_iss (rdp (ack_recorded a t k)) = snd_iss (rdp k)"
  by (simp_all add: ack_recorded_def)

lemma rx_sized_fixed:
  assumes "rx_sized s" "rdp_rx t = rdp_rx s" "\<And>h. h \<in># fixed_pkts M s \<Longrightarrow> pkt t h = pkt s h"
  shows "rx_sized t"
  using assms by (auto simp: rx_sized_def fixed_pkts_def)

text \<open>A control message without SYN, in one package: accounting, effect and kept packets.\<close>

lemma send_cmp_plain:
  assumes "acct M s" "rx_sized s" "fl AND RDP_SYN = 0" and t: "t = snd (csp_rdp_send_cmp c None fl seq ack s)"
  shows "acct M t" "rx_sized t" "cmp_effect c ack s t" "\<And>h. h \<in># fixed_pkts M s \<Longrightarrow> pkt t h = pkt s h"
proof -
  have "csp_rdp_send_cmp c None fl seq ack s = (fst (csp_rdp_send_cmp c None fl seq ack s), t)" using t by simp
  note sp = send_cmp_spec [OF assms(1) this]
  show "acct M t" using sp(1) assms(3) by simp
  show "cmp_effect c ack s t" by (rule sp(2))
  show "pkt t h = pkt s h" if "h \<in># fixed_pkts M s" for h by (rule sp(3) [OF that])
  then show "rx_sized t" using rx_sized_fixed [OF assms(2), of t M] sp(2) by (simp add: cmp_effect_def)
qed

lemma check_ack_spec:
  assumes "acct M s" "rx_sized s" and t: "t = snd (csp_rdp_check_ack c s)"
  shows "acct M t" "rx_sized t" "cmp_effect c (rcv_cur (rdp (conn s c))) s t"
    "\<And>h. h \<in># fixed_pkts M s \<Longrightarrow> pkt t h = pkt s h"
proof -
  have "t = s \<or> t = snd (csp_rdp_send_cmp c None RDP_ACK (snd_nxt (rdp (conn s c))) (rcv_cur (rdp (conn s c))) s)"
    by (simp add: t csp_rdp_check_ack_def)
  then show "acct M t" "rx_sized t" "cmp_effect c (rcv_cur (rdp (conn s c))) s t"
    "\<And>h. h \<in># fixed_pkts M s \<Longrightarrow> pkt t h = pkt s h"
    using send_cmp_plain [OF assms(1,2) rdp_flag_bits(1) refl] assms(1,2) by (elim disjE; simp)+
qed

lemma rx_sized_upd [simp]:
  "rx_sized (upd_conn c f s) = rx_sized s" "rx_sized (upd_rdp c g s) = rx_sized s" "rx_sized (sem_post c s) = rx_sized s"
  "rx_sized (conn_ovf_inc s) = rx_sized s" "rx_sized (set_errno e s) = rx_sized s"
  by (simp_all add: rx_sized_def upd_conn_def upd_rdp_def sem_post_def conn_ovf_inc_def upd_dbg_def set_errno_def pkt_def)

text \<open>Closing: what is left of the connection, and who still has to close it.\<close>

definition closing_by :: "u8 \<Rightarrow> csp_conn \<Rightarrow> csp_conn \<Rightarrow> bool" where
  "closing_by by' k k' \<longleftrightarrow> ctype k' = ctype k \<and> cstate k' = cstate k \<and> cidin k' = cidin k \<and> cidout k' = cidout k \<and>
     dest_socket k' = dest_socket k \<and> copts k' = copts k \<and> rx_queue k' = rx_queue k \<and>
     (if rdp_st (rdp k) = RDP_CLOSED then k' = k
      else if closed_by (rdp k) OR by' = CSP_RDP_CLOSED_BY_ALL
      then rdp_st (rdp k') = RDP_CLOSED \<and> closed_by (rdp k') = 0
      else rdp_st (rdp k') = RDP_CLOSE_WAIT \<and> closed_by (rdp k') = closed_by (rdp k) OR by')"

lemma fixed_upd_conn:
  assumes "\<And>k. rx_queue (f k) = rx_queue k"
  shows "fixed_pkts M (upd_conn c f s) = fixed_pkts M s"
proof -
  have "map rx_queue ((conns s)[c := f (conn s c)]) = map rx_queue (conns s)"
    unfolding map_update assms conn_def
    by (cases "c < length (conns s)") (simp_all add: list_update_same_conv list_update_beyond)
  then have "map conn_owned ((conns s)[c := f (conn s c)]) = map conn_owned (conns s)" by (rule conn_owned_cong)
  then show ?thesis by (simp add: fixed_pkts_def upd_conn_def)
qed

lemma fixed_upd [simp]:
  "fixed_pkts M (upd_rdp c g s) = fixed_pkts M s" "fixed_pkts M (sem_post c s) = fixed_pkts M s"
  by (simp_all add: upd_rdp_def sem_post_def fixed_upd_conn)

lemma close_internal_spec:
  assumes "acct M s" "rx_sized s" "c < length (conns s)" "csp_rdp_close_internal c by' rst s = (e, t)"
  shows "acct M t \<and> rx_sized t \<and> rdp_frame c s t \<and> sockets t = sockets s \<and> rdp_rx t = rdp_rx s \<and>
    closing_by by' (conn s c) (conn t c) \<and> (\<forall>h. h \<in># fixed_pkts M s \<longrightarrow> pkt t h = pkt s h) \<and>
    (e = CSP_ERR_AGAIN \<longleftrightarrow> rdp_st (rdp (conn t c)) = RDP_CLOSE_WAIT) \<and> e \<in> {CSP_ERR_NONE, CSP_ERR_AGAIN}"
proof (cases "rdp_st (rdp (conn s c)) = RDP_CLOSED")
  case True
  then show ?thesis using assms by (auto simp: csp_rdp_close_internal_def closing_by_def)
next
  case False
  define s1 where "s1 = upd_rdp c (\<lambda>r. r\<lparr>closed_by := closed_by r OR by'\<rparr>) s"
  define s2 where "s2 = upd_conn c (\<lambda>k. k\<lparr>rdp := (rdp k)\<lparr>rdp_st := RDP_CLOSE_WAIT\<rparr>, ctimestamp := now s1\<rparr>) s1"
  define s3 where "s3 = (if rst then snd (csp_rdp_send_cmp c None (RDP_ACK OR RDP_RST)
      (snd_nxt (rdp (conn s2 c))) (rcv_cur (rdp (conn s2 c))) s2) else s2)"
  define s4 where "s4 = (if rdp_st (rdp (conn s1 c)) \<noteq> RDP_CLOSE_WAIT then sem_post c s3 else s1)"
  have res: "(e, t) = (if closed_by (rdp (conn s4 c)) \<noteq> CSP_RDP_CLOSED_BY_ALL then (CSP_ERR_AGAIN, s4)
      else (CSP_ERR_NONE, upd_rdp c (\<lambda>r. r\<lparr>rdp_st := RDP_CLOSED, closed_by := 0\<rparr>) s4))"
    using assms(4) False
    by (simp add: csp_rdp_close_internal_def s1_def s2_def s3_def s4_def Let_def split: if_splits)
  have len: "c < length (conns s1)" "c < length (conns s2)" "length (conns s1) = length (conns s)" using assms(3) by (simp_all add: s1_def s2_def)
  have c1: "conn s1 c = (conn s c)\<lparr>rdp := (rdp (conn s c))\<lparr>closed_by := closed_by (rdp (conn s c)) OR by'\<rparr>\<rparr>"
    using assms(3) by (simp add: s1_def conn_upd)
  have c2: "conn s2 c = (conn s1 c)\<lparr>rdp := (rdp (conn s1 c))\<lparr>rdp_st := RDP_CLOSE_WAIT\<rparr>, ctimestamp := now s1\<rparr>"
    using len(1) by (simp add: s2_def conn_upd)
  have base1: "acct M s1" "rx_sized s1" "rdp_frame c s s1" "sockets s1 = sockets s" "rdp_rx s1 = rdp_rx s"
    "fixed_pkts M s1 = fixed_pkts M s" "\<And>h. pkt s1 h = pkt s h"
    using assms(1,2) by (simp_all add: s1_def)
  have base2: "acct M s2" "rx_sized s2" "rdp_frame c s s2" "sockets s2 = sockets s" "rdp_rx s2 = rdp_rx s"
    "fixed_pkts M s2 = fixed_pkts M s" "\<And>h. pkt s2 h = pkt s h"
    using base1 rdp_frame_trans [OF base1(3) rdp_frame_fields(1)]
    by (simp_all add: s2_def acct_upd_conn fixed_upd_conn)
  note sp = send_cmp_plain [OF base2(1,2) rdp_flag_bits(2) refl,
      where c = c and seq = "snd_nxt (rdp (conn s2 c))" and ack = "rcv_cur (rdp (conn s2 c))"]
  have base3: "acct M s3" "rx_sized s3" "rdp_frame c s s3" "sockets s3 = sockets s" "rdp_rx s3 = rdp_rx s"
    "conn s3 c = conn s2 c \<or> conn s3 c = ack_recorded (rcv_cur (rdp (conn s2 c))) (now s2) (conn s2 c)"
    "length (conns s3) = length (conns s)" "h \<in># fixed_pkts M s \<Longrightarrow> pkt s3 h = pkt s h" for h
    using base2 sp cmp_effect_conn [OF sp(3) len(2)] rdp_frame_trans [OF base2(3)] len(2) assms(3)
    by (auto simp: s3_def cmp_effect_def s1_def s2_def)
  have base4: "acct M s4" "rx_sized s4" "rdp_frame c s s4" "sockets s4 = sockets s" "rdp_rx s4 = rdp_rx s"
    "length (conns s4) = length (conns s)" "h \<in># fixed_pkts M s \<Longrightarrow> pkt s4 h = pkt s h" for h
    using base1 base3 len rdp_frame_trans [OF base3(3) rdp_frame_fields(3)]
    by (auto simp: s4_def s2_def)
  have post3: "conn (sem_post c s3) c = (conn s3 c)\<lparr>rdp := (rdp (conn s3 c))\<lparr>tx_wait := True\<rparr>\<rparr>"
    using base3(7) assms(3) by (simp add: conn_upd)
  have c4: "ctype (conn s4 c) = ctype (conn s c)" "cstate (conn s4 c) = cstate (conn s c)"
    "cidin (conn s4 c) = cidin (conn s c)" "cidout (conn s4 c) = cidout (conn s c)"
    "dest_socket (conn s4 c) = dest_socket (conn s c)" "copts (conn s4 c) = copts (conn s c)"
    "rx_queue (conn s4 c) = rx_queue (conn s c)" "closed_by (rdp (conn s4 c)) = closed_by (rdp (conn s c)) OR by'"
    "rdp_st (rdp (conn s4 c)) = RDP_CLOSE_WAIT"
    using base3(6) post3 by (auto simp: s4_def c1 c2)
  have c5: "conn (upd_rdp c (\<lambda>r. r\<lparr>rdp_st := RDP_CLOSED, closed_by := 0\<rparr>) s4) c =
      (conn s4 c)\<lparr>rdp := (rdp (conn s4 c))\<lparr>rdp_st := RDP_CLOSED, closed_by := 0\<rparr>\<rparr>"
    using base4(6) assms(3) by (simp add: conn_upd)
  have f5: "rdp_frame c s (upd_rdp c g s4)" for g by (rule rdp_frame_trans [OF base4(3) rdp_frame_fields(2)])
  show ?thesis
  proof (cases "closed_by (rdp (conn s c)) OR by' = CSP_RDP_CLOSED_BY_ALL")
    case True
    then have "e = CSP_ERR_NONE" "t = upd_rdp c (\<lambda>r. r\<lparr>rdp_st := RDP_CLOSED, closed_by := 0\<rparr>) s4"
      using res c4(8) by simp_all
    then show ?thesis using base4 c4 c5 f5 False True by (simp add: closing_by_def)
  next
    case no: False
    then have "e = CSP_ERR_AGAIN" "t = s4" using res c4(8) by simp_all
    then show ?thesis using base4 c4 False no by (simp add: closing_by_def)
  qed
qed

lemma more_upd_conn:
  "csp_pool.more t = csp_pool.more s \<Longrightarrow> csp_pool.more (upd_conn c f t) = csp_pool.more (upd_conn c f s)"
  by (cases s, cases t) (simp add: upd_conn_def conn_def)

lemma errno_fields [simp]: "conn (set_errno e s) c = conn s c" "pkt (set_errno e s) h = pkt s h"
  by (simp_all add: set_errno_def conn_def pkt_def)

lemma sockets_errno [simp]: "sockets (set_errno e s) = sockets s"
  by (simp add: set_errno_def)

lemma conn_flush_loop_spec:
  assumes "acct M s" "c < length (conns s)" "n = length (queue_list (rx_queue (conn s c)))"
  shows "acct M (conn_flush_loop n c s) \<and> (\<forall>h. pkt (conn_flush_loop n c s) h = pkt s h) \<and>
    (\<exists>q. csp_pool.more (conn_flush_loop n c s) = csp_pool.more (upd_conn c (\<lambda>k. k\<lparr>rx_queue := q\<rparr>) s) \<and> queue_list q = [])"
  using assms
proof (induction n arbitrary: s)
  case 0
  then have "upd_conn c (\<lambda>k. k\<lparr>rx_queue := rx_queue (conn s c)\<rparr>) s = s" by (simp add: upd_conn_def conn_def)
  then show ?case using 0 by (auto intro!: exI [of _ "rx_queue (conn s c)"])
next
  case (Suc n)
  obtain x xs where L: "queue_list (rx_queue (conn s c)) = x # xs"
    using Suc.prems(3) by (cases "queue_list (rx_queue (conn s c))") auto
  obtain q where q: "csp_queue_dequeue (rx_queue (conn s c)) = (Some x, q)" "queue_inv q" "queue_list q = xs"
    using ring.deq_some [OF acct_queue_inv(5) [OF Suc.prems(1,2)] L] by blast
  define s1 where "s1 = upd_conn c (\<lambda>k. k\<lparr>rx_queue := q\<rparr>) s"
  have a1: "acct (case x of None \<Rightarrow> M | Some p \<Rightarrow> add_mset p M) s1"
    unfolding s1_def upd_conn_def
    by (rule acct_conn_rx [OF Suc.prems(1,2)])
      (use q(2,3) L in \<open>simp_all add: conn_owned_def List.map_filter_def split: option.split\<close>)
  define s2 where "s2 = csp_buffer_free x s1"
  have a2: "acct M s2" "csp_pool.more s2 = csp_pool.more s1" "\<And>h. pkt s2 h = pkt s h"
    using a1 acct_free [of _ M s1] by (cases x; auto simp: s2_def s1_def csp_buffer_free_def)+
  have c1: "conn s1 c = (conn s c)\<lparr>rx_queue := q\<rparr>" using Suc.prems(2) by (simp add: s1_def conn_upd)
  have c2: "conn s2 c = (conn s c)\<lparr>rx_queue := q\<rparr>" "c < length (conns s2)"
    using more_fields [OF a2(2)] c1 Suc.prems(2) by (simp_all add: s1_def)
  have eq: "conn_flush_loop (Suc n) c s = conn_flush_loop n c s2" using q(1) by (simp add: s1_def s2_def)
  have "upd_conn c (\<lambda>k. k\<lparr>rx_queue := r\<rparr>) s1 = upd_conn c (\<lambda>k. k\<lparr>rx_queue := r\<rparr>) s" for r
    using Suc.prems(2) by (simp add: s1_def upd_conn_def conn_def)
  then have "csp_pool.more (upd_conn c (\<lambda>k. k\<lparr>rx_queue := r\<rparr>) s2) = csp_pool.more (upd_conn c (\<lambda>k. k\<lparr>rx_queue := r\<rparr>) s)" for r
    using more_upd_conn [OF a2(2)] by simp
  with Suc.IH [OF a2(1) c2(2)] c2(1) q(3) L Suc.prems(3) a2(3) show ?case unfolding eq by simp
qed

lemma conn_more:
  assumes "csp_pool.more t = csp_pool.more (upd_conn c f s)" "c < length (conns s)"
  shows "conn t c = f (conn s c)" "rdp_frame c s t" "sockets t = sockets s" "rdp_rx t = rdp_rx s" "rdp_tx t = rdp_tx s"
    "length (conns t) = length (conns s)"
  using more_fields [OF assms(1)] assms(2)
    rdp_frame_trans [OF rdp_frame_fields(1) rdp_frame_net [OF net_frame_more [OF assms(1)]]]
  by (simp_all add: conn_upd)

lemma conn_flush_spec:
  assumes "acct M s" "c < length (conns s)" and t: "t = csp_conn_flush_rx_queue c s"
  shows "acct M t" "pkt t h = pkt s h" "\<exists>q. conn t c = (conn s c)\<lparr>rx_queue := q\<rparr> \<and> queue_list q = []"
    "rdp_frame c s t" "sockets t = sockets s" "rdp_rx t = rdp_rx s" "rdp_tx t = rdp_tx s" "length (conns t) = length (conns s)"
proof -
  have len: "csp_queue_size (rx_queue (conn s c)) = length (queue_list (rx_queue (conn s c)))"
    by (rule ring.qlen_eq [OF acct_queue_inv(5) [OF assms(1,2)]])
  note l = conn_flush_loop_spec [OF assms(1,2) len, folded csp_conn_flush_rx_queue_def t]
  then obtain q where q: "csp_pool.more t = csp_pool.more (upd_conn c (\<lambda>k. k\<lparr>rx_queue := q\<rparr>) s)" "queue_list q = []"
    by blast
  note m = conn_more [OF q(1) assms(2)]
  show "acct M t" "pkt t h = pkt s h" "\<exists>q. conn t c = (conn s c)\<lparr>rx_queue := q\<rparr> \<and> queue_list q = []"
    "rdp_frame c s t" "sockets t = sockets s" "rdp_rx t = rdp_rx s" "rdp_tx t = rdp_tx s" "length (conns t) = length (conns s)"
    using l m q(2) by auto
qed

lemma queue_flush_frame:
  assumes "acct M s" and t: "t = csp_rdp_queue_flush (Some c) s"
  shows "acct M t" "pkt t h = pkt s h" "conns t = conns s" "sockets t = sockets s" "rdp_frame d s t"
    "set (queue_list (rdp_rx t)) \<subseteq> set (queue_list (rdp_rx s))"
    "\<forall>p \<in> set (queue_list (rdp_tx t)) \<union> set (queue_list (rdp_rx t)). pconn (pkt t p) \<noteq> Some c"
proof -
  note f = queue_flush_spec [OF assms(1), of "Some c", folded t]
  show "acct M t" "pkt t h = pkt s h" using f by simp_all
  obtain q r where m: "csp_pool.more t = csp_pool.more (s\<lparr>rdp_tx := q, rdp_rx := r\<rparr>)" using f(4) by blast
  show "conns t = conns s" "sockets t = sockets s" using more_fields [OF m] by simp_all
  show "rdp_frame d s t"
    by (rule rdp_frame_trans [OF rdp_frame_fields(7) rdp_frame_trans [OF rdp_frame_fields(8)
        rdp_frame_net [OF net_frame_more [OF m]]]])
  show "set (queue_list (rdp_rx t)) \<subseteq> set (queue_list (rdp_rx s))" using f(3) by auto
  show "\<forall>p \<in> set (queue_list (rdp_tx t)) \<union> set (queue_list (rdp_rx t)). pconn (pkt t p) \<noteq> Some c"
    using f(2,3,5) by (auto simp: queue_flush_spec(5) [OF assms(1)] t)
qed

text \<open>Who has to close a connection before it is free again.\<close>

definition uses_rdp :: "csp_conn \<Rightarrow> bool" where
  "uses_rdp k \<longleftrightarrow> flags (cidin k) AND CSP_FRDP \<noteq> 0 \<or> flags (cidout k) AND CSP_FRDP \<noteq> 0"

definition close_waits :: "u8 \<Rightarrow> csp_conn \<Rightarrow> bool" where
  "close_waits by' k \<longleftrightarrow> uses_rdp k \<and> rdp_st (rdp k) \<noteq> RDP_CLOSED \<and> closed_by (rdp k) OR by' \<noteq> CSP_RDP_CLOSED_BY_ALL"

lemma conn_close_spec:
  assumes "acct M s" "rx_sized s" "c < length (conns s)" "csp_conn_close (Some c) by' s = (e, t)"
  shows "acct M t \<and> rx_sized t \<and> rdp_frame c s t \<and> sockets t = sockets s \<and> e = CSP_ERR_NONE \<and>
    (\<forall>h. h \<in># M \<longrightarrow> pkt t h = pkt s h) \<and> cidin (conn t c) = cidin (conn s c) \<and> dest_socket (conn t c) = dest_socket (conn s c) \<and>
    (if cstate (conn s c) = CONN_CLOSED then t = set_errno CSP_DBG_ERR_ALREADY_CLOSED s
     else if close_waits by' (conn s c)
     then cstate (conn t c) = CONN_OPEN \<and> rx_queue (conn t c) = rx_queue (conn s c) \<and>
       rdp_st (rdp (conn t c)) = RDP_CLOSE_WAIT \<and> closed_by (rdp (conn t c)) = closed_by (rdp (conn s c)) OR by'
     else cstate (conn t c) = CONN_CLOSED \<and> queue_list (rx_queue (conn t c)) = [] \<and>
       (uses_rdp (conn s c) \<longrightarrow> rdp_st (rdp (conn t c)) = RDP_CLOSED) \<and>
       (flags (cidin (conn s c)) AND CSP_FRDP \<noteq> 0 \<longrightarrow>
          (\<forall>p \<in> set (queue_list (rdp_tx t)) \<union> set (queue_list (rdp_rx t)). pconn (pkt t p) \<noteq> Some c)))"
proof (cases "cstate (conn s c) = CONN_CLOSED")
  case True
  then show ?thesis using assms by (auto simp: csp_conn_close_def)
next
  case open': False
  define s1 where "s1 = (if uses_rdp (conn s c) then snd (csp_rdp_close c by' s) else s)"
  define e1 where "e1 = (if uses_rdp (conn s c) then fst (csp_rdp_close c by' s) else CSP_ERR_NONE)"
  define s2 where "s2 = csp_conn_flush_rx_queue c s1"
  define s3 where "s3 = (if flags (cidin (conn s2 c)) AND CSP_FRDP \<noteq> 0 then csp_rdp_queue_flush (Some c) s2 else s2)"
  have res: "(e, t) = (if e1 = CSP_ERR_AGAIN then (CSP_ERR_NONE, s1)
      else (CSP_ERR_NONE, upd_conn c (\<lambda>k. k\<lparr>cstate := CONN_CLOSED\<rparr>) s3))"
  proof -
    have "(if uses_rdp (conn s c) then csp_rdp_close c by' s else (CSP_ERR_NONE, s)) = (e1, s1)"
      by (simp add: e1_def s1_def)
    then show ?thesis
      using assms(4) open' unfolding csp_conn_close_def option.case uses_rdp_def [symmetric]
      by (auto simp: Let_def s2_def s3_def split: if_splits)
  qed
  have cl: "acct M s1 \<and> rx_sized s1 \<and> rdp_frame c s s1 \<and> sockets s1 = sockets s \<and> rdp_rx s1 = rdp_rx s \<and>
    (if uses_rdp (conn s c) then closing_by by' (conn s c) (conn s1 c) else conn s1 c = conn s c) \<and>
    (\<forall>h. h \<in># fixed_pkts M s \<longrightarrow> pkt s1 h = pkt s h) \<and>
    (e1 = CSP_ERR_AGAIN \<longleftrightarrow> uses_rdp (conn s c) \<and> rdp_st (rdp (conn s1 c)) = RDP_CLOSE_WAIT)"
  proof (cases "uses_rdp (conn s c)")
    case True
    have "csp_rdp_close_internal c by' True s = (e1, s1)" using True by (simp add: s1_def e1_def csp_rdp_close_def)
    from close_internal_spec [OF assms(1-3) this] True show ?thesis by simp
  qed (use assms in \<open>simp add: s1_def e1_def\<close>)
  have open_st: "cstate (conn s1 c) = CONN_OPEN" "cidin (conn s1 c) = cidin (conn s c)"
    "dest_socket (conn s1 c) = dest_socket (conn s c)" "rx_queue (conn s1 c) = rx_queue (conn s c)"
    using cl open' by (auto simp: closing_by_def split: if_splits intro: conn_state.exhaust [of "cstate (conn s c)"])
  have kept: "pkt s1 h = pkt s h" if "h \<in># M" for h using cl that by (auto simp: fixed_pkts_def)
  have waits: "e1 = CSP_ERR_AGAIN \<longleftrightarrow> close_waits by' (conn s c)"
    using cl by (auto simp: close_waits_def closing_by_def split: if_splits)
  have st: "uses_rdp (conn s c) \<Longrightarrow> \<not> close_waits by' (conn s c) \<Longrightarrow> rdp_st (rdp (conn s1 c)) = RDP_CLOSED"
    using cl by (auto simp: close_waits_def closing_by_def split: if_splits)
  show ?thesis
  proof (cases "close_waits by' (conn s c)")
    case True
    then have "e = CSP_ERR_NONE" "t = s1" using res waits by simp_all
    then show ?thesis using cl open' open_st kept True
      by (auto simp: close_waits_def closing_by_def split: if_splits)
  next
    case False
    then have t: "e = CSP_ERR_NONE" "t = upd_conn c (\<lambda>k. k\<lparr>cstate := CONN_CLOSED\<rparr>) s3" using res waits by simp_all
    have a1: "acct M s1" "c < length (conns s1)" using cl assms(3) by (simp_all add: rdp_frame_def)
    note fl = conn_flush_spec [OF a1 s2_def]
    obtain q where q: "conn s2 c = (conn s1 c)\<lparr>rx_queue := q\<rparr>" "queue_list q = []" using fl(3) by blast
    note qf = queue_flush_frame [OF fl(1) refl, of c]
    have s3: "acct M s3" "\<And>h. pkt s3 h = pkt s1 h" "conns s3 = conns s2" "sockets s3 = sockets s"
      "rdp_frame c s2 s3" "set (queue_list (rdp_rx s3)) \<subseteq> set (queue_list (rdp_rx s))"
      using fl qf cl by (auto simp: s3_def)
    have emp: "\<forall>p \<in> set (queue_list (rdp_tx s3)) \<union> set (queue_list (rdp_rx s3)). pconn (pkt s3 p) \<noteq> Some c"
      if "flags (cidin (conn s c)) AND CSP_FRDP \<noteq> 0"
      using that qf(7) q(1) open_st(2) by (simp add: s3_def)
    have len: "c < length (conns s3)" using s3(3) fl(8) a1(2) by simp
    have ct: "conn t c = (conn s1 c)\<lparr>rx_queue := q, cstate := CONN_CLOSED\<rparr>"
      using len s3(3) q(1) by (simp add: t(2) conn_upd) (simp add: conn_def)
    have fr: "rdp_frame c s t"
      unfolding t(2) using cl fl(4) s3(5) rdp_frame_fields(1) by (meson rdp_frame_trans)
    have "rx_sized s1" using cl by blast
    then have "rx_sized t" using s3(2,6) cl unfolding t(2) rx_sized_upd by (auto simp: rx_sized_def)
    then show ?thesis
      using t s3 ct fr emp open' open_st kept False q(2) st acct_upd_conn [of "\<lambda>k. k\<lparr>cstate := CONN_CLOSED\<rparr>"]
      by (auto simp: close_waits_def)
  qed
qed

section \<open>Wrap-around\<close>

lemma word_between_iff:
  "c - a \<ge> b - a \<longleftrightarrow> (\<exists>k \<le> unat (c - a). b = a + of_nat k)" for a b c :: "'a::len word"
proof
  assume "c - a \<ge> b - a"
  then show "\<exists>k \<le> unat (c - a). b = a + of_nat k"
    by (intro exI [of _ "unat (b - a)"]) (simp add: word_le_nat_alt)
next
  assume "\<exists>k \<le> unat (c - a). b = a + of_nat k"
  then obtain k where k: "k \<le> unat (c - a)" "b = a + of_nat k" by blast
  have "unat (of_nat k :: 'a word) \<le> k" by (simp add: unat_of_nat)
  then show "c - a \<ge> b - a" using k by (simp add: word_le_nat_alt)
qed

lemma unat_less_2p: "unat w < 2 ^ LENGTH('a)" for w :: "'a::len word"
  by (rule unsigned_less)

lemma sint_neg_iff: "sint w < 0 \<longleftrightarrow> 2 ^ (LENGTH('a) - 1) \<le> unat w" for w :: "'a::len word"
proof -
  let ?n = "LENGTH('a) - Suc 0"
  have "unat w < 2 * 2 ^ ?n"
    using unat_less_2p [of w] by (simp add: power_Suc [symmetric])
  then have d: "unat w div 2 ^ ?n = (if 2 ^ ?n \<le> unat w then 1 else 0)"
    by (simp add: div_nat_eqI)
  have "sint w < 0 \<longleftrightarrow> bit w ?n" by (rule bit_last_iff [symmetric])
  also have "\<dots> \<longleftrightarrow> bit (unat w) ?n" by (simp add: bit_unsigned_iff)
  also have "\<dots> \<longleftrightarrow> 2 ^ ?n \<le> unat w" by (simp add: bit_iff_odd d)
  finally show ?thesis by simp
qed

lemma word_before_iff:
  "sint (a - b) < 0 \<longleftrightarrow> (\<exists>k. 0 < k \<and> k \<le> 2 ^ (LENGTH('a) - 1) \<and> b = a + of_nat k)" for a b :: "'a::len word"
proof -
  let ?n = "LENGTH('a) - 1"
  have two: "2 ^ LENGTH('a) = 2 * (2 ^ ?n :: nat)" by (simp add: power_Suc [symmetric])
  have un: "unat (a - b) = (if b = a then 0 else 2 ^ LENGTH('a) - unat (b - a))"
  proof (cases "b = a")
    case False
    then have "0 < unat (b - a)" by (simp add: unat_gt_0)
    have "(unat (b - a) + unat (a - b)) mod 2 ^ LENGTH('a) = unat ((b - a) + (a - b))"
      by (simp only: unat_word_ariths)
    then have "2 ^ LENGTH('a) dvd unat (b - a) + unat (a - b)" by (simp add: dvd_eq_mod_eq_0)
    then obtain m where m: "unat (b - a) + unat (a - b) = 2 ^ LENGTH('a) * m" by (rule dvdE)
    have "2 ^ LENGTH('a) * m < 2 ^ LENGTH('a) * 2"
      using add_strict_mono [OF unat_less_2p [of "b - a"] unat_less_2p [of "a - b"]] m by (simp only: mult_2_right)
    moreover have "0 < m" using m \<open>0 < unat (b - a)\<close> by (cases m) auto
    ultimately have "m = 1" by simp
    then show ?thesis using m False by simp
  qed simp
  show ?thesis unfolding sint_neg_iff
  proof
    assume ge: "2 ^ ?n \<le> unat (a - b)"
    then have ne: "b \<noteq> a" by auto
    then have "0 < unat (b - a)" by (simp add: unat_gt_0)
    moreover have "unat (b - a) \<le> 2 ^ ?n" using ge un ne two unat_less_2p [of "b - a"] by simp
    ultimately show "\<exists>k. 0 < k \<and> k \<le> 2 ^ ?n \<and> b = a + of_nat k" by (intro exI [of _ "unat (b - a)"]) simp
  next
    assume "\<exists>k. 0 < k \<and> k \<le> 2 ^ ?n \<and> b = a + of_nat k"
    then obtain k where k: "0 < k" "k \<le> 2 ^ ?n" "b = a + of_nat k" by blast
    have "unat (b - a) = k" using k two by (simp add: unat_of_nat take_bit_eq_mod)
    then show "2 ^ ?n \<le> unat (a - b)" using k un two by auto
  qed
qed
section \<open>A concrete connection\<close>

definition rdp_conn_ex :: csp_rdp where
  "rdp_conn_ex = \<lparr>rdp_st = RDP_OPEN, closed_by = 0, snd_nxt = 6, snd_una = 5, snd_iss = 0, rcv_cur = 0, rcv_irs = 0,
     rcv_lsa = 0, window_size = 4, conn_timeout = 10000, packet_timeout = 1000, delayed_acks = 1, ack_timeout = 250,
     ack_delay_count = 2, ack_timestamp = 900, tx_wait = False\<rparr>"

definition conn_ex :: csp_conn where
  "conn_ex = \<lparr>ctype = CONN_CLIENT, cstate = CONN_OPEN, cidin = csp_id_clear\<lparr>flags := CSP_FRDP\<rparr>,
     cidout = csp_id_clear\<lparr>flags := CSP_FRDP\<rparr>, sport_outgoing = 20,
     rx_queue = \<lparr>qbuffer = [None, None, None, None], qsize = 4, qitems = 0, q_in = 0, q_out = 0\<rparr>,
     dest_socket = None, ctimestamp = 900, copts = 0, rdp = rdp_conn_ex\<rparr>"

definition rdp_node_ex :: csp_state where
  "rdp_node_ex = node_ex\<lparr>conns := [conn_ex]\<rparr>"

lemma rdp_node_ex_acct: "acct {#0#} rdp_node_ex"
proof (rule acct_transfer [OF node_ex_acct])
  show "stack_wf rdp_node_ex"
    using acct_stack_wf [OF node_ex_acct] by (simp add: stack_wf_def rdp_node_ex_def conn_ex_def queue_inv_def)
  have "conns node_ex = []" by (simp add: node_ex_def)
  then show "owned rdp_node_ex + {#0#} = owned node_ex + {#0#}"
    by (simp add: rdp_node_ex_def owned_def conn_owned_def conn_ex_def queue_list_def List.map_filter_def)
qed (simp_all add: rdp_node_ex_def)

lemma rdp_node_ex_simps [simp]:
  "conns rdp_node_ex = [conn_ex]" "conn rdp_node_ex 0 = conn_ex" "queue_list (rdp_rx rdp_node_ex) = []"
  "rx_sized rdp_node_ex" "pkt rdp_node_ex 0 = packet0"
  by (simp_all add: rdp_node_ex_def conn_def node_ex_def queue_list_def rx_sized_def pkt_def)

text \<open>A packet with three bytes of data and the next sequence number waits in the stack.\<close>

definition data_packet_ex :: csp_packet where
  "data_packet_ex = hdr_write RDP_ACK 1 5 (packet0\<lparr>plength := 8\<rparr>)"

lemma data_packet_ex_facts:
  "packet_wf data_packet_ex" "hdr_seq_be data_packet_ex = 1" "hdr_flags data_packet_ex = RDP_ACK"
  "hdr_ack_be data_packet_ex = 5" "plength data_packet_ex = 8"
proof -
  have wf: "packet_wf (packet0\<lparr>plength := 8\<rparr>)" by (rule packet_wf_packet0_upd(2)) (simp add: csp_config_defs)
  show "packet_wf data_packet_ex" "hdr_seq_be data_packet_ex = 1" "hdr_flags data_packet_ex = RDP_ACK"
    "hdr_ack_be data_packet_ex = 5" "plength data_packet_ex = 8"
    unfolding data_packet_ex_def using header_read_back [OF wf] header_wf [OF wf] by simp_all
qed

definition rdp_data_ex :: csp_state where
  "rdp_data_ex = set_pkt 0 data_packet_ex rdp_node_ex"

lemma rdp_data_ex_acct: "acct {#0#} rdp_data_ex"
  unfolding rdp_data_ex_def by (rule acct_set_pkt [OF rdp_node_ex_acct data_packet_ex_facts(1)])

lemma rdp_data_ex_simps [simp]:
  "conns rdp_data_ex = [conn_ex]" "conn rdp_data_ex 0 = conn_ex" "queue_list (rdp_rx rdp_data_ex) = []"
  "rx_sized rdp_data_ex" "pkt rdp_data_ex 0 = data_packet_ex"
proof -
  have "0 < length (bufs rdp_node_ex)" by (simp add: rdp_node_ex_def node_ex_def)
  then show "pkt rdp_data_ex 0 = data_packet_ex" by (simp add: rdp_data_ex_def)
  show "conns rdp_data_ex = [conn_ex]" by (simp add: rdp_data_ex_def set_pkt_def)
  then show "conn rdp_data_ex 0 = conn_ex" by (simp add: conn_def)
  have "rdp_rx rdp_data_ex = rdp_rx rdp_node_ex" by (simp add: rdp_data_ex_def set_pkt_def)
  then show "queue_list (rdp_rx rdp_data_ex) = []" by simp
  then show "rx_sized rdp_data_ex" by (simp add: rx_sized_def)
qed

section \<open>Properties\<close>

text \<open>C13: the comparisons of sequence numbers and times are right across the wrap-around:
  \<open>csp_rdp_seq_between\<close> holds exactly for the numbers met when counting from the start up to the end,
  and a number is before another exactly if it is reached from it by counting up at most half of the range.\<close>

theorem csp_rdp_comparisons_wrap:
  "(csp_rdp_seq_between seq start end' \<longleftrightarrow> (\<exists>k \<le> unat (end' - start). seq = start + of_nat k)) \<and>
   (csp_rdp_seq_before a b \<longleftrightarrow> (\<exists>k. 0 < k \<and> k \<le> 2 ^ 15 \<and> b = a + of_nat k)) \<and>
   (csp_rdp_seq_after b a \<longleftrightarrow> csp_rdp_seq_before a b) \<and>
   (csp_rdp_time_before t u \<longleftrightarrow> (\<exists>k. 0 < k \<and> k \<le> 2 ^ 31 \<and> u = t + of_nat k)) \<and>
   (csp_rdp_time_after u t \<longleftrightarrow> csp_rdp_time_before t u)"
  unfolding csp_rdp_seq_between_def csp_rdp_seq_after_def csp_rdp_seq_before_def csp_rdp_time_after_def
    csp_rdp_time_before_def word_between_iff word_before_iff
  by simp

text \<open>C14: closing a connection. A connection that does not use RDP, or that userspace, protocol
  and timeout have now all closed, becomes free: its receive queue is empty and, for an RDP
  connection, no packet of it is left in the RDP queues. Otherwise the connection stays
  allocated in state CLOSE-WAIT with the new closer recorded, and its data can still be read. In
  every case the buffers are conserved and other connections untouched.\<close>

theorem csp_conn_close_effect:
  assumes "acct M s" "rx_sized s" "c < length (conns s)" "cstate (conn s c) = CONN_OPEN"
    and "csp_conn_close (Some c) by' s = (e, t)"
  shows "acct M t \<and> rx_sized t \<and> rdp_frame c s t \<and> e = CSP_ERR_NONE \<and>
    (if uses_rdp (conn s c) \<and> rdp_st (rdp (conn s c)) \<noteq> RDP_CLOSED \<and>
        closed_by (rdp (conn s c)) OR by' \<noteq> CSP_RDP_CLOSED_BY_ALL
     then cstate (conn t c) = CONN_OPEN \<and> rx_queue (conn t c) = rx_queue (conn s c) \<and>
       rdp_st (rdp (conn t c)) = RDP_CLOSE_WAIT \<and> closed_by (rdp (conn t c)) = closed_by (rdp (conn s c)) OR by'
     else cstate (conn t c) = CONN_CLOSED \<and> queue_list (rx_queue (conn t c)) = [] \<and>
       (uses_rdp (conn s c) \<longrightarrow> rdp_st (rdp (conn t c)) = RDP_CLOSED) \<and>
       (flags (cidin (conn s c)) AND CSP_FRDP \<noteq> 0 \<longrightarrow>
          (\<forall>p \<in> set (queue_list (rdp_tx t)) \<union> set (queue_list (rdp_rx t)). pconn (pkt t p) \<noteq> Some c)))"
  using conn_close_spec [OF assms(1-3,5)] assms(4) by (simp add: close_waits_def split: if_splits)

theorem csp_conn_close_effect_witness:
  "rdp_st (rdp (conn (snd (csp_conn_close (Some 0) CSP_RDP_CLOSED_BY_USERSPACE rdp_node_ex)) 0)) = RDP_CLOSE_WAIT \<and>
   cstate (conn (snd (csp_conn_close (Some 0) CSP_RDP_CLOSED_BY_ALL rdp_node_ex)) 0) = CONN_CLOSED"
proof -
  have "uses_rdp conn_ex" by (simp add: uses_rdp_def conn_ex_def csp_id_clear_def CSP_FRDP_def)
  then show ?thesis
    using csp_conn_close_effect [OF rdp_node_ex_acct _ _ _ prod.collapse [symmetric], of 0 CSP_RDP_CLOSED_BY_USERSPACE]
      csp_conn_close_effect [OF rdp_node_ex_acct _ _ _ prod.collapse [symmetric], of 0 CSP_RDP_CLOSED_BY_ALL]
    by (simp add: conn_ex_def rdp_conn_ex_def CSP_RDP_CLOSED_BY_ALL_def CSP_RDP_CLOSED_BY_USERSPACE_def)
qed

end
