(* ===== verification/Csp_Rdp_Machine.thy ===== *)
theory Csp_Rdp_Machine
  imports Csp_Rdp
begin

text \<open>
  The state machine of the Reliable Datagram Protocol, second half of \<open>src/csp_rdp.c\<close>:
  retransmission and timeouts, the handling of a received packet in every state, the active open
  and the sending of data.

  A label at the end of \<open>csp_rdp_new_packet\<close> is a constructor of \<open>rdp_outcome\<close>; each state of
  the \<open>switch\<close> is one definition that returns the label it jumps to. What other tasks do
  during a wait for the semaphore of the connection is an argument of the waiting call.
\<close>

section \<open>Timeouts\<close>

text \<open>\<open>csp_send_direct (&conn->idout, ...)\<close>: the source address that sending chooses stays in the
  connection.\<close>

definition send_on_conn :: "nat \<Rightarrow> nat option \<Rightarrow> csp_state \<Rightarrow> csp_state" where
  "send_on_conn c packet s =
     (case csp_send_direct (cidout (conn s c)) packet None s of
        (idout, s) \<Rightarrow> upd_conn c (\<lambda>k. k\<lparr>cidout := idout\<rparr>) s)"

definition rdp_retransmit :: "nat \<Rightarrow> nat \<Rightarrow> csp_state \<Rightarrow> csp_state" where
  "rdp_retransmit c packet s =
     (let s = set_pkt packet ((hdr_set_ack (rcv_cur (rdp (conn s c))) (pkt s packet))\<lparr>timestamp_tx := now s\<rparr>) s;
          (new_packet, s) = csp_buffer_clone (Some packet) s
      in send_on_conn c new_packet s)"

fun tx_timeout_loop :: "nat \<Rightarrow> nat \<Rightarrow> csp_state \<Rightarrow> csp_state" where
  "tx_timeout_loop 0 c s = s"
| "tx_timeout_loop (Suc n) c s =
     (case csp_rdp_queue_tx_get c s of
        (None, s) \<Rightarrow> s
      | (Some packet, s) \<Rightarrow>
          if csp_rdp_seq_before (hdr_seq_be (pkt s packet)) (snd_una (rdp (conn s c)))
          then tx_timeout_loop n c (csp_buffer_free (Some packet) s)
          else
            let s = (if csp_rdp_time_after (now s) (timestamp_tx (pkt s packet) + packet_timeout (rdp (conn s c)))
                     then rdp_retransmit c packet s else s)
            in tx_timeout_loop n c (csp_rdp_queue_tx_add c packet s))"

definition conn_timed_out :: "nat \<Rightarrow> csp_state \<Rightarrow> bool" where
  "conn_timed_out c s = csp_rdp_time_after (now s) (ctimestamp (conn s c) + conn_timeout (rdp (conn s c)))"

text \<open>The part behind the connection timeouts: retransmission, delayed acknowledgment, waking up the
  sender and delivery.\<close>

definition rdp_service :: "nat \<Rightarrow> csp_state \<Rightarrow> csp_state" where
  "rdp_service c s =
     (let s = tx_timeout_loop (csp_rdp_queue_tx_size s) c s;
          s = (if rdp_st (rdp (conn s c)) = RDP_OPEN
               then
                 let s = (if delayed_acks (rdp (conn s c)) \<noteq> 0 then snd (csp_rdp_check_ack c s) else s)
                 in if csp_rdp_is_conn_ready_for_tx c s then sem_post c s else s
               else s)
      in csp_rdp_rx_queue_flush c s)"

definition csp_rdp_check_timeouts :: "nat \<Rightarrow> csp_state \<Rightarrow> csp_state" where
  "csp_rdp_check_timeouts c s =
     (if dest_socket (conn s c) \<noteq> None \<and> conn_timed_out c s
      then snd (csp_conn_close (Some c)
             (CSP_RDP_CLOSED_BY_USERSPACE OR CSP_RDP_CLOSED_BY_PROTOCOL OR CSP_RDP_CLOSED_BY_TIMEOUT) s)
      else if rdp_st (rdp (conn s c)) = RDP_CLOSE_WAIT
      then (if conn_timed_out c s
            then snd (csp_conn_close (Some c) (CSP_RDP_CLOSED_BY_PROTOCOL OR CSP_RDP_CLOSED_BY_TIMEOUT) s)
            else s)
      else rdp_service c s)"

section \<open>Reception of a packet\<close>

datatype rdp_outcome = Discard_close u8 | Discard_open bool | Accepted_open

text \<open>A reset. The sequence number is compared with \<open>rcv_cur + 1\<close> as integers, so it never
  matches at the wrap-around.\<close>

definition rdp_reset :: "nat \<Rightarrow> u8 \<Rightarrow> u16 \<Rightarrow> u16 \<Rightarrow> csp_state \<Rightarrow> rdp_outcome \<times> csp_state" where
  "rdp_reset c fl seq_nr ack_nr s =
     (let s = (if fl AND RDP_ACK \<noteq> 0 then upd_rdp c (\<lambda>r. r\<lparr>snd_una := ack_nr + 1\<rparr>) s else s)
      in if rdp_st (rdp (conn s c)) = RDP_CLOSED then (Discard_open (dest_socket (conn s c) \<noteq> None), s)
         else if rdp_st (rdp (conn s c)) = RDP_CLOSE_WAIT
         then (Discard_close (if fl AND RDP_ACK \<noteq> 0 then CSP_RDP_CLOSED_BY_PROTOCOL OR CSP_RDP_CLOSED_BY_TIMEOUT
                              else CSP_RDP_CLOSED_BY_PROTOCOL), s)
         else if uint seq_nr = uint (rcv_cur (rdp (conn s c))) + 1
         then
           let s = upd_conn c (\<lambda>k. k\<lparr>rdp := (rdp k)\<lparr>rdp_st := RDP_CLOSE_WAIT\<rparr>, ctimestamp := now s\<rparr>) s;
               s = snd (csp_rdp_send_cmp c None (RDP_ACK OR RDP_RST) (snd_nxt (rdp (conn s c))) (rcv_cur (rdp (conn s c))) s)
           in (Discard_close (CSP_RDP_CLOSED_BY_PROTOCOL OR CSP_RDP_CLOSED_BY_TIMEOUT), s)
         else (Discard_open False, s))"

definition data32 :: "nat \<Rightarrow> csp_packet \<Rightarrow> u32" where
  "data32 i p = be32_dec (mread (data_at (4 * i)) 4 (pmem p))"

definition rdp_in_closed :: "nat \<Rightarrow> nat \<Rightarrow> u8 \<Rightarrow> u16 \<Rightarrow> csp_state \<Rightarrow> rdp_outcome \<times> csp_state" where
  "rdp_in_closed c packet fl seq_nr s =
     (if fl AND RDP_SYN = 0
      then (Discard_close CSP_RDP_CLOSED_BY_PROTOCOL,
            snd (csp_rdp_send_cmp c None RDP_RST (snd_nxt (rdp (conn s c))) (rcv_cur (rdp (conn s c))) s))
      else
        let iss = ucast (rand_r s (now s)); p = pkt s packet;
            s = upd_rdp c (\<lambda>r. r\<lparr>snd_iss := iss, snd_nxt := iss + 1, snd_una := iss,
                  rcv_cur := seq_nr, rcv_irs := seq_nr, rcv_lsa := seq_nr,
                  window_size := data32 0 p, conn_timeout := data32 1 p, packet_timeout := data32 2 p,
                  delayed_acks := data32 3 p, ack_timeout := data32 4 p, ack_delay_count := data32 5 p,
                  rdp_st := RDP_SYN_RCVD\<rparr>) s;
            s = snd (csp_rdp_send_cmp c None (RDP_ACK OR RDP_SYN) (snd_iss (rdp (conn s c))) (rcv_irs (rdp (conn s c))) s)
        in (Discard_open False, s))"

definition rdp_in_syn_sent :: "nat \<Rightarrow> u8 \<Rightarrow> u16 \<Rightarrow> u16 \<Rightarrow> csp_state \<Rightarrow> rdp_outcome \<times> csp_state" where
  "rdp_in_syn_sent c fl seq_nr ack_nr s =
     (if fl AND RDP_SYN \<noteq> 0 \<and> fl AND RDP_ACK \<noteq> 0
      then
        let s = upd_rdp c (\<lambda>r. r\<lparr>rcv_cur := seq_nr, rcv_irs := seq_nr, rcv_lsa := seq_nr - 1,
                  snd_una := ack_nr + 1, ack_timestamp := now s, rdp_st := RDP_OPEN\<rparr>) s;
            s = snd (csp_rdp_send_cmp c None RDP_ACK (snd_nxt (rdp (conn s c))) (rcv_cur (rdp (conn s c))) s)
        in (Discard_open False, sem_post c s)
      else if fl AND RDP_ACK \<noteq> 0
      then
        let s = snd (csp_rdp_send_cmp c None RDP_RST (snd_nxt (rdp (conn s c))) (rcv_cur (rdp (conn s c))) s)
        in (Discard_open False, sem_post c s)
      else (Discard_close CSP_RDP_CLOSED_BY_PROTOCOL, s))"

text \<open>\<open>csp_queue_enqueue\<close> on the queue of a socket.\<close>

definition sock_enqueue :: "nat \<Rightarrow> sock_item \<Rightarrow> csp_state \<Rightarrow> int \<times> csp_state" where
  "sock_enqueue k x s =
     (case sock_queue (sockets s ! k) of
        None \<Rightarrow> (CSP_QUEUE_ERROR, s\<lparr>fault := True\<rparr>)
      | Some q \<Rightarrow>
          (case csp_queue_enqueue x q of
             (e, q) \<Rightarrow> (e, s\<lparr>sockets := (sockets s)[k := (sockets s ! k)\<lparr>sock_queue := Some q\<rparr>]\<rparr>)))"

definition ack_valid :: "nat \<Rightarrow> u16 \<Rightarrow> csp_state \<Rightarrow> bool" where
  "ack_valid c ack_nr s =
     (let r = rdp (conn s c)
      in csp_rdp_seq_between ack_nr (ucast (ucast (snd_una r) - 1 - window_size r * 2)) (snd_nxt r - 1))"

text \<open>The part of the states SYN-RCVD and OPEN behind the checks.\<close>

definition rdp_open_data :: "nat \<Rightarrow> nat \<Rightarrow> u8 \<Rightarrow> u16 \<Rightarrow> u16 \<Rightarrow> csp_state \<Rightarrow> rdp_outcome \<times> csp_state" where
  "rdp_open_data c packet fl seq_nr ack_nr s =
     (let s = (if dest_socket (conn s c) = None then upd_conn c (\<lambda>k. k\<lparr>ctimestamp := now s\<rparr>) s else s);
          s = upd_rdp c (\<lambda>r. r\<lparr>snd_una := ack_nr + 1\<rparr>) s
      in if fl AND RDP_EAK \<noteq> 0 then (Discard_open False, s)
         else if unat (plength (pkt s packet)) \<le> CSP_RDP_HEADER_SIZE then (Discard_open False, s)
         else if seq_nr \<noteq> rcv_cur (rdp (conn s c)) + 1
         then (case csp_rdp_rx_queue_add c packet seq_nr s of
                 (e, s) \<Rightarrow>
                   if e \<noteq> 0 then (Discard_open False, snd (csp_rdp_check_ack c s))
                   else (Accepted_open, s))
         else (case csp_rdp_receive_data c packet s of
                 (e, s) \<Rightarrow>
                   if e \<noteq> CSP_ERR_NONE then (Discard_open False, s)
                   else
                     let s = upd_rdp c (\<lambda>r. r\<lparr>rcv_cur := seq_nr\<rparr>) s;
                         s = snd (csp_rdp_check_ack c s)
                     in (Accepted_open, csp_rdp_rx_queue_flush c s)))"

definition rdp_in_open :: "nat \<Rightarrow> nat \<Rightarrow> u8 \<Rightarrow> u16 \<Rightarrow> u16 \<Rightarrow> csp_state \<Rightarrow> rdp_outcome \<times> csp_state" where
  "rdp_in_open c packet fl seq_nr ack_nr s =
     (let r = rdp (conn s c)
      in if fl AND RDP_SYN \<noteq> 0 \<or> fl AND RDP_ACK = 0
         then (if seq_nr \<noteq> rcv_irs r then (Discard_close CSP_RDP_CLOSED_BY_PROTOCOL, s) else (Discard_open False, s))
         else if \<not> csp_rdp_seq_between seq_nr (rcv_cur r + 1) (ucast (ucast (rcv_cur r) + window_size r * 2))
         then (Discard_open False,
               if rdp_st r = RDP_SYN_RCVD
               then snd (csp_rdp_send_cmp c None (RDP_ACK OR RDP_SYN) (snd_iss r) (rcv_irs r) s) else s)
         else if \<not> ack_valid c ack_nr s then (Discard_open False, s)
         else if rdp_st r = RDP_SYN_RCVD
         then
           (if ack_nr \<noteq> snd_iss r then (Discard_close CSP_RDP_CLOSED_BY_PROTOCOL, s)
            else
              let s = upd_rdp c (\<lambda>r. r\<lparr>rdp_st := RDP_OPEN\<rparr>) s
              in case dest_socket (conn s c) of
                   None \<Rightarrow> rdp_open_data c packet fl seq_nr ack_nr s
                 | Some k \<Rightarrow>
                     (case sock_enqueue k (Sock_conn c) s of
                        (e, s) \<Rightarrow>
                          if e = CSP_QUEUE_ERROR then (Discard_close CSP_RDP_CLOSED_BY_PROTOCOL, s)
                          else rdp_open_data c packet fl seq_nr ack_nr (upd_conn c (\<lambda>k. k\<lparr>dest_socket := None\<rparr>) s)))
         else rdp_open_data c packet fl seq_nr ack_nr s)"

definition rdp_in_close_wait :: "nat \<Rightarrow> u8 \<Rightarrow> u16 \<Rightarrow> csp_state \<Rightarrow> rdp_outcome \<times> csp_state" where
  "rdp_in_close_wait c fl ack_nr s =
     (if fl AND RDP_SYN \<noteq> 0 \<or> fl AND RDP_ACK = 0 then (Discard_open False, s)
      else if \<not> ack_valid c ack_nr s then (Discard_open False, s)
      else
        let s = upd_rdp c (\<lambda>r. r\<lparr>snd_una := ack_nr + 1\<rparr>) s;
            s = snd (csp_rdp_send_cmp c None (RDP_ACK OR RDP_RST) (snd_nxt (rdp (conn s c))) (rcv_cur (rdp (conn s c))) s)
        in (Discard_open False, s))"

definition rdp_switch :: "nat \<Rightarrow> nat \<Rightarrow> u8 \<Rightarrow> u16 \<Rightarrow> u16 \<Rightarrow> csp_state \<Rightarrow> rdp_outcome \<times> csp_state" where
  "rdp_switch c packet fl seq_nr ack_nr s =
     (if fl AND RDP_RST \<noteq> 0 then rdp_reset c fl seq_nr ack_nr s
      else case rdp_st (rdp (conn s c)) of
        RDP_CLOSED \<Rightarrow> rdp_in_closed c packet fl seq_nr s
      | RDP_SYN_SENT \<Rightarrow> rdp_in_syn_sent c fl seq_nr ack_nr s
      | RDP_SYN_RCVD \<Rightarrow> rdp_in_open c packet fl seq_nr ack_nr s
      | RDP_OPEN \<Rightarrow> rdp_in_open c packet fl seq_nr ack_nr s
      | RDP_CLOSE_WAIT \<Rightarrow> rdp_in_close_wait c fl ack_nr s)"

text \<open>The labels \<open>discard_close\<close>, \<open>discard_open\<close> and \<open>accepted_open\<close>.\<close>

definition rdp_discard_close :: "nat \<Rightarrow> u8 \<Rightarrow> csp_state \<Rightarrow> csp_state" where
  "rdp_discard_close c by' s =
     (if dest_socket (conn s c) = None
      then snd (csp_conn_enqueue_packet c None (snd (csp_conn_close (Some c) by' s)))
      else snd (csp_conn_close (Some c) (by' OR CSP_RDP_CLOSED_BY_USERSPACE) s))"

definition csp_rdp_new_packet :: "nat \<Rightarrow> nat \<Rightarrow> csp_state \<Rightarrow> bool \<times> csp_state" where
  "csp_rdp_new_packet c packet s =
     (let p = pkt s packet; s = set_pkt packet (hdr_to_host p) s
      in case rdp_switch c packet (hdr_flags p) (hdr_seq_be p) (hdr_ack_be p) s of
           (Discard_close by', s) \<Rightarrow> (False, csp_buffer_free (Some packet) (rdp_discard_close c by' s))
         | (Discard_open b, s) \<Rightarrow> (b, csp_buffer_free (Some packet) s)
         | (Accepted_open, s) \<Rightarrow> (False, s))"

section \<open>Active open and sending\<close>

text \<open>\<open>csp_bin_sem_wait\<close> on the semaphore of the connection; \<open>w\<close> is what the other tasks do until
  the post or the timeout.\<close>

definition sem_wait :: "(csp_state \<Rightarrow> csp_state) \<Rightarrow> nat \<Rightarrow> csp_state \<Rightarrow> bool \<times> csp_state" where
  "sem_wait w c s =
     (let s = (if tx_wait (rdp (conn s c)) then s else w s)
      in (tx_wait (rdp (conn s c)), upd_rdp c (\<lambda>r. r\<lparr>tx_wait := False\<rparr>) s))"

text \<open>From the label \<open>retry\<close> on; \<open>None\<close> is the jump back.\<close>

definition connect_attempt :: "bool \<Rightarrow> (csp_state \<Rightarrow> csp_state) \<Rightarrow> nat \<Rightarrow> csp_state \<Rightarrow> int option \<times> csp_state" where
  "connect_attempt retry w c s =
     (if rdp_st (rdp (conn s c)) = RDP_OPEN then (Some CSP_ERR_ALREADY, s)
      else
        let iss = ucast (rand_r s (now s));
            s = upd_rdp c (\<lambda>r. r\<lparr>snd_iss := iss, snd_nxt := iss + 1, snd_una := iss\<rparr>) s;
            s = snd (sem_wait (\<lambda>s. s) c s);
            s = upd_rdp c (\<lambda>r. r\<lparr>rdp_st := RDP_SYN_SENT\<rparr>) s;
            error = (\<lambda>s. (Some CSP_ERR_TIMEDOUT, snd (csp_rdp_close_internal c CSP_RDP_CLOSED_BY_PROTOCOL False s)))
        in case csp_rdp_send_syn c s of
             (e, s) \<Rightarrow>
               if e \<noteq> CSP_ERR_NONE then error s
               else (case sem_wait w c s of
                       (ok, s) \<Rightarrow>
                         if ok \<and> rdp_st (rdp (conn s c)) = RDP_OPEN then (Some CSP_ERR_NONE, s)
                         else if ok \<and> rdp_st (rdp (conn s c)) = RDP_SYN_SENT \<and> retry
                         then (None, csp_rdp_queue_flush (Some c) s)
                         else error s))"

definition csp_rdp_connect :: "(csp_state \<Rightarrow> csp_state) \<Rightarrow> (csp_state \<Rightarrow> csp_state) \<Rightarrow> nat \<Rightarrow> csp_state \<Rightarrow> int \<times> csp_state" where
  "csp_rdp_connect w w' c s =
     (let d = rdp_dfl s;
          s = upd_rdp c (\<lambda>r. r\<lparr>window_size := csp_rdp_window_size d, conn_timeout := csp_rdp_conn_timeout d,
                packet_timeout := csp_rdp_packet_timeout d, delayed_acks := csp_rdp_delayed_acks d,
                ack_timeout := csp_rdp_ack_timeout d, ack_delay_count := csp_rdp_ack_delay_count d,
                ack_timestamp := now s\<rparr>) s
      in case connect_attempt True w c s of
           (Some e, s) \<Rightarrow> (e, s)
         | (None, s) \<Rightarrow> (case connect_attempt False w' c s of (e, s) \<Rightarrow> (the e, s)))"

text \<open>The loop that waits for room in the window; the list holds what the other tasks do in the
  successive waits, and a wait behind its end times out.\<close>

fun send_wait_loop :: "(csp_state \<Rightarrow> csp_state) list \<Rightarrow> nat \<Rightarrow> csp_state \<Rightarrow> bool \<times> csp_state" where
  "send_wait_loop ws c s =
     (if rdp_st (rdp (conn s c)) = RDP_OPEN \<and> \<not> csp_rdp_is_conn_ready_for_tx c s
      then (case ws of
              [] \<Rightarrow> (False, upd_rdp c (\<lambda>r. r\<lparr>tx_wait := False\<rparr>) s)
            | w # ws \<Rightarrow>
                (case sem_wait w c s of
                   (ok, s) \<Rightarrow> if ok then send_wait_loop ws c s else (False, s)))
      else (True, s))"

definition csp_rdp_send :: "(csp_state \<Rightarrow> csp_state) list \<Rightarrow> nat \<Rightarrow> nat \<Rightarrow> csp_state \<Rightarrow> int \<times> csp_state" where
  "csp_rdp_send ws c packet s =
     (if rdp_st (rdp (conn s c)) \<noteq> RDP_OPEN then (CSP_ERR_RESET, s)
      else case send_wait_loop ws c s of
        (False, s) \<Rightarrow> (CSP_ERR_TIMEDOUT, s)
      | (True, s) \<Rightarrow>
          if rdp_st (rdp (conn s c)) \<noteq> RDP_OPEN then (CSP_ERR_RESET, s)
          else (case csp_rdp_header_add (pkt s packet) of
                  None \<Rightarrow> (CSP_ERR_NOMEM, s)
                | Some p \<Rightarrow>
                    let r = rdp (conn s c);
                        s = set_pkt packet (hdr_write RDP_ACK (snd_nxt r) (rcv_cur r) p) s
                    in case csp_buffer_clone (Some packet) s of
                         (None, s) \<Rightarrow> (CSP_ERR_NOMEM, s)
                       | (Some rdp_packet, s) \<Rightarrow>
                           let s = set_pkt rdp_packet ((pkt s rdp_packet)\<lparr>timestamp_tx := now s, rdp_quarantine := 0\<rparr>) s;
                               s = csp_rdp_queue_tx_add c rdp_packet s
                           in (CSP_ERR_NONE, upd_rdp c (\<lambda>r. r\<lparr>snd_nxt := snd_nxt r + 1\<rparr>) s)))"

section \<open>Settings\<close>

definition csp_rdp_init :: "nat \<Rightarrow> csp_state \<Rightarrow> csp_state" where
  "csp_rdp_init c s =
     upd_rdp c (\<lambda>r. r\<lparr>rdp_st := RDP_CLOSED, closed_by := 0, conn_timeout := csp_rdp_conn_timeout (rdp_dfl s),
       packet_timeout := csp_rdp_packet_timeout (rdp_dfl s), tx_wait := True\<rparr>) s"

definition csp_rdp_set_opt :: "u32 \<Rightarrow> u32 \<Rightarrow> u32 \<Rightarrow> u32 \<Rightarrow> u32 \<Rightarrow> u32 \<Rightarrow> csp_state \<Rightarrow> csp_state" where
  "csp_rdp_set_opt window_size' conn_timeout_ms packet_timeout_ms delayed_acks' ack_timeout' ack_delay_count' s =
     s\<lparr>rdp_dfl := \<lparr>csp_rdp_window_size = window_size', csp_rdp_conn_timeout = conn_timeout_ms,
        csp_rdp_packet_timeout = packet_timeout_ms, csp_rdp_delayed_acks = delayed_acks',
        csp_rdp_ack_timeout = ack_timeout', csp_rdp_ack_delay_count = ack_delay_count'\<rparr>\<rparr>"

definition csp_rdp_conn_is_active :: "nat \<Rightarrow> csp_state \<Rightarrow> bool" where
  "csp_rdp_conn_is_active c s \<longleftrightarrow> \<not> conn_timed_out c s \<and>
     rdp_st (rdp (conn s c)) \<noteq> RDP_CLOSE_WAIT \<and> rdp_st (rdp (conn s c)) \<noteq> RDP_CLOSED"

declare send_wait_loop.simps [simp del]

section \<open>The protocol as a step relation\<close>

datatype rdp_event = Ev_packet u8 | Ev_close | Ev_timeout

text \<open>The transitions the protocol allows on an event. A connection opens only by the handshake: with a
  SYN/ACK from SYN-SENT or an ACK from SYN-RCVD, which only a SYN leads to. Once it is
  closing it never opens again.\<close>

inductive rdp_step :: "rdp_event \<Rightarrow> rdp_state \<Rightarrow> rdp_state \<Rightarrow> bool" where
  step_stay: "rdp_step e st st"
| step_syn: "fl AND RDP_SYN \<noteq> 0 \<Longrightarrow> fl AND RDP_RST = 0 \<Longrightarrow> rdp_step (Ev_packet fl) RDP_CLOSED RDP_SYN_RCVD"
| step_syn_ack: "fl AND RDP_SYN \<noteq> 0 \<Longrightarrow> fl AND RDP_ACK \<noteq> 0 \<Longrightarrow> fl AND RDP_RST = 0 \<Longrightarrow>
    rdp_step (Ev_packet fl) RDP_SYN_SENT RDP_OPEN"
| step_ack: "fl AND RDP_SYN = 0 \<Longrightarrow> fl AND RDP_ACK \<noteq> 0 \<Longrightarrow> fl AND RDP_RST = 0 \<Longrightarrow>
    rdp_step (Ev_packet fl) RDP_SYN_RCVD RDP_OPEN"
| step_closing: "st \<noteq> RDP_CLOSED \<Longrightarrow> rdp_step e st RDP_CLOSE_WAIT"
| step_closed: "st \<noteq> RDP_CLOSED \<Longrightarrow> rdp_step e st RDP_CLOSED"

inductive_simps rdp_step_from_closed: "rdp_step e RDP_CLOSED st"
inductive_simps rdp_step_to_open: "rdp_step e st RDP_OPEN"
inductive_simps rdp_step_from_close_wait: "rdp_step e RDP_CLOSE_WAIT st"

section \<open>What every branch keeps\<close>

text \<open>The buffer that a SYN/ACK loses when it is the last one.\<close>

definition lost :: "nat multiset \<Rightarrow> csp_state \<Rightarrow> bool" where
  "lost N s \<longleftrightarrow> N = {#} \<or> (size N = 1 \<and> length (free_list s) = 1)"

lemma lost_empty [simp]: "lost {#} s"
  by (simp add: lost_def)

lemma free_list_upd [simp]:
  "free_list (upd_conn c f s) = free_list s" "free_list (upd_rdp c g s) = free_list s" "free_list (set_pkt h p s) = free_list s"
  by (simp_all add: upd_conn_def upd_rdp_def set_pkt_def)

lemma send_cmp_any:
  assumes "acct M s" "rx_sized s" and t: "t = snd (csp_rdp_send_cmp c None fl seq ack s)"
  shows "\<exists>N. lost N s \<and> acct (N + M) t" "rx_sized t" "cmp_effect c ack s t"
proof -
  have "csp_rdp_send_cmp c None fl seq ack s = (fst (csp_rdp_send_cmp c None fl seq ack s), t)" using t by simp
  note sp = send_cmp_spec [OF assms(1) this]
  show "\<exists>N. lost N s \<and> acct (N + M) t"
    using sp(1)
  proof
    assume "acct M t"
    then show ?thesis by (intro exI [of _ "{#}"]) simp
  next
    assume "fl AND RDP_SYN \<noteq> 0 \<and> fst (csp_rdp_send_cmp c None fl seq ack s) = CSP_ERR_NOMEM \<and>
      length (free_list s) = 1 \<and> (\<exists>p. acct (add_mset p M) t)"
    then obtain p where "length (free_list s) = 1" "acct (add_mset p M) t" by blast
    then show ?thesis by (intro exI [of _ "{#p#}"]) (simp add: lost_def)
  qed
  show "cmp_effect c ack s t" by (rule sp(2))
  then show "rx_sized t" using rx_sized_fixed [OF assms(2), of t M] sp(3) by (simp add: cmp_effect_def)
qed

definition handled :: "nat \<Rightarrow> nat \<Rightarrow> nat multiset \<Rightarrow> u8 \<Rightarrow> csp_state \<Rightarrow> rdp_outcome \<Rightarrow> csp_state \<Rightarrow> bool" where
  "handled c p M fl s out t \<longleftrightarrow> rx_sized t \<and> rdp_frame c s t \<and>
     cstate (conn t c) = cstate (conn s c) \<and> cidin (conn t c) = cidin (conn s c) \<and> copts (conn t c) = copts (conn s c) \<and>
     rdp_step (Ev_packet fl) (rdp_st (rdp (conn s c))) (rdp_st (rdp (conn t c))) \<and>
     (case out of Discard_close _ \<Rightarrow> rdp_st (rdp (conn t c)) = RDP_CLOSED \<longleftrightarrow> rdp_st (rdp (conn s c)) = RDP_CLOSED
      | _ \<Rightarrow> True) \<and>
     (\<exists>N. lost N s \<and> acct (N + (if out = Accepted_open then M else add_mset p M)) t)"

lemma handled_plain:
  assumes "acct (if out = Accepted_open then M else add_mset p M) t" "rx_sized t" "rdp_frame c s t"
    "cstate (conn t c) = cstate (conn s c)" "cidin (conn t c) = cidin (conn s c)" "copts (conn t c) = copts (conn s c)"
    "rdp_step (Ev_packet fl) (rdp_st (rdp (conn s c))) (rdp_st (rdp (conn t c)))"
    "\<And>b. out = Discard_close b \<Longrightarrow> rdp_st (rdp (conn t c)) = RDP_CLOSED \<longleftrightarrow> rdp_st (rdp (conn s c)) = RDP_CLOSED"
  shows "handled c p M fl s out t"
  unfolding handled_def using assms by (auto split: rdp_outcome.split intro!: exI [of _ "{#}"])

text \<open>A branch that updates the connection and then sends a control message.\<close>

lemma handled_cmp:
  assumes "acct (add_mset p M) s1" "rx_sized s1" "rdp_frame c s s1" "c < length (conns s1)" "free_list s1 = free_list s"
    "cstate (conn s1 c) = cstate (conn s c)" "cidin (conn s1 c) = cidin (conn s c)" "copts (conn s1 c) = copts (conn s c)"
    "rdp_step (Ev_packet fl) (rdp_st (rdp (conn s c))) (rdp_st (rdp (conn s1 c)))" "out \<noteq> Accepted_open"
    "\<And>b. out = Discard_close b \<Longrightarrow> rdp_st (rdp (conn s1 c)) = RDP_CLOSED \<longleftrightarrow> rdp_st (rdp (conn s c)) = RDP_CLOSED"
    and t: "t = snd (csp_rdp_send_cmp c None fl' seq ack s1)"
  shows "handled c p M fl s out t" "handled c p M fl s out (sem_post c t)"
proof -
  note sp = send_cmp_any [OF assms(1,2) t]
  note ce = cmp_effect_conn [OF sp(3) assms(4)]
  have fr: "rdp_frame c s t" by (rule rdp_frame_trans [OF assms(3) ce(3)])
  have cn: "cstate (conn t c) = cstate (conn s1 c)" "cidin (conn t c) = cidin (conn s1 c)" "copts (conn t c) = copts (conn s1 c)"
    "rdp_st (rdp (conn t c)) = rdp_st (rdp (conn s1 c))" using ce(1) by auto
  have lo: "lost N s1 = lost N s" for N using assms(5) by (simp add: lost_def)
  show h: "handled c p M fl s out t"
    unfolding handled_def using sp(1,2) fr cn assms(6-11) by (simp add: lo split: rdp_outcome.split)
  have len: "c < length (conns t)" using ce(2) assms(4) by simp
  show "handled c p M fl s out (sem_post c t)"
    using h rdp_frame_trans [OF fr rdp_frame_fields(3)] unfolding handled_def
    by (auto simp: conn_upd [OF len] split: rdp_outcome.splits)
qed

lemma reset_handled:
  assumes "acct (add_mset p M) s" "rx_sized s" "c < length (conns s)" "rdp_reset c fl seq ack s = (out, t)"
  shows "handled c p M fl s out t"
proof -
  define s1 where "s1 = (if fl AND RDP_ACK \<noteq> 0 then upd_rdp c (\<lambda>r. r\<lparr>snd_una := ack + 1\<rparr>) s else s)"
  have s1: "acct (add_mset p M) s1" "rx_sized s1" "rdp_frame c s s1" "c < length (conns s1)" "free_list s1 = free_list s"
    "cstate (conn s1 c) = cstate (conn s c)" "cidin (conn s1 c) = cidin (conn s c)" "copts (conn s1 c) = copts (conn s c)"
    "rdp_st (rdp (conn s1 c)) = rdp_st (rdp (conn s c))" "rcv_cur (rdp (conn s1 c)) = rcv_cur (rdp (conn s c))"
    using assms(1-3) by (simp_all add: s1_def conn_upd)
  note res = assms(4) [unfolded rdp_reset_def, folded s1_def, unfolded Let_def]
  consider (stay) "t = s1" "out \<noteq> Accepted_open"
    | (seq) "rdp_st (rdp (conn s1 c)) \<noteq> RDP_CLOSED"
      "out = Discard_close (CSP_RDP_CLOSED_BY_PROTOCOL OR CSP_RDP_CLOSED_BY_TIMEOUT)"
      "t = (let s2 = upd_conn c (\<lambda>k. k\<lparr>rdp := (rdp k)\<lparr>rdp_st := RDP_CLOSE_WAIT\<rparr>, ctimestamp := now s1\<rparr>) s1
            in snd (csp_rdp_send_cmp c None (RDP_ACK OR RDP_RST) (snd_nxt (rdp (conn s2 c))) (rcv_cur (rdp (conn s2 c))) s2))"
    using res by (auto simp: Let_def split: if_splits)
  then show ?thesis
  proof cases
    case stay
    then show ?thesis using s1 by (intro handled_plain) (auto intro: step_stay)
  next
    case seq
    define s2 where "s2 = upd_conn c (\<lambda>k. k\<lparr>rdp := (rdp k)\<lparr>rdp_st := RDP_CLOSE_WAIT\<rparr>, ctimestamp := now s1\<rparr>) s1"
    have t: "t = snd (csp_rdp_send_cmp c None (RDP_ACK OR RDP_RST) (snd_nxt (rdp (conn s2 c))) (rcv_cur (rdp (conn s2 c))) s2)"
      using seq(3) by (simp add: s2_def Let_def)
    have fr: "rdp_frame c s s2" unfolding s2_def by (rule rdp_frame_trans [OF s1(3) rdp_frame_fields(1)])
    show ?thesis
      by (rule handled_cmp(1) [OF _ _ fr _ _ _ _ _ _ _ _ t])
        (use s1 seq(1,2) in \<open>auto simp: s2_def conn_upd acct_upd_conn intro: step_closing\<close>)
  qed
qed

lemma in_closed_handled:
  assumes "acct (add_mset p M) s" "rx_sized s" "c < length (conns s)" "rdp_st (rdp (conn s c)) = RDP_CLOSED"
    and "fl AND RDP_RST = 0" "rdp_in_closed c p fl seq s = (out, t)"
  shows "handled c p M fl s out t"
proof (cases "fl AND RDP_SYN = 0")
  case True
  then have out: "out = Discard_close CSP_RDP_CLOSED_BY_PROTOCOL"
    and t: "t = snd (csp_rdp_send_cmp c None RDP_RST (snd_nxt (rdp (conn s c))) (rcv_cur (rdp (conn s c))) s)"
    using assms(6) by (simp_all add: rdp_in_closed_def)
  show ?thesis
    by (rule handled_cmp(1) [OF assms(1,2) rdp_frame_refl assms(3) refl refl refl refl step_stay _ _ t]) (simp_all add: out)
next
  case False
  define f where "f = (\<lambda>r :: csp_rdp. r\<lparr>snd_iss := ucast (rand_r s (now s)), snd_nxt := ucast (rand_r s (now s)) + 1,
      snd_una := ucast (rand_r s (now s)), rcv_cur := seq, rcv_irs := seq, rcv_lsa := seq,
      window_size := data32 0 (pkt s p), conn_timeout := data32 1 (pkt s p), packet_timeout := data32 2 (pkt s p),
      delayed_acks := data32 3 (pkt s p), ack_timeout := data32 4 (pkt s p), ack_delay_count := data32 5 (pkt s p),
      rdp_st := RDP_SYN_RCVD\<rparr>)"
  define s1 where "s1 = upd_rdp c f s"
  have out: "out = Discard_open False"
    and t: "t = snd (csp_rdp_send_cmp c None (RDP_ACK OR RDP_SYN) (snd_iss (rdp (conn s1 c))) (rcv_irs (rdp (conn s1 c))) s1)"
    using assms(6) False by (simp_all add: rdp_in_closed_def Let_def s1_def f_def)
  have fr: "rdp_frame c s s1" by (simp add: s1_def)
  have st: "rdp_st (rdp (conn s1 c)) = RDP_SYN_RCVD" using assms(3) by (simp add: s1_def conn_upd f_def)
  have "rdp_step (Ev_packet fl) (rdp_st (rdp (conn s c))) (rdp_st (rdp (conn s1 c)))"
    unfolding st assms(4) using False assms(5) by (intro step_syn)
  then show ?thesis
    by (intro handled_cmp(1) [OF _ _ fr _ _ _ _ _ _ _ _ t])
      (use assms(1-3) out in \<open>simp_all add: s1_def conn_upd\<close>)
qed

lemma in_syn_sent_handled:
  assumes "acct (add_mset p M) s" "rx_sized s" "c < length (conns s)" "rdp_st (rdp (conn s c)) = RDP_SYN_SENT"
    and "fl AND RDP_RST = 0" "rdp_in_syn_sent c fl seq ack s = (out, t)"
  shows "handled c p M fl s out t"
proof -
  let ?g = "\<lambda>r. r\<lparr>rcv_cur := seq, rcv_irs := seq, rcv_lsa := seq - 1, snd_una := ack + 1,
      ack_timestamp := now s, rdp_st := RDP_OPEN\<rparr>"
  define s1 where "s1 = upd_rdp c ?g s"
  consider (syn_ack) "fl AND RDP_SYN \<noteq> 0" "fl AND RDP_ACK \<noteq> 0" | (ack) "fl AND RDP_SYN = 0" "fl AND RDP_ACK \<noteq> 0"
    | (bad) "fl AND RDP_ACK = 0" by blast
  then show ?thesis
  proof cases
    case syn_ack
    have out: "out = Discard_open False"
      and t: "t = sem_post c (snd (csp_rdp_send_cmp c None RDP_ACK (snd_nxt (rdp (conn s1 c))) (rcv_cur (rdp (conn s1 c))) s1))"
      using assms(6) syn_ack by (simp_all add: rdp_in_syn_sent_def Let_def s1_def)
    have fr: "rdp_frame c s s1" by (simp add: s1_def)
    have st: "rdp_st (rdp (conn s1 c)) = RDP_OPEN" using assms(3) by (simp add: s1_def conn_upd)
    have "rdp_step (Ev_packet fl) (rdp_st (rdp (conn s c))) (rdp_st (rdp (conn s1 c)))"
      unfolding st assms(4) using syn_ack assms(5) by (intro step_syn_ack)
    then show ?thesis unfolding t
      by (intro handled_cmp(2) [OF _ _ fr _ _ _ _ _ _ _ _ refl])
        (use assms(1-3) out in \<open>simp_all add: s1_def conn_upd\<close>)
  next
    case ack
    have out: "out = Discard_open False"
      and t: "t = sem_post c (snd (csp_rdp_send_cmp c None RDP_RST (snd_nxt (rdp (conn s c))) (rcv_cur (rdp (conn s c))) s))"
      using assms(6) ack by (simp_all add: rdp_in_syn_sent_def Let_def)
    show ?thesis unfolding t
      by (rule handled_cmp(2) [OF assms(1,2) rdp_frame_refl assms(3) refl refl refl refl step_stay _ _ refl])
        (simp_all add: out)
  next
    case bad
    then have "out = Discard_close CSP_RDP_CLOSED_BY_PROTOCOL" "t = s"
      using assms(6) by (simp_all add: rdp_in_syn_sent_def)
    then show ?thesis using assms by (intro handled_plain) (simp_all add: step_stay)
  qed
qed

lemma in_close_wait_handled:
  assumes "acct (add_mset p M) s" "rx_sized s" "c < length (conns s)" "rdp_in_close_wait c fl ack s = (out, t)"
  shows "handled c p M fl s out t"
proof -
  define s1 where "s1 = upd_rdp c (\<lambda>r. r\<lparr>snd_una := ack + 1\<rparr>) s"
  consider "t = s" | "t = snd (csp_rdp_send_cmp c None (RDP_ACK OR RDP_RST) (snd_nxt (rdp (conn s1 c))) (rcv_cur (rdp (conn s1 c))) s1)"
    using assms(4) by (auto simp: rdp_in_close_wait_def Let_def s1_def split: if_splits)
  moreover have out: "out = Discard_open False"
    using assms(4) by (auto simp: rdp_in_close_wait_def Let_def split: if_splits)
  ultimately show ?thesis
  proof cases
    case 1
    then show ?thesis using assms out by (intro handled_plain) (simp_all add: step_stay)
  next
    case 2
    have fr: "rdp_frame c s s1" by (simp add: s1_def)
    show ?thesis
      by (rule handled_cmp(1) [OF _ _ fr _ _ _ _ _ _ _ _ 2])
        (use assms(1-3) out in \<open>simp_all add: s1_def conn_upd step_stay\<close>)
  qed
qed

section \<open>The open state\<close>

lemma seq_in_rx_spec:
  assumes "acct M s" "seq_in_rx_loop n c seq s = (b, t)"
  shows "\<exists>q. t = s\<lparr>rdp_rx := q\<rparr> \<and> acct M t \<and> mset (queue_list q) = mset (queue_list (rdp_rx s))"
  using assms
proof (induction n arbitrary: s)
  case 0
  then show ?case by (auto intro: exI [of _ "rdp_rx s"])
next
  case (Suc n)
  obtain r s1 where get: "csp_rdp_queue_rx_get c s = (r, s1)" by (rule prod.exhaust)
  show ?case
  proof (cases r)
    case None
    then show ?thesis
      using Suc.prems(2) get rx_get_effect [OF Suc.prems(1) get] rx_get_acct(1) [OF Suc.prems(1) get] by auto
  next
    case (Some p)
    obtain q where q: "csp_rdp_queue_rx_add c p s1 = s\<lparr>rdp_rx := q\<rparr>" "acct M (s\<lparr>rdp_rx := q\<rparr>)"
      "mset (queue_list q) = mset (queue_list (rdp_rx s))"
      using rx_get_readd [OF Suc.prems(1) get [unfolded Some]] by blast
    show ?thesis
    proof (cases "hdr_seq_host (pkt (s\<lparr>rdp_rx := q\<rparr>) p) = seq")
      case True
      then have "t = s\<lparr>rdp_rx := q\<rparr>" using Suc.prems(2) get Some q(1) by simp
      then show ?thesis using q by blast
    next
      case False
      then have "seq_in_rx_loop n c seq (s\<lparr>rdp_rx := q\<rparr>) = (b, t)" using Suc.prems(2) get Some q(1) by simp
      from Suc.IH [OF q(2) this] show ?thesis using q(3) by simp
    qed
  qed
qed

lemma rx_add_effect:
  assumes "acct (add_mset p M) s" "rx_sized s" "5 < unat (plength (pkt s p))" and t: "t = csp_rdp_queue_rx_add c p s"
  shows "acct M t" "rx_sized t" "conns t = conns s" "rdp_frame d s t"
proof -
  let ?s = "set_pkt p ((pkt s p)\<lparr>pconn := Some c\<rparr>) s"
  have pl: "p < length (bufs s)" "packet_wf (pkt s p)" using held_allocated [OF assms(1)] by simp_all
  have a: "acct (add_mset p M) ?s" by (rule acct_set_pkt [OF assms(1)]) (simp add: pl(2))
  have sz: "5 < unat (plength (pkt ?s h))" if "h = p \<or> h \<in> set (queue_list (rdp_rx s))" for h
    using that assms(2,3) pl(1) by (cases "h = p") (auto simp: rx_sized_def)
  show "acct M t" unfolding t by (rule rx_add_acct [OF assms(1)])
  obtain e q where enq: "csp_queue_enqueue p (rdp_rx ?s) = (e, q)" by (rule prod.exhaust)
  from acct_queue_inv(3) [OF a] enq
  have "conns t = conns s \<and> rdp_frame d s t \<and> rx_sized t"
  proof (cases rule: enq_cases)
    case ok
    then have eq: "t = ?s\<lparr>rdp_rx := q\<rparr>"
      using enq by (simp add: t csp_rdp_queue_rx_add_def requeue_def set_rdp_rx_def)
    have "rx_sized t" unfolding eq using sz ok(3) by (auto simp: rx_sized_def set_pkt_def [of _ _ s])
    then show ?thesis
      using rdp_frame_trans [OF rdp_frame_fields(6) rdp_frame_fields(8)] by (simp add: eq set_pkt_def)
  next
    case full
    have a': "acct (add_mset p M) (?s\<lparr>rdp_rx := q\<rparr>)" using a full by simp
    note f = acct_free [OF a']
    have eq: "t = csp_buffer_free (Some p) (?s\<lparr>rdp_rx := q\<rparr>)"
      using enq full by (simp add: t csp_rdp_queue_rx_add_def requeue_def set_rdp_rx_def)
    have "rdp_rx t = rdp_rx s" "conns t = conns s"
      unfolding eq using more_fields [OF f(2)] full(2) by (simp_all add: set_pkt_def)
    moreover have "pkt t h = pkt ?s h" for h unfolding eq f(3) by simp
    ultimately show ?thesis
      using sz rdp_frame_trans [OF rdp_frame_fields(6) rdp_frame_trans [OF rdp_frame_fields(8) rdp_frame_fields(9)]]
      by (simp add: rx_sized_def) (simp add: eq)
  qed
  then show "rx_sized t" "conns t = conns s" "rdp_frame d s t" by blast+
qed

lemma rx_queue_add_spec:
  assumes "acct (add_mset p M) s" "rx_sized s" "5 < unat (plength (pkt s p))" "csp_rdp_rx_queue_add c p seq s = (e, t)"
  shows "acct (if e = 0 then M else add_mset p M) t" "rx_sized t" "conns t = conns s" "rdp_frame d s t"
proof -
  obtain b s1 where l: "csp_rdp_seq_in_rx_queue c seq s = (b, s1)" by (rule prod.exhaust)
  obtain q where q: "s1 = s\<lparr>rdp_rx := q\<rparr>" "acct (add_mset p M) s1" "mset (queue_list q) = mset (queue_list (rdp_rx s))"
    using seq_in_rx_spec [OF assms(1) l [unfolded csp_rdp_seq_in_rx_queue_def]] by blast
  have s1: "rx_sized s1" "5 < unat (plength (pkt s1 p))" "conns s1 = conns s" "rdp_frame d s s1"
    using assms(2,3) mset_eq_setD [OF q(3)] by (simp_all add: q(1) rx_sized_def)
  show "acct (if e = 0 then M else add_mset p M) t" "rx_sized t" "conns t = conns s" "rdp_frame d s t"
    using assms(4) l q(2) s1 rx_add_effect [OF q(2) s1(1,2) refl] rdp_frame_trans [OF s1(4)]
    by (cases b; auto simp: csp_rdp_rx_queue_add_def)+
qed

lemma conn_owned_member:
  "c < length (conns s) \<Longrightarrow> Some p \<in> set (queue_list (rx_queue (conn s c))) \<Longrightarrow> p \<in># (\<Sum>k \<leftarrow> conns s. conn_owned k)"
  by (auto simp: conn_def conn_owned_def List.map_filter_def in_set_conv_nth intro!: bexI [of _ "conns s ! c"] image_eqI)

text \<open>The in-sequence branch: the packet itself is delivered first, then every waiting packet that
  follows it.\<close>

lemma in_sequence_spec:
  assumes "acct (add_mset p M) s" "rx_sized s" "c < length (conns s)" "5 < unat (plength (pkt s p))"
    and "hdr_seq_host (pkt s p) = next_seq s c" "csp_rdp_receive_data c p s = (CSP_ERR_NONE, s2)"
  defines "s3 \<equiv> upd_rdp c (\<lambda>r. r\<lparr>rcv_cur := next_seq s c\<rparr>) s2"
  defines "s4 \<equiv> snd (csp_rdp_check_ack c s3)"
  defines "t \<equiv> csp_rdp_rx_queue_flush c s4"
  shows "acct M t \<and> rx_sized t \<and> rdp_frame c s t \<and> sockets t = sockets s \<and> rx_settled c t \<and>
    (\<exists>ps. delivered c (p # ps) s t \<and> set ps \<subseteq> set (queue_list (rdp_rx s))) \<and> cstate (conn t c) = cstate (conn s c) \<and>
    cidin (conn t c) = cidin (conn s c) \<and> copts (conn t c) = copts (conn s c) \<and> dest_socket (conn t c) = dest_socket (conn s c) \<and>
    rdp_st (rdp (conn t c)) = rdp_st (rdp (conn s c))"
proof -
  define u where "u = set_pkt p (csp_rdp_header_remove (pkt s p)) s"
  obtain q where q: "acct M s2" "s2 = upd_conn c (\<lambda>k. k\<lparr>rx_queue := q\<rparr>) u"
    "queue_list q = queue_list (rx_queue (conn s c)) @ [Some p]"
    using receive_data_spec [OF assms(1,3,4,6)] unfolding u_def by (auto simp: csp_err_defs)
  have pl: "p < length (bufs s)" "packet_wf (pkt s p)" using held_allocated [OF assms(1)] by simp_all
  have uf: "conns u = conns s" "rdp_rx u = rdp_rx s" "sockets u = sockets s" by (simp_all add: u_def set_pkt_def)
  have c3: "conn s3 c = (conn s c)\<lparr>rx_queue := q, rdp := (rdp (conn s c))\<lparr>rcv_cur := next_seq s c\<rparr>\<rparr>"
    using assms(3) uf(1) by (simp add: s3_def q(2) conn_upd) (simp add: conn_def)
  have len3: "c < length (conns s3)" using assms(3) uf(1) by (simp add: s3_def q(2))
  have f3: "rdp_rx s3 = rdp_rx s" "sockets s3 = sockets s" using uf by (simp_all add: s3_def q(2))
  have p3: "pkt s3 h = (if h = p then csp_rdp_header_remove (pkt s p) else pkt s h)" for h
    using pl(1) by (simp add: s3_def q(2) u_def)
  have a3: "acct M s3" using q(1) by (simp add: s3_def)
  have np: "p \<notin> set (queue_list (rdp_rx s))"
    using held_once [OF assms(1)] by (auto simp: owned_def)
  have sz3: "rx_sized s3" using assms(2) np f3(1) p3 by (auto simp: rx_sized_def)
  have fr3: "rdp_frame c s s3" unfolding s3_def q(2) u_def
    by (rule rdp_frame_trans [OF rdp_frame_fields(6) rdp_frame_trans [OF rdp_frame_fields(1) rdp_frame_fields(2)]])
  note ca = check_ack_spec [OF a3 sz3 refl, where c = c, folded s4_def]
  note ce = cmp_effect_conn [OF ca(3) len3]
  have rx4: "rdp_rx s4 = rdp_rx s" using ca(3) f3(1) by (simp add: cmp_effect_def)
  have q4: "rx_queue (conn s4 c) = q" "rcv_cur (rdp (conn s4 c)) = next_seq s c" "cstate (conn s4 c) = cstate (conn s c)"
    "cidin (conn s4 c) = cidin (conn s c)" "copts (conn s4 c) = copts (conn s c)" "dest_socket (conn s4 c) = dest_socket (conn s c)"
    "rdp_st (rdp (conn s4 c)) = rdp_st (rdp (conn s c))"
    using ce(1) c3 by auto
  have len4: "c < length (conns s4)" using ce(2) len3 by simp
  have po3: "p \<in># fixed_pkts M s3"
    using conn_owned_member [OF len3, of p] c3 q(3) by (simp add: fixed_pkts_def)
  have p4: "pkt s4 h = pkt s3 h" if "h = p \<or> h \<in> set (queue_list (rdp_rx s))" for h
    using that po3 ca(4) [of h] f3(1) by (auto simp: fixed_pkts_def)
  have d1: "delivered c [p] s s4"
    using q4(1,2) q(3) assms(5) p4 [of p] p3 [of p] header_remove(2) [OF pl(2)] assms(4)
    by (simp add: delivered_def)
  note fl = rx_flush_front_spec [OF ca(1,2) len4, of "Suc (csp_rdp_queue_rx_size s4)",
      folded csp_rdp_rx_queue_flush_def t_def]
  obtain ps where ps: "flushed c ps s4 t" using fl by blast
  have sub: "set ps \<subseteq> set (queue_list (rdp_rx s))"
    using ps rx4 unfolding flushed_def by (metis mset_subset_eq_add_left set_mset_mono set_mset_mset)
  have "p \<notin> set ps" using sub np by auto
  then have keep: "pkt t p = pkt s4 p" using ps by (simp add: flushed_def)
  have "\<forall>h \<in> set ps. pkt s4 h = pkt s h" using sub np p4 p3 by auto
  then have "delivered c (p # ps) s t"
    using delivered_Cons [OF d1 _ keep] ps by (simp add: flushed_def)
  moreover have "rx_settled c t"
    using fl ring.qlen_eq [OF acct_queue_inv(3) [OF ca(1)]] by (simp add: csp_rdp_queue_rx_size_def)
  moreover have "rdp_frame c s t"
    using rdp_frame_trans [OF fr3 rdp_frame_trans [OF ce(3)]] ps by (simp add: flushed_def)
  moreover have "cstate (conn t c) = cstate (conn s c)" "cidin (conn t c) = cidin (conn s c)"
    "copts (conn t c) = copts (conn s c)" "dest_socket (conn t c) = dest_socket (conn s c)" "rdp_st (rdp (conn t c)) = rdp_st (rdp (conn s c))"
    using ps q4 by (auto simp: flushed_def)
  moreover have "sockets t = sockets s" using ps ce(4) f3(2) by (simp add: flushed_def)
  ultimately show ?thesis using fl sub by blast
qed

lemma delivered_cong:
  "rx_queue (conn s' c) = rx_queue (conn s c) \<Longrightarrow> rcv_cur (rdp (conn s' c)) = rcv_cur (rdp (conn s c)) \<Longrightarrow>
   (\<And>h. pkt s' h = pkt s h) \<Longrightarrow> delivered c ps s' t = delivered c ps s t"
  by (simp add: delivered_def)

definition same_conn :: "nat \<Rightarrow> csp_state \<Rightarrow> csp_state \<Rightarrow> bool" where
  "same_conn c s t \<longleftrightarrow> cstate (conn t c) = cstate (conn s c) \<and> cidin (conn t c) = cidin (conn s c) \<and>
     copts (conn t c) = copts (conn s c) \<and> dest_socket (conn t c) = dest_socket (conn s c) \<and>
     rdp_st (rdp (conn t c)) = rdp_st (rdp (conn s c))"

lemma same_conn_cmp:
  "cmp_effect c ack s t \<Longrightarrow> c < length (conns s) \<Longrightarrow> same_conn c s t \<and> rx_queue (conn t c) = rx_queue (conn s c) \<and>
     rcv_cur (rdp (conn t c)) = rcv_cur (rdp (conn s c))"
  using cmp_effect_conn(1) [of c ack s t] by (auto simp: same_conn_def)

definition acceptable :: "nat \<Rightarrow> nat \<Rightarrow> u8 \<Rightarrow> u16 \<Rightarrow> csp_state \<Rightarrow> bool" where
  "acceptable c p fl seq s \<longleftrightarrow> fl AND RDP_EAK = 0 \<and> 5 < unat (plength (pkt s p)) \<and> seq = next_seq s c \<and>
     0 < csp_queue_free (rx_queue (conn s c))"

lemma open_data_spec:
  assumes "acct (add_mset p M) s" "rx_sized s" "c < length (conns s)" "hdr_seq_host (pkt s p) = seq"
    and "rdp_open_data c p fl seq ack s = (out, t)"
  shows "acct (if out = Accepted_open then M else add_mset p M) t \<and> rx_sized t \<and> rdp_frame c s t \<and> same_conn c s t \<and>
    (\<forall>b. out \<noteq> Discard_close b) \<and>
    (\<exists>ps. delivered c ps s t \<and> (if acceptable c p fl seq s
       then out = Accepted_open \<and> rx_settled c t \<and> ps \<noteq> [] \<and> hd ps = p \<and> set (tl ps) \<subseteq> set (queue_list (rdp_rx s)) else ps = []))"
proof -
  define s0 where "s0 = (if dest_socket (conn s c) = None then upd_conn c (\<lambda>k. k\<lparr>ctimestamp := now s\<rparr>) s else s)"
  define s1 where "s1 = upd_rdp c (\<lambda>r. r\<lparr>snd_una := ack + 1\<rparr>) s0"
  note res = assms(5) [unfolded rdp_open_data_def, folded s0_def, unfolded Let_def, folded s1_def]
  have a1: "acct (add_mset p M) s1" "rx_sized s1" "c < length (conns s1)" "rdp_rx s1 = rdp_rx s" "\<And>h. pkt s1 h = pkt s h"
    using assms(1-3) by (auto simp: s1_def s0_def acct_upd_conn)
  have fr1: "rdp_frame c s s1" unfolding s1_def s0_def
    using rdp_frame_trans [OF rdp_frame_fields(1) rdp_frame_fields(2)] by simp
  have c1: "same_conn c s s1" "rx_queue (conn s1 c) = rx_queue (conn s c)" "rcv_cur (rdp (conn s1 c)) = rcv_cur (rdp (conn s c))"
    using assms(3) by (auto simp: s1_def s0_def conn_upd same_conn_def)
  have dc: "delivered c ps s1 t = delivered c ps s t" for ps t by (rule delivered_cong [OF c1(2,3) a1(5)])
  have ac: "acceptable c p fl seq s \<longleftrightarrow> acceptable c p fl seq s1" by (simp add: acceptable_def a1(5) c1)
  have nil: "delivered c [] s t" if "rx_queue (conn t c) = rx_queue (conn s1 c)" "rcv_cur (rdp (conn t c)) = rcv_cur (rdp (conn s1 c))" for t
    using that c1 by simp
  have sc: "same_conn c s t" if "same_conn c s1 t" for t using c1(1) that by (simp add: same_conn_def)
  have quiet: ?thesis if "out \<noteq> Accepted_open" "\<forall>b. out \<noteq> Discard_close b" "\<not> acceptable c p fl seq s1"
    "acct (add_mset p M) t" "rx_sized t" "rdp_frame c s1 t" "same_conn c s1 t" "rx_queue (conn t c) = rx_queue (conn s1 c)"
    "rcv_cur (rdp (conn t c)) = rcv_cur (rdp (conn s1 c))"
    using that nil [of t] sc [of t] rdp_frame_trans [OF fr1, of t] ac by auto
  consider (none) "fl AND RDP_EAK \<noteq> 0 \<or> unat (plength (pkt s1 p)) \<le> 5" "out = Discard_open False" "t = s1"
    | (later) "fl AND RDP_EAK = 0" "5 < unat (plength (pkt s1 p))" "seq \<noteq> next_seq s1 c"
    | (next') "fl AND RDP_EAK = 0" "5 < unat (plength (pkt s1 p))" "seq = next_seq s1 c"
    using res by (auto simp: CSP_RDP_HEADER_SIZE_def split: if_splits)
  then show ?thesis
  proof cases
    case none
    then show ?thesis by (intro quiet) (auto simp: a1 acceptable_def same_conn_def)
  next
    case later
    obtain e s2 where rq: "csp_rdp_rx_queue_add c p seq s1 = (e, s2)" by (rule prod.exhaust)
    note sp = rx_queue_add_spec [OF a1(1,2) later(2) rq]
    have cs2: "conn s2 c = conn s1 c" "c < length (conns s2)" using sp(3) a1(3) by (simp_all add: conn_def)
    have nacc: "\<not> acceptable c p fl seq s1" using later(3) by (simp add: acceptable_def)
    show ?thesis
    proof (cases "e = 0")
      case True
      then have "out = Accepted_open" "t = s2"
        using res later rq by (simp_all add: CSP_RDP_HEADER_SIZE_def)
      then show ?thesis
        using True sp(1,2) rdp_frame_trans [OF fr1 sp(4)] nil [of s2] sc [of s2] cs2 nacc ac by (auto simp: same_conn_def)
    next
      case False
      then have o: "out = Discard_open False" and t: "t = snd (csp_rdp_check_ack c s2)"
        using res later rq by (simp_all add: CSP_RDP_HEADER_SIZE_def)
      have a2: "acct (add_mset p M) s2" using sp(1) False by simp
      note ca = check_ack_spec [OF a2 sp(2) t]
      note ce = same_conn_cmp [OF ca(3) cs2(2)]
      have "rdp_frame c s1 t" by (rule rdp_frame_trans [OF sp(4) cmp_effect_conn(3) [OF ca(3) cs2(2)]])
      then show ?thesis by (intro quiet) (use o nacc ca ce cs2(1) in \<open>auto simp: same_conn_def\<close>)
    qed
  next
    case next'
    obtain e s2 where rd: "csp_rdp_receive_data c p s1 = (e, s2)" by (rule prod.exhaust)
    note sp = receive_data_spec [OF a1(1,3) next'(2) rd]
    show ?thesis
    proof (cases "e = CSP_ERR_NONE")
      case True
      have room: "acceptable c p fl seq s1" using sp True next' by (auto simp: acceptable_def csp_err_defs)
      have o: "out = Accepted_open"
        and t: "t = csp_rdp_rx_queue_flush c (snd (csp_rdp_check_ack c (upd_rdp c (\<lambda>r. r\<lparr>rcv_cur := next_seq s1 c\<rparr>) s2)))"
        using res next' rd True by (simp_all add: CSP_RDP_HEADER_SIZE_def)
      have hs: "hdr_seq_host (pkt s1 p) = next_seq s1 c" using assms(4) next'(3) a1(5) by simp
      note sq = in_sequence_spec [OF a1(1-3) next'(2) hs rd [unfolded True], folded t]
      then obtain ps where "delivered c (p # ps) s1 t" "set ps \<subseteq> set (queue_list (rdp_rx s1))" by blast
      then have "delivered c (p # ps) s t \<and> rx_settled c t \<and> p # ps \<noteq> [] \<and> hd (p # ps) = p \<and> set (tl (p # ps)) \<subseteq> set (queue_list (rdp_rx s))"
        using sq a1(4) by (simp add: dc)
      moreover have "rdp_frame c s t" using sq rdp_frame_trans [OF fr1] by blast
      moreover have "same_conn c s t" using sq sc by (auto simp: same_conn_def)
      moreover have "acct M t" "rx_sized t" using sq by blast+
      ultimately show ?thesis using o room ac by (intro conjI exI [of _ "p # ps"]) simp_all
    next
      case False
      then have o: "out = Discard_open False" and t: "t = s2" using res next' rd by (simp_all add: CSP_RDP_HEADER_SIZE_def)
      have s2: "acct (add_mset p M) s2"
        "s2 = conn_ovf_inc (conn_ovf_inc (set_pkt p (csp_rdp_header_remove (pkt s1 p)) s1))"
        "csp_queue_free (rx_queue (conn s1 c)) = 0" using sp False by auto
      have c2: "conn s2 c = conn s1 c" "rdp_rx s2 = rdp_rx s1"
        by (simp_all add: s2(2) conn_def conn_ovf_inc_def upd_dbg_def set_pkt_def)
      have "p \<notin> set (queue_list (rdp_rx s))" using held_once [OF assms(1)] by (auto simp: owned_def)
      then have "pkt s2 h = pkt s1 h" if "h \<in> set (queue_list (rdp_rx s))" for h
        using that by (cases "h = p") (auto simp: s2(2))
      then have "rx_sized s2" using a1(2) c2(2) a1(4) by (simp add: rx_sized_def)
      moreover have "rdp_frame c s1 s2" unfolding s2(2)
        by (rule rdp_frame_trans [OF rdp_frame_fields(6) rdp_frame_trans [OF rdp_frame_fields(4) rdp_frame_fields(4)]])
      ultimately show ?thesis
        by (intro quiet) (use o t s2 c2 in \<open>auto simp: acceptable_def same_conn_def\<close>)
    qed
  qed
qed

lemma sock_owned_upd_conn:
  "sock_owned (k\<lparr>sock_queue := Some q\<rparr>) = mset (sock_packets (queue_list q))"
  by (simp add: sock_owned_def)

lemma sock_enqueue_spec:
  assumes "acct (case x of Sock_packet p \<Rightarrow> add_mset p M | Sock_conn _ \<Rightarrow> M) s" "k < length (sockets s)"
    and "sock_enqueue k x s = (e, t)"
  shows "acct (if e = CSP_QUEUE_OK then M else (case x of Sock_packet p \<Rightarrow> add_mset p M | Sock_conn _ \<Rightarrow> M)) t"
    "conns t = conns s" "rdp_rx t = rdp_rx s" "rdp_tx t = rdp_tx s" "free_list t = free_list s" "pkt t h = pkt s h"
    "rdp_frame c s t" "e = CSP_QUEUE_OK \<or> e = CSP_QUEUE_ERROR"
proof -
  have P: "acct (if e = CSP_QUEUE_OK then M else (case x of Sock_packet p \<Rightarrow> add_mset p M | Sock_conn _ \<Rightarrow> M)) t \<and>
    (\<exists>b q. t = s\<lparr>fault := b\<rparr> \<or> t = s\<lparr>sockets := (sockets s)[k := (sockets s ! k)\<lparr>sock_queue := q\<rparr>]\<rparr>) \<and>
    (e = CSP_QUEUE_OK \<or> e = CSP_QUEUE_ERROR)"
  proof (cases "sock_queue (sockets s ! k)")
    case None
    then show ?thesis using assms(1,3) by (auto simp: sock_enqueue_def)
  next
    case (Some q)
    obtain e' q' where enq: "csp_queue_enqueue x q = (e', q')" by (rule prod.exhaust)
    have t: "e = e'" "t = s\<lparr>sockets := (sockets s)[k := (sockets s ! k)\<lparr>sock_queue := Some q'\<rparr>]\<rparr>"
      using assms(3) Some enq by (simp_all add: sock_enqueue_def)
    have inv: "queue_inv q" by (rule acct_queue_inv(6) [OF assms(1,2) Some])
    from inv enq have "acct (if e = CSP_QUEUE_OK then M else (case x of Sock_packet p \<Rightarrow> add_mset p M | Sock_conn _ \<Rightarrow> M)) t"
    proof (cases rule: enq_cases)
      case ok
      have "acct M t" unfolding t(2)
        by (rule acct_sock_rx [OF assms(1,2)])
          (use ok Some in \<open>auto simp: sock_owned_def split: sock_item.split\<close>)
      then show ?thesis using ok(1) t(1) by simp
    next
      case full
      then have "t = s" using t(2) Some assms(2) by (cases "sockets s ! k") (simp add: list_update_same_conv)
      then show ?thesis using full(1) t(1) assms(1) by simp
    qed
    moreover have "e = CSP_QUEUE_OK \<or> e = CSP_QUEUE_ERROR"
      using enq_cases [OF inv enq] t(1) by blast
    ultimately show ?thesis using t(2) by blast
  qed
  have so: "map sock_opts ((sockets s)[k := (sockets s ! k)\<lparr>sock_queue := q\<rparr>]) = map sock_opts (sockets s)" for q
    using assms(2) by (simp add: map_update list_update_same_conv)
  show "acct (if e = CSP_QUEUE_OK then M else (case x of Sock_packet p \<Rightarrow> add_mset p M | Sock_conn _ \<Rightarrow> M)) t"
    "e = CSP_QUEUE_OK \<or> e = CSP_QUEUE_ERROR" using P by blast+
  show "conns t = conns s" "rdp_rx t = rdp_rx s" "rdp_tx t = rdp_tx s" "free_list t = free_list s" "pkt t h = pkt s h" "rdp_frame c s t"
    using P so by (auto simp: rdp_frame_def conn_def pkt_def)
qed

text \<open>The socket a connection waits for exists.\<close>

definition dest_ok :: "nat \<Rightarrow> csp_state \<Rightarrow> bool" where
  "dest_ok c s \<longleftrightarrow> (\<forall>k. dest_socket (conn s c) = Some k \<longrightarrow> k < length (sockets s))"

lemma open_data_handled:
  assumes "acct (add_mset p M) u" "rx_sized u" "c < length (conns u)" "hdr_seq_host (pkt u p) = seq"
    and "rdp_open_data c p fl seq ack u = (out, t)" "rdp_frame c s u" "free_list u = free_list s"
    and "cstate (conn u c) = cstate (conn s c)" "cidin (conn u c) = cidin (conn s c)" "copts (conn u c) = copts (conn s c)"
    and "rdp_step (Ev_packet fl) (rdp_st (rdp (conn s c))) (rdp_st (rdp (conn u c)))"
  shows "handled c p M fl s out t"
  using open_data_spec [OF assms(1-5)] assms(6-11) rdp_frame_trans [OF assms(6)]
  by (intro handled_plain) (auto simp: same_conn_def)

lemma in_open_handled:
  assumes "acct (add_mset p M) s" "rx_sized s" "c < length (conns s)" "dest_ok c s" "hdr_seq_host (pkt s p) = seq"
    and "rdp_st (rdp (conn s c)) = RDP_SYN_RCVD \<or> rdp_st (rdp (conn s c)) = RDP_OPEN"
    and "fl AND RDP_RST = 0" "rdp_in_open c p fl seq ack s = (out, t)"
  shows "handled c p M fl s out t"
proof -
  define s1 where "s1 = upd_rdp c (\<lambda>r. r\<lparr>rdp_st := RDP_OPEN\<rparr>) s"
  have s1: "acct (add_mset p M) s1" "rx_sized s1" "c < length (conns s1)" "hdr_seq_host (pkt s1 p) = seq" "rdp_frame c s s1"
    "free_list s1 = free_list s" "sockets s1 = sockets s" "\<And>h. pkt s1 h = pkt s h"
    using assms(1-3,5) by (simp_all add: s1_def)
  have c1: "conn s1 c = (conn s c)\<lparr>rdp := (rdp (conn s c))\<lparr>rdp_st := RDP_OPEN\<rparr>\<rparr>" using assms(3) by (simp add: s1_def conn_upd)
  consider (drop) "t = s" "out \<noteq> Accepted_open"
    | (resend) "out = Discard_open False"
      "t = snd (csp_rdp_send_cmp c None (RDP_ACK OR RDP_SYN) (snd_iss (rdp (conn s c))) (rcv_irs (rdp (conn s c))) s)"
    | (open') "rdp_st (rdp (conn s c)) = RDP_OPEN" "rdp_open_data c p fl seq ack s = (out, t)"
    | (opened) "rdp_st (rdp (conn s c)) = RDP_SYN_RCVD" "fl AND RDP_SYN = 0" "fl AND RDP_ACK \<noteq> 0"
      "(case dest_socket (conn s1 c) of
          None \<Rightarrow> rdp_open_data c p fl seq ack s1
        | Some k \<Rightarrow> (case sock_enqueue k (Sock_conn c) s1 of
            (e, s) \<Rightarrow> if e = CSP_QUEUE_ERROR then (Discard_close CSP_RDP_CLOSED_BY_PROTOCOL, s)
              else rdp_open_data c p fl seq ack (upd_conn c (\<lambda>k. k\<lparr>dest_socket := None\<rparr>) s))) = (out, t)"
    using assms(6,8) unfolding rdp_in_open_def Let_def s1_def [symmetric] by (auto split: if_splits)
  then show ?thesis
  proof cases
    case drop
    then show ?thesis using assms(1,2) by (intro handled_plain) (auto intro: step_stay)
  next
    case resend
    show ?thesis
      by (rule handled_cmp(1) [OF assms(1,2) rdp_frame_refl assms(3) refl refl refl refl step_stay _ _ resend(2)])
        (simp_all add: resend(1))
  next
    case open'
    show ?thesis
      by (rule open_data_handled [OF assms(1-3,5) open'(2)]) (simp_all add: step_stay)
  next
    case opened
    have step: "rdp_step (Ev_packet fl) (rdp_st (rdp (conn s c))) RDP_OPEN"
      unfolding opened(1) using opened(2,3) assms(7) by (intro step_ack)
    show ?thesis
    proof (cases "dest_socket (conn s1 c)")
      case None
      then have "rdp_open_data c p fl seq ack s1 = (out, t)" using opened(4) by simp
      then show ?thesis by (rule open_data_handled [OF s1(1-4)]) (simp_all add: s1 c1 step)
    next
      case (Some k)
      then have k: "k < length (sockets s1)" using assms(4) c1 s1(7) by (simp add: dest_ok_def)
      obtain e s2 where enq: "sock_enqueue k (Sock_conn c) s1 = (e, s2)" by (rule prod.exhaust)
      have a1': "acct (case Sock_conn c of Sock_packet p' \<Rightarrow> add_mset p' (add_mset p M) | Sock_conn _ \<Rightarrow> add_mset p M) s1"
        using s1(1) by simp
      note sp = sock_enqueue_spec [OF a1' k enq]
      have a2: "acct (add_mset p M) s2" using sp(1) by (simp split: if_splits)
      have c2: "conn s2 c = conn s1 c" "c < length (conns s2)" using sp(2) s1(3) by (simp_all add: conn_def)
      have sz2: "rx_sized s2" using s1(2) sp(3,6) by (simp add: rx_sized_def)
      have fr2: "rdp_frame c s s2" by (rule rdp_frame_trans [OF s1(5) sp(7)])
      show ?thesis
      proof (cases "e = CSP_QUEUE_ERROR")
        case True
        then have "out = Discard_close CSP_RDP_CLOSED_BY_PROTOCOL" "t = s2" using opened(4) Some enq by simp_all
        then show ?thesis using a2 sz2 fr2 c2(1) c1 step opened(1) by (intro handled_plain) simp_all
      next
        case False
        define s3 where "s3 = upd_conn c (\<lambda>k. k\<lparr>dest_socket := None\<rparr>) s2"
        have od: "rdp_open_data c p fl seq ack s3 = (out, t)" using opened(4) Some enq False by (simp add: s3_def)
        have fr3: "rdp_frame c s s3" unfolding s3_def by (rule rdp_frame_trans [OF fr2 rdp_frame_fields(1)])
        show ?thesis
          by (rule open_data_handled [OF _ _ _ _ od fr3])
            (use a2 sz2 c2 c1 step s1 sp(5,6) in \<open>simp_all add: s3_def acct_upd_conn conn_upd\<close>)
      qed
    qed
  qed
qed

lemma switch_handled:
  assumes "acct (add_mset p M) s" "rx_sized s" "c < length (conns s)" "dest_ok c s" "hdr_seq_host (pkt s p) = seq"
    and "rdp_switch c p fl seq ack s = (out, t)"
  shows "handled c p M fl s out t"
proof (cases "fl AND RDP_RST = 0")
  case False
  then show ?thesis using reset_handled [OF assms(1-3)] assms(6) by (simp add: rdp_switch_def)
next
  case True
  note pr = assms(1-3)
  show ?thesis
    using assms(6) True in_closed_handled [OF pr _ True] in_syn_sent_handled [OF pr _ True]
      in_open_handled [OF assms(1-5) _ True] in_close_wait_handled [OF pr]
    by (cases "rdp_st (rdp (conn s c))") (simp_all add: rdp_switch_def)
qed

lemma conn_ovf: "conn (conn_ovf_inc s) c = conn s c"
  by (simp add: conn_ovf_inc_def upd_dbg_def conn_def)

lemma conn_close_state:
  assumes "acct M s" "rx_sized s" "c < length (conns s)" and t_def: "t = snd (csp_conn_close (Some c) by' s)"
  shows "rdp_st (rdp (conn t c)) = rdp_st (rdp (conn s c)) \<or>
     (rdp_st (rdp (conn s c)) \<noteq> RDP_CLOSED \<and> rdp_st (rdp (conn t c)) \<in> {RDP_CLOSE_WAIT, RDP_CLOSED})"
proof -
  have "csp_conn_close (Some c) by' s = (fst (csp_conn_close (Some c) by' s), t)" by (simp add: t_def)
  note cl = conn_close_spec [OF assms(1-3) this]
  consider "cstate (conn s c) = CONN_CLOSED" | "\<not> uses_rdp (conn s c)" "cstate (conn s c) \<noteq> CONN_CLOSED"
    | "uses_rdp (conn s c)" "cstate (conn s c) \<noteq> CONN_CLOSED" by blast
  then show ?thesis
  proof cases
    case 2
    note fl = conn_flush_spec [OF assms(1,3) refl]
    from 2 have "t = (let s = csp_conn_flush_rx_queue c s;
        s = (if flags (cidin (conn s c)) AND CSP_FRDP \<noteq> 0 then csp_rdp_queue_flush (Some c) s else s)
      in upd_conn c (\<lambda>k. k\<lparr>cstate := CONN_CLOSED\<rparr>) s)"
      by (simp add: t_def csp_conn_close_def uses_rdp_def Let_def)
    then show ?thesis
      using fl(3,8) queue_flush_frame(3) [OF fl(1) refl, of c] assms(3)
      by (auto simp: Let_def conn_upd split: if_splits) (auto simp: conn_def)
  qed (use cl in \<open>auto simp: close_waits_def split: if_splits\<close>)
qed

lemma discard_close_spec:
  assumes "acct M s" "rx_sized s" "c < length (conns s)" and t: "t = rdp_discard_close c by' s"
  shows "acct M t" "rx_sized t" "rdp_frame c s t"
    "rdp_st (rdp (conn t c)) = rdp_st (rdp (conn s c)) \<or>
     (rdp_st (rdp (conn s c)) \<noteq> RDP_CLOSED \<and> rdp_st (rdp (conn t c)) \<in> {RDP_CLOSE_WAIT, RDP_CLOSED})"
proof -
  define b where "b = (if dest_socket (conn s c) = None then by' else by' OR CSP_RDP_CLOSED_BY_USERSPACE)"
  define u where "u = snd (csp_conn_close (Some c) b s)"
  have "csp_conn_close (Some c) b s = (fst (csp_conn_close (Some c) b s), u)" by (simp add: u_def)
  note cl = conn_close_spec [OF assms(1-3) this]
  have u: "acct M u" "rx_sized u" "rdp_frame c s u" "c < length (conns u)"
    using cl assms(3) by (simp_all add: rdp_frame_def)
  note st = conn_close_state [OF assms(1-3) u_def]
  have t': "t = (if dest_socket (conn s c) = None then snd (csp_conn_enqueue_packet c None u) else u)"
    by (simp add: t rdp_discard_close_def u_def b_def)
  have "acct (case None of None \<Rightarrow> M | Some p \<Rightarrow> add_mset p M) u" using u(1) by simp
  note enq = conn_enqueue_spec [OF this u(4) prod.collapse [symmetric]]
  have fr: "rdp_frame c s (upd_conn c f u)" "rdp_frame c s (conn_ovf_inc u)" for f
    using rdp_frame_trans [OF u(3)] by simp_all
  have "acct M t \<and> rx_sized t \<and> rdp_frame c s t \<and> rdp_st (rdp (conn t c)) = rdp_st (rdp (conn u c))"
    using enq u fr by (auto simp: t' conn_upd conn_ovf)
  then show "acct M t" "rx_sized t" "rdp_frame c s t"
    "rdp_st (rdp (conn t c)) = rdp_st (rdp (conn s c)) \<or>
     (rdp_st (rdp (conn s c)) \<noteq> RDP_CLOSED \<and> rdp_st (rdp (conn t c)) \<in> {RDP_CLOSE_WAIT, RDP_CLOSED})"
    using st by auto
qed

lemma new_packet_spec:
  assumes "acct (add_mset p M) s" "rx_sized s" "c < length (conns s)" "dest_ok c s" "csp_rdp_new_packet c p s = (b, t)"
  shows "(\<exists>N. lost N s \<and> acct (N + M) t) \<and> rx_sized t \<and> rdp_frame c s t \<and>
    rdp_step (Ev_packet (hdr_flags (pkt s p))) (rdp_st (rdp (conn s c))) (rdp_st (rdp (conn t c)))"
proof -
  let ?p = "pkt s p" and ?e = "Ev_packet (hdr_flags (pkt s p))"
  define s1 where "s1 = set_pkt p (hdr_to_host ?p) s"
  have pl: "p < length (bufs s)" "packet_wf ?p" using held_allocated [OF assms(1)] by simp_all
  have a1: "acct (add_mset p M) s1" unfolding s1_def by (rule acct_set_pkt [OF assms(1)]) (simp add: pl(2))
  have f1: "conns s1 = conns s" "rdp_rx s1 = rdp_rx s" "sockets s1 = sockets s" "rdp_frame c s s1" "free_list s1 = free_list s"
    "\<And>d. conn s1 d = conn s d"
    by (simp_all add: s1_def) (simp_all add: set_pkt_def conn_def)
  have "p \<notin> set (queue_list (rdp_rx s))" using held_once [OF assms(1)] by (auto simp: owned_def)
  then have "pkt s1 h = pkt s h" if "h \<in> set (queue_list (rdp_rx s))" for h
    using that by (cases "h = p") (auto simp: s1_def)
  then have sz1: "rx_sized s1" using assms(2) f1(2) by (simp add: rx_sized_def)
  have p1: "pkt s1 p = hdr_to_host ?p" using pl(1) by (simp add: s1_def)
  obtain out u where sw: "rdp_switch c p (hdr_flags ?p) (hdr_seq_be ?p) (hdr_ack_be ?p) s1 = (out, u)" by (rule prod.exhaust)
  have "handled c p M (hdr_flags ?p) s1 out u"
    by (rule switch_handled [OF a1 sz1 _ _ _ sw])
      (use assms(3,4) f1 p1 header_to_host(1) [OF pl(2)] in \<open>simp_all add: dest_ok_def\<close>)
  then obtain N where h: "rx_sized u" "rdp_frame c s1 u" "lost N s" "acct (N + (if out = Accepted_open then M else add_mset p M)) u"
    "rdp_step ?e (rdp_st (rdp (conn s c))) (rdp_st (rdp (conn u c)))"
    "\<And>b. out = Discard_close b \<Longrightarrow> rdp_st (rdp (conn u c)) = RDP_CLOSED \<longleftrightarrow> rdp_st (rdp (conn s c)) = RDP_CLOSED"
    by (auto simp: handled_def f1 lost_def split: rdp_outcome.splits)
  have fr: "rdp_frame c s u" by (rule rdp_frame_trans [OF f1(4) h(2)])
  have len: "c < length (conns u)" using fr assms(3) by (simp add: rdp_frame_def)
  have res: "(b, t) = (case out of Discard_close by' \<Rightarrow> (False, csp_buffer_free (Some p) (rdp_discard_close c by' u))
      | Discard_open b \<Rightarrow> (b, csp_buffer_free (Some p) u) | Accepted_open \<Rightarrow> (False, u))"
    using assms(5) sw by (simp add: csp_rdp_new_packet_def s1_def [symmetric] split: rdp_outcome.splits)
  have free: "acct (N + M) (csp_buffer_free (Some p) v) \<and> rx_sized (csp_buffer_free (Some p) v) \<and>
      rdp_frame c s (csp_buffer_free (Some p) v) \<and> conn (csp_buffer_free (Some p) v) c = conn v c"
    if "acct (add_mset p (N + M)) v" "rx_sized v" "rdp_frame c s v" for v
    using acct_free [OF that(1)] more_fields [OF acct_free(2) [OF that(1)]] that(2)
      rdp_frame_trans [OF that(3) rdp_frame_fields(9)] by (simp add: rx_sized_def)
  show ?thesis
  proof (cases out)
    case (Discard_close by')
    have a: "acct (add_mset p (N + M)) u" using h(4) Discard_close by simp
    note dc = discard_close_spec [OF a h(1) len refl, of by']
    have "rdp_step ?e (rdp_st (rdp (conn s c))) (rdp_st (rdp (conn (rdp_discard_close c by' u) c)))"
      using dc(4) h(5,6) Discard_close by (auto intro: step_closing step_closed)
    moreover have "t = csp_buffer_free (Some p) (rdp_discard_close c by' u)" using res Discard_close by simp
    ultimately show ?thesis using free [OF dc(1,2) rdp_frame_trans [OF fr dc(3)]] h(3) by auto
  next
    case (Discard_open x)
    have a: "acct (add_mset p (N + M)) u" using h(4) Discard_open by simp
    have "t = csp_buffer_free (Some p) u" using res Discard_open by simp
    then show ?thesis using free [OF a h(1) fr] h(3,5) by auto
  next
    case Accepted_open
    then show ?thesis using res h fr by auto
  qed
qed

section \<open>Timeouts\<close>

text \<open>Without a packet, the sending loops do nothing.\<close>

lemma subnet_loop_None: "snd (send_subnet_loop n idout idout' None None ifc found s) = s"
  by (induction n arbitrary: idout' ifc found) (simp_all add: send_copy_None Let_def split: option.split)

lemma route_loop_None: "snd (send_route_loop n idout None None route s) = s"
  by (induction n arbitrary: idout route) (simp_all add: send_copy_None Let_def split: option.split)

lemma default_loop_None: "snd (send_default_loop n idout None None ifc s) = s"
  by (induction n arbitrary: idout ifc) (simp_all add: send_copy_None Let_def split: option.split)

lemma send_direct_None: "snd (csp_send_direct idout None None s) = s"
proof -
  define n where "n = Suc (length (interfaces (iflist s)))"
  obtain found where l: "send_subnet_loop n idout idout None None None False s = (found, s)"
    using subnet_loop_None [of n idout idout None False s] by (metis prod.collapse)
  show ?thesis
    using default_loop_None [of n idout None s] route_loop_None [of _ idout _ s]
    unfolding csp_send_direct_def n_def [symmetric] Let_def l
    by (simp add: csp_buffer_free_def split: option.split prod.split del: send_route_loop.simps send_default_loop.simps)
qed

text \<open>Only the id of outgoing packets and the queue of sent packets change.\<close>

definition tx_effect :: "nat \<Rightarrow> nat multiset \<Rightarrow> csp_state \<Rightarrow> csp_state \<Rightarrow> bool" where
  "tx_effect c M s t \<longleftrightarrow> rdp_frame c s t \<and> sockets t = sockets s \<and> rdp_rx t = rdp_rx s \<and>
     (\<exists>i. conn t c = (conn s c)\<lparr>cidout := i\<rparr>) \<and> fixed_pkts M t = fixed_pkts M s \<and> (\<forall>h. h \<in># fixed_pkts M s \<longrightarrow> pkt t h = pkt s h)"

lemma tx_effect_refl [simp]: "tx_effect c M s s"
  by (auto simp: tx_effect_def intro: exI [of _ "cidout (conn s c)"])

lemma tx_effect_trans:
  assumes "tx_effect c M s t" "tx_effect c M t u"
  shows "tx_effect c M s u"
proof -
  have "\<exists>i. conn u c = (conn s c)\<lparr>cidout := i\<rparr>" using assms by (auto simp: tx_effect_def)
  moreover have "rdp_frame c s u" using assms rdp_frame_trans by (auto simp: tx_effect_def)
  ultimately show ?thesis using assms by (simp add: tx_effect_def)
qed

lemma tx_effect_conns:
  assumes "rdp_frame c s t" "sockets t = sockets s" "rdp_rx t = rdp_rx s" "conns t = conns s"
    and "\<And>h. h \<in># fixed_pkts M s \<Longrightarrow> pkt t h = pkt s h"
  shows "tx_effect c M s t"
proof -
  have "conn t c = (conn s c)\<lparr>cidout := cidout (conn s c)\<rparr>" using assms(4) by (simp add: conn_def)
  moreover have "fixed_pkts M t = fixed_pkts M s" using assms(3,4) by (simp add: fixed_pkts_def)
  ultimately show ?thesis using assms unfolding tx_effect_def by blast
qed

lemma send_on_conn_spec:
  assumes "acct (case x of None \<Rightarrow> M | Some p \<Rightarrow> add_mset p M) s" "c < length (conns s)" and t: "t = send_on_conn c x s"
  shows "acct M t" "tx_effect c M s t" "rdp_tx t = rdp_tx s"
proof -
  define u where "u = snd (csp_send_direct (cidout (conn s c)) x None s)"
  obtain i where i: "csp_send_direct (cidout (conn s c)) x None s = (i, u)" unfolding u_def by (metis prod.collapse)
  have t': "t = upd_conn c (\<lambda>k. k\<lparr>cidout := i\<rparr>) u" by (simp add: t send_on_conn_def i)
  have u: "acct M u \<and> net_frame s u \<and> (\<forall>h. h \<in># fixed_pkts M s \<longrightarrow> pkt u h = pkt s h)"
  proof (cases x)
    case None
    then show ?thesis using assms(1) send_direct_None by (simp add: u_def)
  next
    case (Some p)
    have a: "acct (add_mset p M) s" using assms(1) Some by simp
    have "h \<in># M + kept s" if "h \<in># fixed_pkts M s" for h using that by (auto simp: fixed_pkts_def kept_def)
    then show ?thesis using send_direct_acct [OF a] send_direct_pkt [OF a] Some by (simp add: u_def)
  qed
  then have cu: "conns u = conns s" "sockets u = sockets s" "rdp_rx u = rdp_rx s" "rdp_tx u = rdp_tx s"
    by (simp_all add: net_frame_def)
  show "acct M t" using u by (simp add: t' acct_upd_conn)
  show "rdp_tx t = rdp_tx s" using cu by (simp add: t')
  have "rdp_frame c s t" unfolding t' using rdp_frame_trans [OF rdp_frame_net rdp_frame_fields(1)] u by blast
  moreover have "conn t c = (conn s c)\<lparr>cidout := i\<rparr>" using assms(2) cu(1) by (simp add: t' conn_upd) (simp add: conn_def)
  moreover have "fixed_pkts M t = fixed_pkts M u" by (simp add: t' fixed_upd_conn)
  then have "fixed_pkts M t = fixed_pkts M s" using cu by (simp add: fixed_pkts_def)
  ultimately show "tx_effect c M s t" using cu u by (auto simp: tx_effect_def t')
qed

lemma fixed_not_held:
  assumes "acct (add_mset p M) s" "h \<in># fixed_pkts M s"
  shows "h \<noteq> p"
  using fixed_owned [OF assms(2)] held_once [OF assms(1)] by auto

lemma fixed_add [simp]: "fixed_pkts (add_mset p M) s = add_mset p (fixed_pkts M s)"
  by (simp add: fixed_pkts_def)

lemma tx_effect_set_pkt: "acct (add_mset p M) s \<Longrightarrow> tx_effect c M s (set_pkt p x s)"
proof (rule tx_effect_conns)
  show "pkt (set_pkt p x s) h = pkt s h" if "acct (add_mset p M) s" "h \<in># fixed_pkts M s" for h
    using fixed_not_held [OF that] by simp
qed (simp_all add: set_pkt_def [of p x s] rdp_frame_def conn_def)

lemma tx_effect_more:
  assumes "csp_pool.more t = csp_pool.more (s\<lparr>rdp_tx := q\<rparr>)" "\<And>h. h \<in># fixed_pkts M s \<Longrightarrow> pkt t h = pkt s h"
  shows "tx_effect c M s t"
  using more_fields_tx [OF assms(1)] assms(2) by (intro tx_effect_conns) simp_all

lemma tx_effect_more0:
  assumes "csp_pool.more t = csp_pool.more s" "\<And>h. h \<in># fixed_pkts M s \<Longrightarrow> pkt t h = pkt s h"
  shows "tx_effect c M s t"
  using tx_effect_more [where t = t and s = s and q = "rdp_tx s" and M = M and c = c] assms by simp

lemma retransmit_spec:
  assumes "acct (add_mset p M) s" "c < length (conns s)" and t: "t = rdp_retransmit c p s"
  shows "acct (add_mset p M) t" "tx_effect c M s t"
proof -
  let ?p = "(hdr_set_ack (rcv_cur (rdp (conn s c))) (pkt s p))\<lparr>timestamp_tx := now s\<rparr>"
  define s1 where "s1 = set_pkt p ?p s"
  have pl: "p < length (bufs s)" "packet_wf (pkt s p)" using held_allocated [OF assms(1)] by simp_all
  have a1: "acct (add_mset p M) s1" unfolding s1_def by (rule acct_set_pkt [OF assms(1)]) (simp add: pl(2))
  have e1: "tx_effect c M s s1" unfolding s1_def by (rule tx_effect_set_pkt [OF assms(1)])
  obtain r s2 where cl: "csp_buffer_clone (Some p) s1 = (r, s2)" by (rule prod.exhaust)
  note k = acct_clone [OF a1 held_allocated(1) [OF a1] cl, simplified]
  have a2: "acct (case r of None \<Rightarrow> add_mset p M | Some b \<Rightarrow> add_mset b (add_mset p M)) s2" by (rule k(1))
  have e2: "tx_effect c M s1 s2"
    by (rule tx_effect_more0 [OF k(2)]) (rule k(3), rule fixed_allocated [OF a1], simp)
  have len: "c < length (conns s2)" using more_fields [OF k(2)] assms(2) by (simp add: s1_def set_pkt_def)
  have t': "t = send_on_conn c r s2" by (simp add: t rdp_retransmit_def Let_def s1_def [symmetric] cl)
  note sp = send_on_conn_spec [OF a2 len t']
  have "tx_effect c M s2 t" using sp(2) by (auto simp: tx_effect_def)
  then show "acct (add_mset p M) t" "tx_effect c M s t"
    using sp(1) tx_effect_trans [OF tx_effect_trans [OF e1 e2]] by simp_all
qed

lemma tx_timeout_loop_spec:
  assumes "acct M s" "c < length (conns s)"
  shows "acct M (tx_timeout_loop n c s) \<and> tx_effect c M s (tx_timeout_loop n c s)"
  using assms
proof (induction n arbitrary: s)
  case (Suc n)
  obtain r s1 where get: "csp_rdp_queue_tx_get c s = (r, s1)" by (rule prod.exhaust)
  obtain q where q: "s1 = s\<lparr>rdp_tx := q\<rparr>" using tx_get_acct(4) [OF Suc.prems(1) get] by blast
  have a1: "acct (case r of None \<Rightarrow> M | Some p \<Rightarrow> add_mset p M) s1" by (rule tx_get_acct(1) [OF Suc.prems(1) get])
  have e1: "tx_effect c M s s1" by (rule tx_effect_more [where q = q]) (simp_all add: q)
  have len1: "c < length (conns s1)" using Suc.prems(2) by (simp add: q)
  show ?case
  proof (cases r)
    case None
    then show ?thesis using get a1 e1 by simp
  next
    case (Some p)
    have a: "acct (add_mset p M) s1" using a1 Some by simp
    show ?thesis
    proof (cases "csp_rdp_seq_before (hdr_seq_be (pkt s1 p)) (snd_una (rdp (conn s1 c)))")
      case True
      note f = acct_free [OF a]
      have e2: "tx_effect c M s1 (csp_buffer_free (Some p) s1)" by (rule tx_effect_more0 [OF f(2)]) (rule f(3))
      have "c < length (conns (csp_buffer_free (Some p) s1))" using more_fields [OF f(2)] len1 by simp
      from Suc.IH [OF f(1) this] show ?thesis
        using get Some True tx_effect_trans [OF tx_effect_trans [OF e1 e2]] by simp
    next
      case False
      define s2 where "s2 = (if csp_rdp_time_after (now s1) (timestamp_tx (pkt s1 p) + packet_timeout (rdp (conn s1 c)))
        then rdp_retransmit c p s1 else s1)"
      have s2: "acct (add_mset p M) s2" "tx_effect c M s1 s2"
        using retransmit_spec [OF a len1 refl] a by (simp_all add: s2_def)
      define s3 where "s3 = csp_rdp_queue_tx_add c p s2"
      have a3: "acct M s3" unfolding s3_def by (rule tx_add_acct [OF s2(1)])
      obtain q' where "csp_pool.more s3 = csp_pool.more (s2\<lparr>rdp_tx := q'\<rparr>)"
        using tx_add_effect(1) [OF s2(1)] unfolding s3_def by blast
      then have e3: "tx_effect c M s2 s3"
        by (rule tx_effect_more) (use tx_add_effect(2) [OF s2(1)] fixed_not_held [OF s2(1)] in \<open>simp add: s3_def\<close>)
      have e: "tx_effect c M s s3" by (rule tx_effect_trans [OF e1 tx_effect_trans [OF s2(2) e3]])
      have "c < length (conns s3)" using e Suc.prems(2) by (simp add: tx_effect_def rdp_frame_def)
      from Suc.IH [OF a3 this] show ?thesis
        using get Some False tx_effect_trans [OF e] by (simp add: s2_def [symmetric] s3_def [symmetric])
    qed
  qed
qed simp

lemma check_timeouts_spec:
  assumes "acct M s" "rx_sized s" "c < length (conns s)" and t: "t = csp_rdp_check_timeouts c s"
  shows "acct M t \<and> rx_sized t \<and> rdp_frame c s t \<and> sockets t = sockets s \<and>
    rdp_step Ev_timeout (rdp_st (rdp (conn s c))) (rdp_st (rdp (conn t c))) \<and> (\<forall>h. h \<in># M \<longrightarrow> pkt t h = pkt s h)"
proof -
  consider (close) b where "t = snd (csp_conn_close (Some c) b s)" | (stay) "t = s"
    | (run) "t = rdp_service c s"
    using t [unfolded csp_rdp_check_timeouts_def] by (auto split: if_splits)
  then show ?thesis
  proof cases
    case close
    have "csp_conn_close (Some c) b s = (fst (csp_conn_close (Some c) b s), t)" by (simp add: close)
    from conn_close_spec [OF assms(1-3) this] conn_close_state [OF assms(1-3) close]
    show ?thesis by (auto intro: step_stay step_closing step_closed)
  next
    case run
    define s1 where "s1 = tx_timeout_loop (csp_rdp_queue_tx_size s) c s"
    define s2 where "s2 = (if delayed_acks (rdp (conn s1 c)) \<noteq> 0 then snd (csp_rdp_check_ack c s1) else s1)"
    define s3 where "s3 = (if csp_rdp_is_conn_ready_for_tx c s2 then sem_post c s2 else s2)"
    define s4 where "s4 = (if rdp_st (rdp (conn s1 c)) = RDP_OPEN then s3 else s1)"
    have t4: "t = csp_rdp_rx_queue_flush c s4" unfolding run rdp_service_def s1_def s2_def s3_def s4_def Let_def by simp
    have a1: "acct M s1" "tx_effect c M s s1" using tx_timeout_loop_spec [OF assms(1,3)] by (simp_all add: s1_def)
    have sz1: "rx_sized s1" using rx_sized_fixed [OF assms(2), of s1 M] a1(2) by (simp add: tx_effect_def)
    have f1: "rdp_frame c s s1" "sockets s1 = sockets s" "rdp_st (rdp (conn s1 c)) = rdp_st (rdp (conn s c))"
      "\<And>h. h \<in># M \<Longrightarrow> pkt s1 h = pkt s h" "fixed_pkts M s1 = fixed_pkts M s"
      using a1(2) by (auto simp: tx_effect_def fixed_pkts_def)
    have len1: "c < length (conns s1)" using f1(1) assms(3) by (simp add: rdp_frame_def)
    note ca = check_ack_spec [OF a1(1) sz1 refl, where c = c]
    note ce = same_conn_cmp [OF ca(3) len1] cmp_effect_conn [OF ca(3) len1]
    have s2: "acct M s2" "rx_sized s2" "rdp_frame c s1 s2" "sockets s2 = sockets s1" "same_conn c s1 s2" "c < length (conns s2)"
      "\<And>h. h \<in># M \<Longrightarrow> pkt s2 h = pkt s1 h"
      using a1(1) sz1 ca ce len1 by (auto simp: s2_def same_conn_def fixed_pkts_def)
    have s4: "acct M s4" "rx_sized s4" "rdp_frame c s s4" "sockets s4 = sockets s" "c < length (conns s4)"
      "rdp_st (rdp (conn s4 c)) = rdp_st (rdp (conn s c))" "\<And>h. h \<in># M \<Longrightarrow> pkt s4 h = pkt s h"
      using s2 a1(1) sz1 f1 len1 rdp_frame_trans [OF f1(1) s2(3)]
        rdp_frame_trans [OF rdp_frame_trans [OF f1(1) s2(3)] rdp_frame_fields(3)]
      by (auto simp: s4_def s3_def same_conn_def conn_upd)
    note fl = rx_flush_front_spec [OF s4(1,2,5), of "Suc (csp_rdp_queue_rx_size s4)",
        folded csp_rdp_rx_queue_flush_def t4]
    then obtain ps where ps: "flushed c ps s4 t" by blast
    have st: "rdp_st (rdp (conn t c)) = rdp_st (rdp (conn s4 c))" "rdp_frame c s4 t" "sockets t = sockets s4"
      using ps by (auto simp: flushed_def)
    have "pkt t h = pkt s4 h" if "h \<in># M" for h
    proof -
      have "h \<notin># mset (queue_list (rdp_rx s4))"
      proof
        assume "h \<in># mset (queue_list (rdp_rx s4))"
        then have "2 \<le> count (owned s4 + M) h" using that
          unfolding count_greater_zero_iff [symmetric] by (simp only: owned_def count_union)
        moreover have "count (owned s4 + M) h \<le> 1" using s4(1) by (simp add: acct_def count_mset_set')
        ultimately show False by simp
      qed
      moreover have eq: "mset (queue_list (rdp_rx s4)) = mset ps + mset (queue_list (rdp_rx t))"
        using ps by (simp add: flushed_def)
      ultimately have "h \<notin> set ps" unfolding eq by simp
      then show ?thesis using ps by (simp add: flushed_def)
    qed
    then show ?thesis using fl s4 st rdp_frame_trans [OF s4(3) st(2)] step_stay by simp
  qed (use assms in \<open>simp add: step_stay\<close>)
qed

section \<open>Sending\<close>

lemma ucast_una_window: "(ucast (ucast (a :: u16) + w - 1 :: u32) :: u16) = a + ucast w - 1"
proof -
  have mm: "(k mod 4294967296) mod 65536 = k mod (65536::int)" for k by (rule mod_mod_cancel) simp
  have "uint (ucast (ucast a + w - 1 :: u32) :: u16) = (uint a + uint w - 1) mod 65536"
    by (simp add: unsigned_ucast_eq uint_word_ariths take_bit_eq_mod mm mod_simps uint_word_arith_bintrs)
  moreover have "uint (a + ucast w - 1) = (uint a + uint w - 1) mod 65536"
    by (simp add: unsigned_ucast_eq uint_word_ariths take_bit_eq_mod mod_simps)
  ultimately show ?thesis by (simp add: word_uint_eq_iff)
qed

text \<open>There is room for a packet exactly if fewer packets than the window are unacknowledged.\<close>

lemma ready_iff_window:
  assumes "0 < unat (window_size r)" "unat (window_size r) \<le> 2 ^ 15" "unat (snd_nxt r - snd_una r) \<le> unat (window_size r)"
  shows "csp_rdp_seq_after (snd_nxt r) (ucast (ucast (snd_una r) + window_size r - 1)) \<longleftrightarrow>
    unat (snd_nxt r - snd_una r) = unat (window_size r)"
proof -
  define w d where "w = unat (window_size r)" and "d = unat (snd_nxt r - snd_una r)"
  have wd: "0 < w" "w \<le> 2 ^ 15" "d \<le> w" using assms by (simp_all add: w_def d_def)
  have uw: "ucast (window_size r) = (of_nat w :: u16)" by (simp add: w_def)
  have nxt: "snd_nxt r = snd_una r + of_nat d" by (simp add: d_def)
  have diff: "snd_una r + of_nat w - 1 - (snd_una r + of_nat d) = of_nat w - 1 - (of_nat d :: u16)" by simp
  have "csp_rdp_seq_after (snd_nxt r) (ucast (ucast (snd_una r) + window_size r - 1)) \<longleftrightarrow>
      2 ^ 15 \<le> unat (of_nat w - 1 - of_nat d :: u16)"
    unfolding csp_rdp_seq_after_def csp_rdp_seq_before_def ucast_una_window uw nxt diff sint_neg_iff by simp
  also have "\<dots> \<longleftrightarrow> d = w"
  proof (cases "d = w")
    case False
    then have "of_nat w - 1 - of_nat d = (of_nat (w - 1 - d) :: u16)"
      using wd by (simp add: of_nat_diff)
    moreover have "unat (of_nat (w - 1 - d) :: u16) < 2 ^ 15"
      using wd by (simp add: unat_of_nat take_bit_eq_mod)
    ultimately show ?thesis using False by simp
  next
    case True
    then have "of_nat w - 1 - of_nat d = (- 1 :: u16)" by simp
    moreover have "unat (- 1 :: u16) = 65535" by (simp add: unat_bintrunc_neg [of "num.One", simplified] mask_eq_exp_minus_1)
    ultimately show ?thesis using True by simp
  qed
  finally show ?thesis by (simp add: w_def d_def)
qed

lemma hdr_take_data:
  assumes "packet_wf p" "5 \<le> unat (plength p)"
  shows "take (unat (plength p) - 5) (pdata (hdr_to_host p)) = take (unat (plength p) - 5) (pdata p)"
    "take (unat (plength p) - 5) (pdata (hdr_write fl seq ack p)) = take (unat (plength p) - 5) (pdata p)"
proof -
  note fit = header_ref_range(1) [OF assms(1)] header_ref_range(2) [of p]
  have "mread (data_at 0) (unat (plength p) - 5) (pmem (hdr_to_host p)) = mread (data_at 0) (unat (plength p) - 5) (pmem p)"
    "mread (data_at 0) (unat (plength p) - 5) (pmem (hdr_write fl seq ack p)) = mread (data_at 0) (unat (plength p) - 5) (pmem p)"
    using fit assms(2) by (simp_all add: hdr_to_host_def hdr_write_def mread_mwrite_disjoint data_at_def)
  then show "take (unat (plength p) - 5) (pdata (hdr_to_host p)) = take (unat (plength p) - 5) (pdata p)"
    "take (unat (plength p) - 5) (pdata (hdr_write fl seq ack p)) = take (unat (plength p) - 5) (pdata p)"
    using assms(1) by (simp_all add: pdata_def mread_def)
qed

lemma send_wait_Nil:
  "send_wait_loop [] c s =
     (if rdp_st (rdp (conn s c)) = RDP_OPEN \<and> \<not> csp_rdp_is_conn_ready_for_tx c s
      then (False, upd_rdp c (\<lambda>r. r\<lparr>tx_wait := False\<rparr>) s) else (True, s))"
  by (subst send_wait_loop.simps) simp

text \<open>The last part of \<open>csp_rdp_send\<close>, once there is room in the window and a header.\<close>

lemma send_copy_queued:
  assumes "acct (add_mset p M) s" "c < length (conns s)" "csp_buffer_clone (Some p) s = (Some b, s2)"
  defines "t \<equiv> upd_rdp c (\<lambda>r. r\<lparr>snd_nxt := snd_nxt r + 1\<rparr>) (csp_rdp_queue_tx_add c b
      (set_pkt b ((pkt s2 b)\<lparr>timestamp_tx := now s2, rdp_quarantine := 0\<rparr>) s2))"
  shows "acct (add_mset p M) t" "pkt t p = pkt s p"
    "conn t c = (conn s c)\<lparr>rdp := (rdp (conn s c))\<lparr>snd_nxt := snd_nxt (rdp (conn s c)) + 1\<rparr>\<rparr>"
    "0 < csp_queue_free (rdp_tx s) \<Longrightarrow> queue_list (rdp_tx t) = queue_list (rdp_tx s) @ [b] \<and>
       pconn (pkt t b) = Some c \<and> pdata (pkt t b) = pdata (pkt s p)"
proof -
  note cl = acct_clone [OF assms(1) held_allocated(1) [OF assms(1)] assms(3), simplified]
  define s3 where "s3 = set_pkt b ((pkt s2 b)\<lparr>timestamp_tx := now s2, rdp_quarantine := 0\<rparr>) s2"
  have a2: "acct (add_mset b (add_mset p M)) s2" using cl(1) by simp
  have bl: "b < length (bufs s2)" "packet_wf (pkt s2 b)" using held_allocated [OF a2, of b] by simp_all
  have a3: "acct (add_mset b (add_mset p M)) s3" unfolding s3_def by (rule acct_set_pkt [OF a2]) (simp add: bl(2))
  have m3: "csp_pool.more s3 = csp_pool.more s" using cl(2) more_set_pkt unfolding s3_def by metis
  note f3 = more_fields [OF m3]
  define s4 where "s4 = csp_rdp_queue_tx_add c b s3"
  have t: "t = upd_rdp c (\<lambda>r. r\<lparr>snd_nxt := snd_nxt r + 1\<rparr>) s4" by (simp add: t_def s3_def s4_def)
  have "acct (add_mset p M) s4" unfolding s4_def by (rule tx_add_acct [OF a3])
  then show "acct (add_mset p M) t" by (simp add: t)
  have ne: "p \<noteq> b" using cl(4) held_allocated(1) [OF assms(1), of p] by auto
  have "pkt s4 p = pkt s3 p" unfolding s4_def by (rule tx_add_effect(2) [OF a3 ne])
  then show "pkt t p = pkt s p"
    using cl(3) [of p] held_allocated(1) [OF assms(1), of p] ne by (simp add: t s3_def)
  obtain q where q: "csp_pool.more s4 = csp_pool.more (s3\<lparr>rdp_tx := q\<rparr>)"
    using tx_add_effect(1) [OF a3] unfolding s4_def by blast
  have cs: "conns s4 = conns s" using more_fields_tx(2) [OF q] f3 by simp
  then show "conn t c = (conn s c)\<lparr>rdp := (rdp (conn s c))\<lparr>snd_nxt := snd_nxt (rdp (conn s c)) + 1\<rparr>\<rparr>"
    using assms(2) by (simp add: t conn_upd) (simp add: conn_def)
  assume room: "0 < csp_queue_free (rdp_tx s)"
  let ?s = "set_pkt b ((pkt s3 b)\<lparr>pconn := Some c\<rparr>) s3"
  have "rdp_tx ?s = rdp_tx s" using f3 by (simp add: set_pkt_def)
  then obtain q where q: "s4 = ?s\<lparr>rdp_tx := q\<rparr>" "queue_list q = queue_list (rdp_tx s) @ [b]"
    using tx_queue.requeue_room [of ?s b] acct_queue_inv(2) [OF assms(1)] room
    by (auto simp: s4_def csp_rdp_queue_tx_add_def set_rdp_tx_def)
  have "b < length (bufs s3)" using bl(1) by (simp add: s3_def set_pkt_def)
  then have "pkt t b = (pkt s2 b)\<lparr>timestamp_tx := now s2, rdp_quarantine := 0, pconn := Some c\<rparr>"
    using bl(1) by (simp add: t q(1) s3_def)
  then show "queue_list (rdp_tx t) = queue_list (rdp_tx s) @ [b] \<and> pconn (pkt t b) = Some c \<and> pdata (pkt t b) = pdata (pkt s p)"
    using q cl(4) by (simp add: t) (simp add: pdata_def)
qed

section \<open>Properties\<close>

text \<open>C15: the buffers in \<open>csp_rdp_new_packet\<close>. In every state and for every received
  packet, however malformed, the packet is released or in exactly one queue afterwards and no other
  buffer is lost, with one exception: when exactly one buffer is free, a SYN/ACK may lose it.\<close>

theorem csp_rdp_new_packet_conserves_buffers:
  assumes "acct (add_mset p M) s" "rx_sized s" "c < length (conns s)" "dest_ok c s"
    and "csp_rdp_new_packet c p s = (b, t)"
  shows "rx_sized t \<and> rdp_frame c s t \<and>
    (acct M t \<or> (length (free_list s) = 1 \<and> (\<exists>h. acct (add_mset h M) t)))"
proof -
  obtain N where N: "lost N s" "acct (N + M) t" using new_packet_spec [OF assms] by blast
  then have "acct M t \<or> (length (free_list s) = 1 \<and> (\<exists>h. acct (add_mset h M) t))"
    unfolding lost_def using size_1_singleton_mset [of N] by (auto; blast)
  then show ?thesis using new_packet_spec [OF assms] by blast
qed

lemma rdp_data_ex_dest: "dest_ok 0 rdp_data_ex"
  by (simp add: dest_ok_def conn_ex_def)

lemma rdp_data_ex_free: "length (free_list rdp_data_ex) = 2"
  using node_ex_free by (simp add: rdp_data_ex_def rdp_node_ex_def set_pkt_def)

theorem csp_rdp_new_packet_conserves_buffers_witness:
  "acct {#} (snd (csp_rdp_new_packet 0 0 rdp_data_ex))"
  using csp_rdp_new_packet_conserves_buffers [OF rdp_data_ex_acct _ _ rdp_data_ex_dest prod.collapse [symmetric]]
  by (simp add: rdp_data_ex_free)



text \<open>C17: reliable, ordered delivery. A data or acknowledgment packet in state OPEN keeps the
  connection open and all buffers. Exactly if its acknowledgment number is valid, it carries
  data, it is the next in sequence and the receive queue of the connection has room, it is
  delivered with its payload complete, followed by the waiting packets with the next sequence numbers,
  in order, without gap or duplicate, until none that could follow is waiting;
  otherwise nothing is delivered.\<close>

theorem csp_rdp_delivers_in_order:
  assumes "acct (add_mset p M) s" "rx_sized s" "c < length (conns s)" "rdp_st (rdp (conn s c)) = RDP_OPEN"
    and "hdr_flags (pkt s p) AND RDP_SYN = 0" "hdr_flags (pkt s p) AND RDP_RST = 0" "hdr_flags (pkt s p) AND RDP_ACK \<noteq> 0"
    and "csp_rdp_new_packet c p s = (b, t)"
  shows "acct M t \<and> rx_sized t \<and> rdp_st (rdp (conn t c)) = RDP_OPEN \<and>
    (\<exists>ps. delivered c ps (set_pkt p (hdr_to_host (pkt s p)) s) t \<and>
       (if hdr_flags (pkt s p) AND RDP_EAK = 0 \<and> 5 < unat (plength (pkt s p)) \<and> hdr_seq_be (pkt s p) = next_seq s c \<and>
           ack_valid c (hdr_ack_be (pkt s p)) s \<and> 0 < csp_queue_free (rx_queue (conn s c))
        then ps \<noteq> [] \<and> hd ps = p \<and> rx_settled c t \<and>
          pdata (pkt t p) = take (unat (plength (pkt s p)) - 5) (pdata (pkt s p))
        else ps = []))"
proof -
  let ?p = "pkt s p" and ?fl = "hdr_flags (pkt s p)" and ?seq = "hdr_seq_be (pkt s p)" and ?ack = "hdr_ack_be (pkt s p)"
  define s1 where "s1 = set_pkt p (hdr_to_host ?p) s"
  have pl: "p < length (bufs s)" "packet_wf ?p" using held_allocated [OF assms(1)] by simp_all
  have a1: "acct (add_mset p M) s1" unfolding s1_def by (rule acct_set_pkt [OF assms(1)]) (simp add: pl(2))
  have f1: "conns s1 = conns s" "rdp_rx s1 = rdp_rx s" "\<And>d. conn s1 d = conn s d"
    by (simp_all add: s1_def set_pkt_def conn_def)
  have "p \<notin> set (queue_list (rdp_rx s))" using held_once [OF assms(1)] by (auto simp: owned_def)
  then have "pkt s1 h = pkt s h" if "h \<in> set (queue_list (rdp_rx s))" for h
    using that by (cases "h = p") (auto simp: s1_def)
  then have sz1: "rx_sized s1" using assms(2) f1(2) by (simp add: rx_sized_def)
  have p1: "pkt s1 p = hdr_to_host ?p" using pl(1) by (simp add: s1_def)
  have hs: "hdr_seq_host (pkt s1 p) = ?seq" using p1 header_to_host(1) [OF pl(2)] by simp
  have len: "c < length (conns s1)" "plength (pkt s1 p) = plength ?p" using assms(3) f1(1) p1 pl(2) by simp_all
  have av: "ack_valid c ?ack s1 = ack_valid c ?ack s" by (simp add: ack_valid_def f1(3))
  have free: "acct M (csp_buffer_free (Some p) u)" "rx_sized (csp_buffer_free (Some p) u)"
    "conn (csp_buffer_free (Some p) u) c = conn u c" "\<And>h. pkt (csp_buffer_free (Some p) u) h = pkt u h"
    if "acct (add_mset p M) u" "rx_sized u" for u
    using acct_free [OF that(1)] more_fields [OF acct_free(2) [OF that(1)]] that(2) by (simp_all add: rx_sized_def)
  obtain out u where sw: "rdp_switch c p ?fl ?seq ?ack s1 = (out, u)" by (rule prod.exhaust)
  have io: "rdp_in_open c p ?fl ?seq ?ack s1 = (out, u)" using sw assms(4,6) by (simp add: rdp_switch_def f1(3))
  have res: "(b, t) = (case out of Discard_close by' \<Rightarrow> (False, csp_buffer_free (Some p) (rdp_discard_close c by' u))
      | Discard_open b \<Rightarrow> (b, csp_buffer_free (Some p) u) | Accepted_open \<Rightarrow> (False, u))"
    using assms(8) sw by (simp add: csp_rdp_new_packet_def s1_def [symmetric] split: rdp_outcome.splits)
  show ?thesis
  proof (cases "csp_rdp_seq_between ?seq (next_seq s c) (ucast (ucast (rcv_cur (rdp (conn s c))) + window_size (rdp (conn s c)) * 2)) \<and>
      ack_valid c ?ack s")
    case False
    then have o: "out = Discard_open False" "u = s1"
      using io assms(4,5,7) av by (auto simp: rdp_in_open_def f1(3) Let_def split: if_splits)
    have t: "t = csp_buffer_free (Some p) s1" using res o by simp
    have "?seq \<noteq> next_seq s c \<or> \<not> ack_valid c ?ack s" using False by (auto simp: csp_rdp_seq_between_def)
    then show ?thesis using free [OF a1 sz1] assms(4) by (auto simp: t s1_def [symmetric] f1(3))
  next
    case True
    then have od: "rdp_open_data c p ?fl ?seq ?ack s1 = (out, u)"
      using io assms(4,5,7) av by (auto simp: rdp_in_open_def f1(3) Let_def)
    note sp = open_data_spec [OF a1 sz1 len(1) hs od]
    have ac: "acceptable c p ?fl ?seq s1 \<longleftrightarrow> ?fl AND RDP_EAK = 0 \<and> 5 < unat (plength ?p) \<and> ?seq = next_seq s c \<and>
        0 < csp_queue_free (rx_queue (conn s c))" by (simp add: acceptable_def f1(3) len(2))
    obtain ps where ps: "delivered c ps s1 u" "if acceptable c p ?fl ?seq s1
       then out = Accepted_open \<and> rx_settled c u \<and> ps \<noteq> [] \<and> hd ps = p else ps = []" using sp by (auto split: if_splits)
    have st: "rdp_st (rdp (conn u c)) = RDP_OPEN" using sp assms(4) by (simp add: same_conn_def f1(3))
    have t: "acct M t" "rx_sized t" "conn t c = conn u c" "\<And>h. pkt t h = pkt u h" "out = Accepted_open \<Longrightarrow> t = u"
      using sp res free [of u] by (cases out; simp)+
    have "delivered c ps s1 t" using ps(1) t(3,4) by (simp add: delivered_def)
    moreover have "pdata (pkt t p) = take (unat (plength ?p) - 5) (pdata ?p)" if "acceptable c p ?fl ?seq s1"
    proof -
      have "ps ! 0 = p" "0 < length ps" using ps(2) that by (simp_all add: hd_conv_nth [symmetric])
      then have "pdata (pkt t p) = take (unat (plength ?p) - 5) (pdata (hdr_to_host ?p))"
        using ps(1) t(4) p1 len(2) unfolding delivered_def by force
      then show ?thesis using hdr_take_data(1) [OF pl(2)] that ac by simp
    qed
    ultimately show ?thesis
      using t st ps(2) True ac by (intro conjI exI [of _ ps]) (auto simp: s1_def [symmetric] split: if_splits)
  qed
qed

theorem csp_rdp_delivers_in_order_witness:
  "\<exists>ps. queue_list (rx_queue (conn (snd (csp_rdp_new_packet 0 0 rdp_data_ex)) 0)) = map Some ps \<and> ps \<noteq> [] \<and> hd ps = 0"
proof -
  have "ack_valid 0 5 rdp_data_ex"
    by (simp add: ack_valid_def conn_ex_def rdp_conn_ex_def csp_rdp_seq_between_def)
  moreover have "csp_queue_free (rx_queue conn_ex) = 4" "queue_list (rx_queue conn_ex) = []"
    by (simp_all add: conn_ex_def csp_queue_free_def pthread_queue_free_def queue_list_def)
  moreover have "conn (set_pkt 0 x rdp_data_ex) 0 = conn_ex" for x
    by (simp add: conn_def set_pkt_def)
  ultimately show ?thesis
    using csp_rdp_delivers_in_order [OF rdp_data_ex_acct _ _ _ _ _ _ prod.collapse [symmetric], of 0]
    by (simp add: data_packet_ex_facts delivered_def conn_ex_def rdp_conn_ex_def RDP_ACK_def RDP_SYN_def RDP_RST_def RDP_EAK_def)
      blast
qed




end
