(* ===== verification/Csp_Port.thy ===== *)
theory Csp_Port
  imports Csp_Send
begin

text \<open>
  Binding of ports to sockets and callbacks, \<open>src/csp_port.c\<close>. The slot behind the
  bindable ports is the one for all ports not bound otherwise.
\<close>

section \<open>Operations\<close>

definition CSP_ANY :: nat where "CSP_ANY = 255"

definition csp_port_get_callback :: "csp_state \<Rightarrow> nat \<Rightarrow> nat option" where
  "csp_port_get_callback s port =
     (if port > CSP_PORT_MAX_BIND then None
      else case ports s ! port of
        PORT_OPEN_CB f \<Rightarrow> Some f
      | PORT_OPEN _ \<Rightarrow> None
      | PORT_CLOSED \<Rightarrow>
          (case ports s ! (CSP_PORT_MAX_BIND + 1) of PORT_OPEN_CB f \<Rightarrow> Some f | _ \<Rightarrow> None))"

definition csp_port_get_socket :: "csp_state \<Rightarrow> nat \<Rightarrow> nat option" where
  "csp_port_get_socket s port =
     (if port > CSP_PORT_MAX_BIND then None
      else case ports s ! port of
        PORT_OPEN k \<Rightarrow> Some k
      | PORT_OPEN_CB _ \<Rightarrow> None
      | PORT_CLOSED \<Rightarrow>
          (case ports s ! (CSP_PORT_MAX_BIND + 1) of PORT_OPEN k \<Rightarrow> Some k | _ \<Rightarrow> None))"

definition csp_listen :: "nat \<Rightarrow> csp_state \<Rightarrow> int \<times> csp_state" where
  "csp_listen k s = (CSP_ERR_NONE, s\<lparr>sockets := (sockets s)[k := (sockets s ! k)
     \<lparr>sock_queue := pthread_queue_create True (Sock_packet 0) CSP_CONN_RXQUEUE_LEN\<rparr>]\<rparr>)"

definition bind_slot :: "nat \<Rightarrow> nat option" where
  "bind_slot port = (if port = CSP_ANY then Some (CSP_PORT_MAX_BIND + 1)
     else if port > CSP_PORT_MAX_BIND then None else Some port)"

definition csp_bind :: "nat option \<Rightarrow> nat \<Rightarrow> csp_state \<Rightarrow> int \<times> csp_state" where
  "csp_bind socket port s =
     (case socket of None \<Rightarrow> (CSP_ERR_INVAL, s)
      | Some k \<Rightarrow>
          (case bind_slot port of
             None \<Rightarrow> (CSP_ERR_INVAL, set_errno CSP_DBG_ERR_INVALID_BIND_PORT s)
           | Some slot \<Rightarrow>
               if ports s ! slot \<noteq> PORT_CLOSED
               then (CSP_ERR_USED, set_errno CSP_DBG_ERR_PORT_ALREADY_IN_USE s)
               else (CSP_ERR_NONE, s\<lparr>ports := (ports s)[slot := PORT_OPEN k]\<rparr>)))"

text \<open>\<open>csp_bind_callback\<close> returns the debug error numbers, which are positive.\<close>

definition csp_bind_callback :: "nat option \<Rightarrow> nat \<Rightarrow> csp_state \<Rightarrow> int \<times> csp_state" where
  "csp_bind_callback callback port s =
     (case callback of
        None \<Rightarrow> (uint CSP_DBG_ERR_INVALID_POINTER, set_errno CSP_DBG_ERR_INVALID_POINTER s)
      | Some f \<Rightarrow>
          (case bind_slot port of
             None \<Rightarrow> (uint CSP_DBG_ERR_INVALID_BIND_PORT, set_errno CSP_DBG_ERR_INVALID_BIND_PORT s)
           | Some slot \<Rightarrow>
               if ports s ! slot \<noteq> PORT_CLOSED
               then (uint CSP_DBG_ERR_PORT_ALREADY_IN_USE, set_errno CSP_DBG_ERR_PORT_ALREADY_IN_USE s)
               else (0, s\<lparr>ports := (ports s)[slot := PORT_OPEN_CB f]\<rparr>)))"

text \<open>The first slot bound to the socket is closed.\<close>

fun close_slot :: "nat \<Rightarrow> csp_port list \<Rightarrow> csp_port list" where
  "close_slot k [] = []"
| "close_slot k (p # ps) = (if p = PORT_OPEN k then PORT_CLOSED # ps else p # close_slot k ps)"

text \<open>The loop that empties the receive queue of the socket, at most its length. Every element is
  released as a packet; the address check of \<open>csp_buffer_free\<close> rejects a connection.\<close>

fun sock_flush :: "nat \<Rightarrow> nat \<Rightarrow> csp_state \<Rightarrow> csp_state" where
  "sock_flush 0 k s = s"
| "sock_flush (Suc n) k s =
     (case sock_queue (sockets s ! k) of None \<Rightarrow> s
      | Some q \<Rightarrow>
          (case csp_queue_dequeue q of
             (None, _) \<Rightarrow> s
           | (Some item, q) \<Rightarrow>
               let s = s\<lparr>sockets := (sockets s)[k := (sockets s ! k)\<lparr>sock_queue := Some q\<rparr>]\<rparr>;
                   s = (case item of Sock_packet p \<Rightarrow> csp_buffer_free (Some p) s
                        | Sock_conn _ \<Rightarrow> set_errno CSP_DBG_ERR_CORRUPT_BUFFER s)
               in sock_flush n k s))"

definition csp_socket_close :: "nat option \<Rightarrow> csp_state \<Rightarrow> int \<times> csp_state" where
  "csp_socket_close sock s =
     (case sock of None \<Rightarrow> (CSP_ERR_NONE, s)
      | Some k \<Rightarrow>
          let s = s\<lparr>ports := close_slot k (ports s)\<rparr>
          in (CSP_ERR_NONE,
              case sock_queue (sockets s ! k) of None \<Rightarrow> s
              | Some q \<Rightarrow> sock_flush (csp_queue_size q) k s))"

section \<open>Accounting\<close>

lemma length_close_slot [simp]: "length (close_slot k ps) = length ps"
  by (induction ps) auto

lemma sock_flush_spec:
  assumes "acct M s" "k < length (sockets s)" "sock_queue (sockets s ! k) = Some q" "length (queue_list q) \<le> n"
  shows "acct M (sock_flush n k s) \<and> (\<exists>q'. sock_queue (sockets (sock_flush n k s) ! k) = Some q' \<and> queue_list q' = []) \<and>
    ports (sock_flush n k s) = ports s"
  using assms
proof (induction n arbitrary: s q)
  case 0
  then show ?case by auto
next
  case (Suc n)
  obtain r q' where deq: "csp_queue_dequeue q = (r, q')" by (rule prod.exhaust)
  have qi: "queue_inv q" by (rule acct_queue_inv(6) [OF Suc.prems(1-3)])
  from qi deq show ?case
  proof (cases rule: deq_cases)
    case empty
    then show ?thesis using Suc.prems deq by auto
  next
    case (item v)
    define t where "t = s\<lparr>sockets := (sockets s)[k := (sockets s ! k)\<lparr>sock_queue := Some q'\<rparr>]\<rparr>"
    define N where "N = (case v of Sock_packet p \<Rightarrow> add_mset p M | Sock_conn _ \<Rightarrow> M)"
    define u where "u = (case v of Sock_packet p \<Rightarrow> csp_buffer_free (Some p) t
      | Sock_conn _ \<Rightarrow> set_errno CSP_DBG_ERR_CORRUPT_BUFFER t)"
    have "acct N t" unfolding t_def
      by (rule acct_sock_rx [OF Suc.prems(1,2)])
        (use Suc.prems(3) item in \<open>auto simp: sock_owned_def N_def split: sock_item.split\<close>)
    then have u: "acct M u" "sockets u = sockets t" "ports u = ports t"
      using acct_free(1) more_fields(3,15) [OF acct_free(2)]
      by (auto simp: u_def N_def set_errno_def split: sock_item.splits)
    have flush: "sock_flush (Suc n) k s = sock_flush n k u"
      using Suc.prems(3) deq item(1) by (cases v) (simp_all add: t_def u_def Let_def)
    have "k < length (sockets u)" "sock_queue (sockets u ! k) = Some q'"
      using Suc.prems(2) u(2) by (simp_all add: t_def)
    from Suc.IH [OF u(1) this] show ?thesis
      using Suc.prems(4) item(2) u(3) unfolding flush by (simp add: t_def)
  qed
qed

section \<open>Properties\<close>

definition ports_wf :: "csp_state \<Rightarrow> bool" where
  "ports_wf s \<longleftrightarrow> length (ports s) = CSP_PORT_MAX_BIND + 2"

lemma bind_slot_less: "bind_slot port = Some slot \<Longrightarrow> slot < CSP_PORT_MAX_BIND + 2"
  by (auto simp: bind_slot_def split: if_splits)

text \<open>Binding a socket. The call succeeds exactly if the slot of the port (the common one for
  \<open>CSP_ANY\<close>) exists and is closed. Then the port, or for \<open>CSP_ANY\<close> every port not bound
  itself, leads to the socket and to no callback, and every other port to what it
  led to before; from then on no second socket or callback can be bound to that slot. A
  call that fails changes no binding.\<close>

theorem csp_bind_exclusive:
  assumes "ports_wf s" "csp_bind (Some k) port s = (err, t)"
  shows "ports_wf t \<and> (err = CSP_ERR_NONE \<longleftrightarrow> (\<exists>slot. bind_slot port = Some slot \<and> ports s ! slot = PORT_CLOSED)) \<and>
    (if err = CSP_ERR_NONE
     then (\<forall>p \<le> CSP_PORT_MAX_BIND.
         (if p = port \<or> port = CSP_ANY \<and> ports s ! p = PORT_CLOSED
          then csp_port_get_socket t p = Some k \<and> csp_port_get_callback t p = None
          else csp_port_get_socket t p = csp_port_get_socket s p \<and>
            csp_port_get_callback t p = csp_port_get_callback s p)) \<and>
       (\<forall>j. fst (csp_bind (Some j) port t) = CSP_ERR_USED) \<and>
       (\<forall>f. fst (csp_bind_callback (Some f) port t) \<noteq> 0)
     else ports t = ports s)"
proof (cases "bind_slot port")
  case None
  then show ?thesis using assms
    by (auto simp: csp_bind_def ports_wf_def set_errno_def csp_err_defs)
next
  case (Some slot)
  have slot: "slot < length (ports s)" using bind_slot_less [OF Some] assms(1) by (simp add: ports_wf_def)
  show ?thesis
  proof (cases "ports s ! slot = PORT_CLOSED")
    case False
    then show ?thesis using assms Some
      by (auto simp: csp_bind_def ports_wf_def set_errno_def csp_err_defs)
  next
    case True
    then have t: "err = CSP_ERR_NONE" "t = s\<lparr>ports := (ports s)[slot := PORT_OPEN k]\<rparr>"
      using assms(2) Some by (simp_all add: csp_bind_def)
    have used: "fst (csp_bind (Some j) port t) = CSP_ERR_USED" "fst (csp_bind_callback (Some f) port t) \<noteq> 0" for j f
      using Some slot by (simp_all add: csp_bind_def csp_bind_callback_def t CSP_DBG_ERR_PORT_ALREADY_IN_USE_def)
    have look: "if p = port \<or> port = CSP_ANY \<and> ports s ! p = PORT_CLOSED
        then csp_port_get_socket t p = Some k \<and> csp_port_get_callback t p = None
        else csp_port_get_socket t p = csp_port_get_socket s p \<and>
          csp_port_get_callback t p = csp_port_get_callback s p"
      if "p \<le> CSP_PORT_MAX_BIND" for p
    proof (cases "port = CSP_ANY")
      case any: True
      then have "slot = CSP_PORT_MAX_BIND + 1" using Some by (simp add: bind_slot_def)
      then show ?thesis
        using that slot any True by (auto simp: csp_port_get_socket_def csp_port_get_callback_def t nth_update_if
            CSP_ANY_def csp_config_defs split: csp_port.splits)
    next
      case no: False
      then have "slot = port" "port \<le> CSP_PORT_MAX_BIND" using Some by (auto simp: bind_slot_def split: if_splits)
      then show ?thesis
        using that slot no True by (auto simp: csp_port_get_socket_def csp_port_get_callback_def t nth_update_if
            split: csp_port.split)
    qed
    have "ports_wf t" using assms(1) by (simp add: t(2) ports_wf_def)
    then show ?thesis using Some True t(1) look used by simp
  qed
qed

text \<open>Closing a socket releases every packet in its queue, exactly once, leaves the queue
  empty and unbinds it from the first port it is bound to.\<close>

theorem csp_socket_close_releases:
  assumes "acct M s" "k < length (sockets s)"
  defines "t \<equiv> snd (csp_socket_close (Some k) s)"
  shows "acct M t \<and> sock_owned (sockets t ! k) = {#} \<and> ports t = close_slot k (ports s)"
proof (cases "sock_queue (sockets s ! k)")
  case None
  then show ?thesis using assms(1) by (simp add: t_def csp_socket_close_def sock_owned_def)
next
  case (Some q)
  let ?s = "s\<lparr>ports := close_slot k (ports s)\<rparr>"
  have a: "acct M ?s" "k < length (sockets ?s)" "sock_queue (sockets ?s ! k) = Some q"
    using assms Some by simp_all
  have "length (queue_list q) \<le> csp_queue_size q"
    using ring.qlen_eq [OF acct_queue_inv(6) [OF a]] by simp
  from sock_flush_spec [OF a this] show ?thesis
    using Some by (auto simp: t_def csp_socket_close_def sock_owned_def)
qed

end
