(* ===== verification/Csp_Conn.thy ===== *)
theory Csp_Conn
  imports Csp_Rdp_Machine Csp_Port
begin

text \<open>
  The connection pool, \<open>src/csp_conn.c\<close>: initialisation, the timeout scan, the search for the
  connection of a packet, allocation and the active open. \<open>arr_conn\<close> is the list \<open>conns\<close> of the
  state and its length the constant \<open>CSP_CONN_MAX\<close>. Closing and delivery are in the theory
  of the protocol that calls them.
\<close>

section \<open>Operations\<close>

definition check_conn_timeout :: "nat \<Rightarrow> csp_state \<Rightarrow> csp_state" where
  "check_conn_timeout i s =
     (if cstate (conn s i) = CONN_OPEN \<and> flags (cidin (conn s i)) AND CSP_FRDP \<noteq> 0
      then csp_rdp_check_timeouts i s else s)"

definition csp_conn_check_timeouts :: "csp_state \<Rightarrow> csp_state" where
  "csp_conn_check_timeouts s = fold check_conn_timeout [0..<length (conns s)] s"

text \<open>\<open>csp_conn_init\<close> on one connection. The pool is not initialised memory before.\<close>

definition conn_init :: "nat \<Rightarrow> csp_state \<Rightarrow> csp_state" where
  "conn_init i s =
     csp_rdp_init i (upd_conn i (\<lambda>k. k\<lparr>sport_outgoing := of_nat (CSP_PORT_MAX_BIND + 1 + i), cstate := CONN_CLOSED,
       cidin := (cidin k)\<lparr>flags := 0\<rparr>, rx_queue := the (pthread_queue_create True None CSP_CONN_RXQUEUE_LEN)\<rparr>) s)"

definition csp_conn_init :: "csp_state \<Rightarrow> csp_state" where
  "csp_conn_init s = fold conn_init [0..<length (conns s)] s"

definition csp_conn_find_dport :: "csp_state \<Rightarrow> u8 \<Rightarrow> nat option" where
  "csp_conn_find_dport s port =
     find (\<lambda>i. dport (cidin (conn s i)) = port \<and> cstate (conn s i) = CONN_OPEN \<and> ctype (conn s i) = CONN_CLIENT)
       [0..<length (conns s)]"

text \<open>The conditions on one connection in \<open>csp_conn_find_existing\<close>.\<close>

definition conn_matches :: "csp_id \<Rightarrow> csp_conn \<Rightarrow> bool" where
  "conn_matches i k \<longleftrightarrow> cstate k = CONN_OPEN \<and>
     (if ctype k = CONN_CLIENT then dport (cidin k) = dport i
      else dport (cidin k) = dport i \<and> sport (cidin k) = sport i \<and> src (cidin k) = src i)"

definition csp_conn_find_existing :: "csp_state \<Rightarrow> csp_id \<Rightarrow> nat option" where
  "csp_conn_find_existing s i = find (\<lambda>c. conn_matches i (conn s c)) [0..<length (conns s)]"

text \<open>The search for a free connection, round robin behind the one given last.\<close>

fun alloc_loop :: "nat \<Rightarrow> nat \<Rightarrow> csp_state \<Rightarrow> nat option" where
  "alloc_loop 0 i s = None"
| "alloc_loop (Suc n) i s =
     (let i = (i + 1) mod length (conns s)
      in if cstate (conn s i) = CONN_CLOSED then Some i else alloc_loop n i s)"

definition csp_conn_allocate :: "conn_type \<Rightarrow> csp_state \<Rightarrow> nat option \<times> csp_state" where
  "csp_conn_allocate type s =
     (case alloc_loop (length (conns s)) (conn_last_given s) s of
        None \<Rightarrow> (None, conn_out_inc s)
      | Some i \<Rightarrow>
          let s = upd_conn i (\<lambda>k. k\<lparr>cstate := CONN_OPEN\<rparr>) s;
              s = s\<lparr>conn_last_given := i\<rparr>
          in (Some i, upd_conn i (\<lambda>k. k\<lparr>ctimestamp := 0, ctype := type, cidin := (cidin k)\<lparr>flags := 0\<rparr>,
                cidout := (cidout k)\<lparr>flags := 0\<rparr>\<rparr>) s))"

definition csp_conn_new :: "csp_id \<Rightarrow> csp_id \<Rightarrow> conn_type \<Rightarrow> csp_state \<Rightarrow> nat option \<times> csp_state" where
  "csp_conn_new idin idout type s =
     (case csp_conn_allocate type s of
        (None, s) \<Rightarrow> (None, s)
      | (Some c, s) \<Rightarrow>
          let s = upd_conn c (\<lambda>k. k\<lparr>cidin := csp_id_copy (cidin k) idin, cidout := csp_id_copy (cidout k) idout,
                ctimestamp := now s\<rparr>) s
          in (Some c, csp_conn_flush_rx_queue c s))"

text \<open>The flags of the identifiers of a new outgoing connection.\<close>

definition connect_opts :: "csp_state \<Rightarrow> u32 \<Rightarrow> u32" where
  "connect_opts s opts =
     (let opts = opts OR conf_conn_dfl_so s
      in if opts AND CSP_SO_CRC32PROHIB \<noteq> 0 then opts AND NOT CSP_SO_CRC32REQ else opts)"

definition connect_flags :: "u32 \<Rightarrow> u8" where
  "connect_flags opts =
     (let fl = (if opts AND CSP_SO_RDPREQ \<noteq> 0 then CSP_FRDP else 0);
          fl = (if opts AND CSP_SO_HMACREQ \<noteq> 0 then fl OR CSP_FHMAC else fl)
      in if opts AND CSP_SO_CRC32REQ \<noteq> 0 then fl OR CSP_FCRC32 else fl)"

text \<open>The ports not known before the allocation are set behind it; the timeout argument is not used. \<open>w\<close> and
  \<open>w'\<close> are what the other tasks do while the handshake waits.\<close>

definition csp_connect :: "(csp_state \<Rightarrow> csp_state) \<Rightarrow> (csp_state \<Rightarrow> csp_state) \<Rightarrow>
    u8 \<Rightarrow> u16 \<Rightarrow> u8 \<Rightarrow> u32 \<Rightarrow> csp_state \<Rightarrow> nat option \<times> csp_state" where
  "csp_connect w w' prio dest dport' opts s =
     (let opts = connect_opts s opts; fl = connect_flags opts;
          incoming_id = csp_id_clear\<lparr>dst := 0, pri := prio, src := dest, sport := dport', flags := fl\<rparr>;
          outgoing_id = csp_id_clear\<lparr>src := 0, pri := prio, dst := dest, dport := dport', flags := fl\<rparr>
      in case csp_conn_new incoming_id outgoing_id CONN_CLIENT s of
           (None, s) \<Rightarrow> (None, s)
         | (Some c, s) \<Rightarrow>
             let s = upd_conn c (\<lambda>k. k\<lparr>cidout := (cidout k)\<lparr>sport := sport_outgoing k\<rparr>,
                   cidin := (cidin k)\<lparr>dport := sport_outgoing k\<rparr>, dest_socket := None, copts := opts\<rparr>) s
             in if fl AND CSP_FRDP \<noteq> 0
                then (case csp_rdp_connect w w' c s of
                        (e, s) \<Rightarrow> if e \<noteq> CSP_ERR_NONE then (None, snd (csp_close (Some c) s)) else (Some c, s))
                else (Some c, s))"

definition csp_conn_is_active :: "nat \<Rightarrow> csp_state \<Rightarrow> bool" where
  "csp_conn_is_active c s =
     (if flags (cidin (conn s c)) AND CSP_FRDP \<noteq> 0 \<or> flags (cidout (conn s c)) AND CSP_FRDP \<noteq> 0
      then csp_rdp_conn_is_active c s else True)"

section \<open>Which connection a packet belongs to\<close>

text \<open>Outgoing connections have source ports of their own, above the ports a socket can be bound to, and no two
  incoming connections have the same peer and ports; the sockets bound to ports and the one a new connection will be posted to exist. The bound is the number of ports of CSP 2.0 above the
  bindable ones.\<close>

definition out_port :: "nat \<Rightarrow> u8" where
  "out_port c = of_nat (CSP_PORT_MAX_BIND + 1 + c)"

definition conn_ok :: "nat \<Rightarrow> csp_conn \<Rightarrow> bool" where
  "conn_ok c k \<longleftrightarrow> sport_outgoing k = out_port c \<and>
     (cstate k = CONN_OPEN \<longrightarrow>
        (if ctype k = CONN_CLIENT then dport (cidin k) = sport_outgoing k else unat (dport (cidin k)) \<le> CSP_PORT_MAX_BIND))"

definition port_wf :: "csp_state \<Rightarrow> bool" where
  "port_wf s \<longleftrightarrow> length (ports s) = CSP_PORT_MAX_BIND + 2 \<and> (\<forall>k. PORT_OPEN k \<in> set (ports s) \<longrightarrow> k < length (sockets s))"

definition conn_wf :: "csp_state \<Rightarrow> bool" where
  "conn_wf s \<longleftrightarrow> port_wf s \<and> length (conns s) \<le> 47 \<and> (\<forall>c < length (conns s). conn_ok c (conn s c) \<and> (cstate (conn s c) = CONN_OPEN \<longrightarrow> dest_ok c s)) \<and>
     (\<forall>c < length (conns s). \<forall>d < length (conns s). \<forall>i. c \<noteq> d \<longrightarrow> ctype (conn s c) = CONN_SERVER \<longrightarrow>
        ctype (conn s d) = CONN_SERVER \<longrightarrow> \<not> (conn_matches i (conn s c) \<and> conn_matches i (conn s d)))"

text \<open>The part of the state that counts for this.\<close>

definition conn_pool :: "csp_state \<Rightarrow> csp_conn list \<times> nat \<times> csp_port list" where
  "conn_pool s = (conns s, length (sockets s), ports s)"

lemma conn_wf_cong: "conn_pool t = conn_pool s \<Longrightarrow> conn_wf t = conn_wf s"
  by (simp add: conn_wf_def conn_def conn_pool_def dest_ok_def port_wf_def)

lemma find_upt_iff:
  "find P [0..<n] = Some c \<longleftrightarrow> c < n \<and> P c \<and> (\<forall>d < c. \<not> P d)"
  by (auto simp: find_Some_iff)

lemma out_port_inj:
  assumes "c \<le> 47" "d \<le> 47"
  shows "out_port c = out_port d \<longleftrightarrow> c = d" "CSP_PORT_MAX_BIND < unat (out_port c)"
proof -
  have u: "unat (out_port e) = CSP_PORT_MAX_BIND + 1 + e" if "e \<le> 47" for e
    unfolding out_port_def using that by (simp only: unat_of_nat) (simp add: CSP_PORT_MAX_BIND_def)
  show "CSP_PORT_MAX_BIND < unat (out_port c)" unfolding u [OF assms(1)] by simp
  show "out_port c = out_port d \<longleftrightarrow> c = d"
    using u [OF assms(1)] u [OF assms(2)] by (metis add_left_cancel)
qed

lemma conn_matches_unique:
  assumes "conn_wf s" "c < length (conns s)" "d < length (conns s)" "conn_matches i (conn s c)" "conn_matches i (conn s d)"
  shows "c = d"
proof (rule ccontr)
  assume "c \<noteq> d"
  have ok: "conn_ok c (conn s c)" "conn_ok d (conn s d)" and le: "c \<le> 47" "d \<le> 47"
    using assms(1-3) by (auto simp: conn_wf_def)
  have "\<not> (ctype (conn s c) = CONN_SERVER \<and> ctype (conn s d) = CONN_SERVER)"
    using assms \<open>c \<noteq> d\<close> unfolding conn_wf_def by blast
  then have "ctype (conn s c) = CONN_CLIENT \<or> ctype (conn s d) = CONN_CLIENT" using conn_type.exhaust by blast
  moreover have "dport (cidin (conn s c)) = dport i" "dport (cidin (conn s d)) = dport i"
    using assms(4,5) by (auto simp: conn_matches_def split: if_splits)
  ultimately show False
    using ok assms(4,5) \<open>c \<noteq> d\<close> out_port_inj [OF le] out_port_inj(2) [OF le(2,1)]
    by (auto simp: conn_ok_def conn_matches_def split: if_splits)
qed

text \<open>An assignment to a connection that keeps its kind, ports and state.\<close>

lemma conn_wf_upd_conn:
  assumes "conn_wf s" "\<And>k. ctype (f k) = ctype k \<and> cidin (f k) = cidin k \<and> sport_outgoing (f k) = sport_outgoing k \<and>
      (cstate (f k) = CONN_OPEN \<longrightarrow> cstate k = CONN_OPEN) \<and> (dest_socket (f k) = dest_socket k \<or> dest_socket (f k) = None)"
  shows "conn_wf (upd_conn c f s)"
proof (cases "c < length (conns s)")
  case True
  have m: "conn_matches i (f k) \<Longrightarrow> conn_matches i k" for i k using assms(2) [of k] by (auto simp: conn_matches_def split: if_splits)
  have o: "conn_ok e k \<Longrightarrow> conn_ok e (f k)" for e k using assms(2) [of k] by (auto simp: conn_ok_def)
  have cn: "conn (upd_conn c f s) d = (if d = c then f (conn s c) else conn s d)" for d
    using True by (simp add: conn_def upd_conn_def nth_list_update)
  have ty: "ctype (conn (upd_conn c f s) d) = ctype (conn s d)" for d using assms(2) by (simp add: cn)
  have mm: "conn_matches i (conn (upd_conn c f s) d) \<Longrightarrow> conn_matches i (conn s d)" for i d
    using m by (simp add: cn split: if_splits)
  have oo: "conn_ok d (conn s d) \<Longrightarrow> conn_ok d (conn (upd_conn c f s) d)" for d using o by (auto simp: cn)
  have len: "length (conns (upd_conn c f s)) = length (conns s)" by (simp add: upd_conn_def)
  have dd: "(cstate (conn s d) = CONN_OPEN \<longrightarrow> dest_ok d s) \<Longrightarrow> cstate (conn (upd_conn c f s) d) = CONN_OPEN \<longrightarrow> dest_ok d (upd_conn c f s)" for d
    using assms(2) [of "conn s c"] by (auto simp: dest_ok_def cn)
  have "port_wf (upd_conn c f s) = port_wf s" by (simp add: port_wf_def upd_conn_def)
  then show ?thesis using assms(1) unfolding conn_wf_def len ty using mm oo dd by blast
next
  case False
  then have "conn_pool (upd_conn c f s) = conn_pool s" by (simp add: upd_conn_def list_update_beyond conn_pool_def)
  then show ?thesis using conn_wf_cong assms(1) by blast
qed


section \<open>The pool across the operations\<close>

named_theorems pool_simps \<open>operations that keep the connections or the well-formed pool\<close>

lemma conn_pool_fields [pool_simps]:
  "conn_pool (s\<lparr>wire := w\<rparr>) = conn_pool s" "conn_pool (s\<lparr>qfifo := q\<rparr>) = conn_pool s" "conn_pool (s\<lparr>fault := b\<rparr>) = conn_pool s"
  "conn_pool (s\<lparr>promisc_queue := pq\<rparr>) = conn_pool s" "conn_pool (s\<lparr>rdp_tx := r\<rparr>) = conn_pool s" "conn_pool (s\<lparr>rdp_rx := r\<rparr>) = conn_pool s"
  "conn_pool (s\<lparr>rdp_incr := n\<rparr>) = conn_pool s" "conn_pool (s\<lparr>dbg := d\<rparr>) = conn_pool s" "conn_pool (s\<lparr>iflist := l\<rparr>) = conn_pool s"
  "conn_pool (s\<lparr>bufs := bs\<rparr>) = conn_pool s" "conn_pool (s\<lparr>csp_buffers := fq\<rparr>) = conn_pool s"
  "length ks = length (sockets s) \<Longrightarrow> conn_pool (s\<lparr>sockets := ks\<rparr>) = conn_pool s"
  by (simp_all add: conn_pool_def)

lemma pool_pool [pool_simps]:
  "conn_pool (csp_buffer_free h s) = conn_pool s" "conn_pool (snd (csp_buffer_get s)) = conn_pool s"
  "conn_pool (snd (csp_buffer_clone h s)) = conn_pool s" "conn_pool (set_pkt p x s) = conn_pool s" "conn_pool (set_errno e s) = conn_pool s"
  "conn_pool (upd_iface i g s) = conn_pool s" "conn_pool (conn_ovf_inc s) = conn_pool s" "conn_pool (conn_out_inc s) = conn_pool s"
  "conn_pool (csp_promisc_add p s) = conn_pool s"
  by (simp_all add: csp_buffer_free_def csp_buffer_get_def csp_buffer_clone_def set_pkt_def set_errno_def Let_def set_refcount_def
      upd_iface_def conn_ovf_inc_def conn_out_inc_def upd_dbg_def csp_promisc_add_def case_prod_beta pool_simps
      split: option.split if_split)


lemma pool_nexthop [pool_simps]: "conn_pool (snd (nexthop_call i via p me s)) = conn_pool s"
  by (simp add: nexthop_call_def csp_lo_tx_def csp_qfifo_write_def Let_def case_prod_beta pool_simps
      split: nexthop.split option.split if_split)

lemma pool_send_iface [pool_simps]: "conn_pool (csp_send_direct_iface idout p i via me s) = conn_pool s"
proof -
  have tail: "conn_pool (case x of None \<Rightarrow> tx_err p i u
      | Some y \<Rightarrow>
          (case nexthop_call i via p me (set_pkt p y u) of
             (err, v) \<Rightarrow> if err \<noteq> CSP_ERR_NONE then tx_err p i v else upd_iface i (g y) v)) = conn_pool u" for x u g
    by (simp add: tx_err_def case_prod_beta pool_simps split: option.split)
  show ?thesis unfolding csp_send_direct_iface_def Let_def tail by (simp add: pool_simps)
qed

lemma pool_send_copy [pool_simps]: "conn_pool (send_copy idout p i via me s) = conn_pool s"
  by (simp add: send_copy_def case_prod_beta pool_simps split: option.split)

lemma pool_send_loops [pool_simps]:
  "conn_pool (snd (send_subnet_loop n idout idout' p rf ifc found s)) = conn_pool s"
  "conn_pool (snd (send_route_loop n idout p rf route s)) = conn_pool s"
  "conn_pool (snd (send_default_loop n idout p rf ifc s)) = conn_pool s"
proof -
  show "conn_pool (snd (send_subnet_loop n idout idout' p rf ifc found s)) = conn_pool s"
    by (induction n arbitrary: idout' rf ifc found s)
      (simp_all add: Let_def pool_simps split: option.split)
  show "conn_pool (snd (send_route_loop n idout p rf route s)) = conn_pool s"
    by (induction n arbitrary: idout rf route s)
      (simp_all add: Let_def pool_simps split: option.split)
  show "conn_pool (snd (send_default_loop n idout p rf ifc s)) = conn_pool s"
    by (induction n arbitrary: idout rf ifc s)
      (simp_all add: Let_def pool_simps split: option.split)
qed

lemma pool_send_direct [pool_simps]: "conn_pool (snd (csp_send_direct idout p rf s)) = conn_pool s"
  by (simp add: csp_send_direct_def Let_def case_prod_beta pool_simps split: option.split
      del: send_subnet_loop.simps send_route_loop.simps send_default_loop.simps)


lemma pool_queue_loops:
  assumes "\<And>q s. conn_pool (setq q s) = conn_pool s"
  shows "conn_pool (requeue qof setq p s) = conn_pool s" "conn_pool (flush_loop qof setq n x s) = conn_pool s"
    "conn_pool (snd (get_loop qof setq n c s)) = conn_pool s"
proof -
  show rq: "conn_pool (requeue qof setq p s) = conn_pool s" for p s
    by (simp add: requeue_def Let_def case_prod_beta assms pool_simps)
  show "conn_pool (flush_loop qof setq n x s) = conn_pool s"
    by (induction n arbitrary: s) (simp_all add: Let_def case_prod_beta assms rq pool_simps split: option.split)
  show "conn_pool (snd (get_loop qof setq n c s)) = conn_pool s"
    by (induction n arbitrary: s) (simp_all add: Let_def case_prod_beta assms rq pool_simps split: option.split)
qed

lemma pool_rdp_queues [pool_simps]:
  "conn_pool (csp_rdp_queue_tx_add c p s) = conn_pool s" "conn_pool (csp_rdp_queue_rx_add c p s) = conn_pool s"
  "conn_pool (snd (csp_rdp_queue_tx_get c s)) = conn_pool s" "conn_pool (snd (csp_rdp_queue_rx_get c s)) = conn_pool s"
  "conn_pool (csp_rdp_queue_flush x s) = conn_pool s"
proof -
  have "conn_pool (set_rdp_tx q s) = conn_pool s" "conn_pool (set_rdp_rx q s) = conn_pool s" for q s
    by (simp_all add: set_rdp_tx_def set_rdp_rx_def pool_simps)
  note loops = pool_queue_loops [of set_rdp_tx, OF this(1)] pool_queue_loops [of set_rdp_rx, OF this(2)]
  show "conn_pool (csp_rdp_queue_tx_add c p s) = conn_pool s" "conn_pool (csp_rdp_queue_rx_add c p s) = conn_pool s"
    "conn_pool (snd (csp_rdp_queue_tx_get c s)) = conn_pool s" "conn_pool (snd (csp_rdp_queue_rx_get c s)) = conn_pool s"
    "conn_pool (csp_rdp_queue_flush x s) = conn_pool s"
    by (simp_all add: csp_rdp_queue_tx_add_def csp_rdp_queue_rx_add_def csp_rdp_queue_tx_get_def csp_rdp_queue_rx_get_def
        csp_rdp_queue_flush_def Let_def loops pool_simps)
qed


lemma conn_wf_conns [pool_simps]:
  "conn_wf (csp_buffer_free h s) = conn_wf s" "conn_wf (snd (csp_buffer_get s)) = conn_wf s"
  "conn_wf (snd (csp_buffer_clone h s)) = conn_wf s" "conn_wf (set_pkt p x s) = conn_wf s" "conn_wf (set_errno e s) = conn_wf s"
  "conn_wf (upd_iface i g s) = conn_wf s" "conn_wf (conn_ovf_inc s) = conn_wf s" "conn_wf (conn_out_inc s) = conn_wf s"
  "conn_wf (csp_promisc_add p s) = conn_wf s" "conn_wf (snd (csp_send_direct idout y rf s)) = conn_wf s"
  "conn_wf (csp_rdp_queue_tx_add c p s) = conn_wf s" "conn_wf (csp_rdp_queue_rx_add c p s) = conn_wf s"
  "conn_wf (snd (csp_rdp_queue_tx_get c s)) = conn_wf s" "conn_wf (snd (csp_rdp_queue_rx_get c s)) = conn_wf s"
  "conn_wf (csp_rdp_queue_flush z s) = conn_wf s" "conn_wf (s\<lparr>rdp_incr := n\<rparr>) = conn_wf s"
  "length ks = length (sockets s) \<Longrightarrow> conn_wf (s\<lparr>sockets := ks\<rparr>) = conn_wf s" "conn_wf (s\<lparr>fault := b\<rparr>) = conn_wf s"
  by (rule conn_wf_cong; simp add: pool_simps)+

lemma conn_wf_upd [pool_simps]:
  assumes "conn_wf s"
  shows "conn_wf (upd_rdp c f s)" "conn_wf (sem_post c s)" "conn_wf (upd_conn c (rx_queue_update g) s)"
    "conn_wf (upd_conn c (\<lambda>k. k\<lparr>rdp := r k, ctimestamp := y k\<rparr>) s)" "conn_wf (upd_conn c (ctimestamp_update z) s)"
    "conn_wf (upd_conn c (\<lambda>k. k\<lparr>dest_socket := None\<rparr>) s)" "conn_wf (upd_conn c (cidout_update i) s)"
    "conn_wf (upd_conn c (\<lambda>k. k\<lparr>cstate := CONN_CLOSED\<rparr>) s)"
  unfolding sem_post_def upd_rdp_def by (intro conn_wf_upd_conn [OF assms]; simp)+

lemma conn_wf_send_cmp [pool_simps]:
  assumes "conn_wf s"
  shows "conn_wf (snd (csp_rdp_send_cmp c x fl seq ack s))"
proof -
  have tr: "conn_wf (cmp_transmit c p fl ack u)" if "conn_wf u" for p u
    using that by (simp add: cmp_transmit_def Let_def pool_simps)
  have "conn_wf (snd (send_cmp_packet c p fl seq ack u))" if "conn_wf u" for p u
    using that by (simp add: send_cmp_packet_def Let_def case_prod_beta tr pool_simps split: option.split)
  then show ?thesis using assms by (simp add: csp_rdp_send_cmp_def case_prod_beta pool_simps split: option.split)
qed

lemma conn_wf_receive [pool_simps]:
  assumes "conn_wf s"
  shows "conn_wf (snd (csp_conn_enqueue_packet c x s))" "conn_wf (snd (csp_rdp_receive_data c p s))"
    "conn_wf (snd (csp_rdp_check_ack c s))"
  using assms by (simp_all add: csp_conn_enqueue_packet_def csp_rdp_receive_data_def csp_rdp_check_ack_def Let_def
      case_prod_beta pool_simps)

lemma conn_wf_rx_queue [pool_simps]:
  assumes "conn_wf s"
  shows "conn_wf (csp_rdp_rx_queue_flush c s)" "conn_wf (snd (csp_rdp_rx_queue_add c p seq s))"
proof -
  have for_loop: "conn_wf u \<Longrightarrow> conn_wf (snd (rx_flush_for n c u))" for n u
    by (induction n arbitrary: u) (simp_all add: Let_def case_prod_beta pool_simps split: option.split)
  have front: "conn_wf u \<Longrightarrow> conn_wf (rx_flush_front n c u)" for n u
    by (induction n arbitrary: u) (simp_all add: case_prod_beta for_loop)
  show "conn_wf (csp_rdp_rx_queue_flush c s)" unfolding csp_rdp_rx_queue_flush_def by (rule front [OF assms])
  have "conn_wf u \<Longrightarrow> conn_wf (snd (seq_in_rx_loop n c seq u))" for n u
    by (induction n arbitrary: u) (simp_all add: Let_def case_prod_beta pool_simps split: option.split)
  then show "conn_wf (snd (csp_rdp_rx_queue_add c p seq s))"
    using assms by (simp add: csp_rdp_rx_queue_add_def csp_rdp_seq_in_rx_queue_def case_prod_beta pool_simps split: bool.split)
qed

lemma conn_wf_close [pool_simps]:
  assumes "conn_wf s"
  shows "conn_wf (snd (csp_rdp_close_internal c by' rst s))" "conn_wf (csp_conn_flush_rx_queue c s)"
    "conn_wf (snd (csp_conn_close x by' s))" "conn_wf (snd (csp_close x s))"
proof -
  have ci: "conn_wf (snd (csp_rdp_close_internal c by' rst u))" if "conn_wf u" for c by' rst u
    using that by (simp add: csp_rdp_close_internal_def Let_def pool_simps)
  have "conn_wf u \<Longrightarrow> conn_wf (conn_flush_loop n c u)" for n c u
    by (induction n arbitrary: u) (simp_all add: case_prod_beta pool_simps split: option.split)
  then have fl: "conn_wf (csp_conn_flush_rx_queue c u)" if "conn_wf u" for c u
    using that by (simp add: csp_conn_flush_rx_queue_def)
  have cl: "conn_wf (snd (csp_conn_close x by' s))" for by'
    using assms by (simp add: csp_conn_close_def csp_rdp_close_def case_prod_beta Let_def ci fl pool_simps split: option.split)
  show "conn_wf (snd (csp_rdp_close_internal c by' rst s))" "conn_wf (csp_conn_flush_rx_queue c s)"
    "conn_wf (snd (csp_conn_close x by' s))" "conn_wf (snd (csp_close x s))"
    using assms by (simp_all add: ci fl cl csp_close_def)
qed


lemma conn_wf_timeout [pool_simps]:
  assumes "conn_wf s"
  shows "conn_wf (check_conn_timeout c s)"
proof -
  have sc: "conn_wf (send_on_conn c x u)" if "conn_wf u" for c x u
    using that by (simp add: send_on_conn_def case_prod_beta pool_simps)
  have rt: "conn_wf (rdp_retransmit c p u)" if "conn_wf u" for c p u
    using that by (simp add: rdp_retransmit_def Let_def case_prod_beta sc pool_simps)
  have tx: "conn_wf u \<Longrightarrow> conn_wf (tx_timeout_loop n c u)" for n c u
    by (induction n arbitrary: u) (simp_all add: Let_def case_prod_beta rt pool_simps split: option.split)
  have sv: "conn_wf (rdp_service c u)" if "conn_wf u" for c u
    using that by (simp add: rdp_service_def Let_def tx pool_simps)
  show ?thesis using assms by (simp add: check_conn_timeout_def csp_rdp_check_timeouts_def sv pool_simps)
qed

lemma conn_wf_timeouts [pool_simps]: "conn_wf s \<Longrightarrow> conn_wf (csp_conn_check_timeouts s)"
proof -
  have "conn_wf u \<Longrightarrow> conn_wf (fold check_conn_timeout cs u)" for cs u
    by (induction cs arbitrary: u) (simp_all add: conn_wf_timeout)
  then show "conn_wf s \<Longrightarrow> conn_wf (csp_conn_check_timeouts s)" by (simp add: csp_conn_check_timeouts_def)
qed

lemma conn_wf_new_packet [pool_simps]:
  assumes "conn_wf s"
  shows "conn_wf (snd (csp_rdp_new_packet c p s))"
proof -
  have rs: "conn_wf (snd (rdp_reset c fl seq ack u))" if "conn_wf u" for fl seq ack u
    using that by (simp add: rdp_reset_def Let_def pool_simps)
  have cl: "conn_wf (snd (rdp_in_closed c p fl seq u))" if "conn_wf u" for fl seq u
    using that by (simp add: rdp_in_closed_def Let_def pool_simps)
  have ss: "conn_wf (snd (rdp_in_syn_sent c fl seq ack u))" if "conn_wf u" for fl seq ack u
    using that by (simp add: rdp_in_syn_sent_def Let_def pool_simps)
  have od: "conn_wf (snd (rdp_open_data c p fl seq ack u))" if "conn_wf u" for fl seq ack u
    using that by (simp add: rdp_open_data_def Let_def case_prod_beta pool_simps)
  have se: "conn_wf (snd (sock_enqueue k x u)) = conn_wf u" for k x u
    by (simp add: sock_enqueue_def case_prod_beta pool_simps split: option.split)
  have op: "conn_wf (snd (rdp_in_open c p fl seq ack u))" if "conn_wf u" for fl seq ack u
    using that by (simp add: rdp_in_open_def Let_def case_prod_beta od se pool_simps split: option.split)
  have cw: "conn_wf (snd (rdp_in_close_wait c fl ack u))" if "conn_wf u" for fl ack u
    using that by (simp add: rdp_in_close_wait_def Let_def pool_simps)
  have sw: "conn_wf (snd (rdp_switch c p fl seq ack u))" if "conn_wf u" for fl seq ack u
    using that by (simp add: rdp_switch_def rs cl ss op cw split: rdp_state.split)
  have dc: "conn_wf (rdp_discard_close c by' u)" if "conn_wf u" for by' u
    using that by (simp add: rdp_discard_close_def pool_simps)
  show ?thesis
    using assms by (simp add: csp_rdp_new_packet_def Let_def case_prod_beta sw dc pool_simps split: rdp_outcome.split)
qed

lemma conn_wf_rdp_send [pool_simps]:
  assumes "conn_wf s" "\<And>w u. w \<in> set ws \<Longrightarrow> conn_wf u \<Longrightarrow> conn_wf (w u)"
  shows "conn_wf (snd (csp_rdp_send ws c p s))"
proof -
  have sw: "conn_wf (snd (sem_wait w c u))" if "conn_wf u" "conn_wf (w u)" for w u
    using that by (simp add: sem_wait_def Let_def pool_simps)
  have "conn_wf u \<Longrightarrow> (\<And>w u. w \<in> set vs \<Longrightarrow> conn_wf u \<Longrightarrow> conn_wf (w u)) \<Longrightarrow> conn_wf (snd (send_wait_loop vs c u))" for vs u
    by (induction vs arbitrary: u; subst send_wait_loop.simps) (simp_all add: case_prod_beta sw pool_simps)
  then have "conn_wf (snd (send_wait_loop ws c s))" using assms by blast
  then show ?thesis
    by (simp add: csp_rdp_send_def case_prod_beta Let_def pool_simps assms(1) split: bool.split option.split)
qed

lemma conn_wf_rdp_connect [pool_simps]:
  assumes "conn_wf s" "\<And>u. conn_wf u \<Longrightarrow> conn_wf (w u)" "\<And>u. conn_wf u \<Longrightarrow> conn_wf (w' u)"
  shows "conn_wf (snd (csp_rdp_connect w w' c s))"
proof -
  have sw: "conn_wf (snd (sem_wait v c u))" if "conn_wf u" "conn_wf (v u)" for v u
    using that by (simp add: sem_wait_def Let_def pool_simps)
  have sy: "conn_wf (snd (csp_rdp_send_syn c u))" if "conn_wf u" for u
    using that by (simp add: csp_rdp_send_syn_def Let_def case_prod_beta pool_simps split: option.split)
  have "conn_wf (snd (connect_attempt retry v c u))" if "conn_wf u" "\<And>u. conn_wf u \<Longrightarrow> conn_wf (v u)" for retry v u
    using that by (simp add: connect_attempt_def Let_def case_prod_beta sw sy pool_simps)
  then show ?thesis
    using assms by (simp add: csp_rdp_connect_def Let_def case_prod_beta pool_simps split: option.split)
qed


section \<open>Allocation\<close>

definition round_robin :: "csp_state \<Rightarrow> nat \<Rightarrow> nat" where
  "round_robin s k = (conn_last_given s + Suc k) mod length (conns s)"

lemma alloc_loop_find:
  "alloc_loop n i s = find (\<lambda>c. cstate (conn s c) = CONN_CLOSED) (map (\<lambda>k. (i + Suc k) mod length (conns s)) [0..<n])"
proof (induction n arbitrary: i)
  case (Suc n)
  have "map (\<lambda>k. (i + Suc k) mod length (conns s)) [0..<Suc n] =
      Suc i mod length (conns s) # map (\<lambda>k. (Suc i mod length (conns s) + Suc k) mod length (conns s)) [0..<n]"
    by (simp add: upt_conv_Cons map_Suc_upt [symmetric] del: upt_Suc) (metis add_Suc mod_Suc_eq mod_add_left_eq)
  then show ?case using Suc.IH [of "Suc i mod length (conns s)"] by (simp add: Let_def)
qed simp

lemma round_robin_covers:
  assumes "c < length (conns s)"
  shows "\<exists>k < length (conns s). c = round_robin s k"
proof -
  let ?L = "length (conns s)" and ?l = "conn_last_given s mod length (conns s)"
  have "?l < ?L" using assms by (cases ?L) simp_all
  define k where "k = (if ?l < c then c - ?l - 1 else c + ?L - ?l - 1)"
  have "k < ?L" "?l + Suc k = c \<or> ?l + Suc k = c + ?L" using assms \<open>?l < ?L\<close> by (auto simp: k_def)
  then have "(?l + Suc k) mod ?L = c" using assms by auto
  then have "c = round_robin s k" by (simp only: round_robin_def mod_add_left_eq)
  then show ?thesis using \<open>k < ?L\<close> by blast
qed

lemma alloc_cases:
  assumes "0 < length (conns s)"
  obtains (none) "alloc_loop (length (conns s)) (conn_last_given s) s = None" "\<forall>c < length (conns s). cstate (conn s c) = CONN_OPEN"
  | (some) k where "k < length (conns s)" "alloc_loop (length (conns s)) (conn_last_given s) s = Some (round_robin s k)"
      "cstate (conn s (round_robin s k)) = CONN_CLOSED" "\<forall>j < k. cstate (conn s (round_robin s j)) = CONN_OPEN"
      "round_robin s k < length (conns s)"
proof (cases "alloc_loop (length (conns s)) (conn_last_given s) s")
  case None
  then have "cstate (conn s (round_robin s k)) \<noteq> CONN_CLOSED" if "k < length (conns s)" for k
    using that by (auto simp: alloc_loop_find find_None_iff round_robin_def)
  moreover have "st \<noteq> CONN_CLOSED \<Longrightarrow> st = CONN_OPEN" for st by (cases st) simp_all
  ultimately have "cstate (conn s c) = CONN_OPEN" if "c < length (conns s)" for c using round_robin_covers [OF that] by blast
  then show ?thesis using none None by blast
next
  case (Some c)
  then obtain k where k: "k < length (conns s)" "c = round_robin s k" "cstate (conn s c) = CONN_CLOSED"
    "\<forall>j < k. cstate (conn s (round_robin s j)) \<noteq> CONN_CLOSED"
    by (auto simp: alloc_loop_find find_Some_iff round_robin_def)
  moreover have "st \<noteq> CONN_CLOSED \<Longrightarrow> st = CONN_OPEN" for st by (cases st) simp_all
  ultimately have "\<forall>j < k. cstate (conn s (round_robin s j)) = CONN_OPEN" by blast
  then show ?thesis using some k Some assms by (simp add: round_robin_def)
qed

lemma conn_new_spec:
  assumes "acct M s" "0 < length (conns s)" "csp_conn_new idin idout type s = (r, t)"
  shows "acct M t \<and> (\<forall>h. pkt t h = pkt s h) \<and> sockets t = sockets s \<and> rdp_rx t = rdp_rx s \<and>
    (case r of
       None \<Rightarrow> t = conn_out_inc s \<and> (\<forall>c < length (conns s). cstate (conn s c) = CONN_OPEN)
     | Some c \<Rightarrow> c < length (conns s) \<and> rdp_frame c s t \<and>
         (\<exists>k < length (conns s). c = round_robin s k \<and> cstate (conn s c) = CONN_CLOSED \<and>
            (\<forall>j < k. cstate (conn s (round_robin s j)) = CONN_OPEN)) \<and>
         (\<exists>q. conn t c = (conn s c)\<lparr>cstate := CONN_OPEN, ctype := type, cidin := idin, cidout := idout, ctimestamp := now s,
            rx_queue := q\<rparr> \<and> queue_list q = []))"
  using assms(2)
proof (cases rule: alloc_cases)
  case none
  then show ?thesis using assms(1,3)
    by (auto simp: csp_conn_new_def csp_conn_allocate_def conn_out_inc_def upd_dbg_def pkt_def)
next
  case (some k)
  define c where "c = round_robin s k"
  have c: "c < length (conns s)" using some(5) by (simp add: c_def)
  define u where "u = upd_conn c (\<lambda>k. k\<lparr>cstate := CONN_OPEN, ctype := type, cidin := idin, cidout := idout, ctimestamp := now s\<rparr>)
     (s\<lparr>conn_last_given := c\<rparr>)"
  have u: "conns u = (conns s)[c := (conn s c)\<lparr>cstate := CONN_OPEN, ctype := type, cidin := idin, cidout := idout, ctimestamp := now s\<rparr>]"
    by (simp add: u_def upd_conn_def conn_def)
  have rt: "r = Some c" "t = csp_conn_flush_rx_queue c u"
    using assms(3) some(2) c by (auto simp: csp_conn_new_def csp_conn_allocate_def c_def [symmetric] Let_def u_def upd_conn_def conn_def)
  have a: "acct M u" using assms(1) by (simp add: u_def acct_upd_conn)
  have len: "c < length (conns u)" using c u by simp
  note fl = conn_flush_spec [OF a len rt(2)]
  have cu: "conn u c = (conn s c)\<lparr>cstate := CONN_OPEN, ctype := type, cidin := idin, cidout := idout, ctimestamp := now s\<rparr>"
    using c u by (simp add: conn_def)
  have fr: "rdp_frame c s u" by (simp add: u_def rdp_frame_def upd_conn_def conn_def)
  have fu: "pkt u h = pkt s h" "sockets u = sockets s" "rdp_rx u = rdp_rx s" for h
    by (simp_all add: u_def upd_conn_def pkt_def)
  have "\<exists>q. conn t c = (conn s c)\<lparr>cstate := CONN_OPEN, ctype := type, cidin := idin, cidout := idout, ctimestamp := now s,
            rx_queue := q\<rparr> \<and> queue_list q = []" using fl(3) cu by auto
  moreover have "\<exists>k < length (conns s). c = round_robin s k \<and> cstate (conn s c) = CONN_CLOSED \<and>
            (\<forall>j < k. cstate (conn s (round_robin s j)) = CONN_OPEN)" using some(1,3,4) c_def by blast
  ultimately show ?thesis
    using rt(1) fl(1,2,5,6) c rdp_frame_trans [OF fr fl(4)] fu by simp
qed


lemma conn_wf_replace:
  assumes "conn_wf s" "rdp_frame c s t" "conn_ok c (conn t c)" "dest_ok c t"
    and "\<And>i d. d < length (conns s) \<Longrightarrow> d \<noteq> c \<Longrightarrow> ctype (conn t c) = CONN_SERVER \<Longrightarrow> conn_matches i (conn t c) \<Longrightarrow> \<not> conn_matches i (conn s d)"
  shows "conn_wf t"
proof -
  have len: "length (conns t) = length (conns s)" and cn: "d \<noteq> c \<Longrightarrow> conn t d = conn s d"
    and ds: "d \<noteq> c \<Longrightarrow> dest_ok d t = dest_ok d s" for d
    using assms(2) by (simp_all add: rdp_frame_def dest_ok_def)
  have ok: "conn_ok d (conn t d) \<and> (cstate (conn t d) = CONN_OPEN \<longrightarrow> dest_ok d t)" if "d < length (conns s)" for d
    using that assms(1,3,4) cn [of d] ds [of d] by (cases "d = c") (auto simp: conn_wf_def)
  have ex: "\<not> (conn_matches i (conn t a) \<and> conn_matches i (conn t b))"
    if "a < length (conns s)" "b < length (conns s)" "a \<noteq> b" "ctype (conn t a) = CONN_SERVER" "ctype (conn t b) = CONN_SERVER" for i a b
  proof (cases "a = c \<or> b = c")
    case True
    then show ?thesis using that assms(5) [of a i] assms(5) [of b i] cn [of a] cn [of b] by auto
  next
    case False
    then show ?thesis using that assms(1) cn [of a] cn [of b] unfolding conn_wf_def by auto
  qed
  have "port_wf t = port_wf s" using assms(2) by (simp add: port_wf_def rdp_frame_def)
  then show ?thesis using assms(1) ok ex unfolding conn_wf_def len by blast
qed

lemma conn_wf_length: "conn_wf s \<Longrightarrow> length (conns s) \<le> 47"
  by (simp add: conn_wf_def)

text \<open>A new incoming connection of a packet for which none was found, with the socket it will be posted to.\<close>

lemma conn_wf_new_server:
  assumes "conn_wf s" "acct M s" "0 < length (conns s)" "csp_conn_find_existing s i = None" "unat (dport i) \<le> CSP_PORT_MAX_BIND"
    and "csp_conn_new i idout CONN_SERVER s = (Some c, t)" "k < length (sockets s)"
  shows "conn_wf (upd_conn c (\<lambda>x. x\<lparr>dest_socket := Some k, copts := opts\<rparr>) t)"
proof -
  define u where "u = upd_conn c (\<lambda>x. x\<lparr>dest_socket := Some k, copts := opts\<rparr>) t"
  obtain q where c: "c < length (conns s)" "rdp_frame c s t"
      "conn t c = (conn s c)\<lparr>cstate := CONN_OPEN, ctype := CONN_SERVER, cidin := i, cidout := idout, ctimestamp := now s, rx_queue := q\<rparr>"
    using conn_new_spec [OF assms(2,3,6)] by auto
  have cu: "conn u c = (conn s c)\<lparr>cstate := CONN_OPEN, ctype := CONN_SERVER, cidin := i, cidout := idout, ctimestamp := now s, rx_queue := q,
      dest_socket := Some k, copts := opts\<rparr>"
    using c by (simp add: u_def conn_upd rdp_frame_def)
  have fr: "rdp_frame c s u" unfolding u_def by (rule rdp_frame_trans [OF c(2) rdp_frame_fields(1)])
  have none: "\<not> conn_matches i (conn s d)" if "d < length (conns s)" for d
    using assms(4) that by (auto simp: csp_conn_find_existing_def find_None_iff)
  have ok: "conn_ok c (conn s c)" using assms(1) c(1) by (simp add: conn_wf_def)
  show ?thesis
    unfolding u_def [symmetric]
  proof (rule conn_wf_replace [OF assms(1) fr])
    show "conn_ok c (conn u c)" using ok assms(5) by (simp add: cu conn_ok_def)
    show "dest_ok c u" using fr assms(7) by (simp add: dest_ok_def cu rdp_frame_def)
    fix j d
    assume d: "d < length (conns s)" and m: "conn_matches j (conn u c)"
    have "dport j = dport i" "sport j = sport i" "src j = src i" using m by (simp_all add: cu conn_matches_def)
    then have "conn_matches j (conn s d) = conn_matches i (conn s d)" by (simp add: conn_matches_def)
    then show "\<not> conn_matches j (conn s d)" using none [OF d] by simp
  qed
qed

text \<open>\<open>csp_connect\<close> up to the handshake.\<close>

definition connect_open :: "u8 \<Rightarrow> u16 \<Rightarrow> u8 \<Rightarrow> u32 \<Rightarrow> csp_state \<Rightarrow> nat option \<times> csp_state" where
  "connect_open prio dest dport' opts s =
     (let fl = connect_flags opts in
      case csp_conn_new (csp_id_clear\<lparr>dst := 0, pri := prio, src := dest, sport := dport', flags := fl\<rparr>)
        (csp_id_clear\<lparr>src := 0, pri := prio, dst := dest, dport := dport', flags := fl\<rparr>) CONN_CLIENT s of
        (None, s) \<Rightarrow> (None, s)
      | (Some c, s) \<Rightarrow>
          (Some c, upd_conn c (\<lambda>k. k\<lparr>cidout := (cidout k)\<lparr>sport := sport_outgoing k\<rparr>,
             cidin := (cidin k)\<lparr>dport := sport_outgoing k\<rparr>, dest_socket := None, copts := opts\<rparr>) s))"

lemma connect_unfold:
  "csp_connect w w' prio dest dport' opts s =
     (case connect_open prio dest dport' (connect_opts s opts) s of
        (None, u) \<Rightarrow> (None, u)
      | (Some c, u) \<Rightarrow>
          if connect_flags (connect_opts s opts) AND CSP_FRDP \<noteq> 0
          then (case csp_rdp_connect w w' c u of
                  (e, v) \<Rightarrow> if e \<noteq> CSP_ERR_NONE then (None, snd (csp_close (Some c) v)) else (Some c, v))
          else (Some c, u))"
  by (simp add: csp_connect_def connect_open_def Let_def split: prod.split option.split)

lemma connect_open_spec:
  assumes "conn_wf s" "acct M s" "0 < length (conns s)" "connect_open prio dest dport' opts s = (r, t)"
  shows "conn_wf t \<and> acct M t \<and> (\<forall>h. pkt t h = pkt s h) \<and> sockets t = sockets s \<and> rdp_rx t = rdp_rx s \<and>
    (case r of
       None \<Rightarrow> t = conn_out_inc s \<and> (\<forall>c < length (conns s). cstate (conn s c) = CONN_OPEN)
     | Some c \<Rightarrow> c < length (conns s) \<and> rdp_frame c s t \<and> cstate (conn s c) = CONN_CLOSED \<and>
         (\<exists>k < length (conns s). c = round_robin s k \<and> (\<forall>j < k. cstate (conn s (round_robin s j)) = CONN_OPEN)) \<and>
         (\<exists>q. conn t c = (conn s c)\<lparr>cstate := CONN_OPEN, ctype := CONN_CLIENT,
            cidin := \<lparr>pri = prio, flags = connect_flags opts, src = dest, dst = 0, dport = out_port c, sport = dport'\<rparr>,
            cidout := \<lparr>pri = prio, flags = connect_flags opts, src = 0, dst = dest, dport = dport', sport = out_port c\<rparr>,
            ctimestamp := now s, rx_queue := q, dest_socket := None, copts := opts\<rparr> \<and> queue_list q = []))"
proof -
  obtain r' u where nw: "csp_conn_new (csp_id_clear\<lparr>dst := 0, pri := prio, src := dest, sport := dport', flags := connect_flags opts\<rparr>)
        (csp_id_clear\<lparr>src := 0, pri := prio, dst := dest, dport := dport', flags := connect_flags opts\<rparr>) CONN_CLIENT s = (r', u)"
    by (rule prod.exhaust)
  note sp = conn_new_spec [OF assms(2,3) nw]
  show ?thesis
  proof (cases r')
    case None
    then show ?thesis using sp assms(1,4) nw by (auto simp: connect_open_def pool_simps)
  next
    case (Some c)
    define f where "f = (\<lambda>k :: csp_conn. k\<lparr>cidout := (cidout k)\<lparr>sport := sport_outgoing k\<rparr>,
             cidin := (cidin k)\<lparr>dport := sport_outgoing k\<rparr>, dest_socket := None, copts := opts\<rparr>)"
    have rt: "r = Some c" "t = upd_conn c f u" using assms(4) nw Some by (simp_all add: connect_open_def Let_def f_def)
    have c: "c < length (conns s)" "rdp_frame c s u" "cstate (conn s c) = CONN_CLOSED" using sp Some by auto
    then have cu: "c < length (conns u)" by (simp add: rdp_frame_def)
    have sp_out: "sport_outgoing (conn s c) = out_port c" using assms(1) c(1) by (simp add: conn_wf_def conn_ok_def)
    obtain q where q: "conn u c = (conn s c)\<lparr>cstate := CONN_OPEN, ctype := CONN_CLIENT,
        cidin := csp_id_clear\<lparr>dst := 0, pri := prio, src := dest, sport := dport', flags := connect_flags opts\<rparr>,
        cidout := csp_id_clear\<lparr>src := 0, pri := prio, dst := dest, dport := dport', flags := connect_flags opts\<rparr>,
        ctimestamp := now s, rx_queue := q\<rparr>" "queue_list q = []"
      using sp Some by auto
    have fr: "rdp_frame c s t" unfolding rt by (rule rdp_frame_trans [OF c(2) rdp_frame_fields(1)])
    have ct: "conn t c = (conn s c)\<lparr>cstate := CONN_OPEN, ctype := CONN_CLIENT,
            cidin := \<lparr>pri = prio, flags = connect_flags opts, src = dest, dst = 0, dport = out_port c, sport = dport'\<rparr>,
            cidout := \<lparr>pri = prio, flags = connect_flags opts, src = 0, dst = dest, dport = dport', sport = out_port c\<rparr>,
            ctimestamp := now s, rx_queue := q, dest_socket := None, copts := opts\<rparr>"
      using cu by (simp add: rt conn_upd q(1) f_def csp_id_clear_def sp_out)
    have "conn_wf t"
      by (rule conn_wf_replace [OF assms(1) fr]) (simp_all add: ct conn_ok_def sp_out dest_ok_def)
    moreover have "acct M t" "\<forall>h. pkt t h = pkt s h" "sockets t = sockets s" "rdp_rx t = rdp_rx s"
      using sp by (simp_all add: rt acct_upd_conn f_def pkt_upd upd_fields)
    moreover have "\<exists>k < length (conns s). c = round_robin s k \<and> (\<forall>j < k. cstate (conn s (round_robin s j)) = CONN_OPEN)"
      using sp Some by auto
    ultimately show ?thesis using rt(1) c(1,3) fr ct q(2) by auto
  qed
qed


section \<open>Initialisation\<close>

lemma conn_init_conn:
  assumes "i < length (conns s)"
  shows "conn (conn_init i s) d = (if d = i then
      (let k = conn s i; r = rdp k in k\<lparr>sport_outgoing := out_port i, cstate := CONN_CLOSED, cidin := (cidin k)\<lparr>flags := 0\<rparr>,
         rx_queue := the (pthread_queue_create True None CSP_CONN_RXQUEUE_LEN),
         rdp := r\<lparr>rdp_st := RDP_CLOSED, closed_by := 0, conn_timeout := csp_rdp_conn_timeout (rdp_dfl s),
           packet_timeout := csp_rdp_packet_timeout (rdp_dfl s), tx_wait := True\<rparr>\<rparr>) else conn s d)"
    "length (conns (conn_init i s)) = length (conns s)" "rdp_dfl (conn_init i s) = rdp_dfl s"
  using assms by (auto simp: conn_init_def csp_rdp_init_def upd_rdp_def upd_conn_def conn_def out_port_def Let_def nth_list_update)

lemma conn_init_all:
  assumes "n \<le> length (conns s)" and t: "t = fold conn_init [0..<n] s"
  shows "length (conns t) = length (conns s) \<and> (\<forall>c < n. sport_outgoing (conn t c) = out_port c \<and> cstate (conn t c) = CONN_CLOSED \<and>
      flags (cidin (conn t c)) = 0 \<and> rdp_st (rdp (conn t c)) = RDP_CLOSED \<and> queue_list (rx_queue (conn t c)) = [] \<and>
      queue_inv (rx_queue (conn t c)))"
  using assms
proof (induction n arbitrary: t)
  case (Suc n)
  define u where "u = fold conn_init [0..<n] s"
  have IH: "length (conns u) = length (conns s) \<and> (\<forall>c < n. sport_outgoing (conn u c) = out_port c \<and> cstate (conn u c) = CONN_CLOSED \<and>
      flags (cidin (conn u c)) = 0 \<and> rdp_st (rdp (conn u c)) = RDP_CLOSED \<and> queue_list (rx_queue (conn u c)) = [] \<and>
      queue_inv (rx_queue (conn u c)))" using Suc.IH [OF _ u_def] Suc.prems(1) by simp
  have t: "t = conn_init n u" using Suc.prems(2) by (simp add: u_def)
  have n: "n < length (conns u)" using IH Suc.prems(1) by simp
  have q: "queue_inv (the (pthread_queue_create True (None :: nat option) CSP_CONN_RXQUEUE_LEN))"
    "queue_list (the (pthread_queue_create True (None :: nat option) CSP_CONN_RXQUEUE_LEN)) = []"
    using queue_create_inv [of CSP_CONN_RXQUEUE_LEN "None :: nat option"] by (simp_all add: pthread_queue_create_def CSP_CONN_RXQUEUE_LEN_def)
  show ?case unfolding t conn_init_conn [OF n] using IH q by (auto simp: Let_def less_Suc_eq)
qed simp

lemma conn_wf_init:
  assumes "length (conns s) \<le> 47" "port_wf s"
  shows "conn_wf (csp_conn_init s)"
proof -
  define t where "t = csp_conn_init s"
  have "length (conns t) = length (conns s)" "\<And>c. c < length (conns s) \<Longrightarrow> conn_ok c (conn t c) \<and> cstate (conn t c) = CONN_CLOSED"
    using conn_init_all [OF order_refl, of t s] by (simp_all add: t_def csp_conn_init_def conn_ok_def)
  moreover have "ports (fold conn_init cs s) = ports s" "sockets (fold conn_init cs s) = sockets s" for cs
    by (induction cs arbitrary: s) (simp_all add: conn_init_def csp_rdp_init_def upd_rdp_def upd_conn_def)
  then have "port_wf t" using assms(2) by (simp add: t_def csp_conn_init_def port_wf_def)
  ultimately show ?thesis using assms(1) unfolding t_def [symmetric] conn_wf_def by (simp add: conn_matches_def)
qed

section \<open>Properties\<close>



definition pool_ex :: csp_state where
  "pool_ex = upd_conn 0 (\<lambda>k. k\<lparr>cstate := CONN_CLOSED, sport_outgoing := 17\<rparr>) rdp_node_ex"

lemma pool_ex_conns [simp]:
  "conns pool_ex = [conn_ex\<lparr>cstate := CONN_CLOSED, sport_outgoing := 17\<rparr>]"
  by (simp add: pool_ex_def upd_conn_def)

lemma pool_ex_facts: "acct {#0#} pool_ex" "conn_wf pool_ex" "conf_conn_dfl_so pool_ex = 0"
proof -
  show "acct {#0#} pool_ex" using rdp_node_ex_acct by (simp add: pool_ex_def acct_upd_conn)
  have "port_wf pool_ex"
    by (simp add: port_wf_def pool_ex_def rdp_node_ex_def node_ex_def upd_conn_def CSP_PORT_MAX_BIND_def)
  then show "conn_wf pool_ex" by (simp add: conn_wf_def conn_def conn_ok_def out_port_def CSP_PORT_MAX_BIND_def)
  show "conf_conn_dfl_so pool_ex = 0" by (simp add: pool_ex_def upd_conn_def rdp_node_ex_def node_ex_def)
qed



end
