(* ===== verification/Csp_Io.thy ===== *)
theory Csp_Io
  imports Csp_Conn
begin

text \<open>
  The calls of the applications, \<open>src/csp_io.c\<close>: accepting connections, reading and sending packets,
  transactions, and connection-less sending. The transmit path below them is in the theory of \<open>csp_send_direct\<close>.
  What other tasks do while a call waits for a queue is an argument of the call; it gets the
  timeout the code passes to the queue.
\<close>

section \<open>Operations\<close>

text \<open>\<open>csp_queue_dequeue (sock->rx_queue, ..., timeout)\<close>: the wait if the queue is empty, then the first element.\<close>

definition sock_dequeue :: "(u32 \<Rightarrow> csp_state \<Rightarrow> csp_state) \<Rightarrow> u32 \<Rightarrow> nat \<Rightarrow> csp_state \<Rightarrow> sock_item option \<times> csp_state" where
  "sock_dequeue w timeout k s =
     (let s = (case sock_queue (sockets s ! k) of
                 Some q \<Rightarrow> if csp_queue_size q = 0 \<and> timeout \<noteq> 0 then w timeout s else s | None \<Rightarrow> s)
      in case sock_queue (sockets s ! k) of
           None \<Rightarrow> (None, s\<lparr>fault := True\<rparr>)
         | Some q \<Rightarrow> (case csp_queue_dequeue q of
             (r, q) \<Rightarrow> (r, s\<lparr>sockets := (sockets s)[k := (sockets s ! k)\<lparr>sock_queue := Some q\<rparr>]\<rparr>)))"

text \<open>A packet in the queue of the socket would be taken for a connection.\<close>

definition csp_accept :: "(u32 \<Rightarrow> csp_state \<Rightarrow> csp_state) \<Rightarrow> nat option \<Rightarrow> u32 \<Rightarrow> csp_state \<Rightarrow> nat option \<times> csp_state" where
  "csp_accept w sock timeout s =
     (case sock of
        None \<Rightarrow> (None, set_errno CSP_DBG_ERR_INVALID_POINTER s)
      | Some k \<Rightarrow>
          if sock_queue (sockets s ! k) = None then (None, set_errno CSP_DBG_ERR_INVALID_POINTER s)
          else (case sock_dequeue w timeout k s of
                  (None, s) \<Rightarrow> (None, s)
                | (Some (Sock_conn c), s) \<Rightarrow> (Some c, s)
                | (Some (Sock_packet p), s) \<Rightarrow> (None, s\<lparr>fault := True\<rparr>)))"

definition read_timeout :: "csp_conn \<Rightarrow> u32 \<Rightarrow> u32" where
  "read_timeout k timeout =
     (if timeout \<noteq> 0 \<and> flags (cidin k) AND CSP_FRDP \<noteq> 0 \<and> timeout < conn_timeout (rdp k)
      then conn_timeout (rdp k) else timeout)"

text \<open>The queue of a connection may hold a \<open>NULL\<close> that tells the reader that the connection was closed.\<close>

definition csp_read :: "(u32 \<Rightarrow> csp_state \<Rightarrow> csp_state) \<Rightarrow> nat option \<Rightarrow> u32 \<Rightarrow> csp_state \<Rightarrow> nat option \<times> csp_state" where
  "csp_read w conn' timeout s =
     (case conn' of None \<Rightarrow> (None, s)
      | Some c \<Rightarrow>
          if cstate (conn s c) \<noteq> CONN_OPEN then (None, s)
          else
            let timeout = read_timeout (conn s c) timeout;
                s = (if csp_queue_size (rx_queue (conn s c)) = 0 \<and> timeout \<noteq> 0 then w timeout s else s)
            in case csp_queue_dequeue (rx_queue (conn s c)) of
                 (None, _) \<Rightarrow> (None, s)
               | (Some packet, q) \<Rightarrow>
                   let s = upd_conn c (\<lambda>k. k\<lparr>rx_queue := q\<rparr>) s
                   in (packet,
                       if flags (cidin (conn s c)) AND CSP_FRDP \<noteq> 0 \<and> delayed_acks (rdp (conn s c)) \<noteq> 0
                       then snd (csp_rdp_check_ack c s) else s))"

definition csp_send :: "(csp_state \<Rightarrow> csp_state) list \<Rightarrow> nat option \<Rightarrow> nat option \<Rightarrow> csp_state \<Rightarrow> csp_state" where
  "csp_send ws conn' packet s =
     (case packet of None \<Rightarrow> s
      | Some p \<Rightarrow>
          (case conn' of None \<Rightarrow> csp_buffer_free packet s
           | Some c \<Rightarrow>
               if cstate (conn s c) \<noteq> CONN_OPEN then csp_buffer_free packet s
               else if flags (cidout (conn s c)) AND CSP_FRDP \<noteq> 0
               then (case csp_rdp_send ws c p s of
                       (e, s) \<Rightarrow> if e \<noteq> CSP_ERR_NONE then csp_buffer_free packet s else send_on_conn c packet s)
               else send_on_conn c packet s))"

definition csp_send_prio :: "(csp_state \<Rightarrow> csp_state) list \<Rightarrow> u8 \<Rightarrow> nat \<Rightarrow> nat option \<Rightarrow> csp_state \<Rightarrow> csp_state" where
  "csp_send_prio ws prio c packet s =
     csp_send ws (Some c) packet (upd_conn c (\<lambda>k. k\<lparr>cidout := (cidout k)\<lparr>pri := prio\<rparr>\<rparr>) s)"

text \<open>A transaction. The request is \<open>outbuf\<close>, \<open>NULL\<close> or an array of \<open>outlen\<close> bytes; a request longer than a packet is
  copied behind the end of its array. The second result is what the reply wrote to \<open>inbuf\<close>.\<close>

definition put_request :: "byte list option \<Rightarrow> int \<Rightarrow> nat \<Rightarrow> csp_state \<Rightarrow> csp_state" where
  "put_request outbuf outlen p s =
     (let s = (case outbuf of
                 Some bs \<Rightarrow>
                   if outlen > 0
                   then (if outlen > int CSP_BUFFER_SIZE then s\<lparr>fault := True\<rparr>
                         else set_pkt p ((pkt s p)\<lparr>pmem := mwrite (data_at 0) (take (nat outlen) bs) (pmem (pkt s p))\<rparr>) s)
                   else s
               | None \<Rightarrow> s)
      in set_pkt p ((pkt s p)\<lparr>plength := of_int outlen\<rparr>) s)"

definition get_reply :: "int \<Rightarrow> nat \<Rightarrow> csp_state \<Rightarrow> int \<times> byte list \<times> csp_state" where
  "get_reply inlen p s =
     (if inlen \<noteq> -1 \<and> uint (plength (pkt s p)) \<noteq> inlen
      then (0, [], csp_buffer_free (Some p) (upd_dbg (\<lambda>d. d\<lparr>csp_dbg_inval_reply := csp_dbg_inval_reply d + 1\<rparr>) s))
      else (uint (plength (pkt s p)), pdata (pkt s p), csp_buffer_free (Some p) s))"

definition csp_transaction_persistent ::
    "(csp_state \<Rightarrow> csp_state) list \<Rightarrow> (u32 \<Rightarrow> csp_state \<Rightarrow> csp_state) \<Rightarrow> nat option \<Rightarrow> u32 \<Rightarrow> byte list option \<Rightarrow> int \<Rightarrow> int \<Rightarrow>
     csp_state \<Rightarrow> int \<times> byte list \<times> csp_state" where
  "csp_transaction_persistent ws w conn' timeout outbuf outlen inlen s =
     (case csp_buffer_get s of
        (None, s) \<Rightarrow> (0, [], s)
      | (Some p, s) \<Rightarrow>
          let s = put_request outbuf outlen p s;
              s = csp_send ws conn' (Some p) s
          in if inlen = 0 then (1, [], s)
             else (case csp_read w conn' timeout s of
                     (None, s) \<Rightarrow> (0, [], s)
                   | (Some p, s) \<Rightarrow> get_reply inlen p s))"

definition csp_transaction_w_opts ::
    "(csp_state \<Rightarrow> csp_state) \<Rightarrow> (csp_state \<Rightarrow> csp_state) \<Rightarrow> (csp_state \<Rightarrow> csp_state) list \<Rightarrow> (u32 \<Rightarrow> csp_state \<Rightarrow> csp_state) \<Rightarrow>
     u8 \<Rightarrow> u16 \<Rightarrow> u8 \<Rightarrow> u32 \<Rightarrow> byte list option \<Rightarrow> int \<Rightarrow> int \<Rightarrow> u32 \<Rightarrow> csp_state \<Rightarrow> int \<times> byte list \<times> csp_state" where
  "csp_transaction_w_opts v v' ws w prio dest port timeout outbuf outlen inlen opts s =
     (case csp_connect v v' prio dest port opts s of
        (None, s) \<Rightarrow> (0, [], s)
      | (Some c, s) \<Rightarrow>
          (case csp_transaction_persistent ws w (Some c) timeout outbuf outlen inlen s of
             (status, inbuf, s) \<Rightarrow> (status, inbuf, snd (csp_close (Some c) s))))"

text \<open>A connection in the queue of the socket would be taken for a packet.\<close>

definition csp_recvfrom :: "(u32 \<Rightarrow> csp_state \<Rightarrow> csp_state) \<Rightarrow> nat option \<Rightarrow> u32 \<Rightarrow> csp_state \<Rightarrow> nat option \<times> csp_state" where
  "csp_recvfrom w socket timeout s =
     (case socket of None \<Rightarrow> (None, s)
      | Some k \<Rightarrow>
          if sock_opts (sockets s ! k) AND CSP_SO_CONN_LESS = 0 then (None, s)
          else (case sock_dequeue w timeout k s of
                  (None, s) \<Rightarrow> (None, s)
                | (Some (Sock_packet p), s) \<Rightarrow> (Some p, s)
                | (Some (Sock_conn c), s) \<Rightarrow> (None, s\<lparr>fault := True\<rparr>)))"

text \<open>The identifier a connection-less packet is sent with.\<close>

definition sendto_id :: "u8 \<Rightarrow> u16 \<Rightarrow> u8 \<Rightarrow> u8 \<Rightarrow> u32 \<Rightarrow> csp_id \<Rightarrow> csp_id" where
  "sendto_id prio dest dport' src_port opts i =
     (let fl = (if opts AND CSP_SO_SAME = 0 then 0 else flags i);
          fl = (if opts AND CSP_SO_HMACREQ \<noteq> 0 then fl OR CSP_FHMAC else fl);
          fl = (if opts AND CSP_SO_CRC32REQ \<noteq> 0 then fl OR CSP_FCRC32 else fl)
      in i\<lparr>flags := fl, dst := dest, dport := dport', sport := src_port, pri := prio\<rparr>)"

definition csp_sendto :: "u8 \<Rightarrow> u16 \<Rightarrow> u8 \<Rightarrow> u8 \<Rightarrow> u32 \<Rightarrow> nat \<Rightarrow> csp_state \<Rightarrow> csp_state" where
  "csp_sendto prio dest dport' src_port opts packet s =
     (if opts AND CSP_SO_RDPREQ \<noteq> 0
      then csp_buffer_free (Some packet) (set_errno CSP_DBG_ERR_UNSUPPORTED
             (if opts AND CSP_SO_SAME = 0
              then set_pkt packet ((pkt s packet)\<lparr>pid := (pid (pkt s packet))\<lparr>flags := 0\<rparr>\<rparr>) s else s))
      else
        let s = set_pkt packet ((pkt s packet)\<lparr>pid := sendto_id prio dest dport' src_port opts (pid (pkt s packet))\<rparr>) s
        in snd (csp_send_direct (pid (pkt s packet)) (Some packet) None s))"

definition csp_sendto_reply :: "nat option \<Rightarrow> nat \<Rightarrow> u32 \<Rightarrow> csp_state \<Rightarrow> csp_state" where
  "csp_sendto_reply request reply opts s =
     (case request of None \<Rightarrow> s
      | Some q \<Rightarrow>
          let s = (if opts AND CSP_SO_SAME \<noteq> 0
                   then set_pkt reply ((pkt s reply)\<lparr>pid := (pid (pkt s reply))\<lparr>flags := flags (pid (pkt s q))\<rparr>\<rparr>) s else s);
              dst' = src (pid (pkt s q));
              a = (if dst (pid (pkt s q)) \<noteq> csp_id_get_max_nodeid (conf_version s) then dst (pid (pkt s q)) else 0);
              s = set_pkt reply ((pkt s reply)\<lparr>pid := (pid (pkt s reply))\<lparr>src := a\<rparr>\<rparr>) s
          in csp_sendto (pri (pid (pkt s q))) dst' (sport (pid (pkt s q))) (dport (pid (pkt s q))) opts reply s)"

section \<open>Accounting\<close>

text \<open>What every call keeps, whoever holds the buffers \<open>M\<close>; \<open>sound_task\<close> says that other tasks keep it too.\<close>

definition stack_ok :: "nat multiset \<Rightarrow> csp_state \<Rightarrow> bool" where
  "stack_ok M s \<longleftrightarrow> acct M s \<and> rx_sized s"

definition same_size :: "csp_state \<Rightarrow> csp_state \<Rightarrow> bool" where
  "same_size s t \<longleftrightarrow> length (conns t) = length (conns s) \<and> length (sockets t) = length (sockets s)"

definition sound_task :: "(csp_state \<Rightarrow> csp_state) \<Rightarrow> bool" where
  "sound_task w \<longleftrightarrow> (\<forall>M s. stack_ok M s \<longrightarrow> stack_ok M (w s) \<and> same_size s (w s))"

lemma sound_task_id [simp]: "sound_task (\<lambda>s. s)" "sound_task id"
  by (simp_all add: sound_task_def same_size_def)

lemma sound_taskD: "sound_task w \<Longrightarrow> stack_ok M s \<Longrightarrow> stack_ok M (w s) \<and> same_size s (w s)"
  by (simp add: sound_task_def)

lemma same_size_trans: "same_size s t \<Longrightarrow> same_size t u \<Longrightarrow> same_size s u"
  by (simp add: same_size_def)

lemma same_size_refl [simp]: "same_size s s"
  by (simp add: same_size_def)

lemma same_size_frame: "rdp_frame c s t \<Longrightarrow> same_size s t"
  by (simp add: same_size_def rdp_frame_def)

lemma stack_ok_upd_rdp [simp]: "stack_ok M (upd_rdp c f s) = stack_ok M s" "same_size s (upd_rdp c f s)"
  by (simp add: stack_ok_def) (simp add: same_size_def upd_rdp_def upd_conn_def)

lemma stack_ok_tx_effect:
  assumes "stack_ok M s" "acct N t" "tx_effect c K s t"
  shows "stack_ok N t" "same_size s t"
proof -
  have "rx_sized t" by (rule rx_sized_fixed [of s t K]) (use assms in \<open>auto simp: stack_ok_def tx_effect_def\<close>)
  then show "stack_ok N t" using assms(2) by (simp add: stack_ok_def)
  show "same_size s t" using assms(3) by (auto simp: tx_effect_def intro: same_size_frame)
qed

lemma stack_ok_set_pkt:
  assumes "stack_ok (add_mset p M) s" "packet_wf x"
  shows "stack_ok (add_mset p M) (set_pkt p x s)" "same_size s (set_pkt p x s)"
proof -
  have a: "acct (add_mset p M) s" using assms(1) by (simp add: stack_ok_def)
  note st = stack_ok_tx_effect [OF assms(1) acct_set_pkt [OF a assms(2)] tx_effect_set_pkt [OF a]]
  show "stack_ok (add_mset p M) (set_pkt p x s)" by (rule st(1))
  show "same_size s (set_pkt p x s)" by (rule st(2))
qed

lemma stack_ok_free:
  assumes "stack_ok (add_mset p M) s"
  shows "stack_ok M (csp_buffer_free (Some p) s)" "same_size s (csp_buffer_free (Some p) s)"
proof -
  have a: "acct (add_mset p M) s" using assms by (simp add: stack_ok_def)
  note f = acct_free [OF a]
  have "tx_effect 0 M s (csp_buffer_free (Some p) s)" by (rule tx_effect_more0 [OF f(2)]) (rule f(3))
  then show "stack_ok M (csp_buffer_free (Some p) s)" "same_size s (csp_buffer_free (Some p) s)"
    using stack_ok_tx_effect [OF assms f(1)] by blast+
qed

lemma stack_ok_get:
  assumes "stack_ok M s" "csp_buffer_get s = (r, t)"
  shows "stack_ok (case r of None \<Rightarrow> M | Some p \<Rightarrow> add_mset p M) t" "same_size s t"
proof -
  have a: "acct M s" and sz: "rx_sized s" using assms by (simp_all add: stack_ok_def)
  have "acct (case r of None \<Rightarrow> M | Some p \<Rightarrow> add_mset p M) t \<and> tx_effect 0 M s t"
  proof (cases r)
    case None
    then have "acct M t" "csp_pool.more t = csp_pool.more s" using acct_get_None [OF a] assms(2) by auto
    moreover have "bufs t = bufs s"
      using assms(2) None by (auto simp: csp_buffer_get_def Let_def set_errno_def split: prod.splits option.splits if_splits)
    ultimately show ?thesis using None tx_effect_more0 [of t s M 0] by (simp add: pkt_def)
  next
    case (Some b)
    note g = acct_get [OF a assms(2) [unfolded Some]]
    have "pkt t h = pkt s h" if "h \<in># fixed_pkts M s" for h
      using g(3) [of h] g(4) fixed_allocated [OF a that] by (cases "h = b") (auto simp: pkt_def)
    then show ?thesis using Some g(1) tx_effect_more0 [OF g(2)] by simp
  qed
  then show "stack_ok (case r of None \<Rightarrow> M | Some p \<Rightarrow> add_mset p M) t" "same_size s t"
    using stack_ok_tx_effect [OF assms(1)] by blast+
qed

lemma stack_ok_clone:
  assumes "stack_ok M s" "h \<in># M" "csp_buffer_clone (Some h) s = (r, t)"
  shows "stack_ok (case r of None \<Rightarrow> M | Some p \<Rightarrow> add_mset p M) t" "same_size s t"
proof -
  have a: "acct M s" using assms by (simp add: stack_ok_def)
  note k = acct_clone [OF a held_allocated(1) [OF a assms(2)] assms(3)]
  have "tx_effect 0 M s t" by (rule tx_effect_more0 [OF k(2)]) (rule k(3), rule fixed_allocated [OF a])
  then show "stack_ok (case r of None \<Rightarrow> M | Some p \<Rightarrow> add_mset p M) t" "same_size s t"
    using stack_ok_tx_effect [OF assms(1) k(1)] by blast+
qed

lemma stack_ok_tx_add:
  assumes "stack_ok (add_mset p M) s"
  shows "stack_ok M (csp_rdp_queue_tx_add c p s)" "same_size s (csp_rdp_queue_tx_add c p s)"
proof -
  have a: "acct (add_mset p M) s" using assms by (simp add: stack_ok_def)
  obtain q where "csp_pool.more (csp_rdp_queue_tx_add c p s) = csp_pool.more (s\<lparr>rdp_tx := q\<rparr>)"
    using tx_add_effect(1) [OF a] by blast
  then have "tx_effect 0 M s (csp_rdp_queue_tx_add c p s)"
    by (rule tx_effect_more) (use tx_add_effect(2) [OF a] fixed_not_held [OF a] in simp)
  then show "stack_ok M (csp_rdp_queue_tx_add c p s)" "same_size s (csp_rdp_queue_tx_add c p s)"
    using stack_ok_tx_effect [OF assms tx_add_acct [OF a]] by blast+
qed

lemma send_wait_ok:
  assumes "stack_ok M s" "\<And>w. w \<in> set ws \<Longrightarrow> sound_task w"
  shows "stack_ok M (snd (send_wait_loop ws c s)) \<and> same_size s (snd (send_wait_loop ws c s))"
  using assms
proof (induction ws arbitrary: s)
  case Nil
  then show ?case by (simp add: send_wait_Nil)
next
  case (Cons w ws)
  define u where "u = snd (sem_wait w c s)"
  have u: "stack_ok M u \<and> same_size s u"
    using sound_taskD [of w M s] Cons.prems same_size_trans by (auto simp: u_def sem_wait_def Let_def)
  then have "stack_ok M (snd (send_wait_loop ws c u))" "same_size s (snd (send_wait_loop ws c u))"
    using Cons.IH [of u] Cons.prems(2) same_size_trans by auto
  then show ?case
    using Cons.prems(1) u by (subst (1 2) send_wait_loop.simps) (simp add: case_prod_beta u_def [symmetric])
qed

lemma rdp_send_ok:
  assumes "stack_ok (add_mset p M) s" "\<And>w. w \<in> set ws \<Longrightarrow> sound_task w" "csp_rdp_send ws c p s = (e, t)"
  shows "stack_ok (add_mset p M) t \<and> same_size s t"
proof -
  define u where "u = snd (send_wait_loop ws c s)"
  have u: "stack_ok (add_mset p M) u" "same_size s u" using send_wait_ok assms(1,2) by (simp_all add: u_def)
  have wf: "packet_wf (pkt u p)" using u(1) held_allocated(4) [of "add_mset p M" u p] by (simp add: stack_ok_def)
  define v where "v = (\<lambda>x. set_pkt p (hdr_write RDP_ACK (snd_nxt (rdp (conn u c))) (rcv_cur (rdp (conn u c))) x) u)"
  have v: "stack_ok (add_mset p M) (v x) \<and> same_size s (v x)" if "csp_rdp_header_add (pkt u p) = Some x" for x
    using stack_ok_set_pkt [OF u(1)] same_size_trans [OF u(2)] header_wf(1) header_add_Some(1) [OF wf that] by (simp add: v_def)
  have rest: "stack_ok (add_mset p M) t' \<and> same_size s t'"
    if "csp_rdp_header_add (pkt u p) = Some x"
      "(case csp_buffer_clone (Some p) (v x) of (None, s) \<Rightarrow> (CSP_ERR_NOMEM, s)
         | (Some b, s) \<Rightarrow> (CSP_ERR_NONE, upd_rdp c (\<lambda>r. r\<lparr>snd_nxt := snd_nxt r + 1\<rparr>) (csp_rdp_queue_tx_add c b
              (set_pkt b ((pkt s b)\<lparr>timestamp_tx := now s, rdp_quarantine := 0\<rparr>) s)))) = (e', t')" for x e' t'
  proof -
    obtain r y where cl: "csp_buffer_clone (Some p) (v x) = (r, y)" by (rule prod.exhaust)
    note k = stack_ok_clone [OF conjunct1 [OF v [OF that(1)]] _ cl, simplified]
    show ?thesis
    proof (cases r)
      case None
      then show ?thesis using that(2) cl k same_size_trans v [OF that(1)] by auto
    next
      case (Some b)
      have kb: "stack_ok (add_mset b (add_mset p M)) y" using k(1) Some by simp
      then have "packet_wf (pkt y b)" using held_allocated(4) [of "add_mset b (add_mset p M)" y b] by (simp add: stack_ok_def)
      then have "packet_wf ((pkt y b)\<lparr>timestamp_tx := now y, rdp_quarantine := 0\<rparr>)" by (simp add: packet_wf_def)
      note sb = stack_ok_set_pkt [OF kb this]
      note q = stack_ok_tx_add [OF sb(1), of c]
      show ?thesis using that(2) cl Some q sb(2) k(2) v [OF that(1)] by (auto simp: same_size_def)
    qed
  qed
  show ?thesis
  proof (cases "rdp_st (rdp (conn s c)) = RDP_OPEN \<and> fst (send_wait_loop ws c s) \<and> rdp_st (rdp (conn u c)) = RDP_OPEN")
    case True
    then have "send_wait_loop ws c s = (True, u)" by (simp add: u_def prod_eq_iff)
    note run = assms(3) [unfolded csp_rdp_send_def Let_def this]
    show ?thesis
    proof (cases "csp_rdp_header_add (pkt u p)")
      case None
      then show ?thesis using run True u by simp
    next
      case (Some x)
      show ?thesis by (rule rest [OF Some, of e t]) (use run True Some in \<open>simp add: v_def\<close>)
    qed
  next
    case False
    then have "t = s \<or> t = u"
      using assms(3) by (auto simp: csp_rdp_send_def u_def case_prod_beta split: if_splits bool.splits)
    then show ?thesis using assms(1) u by auto
  qed
qed


lemma send_on_conn_ok:
  assumes "stack_ok (add_mset p M) s" "c < length (conns s)"
  shows "stack_ok M (send_on_conn c (Some p) s)" "same_size s (send_on_conn c (Some p) s)"
proof -
  have "acct (case Some p of None \<Rightarrow> M | Some p \<Rightarrow> add_mset p M) s" using assms(1) by (simp add: stack_ok_def)
  note sp = send_on_conn_spec [OF this assms(2) refl]
  show "stack_ok M (send_on_conn c (Some p) s)" "same_size s (send_on_conn c (Some p) s)"
    using stack_ok_tx_effect [OF assms(1) sp(1,2)] by blast+
qed

lemma send_direct_ok:
  assumes "stack_ok (add_mset p M) s" "t = snd (csp_send_direct idout (Some p) from s)"
  shows "stack_ok M t" "same_size s t" "net_frame s t"
proof -
  have a: "acct (add_mset p M) s" and sz: "rx_sized s" using assms(1) by (simp_all add: stack_ok_def)
  have d: "acct M t" "net_frame s t" using send_direct_acct [OF a] assms(2) by simp_all
  have k: "pkt t h = pkt s h" if "h \<in># M + kept s" for h using send_direct_pkt [OF a] that assms(2) by simp
  have "rdp_rx t = rdp_rx s" using d(2) by (simp add: net_frame_def)
  then have "rx_sized t" by (rule rx_sized_fixed [OF sz]) (rule k, auto simp: fixed_pkts_def kept_def)
  then show "stack_ok M t" "same_size s t" "net_frame s t" using d by (simp_all add: stack_ok_def same_size_def net_frame_def)
qed

lemma send_ok:
  assumes "stack_ok (add_mset p M) s" "c < length (conns s)" "\<And>w. w \<in> set ws \<Longrightarrow> sound_task w" "t = csp_send ws (Some c) (Some p) s"
  shows "stack_ok M t" "same_size s t"
proof -
  obtain e u where snd: "csp_rdp_send ws c p s = (e, u)" by (rule prod.exhaust)
  have u: "stack_ok (add_mset p M) u" "same_size s u" using rdp_send_ok [OF assms(1,3) snd] by auto
  then have c: "c < length (conns u)" using assms(2) by (simp add: same_size_def)
  have "stack_ok M t \<and> same_size s t"
    using stack_ok_free [OF assms(1)] stack_ok_free [OF u(1)] send_on_conn_ok [OF assms(1,2)] send_on_conn_ok [OF u(1) c]
      same_size_trans [OF u(2)] assms(4) snd by (simp add: csp_send_def)
  then show "stack_ok M t" "same_size s t" by blast+
qed

lemma conn_dequeue_ok:
  assumes "stack_ok M s" "c < length (conns s)" "csp_queue_dequeue (rx_queue (conn s c)) = (Some x, q)"
  shows "stack_ok (case x of None \<Rightarrow> M | Some p \<Rightarrow> add_mset p M) (upd_conn c (\<lambda>k. k\<lparr>rx_queue := q\<rparr>) s)"
    "queue_list (rx_queue (conn s c)) = x # queue_list q"
proof -
  have a: "acct M s" using assms(1) by (simp add: stack_ok_def)
  have inv: "queue_inv (rx_queue (conn s c))" by (rule acct_queue_inv(5) [OF a assms(2)])
  then have q: "queue_list (rx_queue (conn s c)) = x # queue_list q" "queue_inv q"
    using deq_cases [OF inv assms(3)] by auto
  show "queue_list (rx_queue (conn s c)) = x # queue_list q" by (rule q(1))
  have "acct (case x of None \<Rightarrow> M | Some p \<Rightarrow> add_mset p M) (s\<lparr>conns := (conns s)[c := (conn s c)\<lparr>rx_queue := q\<rparr>]\<rparr>)"
    by (rule acct_conn_rx [OF a assms(2)])
      (use q in \<open>simp_all add: conn_owned_def List.map_filter_simps split: option.split\<close>)
  then show "stack_ok (case x of None \<Rightarrow> M | Some p \<Rightarrow> add_mset p M) (upd_conn c (\<lambda>k. k\<lparr>rx_queue := q\<rparr>) s)"
    using assms(1) by (simp add: stack_ok_def) (simp add: upd_conn_def)
qed

lemma check_ack_ok:
  assumes "stack_ok M s" "t = snd (csp_rdp_check_ack c s)"
  shows "stack_ok M t" "same_size s t" "h \<in># fixed_pkts M s \<Longrightarrow> pkt t h = pkt s h"
    "conns t = conns s \<or> conns t = (conns s)[c := ack_recorded (rcv_cur (rdp (conn s c))) (now s) (conn s c)]"
proof -
  have a: "acct M s" "rx_sized s" using assms(1) by (simp_all add: stack_ok_def)
  note sp = check_ack_spec [OF a assms(2)]
  show "stack_ok M t" using sp by (simp add: stack_ok_def)
  show "same_size s t" "conns t = conns s \<or> conns t = (conns s)[c := ack_recorded (rcv_cur (rdp (conn s c))) (now s) (conn s c)]"
    using sp(3) by (auto simp: cmp_effect_def intro: same_size_frame)
  show "h \<in># fixed_pkts M s \<Longrightarrow> pkt t h = pkt s h" by (rule sp(4))
qed

lemma same_size_upd [simp]: "same_size s (upd_conn c f s)"
  by (simp add: same_size_def upd_conn_def)

lemma read_ok:
  assumes "stack_ok M s" "c < length (conns s)" "\<And>n. sound_task (w n)" "csp_read w (Some c) timeout s = (r, t)"
  shows "stack_ok (case r of None \<Rightarrow> M | Some p \<Rightarrow> add_mset p M) t \<and> same_size s t"
proof (cases "cstate (conn s c) = CONN_OPEN")
  case True
  let ?n = "read_timeout (conn s c) timeout"
  define u where "u = (if csp_queue_size (rx_queue (conn s c)) = 0 \<and> ?n \<noteq> 0 then w ?n s else s)"
  have u: "stack_ok M u" "same_size s u" using sound_taskD [OF assms(3,1)] assms(1) by (simp_all add: u_def)
  then have c: "c < length (conns u)" using assms(2) by (simp add: same_size_def)
  obtain x q where dq: "csp_queue_dequeue (rx_queue (conn u c)) = (x, q)" by (rule prod.exhaust)
  show ?thesis
  proof (cases x)
    case None
    then show ?thesis using assms(4) True u dq by (simp add: csp_read_def Let_def u_def [symmetric])
  next
    case (Some y)
    define v where "v = upd_conn c (\<lambda>k. k\<lparr>rx_queue := q\<rparr>) u"
    have v: "stack_ok (case y of None \<Rightarrow> M | Some p \<Rightarrow> add_mset p M) v" "same_size s v"
      using conn_dequeue_ok(1) [OF u(1) c dq [unfolded Some]] same_size_trans [OF u(2)] by (simp_all add: v_def)
    have "r = y" "t = v \<or> t = snd (csp_rdp_check_ack c v)"
      using assms(4) True dq Some by (auto simp: csp_read_def Let_def u_def [symmetric] v_def [symmetric])
    then show ?thesis using v check_ack_ok(1,2) [OF v(1) refl, of c] same_size_trans [OF v(2)] by auto
  qed
qed (use assms in \<open>simp add: csp_read_def\<close>)


section \<open>Properties\<close>

lemma put_request_ok:
  assumes "stack_ok (add_mset p M) s" "0 \<le> outlen" "outlen \<le> int CSP_BUFFER_SIZE" "length bs = nat outlen"
    and t: "t = put_request (Some bs) outlen p s"
  shows "stack_ok (add_mset p M) t" "same_size s t" "pdata (pkt t p) = bs" "fault t = fault s"
proof -
  define u where "u = (if outlen > 0 then set_pkt p ((pkt s p)\<lparr>pmem := mwrite (data_at 0) bs (pmem (pkt s p))\<rparr>) s else s)"
  have tu: "t = set_pkt p ((pkt u p)\<lparr>plength := of_int outlen\<rparr>) u" using assms(3,4) by (simp add: t put_request_def u_def Let_def)
  have p: "packet_wf (pkt s p)" "p < length (bufs s)" using held_allocated [of "add_mset p M" s p] assms(1) by (simp_all add: stack_ok_def)
  have fits: "data_at 0 + length bs \<le> length (pmem (pkt s p))"
    using p(1) assms(2-4) by (simp add: packet_wf_def data_at_def nat_le_iff)
  have "packet_wf ((pkt s p)\<lparr>pmem := mwrite (data_at 0) bs (pmem (pkt s p))\<rparr>)"
    by (rule packet_wf_pmemI [OF p(1)]) (use fits in simp)
  then have u: "stack_ok (add_mset p M) u" "same_size s u"
    using assms(1) stack_ok_set_pkt [OF assms(1)] by (simp_all add: u_def)
  have l: "unat (of_int outlen :: u16) = nat outlen"
    using assms(2,3) by (simp add: unat_eq_nat_uint uint_word_of_int_eq take_bit_eq_mod CSP_BUFFER_SIZE_def)
  have pu: "pmem (pkt u p) = (if outlen > 0 then mwrite (data_at 0) bs (pmem (pkt s p)) else pmem (pkt s p))"
    using p(2) by (simp add: u_def)
  have "packet_wf ((pkt u p)\<lparr>plength := of_int outlen\<rparr>)"
    using p(1) fits l assms(2,3) by (simp add: packet_wf_def pu nat_le_iff)
  then show "stack_ok (add_mset p M) t" "same_size s t"
    using stack_ok_set_pkt [OF u(1)] same_size_trans [OF u(2)] by (simp_all add: tu)
  have "p < length (bufs u)" using p(2) by (simp add: u_def set_pkt_def)
  then have "pdata (pkt t p) = mread (data_at 0) (nat outlen) (pmem (pkt u p))" by (simp add: tu pdata_def l)
  also have "\<dots> = bs"
    using assms(2,4) fits by (cases "outlen = 0") (simp_all add: pu mread_mwrite_same [of "data_at 0" bs, unfolded assms(4)])
  finally show "pdata (pkt t p) = bs" .
  show "fault t = fault s" by (simp add: tu u_def set_pkt_def)
qed

text \<open>C20: a transaction. Whatever the other tasks do meanwhile, as long as they keep the accounting of buffers,
  a transaction on a connection with a request that fits a packet releases every buffer it took or received, returns
  0 or the length of the reply, and accepts only a reply of the expected length (or any
  length for -1). A call that cannot get a buffer returns 0 and sends nothing.\<close>

theorem csp_transaction_conserves:
  assumes "stack_ok M s" "c < length (conns s)" "\<And>v. v \<in> set ws \<Longrightarrow> sound_task v" "\<And>n. sound_task (w n)"
    and "0 \<le> outlen" "outlen \<le> int CSP_BUFFER_SIZE" "length bs = nat outlen"
    and "csp_transaction_persistent ws w (Some c) timeout (Some bs) outlen inlen s = (status, inbuf, t)"
  shows "stack_ok M t \<and> (free_list s = [] \<longrightarrow> status = 0 \<and> wire t = wire s) \<and>
    (if inlen = 0 then inbuf = [] \<and> (status = 1 \<longleftrightarrow> free_list s \<noteq> [])
     else status = int (length inbuf) \<and> (inbuf \<noteq> [] \<longrightarrow> inlen = -1 \<or> status = inlen))"
proof -
  obtain x s1 where get: "csp_buffer_get s = (x, s1)" by (rule prod.exhaust)
  note g = stack_ok_get [OF assms(1) get]
  have inv: "pool_inv s" using assms(1) by (simp add: stack_ok_def acct_def)
  have free: "free_list s = [] \<longleftrightarrow> x = None"
  proof (cases "free_list s")
    case (Cons b bs)
    show ?thesis by (rule csp_buffer_get_Some [OF inv Cons]) (use get Cons in simp)
  qed (use csp_buffer_get_None [OF inv] get in simp)
  show ?thesis
  proof (cases x)
    case None
    have "csp_pool.more s1 = csp_pool.more s" using acct_get_None [of M s s1] assms(1) get None by (simp add: stack_ok_def)
    then have "wire s1 = wire s" by (rule more_fields(8))
    then show ?thesis using assms(8) get None g free by (auto simp: csp_transaction_persistent_def)
  next
    case (Some p)
    define s2 where "s2 = put_request (Some bs) outlen p s1"
    have g1: "stack_ok (add_mset p M) s1" using g(1) Some by simp
    note r = put_request_ok [OF g1 assms(5-7) s2_def]
    have c2: "c < length (conns s2)" using r(2) g(2) assms(2) by (simp add: same_size_def)
    define s3 where "s3 = csp_send ws (Some c) (Some p) s2"
    note sd = send_ok [OF r(1) c2 assms(3) s3_def]
    have c3: "c < length (conns s3)" using sd(2) c2 by (simp add: same_size_def)
    obtain y s4 where rd: "csp_read w (Some c) timeout s3 = (y, s4)" by (rule prod.exhaust)
    note k = read_ok [OF sd(1) c3 assms(4) rd]
    have run: "(status, inbuf, t) = (if inlen = 0 then (1, [], s3)
        else case y of None \<Rightarrow> (0, [], s4) | Some p \<Rightarrow> get_reply inlen p s4)"
      using assms(8) by (cases y; cases "inlen = 0") (simp_all add: csp_transaction_persistent_def get Some s3_def s2_def rd [unfolded s3_def s2_def] Let_def)
    show ?thesis
    proof (cases "inlen = 0 \<or> y = None")
      case True
      then show ?thesis using run k sd(1) free Some by (auto split: if_splits)
    next
      case False
      then obtain q where q: "y = Some q" by blast
      have k4: "stack_ok (add_mset q M) s4" using k q by simp
      then have "packet_wf (pkt s4 q)" using held_allocated(4) [of "add_mset q M" s4 q] by (simp add: stack_ok_def)
      then have len: "int (length (pdata (pkt s4 q))) = uint (plength (pkt s4 q))" by simp
      have k5: "stack_ok (add_mset q M) (upd_dbg f s4)" for f
        using k4 by (simp add: stack_ok_def rx_sized_def upd_dbg_def pkt_def)
      show ?thesis
        using run q False free Some stack_ok_free(1) [OF k4] stack_ok_free(1) [OF k5] len
        by (auto simp: get_reply_def split: if_splits)
    qed
  qed
qed


theorem csp_transaction_conserves_witness:
  "fst (csp_transaction_persistent [] (\<lambda>n s. s) (Some 0) 100 (Some [1, 2, 3]) 3 0 rdp_node_ex) = 1"
proof -
  have "free_list rdp_node_ex \<noteq> []" by (simp add: rdp_node_ex_def node_ex_def queue_list_def upt_rec)
  moreover have "stack_ok {#0#} rdp_node_ex" using rdp_node_ex_acct by (simp add: stack_ok_def)
  moreover obtain status inbuf t where
    "csp_transaction_persistent [] (\<lambda>n s. s) (Some 0) 100 (Some [1, 2, 3]) 3 0 rdp_node_ex = (status, inbuf, t)"
    by (rule prod_cases3)
  ultimately show ?thesis
    using csp_transaction_conserves [of "{#0#}" rdp_node_ex 0 "[]" "\<lambda>n s. s" 3 "[1, 2, 3]" 100 0 status inbuf t]
    by (simp add: CSP_BUFFER_SIZE_def)
qed

text \<open>Reading. A reader of an open connection that does not have to wait gets the packets in the order of their arrival,
  unchanged: the first element of the receive queue, and the others stay. The reader then owns the buffer. An
  acknowledgment that RDP sends meanwhile changes neither the queue nor a packet in it.\<close>

theorem csp_read_in_order:
  assumes "stack_ok M s" "c < length (conns s)" "cstate (conn s c) = CONN_OPEN"
    and "timeout = 0 \<or> queue_list (rx_queue (conn s c)) \<noteq> []" "csp_read w (Some c) timeout s = (r, t)"
  shows "case queue_list (rx_queue (conn s c)) of
      [] \<Rightarrow> r = None \<and> t = s
    | x # xs \<Rightarrow> r = x \<and> queue_list (rx_queue (conn t c)) = xs \<and>
        stack_ok (case x of None \<Rightarrow> M | Some p \<Rightarrow> add_mset p M) t \<and>
        (\<forall>p. Some p \<in> set (x # xs) \<longrightarrow> pkt t p = pkt s p)"
proof -
  have inv: "queue_inv (rx_queue (conn s c))" using assms(1,2) acct_queue_inv(5) [of M s c] by (simp add: stack_ok_def)
  have "\<not> (csp_queue_size (rx_queue (conn s c)) = 0 \<and> read_timeout (conn s c) timeout \<noteq> 0)"
    using assms(4) ring.qlen_eq [OF inv] by (auto simp: read_timeout_def)
  then have run: "csp_read w (Some c) timeout s = (case csp_queue_dequeue (rx_queue (conn s c)) of
                 (None, _) \<Rightarrow> (None, s)
               | (Some packet, q) \<Rightarrow>
                   let s = upd_conn c (\<lambda>k. k\<lparr>rx_queue := q\<rparr>) s
                   in (packet,
                       if flags (cidin (conn s c)) AND CSP_FRDP \<noteq> 0 \<and> delayed_acks (rdp (conn s c)) \<noteq> 0
                       then snd (csp_rdp_check_ack c s) else s))"
    using assms(3) by (auto simp: csp_read_def Let_def)
  obtain x q where dq: "csp_queue_dequeue (rx_queue (conn s c)) = (x, q)" by (rule prod.exhaust)
  show ?thesis
  proof (cases x)
    case None
    then have "queue_list (rx_queue (conn s c)) = []" using deq_cases [OF inv dq] by auto
    then show ?thesis using assms(5) run dq None by simp
  next
    case (Some y)
    define v where "v = upd_conn c (\<lambda>k. k\<lparr>rx_queue := q\<rparr>) s"
    let ?M = "case y of None \<Rightarrow> M | Some p \<Rightarrow> add_mset p M"
    have v: "stack_ok ?M v" and qs: "queue_list (rx_queue (conn s c)) = y # queue_list q"
      using conn_dequeue_ok [OF assms(1,2) dq [unfolded Some]] by (simp_all add: v_def)
    have r: "r = y" "t = v \<or> t = snd (csp_rdp_check_ack c v)"
      using assms(5) run dq Some by (auto simp: Let_def v_def [symmetric])
    have cv: "rx_queue (conn v c) = q" "conn v c \<in> set (conns v)" "c < length (conns v)"
      using assms(2) by (simp_all add: v_def conn_upd) (simp_all add: conn_def upd_conn_def set_update_memI)
    have fx: "p \<in># fixed_pkts ?M v" if "Some p \<in> set (y # queue_list q)" for p
    proof (cases "y = Some p")
      case False
      then have "p \<in># conn_owned (conn v c)" using that cv(1) by (force simp: conn_owned_def List.map_filter_def)
      then show ?thesis using cv(2) by (auto simp: fixed_pkts_def)
    qed (simp add: fixed_pkts_def)
    have pv: "pkt v p = pkt s p" for p by (simp add: v_def)
    have "stack_ok ?M t \<and> queue_list (rx_queue (conn t c)) = queue_list q \<and> (\<forall>p. Some p \<in> set (y # queue_list q) \<longrightarrow> pkt t p = pkt s p)"
      using r(2)
    proof
      assume t: "t = snd (csp_rdp_check_ack c v)"
      note ca = check_ack_ok [OF v t]
      have "rx_queue (conn t c) = q" using ca(4) cv by (auto simp: conn_def)
      then show ?thesis using ca(1,3) fx pv by auto
    qed (use v cv pv in auto)
    then show ?thesis using r(1) qs by simp
  qed
qed


definition read_ex :: csp_state where
  "read_ex = snd (csp_conn_enqueue_packet 0 (Some 0) rdp_node_ex)"

lemma read_ex_facts:
  "stack_ok {#} read_ex" "conns read_ex = [conn read_ex 0]" "cstate (conn read_ex 0) = CONN_OPEN"
  "queue_list (rx_queue (conn read_ex 0)) = [Some 0]"
proof -
  obtain e t where en: "csp_conn_enqueue_packet 0 (Some 0) rdp_node_ex = (e, t)" by (rule prod.exhaust)
  have "csp_queue_free (rx_queue (conn rdp_node_ex 0)) = 4" "queue_list (rx_queue (conn rdp_node_ex 0)) = []"
    by (simp_all add: conn_ex_def csp_queue_free_def pthread_queue_free_def queue_list_def)
  then obtain q where t: "acct {#} t" "t = upd_conn 0 (\<lambda>k. k\<lparr>rx_queue := q\<rparr>) rdp_node_ex" "queue_list q = [Some 0]"
    using conn_enqueue_spec [OF _ _ en, of "{#}"] rdp_node_ex_acct by auto
  have "cstate (conn read_ex 0) = CONN_OPEN \<and> conns read_ex = [conn read_ex 0] \<and> queue_list (rx_queue (conn read_ex 0)) = [Some 0] \<and>
      stack_ok {#} read_ex"
    using t by (simp add: read_ex_def en stack_ok_def) (simp add: conn_def upd_conn_def conn_ex_def)
  then show "stack_ok {#} read_ex" "conns read_ex = [conn read_ex 0]" "cstate (conn read_ex 0) = CONN_OPEN"
    "queue_list (rx_queue (conn read_ex 0)) = [Some 0]" by blast+
qed

lemma set_pkt_twice: "set_pkt h x (set_pkt h y s) = set_pkt h x s"
  by (cases "h < length (bufs s)") (simp_all add: set_pkt_def list_update_beyond)

text \<open>Replying. \<open>csp_sendto_reply\<close> sends the reply packet, whose buffer it takes over, to the node and port
  the request came from, from the port it was sent to, with its priority; the source address is the one the
  request was sent to unless that was the broadcast address. The flags are those the options ask for, and those of
  the request only with the option for it. The reply may be the request's own buffer.\<close>

theorem csp_sendto_reply_addresses:
  assumes "stack_ok (add_mset r M) s" "opts AND CSP_SO_RDPREQ = 0" "i = pid (pkt s q)"
    and "j = \<lparr>pri = pri i,
      flags = (if opts AND CSP_SO_SAME = 0 then 0 else flags i) OR (if opts AND CSP_SO_HMACREQ = 0 then 0 else CSP_FHMAC) OR
        (if opts AND CSP_SO_CRC32REQ = 0 then 0 else CSP_FCRC32),
      src = (if dst i = csp_id_get_max_nodeid (conf_version s) then 0 else dst i), dst = src i,
      dport = sport i, sport = dport i\<rparr>"
  shows "csp_sendto_reply (Some q) r opts s = snd (csp_send_direct j (Some r) None (set_pkt r ((pkt s r)\<lparr>pid := j\<rparr>) s)) \<and>
    stack_ok M (csp_sendto_reply (Some q) r opts s)"
proof -
  have r: "r < length (bufs s)" "packet_wf (pkt s r)" using held_allocated [of "add_mset r M" s r] assms(1) by (simp_all add: stack_ok_def)
  define s1 where "s1 = (if opts AND CSP_SO_SAME \<noteq> 0
     then set_pkt r ((pkt s r)\<lparr>pid := (pid (pkt s r))\<lparr>flags := flags i\<rparr>\<rparr>) s else s)"
  have s1: "pid (pkt s1 q) = i" "r < length (bufs s1)" "conf_version s1 = conf_version s"
    "flags (pid (pkt s1 r)) = (if opts AND CSP_SO_SAME \<noteq> 0 then flags i else flags (pid (pkt s r)))"
    "(pkt s1 r)\<lparr>pid := x\<rparr> = (pkt s r)\<lparr>pid := x\<rparr>" "set_pkt r y s1 = set_pkt r y s" for x y
    using r(1) assms(3) by (cases "q = r"; simp add: s1_def set_pkt_twice; simp add: set_pkt_def)+
  define a where "a = (if dst i \<noteq> csp_id_get_max_nodeid (conf_version s) then dst i else 0)"
  define s2 where "s2 = set_pkt r ((pkt s1 r)\<lparr>pid := (pid (pkt s1 r))\<lparr>src := a\<rparr>\<rparr>) s1"
  have s2: "pri (pid (pkt s2 q)) = pri i" "sport (pid (pkt s2 q)) = sport i" "dport (pid (pkt s2 q)) = dport i" "r < length (bufs s2)"
    "pkt s2 r = (pkt s1 r)\<lparr>pid := (pid (pkt s1 r))\<lparr>src := a\<rparr>\<rparr>"
    using s1(1,2) by (cases "q = r"; simp add: s2_def; simp add: set_pkt_def)+
  have s2_set: "set_pkt r y s2 = set_pkt r y s" for y unfolding s2_def set_pkt_twice by (rule s1(6))
  have id: "sendto_id (pri i) (src i) (sport i) (dport i) opts (pid (pkt s2 r)) = j"
    unfolding s2(5) by (simp add: sendto_id_def Let_def s1(4) assms(4) a_def or.assoc)
  note id' = id [unfolded s2(5), simplified]
  have "csp_sendto_reply (Some q) r opts s = csp_sendto (pri i) (src i) (sport i) (dport i) opts r s2"
    unfolding csp_sendto_reply_def Let_def option.case assms(3) [symmetric] s1_def [symmetric] s1(1,3) a_def [symmetric] s2_def [symmetric] s2(1-3) ..
  also have "\<dots> = snd (csp_send_direct j (Some r) None (set_pkt r ((pkt s r)\<lparr>pid := j\<rparr>) s))"
    using assms(2) r(1) by (simp add: csp_sendto_def Let_def id' s2(5) s2_set s1(5))
  finally have eq: "csp_sendto_reply (Some q) r opts s = \<dots>" .
  have "packet_wf ((pkt s r)\<lparr>pid := j\<rparr>)" using r(2) by (simp add: packet_wf_def)
  from send_direct_ok(1) [OF stack_ok_set_pkt(1) [OF assms(1) this] eq] show ?thesis using eq by simp
qed

section \<open>Readers of a queue\<close>

text \<open>What a reader that does not have to wait gets, and what it leaves.\<close>

lemma read_next:
  assumes "stack_ok M s" "c < length (conns s)" "cstate (conn s c) = CONN_OPEN"
    and "queue_list (rx_queue (conn s c)) = Some h # xs" "csp_read w (Some c) timeout s = (r, t)"
  shows "r = Some h" "stack_ok (add_mset h M) t" "queue_list (rx_queue (conn t c)) = xs" "\<And>p. Some p \<in> set (Some h # xs) \<Longrightarrow> pkt t p = pkt s p"
    "cstate (conn t c) = CONN_OPEN" "c < length (conns t)"
proof -
  note rd = csp_read_in_order [OF assms(1-3) _ assms(5)]
  show "r = Some h" "stack_ok (add_mset h M) t" "queue_list (rx_queue (conn t c)) = xs"
    and pk: "\<And>p. Some p \<in> set (Some h # xs) \<Longrightarrow> pkt t p = pkt s p"
    using rd assms(4) by auto
  have inv: "queue_inv (rx_queue (conn s c))" using assms(1,2) acct_queue_inv(5) [of M s c] by (simp add: stack_ok_def)
  then have "csp_queue_size (rx_queue (conn s c)) \<noteq> 0" using ring.qlen_eq [OF inv] assms(4) by simp
  moreover obtain x q where dq: "csp_queue_dequeue (rx_queue (conn s c)) = (x, q)" by (rule prod.exhaust)
  moreover have x: "x = Some (Some h)" using deq_cases [OF inv dq] assms(4) by auto
  define v where "v = upd_conn c (\<lambda>k. k\<lparr>rx_queue := q\<rparr>) s"
  ultimately have t: "t = v \<or> t = snd (csp_rdp_check_ack c v)"
    using assms(3,5) x by (auto simp: csp_read_def Let_def v_def)
  have v: "cstate (conn v c) = CONN_OPEN" "c < length (conns v)" "stack_ok (add_mset h M) v"
    using assms(2,3) conn_dequeue_ok(1) [OF assms(1,2) dq [unfolded x]] by (simp_all add: v_def conn_upd)
  have "(cstate (conn t c) = CONN_OPEN) \<and> c < length (conns t)"
    using t
  proof
    assume t: "t = snd (csp_rdp_check_ack c v)"
    then show ?thesis using check_ack_ok(4) [OF v(3) t] v(1,2) by (auto simp: conn_def ack_recorded_def)
  qed (use v in simp)
  then show "cstate (conn t c) = CONN_OPEN" "c < length (conns t)" by blast+
qed

lemma held_not_queued:
  assumes "stack_ok (add_mset h M) s" "c < length (conns s)"
  shows "Some h \<notin> set (queue_list (rx_queue (conn s c)))"
proof
  assume "Some h \<in> set (queue_list (rx_queue (conn s c)))"
  then have "h \<in># conn_owned (conn s c)" by (force simp: conn_owned_def List.map_filter_def)
  moreover have "conn s c \<in> set (conns s)" using assms(2) by (simp add: conn_def)
  ultimately have "h \<in># owned s" by (auto simp: owned_def)
  then have "0 < count (owned s) h" by simp
  moreover have "owned s + add_mset h M = mset_set (allocated s)" using assms(1) by (simp add: stack_ok_def acct_def)
  from arg_cong [OF this, of "\<lambda>N. count N h"] have "count (owned s) h + Suc (count M h) \<le> 1" by (simp add: count_mset_set')
  ultimately show False by linarith
qed

end
