(* ===== verification/Csp_Route.thy ===== *)
theory Csp_Route
  imports Csp_Io
begin

text \<open>
  The router, \<open>src/csp_route.c\<close>: one step takes a packet from the input queue, filters duplicates, and forwards it or
  delivers it to a callback, a socket or a connection after the security check. The bridge between two interfaces,
  \<open>src/csp_bridge.c\<close>, and the start of the stack, \<open>src/csp_init.c\<close>, are here too.

  The callbacks bound to ports are code of the application, an argument of the step. So is what other tasks do
  while the step waits for input.
\<close>

section \<open>Security check\<close>

text \<open>The build has both protections; \<open>csp_route_check_options\<close> drops packets with flags of one that it lacks.\<close>

definition CSP_USE_HMAC :: bool where "CSP_USE_HMAC = True"
definition CSP_USE_RDP :: bool where "CSP_USE_RDP = True"

definition rx_error_inc :: "nat \<Rightarrow> csp_state \<Rightarrow> csp_state" where
  "rx_error_inc i = upd_iface i (\<lambda>f. f\<lparr>rx_error := rx_error f + 1\<rparr>)"

definition autherr_inc :: "nat \<Rightarrow> csp_state \<Rightarrow> csp_state" where
  "autherr_inc i = upd_iface i (\<lambda>f. f\<lparr>autherr := autherr f + 1\<rparr>)"

definition CSP_ERR_NOTSUP :: int where "CSP_ERR_NOTSUP = -5"

definition csp_route_check_options :: "nat \<Rightarrow> nat \<Rightarrow> csp_state \<Rightarrow> int \<times> csp_state" where
  "csp_route_check_options i packet s =
     (if \<not> CSP_USE_HMAC \<and> flags (pid (pkt s packet)) AND CSP_FHMAC \<noteq> 0
      then (CSP_ERR_NOTSUP, autherr_inc i (set_errno CSP_DBG_ERR_UNSUPPORTED s))
      else if \<not> CSP_USE_RDP \<and> flags (pid (pkt s packet)) AND CSP_FRDP \<noteq> 0
      then (CSP_ERR_NOTSUP, rx_error_inc i (set_errno CSP_DBG_ERR_UNSUPPORTED s))
      else (CSP_ERR_NONE, s))"

definition security_crc32 :: "u32 \<Rightarrow> nat \<Rightarrow> nat \<Rightarrow> csp_state \<Rightarrow> int \<times> csp_state" where
  "security_crc32 opts i packet s =
     (if flags (pid (pkt s packet)) AND CSP_FCRC32 \<noteq> 0
      then (case csp_crc32_verify (conf_version s) (pkt s packet) of
              (e, p) \<Rightarrow>
                let s = set_pkt packet p s
                in if e \<noteq> CSP_ERR_NONE then (CSP_ERR_CRC32, rx_error_inc i s) else (CSP_ERR_NONE, s))
      else if opts AND CSP_SO_CRC32REQ \<noteq> 0 then (CSP_ERR_CRC32, rx_error_inc i s)
      else (CSP_ERR_NONE, s))"

definition security_hmac :: "u32 \<Rightarrow> nat \<Rightarrow> nat \<Rightarrow> csp_state \<Rightarrow> int \<times> csp_state" where
  "security_hmac opts i packet s =
     (if flags (pid (pkt s packet)) AND CSP_FHMAC \<noteq> 0
      then (case csp_hmac_verify (stack_key s) False (pkt s packet) of
              (e, p) \<Rightarrow>
                let s = set_pkt packet p s
                in if e \<noteq> CSP_ERR_NONE then (CSP_ERR_HMAC, autherr_inc i s) else (CSP_ERR_NONE, s))
      else if opts AND CSP_SO_HMACREQ \<noteq> 0 then (CSP_ERR_HMAC, autherr_inc i s)
      else (CSP_ERR_NONE, s))"

definition csp_route_security_check :: "u32 \<Rightarrow> nat \<Rightarrow> nat \<Rightarrow> csp_state \<Rightarrow> int \<times> csp_state" where
  "csp_route_security_check opts i packet s =
     (case security_crc32 opts i packet s of
        (e, s) \<Rightarrow>
          if e \<noteq> CSP_ERR_NONE then (e, s)
          else case security_hmac opts i packet s of
            (e, s) \<Rightarrow>
              if e \<noteq> CSP_ERR_NONE then (e, s)
              else if flags (pid (pkt s packet)) AND CSP_FRDP = 0 \<and> opts AND CSP_SO_RDPREQ \<noteq> 0
              then (CSP_ERR_INVAL, rx_error_inc i s)
              else (CSP_ERR_NONE, s))"

section \<open>Local delivery\<close>

text \<open>The end of \<open>csp_route_work\<close>: the packet goes to the connection. A new connection is posted to its
  socket with its first packet.\<close>

definition route_deliver :: "nat \<Rightarrow> nat \<Rightarrow> csp_state \<Rightarrow> csp_state" where
  "route_deliver c packet s =
     (if flags (pid (pkt s packet)) AND CSP_FRDP \<noteq> 0
      then (case csp_rdp_new_packet c packet s of
              (close_connection, s) \<Rightarrow> if close_connection then snd (csp_close (Some c) s) else s)
      else case csp_conn_enqueue_packet c (Some packet) s of
        (e, s) \<Rightarrow>
          if e < 0 then csp_buffer_free (Some packet) (conn_ovf_inc s)
          else case dest_socket (conn s c) of None \<Rightarrow> s
            | Some k \<Rightarrow>
                (case sock_enqueue k (Sock_conn c) s of
                   (e, s) \<Rightarrow>
                     if e \<noteq> CSP_QUEUE_OK then snd (csp_close (Some c) (conn_ovf_inc s))
                     else upd_conn c (\<lambda>k. k\<lparr>dest_socket := None\<rparr>) s))"

text \<open>The identifier of the answers on a new incoming connection.\<close>

definition route_idout :: "csp_id \<Rightarrow> csp_id" where
  "route_idout i = \<lparr>pri = pri i, flags = flags i, src = dst i, dst = src i, dport = sport i, sport = dport i\<rparr>"

text \<open>A packet to an existing connection or on a new one.\<close>

definition route_conn :: "nat \<Rightarrow> nat \<Rightarrow> nat option \<Rightarrow> csp_state \<Rightarrow> csp_state" where
  "route_conn i packet socket s =
     (case csp_conn_find_existing s (pid (pkt s packet)) of
        Some c \<Rightarrow>
          (case csp_route_security_check (copts (conn s c)) i packet s of
             (e, s) \<Rightarrow> if e < 0 then csp_buffer_free (Some packet) s else route_deliver c packet s)
      | None \<Rightarrow>
          (case socket of None \<Rightarrow> csp_buffer_free (Some packet) s
           | Some k \<Rightarrow>
               (case csp_route_security_check (sock_opts (sockets s ! k)) i packet s of
                  (e, s) \<Rightarrow>
                    if e < 0 then csp_buffer_free (Some packet) s
                    else case csp_conn_new (pid (pkt s packet)) (route_idout (pid (pkt s packet))) CONN_SERVER s of
                      (None, s) \<Rightarrow> csp_buffer_free (Some packet) (conn_out_inc s)
                    | (Some c, s) \<Rightarrow>
                        route_deliver c packet
                          (upd_conn c (\<lambda>x. x\<lparr>dest_socket := Some k, copts := sock_opts (sockets s ! k)\<rparr>) s))))"

definition route_local :: "(nat \<Rightarrow> nat \<Rightarrow> csp_state \<Rightarrow> csp_state) \<Rightarrow> nat \<Rightarrow> nat \<Rightarrow> csp_state \<Rightarrow> csp_state" where
  "route_local callbacks i packet s =
     (case csp_route_check_options i packet s of
        (e, s) \<Rightarrow>
          if e \<noteq> CSP_ERR_NONE then csp_buffer_free (Some packet) s
          else
            let port = unat (dport (pid (pkt s packet)))
            in case csp_port_get_callback s port of
                 Some f \<Rightarrow>
                   (case csp_route_security_check CSP_SO_CRC32REQ i packet s of
                      (e, s) \<Rightarrow> if e < 0 then csp_buffer_free (Some packet) s else callbacks f packet s)
               | None \<Rightarrow>
                   let socket = csp_port_get_socket s port
                   in case socket of
                        Some k \<Rightarrow>
                          if sock_opts (sockets s ! k) AND CSP_SO_CONN_LESS \<noteq> 0
                          then (case csp_route_security_check (sock_opts (sockets s ! k)) i packet s of
                                  (e, s) \<Rightarrow>
                                    if e < 0 then csp_buffer_free (Some packet) s
                                    else case sock_enqueue k (Sock_packet packet) s of
                                      (e, s) \<Rightarrow>
                                        if e \<noteq> CSP_QUEUE_OK then csp_buffer_free (Some packet) (conn_ovf_inc s) else s)
                          else route_conn i packet socket s
                      | None \<Rightarrow> route_conn i packet socket s)"

section \<open>The router step\<close>

definition is_to_me :: "nat \<Rightarrow> u16 \<Rightarrow> csp_state \<Rightarrow> bool" where
  "is_to_me i addr s \<longleftrightarrow> csp_iflist_get_by_addr (iflist s) addr \<noteq> None \<or>
     csp_id_is_broadcast (conf_version s) addr (if_addr (iface s i)) (if_netmask (iface s i))"

definition dedup_applies :: "u8 \<Rightarrow> bool \<Rightarrow> bool" where
  "dedup_applies mode to_me \<longleftrightarrow> mode = CSP_DEDUP_ALL \<or> (to_me \<and> mode = CSP_DEDUP_INCOMING) \<or> (\<not> to_me \<and> mode = CSP_DEDUP_FWD)"

text \<open>\<open>csp_dedup_is_duplicate\<close> on a packet of the stack.\<close>

definition stack_is_duplicate :: "nat \<Rightarrow> csp_state \<Rightarrow> bool \<times> csp_state" where
  "stack_is_duplicate packet s =
     (case csp_dedup_is_duplicate (conf_version s) (now s) (pkt s packet) (dedup s) of
        (dup, p, d) \<Rightarrow> (dup, (set_pkt packet p s)\<lparr>dedup := d\<rparr>))"

text \<open>The step behind the input queue, on a packet from interface \<open>i\<close>.\<close>

definition route_packet :: "(nat \<Rightarrow> nat \<Rightarrow> csp_state \<Rightarrow> csp_state) \<Rightarrow> nat \<Rightarrow> nat \<Rightarrow> csp_state \<Rightarrow> csp_state" where
  "route_packet callbacks i packet s =
     (let s = upd_iface i (\<lambda>f. f\<lparr>if_rx := if_rx f + 1, rxbytes := rxbytes f + ucast (plength (pkt s packet))\<rparr>) s;
          to_me = is_to_me i (dst (pid (pkt s packet))) s;
          (dup, s) = (if dedup_applies (conf_dedup s) to_me then stack_is_duplicate packet s else (False, s))
      in if dup then csp_buffer_free (Some packet) (upd_iface i (\<lambda>f. f\<lparr>if_drop := if_drop f + 1\<rparr>) s)
         else
           let s = csp_promisc_add packet s
           in if \<not> to_me then snd (csp_send_direct (pid (pkt s packet)) (Some packet) (Some i) s)
              else route_local callbacks i packet s)"

definition csp_route_work :: "(csp_state \<Rightarrow> csp_state) \<Rightarrow> (nat \<Rightarrow> nat \<Rightarrow> csp_state \<Rightarrow> csp_state) \<Rightarrow> csp_state \<Rightarrow> int \<times> csp_state" where
  "csp_route_work w callbacks s =
     (let s = csp_conn_check_timeouts s;
          s = (if csp_queue_size (qfifo s) = 0 then w s else s)
      in case csp_qfifo_read s of
           (None, s) \<Rightarrow> (CSP_ERR_TIMEDOUT, s)
         | (Some (ifc, packet), s) \<Rightarrow>
             (case packet of None \<Rightarrow> (CSP_ERR_TIMEDOUT, s)
              | Some p \<Rightarrow>
                  (case ifc of
                     None \<Rightarrow> (CSP_ERR_NONE, s\<lparr>fault := True\<rparr>)
                   | Some i \<Rightarrow> (CSP_ERR_NONE, route_packet callbacks i p s))))"

section \<open>Bridge\<close>

text \<open>The interfaces \<open>bif_a\<close> and \<open>bif_b\<close> are arguments; \<open>csp_bridge_set_interfaces\<close> stores them.\<close>

definition csp_bridge_work :: "nat \<Rightarrow> nat \<Rightarrow> csp_state \<Rightarrow> csp_state" where
  "csp_bridge_work bif_a bif_b s =
     (case csp_qfifo_read s of
        (None, s) \<Rightarrow> s
      | (Some (ifc, packet), s) \<Rightarrow>
          (case packet of None \<Rightarrow> s
           | Some p \<Rightarrow>
               (case stack_is_duplicate p s of
                  (True, s) \<Rightarrow> csp_buffer_free (Some p) s
                | (False, s) \<Rightarrow>
                    let s = csp_promisc_add p s;
                        destif = (if ifc = Some bif_a then bif_b else bif_a)
                    in csp_send_direct_iface (pid (pkt s p)) p destif CSP_NO_VIA_ADDRESS False s)))"

section \<open>The invariant of a node\<close>

definition node_ok :: "nat multiset \<Rightarrow> csp_state \<Rightarrow> bool" where
  "node_ok M s \<longleftrightarrow> stack_ok M s \<and> conn_wf s \<and> 0 < length (conns s)"

definition node_frame :: "csp_state \<Rightarrow> csp_state \<Rightarrow> bool" where
  "node_frame s t \<longleftrightarrow> length (conns t) = length (conns s)"

lemma node_frame_refl [simp]: "node_frame s s"
  by (simp add: node_frame_def)

lemma node_frame_trans: "node_frame s t \<Longrightarrow> node_frame t u \<Longrightarrow> node_frame s u"
  by (simp add: node_frame_def)

lemma node_frame_rdp: "rdp_frame c s t \<Longrightarrow> node_frame s t"
  by (simp add: node_frame_def rdp_frame_def same_size_def)

lemma node_frame_net: "net_frame s t \<Longrightarrow> node_frame s t"
  by (simp add: node_frame_def net_frame_def same_size_def)

lemma node_okI:
  assumes "node_ok M s" "stack_ok N t" "conn_wf t" "node_frame s t"
  shows "node_ok N t"
  using assms by (simp add: node_ok_def node_frame_def same_size_def)

lemma node_okD: "node_ok M s \<Longrightarrow> stack_ok M s \<and> conn_wf s \<and> acct M s \<and> rx_sized s \<and> 0 < length (conns s)"
  by (simp add: node_ok_def stack_ok_def)

text \<open>Counters and other fields outside the pool, the queues, the connections and the ports.\<close>

lemma node_ok_fields [simp]:
  "node_ok M (upd_iface i g s) = node_ok M s" "node_ok M (set_errno e s) = node_ok M s" "node_ok M (conn_ovf_inc s) = node_ok M s"
  "node_ok M (conn_out_inc s) = node_ok M s" "node_ok M (s\<lparr>dedup := d\<rparr>) = node_ok M s" "node_ok M (s\<lparr>fault := b\<rparr>) = node_ok M s"
  by (simp_all add: node_ok_def stack_ok_def pool_simps)
    (simp_all add: rx_sized_def upd_iface_def set_errno_def conn_ovf_inc_def conn_out_inc_def upd_dbg_def pkt_def
      conn_wf_def conn_def dest_ok_def port_wf_def)

lemma node_ok_set_pkt:
  assumes "node_ok (add_mset p M) s" "packet_wf x"
  shows "node_ok (add_mset p M) (set_pkt p x s)"
  using node_okD [OF assms(1)] stack_ok_set_pkt [of p M s x] assms
  by (intro node_okI [OF assms(1)]) (auto simp: pool_simps node_frame_def same_size_def)

lemma node_ok_free:
  assumes "node_ok (add_mset p M) s"
  shows "node_ok M (csp_buffer_free (Some p) s)"
proof -
  have "stack_ok (add_mset p M) s" "conn_wf s" "acct (add_mset p M) s" using node_okD [OF assms] by simp_all
  then show ?thesis
    using stack_ok_free [of p M s] by (intro node_okI [OF assms]) (auto simp: pool_simps node_frame_def same_size_def)
qed

lemma verify_wf:
  assumes "packet_wf p"
  shows "packet_wf (snd (csp_crc32_verify v p))" "pid (snd (csp_crc32_verify v p)) = pid p"
    "packet_wf (snd (csp_hmac_verify key False p))" "pid (snd (csp_hmac_verify key False p)) = pid p"
proof -
  have pre: "packet_wf (csp_id_prepend v p)" "plength (csp_id_prepend v p) = plength p" "pid (csp_id_prepend v p) = pid p"
    using packet_wf_prepend [OF assms] by (simp_all add: csp_id_prepend_def csp_id1_prepend_def csp_id2_prepend_def Let_def)
  have shrink: "packet_wf (q\<lparr>plength := plength q - 4\<rparr>)" if "packet_wf q" "\<not> unat (plength q) < 4" for q
  proof -
    have "unat (plength q - 4) = unat (plength q) - 4" using that(2) by (simp add: unat_sub word_le_nat_alt)
    then show ?thesis using that by (auto simp: packet_wf_def)
  qed
  show "packet_wf (snd (csp_crc32_verify v p))" "pid (snd (csp_crc32_verify v p)) = pid p"
    using pre assms shrink [of "csp_id_prepend v p"] by (simp_all add: csp_crc32_verify_def Let_def)
  show "packet_wf (snd (csp_hmac_verify key False p))" "pid (snd (csp_hmac_verify key False p)) = pid p"
    using assms shrink [OF assms] by (simp_all add: csp_hmac_verify_def Let_def CSP_HMAC_LENGTH_def)
qed


lemma pkt_upd_iface [simp]: "pkt (upd_iface i g s) h = pkt s h"
  by (simp add: pkt_def upd_iface_def)

lemma security_ok:
  assumes "node_ok (add_mset p M) s" "csp_route_security_check opts i p s = (e, t)"
  shows "node_ok (add_mset p M) t \<and> net_frame s t \<and> pid (pkt t p) = pid (pkt s p) \<and> (\<forall>h. h \<noteq> p \<longrightarrow> pkt t h = pkt s h) \<and>
    (e = CSP_ERR_NONE \<or> e < 0)"
proof -
  define R where "R = (\<lambda>u. node_ok (add_mset p M) u \<and> net_frame s u \<and> pid (pkt u p) = pid (pkt s p) \<and> (\<forall>h. h \<noteq> p \<longrightarrow> pkt u h = pkt s h))"
  have held: "packet_wf (pkt u p)" "p < length (bufs u)" if "R u" for u
    using held_allocated [of "add_mset p M" u p] node_okD that by (auto simp: R_def)
  have inc: "R (rx_error_inc i u)" "R (autherr_inc i u)" if "R u" for u
    using that net_frame_trans [OF _ net_frame_upd_iface]
    by (auto simp: R_def rx_error_inc_def autherr_inc_def if_static_def pkt_upd_iface)
  have set: "R (set_pkt p x u)" if "R u" "packet_wf x" "pid x = pid (pkt u p)" for u x
    using that node_ok_set_pkt [of p M u x] net_frame_trans [OF _ net_frame_set_pkt] held(2) [OF that(1)] by (auto simp: R_def)
  have crc: "R (snd (security_crc32 opts i p u)) \<and> (fst (security_crc32 opts i p u) = CSP_ERR_NONE \<or> fst (security_crc32 opts i p u) < 0)"
    if "R u" for u
    using that inc set verify_wf(1,2) [OF held(1) [OF that]]
    by (auto simp: security_crc32_def case_prod_beta Let_def csp_err_defs)
  have hmac: "R (snd (security_hmac opts i p u)) \<and> (fst (security_hmac opts i p u) = CSP_ERR_NONE \<or> fst (security_hmac opts i p u) < 0)"
    if "R u" for u
    using that inc set verify_wf(3,4) [OF held(1) [OF that]]
    by (auto simp: security_hmac_def case_prod_beta Let_def csp_err_defs)
  have "R s" using assms(1) by (simp add: R_def)
  note c = crc [OF this]
  note h = hmac [OF conjunct1 [OF c]]
  have "R t \<and> (e = CSP_ERR_NONE \<or> e < 0)"
    using assms(2) c h inc [OF conjunct1 [OF h]] by (auto simp: csp_route_security_check_def case_prod_beta csp_err_defs split: if_splits)
  then show ?thesis by (simp add: R_def)
qed

lemma conn_close_ok:
  assumes "node_ok M s" "c < length (conns s)"
  shows "node_ok M (snd (csp_close (Some c) s))"
proof -
  have a: "acct M s" "rx_sized s" "conn_wf s" using node_okD [OF assms(1)] by simp_all
  obtain e t where cl: "csp_conn_close (Some c) CSP_RDP_CLOSED_BY_USERSPACE s = (e, t)" by (rule prod.exhaust)
  note sp = conn_close_spec [OF a(1,2) assms(2) cl]
  have "conn_wf t" using conn_wf_close(4) [OF a(3), of "Some c"] cl by (simp add: csp_close_def)
  then show ?thesis using sp cl by (intro node_okI [OF assms(1)]) (auto simp: csp_close_def stack_ok_def intro: node_frame_rdp)
qed

lemma conn_wf_dest: "conn_wf s \<Longrightarrow> c < length (conns s) \<Longrightarrow> cstate (conn s c) = CONN_OPEN \<Longrightarrow> dest_ok c s"
  by (simp add: conn_wf_def)

lemma sock_enqueue_ok:
  assumes "node_ok (case x of Sock_packet p \<Rightarrow> add_mset p M | Sock_conn _ \<Rightarrow> M) s" "k < length (sockets s)" "sock_enqueue k x s = (e, t)"
  shows "node_ok (if e = CSP_QUEUE_OK then M else (case x of Sock_packet p \<Rightarrow> add_mset p M | Sock_conn _ \<Rightarrow> M)) t"
    "conns t = conns s" "node_frame s t"
proof -
  have a: "acct (case x of Sock_packet p \<Rightarrow> add_mset p M | Sock_conn _ \<Rightarrow> M) s" "rx_sized s" "conn_wf s"
    using node_okD [OF assms(1)] by simp_all
  note sp = sock_enqueue_spec [OF a(1) assms(2,3)]
  have "rx_sized t" using a(2) sp(3,6) by (simp add: rx_sized_def)
  moreover have "conn_pool t = conn_pool s" using sp(2) sp(7) [of 0] by (simp add: conn_pool_def rdp_frame_def)
  then have "conn_wf t" using conn_wf_cong a(3) by blast
  moreover show nf: "node_frame s t" by (rule node_frame_rdp [OF sp(7) [of 0]])
  ultimately show "node_ok (if e = CSP_QUEUE_OK then M else (case x of Sock_packet p \<Rightarrow> add_mset p M | Sock_conn _ \<Rightarrow> M)) t"
    using sp(1) by (intro node_okI [OF assms(1)]) (auto simp: stack_ok_def)
  show "conns t = conns s" by (rule sp(2))
qed


text \<open>At most the one buffer a SYN/ACK loses is missing afterwards.\<close>

definition ok_but_one :: "nat multiset \<Rightarrow> csp_state \<Rightarrow> bool" where
  "ok_but_one M s \<longleftrightarrow> (\<exists>N. size N \<le> 1 \<and> node_ok (N + M) s)"

lemma ok_but_oneI: "node_ok M s \<Longrightarrow> ok_but_one M s"
  unfolding ok_but_one_def by (intro exI [of _ "{#}"]) simp

lemma conns_ovf [simp]: "conns (conn_ovf_inc s) = conns s"
  by (simp add: conn_ovf_inc_def upd_dbg_def)

lemma deliver_ok:
  assumes "node_ok (add_mset p M) s" "c < length (conns s)" "cstate (conn s c) = CONN_OPEN"
  shows "ok_but_one M (route_deliver c p s)"
proof (cases "flags (pid (pkt s p)) AND CSP_FRDP \<noteq> 0")
  case True
  have a: "acct (add_mset p M) s" "rx_sized s" "conn_wf s" using node_okD [OF assms(1)] by simp_all
  obtain b t where np: "csp_rdp_new_packet c p s = (b, t)" by (rule prod.exhaust)
  have d: "dest_ok c s" by (rule conn_wf_dest [OF a(3) assms(2,3)])
  note sp = new_packet_spec [OF a(1,2) assms(2) d np]
  obtain N where N: "lost N s" "acct (N + M) t" using sp by blast
  have "conn_wf t" using conn_wf_new_packet [OF a(3), of c p] np by simp
  then have t: "node_ok (N + M) t"
    using sp N(2) by (intro node_okI [OF assms(1)]) (auto simp: stack_ok_def intro: node_frame_rdp)
  have "c < length (conns t)" using sp assms(2) by (simp add: rdp_frame_def)
  then have "node_ok (N + M) (route_deliver c p s)"
    using True t conn_close_ok [OF t] np by (simp add: route_deliver_def)
  moreover have "size N \<le> 1" using N(1) by (auto simp: lost_def)
  ultimately show ?thesis by (auto simp: ok_but_one_def)
next
  case False
  have a: "acct (add_mset p M) s" "rx_sized s" "conn_wf s" using node_okD [OF assms(1)] by simp_all
  obtain e u where en: "csp_conn_enqueue_packet c (Some p) s = (e, u)" by (rule prod.exhaust)
  have "acct (case Some p of None \<Rightarrow> M | Some p \<Rightarrow> add_mset p M) s" using a(1) by simp
  note sp = conn_enqueue_spec [OF this assms(2) en]
  have wf: "conn_wf u" using conn_wf_receive(1) [OF a(3), of c "Some p"] en by simp
  show ?thesis
  proof (cases "e = CSP_ERR_NONE")
    case True
    then obtain q where u: "acct M u" "u = upd_conn c (\<lambda>k. k\<lparr>rx_queue := q\<rparr>) s" using sp by (auto simp: csp_err_defs)
    have ok: "node_ok M u" using u a(2) wf
      by (intro node_okI [OF assms(1)]) (auto simp: stack_ok_def intro: node_frame_rdp [OF rdp_frame_fields(1)])
    have c: "c < length (conns u)" "dest_socket (conn u c) = dest_socket (conn s c)" "sockets u = sockets s"
      using assms(2) by (simp_all add: u(2) conn_upd)
    show ?thesis
    proof (cases "dest_socket (conn u c)")
      case None
      then show ?thesis using False True en ok by (simp add: route_deliver_def csp_err_defs ok_but_oneI)
    next
      case (Some k)
      have k: "k < length (sockets u)" using conn_wf_dest [OF a(3) assms(2,3)] Some c by (simp add: dest_ok_def)
      obtain e' v where sq: "sock_enqueue k (Sock_conn c) u = (e', v)" by (rule prod.exhaust)
      have oku: "node_ok (case Sock_conn c of Sock_packet p \<Rightarrow> add_mset p M | Sock_conn _ \<Rightarrow> M) u" using ok by simp
      note v = sock_enqueue_ok [OF oku k sq]
      have vok: "node_ok M v" using v(1) by (cases "e' = CSP_QUEUE_OK") simp_all
      have cv: "c < length (conns v)" using v(2) c(1) by simp
      have "node_ok M (snd (csp_close (Some c) (conn_ovf_inc v)))"
        by (rule conn_close_ok) (use vok cv in simp_all)
      moreover have "node_ok M (upd_conn c (\<lambda>k. k\<lparr>dest_socket := None\<rparr>) v)"
        using node_okD [OF vok] by (intro node_okI [OF vok])
          (auto simp: stack_ok_def acct_upd_conn pool_simps intro: node_frame_rdp [OF rdp_frame_fields(1)])
      ultimately have "node_ok M (route_deliver c p s)"
        using False True en Some sq by (simp add: route_deliver_def csp_err_defs)
      then show ?thesis by (rule ok_but_oneI)
    qed
  next
    case bad: False
    then have "e = CSP_ERR_NOMEM" "u = conn_ovf_inc s" using sp by blast+
    then have "route_deliver c p s = csp_buffer_free (Some p) (conn_ovf_inc (conn_ovf_inc s))"
      using False en by (simp add: route_deliver_def csp_err_defs)
    then show ?thesis using node_ok_free [of p M "conn_ovf_inc (conn_ovf_inc s)"] assms(1) by (simp add: ok_but_oneI)
  qed
qed


lemma find_existing_open:
  "csp_conn_find_existing s i = Some c \<Longrightarrow> c < length (conns s) \<and> cstate (conn s c) = CONN_OPEN"
  by (auto simp: csp_conn_find_existing_def find_upt_iff conn_matches_def)

lemma find_existing_cong: "conns t = conns s \<Longrightarrow> csp_conn_find_existing t i = csp_conn_find_existing s i"
  by (simp add: csp_conn_find_existing_def conn_def)

lemma get_socket_bound:
  assumes "port_wf s" "csp_port_get_socket s n = Some k"
  shows "n \<le> CSP_PORT_MAX_BIND" "k < length (sockets s)"
proof -
  have ps: "length (ports s) = CSP_PORT_MAX_BIND + 2" using assms(1) by (simp add: port_wf_def)
  show n: "n \<le> CSP_PORT_MAX_BIND" using assms(2) by (simp add: csp_port_get_socket_def split: if_splits)
  then have "ports s ! n = PORT_OPEN k \<or> ports s ! (CSP_PORT_MAX_BIND + 1) = PORT_OPEN k"
    using assms(2) by (auto simp: csp_port_get_socket_def split: csp_port.splits)
  moreover have "ports s ! n \<in> set (ports s)" "ports s ! (CSP_PORT_MAX_BIND + 1) \<in> set (ports s)"
    using n ps by (simp_all add: nth_mem)
  ultimately have "PORT_OPEN k \<in> set (ports s)" by metis
  then show "k < length (sockets s)" using assms(1) by (simp add: port_wf_def)
qed

lemma route_conn_ok:
  assumes "node_ok (add_mset p M) s" "socket = csp_port_get_socket s (unat (dport (pid (pkt s p))))"
  shows "ok_but_one M (route_conn i p socket s)"
proof -
  let ?i = "pid (pkt s p)"
  note free = ok_but_oneI [OF node_ok_free]
  show ?thesis
  proof (cases "csp_conn_find_existing s ?i")
    case (Some c)
    obtain e t where sc: "csp_route_security_check (copts (conn s c)) i p s = (e, t)" by (rule prod.exhaust)
    note t = security_ok [OF assms(1) sc]
    have "conns t = conns s" using t by (simp add: net_frame_def)
    then have "c < length (conns t)" "cstate (conn t c) = CONN_OPEN" using find_existing_open [OF Some] by (simp_all add: conn_def)
    then show ?thesis
      using Some sc t free [of p M t] deliver_ok [of p M t c] by (simp add: route_conn_def)
  next
    case None
    show ?thesis
    proof (cases socket)
      case None': None
      then show ?thesis using None free [OF assms(1)] by (simp add: route_conn_def)
    next
      case (Some k)
      have k: "k < length (sockets s)" and dp: "unat (dport ?i) \<le> CSP_PORT_MAX_BIND"
        using get_socket_bound [of s "unat (dport ?i)" k] assms Some by (simp_all add: node_ok_def conn_wf_def)
      obtain e t where sc: "csp_route_security_check (sock_opts (sockets s ! k)) i p s = (e, t)" by (rule prod.exhaust)
      note t = security_ok [OF assms(1) sc]
      have nt: "node_ok (add_mset p M) t" using t by simp
      have tt: "acct (add_mset p M) t" "conn_wf t" "0 < length (conns t)" "rx_sized t" using node_okD [OF nt] by simp_all
      have cs: "conns t = conns s" "sockets t = sockets s" "pid (pkt t p) = ?i" using t by (simp_all add: net_frame_def)
      obtain r u where nw: "csp_conn_new ?i (route_idout ?i) CONN_SERVER t = (r, u)" by (rule prod.exhaust)
      note sp = conn_new_spec [OF tt(1,3) nw]
      show ?thesis
      proof (cases "e < 0")
        case True
        then show ?thesis using None Some sc free [OF nt] by (simp add: route_conn_def)
      next
        case noerr: False
        show ?thesis
        proof (cases r)
          case None': None
          then have "u = conn_out_inc t" using sp by simp
          then have "node_ok (add_mset p M) (conn_out_inc u)" using nt by simp
          then show ?thesis
            using None Some sc noerr nw None' cs(3) free by (simp add: route_conn_def)
        next
          case (Some c)
          define v where "v = upd_conn c (\<lambda>x. x\<lparr>dest_socket := Some k, copts := sock_opts (sockets u ! k)\<rparr>) u"
          have c: "c < length (conns u)" "cstate (conn u c) = CONN_OPEN" "rdp_frame c t u"
            using sp Some by (auto simp: rdp_frame_def)
          have "conn_wf v" unfolding v_def
            by (rule conn_wf_new_server [OF tt(2,1,3) _ dp nw [unfolded Some]])
              (use None k cs(2) find_existing_cong [OF cs(1)] in simp_all)
          moreover have "stack_ok (add_mset p M) v" using sp tt(4) by (simp add: stack_ok_def v_def acct_upd_conn rx_sized_def)
          moreover have "node_frame t v" unfolding v_def by (rule node_frame_rdp [OF rdp_frame_trans [OF c(3) rdp_frame_fields(1)]])
          ultimately have "node_ok (add_mset p M) v" by (intro node_okI [OF nt])
          moreover have "c < length (conns v)" "cstate (conn v c) = CONN_OPEN" using c by (simp_all add: v_def conn_upd)
          ultimately have "ok_but_one M (route_deliver c p v)" by (rule deliver_ok)
          then show ?thesis
            using None \<open>socket = Some k\<close> sc noerr nw Some cs(3) by (simp add: route_conn_def v_def)
        qed
      qed
    qed
  qed
qed


text \<open>What the application's callbacks and the other tasks have to keep: a callback takes over the buffer of its packet.\<close>

definition sound_callbacks :: "(nat \<Rightarrow> nat \<Rightarrow> csp_state \<Rightarrow> csp_state) \<Rightarrow> bool" where
  "sound_callbacks cb \<longleftrightarrow> (\<forall>f p M s. node_ok (add_mset p M) s \<longrightarrow> node_ok M (cb f p s))"

definition node_task :: "(csp_state \<Rightarrow> csp_state) \<Rightarrow> bool" where
  "node_task w \<longleftrightarrow> (\<forall>M s. node_ok M s \<longrightarrow> node_ok M (w s) \<and> node_frame s (w s))"

lemma route_local_ok:
  assumes "node_ok (add_mset p M) s" "sound_callbacks cb"
  shows "ok_but_one M (route_local cb i p s)"
proof -
  let ?n = "unat (dport (pid (pkt s p)))"
  note free = ok_but_oneI [OF node_ok_free]
  have opt: "csp_route_check_options i p s = (CSP_ERR_NONE, s)"
    by (simp add: csp_route_check_options_def CSP_USE_HMAC_def CSP_USE_RDP_def)
  note conn = route_conn_ok [OF assms(1) refl, of i]
  show ?thesis
  proof (cases "csp_port_get_callback s ?n")
    case (Some f)
    obtain e t where sc: "csp_route_security_check CSP_SO_CRC32REQ i p s = (e, t)" by (rule prod.exhaust)
    note t = security_ok [OF assms(1) sc]
    have "ok_but_one M (cb f p t)" using t assms(2) by (auto simp: sound_callbacks_def intro: ok_but_oneI)
    then show ?thesis using opt Some sc t free [of p M t] by (simp add: route_local_def)
  next
    case None
    show ?thesis
    proof (cases "csp_port_get_socket s ?n")
      case None': None
      then show ?thesis using opt None conn by (simp add: route_local_def)
    next
      case (Some k)
      have k: "k < length (sockets s)" using get_socket_bound [OF _ Some] assms(1) by (simp add: node_ok_def conn_wf_def)
      obtain e t where sc: "csp_route_security_check (sock_opts (sockets s ! k)) i p s = (e, t)" by (rule prod.exhaust)
      note t = security_ok [OF assms(1) sc]
      obtain e' u where sq: "sock_enqueue k (Sock_packet p) t = (e', u)" by (rule prod.exhaust)
      have "node_ok (case Sock_packet p of Sock_packet p \<Rightarrow> add_mset p M | Sock_conn _ \<Rightarrow> M) t" "k < length (sockets t)"
        using t k by (simp_all add: net_frame_def)
      note u = sock_enqueue_ok(1) [OF this sq]
      have "ok_but_one M (if e' \<noteq> CSP_QUEUE_OK then csp_buffer_free (Some p) (conn_ovf_inc u) else u)"
        using u free [of p M "conn_ovf_inc u"] by (auto intro: ok_but_oneI split: if_splits)
      then show ?thesis using opt None Some sc sq t free [of p M t] conn by (simp add: route_local_def)
    qed
  qed
qed

lemma is_duplicate_ok:
  assumes "node_ok (add_mset p M) s" "stack_is_duplicate p s = (b, t)"
  shows "node_ok (add_mset p M) t"
proof -
  obtain x d where dd: "csp_dedup_is_duplicate (conf_version s) (now s) (pkt s p) (dedup s) = (b, x, d)" "t = (set_pkt p x s)\<lparr>dedup := d\<rparr>"
    using assms(2) by (auto simp: stack_is_duplicate_def split: prod.splits)
  have "packet_wf (pkt s p)" using held_allocated(4) [of "add_mset p M" s p] node_okD [OF assms(1)] by simp
  then have "packet_wf x" using dd(1) by (auto simp: csp_dedup_is_duplicate_def Let_def split: if_splits)
  then show ?thesis using node_ok_set_pkt [OF assms(1)] dd(2) by simp
qed

lemma promisc_add_ok:
  assumes "node_ok (add_mset p M) s"
  shows "node_ok (add_mset p M) (csp_promisc_add p s)"
proof -
  have a: "acct (add_mset p M) s" "rx_sized s" "conn_wf s" using node_okD [OF assms] by simp_all
  have p: "p \<in># add_mset p M" by simp
  note pa = promisc_add_spec [OF a(1) p]
  have "rdp_rx (csp_promisc_add p s) = rdp_rx s" using pa(2) by (simp add: net_frame_def)
  then have "rx_sized (csp_promisc_add p s)"
    by (rule rx_sized_fixed [OF a(2), where M = M]) (rule pa(3), rule fixed_allocated [OF a(1)], simp)
  then show ?thesis using pa(1,2) a(3) by (intro node_okI [OF assms]) (auto simp: stack_ok_def pool_simps intro: node_frame_net)
qed

lemma route_packet_ok:
  assumes "node_ok (add_mset p M) s" "sound_callbacks cb"
  shows "ok_but_one M (route_packet cb i p s)"
proof -
  define u where "u = upd_iface i (\<lambda>f. f\<lparr>if_rx := if_rx f + 1, rxbytes := rxbytes f + ucast (plength (pkt s p))\<rparr>) s"
  define b where "b = is_to_me i (dst (pid (pkt u p))) u"
  have u: "node_ok (add_mset p M) u" using assms(1) by (simp add: u_def)
  obtain dup v where v: "(if dedup_applies (conf_dedup u) b then stack_is_duplicate p u else (False, u)) = (dup, v)" by (rule prod.exhaust)
  have vok: "node_ok (add_mset p M) v" using v u is_duplicate_ok by (auto split: if_splits)
  define w where "w = csp_promisc_add p v"
  have wok: "node_ok (add_mset p M) w" using promisc_add_ok [OF vok] by (simp add: w_def)
  have run: "route_packet cb i p s = (if dup then csp_buffer_free (Some p) (upd_iface i (\<lambda>f. f\<lparr>if_drop := if_drop f + 1\<rparr>) v)
      else if \<not> b then snd (csp_send_direct (pid (pkt w p)) (Some p) (Some i) w) else route_local cb i p w)"
    by (simp add: route_packet_def Let_def u_def [symmetric] b_def [symmetric] v w_def)
  have "node_ok M (snd (csp_send_direct (pid (pkt w p)) (Some p) (Some i) w))"
    using send_direct_ok [of p M w, OF _ refl] node_okD [OF wok]
    by (intro node_okI [OF wok]) (auto simp: pool_simps intro: node_frame_net)
  then show ?thesis
    unfolding run using node_ok_free [of p M "upd_iface i (\<lambda>f. f\<lparr>if_drop := if_drop f + 1\<rparr>) v"] vok route_local_ok [OF wok assms(2)]
    by (auto intro: ok_but_oneI)
qed

lemma check_timeouts_ok:
  assumes "node_ok M s"
  shows "node_ok M (csp_conn_check_timeouts s)"
proof -
  have "node_ok M u \<Longrightarrow> \<forall>c \<in> set cs. c < length (conns u) \<Longrightarrow>
      stack_ok M (fold check_conn_timeout cs u) \<and> node_frame u (fold check_conn_timeout cs u)" for cs u
  proof (induction cs arbitrary: u)
    case (Cons c cs)
    have a: "acct M u" "rx_sized u" "conn_wf u" using node_okD [OF Cons.prems(1)] by simp_all
    define v where "v = check_conn_timeout c u"
    have v: "stack_ok M v" "node_frame u v"
      using check_timeouts_spec [OF a(1,2) _ refl, of c] Cons.prems node_okD [OF Cons.prems(1)]
      by (auto simp: v_def check_conn_timeout_def stack_ok_def intro: node_frame_rdp)
    have "conn_wf v" using conn_wf_timeout [OF a(3)] by (simp add: v_def)
    then have "node_ok M v" using v by (intro node_okI [OF Cons.prems(1)])
    moreover have "\<forall>c \<in> set cs. c < length (conns v)" using Cons.prems(2) v(2) by (simp add: node_frame_def same_size_def)
    ultimately have "stack_ok M (fold check_conn_timeout cs v) \<and> node_frame v (fold check_conn_timeout cs v)" by (rule Cons.IH)
    then show ?case using node_frame_trans [OF v(2)] by (simp add: v_def)
  qed (use node_okD in auto)
  from this [OF assms, of "[0..<length (conns s)]"] show ?thesis
    using conn_wf_timeouts [of s] node_okD [OF assms] by (intro node_okI [OF assms]) (simp_all add: csp_conn_check_timeouts_def)
qed

lemma qfifo_read_ok:
  assumes "node_ok M s" "csp_qfifo_read s = (r, t)"
  shows "node_ok (case r of Some (ifc, Some p) \<Rightarrow> add_mset p M | _ \<Rightarrow> M) t"
proof -
  have a: "acct M s" "rx_sized s" "conn_wf s" using node_okD [OF assms(1)] by simp_all
  obtain q where q: "csp_queue_dequeue (qfifo s) = (r, q)" "t = s\<lparr>qfifo := q\<rparr>"
    using assms(2) by (auto simp: csp_qfifo_read_def split: prod.splits)
  have inv: "queue_inv (qfifo s)" by (rule acct_queue_inv(1) [OF a(1)])
  have "acct (case r of Some (ifc, Some p) \<Rightarrow> add_mset p M | _ \<Rightarrow> M) t"
    using inv q(1)
  proof (cases rule: deq_cases)
    case (item x)
    show ?thesis unfolding q(2)
      by (rule acct_qfifo [OF a(1) item(3)]) (use item in \<open>simp add: List.map_filter_simps split: prod.split option.split\<close>)
  next
    case empty
    then show ?thesis using a(1) q(2) by simp
  qed
  moreover have "rx_sized t" using a(2) by (simp add: q(2) rx_sized_def pkt_def)
  moreover have "conn_wf t" using conn_wf_cong [of t s] a(3) by (simp add: q(2) pool_simps)
  ultimately show ?thesis by (intro node_okI [OF assms(1)]) (auto simp: stack_ok_def node_frame_def same_size_def q(2))
qed


section \<open>What the security check accepts\<close>

text \<open>A payload with its authentication code and checksum, as the sender adds them.\<close>

definition mac_of :: "byte list \<Rightarrow> u8 \<Rightarrow> byte list \<Rightarrow> byte list" where
  "mac_of key fl d = (if fl AND CSP_FHMAC \<noteq> 0 then take 4 (hmac_std key d) else [])"

definition crc_of :: "u8 \<Rightarrow> byte list \<Rightarrow> byte list" where
  "crc_of fl d = (if fl AND CSP_FCRC32 \<noteq> 0 then be32_enc (csp_crc32_memory d) else [])"

lemma pdata_shrink:
  assumes "packet_wf q" "4 \<le> unat (plength q)"
  shows "pdata (q\<lparr>plength := plength q - 4\<rparr>) = take (unat (plength q) - 4) (pdata q)"
proof -
  have "unat (plength q - 4) = unat (plength q) - 4" using assms(2) by (simp add: unat_sub word_le_nat_alt)
  then show ?thesis by (simp add: pdata_def mread_def)
qed

lemma crc32_verify_data:
  assumes "packet_wf p" "csp_crc32_verify v p = (e, q)"
  shows "e = CSP_ERR_NONE \<Longrightarrow> \<exists>crc. pdata p = pdata q @ crc \<and>
      (crc = be32_enc (csp_crc32_memory (pdata q)) \<or> crc = be32_enc (csp_crc32_memory (csp_id_header v (pid p) @ pdata p)))"
    "pdata p = b @ be32_enc (csp_crc32_memory b) \<Longrightarrow> e = CSP_ERR_NONE \<and> pdata q = b"
proof -
  let ?q = "csp_id_prepend v p" and ?n = "unat (plength p)"
  have len: "length (pdata p) = ?n" using assms(1) by simp
  have pq: "pdata ?q = pdata p" "packet_wf ?q" using pdata_prepend [OF assms(1)] assms(1) by simp_all
  have pl: "plength ?q = plength p" by (simp add: csp_id_prepend_def csp_id1_prepend_def csp_id2_prepend_def)
  have short: "e \<noteq> CSP_ERR_NONE" if "\<not> 4 \<le> ?n" using that assms(2) by (auto simp: csp_crc32_verify_def csp_err_defs)
  have strip: "pdata (?q\<lparr>plength := plength p - 4\<rparr>) = take (?n - 4) (pdata p)" if "4 \<le> ?n"
    using pdata_shrink [OF pq(2)] that pq pl by simp
  show "\<exists>crc. pdata p = pdata q @ crc \<and>
      (crc = be32_enc (csp_crc32_memory (pdata q)) \<or> crc = be32_enc (csp_crc32_memory (csp_id_header v (pid p) @ pdata p)))"
    if "e = CSP_ERR_NONE"
  proof -
    have n: "4 \<le> ?n" using short that by blast
    then have "q = ?q\<lparr>plength := plength p - 4\<rparr>" "drop (?n - 4) (pdata p) = be32_enc (csp_crc32_memory (take (?n - 4) (pdata p))) \<or>
        drop (?n - 4) (pdata p) = be32_enc (csp_crc32_memory (csp_id_header v (pid p) @ pdata p))"
      using csp_crc32_verify_unfold [OF assms(1) n, of v] assms(2) that by (auto simp: Let_def csp_err_defs split: if_splits)
    then show ?thesis using strip [OF n] by (intro exI [of _ "drop (?n - 4) (pdata p)"]) auto
  qed
  show "e = CSP_ERR_NONE \<and> pdata q = b" if d: "pdata p = b @ be32_enc (csp_crc32_memory b)"
  proof -
    have n: "4 \<le> ?n" "?n - 4 = length b" using arg_cong [OF d, of length] len by simp_all
    then show ?thesis
      using csp_crc32_verify_unfold [OF assms(1) n(1), of v] assms(2) strip [OF n(1)] d by (auto simp: Let_def)
  qed
qed

lemma hmac_verify_data:
  assumes "packet_wf p" "key \<noteq> []" "csp_hmac_verify key False p = (e, q)"
  shows "e = CSP_ERR_NONE \<Longrightarrow> pdata p = pdata q @ take 4 (hmac_std key (pdata q))"
    "pdata p = b @ take 4 (hmac_std key b) \<Longrightarrow> e = CSP_ERR_NONE \<and> pdata q = b"
proof -
  let ?n = "length (pdata p)"
  have len: "?n = unat (plength p)" using assms(1) by simp
  note unf = hmac_verify_unfold [OF assms(1,2)]
  have strip: "pdata (p\<lparr>plength := plength p - 4\<rparr>) = take (?n - 4) (pdata p)" if "4 \<le> ?n"
    using pdata_shrink [OF assms(1)] that len by simp
  show "pdata p = pdata q @ take 4 (hmac_std key (pdata q))" if "e = CSP_ERR_NONE"
  proof -
    have "4 \<le> ?n" "q = p\<lparr>plength := plength p - 4\<rparr>" "drop (?n - 4) (pdata p) = take 4 (hmac_std key (take (?n - 4) (pdata p)))"
      using unf assms(3) that by (auto simp: csp_err_defs split: if_splits)
    then show ?thesis using strip by (metis append_take_drop_id)
  qed
  show "e = CSP_ERR_NONE \<and> pdata q = b" if d: "pdata p = b @ take 4 (hmac_std key b)"
  proof -
    have "length (take 4 (hmac_std key b)) = 4" by (simp add: length_hmac_std)
    then have n: "4 \<le> ?n" "?n - 4 = length b" using arg_cong [OF d, of length] by simp_all
    then show ?thesis using unf assms(3) strip [OF n(1)] d by auto
  qed
qed


lemma crc_stage:
  assumes "packet_wf (pkt s p)" "p < length (bufs s)" "security_crc32 opts i p s = (e, t)" "fl = flags (pid (pkt s p))"
  shows "stack_key t = stack_key s" "pid (pkt t p) = pid (pkt s p)" "packet_wf (pkt t p)" "p < length (bufs t)"
    "e = CSP_ERR_NONE \<Longrightarrow> (opts AND CSP_SO_CRC32REQ \<noteq> 0 \<longrightarrow> fl AND CSP_FCRC32 \<noteq> 0) \<and> (\<exists>crc. pdata (pkt s p) = pdata (pkt t p) @ crc \<and>
      (crc = crc_of fl (pdata (pkt t p)) \<or> crc = crc_of fl (csp_id_header (conf_version s) (pid (pkt s p)) @ pdata (pkt s p))))"
    "pdata (pkt s p) = b @ crc_of fl b \<Longrightarrow> opts AND CSP_SO_CRC32REQ \<noteq> 0 \<longrightarrow> fl AND CSP_FCRC32 \<noteq> 0 \<Longrightarrow>
      e = CSP_ERR_NONE \<and> pdata (pkt t p) = b"
proof -
  obtain e' q where ver: "csp_crc32_verify (conf_version s) (pkt s p) = (e', q)" by (rule prod.exhaust)
  note w = verify_wf(1,2) [OF assms(1), of "conf_version s", unfolded ver snd_conv]
  note d = crc32_verify_data [OF assms(1) ver]
  have key: "stack_key (rx_error_inc i x) = stack_key x" "bufs (rx_error_inc i x) = bufs x" "stack_key (set_pkt p q x) = stack_key x"
    "length (bufs (set_pkt p q x)) = length (bufs x)" for x by (simp_all add: rx_error_inc_def upd_iface_def set_pkt_def)
  have pk: "pkt (rx_error_inc i x) p = pkt x p" for x by (simp add: rx_error_inc_def)
  show "stack_key t = stack_key s" "pid (pkt t p) = pid (pkt s p)" "packet_wf (pkt t p)" "p < length (bufs t)"
    using assms ver w by (auto simp: security_crc32_def Let_def key pk split: if_splits)
  show "(opts AND CSP_SO_CRC32REQ \<noteq> 0 \<longrightarrow> fl AND CSP_FCRC32 \<noteq> 0) \<and> (\<exists>crc. pdata (pkt s p) = pdata (pkt t p) @ crc \<and>
      (crc = crc_of fl (pdata (pkt t p)) \<or> crc = crc_of fl (csp_id_header (conf_version s) (pid (pkt s p)) @ pdata (pkt s p))))"
    if "e = CSP_ERR_NONE"
    using that assms(2-4) ver d(1) by (auto simp: security_crc32_def Let_def crc_of_def csp_err_defs split: if_splits)
  show "e = CSP_ERR_NONE \<and> pdata (pkt t p) = b"
    if "pdata (pkt s p) = b @ crc_of fl b" "opts AND CSP_SO_CRC32REQ \<noteq> 0 \<longrightarrow> fl AND CSP_FCRC32 \<noteq> 0"
    using that assms(2-4) ver d(2) [of b] by (auto simp: security_crc32_def Let_def crc_of_def split: if_splits)
qed

lemma hmac_stage:
  assumes "packet_wf (pkt s p)" "p < length (bufs s)" "stack_key s \<noteq> []" "security_hmac opts i p s = (e, t)" "fl = flags (pid (pkt s p))"
  shows "pid (pkt t p) = pid (pkt s p)"
    "e = CSP_ERR_NONE \<Longrightarrow> (opts AND CSP_SO_HMACREQ \<noteq> 0 \<longrightarrow> fl AND CSP_FHMAC \<noteq> 0) \<and>
      pdata (pkt s p) = pdata (pkt t p) @ mac_of (stack_key s) fl (pdata (pkt t p))"
    "pdata (pkt s p) = b @ mac_of (stack_key s) fl b \<Longrightarrow> opts AND CSP_SO_HMACREQ \<noteq> 0 \<longrightarrow> fl AND CSP_FHMAC \<noteq> 0 \<Longrightarrow>
      e = CSP_ERR_NONE \<and> pdata (pkt t p) = b"
proof -
  obtain e' q where ver: "csp_hmac_verify (stack_key s) False (pkt s p) = (e', q)" by (rule prod.exhaust)
  note w = verify_wf(3,4) [OF assms(1), of "stack_key s", unfolded ver snd_conv]
  note d = hmac_verify_data [OF assms(1,3) ver]
  have pk: "pkt (autherr_inc i x) p = pkt x p" for x by (simp add: autherr_inc_def)
  show "pid (pkt t p) = pid (pkt s p)" using assms(2,4) ver w by (auto simp: security_hmac_def Let_def pk split: if_splits)
  show "(opts AND CSP_SO_HMACREQ \<noteq> 0 \<longrightarrow> fl AND CSP_FHMAC \<noteq> 0) \<and>
      pdata (pkt s p) = pdata (pkt t p) @ mac_of (stack_key s) fl (pdata (pkt t p))" if "e = CSP_ERR_NONE"
    using that assms(2,4,5) ver d(1) by (auto simp: security_hmac_def Let_def mac_of_def csp_err_defs split: if_splits)
  show "e = CSP_ERR_NONE \<and> pdata (pkt t p) = b"
    if "pdata (pkt s p) = b @ mac_of (stack_key s) fl b" "opts AND CSP_SO_HMACREQ \<noteq> 0 \<longrightarrow> fl AND CSP_FHMAC \<noteq> 0"
    using that assms(2,4,5) ver d(2) [of b] by (auto simp: security_hmac_def Let_def mac_of_def split: if_splits)
qed

section \<open>Properties\<close>

lemma pool_ex_node: "node_ok {#0#} pool_ex"
proof -
  have "rx_sized pool_ex" by (simp add: pool_ex_def)
  then show ?thesis using pool_ex_facts by (simp add: node_ok_def stack_ok_def)
qed

text \<open>C21: the security check. It accepts a packet only if its payload is the delivered data followed by the authentication
  code of the data, if the packet has the flag for it, and by the checksum of both, if it has the flag for that
  (or by the checksum of header and whole payload, which includes itself); a required protection that the packet lacks makes
  it fail. Every payload protected like the sender does is accepted, and the protection is removed. A rejected packet
  leaves connections, sockets and other packets alone. In every case the caller keeps the buffer.\<close>

theorem csp_route_security_check_exact:
  assumes "node_ok (add_mset p M) s" "csp_route_security_check opts i p s = (e, t)"
    and "fl = flags (pid (pkt s p))" "key = stack_key s"
  shows "node_ok (add_mset p M) t \<and> conns t = conns s \<and> sockets t = sockets s \<and> (\<forall>h. h \<noteq> p \<longrightarrow> pkt t h = pkt s h) \<and>
    (if e = CSP_ERR_NONE
     then (opts AND CSP_SO_CRC32REQ \<noteq> 0 \<longrightarrow> fl AND CSP_FCRC32 \<noteq> 0) \<and> (opts AND CSP_SO_HMACREQ \<noteq> 0 \<longrightarrow> fl AND CSP_FHMAC \<noteq> 0) \<and>
       (opts AND CSP_SO_RDPREQ \<noteq> 0 \<longrightarrow> fl AND CSP_FRDP \<noteq> 0) \<and>
       (\<exists>d crc. pdata (pkt t p) = d \<and> pdata (pkt s p) = d @ mac_of key fl d @ crc \<and>
          (crc = crc_of fl (d @ mac_of key fl d) \<or>
           crc = crc_of fl (csp_id_header (conf_version s) (pid (pkt s p)) @ pdata (pkt s p))))
     else e < 0) \<and>
    (\<forall>d. pdata (pkt s p) = d @ mac_of key fl d @ crc_of fl (d @ mac_of key fl d) \<and>
       (opts AND CSP_SO_CRC32REQ \<noteq> 0 \<longrightarrow> fl AND CSP_FCRC32 \<noteq> 0) \<and> (opts AND CSP_SO_HMACREQ \<noteq> 0 \<longrightarrow> fl AND CSP_FHMAC \<noteq> 0) \<and>
       (opts AND CSP_SO_RDPREQ \<noteq> 0 \<longrightarrow> fl AND CSP_FRDP \<noteq> 0) \<longrightarrow> e = CSP_ERR_NONE \<and> pdata (pkt t p) = d)"
proof -
  note ok = security_ok [OF assms(1,2)]
  have p: "packet_wf (pkt s p)" "p < length (bufs s)" "key \<noteq> []"
    using held_allocated [of "add_mset p M" s p] node_okD [OF assms(1)] assms(4)
    by (auto simp: acct_def stack_wf_def HMAC_KEY_LENGTH_def)
  obtain e1 u where c: "security_crc32 opts i p s = (e1, u)" by (rule prod.exhaust)
  obtain e2 v where h: "security_hmac opts i p u = (e2, v)" by (rule prod.exhaust)
  note cs = crc_stage [OF p(1,2) c assms(3)]
  have k: "stack_key u \<noteq> []" "fl = flags (pid (pkt u p))" "stack_key u = key" using cs(1,2) p(3) assms(3,4) by simp_all
  note hs = hmac_stage [OF cs(3,4) k(1) h k(2), unfolded k(3)]
  have dec: "(e, t) = (if e1 \<noteq> CSP_ERR_NONE then (e1, u) else if e2 \<noteq> CSP_ERR_NONE then (e2, v)
      else if fl AND CSP_FRDP = 0 \<and> opts AND CSP_SO_RDPREQ \<noteq> 0 then (CSP_ERR_INVAL, rx_error_inc i v) else (CSP_ERR_NONE, v))"
    using assms(2) hs(1) k(2)
    by (cases "e1 = CSP_ERR_NONE"; cases "e2 = CSP_ERR_NONE") (simp_all add: csp_route_security_check_def c h)
  have acc: "e = CSP_ERR_NONE \<longleftrightarrow> e1 = CSP_ERR_NONE \<and> e2 = CSP_ERR_NONE \<and> \<not> (fl AND CSP_FRDP = 0 \<and> opts AND CSP_SO_RDPREQ \<noteq> 0)"
    "e = CSP_ERR_NONE \<Longrightarrow> t = v" using dec by (auto simp: csp_err_defs split: if_splits)
  have sound: "(opts AND CSP_SO_CRC32REQ \<noteq> 0 \<longrightarrow> fl AND CSP_FCRC32 \<noteq> 0) \<and> (opts AND CSP_SO_HMACREQ \<noteq> 0 \<longrightarrow> fl AND CSP_FHMAC \<noteq> 0) \<and>
       (opts AND CSP_SO_RDPREQ \<noteq> 0 \<longrightarrow> fl AND CSP_FRDP \<noteq> 0) \<and>
       (\<exists>d crc. pdata (pkt t p) = d \<and> pdata (pkt s p) = d @ mac_of key fl d @ crc \<and>
          (crc = crc_of fl (d @ mac_of key fl d) \<or>
           crc = crc_of fl (csp_id_header (conf_version s) (pid (pkt s p)) @ pdata (pkt s p))))" if "e = CSP_ERR_NONE"
    using that acc cs(5) hs(2) by auto
  have complete: "e = CSP_ERR_NONE \<and> pdata (pkt t p) = d"
    if "pdata (pkt s p) = d @ mac_of key fl d @ crc_of fl (d @ mac_of key fl d)" "opts AND CSP_SO_CRC32REQ \<noteq> 0 \<longrightarrow> fl AND CSP_FCRC32 \<noteq> 0"
      "opts AND CSP_SO_HMACREQ \<noteq> 0 \<longrightarrow> fl AND CSP_FHMAC \<noteq> 0" "opts AND CSP_SO_RDPREQ \<noteq> 0 \<longrightarrow> fl AND CSP_FRDP \<noteq> 0" for d
  proof -
    have "e1 = CSP_ERR_NONE \<and> pdata (pkt u p) = d @ mac_of key fl d" by (rule cs(6)) (use that in simp_all)
    moreover from this have "e2 = CSP_ERR_NONE \<and> pdata (pkt v p) = d" using hs(3) [of d] that(3) by blast
    ultimately show ?thesis using acc that(4) by blast
  qed
  have fr: "conns t = conns s" "sockets t = sockets s" using ok by (simp_all add: net_frame_def)
  show ?thesis
  proof (intro conjI allI impI)
    show "node_ok (add_mset p M) t" "\<And>h. h \<noteq> p \<Longrightarrow> pkt t h = pkt s h" using ok by blast+
    have "e \<noteq> CSP_ERR_NONE \<Longrightarrow> e < 0" using ok by blast
    then show "if e = CSP_ERR_NONE
      then (opts AND CSP_SO_CRC32REQ \<noteq> 0 \<longrightarrow> fl AND CSP_FCRC32 \<noteq> 0) \<and> (opts AND CSP_SO_HMACREQ \<noteq> 0 \<longrightarrow> fl AND CSP_FHMAC \<noteq> 0) \<and>
       (opts AND CSP_SO_RDPREQ \<noteq> 0 \<longrightarrow> fl AND CSP_FRDP \<noteq> 0) \<and>
       (\<exists>d crc. pdata (pkt t p) = d \<and> pdata (pkt s p) = d @ mac_of key fl d @ crc \<and>
          (crc = crc_of fl (d @ mac_of key fl d) \<or>
           crc = crc_of fl (csp_id_header (conf_version s) (pid (pkt s p)) @ pdata (pkt s p))))
      else e < 0" using sound by presburger
  qed (use fr complete in blast)+
qed

theorem csp_route_security_check_exact_witness:
  "\<exists>t. csp_route_security_check 0 0 0 pool_ex = (CSP_ERR_NONE, t) \<and> pdata (pkt t 0) = []"
proof -
  have "pkt pool_ex 0 = packet0" by (simp add: pool_ex_def)
  then have "pdata (pkt pool_ex 0) = []" "flags (pid (pkt pool_ex 0)) = 0"
    by (simp_all add: pdata_def packet0_def csp_id_clear_def)
  moreover have "node_ok {#0#} pool_ex" by (rule pool_ex_node)
  ultimately show ?thesis
    using csp_route_security_check_exact [OF _ prod.collapse [symmetric] refl refl, of 0 "{#}" pool_ex 0 0]
    by (intro exI [of _ "snd (csp_route_security_check 0 0 0 pool_ex)"]) (auto simp: prod_eq_iff mac_of_def crc_of_def)
qed



lemma route_work_run:
  assumes "node_ok M s" "node_task w" "csp_route_work w cb s = (e, t)"
    and "u = (let s = csp_conn_check_timeouts s in if csp_queue_size (qfifo s) = 0 then w s else s)"
  obtains r v where "node_ok M u" "csp_qfifo_read u = (r, v)" "r = (case queue_list (qfifo u) of [] \<Rightarrow> None | x # xs \<Rightarrow> Some x)"
    "(e, t) = (case r of None \<Rightarrow> (CSP_ERR_TIMEDOUT, v) | Some (ifc, None) \<Rightarrow> (CSP_ERR_TIMEDOUT, v)
      | Some (None, Some p) \<Rightarrow> (CSP_ERR_NONE, v\<lparr>fault := True\<rparr>) | Some (Some i, Some p) \<Rightarrow> (CSP_ERR_NONE, route_packet cb i p v))"
proof -
  have u: "node_ok M u" using check_timeouts_ok [OF assms(1)] assms(2,4) by (simp add: node_task_def Let_def)
  obtain r v where rd: "csp_qfifo_read u = (r, v)" by (rule prod.exhaust)
  have run: "(e, t) = (case r of None \<Rightarrow> (CSP_ERR_TIMEDOUT, v) | Some (ifc, None) \<Rightarrow> (CSP_ERR_TIMEDOUT, v)
      | Some (None, Some p) \<Rightarrow> (CSP_ERR_NONE, v\<lparr>fault := True\<rparr>) | Some (Some i, Some p) \<Rightarrow> (CSP_ERR_NONE, route_packet cb i p v))"
    using assms(3) rd unfolding csp_route_work_def Let_def assms(4) [unfolded Let_def, symmetric]
    by (auto split: option.splits prod.splits)
  have inv: "queue_inv (qfifo u)" using acct_queue_inv(1) node_okD [OF u] by blast
  have head: "r = (case queue_list (qfifo u) of [] \<Rightarrow> None | x # xs \<Rightarrow> Some x)"
  proof -
    obtain q where "csp_queue_dequeue (qfifo u) = (r, q)" using rd by (auto simp: csp_qfifo_read_def split: prod.splits)
    with inv show ?thesis by (cases rule: deq_cases) simp_all
  qed
  show thesis by (rule that [OF u rd head run])
qed

lemma route_work_ok:
  assumes "node_ok M s" "node_task w" "sound_callbacks cb" "csp_route_work w cb s = (e, t)"
  shows "ok_but_one M t"
proof -
  obtain u r v where u: "node_ok M u" and rd: "csp_qfifo_read u = (r, v)"
    and run: "(e, t) = (case r of None \<Rightarrow> (CSP_ERR_TIMEDOUT, v) | Some (ifc, None) \<Rightarrow> (CSP_ERR_TIMEDOUT, v)
      | Some (None, Some p) \<Rightarrow> (CSP_ERR_NONE, v\<lparr>fault := True\<rparr>) | Some (Some i, Some p) \<Rightarrow> (CSP_ERR_NONE, route_packet cb i p v))"
    by (rule route_work_run [OF assms(1,2,4) refl])
  note v = qfifo_read_ok [OF u rd]
  show ?thesis
  proof (cases r)
    case (Some x)
    obtain ifc y where x: "x = (ifc, y)" by (rule prod.exhaust)
    show ?thesis
    proof (cases y)
      case None
      then show ?thesis using run v Some x by (cases ifc) (simp_all add: ok_but_oneI)
    next
      case (Some p)
      show ?thesis
      proof (cases ifc)
        case None
        have "node_ok (add_mset p M) (v\<lparr>fault := True\<rparr>)" using v \<open>r = Some x\<close> x Some by simp
        then have "node_ok ({#p#} + M) t" using run \<open>r = Some x\<close> x Some None by simp
        then show ?thesis unfolding ok_but_one_def by (intro exI [of _ "{#p#}"]) simp
      next
        case (Some i)
        then show ?thesis using run v \<open>r = Some x\<close> x \<open>y = Some p\<close> route_packet_ok [OF _ assms(3), of p M v i] by simp
      qed
    qed
  qed (use run v in \<open>simp add: ok_but_oneI\<close>)
qed


lemma sound_callbacks_free: "sound_callbacks (\<lambda>f p. csp_buffer_free (Some p))"
  by (simp add: sound_callbacks_def node_ok_free)


text \<open>The protection that the receiver of a packet requires; no receiver gives \<open>None\<close>.\<close>

definition required_opts :: "csp_state \<Rightarrow> csp_id \<Rightarrow> u32 option" where
  "required_opts s i =
     (let port = unat (dport i); socket = csp_port_get_socket s port;
          by_conn = (case csp_conn_find_existing s i of Some c \<Rightarrow> Some (copts (conn s c)) | None \<Rightarrow> map_option (\<lambda>k. sock_opts (sockets s ! k)) socket)
      in if csp_port_get_callback s port \<noteq> None then Some CSP_SO_CRC32REQ
         else case socket of
           Some k \<Rightarrow> if sock_opts (sockets s ! k) AND CSP_SO_CONN_LESS \<noteq> 0 then Some (sock_opts (sockets s ! k)) else by_conn
         | None \<Rightarrow> by_conn)"

lemma wire_security: "wire (snd (csp_route_security_check opts i p s)) = wire s"
proof -
  have inc: "wire (rx_error_inc i u) = wire u" "wire (autherr_inc i u) = wire u" "wire (set_pkt p x u) = wire u" for u x
    by (simp_all add: rx_error_inc_def autherr_inc_def upd_iface_def set_pkt_def)
  have "wire (snd (security_crc32 opts i p u)) = wire u" "wire (snd (security_hmac opts i p u)) = wire u" for u
    by (simp_all add: security_crc32_def security_hmac_def Let_def case_prod_beta inc)
  then show ?thesis by (simp add: csp_route_security_check_def case_prod_beta inc)
qed

text \<open>C23: a packet to this node that nobody is bound to receive, or that fails the security check with the protection its
  receiver requires, reaches no one: its buffer is released, no connection, socket or callback sees it and
  nothing is sent. Every other packet goes to the receiver, in particular a packet for a connection-less socket that
  has room is put at the end of its queue.\<close>

theorem csp_route_drops_rejected:
  assumes "node_ok (add_mset p M) s" "t = route_local cb i p s" "req = required_opts s (pid (pkt s p))"
  shows "(req = None \<or> (\<exists>opts. req = Some opts \<and> fst (csp_route_security_check opts i p s) \<noteq> CSP_ERR_NONE) \<longrightarrow>
      node_ok M t \<and> conns t = conns s \<and> sockets t = sockets s \<and> wire t = wire s) \<and>
    (\<forall>k. csp_port_get_callback s (unat (dport (pid (pkt s p)))) = None \<and> csp_port_get_socket s (unat (dport (pid (pkt s p)))) = Some k \<and>
       sock_opts (sockets s ! k) AND CSP_SO_CONN_LESS \<noteq> 0 \<and>
       fst (csp_route_security_check (sock_opts (sockets s ! k)) i p s) = CSP_ERR_NONE \<longrightarrow>
       t = (case sock_enqueue k (Sock_packet p) (snd (csp_route_security_check (sock_opts (sockets s ! k)) i p s)) of
              (e, u) \<Rightarrow> if e \<noteq> CSP_QUEUE_OK then csp_buffer_free (Some p) (conn_ovf_inc u) else u))"
proof -
  have opt: "csp_route_check_options i p s = (CSP_ERR_NONE, s)"
    by (simp add: csp_route_check_options_def CSP_USE_HMAC_def CSP_USE_RDP_def)
  have drop: "node_ok M (csp_buffer_free (Some p) u) \<and> conns (csp_buffer_free (Some p) u) = conns s \<and>
      sockets (csp_buffer_free (Some p) u) = sockets s \<and> wire (csp_buffer_free (Some p) u) = wire s"
    if "u = s \<or> (\<exists>opts. u = snd (csp_route_security_check opts i p s))" for u
  proof -
    have "wire (snd (csp_route_security_check opts i p s)) = wire s" for opts by (rule wire_security)
    moreover have "node_ok (add_mset p M) u \<and> net_frame s u"
      using that security_ok [OF assms(1) prod.collapse [symmetric]] assms(1) by auto
    moreover from this have "acct (add_mset p M) u" using node_okD by blast
    ultimately show ?thesis
      using that node_ok_free [of p M u] more_fields [OF acct_free(2) [of p M u]] by (auto simp: net_frame_def)
  qed
  define guarded where "guarded = (\<lambda>opts F. case csp_route_security_check opts i p s of
     (e, u) \<Rightarrow> if e < 0 then csp_buffer_free (Some p) u else F u)"
  have local: "route_local cb i p s = (case csp_port_get_callback s (unat (dport (pid (pkt s p)))) of
      Some f \<Rightarrow> guarded CSP_SO_CRC32REQ (cb f p)
    | None \<Rightarrow> (case csp_port_get_socket s (unat (dport (pid (pkt s p)))) of
        Some k \<Rightarrow> if sock_opts (sockets s ! k) AND CSP_SO_CONN_LESS \<noteq> 0
          then guarded (sock_opts (sockets s ! k)) (\<lambda>u. case sock_enqueue k (Sock_packet p) u of
             (e, u) \<Rightarrow> if e \<noteq> CSP_QUEUE_OK then csp_buffer_free (Some p) (conn_ovf_inc u) else u)
          else route_conn i p (Some k) s
      | None \<Rightarrow> route_conn i p None s))"
    unfolding route_local_def opt prod.case Let_def guarded_def by (simp split: option.split)
  have conn: "\<exists>F. route_conn i p socket s = (case (case csp_conn_find_existing s (pid (pkt s p)) of Some c \<Rightarrow> Some (copts (conn s c))
        | None \<Rightarrow> map_option (\<lambda>k. sock_opts (sockets s ! k)) socket) of
      None \<Rightarrow> csp_buffer_free (Some p) s | Some opts \<Rightarrow> guarded opts F)" for socket
    unfolding route_conn_def guarded_def by (cases "csp_conn_find_existing s (pid (pkt s p))"; cases socket) auto
  have rej: "guarded opts F = csp_buffer_free (Some p) (snd (csp_route_security_check opts i p s))"
    if "fst (csp_route_security_check opts i p s) \<noteq> CSP_ERR_NONE" for opts F
    using that security_ok [OF assms(1) prod.collapse [symmetric], of opts i] by (auto simp: guarded_def case_prod_beta)
  have acc: "guarded opts F = F (snd (csp_route_security_check opts i p s))"
    if "fst (csp_route_security_check opts i p s) = CSP_ERR_NONE" for opts F
    using that by (simp add: guarded_def case_prod_beta csp_err_defs)
  have disp: "\<exists>F. t = (case req of None \<Rightarrow> csp_buffer_free (Some p) s | Some opts \<Rightarrow> guarded opts F)"
    using conn [of None] conn [of "csp_port_get_socket s (unat (dport (pid (pkt s p))))"]
    by (auto simp: assms(2,3) local required_opts_def Let_def split: option.splits)
  show ?thesis
  proof (intro conjI impI allI)
    assume "req = None \<or> (\<exists>opts. req = Some opts \<and> fst (csp_route_security_check opts i p s) \<noteq> CSP_ERR_NONE)"
    then have "t = csp_buffer_free (Some p) s \<or> (\<exists>opts. t = csp_buffer_free (Some p) (snd (csp_route_security_check opts i p s)))"
      using disp rej by auto
    then have "node_ok M t \<and> conns t = conns s \<and> sockets t = sockets s \<and> wire t = wire s" using drop by blast
    then show "node_ok M t" "conns t = conns s" "sockets t = sockets s" "wire t = wire s" by blast+
  qed (auto simp: assms(2) local acc)
qed

theorem csp_route_drops_rejected_witness:
  "node_ok {#} (route_local (\<lambda>f p. csp_buffer_free (Some p)) 0 0 pool_ex)"
proof -
  have cl: "ports pool_ex = replicate 18 PORT_CLOSED" by (simp add: pool_ex_def rdp_node_ex_def node_ex_def upd_conn_def)
  then have "ports pool_ex ! n = PORT_CLOSED" if "n \<le> CSP_PORT_MAX_BIND + 1" for n
    using that unfolding cl by (intro nth_replicate) (simp add: CSP_PORT_MAX_BIND_def)
  then have "csp_port_get_socket pool_ex n = None" "csp_port_get_callback pool_ex n = None" for n
    by (simp_all add: csp_port_get_socket_def csp_port_get_callback_def)
  moreover have "csp_conn_find_existing pool_ex (pid (pkt pool_ex 0)) = None"
    by (simp add: csp_conn_find_existing_def conn_matches_def conn_def)
  ultimately have "required_opts pool_ex (pid (pkt pool_ex 0)) = None" by (simp add: required_opts_def Let_def)
  from csp_route_drops_rejected [OF pool_ex_node refl this [symmetric]] show ?thesis by blast
qed


end
