(* ===== verification/Csp_Node.thy ===== *)
theory Csp_Node
  imports Csp_Route
begin

text \<open>
  The node as a whole: \<open>csp_init\<close> of \<open>src/csp_init.c\<close>, and the states reached from it by the calls of the drivers, the
  router and the applications in any order. The multiset of a reachable state is the buffers
  that drivers and applications hold.
\<close>

section \<open>Start\<close>

definition csp_init :: "csp_skbf list \<Rightarrow> csp_state \<Rightarrow> csp_state" where
  "csp_init mem s =
     (let s = (if conf_version s = 0 \<or> conf_version s > 2 then s\<lparr>conf_version := 2\<rparr> else s);
          s = (if conf_dedup s > CSP_DEDUP_ALL then s\<lparr>conf_dedup := CSP_DEDUP_OFF\<rparr> else s);
          s = csp_buffer_init mem s;
          s = csp_conn_init s;
          s = csp_qfifo_init s;
          s = csp_rdp_queue_init s;
          s = upd_iface csp_if_lo (\<lambda>f. f\<lparr>if_netmask := of_nat (csp_id_get_host_bits (conf_version s))\<rparr>) s
      in s\<lparr>iflist := snd (csp_iflist_add csp_if_lo (iflist s))\<rparr>)"

text \<open>The static variables before \<open>csp_init\<close>: sockets have no queue, ports are closed. The pools hold anything.\<close>

definition boot :: "csp_skbf list \<Rightarrow> csp_state \<Rightarrow> bool" where
  "boot mem s \<longleftrightarrow> length mem = CSP_BUFFER_COUNT \<and> (\<forall>b \<in> set mem. packet_wf (skbf_data b)) \<and>
     0 < length (conns s) \<and> length (conns s) \<le> 47 \<and> (\<forall>k \<in> set (sockets s). sock_queue k = None) \<and> promisc_queue s = None \<and>
     length (stack_key s) = HMAC_KEY_LENGTH \<and> ports s = replicate (CSP_PORT_MAX_BIND + 2) PORT_CLOSED"

lemma sum_list_empty: "(\<And>x. x \<in> set xs \<Longrightarrow> f x = {#}) \<Longrightarrow> (\<Sum>x \<leftarrow> xs. f x) = {#}"
  by (induction xs) simp_all

lemma queue_create_empty:
  assumes "0 < n"
  shows "queue_inv (the (pthread_queue_create True x n))" "queue_list (the (pthread_queue_create True x n)) = []"
  using queue_create_inv [OF assms, of x] by (simp_all add: pthread_queue_create_def)

lemma csp_init_node:
  assumes "boot mem s"
  shows "node_ok {#} (csp_init mem s)"
proof -
  define s1 where "s1 = (let s = (if conf_version s = 0 \<or> conf_version s > 2 then s\<lparr>conf_version := 2\<rparr> else s)
     in if conf_dedup s > CSP_DEDUP_ALL then s\<lparr>conf_dedup := CSP_DEDUP_OFF\<rparr> else s)"
  have s1: "conns s1 = conns s" "sockets s1 = sockets s" "ports s1 = ports s" "promisc_queue s1 = promisc_queue s" "stack_key s1 = stack_key s"
    by (simp_all add: s1_def Let_def)
  define s2 where "s2 = csp_buffer_init mem s1"
  have s2: "conns s2 = conns s" "sockets s2 = sockets s" "ports s2 = ports s" "promisc_queue s2 = promisc_queue s" "stack_key s2 = stack_key s"
    using s1 by (simp_all add: s2_def csp_buffer_init_def)
  define s3 where "s3 = csp_conn_init s2"
  have keep: "sockets (fold conn_init cs u) = sockets u \<and> promisc_queue (fold conn_init cs u) = promisc_queue u \<and>
      stack_key (fold conn_init cs u) = stack_key u \<and> bufs (fold conn_init cs u) = bufs u \<and> csp_buffers (fold conn_init cs u) = csp_buffers u" for cs u
    by (induction cs arbitrary: u) (simp_all add: conn_init_def csp_rdp_init_def upd_rdp_def upd_conn_def)
  have s3: "sockets s3 = sockets s" "promisc_queue s3 = None" "length (stack_key s3) = HMAC_KEY_LENGTH" "bufs s3 = bufs s2"
    "csp_buffers s3 = csp_buffers s2"
    using keep [of "[0..<length (conns s2)]" s2] s2 assms by (simp_all add: s3_def csp_conn_init_def boot_def)
  have "port_wf s2" using s2 assms by (simp add: port_wf_def boot_def)
  then have wf3: "conn_wf s3" using conn_wf_init [of s2] s2 assms by (simp add: s3_def boot_def)
  have c3: "length (conns s3) = length (conns s)" "\<And>c. c < length (conns s3) \<Longrightarrow> queue_list (rx_queue (conn s3 c)) = [] \<and> queue_inv (rx_queue (conn s3 c))"
    using conn_init_all [OF order_refl, of s3 s2] s2 by (simp_all add: s3_def csp_conn_init_def)
  define t where "t = csp_init mem s"
  have t: "conns t = conns s3" "sockets t = sockets s3" "ports t = ports s3" "bufs t = bufs s2" "csp_buffers t = csp_buffers s2"
    "promisc_queue t = None" "stack_key t = stack_key s3" "qfifo t = the (pthread_queue_create True (None, None) CSP_QFIFO_LEN)"
    "rdp_tx t = the (pthread_queue_create True 0 (CSP_RDP_MAX_WINDOW * 2))" "rdp_rx t = the (pthread_queue_create True 0 (CSP_RDP_MAX_WINDOW * 2))"
    using s3 by (simp_all add: t_def csp_init_def Let_def s1_def [unfolded Let_def, symmetric] s2_def [symmetric] s3_def [symmetric]
        csp_qfifo_init_def csp_rdp_queue_init_def upd_iface_def)
  have q: "queue_inv (qfifo t)" "queue_list (qfifo t) = []" "queue_inv (rdp_tx t)" "queue_list (rdp_tx t) = []"
    "queue_inv (rdp_rx t)" "queue_list (rdp_rx t) = []"
    using queue_create_empty [of CSP_QFIFO_LEN "(None, None)"] queue_create_empty [of "CSP_RDP_MAX_WINDOW * 2" 0]
    by (simp_all add: t CSP_QFIFO_LEN_def CSP_RDP_MAX_WINDOW_def)
  have mem: "length mem = CSP_BUFFER_COUNT" using assms by (simp add: boot_def)
  note bi = csp_buffer_init_simps [OF mem, of s1, folded s2_def]
  have pool: "pool_inv t" "allocated t = {}"
    using bi assms by (auto simp: pool_inv_def allocated_def t pkt_def s2_def csp_buffer_init_def boot_def)
  have nosock: "sock_owned k = {#}" if "k \<in> set (sockets t)" for k
    using that assms s3(1) t(2) by (simp add: boot_def sock_owned_def)
  have noconn: "conn_owned k = {#}" "queue_inv (rx_queue k)" if "k \<in> set (conns t)" for k
    using that c3(2) t(1) by (auto simp: in_set_conv_nth conn_def conn_owned_def List.map_filter_def)
  have "owned t = {#}" using q nosock noconn(1) by (simp add: owned_def t(6) sum_list_empty List.map_filter_def)
  moreover have "stack_wf t"
    using q noconn(2) t(2,6,7) s3(1,3) assms by (auto simp: stack_wf_def boot_def)
  ultimately have "acct {#} t" using pool by (simp add: acct_def)
  moreover have "rx_sized t" using q by (simp add: rx_sized_def)
  moreover have "conn_wf t" using conn_wf_cong [of t s3] wf3 t(1-3) by (simp add: conn_pool_def)
  ultimately show ?thesis using c3(1) t(1) assms unfolding t_def [symmetric] by (auto simp: node_ok_def stack_ok_def boot_def)
qed

text \<open>What the start does to the fields outside the pools and queues.\<close>

lemma conn_init_frame:
  "ports (fold conn_init cs u) = ports u" "iflist (fold conn_init cs u) = iflist u" "conf_version (fold conn_init cs u) = conf_version u"
  by (induction cs arbitrary: u) (simp_all add: conn_init_def csp_rdp_init_def upd_rdp_def upd_conn_def)

lemma csp_init_frame:
  "ports (csp_init mem s) = ports s"
  "interfaces (iflist s) = [] \<Longrightarrow> interfaces (iflist (csp_init mem s)) = [csp_if_lo]"
  "length (ifs (iflist (csp_init mem s))) = length (ifs (iflist s))"
  "if_name (iface (csp_init mem s) i) = if_name (iface s i)"
proof -
  define s1 where "s1 = (let s = (if conf_version s = 0 \<or> conf_version s > 2 then s\<lparr>conf_version := 2\<rparr> else s)
     in if conf_dedup s > CSP_DEDUP_ALL then s\<lparr>conf_dedup := CSP_DEDUP_OFF\<rparr> else s)"
  have s1: "ports s1 = ports s" "iflist s1 = iflist s" by (simp_all add: s1_def Let_def)
  define u where "u = csp_rdp_queue_init (csp_qfifo_init (csp_conn_init (csp_buffer_init mem s1)))"
  have u: "ports u = ports s" "iflist u = iflist s"
    by (simp_all add: u_def csp_rdp_queue_init_def csp_qfifo_init_def csp_conn_init_def conn_init_frame csp_buffer_init_def s1)
  define v where "v = upd_iface csp_if_lo (\<lambda>f. f\<lparr>if_netmask := of_nat (csp_id_get_host_bits (conf_version u))\<rparr>) u"
  have v: "ports v = ports s" "interfaces (iflist v) = interfaces (iflist s)" "length (ifs (iflist v)) = length (ifs (iflist s))"
    "if_name (ifs (iflist v) ! i) = if_name (ifs (iflist s) ! i)" for i
    by (simp_all add: v_def upd_iface_def u iface_def nth_update_if)
  have run: "csp_init mem s = v\<lparr>iflist := snd (csp_iflist_add csp_if_lo (iflist v))\<rparr>"
    by (simp add: csp_init_def Let_def s1_def [unfolded Let_def, symmetric] u_def [symmetric] v_def)
  have "ifs (snd (csp_iflist_add csp_if_lo l)) = ifs l" for l by (simp add: csp_iflist_add_def Let_def)
  then show "ports (csp_init mem s) = ports s" "length (ifs (iflist (csp_init mem s))) = length (ifs (iflist s))"
    "if_name (iface (csp_init mem s) i) = if_name (iface s i)"
    by (simp_all add: run v iface_def)
  show "interfaces (iflist s) = [] \<Longrightarrow> interfaces (iflist (csp_init mem s)) = [csp_if_lo]"
    by (simp add: run v csp_iflist_add_def)
qed

section \<open>The calls keep the invariant\<close>

lemma node_ok_stack: "node_ok M s \<longleftrightarrow> stack_ok M s \<and> conn_wf s \<and> 0 < length (conns s)"
  by (simp add: node_ok_def)

lemma node_get:
  assumes "node_ok M s" "csp_buffer_get s = (r, t)"
  shows "node_ok (case r of None \<Rightarrow> M | Some p \<Rightarrow> add_mset p M) t \<and> node_frame s t"
proof -
  note g = stack_ok_get [OF _ assms(2)]
  have "conn_wf t" using conn_wf_conns(2) [of s] assms by (simp add: node_ok_def)
  then show ?thesis using g assms(1) by (auto simp: node_ok_def node_frame_def same_size_def)
qed

lemma node_input:
  assumes "node_ok (add_mset p M) s"
  shows "node_ok M (csp_qfifo_write (Some p) (Some i) s)"
proof -
  have a: "acct (add_mset p M) s" "rx_sized s" "conn_wf s" using node_okD [OF assms] by simp_all
  note w = qfifo_write_spec(1,2) [OF a(1), of i]
  have "rx_sized (csp_qfifo_write (Some p) (Some i) s)"
    using a(2) w(2) qfifo_write_pkt [OF a(1), of i] by (simp add: rx_sized_def net_frame_def)
  moreover have "conn_pool (csp_qfifo_write (Some p) (Some i) s) = conn_pool s"
    using w(2) by (simp add: net_frame_def conn_pool_def)
  then have "conn_wf (csp_qfifo_write (Some p) (Some i) s)" using conn_wf_cong a(3) by blast
  ultimately show ?thesis using w by (intro node_okI [OF assms]) (auto simp: stack_ok_def intro: node_frame_net)
qed

lemma node_send:
  assumes "node_ok (add_mset p M) s" "c < length (conns s)"
  shows "node_ok M (csp_send [] (Some c) (Some p) s)"
proof -
  have a: "stack_ok (add_mset p M) s" "conn_wf s" using node_okD [OF assms(1)] by simp_all
  note sd = send_ok [OF a(1) assms(2) _ refl, of "[]"]
  have so: "conn_wf (send_on_conn c x u)" if "conn_wf u" for x u using that by (simp add: send_on_conn_def case_prod_beta pool_simps)
  have "conn_wf (snd (csp_rdp_send [] c p s))" by (rule conn_wf_rdp_send [OF a(2)]) simp
  then have "conn_wf (csp_send [] (Some c) (Some p) s)"
    using a(2) by (simp add: csp_send_def case_prod_beta so pool_simps)
  then show ?thesis using sd by (intro node_okI [OF assms(1)]) (simp_all add: node_frame_def same_size_def)
qed

lemma node_reply:
  assumes "node_ok (add_mset p M) s" "t = csp_sendto prio dest dport' sport' opts p s"
  shows "node_ok M t"
proof -
  have p: "packet_wf (pkt s p)" using held_allocated(4) [of "add_mset p M" s p] node_okD [OF assms(1)] by simp
  have id: "node_ok (add_mset p M) (set_pkt p ((pkt s p)\<lparr>pid := i\<rparr>) s)" for i
    by (rule node_ok_set_pkt [OF assms(1)]) (use p in \<open>simp add: packet_wf_def\<close>)
  have "node_ok M (snd (csp_send_direct j (Some p) None u))" if "node_ok (add_mset p M) u" for j u
    using send_direct_ok [of p M u, OF _ refl] node_okD [OF that] by (intro node_okI [OF that]) (auto simp: pool_simps intro: node_frame_net)
  moreover have "node_ok M (csp_buffer_free (Some p) (set_errno e u))" if "node_ok (add_mset p M) u" for e u
    using that by (intro node_ok_free) simp
  ultimately show ?thesis using id assms by (simp add: csp_sendto_def Let_def)
qed

lemma node_read:
  assumes "node_ok M s" "c < length (conns s)" "csp_read (\<lambda>n s. s) (Some c) timeout s = (r, t)"
  shows "node_ok (case r of None \<Rightarrow> M | Some p \<Rightarrow> add_mset p M) t"
proof -
  have a: "stack_ok M s" "conn_wf s" using node_okD [OF assms(1)] by simp_all
  note rd = read_ok [OF a(1) assms(2) _ assms(3)]
  have "conn_wf (snd (csp_read (\<lambda>n s. s) (Some c) timeout s))"
    using a(2) by (simp add: csp_read_def Let_def case_prod_beta pool_simps split: option.split)
  then show ?thesis using rd assms(3) by (intro node_okI [OF assms(1)]) (simp_all add: node_frame_def same_size_def)
qed

lemma node_send_syn:
  assumes "node_ok M s" "c < length (conns s)" "csp_rdp_send_syn c s = (e, t)"
  shows "\<exists>N. size N \<le> 1 \<and> node_ok (N + M) t \<and> node_frame s t"
proof -
  obtain r u where get: "csp_buffer_get s = (r, u)" by (rule prod.exhaust)
  note g = node_get [OF assms(1) get]
  show ?thesis
  proof (cases r)
    case None
    then show ?thesis using assms(3) get g by (intro exI [of _ "{#}"]) (simp add: csp_rdp_send_syn_def)
  next
    case (Some p)
    have gu: "node_ok (add_mset p M) u" using g Some by simp
    then have pu: "packet_wf (pkt u p)" using held_allocated(4) [of "add_mset p M" u p] node_okD by simp
    define x where "x = (pkt u p)\<lparr>pmem := mwrite (data_at 0) (syn_payload (rdp_dfl u)) (pmem (pkt u p)), plength := 24\<rparr>"
    have "packet_wf x" using pu by (simp add: x_def packet_wf_def syn_payload_def data_at_def CSP_BUFFER_SIZE_def)
    define v where "v = set_pkt p x u"
    have v: "node_ok (add_mset p M) v" "node_frame u v"
      using node_ok_set_pkt [OF gu \<open>packet_wf x\<close>] by (simp_all add: v_def node_frame_def set_pkt_def)
    have cm: "send_cmp_packet c p RDP_SYN (snd_iss (rdp (conn v c))) 0 v = (e, t)"
      using assms(3) get Some by (simp add: csp_rdp_send_syn_def csp_rdp_send_cmp_def Let_def v_def x_def)
    have a: "acct (add_mset p M) v" "rx_sized v" "conn_wf v" using node_okD [OF v(1)] by simp_all
    note sp = send_cmp_packet_spec [OF a(1) cm]
    have "conn_wf t" using conn_wf_send_cmp [OF a(3), of c "Some p" RDP_SYN] cm by (simp add: csp_rdp_send_cmp_def) (metis snd_conv)
    moreover have "rx_sized t" using rx_sized_fixed [OF a(2), of t M] sp(2,3) by (simp add: cmp_effect_def)
    moreover have fr: "node_frame v t" using sp(2) by (auto simp: cmp_effect_def intro: node_frame_rdp)
    moreover have "\<exists>N. size N \<le> 1 \<and> acct (N + M) t"
      using sp(1)
    proof
      assume "acct M t"
      then show ?thesis by (intro exI [of _ "{#}"]) simp
    next
      assume "RDP_SYN AND RDP_SYN \<noteq> 0 \<and> e = CSP_ERR_NOMEM \<and> free_list v = [] \<and> acct (add_mset p M) t"
      then show ?thesis by (intro exI [of _ "{#p#}"]) simp
    qed
    ultimately show ?thesis
      using node_okI [OF v(1)] node_frame_trans [OF _ node_frame_trans [OF v(2) fr]] g by (auto simp: stack_ok_def)
  qed
qed


lemma node_upd_rdp [simp]: "node_ok M (upd_rdp c f s) = node_ok M s"
proof -
  have "conn_wf (upd_rdp c f s) \<Longrightarrow> conn_wf s"
  proof -
    assume wf: "conn_wf (upd_rdp c f s)"
    have "conns (upd_rdp c (\<lambda>_. rdp (conn s c)) (upd_rdp c f s)) = conns s"
      by (cases "c < length (conns s)") (simp_all add: upd_rdp_def upd_conn_def conn_def list_update_beyond)
    then have "conn_pool (upd_rdp c (\<lambda>_. rdp (conn s c)) (upd_rdp c f s)) = conn_pool s"
      by (simp add: conn_pool_def) (simp add: upd_rdp_def upd_conn_def)
    then show ?thesis using conn_wf_upd(1) [OF wf] conn_wf_cong by blast
  qed
  moreover have "length (conns (upd_rdp c f s)) = length (conns s)" by (simp add: upd_rdp_def upd_conn_def)
  ultimately show ?thesis unfolding node_ok_def by (auto simp: conn_wf_upd(1))
qed

lemma node_frame_upd_rdp [simp]: "node_frame s (upd_rdp c f s)"
  by (simp add: node_frame_def upd_rdp_def upd_conn_def)

lemma node_attempt:
  assumes "node_ok M s" "c < length (conns s)" "node_task w" "connect_attempt retry w c s = (r, t)"
  shows "\<exists>N. size N \<le> 1 \<and> node_ok (N + M) t \<and> node_frame s t"
proof (cases "rdp_st (rdp (conn s c)) = RDP_OPEN")
  case True
  then show ?thesis using assms by (intro exI [of _ "{#}"]) (simp add: connect_attempt_def)
next
  case False
  define s1 where "s1 = (let iss = ucast (rand_r s (now s));
      s = upd_rdp c (\<lambda>r. r\<lparr>snd_iss := iss, snd_nxt := iss + 1, snd_una := iss\<rparr>) s
      in upd_rdp c (\<lambda>r. r\<lparr>rdp_st := RDP_SYN_SENT\<rparr>) (snd (sem_wait (\<lambda>s. s) c s)))"
  have s1: "node_ok M s1" "node_frame s s1"
    using assms(1) by (simp_all add: s1_def sem_wait_def Let_def) (simp add: node_frame_def upd_rdp_def upd_conn_def)
  obtain e s2 where syn: "csp_rdp_send_syn c s1 = (e, s2)" by (rule prod.exhaust)
  obtain N where N: "size N \<le> 1" "node_ok (N + M) s2" "node_frame s s2"
    using node_send_syn [OF s1(1) _ syn] s1(2) assms(2) node_frame_trans by (fastforce simp: node_frame_def)
  obtain ok s3 where sw: "sem_wait w c s2 = (ok, s3)" by (rule prod.exhaust)
  have s3: "node_ok (N + M) s3" "node_frame s s3"
  proof -
    define u where "u = (if tx_wait (rdp (conn s2 c)) then s2 else w s2)"
    have "node_ok (N + M) u" "node_frame s u"
      using assms(3) N(2,3) node_frame_trans by (auto simp: u_def node_task_def)
    moreover have "s3 = upd_rdp c (\<lambda>r. r\<lparr>tx_wait := False\<rparr>) u" using sw by (simp add: sem_wait_def u_def Let_def)
    ultimately show "node_ok (N + M) s3" "node_frame s s3" using node_frame_trans [OF _ node_frame_upd_rdp] by simp_all
  qed
  have cl: "node_ok (N + M) (snd (csp_rdp_close_internal c by' b u)) \<and> node_frame s (snd (csp_rdp_close_internal c by' b u))"
    if "node_ok (N + M) u" "node_frame s u" for by' b u
  proof -
    have a: "acct (N + M) u" "rx_sized u" "conn_wf u" using node_okD [OF that(1)] by simp_all
    have "c < length (conns u)" using that(2) assms(2) by (simp add: node_frame_def)
    note sp = close_internal_spec [OF a(1,2) this prod.collapse [symmetric], of by' b]
    have "conn_wf (snd (csp_rdp_close_internal c by' b u))" by (rule conn_wf_close(1) [OF a(3)])
    then show ?thesis using sp node_frame_trans [OF that(2)]
      by (auto simp: stack_ok_def intro!: node_okI [OF that(1)] intro: node_frame_rdp)
  qed
  have fl: "node_ok (N + M) (csp_rdp_queue_flush (Some c) u) \<and> node_frame s (csp_rdp_queue_flush (Some c) u)"
    if "node_ok (N + M) u" "node_frame s u" for u
  proof -
    have a: "acct (N + M) u" "rx_sized u" "conn_wf u" using node_okD [OF that(1)] by simp_all
    note qf = queue_flush_frame [OF a(1) refl, of c]
    have "rx_sized (csp_rdp_queue_flush (Some c) u)" using a(2) qf(2,6) by (auto simp: rx_sized_def)
    then show ?thesis using qf(1,3) a(3) that by (auto simp: node_ok_def stack_ok_def pool_simps node_frame_def)
  qed
  have run: "(r, t) = (let error = (\<lambda>s. (Some CSP_ERR_TIMEDOUT, snd (csp_rdp_close_internal c CSP_RDP_CLOSED_BY_PROTOCOL False s)))
      in if e \<noteq> CSP_ERR_NONE then error s2
         else if ok \<and> rdp_st (rdp (conn s3 c)) = RDP_OPEN then (Some CSP_ERR_NONE, s3)
         else if ok \<and> rdp_st (rdp (conn s3 c)) = RDP_SYN_SENT \<and> retry then (None, csp_rdp_queue_flush (Some c) s3)
         else error s3)"
    using assms(4) False unfolding connect_attempt_def Let_def s1_def [unfolded Let_def, symmetric]
    by (cases "e = CSP_ERR_NONE") (simp_all add: syn sw)
  show ?thesis
    using run cl [OF N(2,3)] cl [OF s3] fl [OF s3] s3 N(1) by (intro exI [of _ N]) (auto simp: Let_def split: if_splits)
qed

lemma node_connect:
  assumes "node_ok M s" "node_task w" "node_task w'" "csp_connect w w' prio dest dport' opts s = (r, t)"
  shows "\<exists>N. size N \<le> 2 \<and> node_ok (N + M) t"
proof -
  have a: "conn_wf s" "acct M s" "0 < length (conns s)" "rx_sized s" using node_okD [OF assms(1)] by simp_all
  obtain x u where co: "connect_open prio dest dport' (connect_opts s opts) s = (x, u)" by (rule prod.exhaust)
  note sp = connect_open_spec [OF a(1-3) co]
  have "rx_sized u" using a(4) sp by (simp add: rx_sized_def)
  then have stu: "stack_ok M u" "conn_wf u" using sp by (simp_all add: stack_ok_def)
  show ?thesis
  proof (cases x)
    case None
    then have "u = conn_out_inc s" "t = u" using sp assms(4) by (auto simp: connect_unfold co)
    then show ?thesis using assms(1) by (intro exI [of _ "{#}"]) simp
  next
    case (Some c)
    have c: "c < length (conns u)" "node_frame s u" using sp Some by (auto simp: rdp_frame_def node_frame_def)
    have u: "node_ok M u" by (rule node_okI [OF assms(1) stu c(2)])
    show ?thesis
    proof (cases "connect_flags (connect_opts s opts) AND CSP_FRDP \<noteq> 0")
      case False
      then show ?thesis using assms(4) u by (intro exI [of _ "{#}"]) (simp add: connect_unfold co Some)
    next
      case True
      define f where "f = (\<lambda>r :: csp_rdp. r\<lparr>window_size := csp_rdp_window_size (rdp_dfl u), conn_timeout := csp_rdp_conn_timeout (rdp_dfl u),
        packet_timeout := csp_rdp_packet_timeout (rdp_dfl u), delayed_acks := csp_rdp_delayed_acks (rdp_dfl u),
        ack_timeout := csp_rdp_ack_timeout (rdp_dfl u), ack_delay_count := csp_rdp_ack_delay_count (rdp_dfl u), ack_timestamp := now u\<rparr>)"
      obtain y v where at1: "connect_attempt True w c (upd_rdp c f u) = (y, v)" by (rule prod.exhaust)
      have cu: "c < length (conns (upd_rdp c f u))" using c(1) by (simp add: upd_rdp_def upd_conn_def)
      obtain N where N: "size N \<le> 1" "node_ok (N + M) v" "node_frame u v"
        using node_attempt [OF _ cu assms(2) at1, of M] u node_frame_trans [OF node_frame_upd_rdp] by auto
      obtain z v' where at2: "connect_attempt False w' c v = (z, v')" by (rule prod.exhaust)
      have cv: "c < length (conns v)" using N(3) c(1) by (simp add: node_frame_def)
      obtain N' where N': "size N' \<le> 1" "node_ok (N' + (N + M)) v'" "node_frame v v'"
        using node_attempt [OF N(2) cv assms(3) at2] by auto
      have cv': "c < length (conns v')" using N'(3) cv by (simp add: node_frame_def)
      have "\<exists>K. size K \<le> 2 \<and> node_ok (K + M) (snd (csp_rdp_connect w w' c u)) \<and> c < length (conns (snd (csp_rdp_connect w w' c u)))"
      proof (cases y)
        case None
        then show ?thesis
          using N(1) N' cv' by (intro exI [of _ "N' + N"]) (simp add: csp_rdp_connect_def f_def [symmetric] at1 at2 add.assoc Let_def)
      next
        case (Some e)
        then show ?thesis using N cv by (intro exI [of _ N]) (simp add: csp_rdp_connect_def f_def [symmetric] at1 Let_def)
      qed
      then obtain K where K: "size K \<le> 2" "node_ok (K + M) (snd (csp_rdp_connect w w' c u))"
        "c < length (conns (snd (csp_rdp_connect w w' c u)))" by blast
      have "t = snd (csp_rdp_connect w w' c u) \<or> t = snd (csp_close (Some c) (snd (csp_rdp_connect w w' c u)))"
        using assms(4) True by (auto simp: connect_unfold co Some case_prod_beta split: if_splits)
      then show ?thesis using K conn_close_ok [OF K(2,3)] by auto
    qed
  qed
qed


section \<open>Sockets\<close>

lemma conn_wf_ports: "conn_wf s \<Longrightarrow> conns t = conns s \<Longrightarrow> length (sockets t) = length (sockets s) \<Longrightarrow> port_wf t \<Longrightarrow> conn_wf t"
  by (simp add: conn_wf_def conn_def dest_ok_def)

lemma node_okI_ports:
  assumes "node_ok M s" "acct N t" "conns t = conns s" "length (sockets t) = length (sockets s)" "port_wf t"
    and "rdp_rx t = rdp_rx s" "bufs t = bufs s"
  shows "node_ok N t"
proof -
  have a: "conn_wf s" "rx_sized s" using node_okD [OF assms(1)] by simp_all
  have "rx_sized t" using a(2) assms(6,7) by (simp add: rx_sized_def pkt_def)
  then show ?thesis
    using assms conn_wf_ports [OF a(1) assms(3-5)] by (intro node_okI [OF assms(1)]) (simp_all add: stack_ok_def node_frame_def)
qed

lemma node_port_wf: "node_ok M s \<Longrightarrow> port_wf s"
  by (simp add: node_ok_def conn_wf_def)

lemma node_listen:
  assumes "node_ok M s" "k < length (sockets s)" "sock_queue (sockets s ! k) = None"
  shows "node_ok M (snd (csp_listen k s))"
proof -
  have "acct M (snd (csp_listen k s))" unfolding csp_listen_def snd_conv
    by (rule acct_sock_rx) (use node_okD [OF assms(1)] assms(2,3) queue_create_empty [of CSP_CONN_RXQUEUE_LEN "Sock_packet 0"]
        in \<open>auto simp: sock_owned_def pthread_queue_create_def CSP_CONN_RXQUEUE_LEN_def\<close>)
  then show ?thesis using node_port_wf [OF assms(1)]
    by (intro node_okI_ports [OF assms(1)]) (simp_all add: csp_listen_def port_wf_def)
qed

lemma node_ports:
  assumes "node_ok M s" "length ps = length (ports s)" "\<And>k. PORT_OPEN k \<in> set ps \<Longrightarrow> k < length (sockets s)"
  shows "node_ok M (s\<lparr>ports := ps\<rparr>)"
  using node_okD [OF assms(1)] node_port_wf [OF assms(1)] assms(2,3)
  by (intro node_okI_ports [OF assms(1)]) (simp_all add: port_wf_def)

lemma node_port_update:
  assumes "node_ok M s" "\<And>k. x = PORT_OPEN k \<Longrightarrow> k < length (sockets s)"
  shows "node_ok M (s\<lparr>ports := (ports s)[slot := x]\<rparr>)"
  by (rule node_ports [OF assms(1)])
    (use node_port_wf [OF assms(1)] assms(2) set_update_subset_insert [of "ports s" slot x] in \<open>auto simp: port_wf_def\<close>)

lemma node_bind: "node_ok M s \<Longrightarrow> k < length (sockets s) \<Longrightarrow> node_ok M (snd (csp_bind (Some k) port s))"
  by (auto simp: csp_bind_def intro!: node_port_update split: option.split)

lemma node_bind_callback: "node_ok M s \<Longrightarrow> node_ok M (snd (csp_bind_callback f port s))"
  by (auto simp: csp_bind_callback_def intro!: node_port_update split: option.split)

text \<open>Taking the first element of the queue of a socket.\<close>

lemma node_dequeue:
  assumes "node_ok M s" "k < length (sockets s)" "sock_queue (sockets s ! k) = Some q" "csp_queue_dequeue q = (r, q')"
  shows "node_ok (case r of Some (Sock_packet p) \<Rightarrow> add_mset p M | _ \<Rightarrow> M)
    (s\<lparr>sockets := (sockets s)[k := (sockets s ! k)\<lparr>sock_queue := Some q'\<rparr>]\<rparr>)"
proof -
  have a: "acct M s" using node_okD [OF assms(1)] by simp
  have qi: "queue_inv q" by (rule acct_queue_inv(6) [OF a assms(2,3)])
  have "acct (case r of Some (Sock_packet p) \<Rightarrow> add_mset p M | _ \<Rightarrow> M)
    (s\<lparr>sockets := (sockets s)[k := (sockets s ! k)\<lparr>sock_queue := Some q'\<rparr>]\<rparr>)"
    using qi assms(4)
    by (cases rule: deq_cases) (rule acct_sock_rx [OF a assms(2)]; use qi in \<open>auto simp: sock_owned_def assms(3) split: sock_item.splits\<close>)+
  then show ?thesis using node_port_wf [OF assms(1)] by (intro node_okI_ports [OF assms(1)]) (simp_all add: port_wf_def)
qed

lemma node_sock_dequeue:
  assumes "node_ok M s" "k < length (sockets s)" "sock_dequeue (\<lambda>n s. s) timeout k s = (r, t)"
  shows "node_ok (case r of Some (Sock_packet p) \<Rightarrow> add_mset p M | _ \<Rightarrow> M) t"
proof (cases "sock_queue (sockets s ! k)")
  case (Some q)
  obtain x q' where deq: "csp_queue_dequeue q = (x, q')" by (rule prod.exhaust)
  show ?thesis using node_dequeue [OF assms(1,2) Some deq] assms(3) by (simp add: sock_dequeue_def Some deq)
qed (use assms in \<open>auto simp: sock_dequeue_def\<close>)

lemma sock_dequeue_result:
  assumes "sock_queue (sockets s ! k) = Some q" "queue_inv q" "fst (sock_dequeue (\<lambda>n s. s) timeout k s) = Some (Sock_packet p)"
  shows "p \<in> set (sock_packets (queue_list q))"
proof -
  obtain r q' where deq: "csp_queue_dequeue q = (r, q')" by (rule prod.exhaust)
  have "r = Some (Sock_packet p)" using assms(1,3) deq by (simp add: sock_dequeue_def)
  with assms(2) deq show ?thesis by (cases rule: deq_cases) simp_all
qed

lemma node_accept:
  assumes "node_ok M s" "k < length (sockets s)" "csp_accept (\<lambda>n s. s) (Some k) timeout s = (r, t)"
    and "sock_owned (sockets s ! k) = {#}"
  shows "node_ok M t"
proof (cases "sock_queue (sockets s ! k)")
  case (Some q)
  obtain x u where sd: "sock_dequeue (\<lambda>n s. s) timeout k s = (x, u)" by (rule prod.exhaust)
  have "queue_inv q" using acct_queue_inv(6) [OF _ assms(2) Some] node_okD [OF assms(1)] by blast
  then have "x \<noteq> Some (Sock_packet p)" for p
    using sock_dequeue_result [OF Some, of timeout p] assms(4) sd by (auto simp: sock_owned_def Some)
  then show ?thesis using node_sock_dequeue [OF assms(1,2) sd] assms(3) Some
    by (auto simp: csp_accept_def sd split: option.splits sock_item.splits)
qed (use assms in \<open>auto simp: csp_accept_def\<close>)

lemma node_recvfrom:
  assumes "node_ok M s" "k < length (sockets s)" "csp_recvfrom (\<lambda>n s. s) (Some k) timeout s = (r, t)"
  shows "node_ok (case r of None \<Rightarrow> M | Some p \<Rightarrow> add_mset p M) t"
proof -
  obtain x u where sd: "sock_dequeue (\<lambda>n s. s) timeout k s = (x, u)" by (rule prod.exhaust)
  show ?thesis using node_sock_dequeue [OF assms(1,2) sd] assms(1,3)
    by (auto simp: csp_recvfrom_def sd split: option.splits sock_item.splits if_splits)
qed

lemma node_sock_flush:
  assumes "node_ok M s" "k < length (sockets s)"
  shows "node_ok M (sock_flush n k s)"
  using assms
proof (induction n arbitrary: s)
  case (Suc n)
  show ?case
  proof (cases "sock_queue (sockets s ! k)")
    case (Some q)
    obtain r q' where deq: "csp_queue_dequeue q = (r, q')" by (rule prod.exhaust)
    note d = node_dequeue [OF Suc.prems Some deq]
    define v where "v = s\<lparr>sockets := (sockets s)[k := (sockets s ! k)\<lparr>sock_queue := Some q'\<rparr>]\<rparr>"
    have lenv: "k < length (sockets v)" using Suc.prems(2) by (simp add: v_def)
    have len: "k < length (sockets (csp_buffer_free (Some p) v))" for p
      using Suc.prems(2) pool_simps(13) [of "Some p" v] by (simp add: v_def conn_pool_def)
    show ?thesis
    proof (cases r)
      case None
      then show ?thesis using Suc.prems Some deq by simp
    next
      case item: (Some x)
      show ?thesis
        using Suc.IH [of "csp_buffer_free (Some p) v" for p] Suc.IH [of "set_errno CSP_DBG_ERR_CORRUPT_BUFFER v"] d item len lenv node_ok_free
        by (cases x) (auto simp: Some deq v_def [symmetric] Let_def)
    qed
  qed (use Suc.prems in simp)
qed simp

lemma node_socket_close:
  assumes "node_ok M s" "k < length (sockets s)"
  shows "node_ok M (snd (csp_socket_close (Some k) s))"
proof -
  have "set (close_slot k ps) \<subseteq> insert PORT_CLOSED (set ps)" for ps by (induction ps) auto
  then have "node_ok M (s\<lparr>ports := close_slot k (ports s)\<rparr>)"
    using node_port_wf [OF assms(1)] by (intro node_ports [OF assms(1)]) (auto simp: port_wf_def)
  then show ?thesis using assms(2) node_sock_flush by (simp add: csp_socket_close_def Let_def split: option.split)
qed


section \<open>The bridge and the promiscuous mode\<close>

lemma node_send_iface:
  assumes "node_ok (add_mset p M) s"
  shows "node_ok M (csp_send_direct_iface idout p i via from_me s)"
proof -
  have a: "acct (add_mset p M) s" "rx_sized s" "conn_wf s" using node_okD [OF assms] by simp_all
  note sp = send_direct_iface_spec [OF a(1), of idout i via from_me]
  have "pkt (csp_send_direct_iface idout p i via from_me s) h = pkt s h" if "h \<in># fixed_pkts M s" for h
    using that held_once [OF a(1)] fixed_owned [OF that] kept_allocated [OF a(1), of h]
    by (intro send_direct_iface_pkt [OF a(1)]) (auto simp: fixed_pkts_def kept_def)
  moreover have "rdp_rx (csp_send_direct_iface idout p i via from_me s) = rdp_rx s" using sp(2) by (simp add: net_frame_def)
  ultimately have "rx_sized (csp_send_direct_iface idout p i via from_me s)" using rx_sized_fixed [OF a(2)] by blast
  moreover have "conn_pool (csp_send_direct_iface idout p i via from_me s) = conn_pool s" using sp(2) by (simp add: net_frame_def conn_pool_def)
  then have "conn_wf (csp_send_direct_iface idout p i via from_me s)" using conn_wf_cong a(3) by blast
  ultimately show ?thesis using sp(1,2) by (intro node_okI [OF assms]) (auto simp: stack_ok_def intro: node_frame_net)
qed

lemma node_bridge:
  assumes "node_ok M s"
  shows "node_ok M (csp_bridge_work a b s)"
proof -
  obtain r t where rd: "csp_qfifo_read s = (r, t)" by (rule prod.exhaust)
  note t = qfifo_read_ok [OF assms rd]
  show ?thesis
  proof (cases "\<exists>ifc p. r = Some (ifc, Some p)")
    case True
    then obtain ifc p where r: "r = Some (ifc, Some p)" by blast
    obtain d u where dup: "stack_is_duplicate p t = (d, u)" by (rule prod.exhaust)
    have u: "node_ok (add_mset p M) u" using is_duplicate_ok [OF _ dup] t r by simp
    then show ?thesis using node_ok_free [OF u] node_send_iface [OF promisc_add_ok [OF u]]
      by (cases d) (simp_all add: csp_bridge_work_def rd r dup Let_def)
  qed (use t rd in \<open>auto simp: csp_bridge_work_def split: option.splits prod.splits\<close>)
qed

lemma node_promisc_queue:
  assumes "node_ok M s" "queue_inv q" "mset (queue_list q) + N = (case promisc_queue s of None \<Rightarrow> {#} | Some p \<Rightarrow> mset (queue_list p)) + M"
  shows "node_ok N (s\<lparr>promisc_queue := Some q, promisc_enabled := b\<rparr>)"
proof -
  have "acct N (s\<lparr>promisc_queue := Some q, promisc_enabled := b\<rparr>)"
    by (rule acct_transfer [of M s])
      (use assms node_okD [OF assms(1)] acct_stack_wf [of M s] in \<open>simp_all add: stack_wf_def owned_def ac_simps\<close>)
  then show ?thesis using node_port_wf [OF assms(1)] by (intro node_okI_ports [OF assms(1)]) (simp_all add: port_wf_def)
qed

lemma node_promisc_enabled [simp]:
  assumes "node_ok M s"
  shows "node_ok M (s\<lparr>promisc_enabled := b\<rparr>)"
proof -
  have a: "acct M s" using node_okD [OF assms] by simp
  have "acct M (s\<lparr>promisc_enabled := b\<rparr>)"
    by (rule acct_transfer [OF a]) (use acct_stack_wf [OF a] in \<open>simp_all add: owned_def stack_wf_def\<close>)
  then show ?thesis using node_port_wf [OF assms] by (intro node_okI_ports [OF assms]) (simp_all add: port_wf_def)
qed

lemma node_promisc:
  assumes "node_ok M s"
  shows "node_ok M (snd (csp_promisc_enable s))" "node_ok M (csp_promisc_disable s)"
    "csp_promisc_read s = (r, t) \<Longrightarrow> node_ok (case r of None \<Rightarrow> M | Some p \<Rightarrow> add_mset p M) t"
proof -
  show "node_ok M (snd (csp_promisc_enable s))"
  proof (cases "promisc_queue s")
    case None
    obtain q where q: "pthread_queue_create True (0 :: nat) CSP_CONN_RXQUEUE_LEN = Some q" by (simp add: pthread_queue_create_def)
    have "queue_inv q" "queue_list q = []"
      using queue_create_empty [of CSP_CONN_RXQUEUE_LEN "0 :: nat"] by (simp_all only: q option.sel) (simp_all add: CSP_CONN_RXQUEUE_LEN_def)
    then show ?thesis using node_promisc_queue [OF assms, of q M True] None q by (simp add: csp_promisc_enable_def)
  qed (use assms in \<open>simp add: csp_promisc_enable_def\<close>)
  show "node_ok M (csp_promisc_disable s)" using assms by (simp add: csp_promisc_disable_def)
  assume rd: "csp_promisc_read s = (r, t)"
  show "node_ok (case r of None \<Rightarrow> M | Some p \<Rightarrow> add_mset p M) t"
  proof (cases "promisc_queue s")
    case (Some q)
    obtain q' where deq: "csp_queue_dequeue q = (r, q')" "t = s\<lparr>promisc_queue := Some q'\<rparr>"
      using rd Some by (auto simp: csp_promisc_read_def split: prod.splits)
    have a: "acct M s" using node_okD [OF assms] by simp
    have qi: "queue_inv q" by (rule acct_queue_inv(4) [OF a Some])
    have "acct (case r of None \<Rightarrow> M | Some p \<Rightarrow> add_mset p M) t"
      using qi deq(1) unfolding deq(2) by (cases rule: deq_cases) (rule acct_promisc [OF a Some]; use qi in simp)+
    then show ?thesis using node_port_wf [OF assms] by (intro node_okI_ports [OF assms]) (simp_all add: port_wf_def deq(2))
  qed (use assms rd in \<open>simp add: csp_promisc_read_def\<close>)
qed

section \<open>Reachable states\<close>

text \<open>The states of a node after any sequence of calls. \<open>M\<close> is the buffers drivers, applications and
  callbacks hold: only they may be written, sent or released. \<open>L\<close> counts the steps that can lose a buffer, one
  for every packet the router handles and two for every \<open>csp_connect\<close>, which sends up to two SYN packets. What other tasks
  do while a call waits, and the callbacks, keep the invariant themselves.\<close>

inductive node_reachable :: "nat \<Rightarrow> nat multiset \<Rightarrow> csp_state \<Rightarrow> bool" where
  start: "boot mem s \<Longrightarrow> node_reachable 0 {#} (csp_init mem s)"
| buffer_get: "node_reachable L M s \<Longrightarrow> csp_buffer_get s = (r, t) \<Longrightarrow>
    node_reachable L (case r of None \<Rightarrow> M | Some p \<Rightarrow> add_mset p M) t"
| buffer_free: "node_reachable L (add_mset p M) s \<Longrightarrow> node_reachable L M (csp_buffer_free (Some p) s)"
| fill: "node_reachable L (add_mset p M) s \<Longrightarrow> packet_wf x \<Longrightarrow> node_reachable L (add_mset p M) (set_pkt p x s)"
| input: "node_reachable L (add_mset p M) s \<Longrightarrow> node_reachable L M (csp_qfifo_write (Some p) (Some i) s)"
| route: "node_reachable L M s \<Longrightarrow> node_task w \<Longrightarrow> sound_callbacks cb \<Longrightarrow> node_reachable (L + 1) M (snd (csp_route_work w cb s))"
| bridge: "node_reachable L M s \<Longrightarrow> node_reachable L M (csp_bridge_work a b s)"
| promisc_enable: "node_reachable L M s \<Longrightarrow> node_reachable L M (snd (csp_promisc_enable s))"
| promisc_disable: "node_reachable L M s \<Longrightarrow> node_reachable L M (csp_promisc_disable s)"
| promisc_read: "node_reachable L M s \<Longrightarrow> csp_promisc_read s = (r, t) \<Longrightarrow>
    node_reachable L (case r of None \<Rightarrow> M | Some p \<Rightarrow> add_mset p M) t"
| listen: "node_reachable L M s \<Longrightarrow> k < length (sockets s) \<Longrightarrow> sock_queue (sockets s ! k) = None \<Longrightarrow>
    node_reachable L M (snd (csp_listen k s))"
| bind: "node_reachable L M s \<Longrightarrow> k < length (sockets s) \<Longrightarrow> node_reachable L M (snd (csp_bind (Some k) port s))"
| bind_callback: "node_reachable L M s \<Longrightarrow> node_reachable L M (snd (csp_bind_callback f port s))"
| socket_close: "node_reachable L M s \<Longrightarrow> k < length (sockets s) \<Longrightarrow> node_reachable L M (snd (csp_socket_close (Some k) s))"
| accept: "node_reachable L M s \<Longrightarrow> k < length (sockets s) \<Longrightarrow> sock_owned (sockets s ! k) = {#} \<Longrightarrow>
    csp_accept (\<lambda>n s. s) (Some k) timeout s = (r, t) \<Longrightarrow> node_reachable L M t"
| recvfrom: "node_reachable L M s \<Longrightarrow> k < length (sockets s) \<Longrightarrow> csp_recvfrom (\<lambda>n s. s) (Some k) timeout s = (r, t) \<Longrightarrow>
    node_reachable L (case r of None \<Rightarrow> M | Some p \<Rightarrow> add_mset p M) t"
| connect: "node_reachable L M s \<Longrightarrow> node_task w \<Longrightarrow> node_task w' \<Longrightarrow>
    node_reachable (L + 2) M (snd (csp_connect w w' prio dest port opts s))"
| read: "node_reachable L M s \<Longrightarrow> c < length (conns s) \<Longrightarrow> csp_read (\<lambda>n s. s) (Some c) timeout s = (r, t) \<Longrightarrow>
    node_reachable L (case r of None \<Rightarrow> M | Some p \<Rightarrow> add_mset p M) t"
| send: "node_reachable L (add_mset p M) s \<Longrightarrow> c < length (conns s) \<Longrightarrow> node_reachable L M (csp_send [] (Some c) (Some p) s)"
| sendto: "node_reachable L (add_mset p M) s \<Longrightarrow> node_reachable L M (csp_sendto prio dest port src_port opts p s)"
| close: "node_reachable L M s \<Longrightarrow> c < length (conns s) \<Longrightarrow> node_reachable L M (snd (csp_close (Some c) s))"

text \<open>The invariant with the buffers lost so far.\<close>

definition ok_but :: "nat \<Rightarrow> nat multiset \<Rightarrow> csp_state \<Rightarrow> bool" where
  "ok_but L M s \<longleftrightarrow> (\<exists>N. size N \<le> L \<and> node_ok (N + M) s)"

lemma ok_but_map:
  assumes "ok_but L M s" "\<And>N. node_ok (N + M) s \<Longrightarrow> node_ok (N + M') t"
  shows "ok_but L M' t"
  using assms unfolding ok_but_def by blast

lemma ok_but_lose:
  assumes "ok_but L M s" "\<And>K. node_ok K s \<Longrightarrow> \<exists>N. size N \<le> n \<and> node_ok (N + K) t"
  shows "ok_but (L + n) M t"
proof -
  obtain N where N: "size N \<le> L" "node_ok (N + M) s" using assms(1) by (auto simp: ok_but_def)
  obtain N' where "size N' \<le> n" "node_ok (N' + (N + M)) t" using assms(2) [OF N(2)] by blast
  then show ?thesis using N(1) unfolding ok_but_def by (intro exI [of _ "N' + N"]) (simp add: add.assoc)
qed

lemma reachable_ok: "node_reachable L M s \<Longrightarrow> ok_but L M s"
proof (induction rule: node_reachable.induct)
  case (start mem s)
  then show ?case using csp_init_node by (auto simp: ok_but_def)
next
  case (buffer_get L M s r t)
  then show ?case using node_get by (intro ok_but_map [OF buffer_get.IH]) (fastforce split: option.splits)
next
  case (buffer_free L p M s)
  then show ?case using node_ok_free by (intro ok_but_map [OF buffer_free.IH]) simp
next
  case (fill L p M s x)
  then show ?case using node_ok_set_pkt by (intro ok_but_map [OF fill.IH]) simp
next
  case (input L p M s i)
  then show ?case using node_input by (intro ok_but_map [OF input.IH]) simp
next
  case (route L M s w cb)
  then show ?case using route_work_ok [OF _ _ _ prod.collapse [symmetric]] by (intro ok_but_lose [OF route.IH]) (simp add: ok_but_one_def)
next
  case (bridge L M s a b)
  then show ?case using node_bridge by (intro ok_but_map [OF bridge.IH])
next
  case (promisc_enable L M s)
  then show ?case using node_promisc(1) by (intro ok_but_map [OF promisc_enable.IH])
next
  case (promisc_disable L M s)
  then show ?case using node_promisc(2) by (intro ok_but_map [OF promisc_disable.IH])
next
  case (promisc_read L M s r t)
  then show ?case using node_promisc(3) by (intro ok_but_map [OF promisc_read.IH]) (fastforce split: option.splits)
next
  case (listen L M s k)
  then show ?case using node_listen by (intro ok_but_map [OF listen.IH])
next
  case (bind L M s k port)
  then show ?case using node_bind by (intro ok_but_map [OF bind.IH])
next
  case (bind_callback L M s f port)
  then show ?case using node_bind_callback by (intro ok_but_map [OF bind_callback.IH])
next
  case (socket_close L M s k)
  then show ?case using node_socket_close by (intro ok_but_map [OF socket_close.IH])
next
  case (accept L M s k timeout r t)
  then show ?case using node_accept by (intro ok_but_map [OF accept.IH])
next
  case (recvfrom L M s k timeout r t)
  then show ?case using node_recvfrom by (intro ok_but_map [OF recvfrom.IH]) (fastforce split: option.splits)
next
  case (connect L M s w w' prio dest port opts)
  then show ?case using node_connect [OF _ _ _ prod.collapse [symmetric]] by (intro ok_but_lose [OF connect.IH])
next
  case (read L M s c timeout r t)
  then show ?case using node_read by (intro ok_but_map [OF read.IH]) (fastforce split: option.splits)
next
  case (send L p M s c)
  then show ?case using node_send by (intro ok_but_map [OF send.IH]) simp
next
  case (sendto L p M s prio dest port src_port opts)
  then show ?case using node_reply [OF _ refl] by (intro ok_but_map [OF sendto.IH]) simp
next
  case (close L M s c)
  then show ?case using conn_close_ok by (intro ok_but_map [OF close.IH])
qed

section \<open>Properties\<close>


definition boot_ex :: csp_state where
  "boot_ex = pool_ex\<lparr>sockets := [], ports := replicate (CSP_PORT_MAX_BIND + 2) PORT_CLOSED, promisc_queue := None\<rparr>"


end
