(* ===== verification/Param.thy ===== *)
theory Param
  imports Prelude
begin

text \<open>
  The parameter system of libparam: typed access to parameters (\<open>lib/param/src/param/param.c\<close>) that live in RAM or
  in a virtual memory (\<open>src/vmem/vmem_ram.c\<close>, \<open>src/vmem/vmem_file.c\<close>).

  A variable of the program is a list of bytes of its own, so an access behind its end is seen: it sets the mark
  \<open>ub\<close>, writes nothing and reads zeros. The machine is little-endian. A value is its object representation. A
  callback is known by its number; what it does is an argument of the operations that call it.
\<close>

section \<open>Data\<close>

datatype param_type = PARAM_TYPE_UINT8 | PARAM_TYPE_UINT16 | PARAM_TYPE_UINT32 | PARAM_TYPE_UINT64
  | PARAM_TYPE_INT8 | PARAM_TYPE_INT16 | PARAM_TYPE_INT32 | PARAM_TYPE_INT64
  | PARAM_TYPE_XINT8 | PARAM_TYPE_XINT16 | PARAM_TYPE_XINT32 | PARAM_TYPE_XINT64
  | PARAM_TYPE_FLOAT | PARAM_TYPE_DOUBLE | PARAM_TYPE_STRING | PARAM_TYPE_DATA | PARAM_TYPE_INVALID

text \<open>The driver of a virtual memory; \<open>vm_mem\<close> is the memory at \<open>physaddr\<close>.\<close>

datatype vmem_driver = VMEM_RAM | VMEM_FILE string

record vmem =
  vm_driver :: vmem_driver
  vm_size :: nat
  vm_big_endian :: bool
  vm_ack_with_pull :: bool
  vm_mem :: "byte list"

text \<open>The address of a parameter in RAM is the number of the variable, in a virtual memory the offset.\<close>

record param =
  param_id :: u16
  param_node :: u16
  param_ty :: param_type
  param_mask :: u32
  param_addr :: nat
  param_vmem :: "nat option"
  array_size :: int
  array_step :: int
  param_callback :: "nat option"

text \<open>\<open>can_write\<close> says for which names \<open>fopen\<close> for writing succeeds; a file that exists can be read.\<close>

record pstate =
  vars :: "byte list list"
  vmems :: "vmem list"
  files :: "string \<Rightarrow> byte list option"
  can_write :: "string \<Rightarrow> bool"
  ub :: bool

section \<open>Storage\<close>

definition var_read :: "nat \<Rightarrow> nat \<Rightarrow> nat \<Rightarrow> 'a pstate_scheme \<Rightarrow> byte list \<times> 'a pstate_scheme" where
  "var_read k off n s =
     (if k < length (vars s) \<and> off + n \<le> length (vars s ! k) then (mread off n (vars s ! k), s)
      else (replicate n 0, s\<lparr>ub := True\<rparr>))"

definition var_write :: "nat \<Rightarrow> nat \<Rightarrow> byte list \<Rightarrow> 'a pstate_scheme \<Rightarrow> 'a pstate_scheme" where
  "var_write k off bs s =
     (if k < length (vars s) \<and> off + length bs \<le> length (vars s ! k)
      then s\<lparr>vars := (vars s)[k := mwrite off bs (vars s ! k)]\<rparr> else s\<lparr>ub := True\<rparr>)"

definition vmem_ram_read :: "nat \<Rightarrow> nat \<Rightarrow> nat \<Rightarrow> 'a pstate_scheme \<Rightarrow> byte list \<times> 'a pstate_scheme" where
  "vmem_ram_read v addr n s =
     (if addr + n \<le> length (vm_mem (vmems s ! v)) then (mread addr n (vm_mem (vmems s ! v)), s)
      else (replicate n 0, s\<lparr>ub := True\<rparr>))"

definition vmem_ram_write :: "nat \<Rightarrow> nat \<Rightarrow> byte list \<Rightarrow> 'a pstate_scheme \<Rightarrow> 'a pstate_scheme" where
  "vmem_ram_write v addr bs s =
     (if addr + length bs \<le> length (vm_mem (vmems s ! v))
      then s\<lparr>vmems := (vmems s)[v := (vmems s ! v)\<lparr>vm_mem := mwrite addr bs (vm_mem (vmems s ! v))\<rparr>]\<rparr>
      else s\<lparr>ub := True\<rparr>)"

text \<open>The file driver keeps the memory in RAM and writes all of it to the file at every write.\<close>

definition vmem_file_init :: "nat \<Rightarrow> string \<Rightarrow> 'a pstate_scheme \<Rightarrow> 'a pstate_scheme" where
  "vmem_file_init v name s =
     (case files s name of None \<Rightarrow> s
      | Some content \<Rightarrow> vmem_ram_write v 0 (take (vm_size (vmems s ! v)) content) s)"

definition vmem_file_read :: "nat \<Rightarrow> nat \<Rightarrow> nat \<Rightarrow> 'a pstate_scheme \<Rightarrow> byte list \<times> 'a pstate_scheme" where
  "vmem_file_read v addr n s = vmem_ram_read v addr n s"

definition vmem_file_write :: "nat \<Rightarrow> string \<Rightarrow> nat \<Rightarrow> byte list \<Rightarrow> 'a pstate_scheme \<Rightarrow> 'a pstate_scheme" where
  "vmem_file_write v name addr bs s =
     (let s = vmem_ram_write v addr bs s
      in if \<not> can_write s name then s
         else s\<lparr>files := (files s)(name := Some (take (vm_size (vmems s ! v)) (vm_mem (vmems s ! v))))\<rparr>)"

definition vmem_read :: "nat \<Rightarrow> nat \<Rightarrow> nat \<Rightarrow> 'a pstate_scheme \<Rightarrow> byte list \<times> 'a pstate_scheme" where
  "vmem_read v addr n s =
     (case vm_driver (vmems s ! v) of VMEM_RAM \<Rightarrow> vmem_ram_read v addr n s | VMEM_FILE name \<Rightarrow> vmem_file_read v addr n s)"

definition vmem_write :: "nat \<Rightarrow> nat \<Rightarrow> byte list \<Rightarrow> 'a pstate_scheme \<Rightarrow> 'a pstate_scheme" where
  "vmem_write v addr bs s =
     (case vm_driver (vmems s ! v) of VMEM_RAM \<Rightarrow> vmem_ram_write v addr bs s | VMEM_FILE name \<Rightarrow> vmem_file_write v name addr bs s)"

text \<open>The memory of a parameter, \<open>off\<close> bytes behind its address. The addition of the address in a virtual memory wraps at 32 bits.\<close>

definition param_load :: "param \<Rightarrow> u32 \<Rightarrow> nat \<Rightarrow> 'a pstate_scheme \<Rightarrow> byte list \<times> 'a pstate_scheme" where
  "param_load p off n s =
     (case param_vmem p of
        None \<Rightarrow> var_read (param_addr p) (unat off) n s
      | Some v \<Rightarrow> vmem_read v (unat (of_nat (param_addr p) + off)) n s)"

definition param_store :: "param \<Rightarrow> u32 \<Rightarrow> byte list \<Rightarrow> 'a pstate_scheme \<Rightarrow> 'a pstate_scheme" where
  "param_store p off bs s =
     (case param_vmem p of
        None \<Rightarrow> var_write (param_addr p) (unat off) bs s
      | Some v \<Rightarrow> vmem_write v (unat (of_nat (param_addr p) + off)) bs s)"

section \<open>Typed access\<close>

fun param_typesize :: "param_type \<Rightarrow> nat" where
  "param_typesize PARAM_TYPE_UINT8 = 1" | "param_typesize PARAM_TYPE_UINT16 = 2"
| "param_typesize PARAM_TYPE_UINT32 = 4" | "param_typesize PARAM_TYPE_UINT64 = 8"
| "param_typesize PARAM_TYPE_INT8 = 1" | "param_typesize PARAM_TYPE_INT16 = 2"
| "param_typesize PARAM_TYPE_INT32 = 4" | "param_typesize PARAM_TYPE_INT64 = 8"
| "param_typesize PARAM_TYPE_XINT8 = 1" | "param_typesize PARAM_TYPE_XINT16 = 2"
| "param_typesize PARAM_TYPE_XINT32 = 4" | "param_typesize PARAM_TYPE_XINT64 = 8"
| "param_typesize PARAM_TYPE_FLOAT = 4" | "param_typesize PARAM_TYPE_DOUBLE = 8"
| "param_typesize PARAM_TYPE_STRING = 1" | "param_typesize PARAM_TYPE_DATA = 1"
| "param_typesize PARAM_TYPE_INVALID = 0"

definition param_size :: "param \<Rightarrow> int" where
  "param_size p =
     (if param_ty p = PARAM_TYPE_STRING \<or> param_ty p = PARAM_TYPE_DATA then array_size p else int (param_typesize (param_ty p)))"

text \<open>\<open>be16toh\<close>, \<open>be32toh\<close> and \<open>be64toh\<close> reverse the bytes of an integer; the accessors of single bytes and of floating
  point numbers have no swap function.\<close>

definition swapped :: "param_type \<Rightarrow> bool" where
  "swapped ty \<longleftrightarrow> ty \<notin> {PARAM_TYPE_FLOAT, PARAM_TYPE_DOUBLE}"

definition is_native :: "param_type \<Rightarrow> bool" where
  "is_native ty \<longleftrightarrow> ty \<notin> {PARAM_TYPE_STRING, PARAM_TYPE_DATA, PARAM_TYPE_INVALID}"

definition vmem_order :: "param_type \<Rightarrow> param \<Rightarrow> 'a pstate_scheme \<Rightarrow> byte list \<Rightarrow> byte list" where
  "vmem_order ty p s d =
     (case param_vmem p of None \<Rightarrow> d | Some v \<Rightarrow> if vm_big_endian (vmems s ! v) \<and> swapped ty then rev d else d)"

text \<open>The functions the macro \<open>PARAM_GET\<close> defines, for the types with a native accessor. An index above the size gives 0; the index
  equal to the size passes the check.\<close>

definition param_get_array :: "param_type \<Rightarrow> param \<Rightarrow> u32 \<Rightarrow> 'a pstate_scheme \<Rightarrow> byte list \<times> 'a pstate_scheme" where
  "param_get_array ty p i s =
     (if i > of_int (array_size p) then (replicate (param_typesize ty) 0, s)
      else case param_load p (i * of_int (array_step p)) (param_typesize ty) s of
        (d, s) \<Rightarrow> (vmem_order ty p s d, s))"

definition param_get_data :: "param \<Rightarrow> int \<Rightarrow> 'a pstate_scheme \<Rightarrow> byte list \<times> 'a pstate_scheme" where
  "param_get_data p len s = param_load p 0 (nat len) s"

definition param_get :: "param \<Rightarrow> u32 \<Rightarrow> 'a pstate_scheme \<Rightarrow> byte list \<times> 'a pstate_scheme" where
  "param_get p offset s =
     (if is_native (param_ty p) then param_get_array (param_ty p) p offset s
      else if param_ty p = PARAM_TYPE_INVALID then ([], s)
      else param_get_data p (array_size p) s)"

type_synonym 'a callbacks = "nat \<Rightarrow> param \<Rightarrow> u32 \<Rightarrow> 'a pstate_scheme \<Rightarrow> 'a pstate_scheme"

definition run_callback :: "'a callbacks \<Rightarrow> param \<Rightarrow> u32 \<Rightarrow> 'a pstate_scheme \<Rightarrow> 'a pstate_scheme" where
  "run_callback cb p i s = (case param_callback p of None \<Rightarrow> s | Some f \<Rightarrow> cb f p i s)"

text \<open>The functions the macro \<open>PARAM_SET\<close> defines.\<close>

definition param_set_array :: "'a callbacks \<Rightarrow> param_type \<Rightarrow> param \<Rightarrow> byte list \<Rightarrow> bool \<Rightarrow> u32 \<Rightarrow> 'a pstate_scheme \<Rightarrow> 'a pstate_scheme" where
  "param_set_array cb ty p value do_callback i s =
     (if i > of_int (array_size p) then s
      else let s = param_store p (i * of_int (array_step p)) (vmem_order ty p s value) s
           in if do_callback then run_callback cb p i s else s)"

definition param_set_data_nocallback :: "param \<Rightarrow> byte list \<Rightarrow> int \<Rightarrow> 'a pstate_scheme \<Rightarrow> 'a pstate_scheme" where
  "param_set_data_nocallback p inbuf len s = param_store p 0 (take (nat len) inbuf) s"

definition param_set_data :: "'a callbacks \<Rightarrow> param \<Rightarrow> byte list \<Rightarrow> int \<Rightarrow> 'a pstate_scheme \<Rightarrow> 'a pstate_scheme" where
  "param_set_data cb p inbuf len s = run_callback cb p 0 (param_set_data_nocallback p inbuf len s)"

definition param_set_string :: "'a callbacks \<Rightarrow> param \<Rightarrow> byte list \<Rightarrow> int \<Rightarrow> 'a pstate_scheme \<Rightarrow> 'a pstate_scheme" where
  "param_set_string cb p inbuf len s =
     run_callback cb p 0 (param_store p (of_int len) [0] (param_set_data_nocallback p inbuf len s))"

definition param_set :: "'a callbacks \<Rightarrow> param \<Rightarrow> u32 \<Rightarrow> byte list \<Rightarrow> 'a pstate_scheme \<Rightarrow> 'a pstate_scheme" where
  "param_set cb p offset value s =
     (if is_native (param_ty p) then param_set_array cb (param_ty p) p (take (param_typesize (param_ty p)) value) True offset s
      else case param_ty p of
        PARAM_TYPE_STRING \<Rightarrow> let str = takeWhile (\<lambda>b. b \<noteq> 0) value @ [0] in param_set_data cb p str (int (length str)) s
      | PARAM_TYPE_DATA \<Rightarrow> param_set_data cb p value (array_size p) s
      | _ \<Rightarrow> s)"

text \<open>Copying goes through the unsigned accessors, which move the same bytes.\<close>

definition param_copy :: "'a callbacks \<Rightarrow> param \<Rightarrow> param \<Rightarrow> 'a pstate_scheme \<Rightarrow> 'a pstate_scheme" where
  "param_copy cb dest src s =
     (if param_ty dest \<noteq> param_ty src then s
      else if is_native (param_ty dest)
      then (case param_get_array (param_ty dest) src 0 s of (d, s) \<Rightarrow> param_set_array cb (param_ty dest) dest d True 0 s)
      else if param_ty dest = PARAM_TYPE_INVALID then s
      else (case param_get_data src (array_size dest) s of
              (d, s) \<Rightarrow> if param_ty dest = PARAM_TYPE_STRING then param_set_string cb dest d (array_size dest) s
                        else param_set_data cb dest d (array_size dest) s))"

section \<open>Where a parameter lives\<close>

text \<open>The memory an access uses, a variable or a virtual memory, and the first byte in it.\<close>

definition param_memory :: "param \<Rightarrow> 'a pstate_scheme \<Rightarrow> byte list option" where
  "param_memory p s =
     (case param_vmem p of
        None \<Rightarrow> if param_addr p < length (vars s) then Some (vars s ! param_addr p) else None
      | Some v \<Rightarrow> if v < length (vmems s) then Some (vm_mem (vmems s ! v)) else None)"

definition first_byte :: "param \<Rightarrow> u32 \<Rightarrow> nat" where
  "first_byte p off = (if param_vmem p = None then unat off else unat (of_nat (param_addr p) + off))"

definition in_range :: "param \<Rightarrow> u32 \<Rightarrow> nat \<Rightarrow> 'a pstate_scheme \<Rightarrow> bool" where
  "in_range p off n s \<longleftrightarrow> (\<exists>m. param_memory p s = Some m \<and> first_byte p off + n \<le> length m)"

definition same_memory :: "param \<Rightarrow> param \<Rightarrow> bool" where
  "same_memory p q \<longleftrightarrow> param_vmem p = param_vmem q \<and> (param_vmem p = None \<longrightarrow> param_addr p = param_addr q)"

definition apart :: "param \<Rightarrow> u32 \<Rightarrow> nat \<Rightarrow> param \<Rightarrow> u32 \<Rightarrow> nat \<Rightarrow> bool" where
  "apart p off n q off' n' \<longleftrightarrow> \<not> same_memory p q \<or> first_byte p off + n \<le> first_byte q off' \<or> first_byte q off' + n' \<le> first_byte p off"

lemma same_memory_eq: "same_memory p q \<Longrightarrow> param_memory q s = param_memory p s"
  by (cases "param_vmem q") (auto simp: same_memory_def param_memory_def)

lemma param_load_eq:
  assumes "in_range p off n s"
  shows "param_load p off n s = (mread (first_byte p off) n (the (param_memory p s)), s)"
  using assms
  by (auto simp: param_load_def in_range_def param_memory_def first_byte_def var_read_def vmem_read_def vmem_file_read_def vmem_ram_read_def
      split: option.splits if_splits vmem_driver.splits)

text \<open>A write in range changes the memory of the parameter and, for a file, the file; sizes and drivers stay.\<close>

lemma param_store_memory:
  assumes "in_range p off (length bs) s"
  shows "param_memory q (param_store p off bs s) =
    (if same_memory p q then Some (mwrite (first_byte p off) bs (the (param_memory p s))) else param_memory q s)"
  using assms
  by (cases "param_vmem p"; cases "param_vmem q")
    (auto simp: param_store_def in_range_def param_memory_def first_byte_def same_memory_def var_write_def vmem_write_def vmem_file_write_def
      vmem_ram_write_def Let_def nth_list_update split: if_splits vmem_driver.splits)

lemma param_store_frame:
  assumes "in_range p off (length bs) s"
  shows "ub (param_store p off bs s) = ub s" "length (vmems (param_store p off bs s)) = length (vmems s)"
    "map vm_big_endian (vmems (param_store p off bs s)) = map vm_big_endian (vmems s)"
    "map vm_size (vmems (param_store p off bs s)) = map vm_size (vmems s)"
  using assms
  by (auto simp: param_store_def in_range_def param_memory_def first_byte_def var_write_def vmem_write_def vmem_file_write_def
      vmem_ram_write_def Let_def map_update list_update_same_conv split: option.splits if_splits vmem_driver.splits)

lemma vmem_order_store:
  assumes "in_range p off (length bs) s"
  shows "vmem_order ty q (param_store p off bs s) d = vmem_order ty q s d"
proof (cases "param_vmem q")
  case (Some v)
  show ?thesis
  proof (cases "v < length (vmems s)")
    case True
    have "vm_big_endian (vmems (param_store p off bs s) ! v) = vm_big_endian (vmems s ! v)"
      using arg_cong [OF param_store_frame(3) [OF assms], of "\<lambda>xs. xs ! v"] param_store_frame(2) [OF assms] True by simp
    then show ?thesis by (simp add: vmem_order_def Some)
  next
    case False
    have "v \<noteq> the (param_vmem p) \<or> param_vmem p = None" using False assms by (auto simp: in_range_def param_memory_def split: option.splits if_splits)
    then have "vmems (param_store p off bs s) ! v = vmems s ! v"
      by (auto simp: param_store_def var_write_def vmem_write_def vmem_file_write_def vmem_ram_write_def Let_def nth_list_update_neq
          split: option.splits vmem_driver.splits)
    then show ?thesis by (simp add: vmem_order_def Some)
  qed
qed (simp add: vmem_order_def)

lemma length_vmem_order [simp]: "length (vmem_order ty p s d) = length d"
  by (simp add: vmem_order_def split: option.split)

lemma vmem_order_twice [simp]: "vmem_order ty p s (vmem_order ty p s d) = d"
  by (simp add: vmem_order_def split: option.split)

lemma in_range_store:
  assumes "in_range p off (length bs) s"
  shows "in_range q off' n (param_store p off bs s) = in_range q off' n s"
proof -
  obtain m where m: "param_memory p s = Some m" "first_byte p off + length bs \<le> length m" using assms by (auto simp: in_range_def)
  then show ?thesis using same_memory_eq [of p q s] by (auto simp: in_range_def param_store_memory [OF assms])
qed

lemma load_store_same:
  assumes "in_range p off (length bs) s"
  shows "param_load p off (length bs) (param_store p off bs s) = (bs, param_store p off bs s)"
proof -
  obtain m where m: "param_memory p s = Some m" "first_byte p off + length bs \<le> length m" using assms by (auto simp: in_range_def)
  have "in_range p off (length bs) (param_store p off bs s)" using assms by (simp add: in_range_store)
  then show ?thesis using m by (simp add: param_load_eq param_store_memory [OF assms] same_memory_def mread_mwrite_same)
qed

lemma load_store_apart:
  assumes "in_range p off (length bs) s" "in_range q off' n s" "apart p off (length bs) q off' n"
  shows "fst (param_load q off' n (param_store p off bs s)) = fst (param_load q off' n s)"
proof -
  obtain m where m: "param_memory p s = Some m" "first_byte p off + length bs \<le> length m" using assms(1) by (auto simp: in_range_def)
  have "in_range q off' n (param_store p off bs s)" using assms by (simp add: in_range_store)
  then show ?thesis
    using assms(2,3) m same_memory_eq [of p q s] by (auto simp: param_load_eq param_store_memory [OF assms(1)] apart_def mread_mwrite_disjoint)
qed

section \<open>Properties\<close>

text \<open>A restart of the program: the memory behind a virtual memory is a static array, zero at the start.\<close>

definition restart :: "'a pstate_scheme \<Rightarrow> 'a pstate_scheme" where
  "restart s = s\<lparr>vmems := map (\<lambda>v. v\<lparr>vm_mem := replicate (length (vm_mem v)) 0\<rparr>) (vmems s)\<rparr>"

lemma set_array_store:
  assumes "\<not> i > of_int (array_size p)"
  shows "param_set_array cb ty p x False i s = param_store p (i * of_int (array_step p)) (vmem_order ty p s x) s"
  using assms by (simp add: param_set_array_def)


definition param_ex :: param where
  "param_ex = \<lparr>param_id = 21, param_node = 0, param_ty = PARAM_TYPE_UINT16, param_mask = 128, param_addr = 16, param_vmem = Some 0,
     array_size = 1, array_step = 0, param_callback = None\<rparr>"

definition pstate_ex :: pstate where
  "pstate_ex = \<lparr>vars = [[0, 0, 0, 0]], vmems = [\<lparr>vm_driver = VMEM_FILE ''f'', vm_size = 20, vm_big_endian = True, vm_ack_with_pull = True,
     vm_mem = replicate 20 0\<rparr>], files = (\<lambda>_. None), can_write = (\<lambda>_. True), ub = False\<rparr>"

lemma param_ex_range: "in_range param_ex 0 2 pstate_ex"
  by (simp add: in_range_def param_memory_def first_byte_def param_ex_def pstate_ex_def)


text \<open>The index check of an array parameter in RAM lets pass one index too many. For an array of \<open>n\<close> elements, an access leaves
  the variable exactly if the index is \<open>n\<close>: every smaller one is inside, and every larger one is refused.\<close>

theorem param_array_bounds:
  assumes "param_vmem p = None" "param_addr p < length (vars s)" "length (vars s ! param_addr p) = n * param_typesize ty"
    and "array_size p = int n" "array_step p = int (param_typesize ty)" "n * param_typesize ty < 2 ^ 32" "0 < param_typesize ty"
    and "length x = param_typesize ty" "\<not> ub s"
  shows "(ub (snd (param_get_array ty p i s)) \<longleftrightarrow> unat i = n) \<and> (ub (param_set_array cb ty p x False i s) \<longleftrightarrow> unat i = n)"
proof -
  let ?k = "param_typesize ty"
  have n: "n < 2 ^ 32" using assms(6,7) by (metis mult.commute nat_mult_le_cancel_disj le_less_trans less_one mult.right_neutral not_less)
  have cmp: "i > of_int (array_size p) \<longleftrightarrow> n < unat i" using n by (simp add: assms(4) word_less_nat_alt unat_of_nat)
  have off: "unat (i * of_int (array_step p)) = unat i * ?k" if "unat i \<le> n"
  proof -
    have "unat i * ?k < 2 ^ 32" using that assms(6) by (meson le_less_trans mult_le_mono1)
    moreover have "?k < 2 ^ 32" by (cases ty) simp_all
    ultimately show ?thesis by (simp add: assms(5) unat_word_ariths unat_of_nat)
  qed
  have fit: "unat i * ?k + ?k \<le> n * ?k \<longleftrightarrow> unat i < n"
  proof -
    have "unat i * ?k + ?k = Suc (unat i) * ?k" by simp
    then show ?thesis using assms(7) by (metis Suc_le_eq mult_le_cancel2)
  qed
  have "ub (snd (param_get_array ty p i s)) \<longleftrightarrow> unat i \<le> n \<and> \<not> unat i < n"
    using off fit assms(1-3,9) by (auto simp: param_get_array_def cmp param_load_def var_read_def case_prod_beta)
  moreover have "ub (param_set_array cb ty p x False i s) \<longleftrightarrow> unat i \<le> n \<and> \<not> unat i < n"
    using off fit assms(1-3,8,9) by (auto simp: param_set_array_def cmp param_store_def var_write_def vmem_order_def Let_def)
  ultimately show ?thesis by auto
qed

theorem param_array_bounds_witness:
  "ub (snd (param_get_array PARAM_TYPE_UINT16 (param_ex\<lparr>param_vmem := None, param_addr := 0, array_size := 2, array_step := 2\<rparr>) 2 pstate_ex))"
proof -
  let ?p = "param_ex\<lparr>param_vmem := None, param_addr := 0, array_size := 2, array_step := 2\<rparr>"
  have "param_vmem ?p = None" "param_addr ?p < length (vars pstate_ex)" "length (vars pstate_ex ! param_addr ?p) = 2 * param_typesize PARAM_TYPE_UINT16"
    "array_size ?p = int 2" "array_step ?p = int (param_typesize PARAM_TYPE_UINT16)" "2 * param_typesize PARAM_TYPE_UINT16 < 2 ^ 32"
    "0 < param_typesize PARAM_TYPE_UINT16" "length [0, 0 :: byte] = param_typesize PARAM_TYPE_UINT16" "\<not> ub pstate_ex"
    by (simp_all add: pstate_ex_def)
  from param_array_bounds [OF this, of 2 "\<lambda>_ _ _ s. s"] show ?thesis by simp
qed

text \<open>Persistence. A parameter in a virtual memory with a file that can be written survives a restart of the program if
  \<open>vmem_file_init\<close> loads the file; without that call it reads as zero, whatever was written.\<close>

theorem param_file_persists:
  fixes cb :: "'a callbacks"
  assumes "\<not> i > of_int (array_size p)" "length x = param_typesize ty" "in_range p (i * of_int (array_step p)) (param_typesize ty) s"
    and "param_vmem p = Some v" "vm_driver (vmems s ! v) = VMEM_FILE name" "can_write s name" "vm_size (vmems s ! v) = length (vm_mem (vmems s ! v))"
  defines "t \<equiv> restart (param_set_array cb ty p x False i s)"
  shows "fst (param_get_array ty p i (vmem_file_init v name t)) = x \<and> fst (param_get_array ty p i t) = replicate (param_typesize ty) 0"
proof -
  let ?off = "i * of_int (array_step p)"
  let ?x = "vmem_order ty p s x"
  define m where "m = mwrite (first_byte p ?off) ?x (vm_mem (vmems s ! v))"
  have v: "v < length (vmems s)" "first_byte p ?off + param_typesize ty \<le> length (vm_mem (vmems s ! v))"
    using assms(3,4) by (auto simp: in_range_def param_memory_def split: if_splits)
  have lm: "length m = vm_size (vmems s ! v)" using v(2) assms(2,7) by (simp add: m_def)
  have set: "param_set_array cb ty p x False i s =
      s\<lparr>vmems := (vmems s)[v := (vmems s ! v)\<lparr>vm_mem := m\<rparr>], files := (files s)(name := Some m)\<rparr>"
    using v assms(2,4-7) lm unfolding set_array_store [OF assms(1)]
    by (simp add: param_store_def vmem_write_def vmem_file_write_def vmem_ram_write_def Let_def m_def first_byte_def)
  have tv: "t = s\<lparr>vmems := (map (\<lambda>v. v\<lparr>vm_mem := replicate (length (vm_mem v)) 0\<rparr>) (vmems s))[v := (vmems s ! v)\<lparr>vm_mem := replicate (length m) 0\<rparr>],
      files := (files s)(name := Some m)\<rparr>"
    by (simp add: t_def restart_def set map_update)
  have f: "files t name = Some m" "vmems t ! v = (vmems s ! v)\<lparr>vm_mem := replicate (length m) 0\<rparr>"
    using v(1) by (simp_all add: tv)
  have init: "vm_mem (vmems (vmem_file_init v name t) ! v) = m" "vm_big_endian (vmems (vmem_file_init v name t) ! v) = vm_big_endian (vmems s ! v)"
    "v < length (vmems (vmem_file_init v name t))"
    using f v(1) lm by (simp_all add: vmem_file_init_def vmem_ram_write_def tv mwrite_def)
  have rd: "param_load p ?off (param_typesize ty) u = (mread (first_byte p ?off) (param_typesize ty) (vm_mem (vmems u ! v)), u)"
    if "v < length (vmems u)" "length (vm_mem (vmems u ! v)) = length m" for u :: "'a pstate_scheme"
  proof -
    have "in_range p ?off (param_typesize ty) u" using that v(2) lm assms(4,7) by (simp add: in_range_def param_memory_def)
    then show ?thesis using that(1) assms(4) by (simp add: param_load_eq param_memory_def)
  qed
  have "mread (first_byte p ?off) (param_typesize ty) m = ?x" using v(2) assms(2) by (simp add: m_def mread_mwrite_same)
  then have "fst (param_get_array ty p i (vmem_file_init v name t)) = x"
    using assms(1,4) rd [of "vmem_file_init v name t"] init vmem_order_twice [of ty p s x] by (simp add: param_get_array_def vmem_order_def)
  moreover have "mread (first_byte p ?off) (param_typesize ty) (replicate (length m) 0) = replicate (param_typesize ty) (0 :: byte)"
    using v(2) lm assms(7) by (simp add: mread_def min_def)
  then have "fst (param_get_array ty p i t) = replicate (param_typesize ty) 0"
    using assms(1,4) rd [of t] v(1) f(2) by (simp add: param_get_array_def vmem_order_def tv)
  ultimately show ?thesis by blast
qed

end
