(* ===== verification/Sys_Manager.thy ===== *)
theory Sys_Manager
  imports Csp_Node Param
begin

text \<open>
  The application, \<open>main.c\<close>: the parameters of the system manager with their callbacks, the buffer of
  the standard output, the flag for suspending at boot, and the start of the node.

  The state extends the parameter memory by the network stack, the global variables and what the program asks the
  operating system to do: \<open>commands\<close> are the lines given to \<open>system\<close> and \<open>popen\<close>, \<open>pipes\<close> counts the streams of \<open>popen\<close>
  that are open, \<open>popen_lines\<close> says what a command prints, line by line, \<open>None\<close> when \<open>popen\<close> fails. What \<open>printf\<close> and \<open>perror\<close>
  write to the terminal is left out.
\<close>

section \<open>State\<close>

record sys = pstate +
  net :: csp_state
  stdbuf_pos :: nat
  can_addr_v :: u16
  can_netmask_v :: u16
  commands :: "string list"
  pipes :: nat
  popen_lines :: "string \<Rightarrow> byte list list option"

text \<open>The variables behind the parameters in RAM.\<close>

definition V_suspend_a53 :: nat where "V_suspend_a53 = 0"
definition V_vimba_install :: nat where "V_vimba_install = 1"
definition V_mng_camera_control :: nat where "V_mng_camera_control = 2"
definition V_mng_dipp :: nat where "V_mng_dipp = 3"
definition V_switch_m7_bin :: nat where "V_switch_m7_bin = 4"
definition V_stdbuf :: nat where "V_stdbuf = 5"
definition V_tmpbuf :: nat where "V_tmpbuf = 6"

lemmas var_defs = V_suspend_a53_def V_vimba_install_def V_mng_camera_control_def V_mng_dipp_def V_switch_m7_bin_def
  V_stdbuf_def V_tmpbuf_def

definition STDBUF_SIZE :: nat where "STDBUF_SIZE = 110"
definition CAN_ADDR_DEFAULT :: u16 where "CAN_ADDR_DEFAULT = 21"
definition CAN_NETMASK_DEFAULT :: u16 where "CAN_NETMASK_DEFAULT = 8"
definition PARAM_PORT_SERVER :: nat where "PARAM_PORT_SERVER = 10"

definition PM_READONLY :: u32 where "PM_READONLY = 1"
definition PM_CONF :: u32 where "PM_CONF = 4"
definition PM_SYSCONF :: u32 where "PM_SYSCONF = 128"

definition PARAM_DEFINE_STATIC_VMEM :: "u16 \<Rightarrow> param_type \<Rightarrow> int \<Rightarrow> int \<Rightarrow> u32 \<Rightarrow> nat option \<Rightarrow> nat \<Rightarrow> nat \<Rightarrow> param" where
  "PARAM_DEFINE_STATIC_VMEM i ty array_count step fl cb vm vmem_addr =
     \<lparr>param_id = i, param_node = 0, param_ty = ty, param_mask = fl, param_addr = vmem_addr, param_vmem = Some vm,
      array_size = (if array_count < 1 then 1 else array_count), array_step = step, param_callback = cb\<rparr>"

definition PARAM_DEFINE_STATIC_RAM :: "u16 \<Rightarrow> param_type \<Rightarrow> int \<Rightarrow> int \<Rightarrow> u32 \<Rightarrow> nat option \<Rightarrow> nat \<Rightarrow> param" where
  "PARAM_DEFINE_STATIC_RAM i ty array_count step fl cb physaddr =
     \<lparr>param_id = i, param_node = 0, param_ty = ty, param_mask = fl, param_addr = physaddr, param_vmem = None,
      array_size = (if array_count < 1 then 1 else array_count), array_step = step, param_callback = cb\<rparr>"

text \<open>The virtual memory \<open>config\<close> is number 0; the callbacks are numbered in the order of the parameters.\<close>

definition can_addr :: param where "can_addr = PARAM_DEFINE_STATIC_VMEM 21 PARAM_TYPE_UINT16 (-1) 0 PM_SYSCONF (Some 0) 0 0x10"
definition can_netmask :: param where "can_netmask = PARAM_DEFINE_STATIC_VMEM 22 PARAM_TYPE_UINT16 (-1) 0 PM_SYSCONF (Some 1) 0 0x12"
definition suspend_on_boot :: param where "suspend_on_boot = PARAM_DEFINE_STATIC_VMEM 23 PARAM_TYPE_UINT8 (-1) 0 PM_SYSCONF (Some 2) 0 0x100"
definition suspend_a53 :: param where "suspend_a53 = PARAM_DEFINE_STATIC_RAM 31 PARAM_TYPE_UINT8 (-1) 0 PM_CONF (Some 3) V_suspend_a53"
definition vimba_install :: param where "vimba_install = PARAM_DEFINE_STATIC_RAM 32 PARAM_TYPE_UINT8 (-1) 0 PM_CONF (Some 4) V_vimba_install"
definition mng_camera_control :: param where
  "mng_camera_control = PARAM_DEFINE_STATIC_RAM 33 PARAM_TYPE_UINT8 (-1) 0 PM_CONF (Some 5) V_mng_camera_control"
definition mng_dipp :: param where "mng_dipp = PARAM_DEFINE_STATIC_RAM 34 PARAM_TYPE_UINT8 (-1) 0 PM_CONF (Some 6) V_mng_dipp"
definition switch_m7_bin :: param where "switch_m7_bin = PARAM_DEFINE_STATIC_RAM 35 PARAM_TYPE_UINT8 (-1) 0 PM_READONLY None V_switch_m7_bin"
definition stdout_buf :: param where
  "stdout_buf = PARAM_DEFINE_STATIC_RAM 41 PARAM_TYPE_STRING (int STDBUF_SIZE + 1) 1 PM_READONLY None V_stdbuf"

lemmas param_defs = can_addr_def can_netmask_def suspend_on_boot_def suspend_a53_def vimba_install_def mng_camera_control_def mng_dipp_def
  switch_m7_bin_def stdout_buf_def PARAM_DEFINE_STATIC_RAM_def PARAM_DEFINE_STATIC_VMEM_def

text \<open>Native accessors as used here, on little-endian object representations.\<close>

definition le16_dec :: "byte list \<Rightarrow> u16" where
  "le16_dec bs = be16_dec (rev bs)"

definition param_get_uint8 :: "param \<Rightarrow> sys \<Rightarrow> u8 \<times> sys" where
  "param_get_uint8 p s = (case param_get_array PARAM_TYPE_UINT8 p 0 s of (d, s) \<Rightarrow> (hd d, s))"

definition param_get_uint16 :: "param \<Rightarrow> sys \<Rightarrow> u16 \<times> sys" where
  "param_get_uint16 p s = (case param_get_array PARAM_TYPE_UINT16 p 0 s of (d, s) \<Rightarrow> (le16_dec d, s))"

section \<open>Text\<close>

definition str_bytes :: "string \<Rightarrow> byte list" where
  "str_bytes = map (\<lambda>c. of_nat (of_char c))"

fun decimal :: "nat \<Rightarrow> string" where
  "decimal n = (if n < 10 then [char_of (48 + n)] else decimal (n div 10) @ [char_of (48 + n mod 10)])"

text \<open>\<open>fscanf (file, "%d", ...)\<close>: white space, a sign, digits; \<open>None\<close> if there is no number.\<close>

definition is_space :: "byte \<Rightarrow> bool" where
  "is_space b \<longleftrightarrow> b = 32 \<or> (9 \<le> b \<and> b \<le> 13)"

definition is_digit :: "byte \<Rightarrow> bool" where
  "is_digit b \<longleftrightarrow> 48 \<le> b \<and> b \<le> 57"

definition scan_int :: "byte list \<Rightarrow> int option" where
  "scan_int bs =
     (let bs = dropWhile is_space bs;
          neg = (bs \<noteq> [] \<and> hd bs = 45);
          bs = (if bs \<noteq> [] \<and> (hd bs = 45 \<or> hd bs = 43) then tl bs else bs);
          ds = takeWhile is_digit bs;
          n = foldl (\<lambda>n d. 10 * n + (uint d - 48)) 0 ds
      in if ds = [] then None else Some (if neg then - n else n))"

section \<open>Output\<close>

text \<open>\<open>csp_print_func\<close> gets the text of its format; \<open>vsnprintf\<close> keeps 255 bytes of it. The first loop puts them into the ring \<open>tmpbuf\<close>.\<close>

fun print_loop :: "byte list \<Rightarrow> nat \<Rightarrow> sys \<Rightarrow> nat \<times> sys" where
  "print_loop [] pos s = (pos, s)"
| "print_loop (b # bs) pos s =
     (if b = 0 then (pos, s)
      else print_loop bs ((pos + 1) mod STDBUF_SIZE) (var_write V_tmpbuf pos [b] s))"

definition csp_print_func :: "byte list \<Rightarrow> sys \<Rightarrow> sys" where
  "csp_print_func text s =
     (case print_loop (take 255 text) (stdbuf_pos s) s of
        (pos, s) \<Rightarrow>
          let s = s\<lparr>stdbuf_pos := pos\<rparr>;
              s = fold (\<lambda>i s. var_write V_stdbuf i [vars s ! V_tmpbuf ! ((pos + i) mod STDBUF_SIZE)] s) [0..<STDBUF_SIZE] s;
              s = var_write V_stdbuf STDBUF_SIZE [0] s
          in param_set_string (\<lambda>_ _ _ s. s) stdout_buf (vars s ! V_stdbuf) (int STDBUF_SIZE + 1) s)"

section \<open>Callbacks\<close>

definition serial_get :: "byte list \<Rightarrow> u32" where
  "serial_get date_time = foldl (\<lambda>hash c. 31 * hash + ucast c) 0 date_time"

definition can_addr_callback :: "sys \<Rightarrow> sys" where
  "can_addr_callback s = (case param_get_uint16 can_addr s of (v, s) \<Rightarrow> s\<lparr>can_addr_v := v\<rparr>)"

definition can_netmask_callback :: "sys \<Rightarrow> sys" where
  "can_netmask_callback s = (case param_get_uint16 can_netmask s of (v, s) \<Rightarrow> s\<lparr>can_netmask_v := v\<rparr>)"

definition run_system :: "string \<Rightarrow> sys \<Rightarrow> sys" where
  "run_system cmd s = s\<lparr>commands := commands s @ [cmd]\<rparr>"

definition suspend_a53_callback :: "sys \<Rightarrow> sys" where
  "suspend_a53_callback s =
     run_system ''echo mem > /sys/power/state'' (run_system ''echo N > /sys/module/printk/parameters/console_suspend'' s)"

text \<open>\<open>popen\<close>, whose stream is never closed.\<close>

definition run_popen :: "string \<Rightarrow> sys \<Rightarrow> byte list list option \<times> sys" where
  "run_popen cmd s =
     (popen_lines s cmd, if popen_lines s cmd = None then s else s\<lparr>commands := commands s @ [cmd], pipes := pipes s + 1\<rparr>)"

definition popen_and_print :: "string \<Rightarrow> sys \<Rightarrow> sys" where
  "popen_and_print cmd s =
     (case run_popen cmd s of
        (None, s) \<Rightarrow> csp_print_func (str_bytes (''Failed to run command'' @ [char_of (10 :: nat)])) s
      | (Some lines, s) \<Rightarrow> fold csp_print_func lines s)"

definition popen_start :: "string \<Rightarrow> sys \<Rightarrow> sys" where
  "popen_start cmdbuf s =
     (case run_popen cmdbuf s of
        (None, s) \<Rightarrow> csp_print_func (str_bytes (''Failed '' @ cmdbuf @ [char_of (10 :: nat)])) s
      | (Some _, s) \<Rightarrow> s)"

definition vimba_install_callback :: "sys \<Rightarrow> sys" where
  "vimba_install_callback = popen_and_print ''/etc/lib/VimbaX_2023-4-ARM64/cti/VimbaUSBTL_Install.sh 2>&1''"

definition camera_control_cmd :: "u8 \<Rightarrow> string" where
  "camera_control_cmd v = ''/usr/bin/Disco2CameraControl -i can -d can0 -n '' @ decimal (unat v) @ '' 2>&1''"

definition mng_camera_control_callback :: "sys \<Rightarrow> sys" where
  "mng_camera_control_callback s =
     (case param_get_uint8 mng_camera_control s of
        (v, s) \<Rightarrow> if v = 0 then popen_and_print ''pkill -f /usr/bin/Disco2CameraControl 2>&1'' s else popen_start (camera_control_cmd v) s)"

definition dipp_cmd :: "u8 \<Rightarrow> string" where
  "dipp_cmd v = ''/usr/bin/dipp -i CAN -p can0 -a '' @ decimal (unat v) @ '' 2>&1''"

definition mng_dipp_callback :: "sys \<Rightarrow> sys" where
  "mng_dipp_callback s =
     (case param_get_uint8 mng_dipp s of
        (v, s) \<Rightarrow> if v = 0 then popen_and_print ''pkill -f /usr/bin/dipp 2>&1'' s else popen_start (dipp_cmd v) s)"

definition suspend_file :: string where "suspend_file = ''/home/root/suspend_on_boot''"

definition suspend_on_boot_callback :: "sys \<Rightarrow> sys" where
  "suspend_on_boot_callback s =
     (case param_get_uint8 suspend_on_boot s of
        (v, s) \<Rightarrow> if \<not> can_write s suspend_file then s
                   else s\<lparr>files := (files s)(suspend_file := Some (str_bytes (decimal (unat v))))\<rparr>)"

text \<open>\<open>param->callback (param, i)\<close>.\<close>

definition sys_callback :: "nat \<Rightarrow> param \<Rightarrow> u32 \<Rightarrow> sys \<Rightarrow> sys" where
  "sys_callback f p i s =
     (if f = 0 then can_addr_callback s else if f = 1 then can_netmask_callback s
      else if f = 2 then suspend_on_boot_callback s else if f = 3 then suspend_a53_callback s
      else if f = 4 then vimba_install_callback s else if f = 5 then mng_camera_control_callback s
      else if f = 6 then mng_dipp_callback s else s)"

definition param_set_uint8 :: "param \<Rightarrow> u8 \<Rightarrow> sys \<Rightarrow> sys" where
  "param_set_uint8 p v s = param_set_array sys_callback PARAM_TYPE_UINT8 p [v] True 0 s"

definition param_set_uint16 :: "param \<Rightarrow> u16 \<Rightarrow> sys \<Rightarrow> sys" where
  "param_set_uint16 p v s = param_set_array sys_callback PARAM_TYPE_UINT16 p (rev (be16_enc v)) True 0 s"

text \<open>If there is no number in the file, \<open>param_val\<close> is what was in memory before, the argument \<open>junk\<close>.\<close>

definition suspend_on_boot_read :: "int \<Rightarrow> sys \<Rightarrow> int \<times> sys" where
  "suspend_on_boot_read junk s =
     (case files s suspend_file of
        None \<Rightarrow> (-1, s)
      | Some content \<Rightarrow>
          let param_val = (case scan_int content of None \<Rightarrow> junk | Some v \<Rightarrow> v)
          in (param_val, param_set_uint8 suspend_on_boot (of_int param_val) s))"

section \<open>Start\<close>

text \<open>The part of \<open>csp_can_socketcan_open_and_add_interface\<close> after the calls of the operating system. \<open>oserr\<close> is the error they
  lead to, \<open>thread_ok\<close> the result of \<open>pthread_create\<close>; the new structure goes behind the known interfaces. The messages
  that say which call has failed are left out; the one at its start is in \<open>sys_main\<close>.\<close>

definition csp_can_socketcan_open_and_add_interface ::
    "int \<Rightarrow> bool \<Rightarrow> nexthop \<Rightarrow> string \<Rightarrow> u16 \<Rightarrow> csp_state \<Rightarrow> int \<times> nat \<times> csp_state" where
  "csp_can_socketcan_open_and_add_interface oserr thread_ok tx ifname node_id s =
     (let i = length (ifs (iflist s));
          ifc = \<lparr>if_addr = node_id, if_netmask = 0, if_name = ifname, if_nexthop = tx, is_default = 0, if_tx = 0, if_rx = 0, tx_error = 0,
                 rx_error = 0, if_drop = 0, autherr = 0, if_frame = 0, txbytes = 0, rxbytes = 0\<rparr>
      in if oserr \<noteq> CSP_ERR_NONE then (oserr, i, s)
         else case csp_iflist_add i ((iflist s)\<lparr>ifs := ifs (iflist s) @ [ifc]\<rparr>) of
           (res, l) \<Rightarrow>
             let s = s\<lparr>iflist := l\<rparr>
             in if res \<noteq> CSP_ERR_NONE then (res, i, s)
                else if \<not> thread_ok then (CSP_ERR_NOMEM, i, s) else (CSP_ERR_NONE, i, s))"

definition csp_service_handler_cb :: nat where "csp_service_handler_cb = 0"
definition param_serve_cb :: nat where "param_serve_cb = 1"

text \<open>The first part of \<open>main\<close>: settings, \<open>csp_init\<close>, callbacks.\<close>

definition main_net :: "csp_skbf list \<Rightarrow> csp_state \<Rightarrow> csp_state" where
  "main_net mem s =
     (let s = s\<lparr>conf_version := 2, conf_dedup := CSP_DEDUP_OFF\<rparr>;
          s = csp_init mem s;
          s = snd (csp_bind_callback (Some csp_service_handler_cb) CSP_ANY s)
      in snd (csp_bind_callback (Some param_serve_cb) PARAM_PORT_SERVER s))"

text \<open>The settings of the CAN interface: both stored values are read, then each that is 0 is replaced by its default, which is stored.\<close>

definition main_can_load :: "sys \<Rightarrow> sys" where
  "main_can_load s =
     (case param_get_uint16 can_addr s of
        (a, s) \<Rightarrow>
          let s = s\<lparr>can_addr_v := a\<rparr>
          in case param_get_uint16 can_netmask s of (m, s) \<Rightarrow> s\<lparr>can_netmask_v := m\<rparr>)"

definition main_can_addr :: "sys \<Rightarrow> sys" where
  "main_can_addr s =
     (if can_addr_v s = 0
      then let s = s\<lparr>can_addr_v := CAN_ADDR_DEFAULT\<rparr> in param_set_uint16 can_addr (can_addr_v s) s
      else s)"

definition main_can_netmask :: "sys \<Rightarrow> sys" where
  "main_can_netmask s =
     (if can_netmask_v s = 0
      then let s = s\<lparr>can_netmask_v := CAN_NETMASK_DEFAULT\<rparr> in param_set_uint16 can_netmask (can_netmask_v s) s
      else s)"

definition main_can :: "sys \<Rightarrow> sys" where
  "main_can s = main_can_netmask (main_can_addr (main_can_load s))"

definition can_init_msg :: "byte list" where
  "can_init_msg = str_bytes (''INIT CAN: device: [can0], bitrate: 1000000, promisc: 0'' @ [char_of (10 :: nat)])"

definition can_failed_msg :: "byte list" where
  "can_failed_msg = str_bytes (''Failed to open CAN interface'' @ [char_of (10 :: nat)])"

text \<open>\<open>main\<close> up to the endless loop, which gives \<open>None\<close>; an error of the CAN interface ends the program. What the two threads
  it starts do meanwhile is not part of it.\<close>

definition sys_main :: "int \<Rightarrow> bool \<Rightarrow> nexthop \<Rightarrow> int \<Rightarrow> csp_skbf list \<Rightarrow> sys \<Rightarrow> int option \<times> sys" where
  "sys_main oserr thread_ok tx junk mem s =
     (let s = s\<lparr>net := main_net mem (net s)\<rparr>;
          s = main_can s;
          s = csp_print_func can_init_msg s
      in case csp_can_socketcan_open_and_add_interface oserr thread_ok tx ''CAN'' (can_addr_v s) (net s) of
           (error, i, n) \<Rightarrow>
             let s = s\<lparr>net := n\<rparr>
             in if error \<noteq> CSP_ERR_NONE then (Some error, csp_print_func can_failed_msg s)
                else
                  let s = s\<lparr>net := upd_iface i (\<lambda>f. f\<lparr>is_default := 1, if_addr := can_addr_v s, if_netmask := can_netmask_v s, if_name := ''CAN''\<rparr>) (net s)\<rparr>
                  in case suspend_on_boot_read junk s of
                       (v, s) \<Rightarrow> (None, if v \<ge> 1 then suspend_a53_callback s else s))"

section \<open>Numbers as text\<close>

declare decimal.simps [simp del]

lemma decimal_digit: "n < 10 \<Longrightarrow> str_bytes [char_of (48 + n)] = [of_nat (48 + n)]" for n :: nat
  by (simp add: str_bytes_def)

lemma str_bytes_append [simp]: "str_bytes (xs @ ys) = str_bytes xs @ str_bytes ys"
  by (simp add: str_bytes_def)

lemma digit_byte:
  assumes "n < 10"
  shows "is_digit (of_nat (48 + n))" "uint (of_nat (48 + n) :: byte) = 48 + int n"
proof -
  have u: "unat (of_nat (48 + n) :: byte) = 48 + n" using assms by (subst unat_of_nat) simp
  then show "is_digit (of_nat (48 + n))" using assms by (simp add: is_digit_def word_le_nat_alt del: of_nat_add)
  show "uint (of_nat (48 + n) :: byte) = 48 + int n" using u by (metis of_nat_add of_nat_numeral uint_nat)
qed

lemma decimal_digits:
  "(\<forall>d \<in> set (str_bytes (decimal n)). is_digit d) \<and> decimal n \<noteq> [] \<and> foldl (\<lambda>n d. 10 * n + (uint d - 48)) 0 (str_bytes (decimal n)) = int n"
proof (induction n rule: decimal.induct)
  case (1 n)
  show ?case
  proof (cases "n < 10")
    case True
    then show ?thesis using digit_byte [OF True] by (simp add: decimal.simps [of n] decimal_digit del: of_nat_add)
  next
    case False
    have m: "n mod 10 < 10" by simp
    have "int n = 10 * int (n div 10) + int (n mod 10)" by (metis div_mult_mod_eq mult.commute of_nat_add of_nat_mult of_nat_numeral)
    then show ?thesis using 1 False digit_byte [OF m] by (simp add: decimal.simps [of n] decimal_digit [OF m] del: of_nat_add)
  qed
qed

lemma scan_decimal: "scan_int (str_bytes (decimal n)) = Some (int n)"
proof -
  define bs where "bs = str_bytes (decimal n)"
  have d: "\<forall>d \<in> set bs. is_digit d" "bs \<noteq> []" "foldl (\<lambda>n d. 10 * n + (uint d - 48)) 0 bs = int n"
    using decimal_digits [of n] by (simp_all add: bs_def) (simp add: str_bytes_def)
  then have h: "is_digit (hd bs)" by simp
  then have "48 \<le> unat (hd bs)" by (simp add: is_digit_def word_le_nat_alt)
  then have "\<not> is_space (hd bs)" "hd bs \<noteq> 45" "hd bs \<noteq> 43"
    by (auto simp: is_space_def word_le_nat_alt)
  then have "dropWhile is_space bs = bs" using d(2) by (cases bs) simp_all
  moreover have tw: "takeWhile is_digit bs = bs" using d(1) by (simp add: takeWhile_eq_all_conv)
  ultimately show ?thesis using d(2,3) \<open>hd bs \<noteq> 45\<close> \<open>hd bs \<noteq> 43\<close> by (simp add: scan_int_def bs_def [symmetric] Let_def tw)
qed

lemma length_decimal: "n < 10 ^ k \<Longrightarrow> 0 < k \<Longrightarrow> length (decimal n) \<le> k"
proof (induction k arbitrary: n)
  case (Suc k)
  show ?case
  proof (cases "n < 10")
    case True
    then show ?thesis by (simp add: decimal.simps [of n])
  next
    case False
    then have k: "0 < k" using Suc.prems(1) by (cases k) simp_all
    have "n div 10 < 10 ^ k" using Suc.prems(1) by (simp add: less_mult_imp_div_less)
    then show ?thesis using Suc.IH k False by (simp add: decimal.simps [of n])
  qed
qed simp

section \<open>The memory of the program\<close>

definition sys_wf :: "sys \<Rightarrow> bool" where
  "sys_wf s \<longleftrightarrow> map length (vars s) = [1, 1, 1, 1, 1, STDBUF_SIZE + 1, STDBUF_SIZE] \<and> stdbuf_pos s < STDBUF_SIZE \<and>
     (\<exists>m. vmems s = [\<lparr>vm_driver = VMEM_FILE ''sys-man-config.vmem'', vm_size = 1000, vm_big_endian = False, vm_ack_with_pull = True, vm_mem = m\<rparr>] \<and>
        length m = 1000)"

text \<open>The ring buffer, oldest byte first.\<close>

definition stdbuf_ring :: "sys \<Rightarrow> byte list" where
  "stdbuf_ring s = rotate (stdbuf_pos s) (vars s ! V_tmpbuf)"

lemma rotate_push:
  assumes "length xs = n" "pos < n"
  shows "rotate ((pos + 1) mod n) (xs[pos := b]) = tl (rotate pos xs) @ [b]"
proof (rule nth_equalityI)
  show "length (rotate ((pos + 1) mod n) (xs[pos := b])) = length (tl (rotate pos xs) @ [b])" using assms by simp
next
  fix i assume "i < length (rotate ((pos + 1) mod n) (xs[pos := b]))"
  then have i: "i < n" using assms(1) by simp
  have l: "rotate ((pos + 1) mod n) (xs[pos := b]) ! i = xs[pos := b] ! ((pos + 1 + i) mod n)"
    using i assms(1) by (simp add: nth_rotate mod_add_left_eq)
  show "rotate ((pos + 1) mod n) (xs[pos := b]) ! i = (tl (rotate pos xs) @ [b]) ! i"
  proof (cases "i = n - 1")
    case True
    then have "(pos + 1 + i) mod n = pos" using assms(2) by (simp add: mod_add_right_eq [symmetric])
    then show ?thesis using l True assms by (simp add: nth_append)
  next
    case False
    have "(pos + 1 + i) mod n \<noteq> pos"
    proof (cases "pos + 1 + i < n")
      case no: False
      then have "(pos + 1 + i) mod n = pos + 1 + i - n" using i assms(2) by (simp add: mod_if)
      then show ?thesis using False i no by linarith
    qed simp
    moreover have "i < n - 1" using i False by simp
    ultimately show ?thesis using l i assms by (simp add: nth_append nth_tl nth_rotate)
  qed
qed

text \<open>What printing leaves as it was.\<close>

definition same_but_print :: "sys \<Rightarrow> sys \<Rightarrow> bool" where
  "same_but_print s t \<longleftrightarrow> (\<exists>tb sb p u. t = s\<lparr>vars := (vars s)[V_tmpbuf := tb, V_stdbuf := sb], stdbuf_pos := p, ub := u\<rparr>)"

lemma print_loop_spec:
  assumes "length (vars s) = 7" "length (vars s ! V_tmpbuf) = STDBUF_SIZE" "pos < STDBUF_SIZE" "print_loop bs pos s = (pos', t)"
  shows "pos' < STDBUF_SIZE \<and> (\<exists>tb. length tb = STDBUF_SIZE \<and> t = s\<lparr>vars := (vars s)[V_tmpbuf := tb]\<rparr> \<and>
    rotate pos' tb = drop (length (takeWhile (\<lambda>b. b \<noteq> 0) bs)) (rotate pos (vars s ! V_tmpbuf) @ takeWhile (\<lambda>b. b \<noteq> 0) bs))"
  using assms
proof (induction bs arbitrary: pos s)
  case Nil
  then show ?case by (intro conjI exI [of _ "vars s ! V_tmpbuf"]) (auto simp: V_tmpbuf_def)
next
  case (Cons b bs)
  show ?case
  proof (cases "b = 0")
    case True
    then show ?thesis using Cons.prems by (intro conjI exI [of _ "vars s ! V_tmpbuf"]) (auto simp: V_tmpbuf_def)
  next
    case False
    let ?tb = "vars s ! V_tmpbuf"
    have w: "var_write V_tmpbuf pos [b] s = s\<lparr>vars := (vars s)[V_tmpbuf := ?tb[pos := b]]\<rparr>"
      using Cons.prems by (simp add: var_write_def V_tmpbuf_def mwrite_def upd_conv_take_nth_drop)
    let ?s = "s\<lparr>vars := (vars s)[V_tmpbuf := ?tb[pos := b]]\<rparr>"
    have pre: "length (vars ?s) = 7" "length (vars ?s ! V_tmpbuf) = STDBUF_SIZE" "(pos + 1) mod STDBUF_SIZE < STDBUF_SIZE"
      "print_loop bs ((pos + 1) mod STDBUF_SIZE) ?s = (pos', t)" "vars ?s ! V_tmpbuf = ?tb[pos := b]"
      using Cons.prems False w by (simp_all add: V_tmpbuf_def STDBUF_SIZE_def)
    from Cons.IH [OF pre(1-4)] obtain tb where tb: "pos' < STDBUF_SIZE" "length tb = STDBUF_SIZE" "t = ?s\<lparr>vars := (vars ?s)[V_tmpbuf := tb]\<rparr>"
      "rotate pos' tb = drop (length (takeWhile (\<lambda>b. b \<noteq> 0) bs)) (rotate ((pos + 1) mod STDBUF_SIZE) (?tb[pos := b]) @ takeWhile (\<lambda>b. b \<noteq> 0) bs)"
      unfolding pre(5) by blast
    have r: "rotate pos ?tb \<noteq> []" using Cons.prems by (auto simp: STDBUF_SIZE_def)
    have "rotate ((pos + 1) mod STDBUF_SIZE) (?tb[pos := b]) = tl (rotate pos ?tb) @ [b]" by (rule rotate_push [OF Cons.prems(2,3)])
    then have "rotate pos' tb = drop (length (takeWhile (\<lambda>b. b \<noteq> 0) (b # bs))) (rotate pos ?tb @ takeWhile (\<lambda>b. b \<noteq> 0) (b # bs))"
      using tb(4) False r by (cases "rotate pos ?tb") simp_all
    then show ?thesis using tb(1-3) by (intro conjI exI [of _ tb]) simp_all
  qed
qed

lemma copy_loop_spec:
  assumes "length (vars s) = 7" "length (vars s ! V_stdbuf) = STDBUF_SIZE + 1" "n \<le> STDBUF_SIZE"
  shows "fold (\<lambda>i s. var_write V_stdbuf i [vars s ! V_tmpbuf ! ((pos + i) mod STDBUF_SIZE)] s) [0..<n] s =
    s\<lparr>vars := (vars s)[V_stdbuf := map (\<lambda>i. vars s ! V_tmpbuf ! ((pos + i) mod STDBUF_SIZE)) [0..<n] @ drop n (vars s ! V_stdbuf)]\<rparr>"
  using assms(3)
proof (induction n)
  case 0
  then show ?case using assms(1) by (simp add: V_stdbuf_def)
next
  case (Suc n)
  let ?f = "\<lambda>i. vars s ! V_tmpbuf ! ((pos + i) mod STDBUF_SIZE)"
  let ?m = "map ?f [0..<n] @ drop n (vars s ! V_stdbuf)"
  have "mwrite n [?f n] ?m = map ?f [0..<Suc n] @ drop (Suc n) (vars s ! V_stdbuf)"
    by (simp add: mwrite_def)
  then show ?case using Suc assms(1,2) by (simp add: var_write_def V_stdbuf_def V_tmpbuf_def)
qed

lemma print_func_spec:
  assumes "sys_wf s" "t = csp_print_func text s" "out = takeWhile (\<lambda>b. b \<noteq> 0) (take 255 text)"
  shows "stdbuf_ring t = drop (length out) (stdbuf_ring s @ out)" "vars t ! V_stdbuf = stdbuf_ring t @ [0]"
    "same_but_print s t" "sys_wf t" "ub t" "length (stdbuf_ring s) = STDBUF_SIZE"
proof -
  have "length (vars s) = 7" using arg_cong [of _ _ length, OF sys_wf_def [THEN iffD1, OF assms(1), THEN conjunct1]] by simp
  moreover from assms(1) obtain a b c d e sb tb where v: "vars s = [a, b, c, d, e, sb, tb]" "length sb = STDBUF_SIZE + 1" "length tb = STDBUF_SIZE"
    by (auto simp: sys_wf_def map_eq_Cons_conv)
  ultimately have len: "length (vars s) = 7" "length (vars s ! V_tmpbuf) = STDBUF_SIZE" "length (vars s ! V_stdbuf) = STDBUF_SIZE + 1"
    by (simp_all add: V_tmpbuf_def V_stdbuf_def)
  have pos: "stdbuf_pos s < STDBUF_SIZE" using assms(1) by (simp add: sys_wf_def)
  obtain p u where loop: "print_loop (take 255 text) (stdbuf_pos s) s = (p, u)" by (rule prod.exhaust)
  obtain tb' where tb': "p < STDBUF_SIZE" "length tb' = STDBUF_SIZE" "u = s\<lparr>vars := (vars s)[V_tmpbuf := tb']\<rparr>"
    "rotate p tb' = drop (length out) (stdbuf_ring s @ out)"
    using print_loop_spec [OF len(1,2) pos loop] by (auto simp: assms(3) stdbuf_ring_def)
  have map_ring: "map (\<lambda>i. tb' ! ((p + i) mod STDBUF_SIZE)) [0..<STDBUF_SIZE] = rotate p tb'"
    using tb'(2) by (intro nth_equalityI) (simp_all add: nth_rotate)
  define w where "w = u\<lparr>stdbuf_pos := p\<rparr>"
  have lw: "length (vars w) = 7" "length (vars w ! V_stdbuf) = STDBUF_SIZE + 1" "vars w ! V_tmpbuf = tb'" "drop STDBUF_SIZE (vars w ! V_stdbuf) = [last sb]"
    using v tb'(2) by (simp_all add: w_def tb'(3) V_stdbuf_def V_tmpbuf_def) (metis add_diff_cancel_left' append_butlast_last_id diff_Suc_1 drop_eq_Nil length_butlast list.size(3) nat.distinct(1) plus_1_eq_Suc add.commute append_eq_conv_conj)
  note cp = copy_loop_spec [OF lw(1,2) order_refl, of p, unfolded lw(3,4) map_ring]
  let ?r = "rotate p tb'"
  have vw: "vars w = [a, b, c, d, e, sb, tb']" using v by (simp add: w_def tb'(3) V_tmpbuf_def)
  have "var_write V_stdbuf STDBUF_SIZE [0] (w\<lparr>vars := (vars w)[V_stdbuf := ?r @ [last sb]]\<rparr>) = w\<lparr>vars := (vars w)[V_stdbuf := ?r @ [0]]\<rparr>"
    using lw(1) tb'(2) by (simp add: var_write_def V_stdbuf_def mwrite_def)
  moreover have "param_set_string (\<lambda>_ _ _ s. s) stdout_buf (?r @ [0]) (int STDBUF_SIZE + 1) (w\<lparr>vars := (vars w)[V_stdbuf := ?r @ [0]]\<rparr>) =
      w\<lparr>vars := (vars w)[V_stdbuf := ?r @ [0]], ub := True\<rparr>"
    using lw(1) tb'(2) by (simp add: param_set_string_def param_set_data_nocallback_def run_callback_def param_store_def stdout_buf_def
        PARAM_DEFINE_STATIC_RAM_def var_write_def V_stdbuf_def mwrite_def STDBUF_SIZE_def nat_add_distrib)
  ultimately have t: "t = w\<lparr>vars := (vars w)[V_stdbuf := ?r @ [0]], ub := True\<rparr>"
    using assms(2) loop lw(1) cp by (simp add: csp_print_func_def w_def [symmetric] Let_def V_stdbuf_def)
  have vt: "vars t = [a, b, c, d, e, ?r @ [0], tb']" "stdbuf_pos t = p" using vw by (simp_all add: t w_def V_stdbuf_def)
  have ring: "stdbuf_ring t = ?r" using vt by (simp add: stdbuf_ring_def V_tmpbuf_def)
  show "same_but_print s t" unfolding same_but_print_def
    by (rule exI [of _ tb'], rule exI [of _ "?r @ [0]"], rule exI [of _ p], rule exI [of _ True]) (simp add: t w_def tb'(3))
  show "sys_wf t" using assms(1) vt tb'(1,2) v by (auto simp: sys_wf_def t w_def tb'(3))
  show "stdbuf_ring t = drop (length out) (stdbuf_ring s @ out)" "vars t ! V_stdbuf = stdbuf_ring t @ [0]" "ub t"
    using ring vt tb'(4) by (simp_all add: t V_stdbuf_def)
  show "length (stdbuf_ring s) = STDBUF_SIZE" using len(2) by (simp add: stdbuf_ring_def)
qed

lemma print_frame:
  assumes "sys_wf s"
  shows "sys_wf (csp_print_func text s)" "net (csp_print_func text s) = net s" "commands (csp_print_func text s) = commands s"
    "files (csp_print_func text s) = files s" "can_addr_v (csp_print_func text s) = can_addr_v s"
    "can_netmask_v (csp_print_func text s) = can_netmask_v s"
  using print_func_spec(3,4) [OF assms refl refl, of "text"] by (auto simp: same_but_print_def)

section \<open>Properties\<close>

text \<open>The buffer of the standard output. After every call of \<open>csp_print_func\<close> the parameter \<open>stdout_buf\<close> holds the last 110
  bytes printed, in order, and a zero byte behind them; only these variables change. The call also writes the zero byte of \<open>param_set_string\<close>
  behind the end of the variable. As long as fewer bytes were printed than the buffer holds, it starts with a zero byte, so that
  it reads as the empty string.\<close>

theorem csp_print_func_keeps_last:
  assumes "sys_wf s" "t = csp_print_func text s" "out = takeWhile (\<lambda>b. b \<noteq> 0) (take 255 text)"
  shows "stdbuf_ring t = drop (length out) (stdbuf_ring s @ out) \<and> vars t ! V_stdbuf = stdbuf_ring t @ [0] \<and>
    same_but_print s t \<and> sys_wf t \<and> ub t \<and>
    (\<forall>k. length out < k \<and> k \<le> STDBUF_SIZE \<and> take k (stdbuf_ring s) = replicate k 0 \<longrightarrow> takeWhile (\<lambda>b. b \<noteq> 0) (vars t ! V_stdbuf) = [])"
proof -
  note sp = print_func_spec [OF assms]
  have "takeWhile (\<lambda>b. b \<noteq> 0) (stdbuf_ring t @ [0]) = []"
    if "length out < k" "k \<le> STDBUF_SIZE" "take k (stdbuf_ring s) = replicate k 0" for k
  proof -
    have "stdbuf_ring t ! 0 = stdbuf_ring s ! length out" using that sp(6) by (simp add: sp(1) nth_append)
    also have "\<dots> = take k (stdbuf_ring s) ! length out" using that(1) by simp
    also have "\<dots> = 0" using that(1) by (simp add: that(3))
    finally have "stdbuf_ring t ! 0 = 0" .
    moreover have "stdbuf_ring t \<noteq> []" using sp(6) by (auto simp: sp(1) STDBUF_SIZE_def)
    ultimately show ?thesis by (cases "stdbuf_ring t") simp_all
  qed
  then show ?thesis using sp by auto
qed

text \<open>A node before its start.\<close>

definition sys_ex :: sys where
  "sys_ex = \<lparr>vars = [[0], [0], [0], [0], [0], replicate 111 0, replicate 110 0],
     vmems = [\<lparr>vm_driver = VMEM_FILE ''sys-man-config.vmem'', vm_size = 1000, vm_big_endian = False, vm_ack_with_pull = True, vm_mem = replicate 1000 0\<rparr>],
     files = (\<lambda>_. None), can_write = (\<lambda>_. True), ub = False,
     net = boot_ex\<lparr>iflist := \<lparr>ifs = [(iface boot_ex 0)\<lparr>if_name := ''LOOP''\<rparr>], interfaces = []\<rparr>\<rparr>, stdbuf_pos = 0, can_addr_v = 0, can_netmask_v = 0,
     commands = [], pipes = 0, popen_lines = (\<lambda>_. Some [])\<rparr>"

lemma sys_ex_wf: "sys_wf sys_ex"
  by (simp add: sys_wf_def sys_ex_def STDBUF_SIZE_def)

theorem csp_print_func_keeps_last_witness:
  "takeWhile (\<lambda>b. b \<noteq> 0) (vars (csp_print_func (str_bytes ''hello'') sys_ex) ! V_stdbuf) = [] \<and>
   drop 105 (vars (csp_print_func (str_bytes ''hello'') sys_ex) ! V_stdbuf) = str_bytes ''hello'' @ [0]"
proof -
  have out: "takeWhile (\<lambda>b. b \<noteq> 0) (take 255 (str_bytes ''hello'')) = str_bytes ''hello''" by (simp add: str_bytes_def of_char_def)
  have ring: "stdbuf_ring sys_ex = replicate 110 0" by (simp add: stdbuf_ring_def sys_ex_def V_tmpbuf_def)
  note p = csp_print_func_keeps_last [OF sys_ex_wf refl refl, of "str_bytes ''hello''", unfolded out ring]
  have "length (str_bytes ''hello'') = 5" by (simp add: str_bytes_def)
  moreover have "take 110 (replicate 110 (0 :: byte)) = replicate 110 0" by simp
  ultimately show ?thesis using p by (auto simp: STDBUF_SIZE_def)
qed

subsection \<open>Values of the configuration\<close>

text \<open>A parameter of one byte in the virtual memory, and what a write does to the state.\<close>

lemma config_store:
  assumes "sys_wf s" "unat (of_nat (param_addr p) :: u32) + length bs \<le> 1000" "param_vmem p = Some 0"
  obtains m where "vmems s = [\<lparr>vm_driver = VMEM_FILE ''sys-man-config.vmem'', vm_size = 1000, vm_big_endian = False, vm_ack_with_pull = True, vm_mem = m\<rparr>]"
    "length m = 1000" "param_store p 0 bs s = s\<lparr>vmems := [\<lparr>vm_driver = VMEM_FILE ''sys-man-config.vmem'', vm_size = 1000, vm_big_endian = False,
       vm_ack_with_pull = True, vm_mem = mwrite (unat (of_nat (param_addr p) :: u32)) bs m\<rparr>],
       files := (if can_write s ''sys-man-config.vmem''
                 then (files s)(''sys-man-config.vmem'' := Some (mwrite (unat (of_nat (param_addr p) :: u32)) bs m)) else files s)\<rparr>"
proof -
  obtain m where m: "vmems s = [\<lparr>vm_driver = VMEM_FILE ''sys-man-config.vmem'', vm_size = 1000, vm_big_endian = False, vm_ack_with_pull = True, vm_mem = m\<rparr>]"
    "length m = 1000" using assms(1) by (auto simp: sys_wf_def)
  show thesis
    by (rule that [OF m]) (use assms(2,3) m in \<open>simp add: param_store_def vmem_write_def vmem_file_write_def vmem_ram_write_def Let_def\<close>)
qed

lemma suspend_set:
  assumes "sys_wf s" "can_write s suspend_file"
  shows "sys_wf (param_set_uint8 suspend_on_boot v s) \<and> files (param_set_uint8 suspend_on_boot v s) suspend_file = Some (str_bytes (decimal (unat v))) \<and>
    fst (param_get_uint8 suspend_on_boot (param_set_uint8 suspend_on_boot v s)) = v \<and> net (param_set_uint8 suspend_on_boot v s) = net s \<and>
    commands (param_set_uint8 suspend_on_boot v s) = commands s \<and> can_write (param_set_uint8 suspend_on_boot v s) = can_write s"
proof -
  have p: "param_vmem suspend_on_boot = Some 0" "array_size suspend_on_boot = 1" "array_step suspend_on_boot = 0" "param_callback suspend_on_boot = Some 2"
    "unat (of_nat (param_addr suspend_on_boot) :: u32) = 256"
    by (simp_all add: suspend_on_boot_def PARAM_DEFINE_STATIC_VMEM_def)
  obtain m where m: "vmems s = [\<lparr>vm_driver = VMEM_FILE ''sys-man-config.vmem'', vm_size = 1000, vm_big_endian = False, vm_ack_with_pull = True, vm_mem = m\<rparr>]"
    "length m = 1000" and st: "param_store suspend_on_boot 0 [v] s = s\<lparr>vmems := [\<lparr>vm_driver = VMEM_FILE ''sys-man-config.vmem'', vm_size = 1000,
       vm_big_endian = False, vm_ack_with_pull = True, vm_mem = mwrite 256 [v] m\<rparr>],
       files := (if can_write s ''sys-man-config.vmem'' then (files s)(''sys-man-config.vmem'' := Some (mwrite 256 [v] m)) else files s)\<rparr>"
    by (rule config_store [OF assms(1), of suspend_on_boot "[v]", unfolded p(5)]) (simp_all add: p)
  define u where "u = param_store suspend_on_boot 0 [v] s"
  have get: "param_get_uint8 suspend_on_boot w = (v, w)"
    if "vmems w = [\<lparr>vm_driver = VMEM_FILE ''sys-man-config.vmem'', vm_size = 1000, vm_big_endian = False, vm_ack_with_pull = True, vm_mem = mwrite 256 [v] m\<rparr>]"
    for w :: sys
    using that m(2) by (simp add: param_get_uint8_def param_get_array_def p param_load_def vmem_read_def vmem_file_read_def vmem_ram_read_def
        vmem_order_def mread_mwrite_same)
  have set: "param_set_uint8 suspend_on_boot v s = suspend_on_boot_callback u"
    using m by (simp add: param_set_uint8_def param_set_array_def p vmem_order_def u_def run_callback_def sys_callback_def)
  have cw: "can_write u = can_write s" by (simp add: u_def st)
  have cb: "suspend_on_boot_callback u = u\<lparr>files := (files u)(suspend_file := Some (str_bytes (decimal (unat v))))\<rparr>"
    using get [of u] assms(2) cw by (simp add: suspend_on_boot_callback_def u_def st)
  have uf: "vmems u = [\<lparr>vm_driver = VMEM_FILE ''sys-man-config.vmem'', vm_size = 1000, vm_big_endian = False, vm_ack_with_pull = True, vm_mem = mwrite 256 [v] m\<rparr>]"
    "vars u = vars s" "stdbuf_pos u = stdbuf_pos s" "net u = net s" "commands u = commands s"
    by (simp_all add: u_def st)
  define w where "w = suspend_on_boot_callback u"
  have wf: "vmems w = vmems u" "vars w = vars s" "stdbuf_pos w = stdbuf_pos s" "net w = net s" "commands w = commands s" "can_write w = can_write s"
    "files w suspend_file = Some (str_bytes (decimal (unat v)))"
    by (simp_all add: w_def cb uf cw)
  have "sys_wf w" using assms(1) m(2) wf uf by (simp add: sys_wf_def)
  then show ?thesis using get [of w] wf uf(1) by (simp add: set w_def [symmetric])
qed

text \<open>The flag for suspending at boot. A value set through the parameter is in the file, and after a restart of the program
  \<open>suspend_on_boot_read\<close> returns it and restores the parameter, although the virtual memory starts from zero.\<close>

theorem suspend_on_boot_roundtrip:
  fixes v :: u8
  assumes "sys_wf s" "can_write s suspend_file"
  defines "t \<equiv> restart (param_set_uint8 suspend_on_boot v s)"
  shows "fst (suspend_on_boot_read junk t) = int (unat v) \<and>
    fst (param_get_uint8 suspend_on_boot (snd (suspend_on_boot_read junk t))) = v \<and>
    files (snd (suspend_on_boot_read junk t)) suspend_file = files t suspend_file \<and>
    fst (param_get_uint8 suspend_on_boot t) = 0"
proof -
  note s1 = suspend_set [OF assms(1,2), of v]
  have t: "sys_wf t" "can_write t suspend_file" "files t suspend_file = Some (str_bytes (decimal (unat v)))"
    using s1 assms(2) by (auto simp: t_def restart_def sys_wf_def)
  have rd: "suspend_on_boot_read junk t = (int (unat v), param_set_uint8 suspend_on_boot v t)"
    by (simp add: suspend_on_boot_read_def t(3) scan_decimal)
  obtain m where "vmems t = [\<lparr>vm_driver = VMEM_FILE ''sys-man-config.vmem'', vm_size = 1000, vm_big_endian = False, vm_ack_with_pull = True, vm_mem = m\<rparr>]"
    "m = replicate 1000 0"
    using s1 by (auto simp: t_def restart_def sys_wf_def)
  then have "fst (param_get_uint8 suspend_on_boot t) = 0"
    by (simp add: param_get_uint8_def param_get_array_def suspend_on_boot_def PARAM_DEFINE_STATIC_VMEM_def param_load_def vmem_read_def vmem_file_read_def
        vmem_ram_read_def vmem_order_def mread_def)
  then show ?thesis using suspend_set [OF t(1,2), of v] t(3) by (simp add: rd)
qed

theorem suspend_on_boot_roundtrip_witness:
  "fst (suspend_on_boot_read 7 (restart (param_set_uint8 suspend_on_boot 200 sys_ex))) = 200"
proof -
  have "can_write sys_ex suspend_file" by (simp add: sys_ex_def)
  from suspend_on_boot_roundtrip [OF sys_ex_wf this, of 7 200] show ?thesis by simp
qed

text \<open>The memory of the configuration, and parameters of 16 bits in it.\<close>

definition config_mem :: "sys \<Rightarrow> byte list" where
  "config_mem s = vm_mem (hd (vmems s))"

definition config16 :: "param \<Rightarrow> bool" where
  "config16 p \<longleftrightarrow> param_vmem p = Some 0 \<and> array_size p = 1 \<and> array_step p = 0 \<and> param_addr p + 2 \<le> 1000"

lemma config16_params [simp]: "config16 can_addr" "config16 can_netmask"
  by (simp_all add: config16_def can_addr_def can_netmask_def PARAM_DEFINE_STATIC_VMEM_def)

definition config16_at :: "sys \<Rightarrow> param \<Rightarrow> u16" where
  "config16_at s p = le16_dec (mread (param_addr p) 2 (config_mem s))"

lemma config_addr: "config16 p \<Longrightarrow> unat (of_nat (param_addr p) :: u32) = param_addr p"
  by (subst unat_of_nat) (simp add: config16_def)

lemma config_get16:
  assumes "sys_wf s" "config16 p"
  shows "param_get_uint16 p s = (config16_at s p, s)"
  using assms config_addr [OF assms(2)]
  by (auto simp: param_get_uint16_def param_get_array_def config16_def param_load_def vmem_read_def vmem_file_read_def vmem_ram_read_def
      vmem_order_def config16_at_def config_mem_def sys_wf_def)

text \<open>What a write to the configuration leaves as it was.\<close>

definition same_but_config :: "sys \<Rightarrow> sys \<Rightarrow> bool" where
  "same_but_config s t \<longleftrightarrow> vars t = vars s \<and> stdbuf_pos t = stdbuf_pos s \<and> net t = net s \<and> commands t = commands s \<and> can_write t = can_write s \<and>
     files t suspend_file = files s suspend_file"

lemma config_store16:
  fixes v :: u16
  assumes "sys_wf s" "config16 p"
  defines "t \<equiv> param_store p 0 (rev (be16_enc v)) s"
  shows "sys_wf t" "same_but_config s t" "config16_at t p = v"
    "config16 q \<Longrightarrow> param_addr p + 2 \<le> param_addr q \<or> param_addr q + 2 \<le> param_addr p \<Longrightarrow> config16_at t q = config16_at s q"
    "can_addr_v t = can_addr_v s" "can_netmask_v t = can_netmask_v s"
    "can_write s ''sys-man-config.vmem'' \<Longrightarrow> files t ''sys-man-config.vmem'' = Some (config_mem t)"
proof -
  have c: "unat (of_nat (param_addr p) :: u32) + length (rev (be16_enc v)) \<le> 1000" "param_vmem p = Some 0"
    using assms(2) config_addr [OF assms(2)] by (simp_all add: config16_def)
  obtain m where m: "vmems s = [\<lparr>vm_driver = VMEM_FILE ''sys-man-config.vmem'', vm_size = 1000, vm_big_endian = False, vm_ack_with_pull = True, vm_mem = m\<rparr>]"
    "length m = 1000" and st: "param_store p 0 (rev (be16_enc v)) s = s\<lparr>vmems := [\<lparr>vm_driver = VMEM_FILE ''sys-man-config.vmem'', vm_size = 1000, vm_big_endian = False,
       vm_ack_with_pull = True, vm_mem = mwrite (param_addr p) (rev (be16_enc v)) m\<rparr>],
       files := (if can_write s ''sys-man-config.vmem'' then (files s)(''sys-man-config.vmem'' := Some (mwrite (param_addr p) (rev (be16_enc v)) m)) else files s)\<rparr>"
    by (rule config_store [OF assms(1) c, unfolded config_addr [OF assms(2)]])
  have r: "param_addr p + 2 \<le> 1000" using assms(2) by (simp add: config16_def)
  have fn: "suspend_file \<noteq> ''sys-man-config.vmem''" by (simp add: suspend_file_def)
  show "sys_wf t" using assms(1) m(2) r by (simp add: t_def st sys_wf_def)
  show "same_but_config s t" using fn by (simp add: t_def st same_but_config_def)
  show "config16_at t p = v" using m(2) r by (simp add: t_def st config16_at_def config_mem_def mread_mwrite_same le16_dec_def)
  show "config16_at t q = config16_at s q" if "config16 q" "param_addr p + 2 \<le> param_addr q \<or> param_addr q + 2 \<le> param_addr p"
    using that m r by (auto simp: t_def st config16_at_def config_mem_def mread_mwrite_disjoint)
  show "can_addr_v t = can_addr_v s" "can_netmask_v t = can_netmask_v s" by (simp_all add: t_def st)
  show "files t ''sys-man-config.vmem'' = Some (config_mem t)" if "can_write s ''sys-man-config.vmem''"
    using that by (simp add: t_def st config_mem_def)
qed

lemma config_set16:
  fixes v :: u16
  assumes "sys_wf s" "p = can_addr \<or> p = can_netmask"
  defines "u \<equiv> param_store p 0 (rev (be16_enc v)) s"
  shows "param_set_uint16 p v s = (if p = can_addr then u\<lparr>can_addr_v := v\<rparr> else u\<lparr>can_netmask_v := v\<rparr>)"
proof -
  have c: "config16 p" using assms(2) by auto
  note st = config_store16 [OF assms(1) c, where v = v, folded u_def]
  have ne: "can_netmask \<noteq> can_addr" by (simp add: can_addr_def can_netmask_def PARAM_DEFINE_STATIC_VMEM_def)
  have "param_set_uint16 p v s = run_callback sys_callback p 0 u"
    using assms(1) c by (auto simp: param_set_uint16_def param_set_array_def config16_def vmem_order_def sys_wf_def u_def)
  then show ?thesis using assms(2) st(1,3) ne c
    by (auto simp: run_callback_def sys_callback_def can_addr_callback_def can_netmask_callback_def config_get16
        can_addr_def [unfolded PARAM_DEFINE_STATIC_VMEM_def] can_netmask_def [unfolded PARAM_DEFINE_STATIC_VMEM_def])
qed

text \<open>A setting of the CAN interface after the start: the stored value or the default.\<close>

definition or_default :: "u16 \<Rightarrow> u16 \<Rightarrow> u16" where
  "or_default d v = (if v = 0 then d else v)"

lemma config16_same [simp]:
  "sys_wf (w\<lparr>can_addr_v := x\<rparr>) = sys_wf w" "sys_wf (w\<lparr>can_netmask_v := x\<rparr>) = sys_wf w"
  "config16_at (w\<lparr>can_addr_v := x\<rparr>) p = config16_at w p" "config16_at (w\<lparr>can_netmask_v := x\<rparr>) p = config16_at w p"
  "same_but_config (w\<lparr>can_addr_v := x\<rparr>) u = same_but_config w u" "same_but_config w (u\<lparr>can_addr_v := x\<rparr>) = same_but_config w u"
  "same_but_config (w\<lparr>can_netmask_v := x\<rparr>) u = same_but_config w u" "same_but_config w (u\<lparr>can_netmask_v := x\<rparr>) = same_but_config w u"
  "same_but_config w w"
  by (simp_all add: sys_wf_def config16_at_def config_mem_def same_but_config_def)

lemma main_can_load_spec:
  assumes "sys_wf s"
  shows "main_can_load s = s\<lparr>can_addr_v := config16_at s can_addr, can_netmask_v := config16_at s can_netmask\<rparr>"
  using assms by (simp add: main_can_load_def config_get16 Let_def)

lemma main_can_addr_spec:
  assumes "sys_wf s"
  shows "sys_wf (main_can_addr s) \<and> same_but_config s (main_can_addr s) \<and> can_addr_v (main_can_addr s) = or_default CAN_ADDR_DEFAULT (can_addr_v s) \<and>
      can_netmask_v (main_can_addr s) = can_netmask_v s"
  using assms config_store16(1,2,6) [OF _ config16_params(1), of "s\<lparr>can_addr_v := CAN_ADDR_DEFAULT\<rparr>" CAN_ADDR_DEFAULT]
    config_set16 [of "s\<lparr>can_addr_v := CAN_ADDR_DEFAULT\<rparr>" can_addr CAN_ADDR_DEFAULT]
  by (simp add: main_can_addr_def or_default_def)

lemma main_can_netmask_spec:
  assumes "sys_wf s"
  shows "sys_wf (main_can_netmask s) \<and> same_but_config s (main_can_netmask s) \<and>
      can_netmask_v (main_can_netmask s) = or_default CAN_NETMASK_DEFAULT (can_netmask_v s) \<and> can_addr_v (main_can_netmask s) = can_addr_v s"
proof -
  have "can_netmask \<noteq> can_addr" by (simp add: can_addr_def can_netmask_def PARAM_DEFINE_STATIC_VMEM_def)
  then show ?thesis
    using assms config_store16(1,2,5) [OF _ config16_params(2), of "s\<lparr>can_netmask_v := CAN_NETMASK_DEFAULT\<rparr>" CAN_NETMASK_DEFAULT]
      config_set16 [of "s\<lparr>can_netmask_v := CAN_NETMASK_DEFAULT\<rparr>" can_netmask CAN_NETMASK_DEFAULT]
    by (simp add: main_can_netmask_def or_default_def)
qed

lemma main_can_settings:
  assumes "sys_wf s"
  shows "sys_wf (main_can s)" "same_but_config s (main_can s)"
    "can_addr_v (main_can s) = or_default CAN_ADDR_DEFAULT (config16_at s can_addr)"
    "can_netmask_v (main_can s) = or_default CAN_NETMASK_DEFAULT (config16_at s can_netmask)"
proof -
  define l where "l = main_can_load s"
  have l: "sys_wf l" "same_but_config s l" "can_addr_v l = config16_at s can_addr" "can_netmask_v l = config16_at s can_netmask"
    using assms by (simp_all add: l_def main_can_load_spec)
  note a = main_can_addr_spec [OF l(1)]
  note n = main_can_netmask_spec [of "main_can_addr l"]
  have m: "main_can s = main_can_netmask (main_can_addr l)" by (simp add: main_can_def l_def)
  show "sys_wf (main_can s)" "can_addr_v (main_can s) = or_default CAN_ADDR_DEFAULT (config16_at s can_addr)"
    "can_netmask_v (main_can s) = or_default CAN_NETMASK_DEFAULT (config16_at s can_netmask)"
    using a n l by (simp_all add: m)
  show "same_but_config s (main_can s)" using a n l(2) by (simp add: m same_but_config_def)
qed



text \<open>The texts fit into their arrays. The command lines of the camera and the image processor need at most 128 bytes with their zero byte, the
  revision with the serial number at most 19, whatever the values are.\<close>

theorem texts_fit:
  "length (camera_control_cmd v) + 1 \<le> 128 \<and> length (dipp_cmd v) + 1 \<le> 128 \<and>
   length (''Rev1.10-'' @ decimal (unat (serial_get date_time))) + 1 \<le> 19"
proof -
  have "unat v < 10 ^ 3" using unsigned_less [of v, where ?'a = nat] by simp
  then have "length (decimal (unat v)) \<le> 3" by (rule length_decimal) simp
  moreover have "unat (serial_get date_time) < 10 ^ 10" using unsigned_less [of "serial_get date_time", where ?'a = nat] by simp
  then have "length (decimal (unat (serial_get date_time))) \<le> 10" by (rule length_decimal) simp
  ultimately show ?thesis by (simp add: camera_control_cmd_def dipp_cmd_def)
qed

subsection \<open>The start\<close>

lemma node_iflist [simp]: "node_ok M (n\<lparr>iflist := l\<rparr>) = node_ok M n"
  by (simp add: node_ok_def stack_ok_def rx_sized_def pkt_def conn_wf_def conn_def dest_ok_def port_wf_def)

lemma bind_callback_ports:
  "ports (snd (csp_bind_callback (Some f) port s)) = (case bind_slot port of Some slot \<Rightarrow> if ports s ! slot = PORT_CLOSED
      then (ports s)[slot := PORT_OPEN_CB f] else ports s | None \<Rightarrow> ports s)"
  "iflist (snd (csp_bind_callback (Some f) port s)) = iflist s"
  by (simp_all add: csp_bind_callback_def set_errno_def split: option.split)

lemma main_net_spec:
  assumes "boot mem s" "interfaces (iflist s) = []"
  shows "node_ok {#} (main_net mem s) \<and> interfaces (iflist (main_net mem s)) = [csp_if_lo] \<and>
    length (ifs (iflist (main_net mem s))) = length (ifs (iflist s)) \<and> if_name (iface (main_net mem s) i) = if_name (iface s i) \<and>
    (\<forall>p \<le> CSP_PORT_MAX_BIND. csp_port_get_callback (main_net mem s) p = Some (if p = PARAM_PORT_SERVER then param_serve_cb else csp_service_handler_cb))"
proof -
  define s0 where "s0 = s\<lparr>conf_version := 2, conf_dedup := CSP_DEDUP_OFF\<rparr>"
  have b: "boot mem s0" "interfaces (iflist s0) = []" "iflist s0 = iflist s" "iface s0 i = iface s i"
    using assms by (simp_all add: s0_def boot_def iface_def)
  define s1 where "s1 = csp_init mem s0"
  have p1: "ports s1 = replicate (CSP_PORT_MAX_BIND + 2) PORT_CLOSED"
    using csp_init_frame(1) [of mem s0] b(1) by (simp add: s1_def boot_def)
  define s2 where "s2 = snd (csp_bind_callback (Some csp_service_handler_cb) CSP_ANY s1)"
  have slots: "bind_slot CSP_ANY = Some 17" "bind_slot PARAM_PORT_SERVER = Some 10"
    by (simp_all add: bind_slot_def CSP_ANY_def PARAM_PORT_SERVER_def CSP_PORT_MAX_BIND_def)
  have p2: "ports s2 = (replicate 18 PORT_CLOSED)[17 := PORT_OPEN_CB csp_service_handler_cb]" "iflist s2 = iflist s1"
    by (simp_all add: s2_def bind_callback_ports slots p1 CSP_PORT_MAX_BIND_def)
  have m: "main_net mem s = snd (csp_bind_callback (Some param_serve_cb) PARAM_PORT_SERVER s2)"
    by (simp add: main_net_def Let_def s0_def [symmetric] s1_def [symmetric] s2_def)
  have p3: "ports (main_net mem s) = (replicate 18 PORT_CLOSED)[17 := PORT_OPEN_CB csp_service_handler_cb, 10 := PORT_OPEN_CB param_serve_cb]"
    "iflist (main_net mem s) = iflist s1"
    by (simp_all add: m bind_callback_ports slots p2)
  have "node_ok {#} (main_net mem s)"
    unfolding m s2_def s1_def by (intro node_bind_callback csp_init_node b(1))
  moreover have "csp_port_get_callback (main_net mem s) p = Some (if p = PARAM_PORT_SERVER then param_serve_cb else csp_service_handler_cb)"
    if "p \<le> CSP_PORT_MAX_BIND" for p
    using that by (simp add: csp_port_get_callback_def p3 nth_list_update PARAM_PORT_SERVER_def CSP_PORT_MAX_BIND_def)
  ultimately show ?thesis
    using csp_init_frame(2-4) [where s = s0 and mem = mem] b by (simp add: p3 s1_def iface_def)
qed

definition suspend_cmds :: "string list" where
  "suspend_cmds = [''echo N > /sys/module/printk/parameters/console_suspend'', ''echo mem > /sys/power/state'']"

text \<open>The number in the file of the flag; -1 without a file.\<close>

definition boot_flag :: "int \<Rightarrow> sys \<Rightarrow> int" where
  "boot_flag junk s = (case files s suspend_file of None \<Rightarrow> -1 | Some c \<Rightarrow> (case scan_int c of None \<Rightarrow> junk | Some v \<Rightarrow> v))"

lemma suspend_read_frame:
  assumes "sys_wf s"
  shows "fst (suspend_on_boot_read junk s) = boot_flag junk s \<and> net (snd (suspend_on_boot_read junk s)) = net s \<and>
    commands (snd (suspend_on_boot_read junk s)) = commands s"
proof -
  have p: "param_vmem suspend_on_boot = Some 0" "array_size suspend_on_boot = 1" "array_step suspend_on_boot = 0" "param_callback suspend_on_boot = Some 2"
    by (simp_all add: suspend_on_boot_def PARAM_DEFINE_STATIC_VMEM_def)
  have st: "net (param_store suspend_on_boot 0 bs s) = net s \<and> commands (param_store suspend_on_boot 0 bs s) = commands s" for bs
    by (simp add: param_store_def p vmem_write_def vmem_file_write_def vmem_ram_write_def Let_def split: vmem_driver.split)
  have g: "net (snd (param_get_uint8 suspend_on_boot w)) = net w \<and> commands (snd (param_get_uint8 suspend_on_boot w)) = commands w" for w :: sys
    by (simp add: param_get_uint8_def param_get_array_def p param_load_def vmem_read_def vmem_file_read_def vmem_ram_read_def case_prod_beta
        split: vmem_driver.split)
  have cb: "net (suspend_on_boot_callback w) = net w \<and> commands (suspend_on_boot_callback w) = commands w" for w :: sys
    using g [of w] by (simp add: suspend_on_boot_callback_def case_prod_beta)
  have "net (param_set_uint8 suspend_on_boot v s) = net s \<and> commands (param_set_uint8 suspend_on_boot v s) = commands s" for v
    using st cb by (simp add: param_set_uint8_def param_set_array_def p run_callback_def sys_callback_def Let_def)
  then show ?thesis by (simp add: suspend_on_boot_read_def boot_flag_def Let_def split: option.split)
qed

lemma can_interface_added:
  assumes "interfaces (iflist n) = [csp_if_lo]" "length (ifs (iflist n)) = 1" "\<not> name_eq ''CAN'' (if_name (iface n csp_if_lo))"
  obtains f where "csp_can_socketcan_open_and_add_interface CSP_ERR_NONE True tx ''CAN'' a n =
      (CSP_ERR_NONE, 1, n\<lparr>iflist := \<lparr>ifs = ifs (iflist n) @ [f], interfaces = [csp_if_lo, 1]\<rparr>\<rparr>)" "if_nexthop f = tx"
proof -
  obtain l0 where l0: "ifs (iflist n) = [l0]" using assms(2) by (cases "ifs (iflist n)") auto
  show thesis
    by (rule that [of "\<lparr>if_addr = a, if_netmask = 0, if_name = ''CAN'', if_nexthop = tx, is_default = 0, if_tx = 0, if_rx = 0, tx_error = 0,
        rx_error = 0, if_drop = 0, autherr = 0, if_frame = 0, txbytes = 0, rxbytes = 0\<rparr>"])
      (use assms l0 in \<open>simp_all add: csp_can_socketcan_open_and_add_interface_def csp_iflist_add_def csp_if_lo_def iface_def Let_def\<close>)
qed

text \<open>C40: the start of the node. If the CAN interface can be opened, the program goes on forever with a stack in
  order; requests to the parameter port go to the parameter server and those to all other bindable ports to the service handler;
  the interface has the stored address and netmask, or the defaults, and is a default route; the processor is suspended exactly if
  the file of the flag says a number of at least 1. If it cannot be opened, the program ends with the error.\<close>

theorem sys_main_starts:
  fixes tx :: nexthop and junk :: int
  assumes "sys_wf s" "boot mem (net s)" "interfaces (iflist (net s)) = []" "length (ifs (iflist (net s))) = 1"
    and "\<not> name_eq ''CAN'' (if_name (iface (net s) csp_if_lo))"
  defines "t \<equiv> snd (sys_main CSP_ERR_NONE True tx junk mem s)"
  shows "fst (sys_main CSP_ERR_NONE True tx junk mem s) = None \<and> node_ok {#} (net t) \<and>
    (\<forall>p \<le> CSP_PORT_MAX_BIND. csp_port_get_callback (net t) p = Some (if p = PARAM_PORT_SERVER then param_serve_cb else csp_service_handler_cb)) \<and>
    interfaces (iflist (net t)) = [csp_if_lo, 1] \<and> if_nexthop (iface (net t) 1) = tx \<and> is_default (iface (net t) 1) = 1 \<and>
    if_addr (iface (net t) 1) = or_default CAN_ADDR_DEFAULT (config16_at s can_addr) \<and>
    if_netmask (iface (net t) 1) = or_default CAN_NETMASK_DEFAULT (config16_at s can_netmask) \<and>
    commands t = commands s @ (if boot_flag junk s \<ge> 1 then suspend_cmds else []) \<and>
    (\<forall>e. e \<noteq> CSP_ERR_NONE \<longrightarrow> fst (sys_main e True tx junk mem s) = Some e)"
proof -
  define s1 where "s1 = s\<lparr>net := main_net mem (net s)\<rparr>"
  have w1: "sys_wf s1" "config16_at s1 p = config16_at s p" "files s1 = files s" "commands s1 = commands s" for p
    using assms(1) by (simp_all add: s1_def sys_wf_def config16_at_def config_mem_def)
  define s2 where "s2 = main_can s1"
  note ma = main_can_settings [OF w1(1)]
  have s2: "sys_wf s2" "net s2 = main_net mem (net s)" "commands s2 = commands s" "files s2 suspend_file = files s suspend_file"
    "can_addr_v s2 = or_default CAN_ADDR_DEFAULT (config16_at s can_addr)"
    "can_netmask_v s2 = or_default CAN_NETMASK_DEFAULT (config16_at s can_netmask)"
    using ma w1 by (simp_all add: s2_def same_but_config_def s1_def)
  define s3 where "s3 = csp_print_func can_init_msg s2"
  have s3: "sys_wf s3" "net s3 = main_net mem (net s)" "commands s3 = commands s" "files s3 suspend_file = files s suspend_file"
    "can_addr_v s3 = can_addr_v s2" "can_netmask_v s3 = can_netmask_v s2"
    using print_frame [OF s2(1)] s2 by (simp_all add: s3_def)
  note nt = main_net_spec [OF assms(2,3), where i = csp_if_lo]
  obtain f where add: "csp_can_socketcan_open_and_add_interface CSP_ERR_NONE True tx ''CAN'' (can_addr_v s3) (net s3) =
      (CSP_ERR_NONE, 1, (net s3)\<lparr>iflist := \<lparr>ifs = ifs (iflist (net s3)) @ [f], interfaces = [csp_if_lo, 1]\<rparr>\<rparr>)" "if_nexthop f = tx"
    by (rule can_interface_added [of "net s3" tx "can_addr_v s3"]) (use nt assms(4,5) s3(2) in simp_all)
  define n4 where "n4 = upd_iface 1 (\<lambda>g. g\<lparr>is_default := 1, if_addr := can_addr_v s3, if_netmask := can_netmask_v s3, if_name := ''CAN''\<rparr>)
    ((net s3)\<lparr>iflist := \<lparr>ifs = ifs (iflist (net s3)) @ [f], interfaces = [csp_if_lo, 1]\<rparr>\<rparr>)"
  define s4 where "s4 = s3\<lparr>net := n4\<rparr>"
  have w4: "sys_wf s4" "boot_flag junk s4 = boot_flag junk s" "commands s4 = commands s" using s3 by (simp_all add: s4_def sys_wf_def boot_flag_def)
  note rd = suspend_read_frame [OF w4(1), of junk]
  have run: "sys_main CSP_ERR_NONE True tx junk mem s =
      (None, if boot_flag junk s \<ge> 1 then suspend_a53_callback (snd (suspend_on_boot_read junk s4)) else snd (suspend_on_boot_read junk s4))"
    using add(1) rd w4(2) by (simp add: sys_main_def Let_def s1_def [symmetric] s2_def [symmetric] s3_def [symmetric] n4_def s4_def
        case_prod_beta)
  have net_t: "net t = n4" "commands t = commands s @ (if boot_flag junk s \<ge> 1 then suspend_cmds else [])"
    using rd w4 by (simp_all add: t_def run suspend_a53_callback_def run_system_def suspend_cmds_def) (simp_all add: s4_def)
  have l1: "length (ifs (iflist (net s3))) = 1" using nt assms(4) s3(2) by simp
  have i4: "iface n4 1 = f\<lparr>is_default := 1, if_addr := can_addr_v s3, if_netmask := can_netmask_v s3, if_name := ''CAN''\<rparr>" "interfaces (iflist n4) = [csp_if_lo, 1]"
    using l1 by (simp_all add: n4_def upd_iface_def iface_def nth_append)
  have "node_ok {#} n4" using nt s3(2) by (simp add: n4_def)
  moreover have "csp_port_get_callback n4 p = csp_port_get_callback (main_net mem (net s)) p" for p
  proof -
    have "ports n4 = ports (main_net mem (net s))" by (simp add: n4_def upd_iface_def s3(2))
    then show ?thesis unfolding csp_port_get_callback_def by (simp only:)
  qed
  moreover have "fst (sys_main e True tx junk mem s) = Some e" if "e \<noteq> CSP_ERR_NONE" for e
    using that by (simp add: sys_main_def Let_def s1_def [symmetric] s2_def [symmetric] s3_def [symmetric]
        csp_can_socketcan_open_and_add_interface_def)
  ultimately show ?thesis using nt run net_t i4 add(2) s2(5,6) s3(5,6) by simp
qed

theorem sys_main_starts_witness:
  "if_addr (iface (net (snd (sys_main CSP_ERR_NONE True Csp_lo_tx 0 (replicate CSP_BUFFER_COUNT \<lparr>refcount = 0, skbf_addr = 0, skbf_data = packet0\<rparr>) sys_ex))) 1) = 21"
proof -
  let ?mem = "replicate CSP_BUFFER_COUNT \<lparr>refcount = 0, skbf_addr = 0, skbf_data = packet0\<rparr>"
  have boot: "boot ?mem (net sys_ex)"
    by (simp add: sys_ex_def boot_def boot_ex_def pool_ex_def rdp_node_ex_def node_ex_def upd_conn_def HMAC_KEY_LENGTH_def)
  have l: "interfaces (iflist (net sys_ex)) = []" "length (ifs (iflist (net sys_ex))) = 1" "\<not> name_eq ''CAN'' (if_name (iface (net sys_ex) csp_if_lo))"
    by (simp_all add: sys_ex_def iface_def csp_if_lo_def name_eq_def CSP_IFLIST_NAME_MAX_def)
  have "mread 16 2 (config_mem sys_ex) = [0, 0]" by (simp add: config_mem_def sys_ex_def mread_def numeral_2_eq_2)
  then have "config16_at sys_ex can_addr = 0"
    by (simp add: config16_at_def can_addr_def PARAM_DEFINE_STATIC_VMEM_def le16_dec_def be16_dec_def)
  then show ?thesis using sys_main_starts [OF sys_ex_wf boot l, of Csp_lo_tx 0] by (simp add: or_default_def CAN_ADDR_DEFAULT_def)
qed

end
