(* ===== verification/Csp_Can.thy ===== *)
theory Csp_Can
  imports Csp_Send
begin

text \<open>
  The CAN interface of \<open>src/interfaces/csp_if_can.c\<close> and \<open>src/interfaces/csp_if_can_pbuf.c\<close>: packets are cut into frames
  of at most eight bytes (CFP 1 and CFP 2), and the frames that arrive are put together again. A packet under
  construction is in a linked list, whose pointers (\<open>pbufs\<close>, and \<open>next\<close> of each packet) are explicit here. The loops along
  the list are partial functions: \<open>None\<close> is a loop that does not end. The driver is the argument \<open>tx_func\<close>, which gives the
  result of each call by its number; \<open>sent\<close> are the frames it was called with. \<open>last_used\<close> is \<open>timestamp_rx\<close>, which has the
  same place in the packet. The variants for interrupts of the pool, the queue and the clock are the same functions
  on this platform, so \<open>task_woken\<close> makes no difference.

  The bytes of a frame are a list, and \<open>dlc\<close> is its length.
\<close>

section \<open>State\<close>

record can_state =
  cnet :: csp_state
  cfp_packet_counter :: u32
  pbufs :: "nat option"
  pnext :: "nat \<Rightarrow> nat option"
  csp_dbg_can_errno :: u8
  sent :: "(u32 \<times> byte list) list"

definition on_net :: "(csp_state \<Rightarrow> csp_state) \<Rightarrow> can_state \<Rightarrow> can_state" where
  "on_net f c = c\<lparr>cnet := f (cnet c)\<rparr>"

text \<open>An assignment to fields of a packet, and the counters of the interface.\<close>

definition upd_pbuf :: "nat \<Rightarrow> (csp_packet \<Rightarrow> csp_packet) \<Rightarrow> can_state \<Rightarrow> can_state" where
  "upd_pbuf p f = on_net (\<lambda>s. set_pkt p (f (pkt s p)) s)"

definition frame_inc :: "nat \<Rightarrow> can_state \<Rightarrow> can_state" where
  "frame_inc i = on_net (upd_iface i (\<lambda>f. f\<lparr>if_frame := if_frame f + 1\<rparr>))"

definition can_rx_error_inc :: "nat \<Rightarrow> can_state \<Rightarrow> can_state" where
  "can_rx_error_inc i = on_net (upd_iface i (\<lambda>f. f\<lparr>rx_error := rx_error f + 1\<rparr>))"

definition can_tx_error_inc :: "nat \<Rightarrow> can_state \<Rightarrow> can_state" where
  "can_tx_error_inc i = on_net (upd_iface i (\<lambda>f. f\<lparr>tx_error := tx_error f + 1\<rparr>))"

definition CSP_DBG_CAN_ERR_FRAME_LOST :: u8 where "CSP_DBG_CAN_ERR_FRAME_LOST = 1"
definition CSP_DBG_CAN_ERR_RX_OVF :: u8 where "CSP_DBG_CAN_ERR_RX_OVF = 2"
definition CSP_DBG_CAN_ERR_SHORT_BEGIN :: u8 where "CSP_DBG_CAN_ERR_SHORT_BEGIN = 4"
definition CAN_FRAME_SIZE :: nat where "CAN_FRAME_SIZE = 8"
definition PBUF_TIMEOUT_MS :: u32 where "PBUF_TIMEOUT_MS = 1000"

section \<open>Packets under construction\<close>

text \<open>\<open>prev->next = packet->next\<close>, or the head of the list.\<close>

definition pbuf_unlink :: "nat option \<Rightarrow> nat \<Rightarrow> can_state \<Rightarrow> can_state" where
  "pbuf_unlink prev packet c =
     (case prev of
        Some q \<Rightarrow> c\<lparr>pnext := (pnext c)(q := pnext c packet)\<rparr>
      | None \<Rightarrow> c\<lparr>pbufs := pnext c packet\<rparr>)"

partial_function (option) pbuf_free_loop :: "nat \<Rightarrow> bool \<Rightarrow> nat option \<Rightarrow> nat option \<Rightarrow> can_state \<Rightarrow> can_state option" where
  "pbuf_free_loop buffer buf_free packet prev c =
     (case packet of
        None \<Rightarrow> Some c
      | Some p \<Rightarrow>
          let c = (if p = buffer
                   then let c = pbuf_unlink prev p c
                        in if buf_free then on_net (csp_buffer_free (Some p)) c else c
                   else c)
          in pbuf_free_loop buffer buf_free (pnext c p) (Some p) c)"

definition csp_can_pbuf_free :: "nat \<Rightarrow> bool \<Rightarrow> can_state \<Rightarrow> can_state option" where
  "csp_can_pbuf_free buffer buf_free c = pbuf_free_loop buffer buf_free (pbufs c) None c"

definition pbuf_expired :: "csp_state \<Rightarrow> nat \<Rightarrow> bool" where
  "pbuf_expired s p \<longleftrightarrow> now s - timestamp_rx (pkt s p) > PBUF_TIMEOUT_MS"

partial_function (option) pbuf_cleanup_loop :: "nat option \<Rightarrow> nat option \<Rightarrow> can_state \<Rightarrow> can_state option" where
  "pbuf_cleanup_loop packet prev c =
     (case packet of
        None \<Rightarrow> Some c
      | Some p \<Rightarrow>
          let c = (if pbuf_expired (cnet c) p
                   then on_net (csp_buffer_free (Some p)) (pbuf_unlink prev p c)
                   else c)
          in pbuf_cleanup_loop (pnext c p) (Some p) c)"

definition csp_can_pbuf_cleanup :: "can_state \<Rightarrow> can_state option" where
  "csp_can_pbuf_cleanup c = pbuf_cleanup_loop (pbufs c) None c"

definition csp_can_pbuf_new :: "u32 \<Rightarrow> can_state \<Rightarrow> (nat option \<times> can_state) option" where
  "csp_can_pbuf_new cid c =
     (case csp_can_pbuf_cleanup c of
        None \<Rightarrow> None
      | Some c \<Rightarrow>
          (case csp_buffer_get (cnet c) of
             (None, s) \<Rightarrow> Some (None, c\<lparr>cnet := s\<rparr>)
           | (Some p, s) \<Rightarrow>
               let c = c\<lparr>cnet := s\<rparr>;
                   c = upd_pbuf p (\<lambda>k. k\<lparr>timestamp_rx := now (cnet c), cfpid := cid, remain := 0\<rparr>) c
               in Some (Some p, c\<lparr>pnext := (pnext c)(p := pbufs c), pbufs := Some p\<rparr>)))"

partial_function (option) pbuf_find_loop :: "u32 \<Rightarrow> u32 \<Rightarrow> nat option \<Rightarrow> can_state \<Rightarrow> (nat option \<times> can_state) option" where
  "pbuf_find_loop cid msk packet c =
     (case packet of
        None \<Rightarrow> Some (None, c)
      | Some p \<Rightarrow>
          if cfpid (pkt (cnet c) p) AND msk = cid AND msk
          then Some (Some p, upd_pbuf p (\<lambda>k. k\<lparr>timestamp_rx := now (cnet c)\<rparr>) c)
          else pbuf_find_loop cid msk (pnext c p) c)"

definition csp_can_pbuf_find :: "u32 \<Rightarrow> u32 \<Rightarrow> can_state \<Rightarrow> (nat option \<times> can_state) option" where
  "csp_can_pbuf_find cid msk c = pbuf_find_loop cid msk (pbufs c) c"

text \<open>The first part of both receive functions: the packet a frame belongs to, a new one for the first frame, or an error.\<close>

definition can_bind_frame :: "u32 \<Rightarrow> bool \<Rightarrow> nat \<Rightarrow> u32 \<Rightarrow> can_state \<Rightarrow> ((int + nat) \<times> can_state) option" where
  "can_bind_frame msk is_begin i cid c =
     (case csp_can_pbuf_find cid msk c of
        None \<Rightarrow> None
      | Some (Some p, c) \<Rightarrow> Some (Inr p, c)
      | Some (None, c) \<Rightarrow>
          if is_begin
          then (case csp_can_pbuf_new cid c of
                  None \<Rightarrow> None
                | Some (None, c) \<Rightarrow> Some (Inl CSP_ERR_NOMEM, can_rx_error_inc i c)
                | Some (Some p, c) \<Rightarrow> Some (Inr p, c))
          else Some (Inl CSP_ERR_INVAL, frame_inc i c))"

text \<open>A frame that ends the construction of its packet with an error: the error is noted and counted, and the packet
  released. The source counts before or after the release.\<close>

definition can_drop :: "int \<Rightarrow> u8 \<Rightarrow> nat \<Rightarrow> nat \<Rightarrow> can_state \<Rightarrow> (int \<times> can_state) option" where
  "can_drop res e i p c =
     (case csp_can_pbuf_free p True (frame_inc i (c\<lparr>csp_dbg_can_errno := e\<rparr>)) of
        None \<Rightarrow> None
      | Some c \<Rightarrow> Some (res, c))"

text \<open>The driver sends a frame.\<close>

type_synonym can_driver = "nat \<Rightarrow> int"

definition can_tx :: "can_driver \<Rightarrow> u32 \<Rightarrow> byte list \<Rightarrow> can_state \<Rightarrow> int \<times> can_state" where
  "can_tx tx_func cid bs c = (tx_func (length (sent c)), c\<lparr>sent := sent c @ [(cid, bs)]\<rparr>)"

section \<open>CFP 2\<close>

definition CFP2_ID_CONN_MASK :: u32 where
  "CFP2_ID_CONN_MASK = push_bit 13 0x3FFF OR push_bit 7 0x3F OR push_bit 27 0x3 OR push_bit 5 0x3"

definition cfp2_is_begin :: "u32 \<Rightarrow> bool" where
  "cfp2_is_begin cid \<longleftrightarrow> cid AND push_bit 1 1 \<noteq> 0"

definition cfp2_is_end :: "u32 \<Rightarrow> bool" where
  "cfp2_is_end cid \<longleftrightarrow> cid AND push_bit 0 1 \<noteq> 0"

text \<open>The packet after the first frame: the header from the identifier of the frame and its first four bytes.\<close>

definition can2_begin :: "u8 \<Rightarrow> u32 \<Rightarrow> byte list \<Rightarrow> csp_packet \<Rightarrow> csp_packet" where
  "can2_begin version cid bs k =
     (let k = snd (csp_id_setup_rx version k);
          k = k\<lparr>pmem := mwrite (frame_begin k) (be16_enc (ucast (drop_bit 13 cid))) (pmem k)\<rparr>;
          k = k\<lparr>pmem := mwrite (frame_begin k + 2) (take 4 bs) (pmem k)\<rparr>
      in k\<lparr>frame_length := 6, plength := 0, rx_count := 1\<rparr>)"

text \<open>The last frame: the header is parsed, the broadcast address becomes the own one, the packet goes to the router.\<close>

definition can2_deliver :: "nat \<Rightarrow> nat \<Rightarrow> can_state \<Rightarrow> (int \<times> can_state) option" where
  "can2_deliver i p c =
     (let c = upd_pbuf p (\<lambda>k. snd (csp_id_strip (conf_version (cnet c)) k)) c;
          c = upd_pbuf p (\<lambda>k. if dst (pid k) = 0x3FFF then k\<lparr>pid := (pid k)\<lparr>dst := if_addr (iface (cnet c) i)\<rparr>\<rparr> else k) c
      in case csp_can_pbuf_free p False c of
           None \<Rightarrow> None
         | Some c \<Rightarrow> Some (CSP_ERR_NONE, on_net (csp_qfifo_write (Some p) (Some i)) c))"

definition can2_append :: "nat \<Rightarrow> u32 \<Rightarrow> byte list \<Rightarrow> nat \<Rightarrow> can_state \<Rightarrow> (int \<times> can_state) option" where
  "can2_append i cid bs p c =
     (let k = pkt (cnet c) p
      in if data_at CSP_BUFFER_SIZE < frame_begin k + unat (frame_length k) + length bs
         then can_drop CSP_ERR_INVAL CSP_DBG_CAN_ERR_RX_OVF i p c
         else
           let c = upd_pbuf p (\<lambda>k. k\<lparr>pmem := mwrite (frame_begin k + unat (frame_length k)) bs (pmem k),
                                     frame_length := frame_length k + of_nat (length bs)\<rparr>) c
           in if cfp2_is_end cid then can2_deliver i p c else Some (CSP_ERR_NONE, c))"

definition can2_frame :: "nat \<Rightarrow> u32 \<Rightarrow> byte list \<Rightarrow> nat \<Rightarrow> can_state \<Rightarrow> (int \<times> can_state) option" where
  "can2_frame i cid bs p c =
     (if cfp2_is_begin cid
      then if length bs < 4 then can_drop CSP_ERR_INVAL CSP_DBG_CAN_ERR_SHORT_BEGIN i p c
           else can2_append i cid (drop 4 bs) p (upd_pbuf p (can2_begin (conf_version (cnet c)) cid bs) (frame_inc i c))
      else if ucast (rx_count (pkt (cnet c) p)) \<noteq> drop_bit 2 cid AND 0x7
           then can_drop CSP_ERR_INVAL CSP_DBG_CAN_ERR_FRAME_LOST i p c
           else can2_append i cid bs p (upd_pbuf p (\<lambda>k. k\<lparr>rx_count := (rx_count k + 1) AND 0x7\<rparr>) c))"

definition csp_can2_rx :: "nat \<Rightarrow> u32 \<Rightarrow> byte list \<Rightarrow> can_state \<Rightarrow> (int \<times> can_state) option" where
  "csp_can2_rx i cid bs c =
     (case can_bind_frame CFP2_ID_CONN_MASK (cfp2_is_begin cid) i cid c of
        None \<Rightarrow> None
      | Some (Inl e, c) \<Rightarrow> Some (e, c)
      | Some (Inr p, c) \<Rightarrow> can2_frame i cid bs p c)"

text \<open>The fields all frames of a packet share, and the first four data bytes of the first frame.\<close>

definition can2_conn_id :: "csp_id \<Rightarrow> u16 \<Rightarrow> u32 \<Rightarrow> u32" where
  "can2_conn_id d addr sender_count =
     push_bit 27 (ucast (pri d AND 0x3)) OR push_bit 13 (ucast (dst d AND 0x3FFF)) OR
     push_bit 7 (ucast (addr AND 0x3F)) OR push_bit 5 (sender_count AND 0x3)"

definition can2_header_extension :: "csp_id \<Rightarrow> u32" where
  "can2_header_extension d =
     push_bit 18 (ucast (src d AND 0x3FFF)) OR push_bit 12 (ucast (dport d AND 0x3F)) OR
     push_bit 6 (ucast (sport d AND 0x3F)) OR ucast (flags d AND 0x3F)"

function can2_tx_loop :: "can_driver \<Rightarrow> nat \<Rightarrow> u32 \<Rightarrow> byte list \<Rightarrow> nat \<Rightarrow> nat \<Rightarrow> can_state \<Rightarrow> int \<times> can_state" where
  "can2_tx_loop tx_func i cid bs tx_count fragment_count c =
     (if tx_count < length bs
      then
        let can_id = cid OR push_bit 2 (of_nat fragment_count AND 0x7);
            data_bytes = (if length bs - tx_count \<ge> CAN_FRAME_SIZE then CAN_FRAME_SIZE else length bs - tx_count);
            can_id = (if tx_count + data_bytes = length bs then can_id OR push_bit 0 1 else can_id)
        in case can_tx tx_func can_id (mread tx_count data_bytes bs) c of
             (e, c) \<Rightarrow>
               if e \<noteq> CSP_ERR_NONE then (CSP_ERR_DRIVER, can_tx_error_inc i c)
               else can2_tx_loop tx_func i cid bs (tx_count + data_bytes) (fragment_count + 1) c
      else (CSP_ERR_NONE, c))"
  by pat_completeness auto
termination
  by (relation "measure (\<lambda>(tx_func, i, cid, bs, tx_count, fragment_count, c). length bs - tx_count)") (auto simp: CAN_FRAME_SIZE_def)

declare can2_tx_loop.simps [simp del]

definition csp_can2_tx :: "can_driver \<Rightarrow> nat \<Rightarrow> nat \<Rightarrow> can_state \<Rightarrow> int \<times> can_state" where
  "csp_can2_tx tx_func i packet c =
     (let k = pkt (cnet c) packet; addr = if_addr (iface (cnet c) i)
      in if dst (pid k) = addr then (CSP_ERR_NONE, on_net (csp_qfifo_write (Some packet) (Some i)) c)
         else
           let sender_count = cfp_packet_counter c;
               c = c\<lparr>cfp_packet_counter := cfp_packet_counter c + 1\<rparr>;
               cid = can2_conn_id (pid k) addr sender_count;
               data_bytes = (if unat (plength k) \<ge> 4 then 4 else unat (plength k));
               can_id = cid OR push_bit 1 1;
               can_id = (if data_bytes = unat (plength k) then can_id OR push_bit 0 1 else can_id)
           in case can_tx tx_func can_id (be32_enc (can2_header_extension (pid k)) @ mread (data_at 0) data_bytes (pmem k)) c of
                (e, c) \<Rightarrow>
                  if e \<noteq> CSP_ERR_NONE then (CSP_ERR_DRIVER, can_tx_error_inc i c)
                  else
                    (case can2_tx_loop tx_func i cid (pdata k) data_bytes 1 c of
                       (e, c) \<Rightarrow>
                         if e \<noteq> CSP_ERR_NONE then (e, c)
                         else (CSP_ERR_NONE, on_net (csp_buffer_free (Some packet)) c)))"

section \<open>CFP 1\<close>

text \<open>The fields of the identifier: source, destination, type, remaining frames, number of the packet.\<close>

definition CFP_TYPE :: "u32 \<Rightarrow> u32" where "CFP_TYPE cid = drop_bit 18 cid AND 0x1"
definition CFP_REMAIN :: "u32 \<Rightarrow> u32" where "CFP_REMAIN cid = drop_bit 10 cid AND 0xFF"

definition CFP_MAKE_SRC :: "u32 \<Rightarrow> u32" where "CFP_MAKE_SRC v = push_bit 24 (v AND 0x1F)"
definition CFP_MAKE_DST :: "u32 \<Rightarrow> u32" where "CFP_MAKE_DST v = push_bit 19 (v AND 0x1F)"
definition CFP_MAKE_TYPE :: "u32 \<Rightarrow> u32" where "CFP_MAKE_TYPE v = push_bit 18 (v AND 0x1)"
definition CFP_MAKE_REMAIN :: "u32 \<Rightarrow> u32" where "CFP_MAKE_REMAIN v = push_bit 10 (v AND 0xFF)"
definition CFP_MAKE_ID :: "u32 \<Rightarrow> u32" where "CFP_MAKE_ID v = v AND 0x3FF"

definition CFP_BEGIN :: u32 where "CFP_BEGIN = 0"
definition CFP_MORE :: u32 where "CFP_MORE = 1"

definition CFP_ID_CONN_MASK :: u32 where
  "CFP_ID_CONN_MASK = CFP_MAKE_SRC 0x1F OR CFP_MAKE_DST 0x1F OR CFP_MAKE_ID 0x3FF"

lemmas cfp1_defs = CFP_TYPE_def CFP_REMAIN_def CFP_MAKE_SRC_def CFP_MAKE_DST_def CFP_MAKE_TYPE_def
  CFP_MAKE_REMAIN_def CFP_MAKE_ID_def CFP_BEGIN_def CFP_MORE_def CFP_ID_CONN_MASK_def

text \<open>The first frame: four bytes of header, two of length.\<close>

definition can1_begin :: "u8 \<Rightarrow> byte list \<Rightarrow> csp_packet \<Rightarrow> csp_packet" where
  "can1_begin version bs k =
     (let k = snd (csp_id_setup_rx version k);
          k = k\<lparr>pmem := mwrite (frame_begin k) (take 4 bs) (pmem k), frame_length := frame_length k + 4\<rparr>;
          k = snd (csp_id_strip version k)
      in k\<lparr>plength := be16_dec (take 2 (drop 4 bs))\<rparr>)"

definition can1_deliver :: "nat \<Rightarrow> nat \<Rightarrow> can_state \<Rightarrow> (int \<times> can_state) option" where
  "can1_deliver i p c =
     (let c = upd_pbuf p (\<lambda>k. if dst (pid k) = 0x1F then k\<lparr>pid := (pid k)\<lparr>dst := if_addr (iface (cnet c) i)\<rparr>\<rparr> else k) c
      in case csp_can_pbuf_free p False c of
           None \<Rightarrow> None
         | Some c \<Rightarrow>
             let c = upd_pbuf p (\<lambda>k. k\<lparr>timestamp_rx := 0\<rparr>) c
             in Some (CSP_ERR_NONE, on_net (csp_qfifo_write (Some p) (Some i)) c))"

definition can1_more :: "nat \<Rightarrow> u32 \<Rightarrow> byte list \<Rightarrow> nat \<Rightarrow> can_state \<Rightarrow> (int \<times> can_state) option" where
  "can1_more i cid bs p c =
     (if int (unat (CFP_REMAIN cid)) \<noteq> int (unat (remain (pkt (cnet c) p))) - 1
      then can_drop CSP_ERR_NONE CSP_DBG_CAN_ERR_FRAME_LOST i p c
      else
        let c = upd_pbuf p (\<lambda>k. k\<lparr>remain := remain k - 1\<rparr>) c;
            k = pkt (cnet c) p
        in if unat (rx_count k) + length bs > unat (plength k)
           then can_drop CSP_ERR_NONE CSP_DBG_CAN_ERR_RX_OVF i p c
           else
             let c = upd_pbuf p (\<lambda>k. k\<lparr>pmem := mwrite (data_at (unat (rx_count k))) bs (pmem k),
                                       rx_count := rx_count k + of_nat (length bs)\<rparr>) c
             in if rx_count (pkt (cnet c) p) \<noteq> plength (pkt (cnet c) p) then Some (CSP_ERR_NONE, c)
                else can1_deliver i p c)"

definition can1_frame :: "nat \<Rightarrow> u32 \<Rightarrow> byte list \<Rightarrow> nat \<Rightarrow> can_state \<Rightarrow> (int \<times> can_state) option" where
  "can1_frame i cid bs p c =
     (if CFP_TYPE cid = CFP_BEGIN
      then if length bs < 6 then can_drop CSP_ERR_NONE CSP_DBG_CAN_ERR_SHORT_BEGIN i p c
           else
             let c = frame_inc i c;
                 c = upd_pbuf p (can1_begin (conf_version (cnet c)) bs) c
             in if unat (plength (pkt (cnet c) p)) > CSP_BUFFER_SIZE
                then (case csp_can_pbuf_free p True (can_rx_error_inc i c) of
                        None \<Rightarrow> None
                      | Some c \<Rightarrow> Some (CSP_ERR_NONE, c))
                else can1_more i cid (drop 6 bs) p
                       (upd_pbuf p (\<lambda>k. k\<lparr>rx_count := 0, remain := ucast (CFP_REMAIN cid) + 1\<rparr>) c)
      else can1_more i cid bs p c)"

definition csp_can1_rx :: "nat \<Rightarrow> u32 \<Rightarrow> byte list \<Rightarrow> can_state \<Rightarrow> (int \<times> can_state) option" where
  "csp_can1_rx i cid bs c =
     (case can_bind_frame CFP_ID_CONN_MASK (CFP_TYPE cid = CFP_BEGIN) i cid c of
        None \<Rightarrow> None
      | Some (Inl e, c) \<Rightarrow> Some (e, c)
      | Some (Inr p, c) \<Rightarrow> can1_frame i cid bs p c)"

definition can1_id :: "csp_id \<Rightarrow> u8 \<Rightarrow> u32 \<Rightarrow> u32 \<Rightarrow> nat \<Rightarrow> u32" where
  "can1_id d dest ident ty rem =
     CFP_MAKE_SRC (ucast (src d)) OR CFP_MAKE_DST (ucast dest) OR CFP_MAKE_ID ident OR CFP_MAKE_TYPE ty OR CFP_MAKE_REMAIN (of_nat rem)"

function can1_tx_loop :: "can_driver \<Rightarrow> nat \<Rightarrow> csp_id \<Rightarrow> u8 \<Rightarrow> u32 \<Rightarrow> byte list \<Rightarrow> nat \<Rightarrow> can_state \<Rightarrow> int \<times> can_state" where
  "can1_tx_loop tx_func i d dest ident bs tx_count c =
     (if tx_count < length bs
      then
        let data_bytes = (if length bs - tx_count \<ge> CAN_FRAME_SIZE then CAN_FRAME_SIZE else length bs - tx_count);
            can_id = can1_id d dest ident CFP_MORE ((length bs - tx_count - data_bytes + CAN_FRAME_SIZE - 1) div CAN_FRAME_SIZE)
        in case can_tx tx_func can_id (mread tx_count data_bytes bs) c of
             (e, c) \<Rightarrow>
               if e \<noteq> CSP_ERR_NONE then (CSP_ERR_DRIVER, can_tx_error_inc i c)
               else can1_tx_loop tx_func i d dest ident bs (tx_count + data_bytes) c
      else (CSP_ERR_NONE, c))"
  by pat_completeness auto
termination
  by (relation "measure (\<lambda>(tx_func, i, d, dest, ident, bs, tx_count, c). length bs - tx_count)") (auto simp: CAN_FRAME_SIZE_def)

declare can1_tx_loop.simps [simp del]

definition csp_can1_tx :: "can_driver \<Rightarrow> nat \<Rightarrow> u16 \<Rightarrow> nat \<Rightarrow> can_state \<Rightarrow> int \<times> can_state" where
  "csp_can1_tx tx_func i via packet c =
     (let k = pkt (cnet c) packet
      in if dst (pid k) = if_addr (iface (cnet c) i) then (CSP_ERR_NONE, on_net (csp_qfifo_write (Some packet) (Some i)) c)
         else
           let ident = cfp_packet_counter c;
               c = c\<lparr>cfp_packet_counter := cfp_packet_counter c + 1\<rparr>;
               dest = (if via \<noteq> CSP_NO_VIA_ADDRESS then ucast via else ucast (dst (pid k)));
               can_id = can1_id (pid k) dest ident CFP_BEGIN ((unat (plength k) + 6 - 1) div CAN_FRAME_SIZE);
               c = upd_pbuf packet (csp_id_prepend (conf_version (cnet c))) c;
               k = pkt (cnet c) packet;
               data_bytes = (if unat (plength k) \<le> 2 then unat (plength k) else 2);
               frame_buf = mread (frame_begin k) 4 (pmem k) @ be16_enc (plength k) @ mread (data_at 0) data_bytes (pmem k)
           in case can_tx tx_func can_id frame_buf c of
                (e, c) \<Rightarrow>
                  if e \<noteq> CSP_ERR_NONE then (CSP_ERR_DRIVER, can_tx_error_inc i c)
                  else
                    (case can1_tx_loop tx_func i (pid k) dest ident (pdata k) data_bytes c of
                       (e, c) \<Rightarrow>
                         if e \<noteq> CSP_ERR_NONE then (e, c)
                         else (CSP_ERR_NONE, on_net (csp_buffer_free (Some packet)) c)))"

section \<open>The interface\<close>

definition csp_can_rx :: "nat \<Rightarrow> u32 \<Rightarrow> byte list \<Rightarrow> can_state \<Rightarrow> (int \<times> can_state) option" where
  "csp_can_rx i cid bs c = (if conf_version (cnet c) = 1 then csp_can1_rx i cid bs c else csp_can2_rx i cid bs c)"

text \<open>\<open>csp_can_add_interface\<close>; \<open>tx1\<close> and \<open>tx2\<close> are \<open>csp_can1_tx\<close> and \<open>csp_can2_tx\<close> as the network layer calls them. The name, the interface data
  and the function of the driver are there.\<close>

definition csp_can_add_interface :: "nexthop \<Rightarrow> nexthop \<Rightarrow> nat \<Rightarrow> can_state \<Rightarrow> int \<times> can_state" where
  "csp_can_add_interface tx1 tx2 i c =
     (let c = c\<lparr>cfp_packet_counter := 0\<rparr>;
          c = on_net (upd_iface i (\<lambda>f. f\<lparr>if_nexthop := (if conf_version (cnet c) = 1 then tx1 else tx2)\<rparr>)) c
      in case csp_iflist_add i (iflist (cnet c)) of (e, l) \<Rightarrow> (e, on_net (\<lambda>s. s\<lparr>iflist := l\<rparr>) c))"

definition csp_can_remove_interface :: "nat option \<Rightarrow> can_state \<Rightarrow> int \<times> can_state" where
  "csp_can_remove_interface ifc c =
     (if ifc = None then (CSP_ERR_INVAL, c)
      else (CSP_ERR_NONE, on_net (\<lambda>s. s\<lparr>iflist := csp_iflist_remove ifc (iflist s)\<rparr>) c))"

section \<open>The SocketCAN driver\<close>

text \<open>The frames on the bus, with the flags of the operating system in the identifier. The receive thread drops all frames but the
  data frames with a long identifier.\<close>

definition CAN_EFF_FLAG :: u32 where "CAN_EFF_FLAG = 0x80000000"
definition CAN_RTR_FLAG :: u32 where "CAN_RTR_FLAG = 0x40000000"
definition CAN_ERR_FLAG :: u32 where "CAN_ERR_FLAG = 0x20000000"
definition CAN_EFF_MASK :: u32 where "CAN_EFF_MASK = 0x1FFFFFFF"

definition socketcan_rx :: "nat \<Rightarrow> u32 \<Rightarrow> byte list \<Rightarrow> can_state \<Rightarrow> can_state option" where
  "socketcan_rx i can_id bs c =
     (if can_id AND CAN_EFF_FLAG = 0 then Some c
      else if can_id AND (CAN_ERR_FLAG OR CAN_RTR_FLAG) \<noteq> 0 then Some c
      else map_option snd (csp_can_rx i (can_id AND CAN_EFF_MASK) bs c))"

text \<open>The thread on the frames it reads, each with the time it arrives.\<close>

fun socketcan_rx_thread :: "nat \<Rightarrow> (u32 \<times> u32 \<times> byte list) list \<Rightarrow> can_state \<Rightarrow> can_state option" where
  "socketcan_rx_thread i [] c = Some c"
| "socketcan_rx_thread i ((t, can_id, bs) # fs) c =
     (case socketcan_rx i can_id bs (on_net (\<lambda>s. s\<lparr>now := t\<rparr>) c) of
        None \<Rightarrow> None
      | Some c \<Rightarrow> socketcan_rx_thread i fs c)"

text \<open>The frame as it is written, and the attempts to write it: every 5 ms while the operating system has no room for it, for at most one
  second. \<open>wr n\<close> is the result of the \<open>n\<close>-th attempt.\<close>

datatype write_result = WR_OK | WR_NOBUFS | WR_ERROR

function tx_frame_loop :: "(nat \<Rightarrow> write_result) \<Rightarrow> nat \<Rightarrow> nat \<Rightarrow> int" where
  "tx_frame_loop wr n elapsed_ms =
     (case wr n of
        WR_OK \<Rightarrow> CSP_ERR_NONE
      | WR_ERROR \<Rightarrow> CSP_ERR_TX
      | WR_NOBUFS \<Rightarrow> if elapsed_ms \<ge> 1000 then CSP_ERR_TX else tx_frame_loop wr (n + 1) (elapsed_ms + 5))"
  by pat_completeness auto
termination
  by (relation "measure (\<lambda>(wr, n, elapsed_ms). 1000 - elapsed_ms)") auto

declare tx_frame_loop.simps [simp del]

definition csp_can_tx_frame :: "(nat \<Rightarrow> write_result) \<Rightarrow> u32 \<Rightarrow> byte list \<Rightarrow> int \<times> (u32 \<times> byte list) option" where
  "csp_can_tx_frame wr cid bs =
     (if length bs > 8 then (CSP_ERR_INVAL, None)
      else case tx_frame_loop wr 0 0 of e \<Rightarrow> (e, if e = CSP_ERR_NONE then Some (cid OR CAN_EFF_FLAG, bs) else None))"

section \<open>The list of packets under construction\<close>

text \<open>\<open>pchain nx h xs e\<close>: from \<open>h\<close> the pointers lead along \<open>xs\<close> to \<open>e\<close>.\<close>

fun pchain :: "(nat \<Rightarrow> nat option) \<Rightarrow> nat option \<Rightarrow> nat list \<Rightarrow> nat option \<Rightarrow> bool" where
  "pchain nx h [] e \<longleftrightarrow> h = e"
| "pchain nx h (x # xs) e \<longleftrightarrow> h = Some x \<and> pchain nx (nx x) xs e"

lemma pchain_append: "pchain nx h (xs @ ys) e \<longleftrightarrow> (\<exists>m. pchain nx h xs m \<and> pchain nx m ys e)"
  by (induction xs arbitrary: h) auto

lemma pchain_upd: "q \<notin> set xs \<Longrightarrow> pchain (nx(q := v)) h xs e = pchain nx h xs e"
  by (induction xs arbitrary: h) auto

lemma pchain_cong: "(\<And>z. z \<in> set xs \<Longrightarrow> nx z = ny z) \<Longrightarrow> pchain nx h xs e = pchain ny h xs e"
  by (induction xs arbitrary: h) auto

text \<open>The pointer before a place of the list.\<close>

definition pred_of :: "nat list \<Rightarrow> nat option" where
  "pred_of ys = (if ys = [] then None else Some (last ys))"

lemma pred_of_snoc [simp]: "pred_of (ys @ [y]) = Some y" "pred_of [] = None"
  by (simp_all add: pred_of_def)

lemma unlink_spec:
  assumes "pchain (pnext c) (pbufs c) ys (Some x)" "distinct (ys @ [x])"
  obtains nx h where "pbuf_unlink (pred_of ys) x c = c\<lparr>pnext := nx, pbufs := h\<rparr>" "pchain nx h ys (pnext c x)"
    "\<And>z. z \<notin> set ys \<Longrightarrow> nx z = pnext c z"
proof (cases ys rule: rev_cases)
  case Nil
  then show thesis using that [where nx = "pnext c" and h = "pnext c x"] assms by (simp add: pbuf_unlink_def)
next
  case (snoc ws q)
  show thesis
  proof (rule that [where nx = "(pnext c)(q := pnext c x)" and h = "pbufs c"])
    show "pbuf_unlink (pred_of ys) x c = c\<lparr>pnext := (pnext c)(q := pnext c x), pbufs := pbufs c\<rparr>"
      by (simp add: pbuf_unlink_def snoc)
    show "pchain ((pnext c)(q := pnext c x)) (pbufs c) ys (pnext c x)"
      using assms by (auto simp: snoc pchain_append pchain_upd)
  qed (simp add: snoc)
qed

lemma free_loop_None [simp]: "pbuf_free_loop b f None prev c = Some c"
  by (subst pbuf_free_loop.simps) simp

lemma free_loop_skip:
  assumes "pchain (pnext c) h xs e" "b \<notin> set xs"
  shows "pbuf_free_loop b f h prev c = pbuf_free_loop b f e (if xs = [] then prev else Some (last xs)) c"
  using assms
proof (induction xs arbitrary: h prev)
  case (Cons x xs)
  have "pbuf_free_loop b f h prev c = pbuf_free_loop b f (pnext c x) (Some x) c"
    using Cons.prems by (subst pbuf_free_loop.simps) (auto simp: Let_def)
  also have "\<dots> = pbuf_free_loop b f e (if xs = [] then Some x else Some (last xs)) c"
    by (rule Cons.IH) (use Cons.prems in auto)
  finally show ?case by (simp split: if_splits)
qed simp

text \<open>Erasing a packet of the list, with or without releasing its buffer.\<close>

lemma pbuf_free_spec:
  assumes "pchain (pnext c) (pbufs c) xs None" "distinct xs" "b \<in> set xs"
  obtains nx h where "csp_can_pbuf_free b f c = Some (c\<lparr>pnext := nx, pbufs := h, cnet := if f then csp_buffer_free (Some b) (cnet c) else cnet c\<rparr>)"
    "pchain nx h (remove1 b xs) None"
proof -
  obtain ys zs where xs: "xs = ys @ b # zs" using assms(3) by (meson split_list)
  have ch: "pchain (pnext c) (pbufs c) ys (Some b)" "pchain (pnext c) (pnext c b) zs None" and d: "distinct (ys @ [b])" "b \<notin> set zs"
    using assms(1,2) by (auto simp: xs pchain_append)
  obtain nx h where u: "pbuf_unlink (pred_of ys) b c = c\<lparr>pnext := nx, pbufs := h\<rparr>" "pchain nx h ys (pnext c b)"
    "\<And>z. z \<notin> set ys \<Longrightarrow> nx z = pnext c z"
    using unlink_spec [OF ch(1) d(1)] by blast
  define c' where "c' = c\<lparr>pnext := nx, pbufs := h, cnet := if f then csp_buffer_free (Some b) (cnet c) else cnet c\<rparr>"
  have "pchain nx (pnext c b) zs None = pchain (pnext c) (pnext c b) zs None"
    by (rule pchain_cong) (use assms(2) u(3) in \<open>auto simp: xs\<close>)
  then have zs: "pchain nx (pnext c b) zs None" using ch(2) by simp
  have "csp_can_pbuf_free b f c = pbuf_free_loop b f (Some b) (pred_of ys) c"
    using free_loop_skip [OF ch(1), of b f None] d by (simp add: csp_can_pbuf_free_def pred_of_def)
  also have "\<dots> = pbuf_free_loop b f (pnext c' b) (Some b) c'"
    by (subst pbuf_free_loop.simps) (simp add: Let_def u(1) c'_def on_net_def)
  also have "\<dots> = Some c'"
    using free_loop_skip [of c' "pnext c b" zs None b f "Some b"] zs d u(3) by (simp add: c'_def)
  finally have "csp_can_pbuf_free b f c = Some c'" .
  moreover have "pchain nx h (remove1 b xs) None"
    using u(2) zs d by (auto simp: xs remove1_append pchain_append)
  ultimately show thesis using that unfolding c'_def by blast
qed

lemma find_loop_None [simp]: "pbuf_find_loop cid msk None c = Some (None, c)"
  by (subst pbuf_find_loop.simps) simp

abbreviation pbuf_match :: "u32 \<Rightarrow> u32 \<Rightarrow> csp_state \<Rightarrow> nat \<Rightarrow> bool" where
  "pbuf_match cid msk s p \<equiv> cfpid (pkt s p) AND msk = cid AND msk"

lemma find_loop_spec:
  assumes "pchain (pnext c) h xs None"
  shows "pbuf_find_loop cid msk h c = Some (case find (pbuf_match cid msk (cnet c)) xs of
      None \<Rightarrow> (None, c) | Some p \<Rightarrow> (Some p, upd_pbuf p (\<lambda>k. k\<lparr>timestamp_rx := now (cnet c)\<rparr>) c))"
  using assms
proof (induction xs arbitrary: h)
  case (Cons x xs)
  then show ?case by (subst pbuf_find_loop.simps) auto
qed simp

lemma pbuf_find_spec:
  assumes "pchain (pnext c) (pbufs c) xs None"
  shows "csp_can_pbuf_find cid msk c = Some (case find (pbuf_match cid msk (cnet c)) xs of
      None \<Rightarrow> (None, c) | Some p \<Rightarrow> (Some p, upd_pbuf p (\<lambda>k. k\<lparr>timestamp_rx := now (cnet c)\<rparr>) c))"
  unfolding csp_can_pbuf_find_def by (rule find_loop_spec [OF assms])

lemma cleanup_loop_None [simp]: "pbuf_cleanup_loop None prev c = Some c"
  by (subst pbuf_cleanup_loop.simps) simp

lemma cleanup_loop_keep:
  "\<not> pbuf_expired (cnet c) x \<Longrightarrow> pbuf_cleanup_loop (Some x) prev c = pbuf_cleanup_loop (pnext c x) (Some x) c"
  by (subst pbuf_cleanup_loop.simps) simp

lemma cleanup_loop_expired:
  assumes "pchain (pnext c) (pbufs c) ys (Some x)" "distinct (ys @ [x])" "pbuf_expired (cnet c) x"
  obtains nx h where "pbuf_cleanup_loop (Some x) (pred_of ys) c =
      pbuf_cleanup_loop (pnext c x) (Some x) (c\<lparr>pnext := nx, pbufs := h, cnet := csp_buffer_free (Some x) (cnet c)\<rparr>)"
    "pchain nx h ys (pnext c x)" "\<And>z. z \<notin> set ys \<Longrightarrow> nx z = pnext c z"
proof -
  obtain nx h where u: "pbuf_unlink (pred_of ys) x c = c\<lparr>pnext := nx, pbufs := h\<rparr>" "pchain nx h ys (pnext c x)"
    "\<And>z. z \<notin> set ys \<Longrightarrow> nx z = pnext c z"
    using unlink_spec [OF assms(1,2)] by blast
  have "nx x = pnext c x" using u(3) assms(2) by simp
  then have "pbuf_cleanup_loop (Some x) (pred_of ys) c =
      pbuf_cleanup_loop (pnext c x) (Some x) (c\<lparr>pnext := nx, pbufs := h, cnet := csp_buffer_free (Some x) (cnet c)\<rparr>)"
    using assms(3) by (subst pbuf_cleanup_loop.simps) (simp add: Let_def u(1) on_net_def)
  then show thesis using that u(2,3) by blast
qed

text \<open>The buffers \<open>xs\<close> have gone back to the pool, and nothing else has changed.\<close>

definition freed :: "nat list \<Rightarrow> csp_state \<Rightarrow> csp_state \<Rightarrow> bool" where
  "freed xs s t \<longleftrightarrow> free_list t = free_list s @ xs \<and> csp_pool.more t = csp_pool.more s \<and> (\<forall>h. pkt t h = pkt s h)"

lemma freed_refl [simp]: "freed [] s s"
  by (simp add: freed_def)

lemma freed_trans: "freed xs s t \<Longrightarrow> freed ys t u \<Longrightarrow> freed (xs @ ys) s u"
  by (simp add: freed_def)

lemma freed_one:
  assumes "acct (add_mset h M) s"
  shows "freed [h] s (csp_buffer_free (Some h) s)"
proof -
  have h: "h \<in> allocated s" "refcount (bufs s ! h) = 1" and inv: "pool_inv s"
    using held_allocated [OF assms, of h] assms by (simp_all add: acct_def)
  obtain t where "csp_buffer_free (Some h) s = t" "free_list t = free_list s @ [h]"
    by (rule csp_buffer_free_last [OF inv h]) blast
  then show ?thesis using acct_free(2,3) [OF assms] by (simp add: freed_def)
qed

lemma freed_expired: "freed xs s t \<Longrightarrow> pbuf_expired t p = pbuf_expired s p"
  using more_fields(13) [of t s] by (simp add: freed_def pbuf_expired_def)

definition can_rest :: "can_state \<Rightarrow> u32 \<times> u8 \<times> (u32 \<times> byte list) list" where
  "can_rest c = (cfp_packet_counter c, csp_dbg_can_errno c, sent c)"

lemma can_rest_upd [simp]:
  "can_rest (c\<lparr>cnet := s\<rparr>) = can_rest c" "can_rest (c\<lparr>pnext := nx\<rparr>) = can_rest c" "can_rest (c\<lparr>pbufs := h\<rparr>) = can_rest c"
  "can_rest (on_net f c) = can_rest c" "can_rest (upd_pbuf p g c) = can_rest c"
  by (simp_all add: can_rest_def on_net_def upd_pbuf_def)

lemma cleanup_loop_spec:
  assumes "pchain (pnext c) (pbufs c) ys h" "pchain (pnext c) h xs None" "distinct (ys @ xs)"
    and "successively (\<lambda>x y. \<not> (pbuf_expired (cnet c) x \<and> pbuf_expired (cnet c) y)) xs" "acct (mset xs + M) (cnet c)"
  shows "\<exists>c'. pbuf_cleanup_loop h (pred_of ys) c = Some c' \<and> can_rest c' = can_rest c \<and>
    pchain (pnext c') (pbufs c') (ys @ filter (\<lambda>x. \<not> pbuf_expired (cnet c) x) xs) None \<and>
    acct (mset (filter (\<lambda>x. \<not> pbuf_expired (cnet c) x) xs) + M) (cnet c') \<and> freed (filter (pbuf_expired (cnet c)) xs) (cnet c) (cnet c')"
  using assms
proof (induction xs arbitrary: ys h c M rule: induct_list012)
  case 1
  then show ?case by auto
next
  case (2 x)
  have h: "h = Some x" "pnext c x = None" "acct (add_mset x M) (cnet c)" using 2 by simp_all
  have pre: "pchain (pnext c) (pbufs c) ys (Some x)" "distinct (ys @ [x])" using 2 by simp_all
  show ?case
  proof (cases "pbuf_expired (cnet c) x")
    case True
    obtain nx h' where u: "pbuf_cleanup_loop (Some x) (pred_of ys) c =
        pbuf_cleanup_loop (pnext c x) (Some x) (c\<lparr>pnext := nx, pbufs := h', cnet := csp_buffer_free (Some x) (cnet c)\<rparr>)"
      "pchain nx h' ys (pnext c x)"
      using cleanup_loop_expired [OF pre True] by blast
    then show ?thesis using h True acct_free(1) [OF h(3)] freed_one [OF h(3)] by simp
  next
    case False
    then show ?thesis using 2 h by (auto simp: pchain_append cleanup_loop_keep)
  qed
next
  case (3 x y zs)
  have h: "h = Some x" "pnext c x = Some y" "acct (add_mset x (mset (y # zs) + M)) (cnet c)" using 3(3-) by simp_all
  have pre: "pchain (pnext c) (pbufs c) ys (Some x)" "distinct (ys @ [x])" using 3(3-) by simp_all
  show ?case
  proof (cases "pbuf_expired (cnet c) x")
    case True
    have y: "\<not> pbuf_expired (cnet c) y" using 3(3-) True by simp
    obtain nx h' where u: "pbuf_cleanup_loop (Some x) (pred_of ys) c =
        pbuf_cleanup_loop (pnext c x) (Some x) (c\<lparr>pnext := nx, pbufs := h', cnet := csp_buffer_free (Some x) (cnet c)\<rparr>)"
      "pchain nx h' ys (pnext c x)" "\<And>z. z \<notin> set ys \<Longrightarrow> nx z = pnext c z"
      using cleanup_loop_expired [OF pre True] by blast
    define c' where "c' = c\<lparr>pnext := nx, pbufs := h', cnet := csp_buffer_free (Some x) (cnet c)\<rparr>"
    note f = freed_one [OF h(3)] and a = acct_free(1) [OF h(3)]
    have e: "pbuf_expired (cnet c') = pbuf_expired (cnet c)" using freed_expired [OF f] by (auto simp: c'_def)
    have zs: "pchain nx (pnext c y) zs None = pchain (pnext c) (pnext c y) zs None"
      by (rule pchain_cong) (use 3(3-) u(3) in auto)
    have ch: "pchain (pnext c') (pbufs c') (ys @ [y]) (pnext c' y)" "pchain (pnext c') (pnext c' y) zs None"
      using 3(3-) h u(2,3) by (auto simp: c'_def zs pchain_append)
    have loop: "pbuf_cleanup_loop h (pred_of ys) c = pbuf_cleanup_loop (pnext c' y) (pred_of (ys @ [y])) c'"
      using h u(1) y e by (simp add: c'_def [symmetric] cleanup_loop_keep)
    have "\<exists>c''. pbuf_cleanup_loop (pnext c' y) (pred_of (ys @ [y])) c' = Some c'' \<and> can_rest c'' = can_rest c' \<and>
      pchain (pnext c'') (pbufs c'') ((ys @ [y]) @ filter (\<lambda>x. \<not> pbuf_expired (cnet c') x) zs) None \<and>
      acct (mset (filter (\<lambda>x. \<not> pbuf_expired (cnet c') x) zs) + add_mset y M) (cnet c'') \<and>
      freed (filter (pbuf_expired (cnet c')) zs) (cnet c') (cnet c'')"
      by (rule 3(1) [OF ch]) (use 3(3-) a in \<open>auto simp: e successively_Cons\<close>, simp_all add: c'_def)
    then show ?thesis using loop True y e freed_trans [OF f] by (auto simp: c'_def)
  next
    case False
    have ch: "pchain (pnext c) (pbufs c) (ys @ [x]) (Some y)" "pchain (pnext c) (Some y) (y # zs) None"
      using 3(3-) h by (auto simp: pchain_append)
    have "\<exists>c'. pbuf_cleanup_loop (Some y) (pred_of (ys @ [x])) c = Some c' \<and> can_rest c' = can_rest c \<and>
      pchain (pnext c') (pbufs c') ((ys @ [x]) @ filter (\<lambda>x. \<not> pbuf_expired (cnet c) x) (y # zs)) None \<and>
      acct (mset (filter (\<lambda>x. \<not> pbuf_expired (cnet c) x) (y # zs)) + add_mset x M) (cnet c') \<and>
      freed (filter (pbuf_expired (cnet c)) (y # zs)) (cnet c) (cnet c')"
      by (rule 3(2) [OF ch]) (use 3(3-) h in simp_all)
    then show ?thesis using False h by (simp add: cleanup_loop_keep)
  qed
qed

text \<open>What the loop does to the pool, whichever packets have expired; the head changes only at the first packet.\<close>

lemma cleanup_loop_pool:
  assumes "pchain (pnext c) h xs None" "distinct xs" "case prev of None \<Rightarrow> True | Some q \<Rightarrow> q \<notin> set xs" "acct (mset xs + M) (cnet c)"
  shows "\<exists>c'. pbuf_cleanup_loop h prev c = Some c' \<and> freed (filter (pbuf_expired (cnet c)) xs) (cnet c) (cnet c') \<and>
    acct (mset (filter (\<lambda>x. \<not> pbuf_expired (cnet c) x) xs) + M) (cnet c') \<and> (prev \<noteq> None \<longrightarrow> pbufs c' = pbufs c) \<and>
    (xs \<noteq> [] \<and> prev = None \<and> pbuf_expired (cnet c) (hd xs) \<longrightarrow> pbufs c' = pnext c (hd xs))"
  using assms
proof (induction xs arbitrary: h prev c M)
  case (Cons x xs)
  define c1 where "c1 = (if pbuf_expired (cnet c) x then on_net (csp_buffer_free (Some x)) (pbuf_unlink prev x c) else c)"
  have a: "acct (add_mset x (mset xs + M)) (cnet c)" using Cons.prems by simp
  have net1: "cnet c1 = (if pbuf_expired (cnet c) x then csp_buffer_free (Some x) (cnet c) else cnet c)"
    by (simp add: c1_def on_net_def pbuf_unlink_def split: option.split)
  have f1: "freed (if pbuf_expired (cnet c) x then [x] else []) (cnet c) (cnet c1)" using freed_one [OF a] by (simp add: net1)
  have e1: "pbuf_expired (cnet c1) = pbuf_expired (cnet c)" using freed_expired [OF f1] by auto
  have a1: "acct (mset xs + (if pbuf_expired (cnet c) x then M else add_mset x M)) (cnet c1)"
    using acct_free(1) [OF a] a by (simp add: net1)
  have nx: "pnext c1 z = pnext c z" if "z \<in> set (x # xs)" for z
    using that Cons.prems(3) by (auto simp: c1_def on_net_def pbuf_unlink_def split: option.split)
  have ch: "pchain (pnext c1) (pnext c1 x) xs None"
    using Cons.prems(1) nx pchain_cong [of xs "pnext c1" "pnext c"] by simp
  have b1: "prev \<noteq> None \<Longrightarrow> pbufs c1 = pbufs c" "prev = None \<Longrightarrow> pbuf_expired (cnet c) x \<Longrightarrow> pbufs c1 = pnext c x"
    by (auto simp: c1_def on_net_def pbuf_unlink_def)
  have "h = Some x" using Cons.prems(1) by simp
  then have loop: "pbuf_cleanup_loop h prev c = pbuf_cleanup_loop (pnext c1 x) (Some x) c1"
    by (simp add: pbuf_cleanup_loop.simps [of "Some x" prev c] c1_def Let_def)
  obtain c' where c': "pbuf_cleanup_loop (pnext c1 x) (Some x) c1 = Some c'" "freed (filter (pbuf_expired (cnet c)) xs) (cnet c1) (cnet c')"
    "acct (mset (filter (\<lambda>x. \<not> pbuf_expired (cnet c) x) xs) + (if pbuf_expired (cnet c) x then M else add_mset x M)) (cnet c')"
    "pbufs c' = pbufs c1"
    using Cons.IH [OF ch _ _ a1, of "Some x"] Cons.prems(2) by (auto simp: e1)
  have "freed (filter (pbuf_expired (cnet c)) (x # xs)) (cnet c) (cnet c')"
    using freed_trans [OF f1 c'(2)] by (simp split: if_splits)
  then show ?case using loop c' b1 by (simp split: if_splits)
qed auto

lemma pbuf_cleanup_spec:
  assumes "pchain (pnext c) (pbufs c) xs None" "distinct xs" "acct (mset xs + M) (cnet c)"
    and "successively (\<lambda>x y. \<not> (pbuf_expired (cnet c) x \<and> pbuf_expired (cnet c) y)) xs"
  obtains c' where "csp_can_pbuf_cleanup c = Some c'" "can_rest c' = can_rest c"
    "pchain (pnext c') (pbufs c') (filter (\<lambda>x. \<not> pbuf_expired (cnet c) x) xs) None"
    "acct (mset (filter (\<lambda>x. \<not> pbuf_expired (cnet c) x) xs) + M) (cnet c')" "freed (filter (pbuf_expired (cnet c)) xs) (cnet c) (cnet c')"
  using cleanup_loop_spec [of c "[]" "pbufs c" xs M] assms by (auto simp: csp_can_pbuf_cleanup_def)

text \<open>The removal of packets under construction that have waited more than a second. Every such packet goes back to the
  pool, once, and no other, and the loop ends. If no two of them are neighbours, the list then consists of the other packets in
  their order. If the first two have expired, however, the list starts with the second one, which is in the pool.\<close>

theorem csp_can_pbuf_cleanup_effect:
  assumes "pchain (pnext c) (pbufs c) xs None" "distinct xs" "acct (mset xs + M) (cnet c)"
  shows "\<exists>c'. csp_can_pbuf_cleanup c = Some c' \<and> free_list (cnet c') = free_list (cnet c) @ filter (pbuf_expired (cnet c)) xs \<and>
    acct (mset (filter (\<lambda>x. \<not> pbuf_expired (cnet c) x) xs) + M) (cnet c') \<and> (\<forall>h. pkt (cnet c') h = pkt (cnet c) h) \<and>
    (successively (\<lambda>x y. \<not> (pbuf_expired (cnet c) x \<and> pbuf_expired (cnet c) y)) xs \<longrightarrow>
       pchain (pnext c') (pbufs c') (filter (\<lambda>x. \<not> pbuf_expired (cnet c) x) xs) None) \<and>
    (\<forall>x y zs. xs = x # y # zs \<and> pbuf_expired (cnet c) x \<and> pbuf_expired (cnet c) y \<longrightarrow>
       pbufs c' = Some y \<and> y \<in> set (free_list (cnet c')))"
proof -
  obtain c' where c': "csp_can_pbuf_cleanup c = Some c'" "freed (filter (pbuf_expired (cnet c)) xs) (cnet c) (cnet c')"
    "acct (mset (filter (\<lambda>x. \<not> pbuf_expired (cnet c) x) xs) + M) (cnet c')"
    "xs \<noteq> [] \<Longrightarrow> pbuf_expired (cnet c) (hd xs) \<Longrightarrow> pbufs c' = pnext c (hd xs)"
    using cleanup_loop_pool [OF assms(1,2), where prev = None, OF _ assms(3)] by (auto simp: csp_can_pbuf_cleanup_def)
  have "pchain (pnext c') (pbufs c') (filter (\<lambda>x. \<not> pbuf_expired (cnet c) x) xs) None"
    if "successively (\<lambda>x y. \<not> (pbuf_expired (cnet c) x \<and> pbuf_expired (cnet c) y)) xs"
    by (rule pbuf_cleanup_spec [OF assms that]) (use c'(1) in simp)
  moreover have "pbufs c' = Some y \<and> y \<in> set (free_list (cnet c'))"
    if "xs = x # y # zs" "pbuf_expired (cnet c) x" "pbuf_expired (cnet c) y" for x y zs
    using that assms(1) c'(2,4) by (simp add: freed_def)
  ultimately show ?thesis using c'(1-3) by (auto simp: freed_def)
qed

section \<open>Receiving CFP 2 frames\<close>

text \<open>The list of packets under construction is in order, its packets are allocated and nobody else has them.\<close>

definition can_list :: "u8 \<Rightarrow> nat multiset \<Rightarrow> nat list \<Rightarrow> can_state \<Rightarrow> bool" where
  "can_list v M xs c \<longleftrightarrow> pchain (pnext c) (pbufs c) xs None \<and> distinct xs \<and> acct (mset xs + M) (cnet c) \<and> conf_version (cnet c) = v"

text \<open>A packet that has its first frame: the frame starts with six bytes of header and fits the memory.\<close>

definition pbuf2_ok :: "csp_packet \<Rightarrow> bool" where
  "pbuf2_ok k \<longleftrightarrow> frame_begin k = 2 \<and> 6 \<le> unat (frame_length k) \<and> unat (frame_length k) \<le> CSP_BUFFER_SIZE + 6"

text \<open>What receiving a frame leaves as it was, before a packet is complete.\<close>

definition can_same :: "can_state \<Rightarrow> can_state \<Rightarrow> bool" where
  "can_same c c' \<longleftrightarrow> qfifo (cnet c') = qfifo (cnet c) \<and> conf_version (cnet c') = conf_version (cnet c) \<and> now (cnet c') = now (cnet c) \<and>
     (\<forall>i. if_addr (iface (cnet c') i) = if_addr (iface (cnet c) i))"

lemma can_same_refl [simp]: "can_same c c"
  by (simp add: can_same_def)

lemma can_same_trans: "can_same c d \<Longrightarrow> can_same d e \<Longrightarrow> can_same c e"
  by (simp add: can_same_def)

lemma can_same_upd [simp]:
  "can_same c (upd_pbuf p f c)" "can_same c (frame_inc i c)" "can_same c (can_rx_error_inc i c)" "can_same c (c\<lparr>csp_dbg_can_errno := e\<rparr>)"
  by (auto simp: can_same_def upd_pbuf_def on_net_def set_pkt_def iface_def frame_inc_def can_rx_error_inc_def upd_iface_def nth_update_if)

lemma can_same_freed: "freed xs (cnet c) (cnet c') \<Longrightarrow> can_same c c'"
  using more_fields [of "cnet c'" "cnet c"] by (simp add: freed_def can_same_def)

lemma list_fields [simp]:
  "pnext (upd_pbuf p f c) = pnext c" "pbufs (upd_pbuf p f c) = pbufs c" "pnext (frame_inc i c) = pnext c" "pbufs (frame_inc i c) = pbufs c"
  "pnext (can_rx_error_inc i c) = pnext c" "pbufs (can_rx_error_inc i c) = pbufs c" "pnext (on_net g c) = pnext c" "pbufs (on_net g c) = pbufs c"
  "pkt (cnet (frame_inc i c)) h = pkt (cnet c) h" "pkt (cnet (can_rx_error_inc i c)) h = pkt (cnet c) h"
  "conf_version (cnet (frame_inc i c)) = conf_version (cnet c)" "conf_version (cnet (upd_pbuf p f c)) = conf_version (cnet c)"
  by (simp_all add: upd_pbuf_def on_net_def frame_inc_def can_rx_error_inc_def set_pkt_def upd_iface_def pkt_def)

lemma can_list_upd [simp]:
  "can_list v M xs (frame_inc i c) = can_list v M xs c" "can_list v M xs (can_rx_error_inc i c) = can_list v M xs c"
  "can_list v M xs (c\<lparr>csp_dbg_can_errno := e\<rparr>) = can_list v M xs c"
  by (simp_all add: can_list_def) (simp_all add: frame_inc_def can_rx_error_inc_def on_net_def upd_iface_def)

lemma can_list_mem:
  assumes "can_list v M xs c" "p \<in> set xs"
  shows "p < length (bufs (cnet c))" "packet_wf (pkt (cnet c) p)" "p \<in> allocated (cnet c)"
  using held_allocated [of "mset xs + M" "cnet c" p] assms by (simp_all add: can_list_def)

lemma can_list_upd_pbuf:
  assumes "can_list v M xs c" "packet_wf (f (pkt (cnet c) p))"
  shows "can_list v M xs (upd_pbuf p f c)"
  using assms acct_set_pkt [of "mset xs + M" "cnet c" "f (pkt (cnet c) p)" p]
  by (simp add: can_list_def) (simp add: upd_pbuf_def on_net_def)

lemma pkt_upd_pbuf:
  assumes "can_list v M xs c" "p \<in> set xs"
  shows "pkt (cnet (upd_pbuf p f c)) q = (if q = p then f (pkt (cnet c) p) else pkt (cnet c) q)"
  using can_list_mem(1) [OF assms] by (simp add: upd_pbuf_def on_net_def)

lemma can_drop_spec:
  assumes "can_list v M xs c" "p \<in> set xs"
  obtains c' where "can_drop res e i p c = Some (res, c')" "can_list v M (remove1 p xs) c'" "can_same c c'" "\<And>q. pkt (cnet c') q = pkt (cnet c) q"
proof -
  let ?d = "frame_inc i (c\<lparr>csp_dbg_can_errno := e\<rparr>)"
  have d: "can_list v M xs ?d" using assms(1) by simp
  then have ch: "pchain (pnext ?d) (pbufs ?d) xs None" "distinct xs" "acct (mset xs + M) (cnet ?d)" "conf_version (cnet ?d) = v"
    by (simp_all only: can_list_def)
  obtain nx h where f: "csp_can_pbuf_free p True ?d = Some (?d\<lparr>pnext := nx, pbufs := h, cnet := csp_buffer_free (Some p) (cnet ?d)\<rparr>)"
    "pchain nx h (remove1 p xs) None"
    using pbuf_free_spec [OF ch(1,2) assms(2), of True, unfolded if_True] by blast
  define c' where "c' = ?d\<lparr>pnext := nx, pbufs := h, cnet := csp_buffer_free (Some p) (cnet ?d)\<rparr>"
  have a: "acct (add_mset p (mset (remove1 p xs) + M)) (cnet ?d)" using ch(3) assms(2) by simp
  have fr: "freed [p] (cnet ?d) (cnet c')" using freed_one [OF a] by (simp add: c'_def)
  show thesis
  proof (rule that)
    show "can_drop res e i p c = Some (res, c')" by (simp add: can_drop_def f(1) c'_def)
    show "can_list v M (remove1 p xs) c'"
      using f(2) ch(2,4) acct_free(1) [OF a] more_fields(10) [OF acct_free(2) [OF a]] by (simp add: can_list_def c'_def)
    show "can_same c c'" by (rule can_same_trans [OF can_same_trans [OF can_same_upd(4) can_same_upd(2)] can_same_freed [OF fr]])
    show "pkt (cnet c') q = pkt (cnet c) q" for q using fr by (simp add: freed_def)
  qed
qed

lemma can2_begin_spec:
  assumes "packet_wf k" "4 \<le> length bs"
  shows "packet_wf (can2_begin 2 cid bs k)" "pbuf2_ok (can2_begin 2 cid bs k)" "rx_count (can2_begin 2 cid bs k) = 1"
    "cfpid (can2_begin 2 cid bs k) = cfpid k" "pframe (can2_begin 2 cid bs k) = be16_enc (ucast (drop_bit 13 cid)) @ take 4 bs"
    "frame_length (can2_begin 2 cid bs k) = 6"
proof -
  have l: "length (pmem k) = 2056" using assms(1) by (simp add: packet_wf_def csp_config_defs)
  note defs = can2_begin_def csp_id_setup_rx_def csp_id2_setup_rx_def csp_id_size_defs data_at_0 Let_def
  show "packet_wf (can2_begin 2 cid bs k)" using l assms(2) by (simp add: defs packet_wf_def csp_config_defs min_def)
  show "pbuf2_ok (can2_begin 2 cid bs k)" "rx_count (can2_begin 2 cid bs k) = 1" "cfpid (can2_begin 2 cid bs k) = cfpid k"
    "frame_length (can2_begin 2 cid bs k) = 6"
    by (simp_all add: defs pbuf2_ok_def)
  let ?m = "mwrite 4 (take 4 bs) (mwrite 2 (be16_enc (ucast (drop_bit 13 cid))) (pmem k))"
  have "mread 2 6 ?m = mread 2 2 ?m @ mread 4 4 ?m" using mread_append_split [of 2 2 4 ?m] l assms(2) by (simp add: min_def)
  then show "pframe (can2_begin 2 cid bs k) = be16_enc (ucast (drop_bit 13 cid)) @ take 4 bs"
    using l assms(2) by (simp add: defs pframe_def mread_mwrite_same mread_mwrite_disjoint min_def)
qed

definition append_frame :: "byte list \<Rightarrow> csp_packet \<Rightarrow> csp_packet" where
  "append_frame bs k = k\<lparr>pmem := mwrite (frame_begin k + unat (frame_length k)) bs (pmem k), frame_length := frame_length k + of_nat (length bs)\<rparr>"

lemma append_frame_spec:
  assumes "packet_wf k" "pbuf2_ok k" "unat (frame_length k) + length bs \<le> CSP_BUFFER_SIZE + 6"
  shows "packet_wf (append_frame bs k)" "pbuf2_ok (append_frame bs k)" "rx_count (append_frame bs k) = rx_count k"
    "cfpid (append_frame bs k) = cfpid k" "pframe (append_frame bs k) = pframe k @ bs"
    "unat (frame_length (append_frame bs k)) = unat (frame_length k) + length bs"
proof -
  have l: "length (pmem k) = 2056" "frame_begin k = 2" using assms(1,2) by (simp_all add: packet_wf_def pbuf2_ok_def csp_config_defs)
  have b: "unat (frame_length k) + length bs \<le> 2054" using assms(3) by (simp add: csp_config_defs)
  have "unat (of_nat (length bs) :: u16) = length bs" using b by (subst unat_of_nat) simp
  then have u: "unat (frame_length k + of_nat (length bs)) = unat (frame_length k) + length bs"
    using b by (subst unat_add_lem [THEN iffD1]) simp_all
  show "packet_wf (append_frame bs k)" using assms(1) l b by (simp add: append_frame_def packet_wf_def)
  show "pbuf2_ok (append_frame bs k)" using assms u by (simp add: append_frame_def pbuf2_ok_def)
  show "rx_count (append_frame bs k) = rx_count k" "cfpid (append_frame bs k) = cfpid k"
    "unat (frame_length (append_frame bs k)) = unat (frame_length k) + length bs"
    using u by (simp_all add: append_frame_def)
  show "pframe (append_frame bs k) = pframe k @ bs"
    using l b u mread_append_split [of 2 "unat (frame_length k)" "length bs" "mwrite (2 + unat (frame_length k)) bs (pmem k)"]
    by (simp add: append_frame_def pframe_def mread_mwrite_same mread_mwrite_disjoint)
qed

text \<open>The packet as it goes to the router.\<close>

definition deliver2 :: "u16 \<Rightarrow> csp_packet \<Rightarrow> csp_packet" where
  "deliver2 addr k = (let k = snd (csp_id_strip 2 k) in if dst (pid k) = 0x3FFF then k\<lparr>pid := (pid k)\<lparr>dst := addr\<rparr>\<rparr> else k)"

lemma deliver2_spec:
  assumes "packet_wf k" "pbuf2_ok k"
  shows "packet_wf (deliver2 addr k)" "pdata (deliver2 addr k) = drop 6 (pframe k)"
    "pid (deliver2 addr k) = (let d = csp_id_decode 2 (pframe k) in if dst d = 0x3FFF then d\<lparr>dst := addr\<rparr> else d)"
proof -
  have l: "length (pmem k) = 2056" "frame_begin k = 2" "6 \<le> unat (frame_length k)" "unat (frame_length k) \<le> 2054"
    using assms by (simp_all add: packet_wf_def pbuf2_ok_def csp_config_defs)
  have s: "csp_id_strip 2 k = (0, k\<lparr>timestamp_rx := 0, plength := frame_length k - 6, pid := csp_id_decode 2 (pframe k)\<rparr>)"
    using csp_id_strip_decode [of 2 k] l by simp
  have u: "unat (frame_length k - 6) = unat (frame_length k) - 6" using l(3) by (subst unat_sub) (simp_all add: word_le_nat_alt)
  show "packet_wf (deliver2 addr k)" using l u by (simp add: deliver2_def s packet_wf_def csp_config_defs Let_def)
  show "pid (deliver2 addr k) = (let d = csp_id_decode 2 (pframe k) in if dst d = 0x3FFF then d\<lparr>dst := addr\<rparr> else d)"
    by (simp add: deliver2_def s Let_def)
  have "pframe k = mread 2 6 (pmem k) @ mread 8 (unat (frame_length k) - 6) (pmem k)"
    using mread_append_split [of 2 6 "unat (frame_length k) - 6" "pmem k"] l by (simp add: pframe_def)
  then show "pdata (deliver2 addr k) = drop 6 (pframe k)"
    using l by (simp add: deliver2_def s Let_def pdata_def data_at_0 u)
qed

lemma qfifo_write_room:
  assumes "queue_inv (qfifo s)" "0 < csp_queue_free (qfifo s)"
  shows "queue_list (qfifo (csp_qfifo_write (Some p) (Some i) s)) = queue_list (qfifo s) @ [(Some i, Some p)]"
  using ring.enq_ok [OF assms, of "(Some i, Some p)"] by (auto simp: csp_qfifo_write_def Let_def)

lemma can2_deliver_spec:
  assumes "can_list 2 M xs c" "p \<in> set xs" "pbuf2_ok (pkt (cnet c) p)"
  obtains c' where "can2_deliver i p c = Some (CSP_ERR_NONE, c')" "can_list 2 M (remove1 p xs) c'"
    "\<And>q. pkt (cnet c') q = (if q = p then deliver2 (if_addr (iface (cnet c) i)) (pkt (cnet c) p) else pkt (cnet c) q)"
    "0 < csp_queue_free (qfifo (cnet c)) \<Longrightarrow> queue_list (qfifo (cnet c')) = queue_list (qfifo (cnet c)) @ [(Some i, Some p)]"
proof -
  define c1 where "c1 = upd_pbuf p (\<lambda>k. snd (csp_id_strip (conf_version (cnet c)) k)) c"
  define c2 where "c2 = upd_pbuf p (\<lambda>k. if dst (pid k) = 0x3FFF then k\<lparr>pid := (pid k)\<lparr>dst := if_addr (iface (cnet c1) i)\<rparr>\<rparr> else k) c1"
  let ?k = "pkt (cnet c) p" and ?addr = "if_addr (iface (cnet c) i)"
  have v: "conf_version (cnet c) = 2" using assms(1) by (simp add: can_list_def)
  have wf: "packet_wf (deliver2 ?addr ?k)" by (rule deliver2_spec(1) [OF can_list_mem(2) [OF assms(1,2)] assms(3)])
  then have l1: "can_list 2 M xs c1"
    unfolding c1_def by (intro can_list_upd_pbuf assms(1)) (simp add: deliver2_def v Let_def split: if_splits)
  have p1: "pkt (cnet c1) q = (if q = p then snd (csp_id_strip 2 ?k) else pkt (cnet c) q)" for q
    using pkt_upd_pbuf [OF assms(1,2)] by (simp add: c1_def v)
  have a1: "if_addr (iface (cnet c1) i) = ?addr" using can_same_upd(1) [of c p] by (simp add: c1_def can_same_def)
  have p2: "pkt (cnet c2) q = (if q = p then deliver2 ?addr ?k else pkt (cnet c) q)" for q
    using pkt_upd_pbuf [OF l1 assms(2)] by (simp add: c2_def p1 a1 deliver2_def Let_def)
  have l2: "can_list 2 M xs c2"
    unfolding c2_def by (intro can_list_upd_pbuf l1) (use wf in \<open>simp add: p1 a1 deliver2_def Let_def split: if_splits\<close>)
  have s2: "can_same c c2" unfolding c2_def by (rule can_same_trans [OF _ can_same_upd(1)]) (simp add: c1_def)
  have ch: "pchain (pnext c2) (pbufs c2) xs None" "distinct xs" "acct (mset xs + M) (cnet c2)" "conf_version (cnet c2) = 2"
    using l2 by (simp_all add: can_list_def)
  obtain nx h where f: "csp_can_pbuf_free p False c2 = Some (c2\<lparr>pnext := nx, pbufs := h, cnet := cnet c2\<rparr>)" "pchain nx h (remove1 p xs) None"
    using pbuf_free_spec [OF ch(1,2) assms(2), of False, unfolded if_False] by blast
  define c' where "c' = on_net (csp_qfifo_write (Some p) (Some i)) (c2\<lparr>pnext := nx, pbufs := h, cnet := cnet c2\<rparr>)"
  have a: "acct (add_mset p (mset (remove1 p xs) + M)) (cnet c2)" using ch(3) assms(2) by simp
  have n: "cnet c' = csp_qfifo_write (Some p) (Some i) (cnet c2)" by (simp add: c'_def on_net_def)
  show thesis
  proof (rule that)
    show "can2_deliver i p c = Some (CSP_ERR_NONE, c')"
      by (simp add: can2_deliver_def Let_def c1_def [symmetric] c2_def [symmetric] f(1)) (simp add: c'_def)
    have "net_frame (cnet c2) (cnet c')" unfolding n by (rule qfifo_write_spec(2) [OF a])
    then show "can_list 2 M (remove1 p xs) c'"
      using f(2) ch(2,4) qfifo_write_spec(1) [OF a, of i] by (simp add: can_list_def n net_frame_def) (simp add: c'_def)
    show "pkt (cnet c') q = (if q = p then deliver2 ?addr ?k else pkt (cnet c) q)" for q
      unfolding n by (simp only: qfifo_write_pkt [OF a] p2)
    show "queue_list (qfifo (cnet c')) = queue_list (qfifo (cnet c)) @ [(Some i, Some p)]" if "0 < csp_queue_free (qfifo (cnet c))"
      using that qfifo_write_room [OF acct_queue_inv(1) [OF a], of p i] s2 by (simp add: n can_same_def)
  qed
qed

text \<open>A frame that goes to its packet: too much data ends the packet, the last frame delivers it, others are appended.\<close>

lemma can2_append_spec:
  assumes "can_list 2 M xs c" "p \<in> set xs" "pbuf2_ok (pkt (cnet c) p)"
  defines "k \<equiv> pkt (cnet c) p"
  obtains (overflow) c' where "unat (frame_length k) + length bs > CSP_BUFFER_SIZE + 6" "can2_append i cid bs p c = Some (CSP_ERR_INVAL, c')"
      "can_list 2 M (remove1 p xs) c'" "\<And>q. pkt (cnet c') q = pkt (cnet c) q" "can_same c c'"
  | (last) c' where "unat (frame_length k) + length bs \<le> CSP_BUFFER_SIZE + 6" "cfp2_is_end cid" "can2_append i cid bs p c = Some (CSP_ERR_NONE, c')"
      "can_list 2 M (remove1 p xs) c'"
      "\<And>q. pkt (cnet c') q = (if q = p then deliver2 (if_addr (iface (cnet c) i)) (append_frame bs k) else pkt (cnet c) q)"
      "0 < csp_queue_free (qfifo (cnet c)) \<Longrightarrow> queue_list (qfifo (cnet c')) = queue_list (qfifo (cnet c)) @ [(Some i, Some p)]"
  | (more) c' where "unat (frame_length k) + length bs \<le> CSP_BUFFER_SIZE + 6" "\<not> cfp2_is_end cid" "can2_append i cid bs p c = Some (CSP_ERR_NONE, c')"
      "can_list 2 M xs c'" "\<And>q. pkt (cnet c') q = (if q = p then append_frame bs k else pkt (cnet c) q)" "can_same c c'"
proof -
  have b: "data_at CSP_BUFFER_SIZE < frame_begin k + unat (frame_length k) + length bs \<longleftrightarrow> unat (frame_length k) + length bs > CSP_BUFFER_SIZE + 6"
    using assms(3) by (simp add: k_def pbuf2_ok_def data_at_def csp_config_defs)
  show thesis
  proof (cases "unat (frame_length k) + length bs > CSP_BUFFER_SIZE + 6")
    case True
    then have "can2_append i cid bs p c = can_drop CSP_ERR_INVAL CSP_DBG_CAN_ERR_RX_OVF i p c"
      using b by (simp add: can2_append_def k_def)
    then show thesis using overflow True can_drop_spec [OF assms(1,2)] by metis
  next
    case False
    define d where "d = upd_pbuf p (append_frame bs) c"
    have ap: "can2_append i cid bs p c = (if cfp2_is_end cid then can2_deliver i p d else Some (CSP_ERR_NONE, d))"
      using False b by (simp add: can2_append_def k_def d_def append_frame_def [abs_def] Let_def)
    have wf: "packet_wf k" unfolding k_def by (rule can_list_mem(2) [OF assms(1,2)])
    note as = append_frame_spec [OF wf assms(3) [folded k_def], of bs]
    have l: "can_list 2 M xs d" unfolding d_def by (rule can_list_upd_pbuf [OF assms(1)]) (use as False in \<open>simp add: k_def\<close>)
    have pd: "pkt (cnet d) q = (if q = p then append_frame bs k else pkt (cnet c) q)" for q
      using pkt_upd_pbuf [OF assms(1,2)] by (simp add: d_def k_def)
    have sd: "can_same c d" by (simp add: d_def)
    show thesis
    proof (cases "cfp2_is_end cid")
      case True
      have ok: "pbuf2_ok (pkt (cnet d) p)" using as False by (simp add: pd)
      obtain c' where c': "can2_deliver i p d = Some (CSP_ERR_NONE, c')" "can_list 2 M (remove1 p xs) c'"
        "\<And>q. pkt (cnet c') q = (if q = p then deliver2 (if_addr (iface (cnet d) i)) (pkt (cnet d) p) else pkt (cnet d) q)"
        "0 < csp_queue_free (qfifo (cnet d)) \<Longrightarrow> queue_list (qfifo (cnet c')) = queue_list (qfifo (cnet d)) @ [(Some i, Some p)]"
        using can2_deliver_spec [OF l assms(2) ok, of i] by blast
      show thesis by (rule last [of c']) (use c' False True ap pd sd in \<open>simp_all add: can_same_def\<close>)
    next
      case end': False
      show thesis by (rule more [of d]) (use False end' ap pd sd l in simp_all)
    qed
  qed
qed

text \<open>No two neighbours of the list have expired.\<close>

definition calm :: "nat list \<Rightarrow> can_state \<Rightarrow> bool" where
  "calm xs c \<longleftrightarrow> successively (\<lambda>x y. \<not> (pbuf_expired (cnet c) x \<and> pbuf_expired (cnet c) y)) xs"

abbreviation alive :: "can_state \<Rightarrow> nat list \<Rightarrow> nat list" where
  "alive c xs \<equiv> filter (\<lambda>x. \<not> pbuf_expired (cnet c) x) xs"

lemma pbuf_new_spec:
  assumes "can_list v M xs c" "calm xs c"
  obtains (fresh) p c' where "csp_can_pbuf_new cid c = Some (Some p, c')" "can_list v M (p # alive c xs) c'" "cfpid (pkt (cnet c') p) = cid"
      "\<And>q. q \<in> set (alive c xs) \<Longrightarrow> pkt (cnet c') q = pkt (cnet c) q" "can_same c c'"
  | (nomem) c' where "csp_can_pbuf_new cid c = Some (None, c')" "can_list v M (alive c xs) c'"
      "\<And>q. q \<in> set (alive c xs) \<Longrightarrow> pkt (cnet c') q = pkt (cnet c) q" "free_list (cnet c) @ filter (pbuf_expired (cnet c)) xs = []" "can_same c c'"
proof -
  have l: "pchain (pnext c) (pbufs c) xs None" "distinct xs" "acct (mset xs + M) (cnet c)" "conf_version (cnet c) = v"
    using assms(1) by (simp_all add: can_list_def)
  obtain d where d: "csp_can_pbuf_cleanup c = Some d" "pchain (pnext d) (pbufs d) (alive c xs) None"
    "acct (mset (alive c xs) + M) (cnet d)" "freed (filter (pbuf_expired (cnet c)) xs) (cnet c) (cnet d)"
    using pbuf_cleanup_spec [OF l(1-3) assms(2) [unfolded calm_def]] by blast
  have sd: "can_same c d" by (rule can_same_freed [OF d(4)])
  have inv: "pool_inv (cnet d)" using d(3) by (simp add: acct_def)
  obtain r s where get: "csp_buffer_get (cnet d) = (r, s)" by (rule prod.exhaust)
  show thesis
  proof (cases r)
    case None
    have g: "acct (mset (alive c xs) + M) s" "csp_pool.more s = csp_pool.more (cnet d)"
      using acct_get_None [OF d(3)] get None by simp_all
    have e: "free_list (cnet d) = []"
      using csp_buffer_get_Some [OF inv] get None by (metis neq_Nil_conv option.distinct(1) prod.inject)
    then have b: "bufs s = bufs (cnet d)" using csp_buffer_get_None [OF inv] get None by auto
    show thesis
    proof (rule nomem [of "d\<lparr>cnet := s\<rparr>"])
      show "csp_can_pbuf_new cid c = Some (None, d\<lparr>cnet := s\<rparr>)" by (simp add: csp_can_pbuf_new_def d(1) get None)
      show "can_list v M (alive c xs) (d\<lparr>cnet := s\<rparr>)"
        using d(2) l(2,4) g more_fields(10) [OF g(2)] sd by (simp add: can_list_def can_same_def)
      show "pkt (cnet (d\<lparr>cnet := s\<rparr>)) q = pkt (cnet c) q" for q using b d(4) by (simp add: pkt_def freed_def)
      show "free_list (cnet c) @ filter (pbuf_expired (cnet c)) xs = []" using e d(4) by (simp add: freed_def)
      show "can_same c (d\<lparr>cnet := s\<rparr>)" using sd more_fields [OF g(2)] by (simp add: can_same_def)
    qed
  next
    case (Some p)
    note g = acct_get [OF d(3) get [unfolded Some]]
    have p: "p \<notin> set (alive c xs)" using g(4) held_allocated(1) [OF d(3), of p] by auto
    have same: "pkt s q = pkt (cnet c) q" if "q \<in> set (alive c xs)" for q
      using that p g(3) [of q] d(4) by (metis freed_def pkt_def)
    have wf: "packet_wf (pkt s p)" "p < length (bufs s)" using held_allocated [OF g(1), of p] by simp_all
    define k where "k = (pkt s p)\<lparr>timestamp_rx := now s, cfpid := cid, remain := 0\<rparr>"
    define c' where "c' = d\<lparr>cnet := set_pkt p k s, pnext := (pnext d)(p := pbufs d), pbufs := Some p\<rparr>"
    show thesis
    proof (rule fresh [of p c'])
      show "csp_can_pbuf_new cid c = Some (Some p, c')"
        by (simp add: csp_can_pbuf_new_def d(1) get Some Let_def upd_pbuf_def on_net_def c'_def k_def)
      have "acct (add_mset p (mset (alive c xs) + M)) (set_pkt p k s)"
        by (rule acct_set_pkt [OF g(1)]) (use wf in \<open>simp add: k_def packet_wf_def\<close>)
      moreover have "pchain ((pnext d)(p := pbufs d)) (pbufs d) (alive c xs) None" using d(2) p by (simp add: pchain_upd)
      ultimately show "can_list v M (p # alive c xs) c'"
        using p l(2,4) more_fields(10) [OF g(2)] sd by (simp add: can_list_def c'_def can_same_def) (simp add: set_pkt_def)
      show "cfpid (pkt (cnet c') p) = cid" using wf by (simp add: c'_def k_def)
      show "pkt (cnet c') q = pkt (cnet c) q" if "q \<in> set (alive c xs)" for q
        using that p same [OF that] by (cases "q = p") (simp_all add: c'_def)
      show "can_same c c'"
        using sd more_fields [OF g(2)] by (simp add: can_same_def c'_def) (simp add: set_pkt_def iface_def)
    qed
  qed
qed

lemma bind_found:
  assumes "can_list v M xs c" "find (pbuf_match cid msk (cnet c)) xs = Some p"
  obtains c' where "can_bind_frame msk b i cid c = Some (Inr p, c')" "p \<in> set xs"
      "can_list v M xs c'" "\<And>q. pkt (cnet c') q = (if q = p then (pkt (cnet c) p)\<lparr>timestamp_rx := now (cnet c)\<rparr> else pkt (cnet c) q)" "can_same c c'"
proof -
  have ch: "pchain (pnext c) (pbufs c) xs None" using assms(1) by (simp add: can_list_def)
  have p: "p \<in> set xs" using assms(2) by (auto simp: find_Some_iff)
  let ?d = "upd_pbuf p (\<lambda>k. k\<lparr>timestamp_rx := now (cnet c)\<rparr>) c"
  show thesis
  proof (rule that [of ?d])
    show "can_bind_frame msk b i cid c = Some (Inr p, ?d)" by (simp add: can_bind_frame_def pbuf_find_spec [OF ch] assms(2))
    show "can_list v M xs ?d" by (rule can_list_upd_pbuf [OF assms(1)]) (use can_list_mem(2) [OF assms(1) p] in \<open>simp add: packet_wf_def\<close>)
  qed (use p in \<open>simp_all add: pkt_upd_pbuf [OF assms(1)]\<close>)
qed

lemma bind_spec:
  assumes "can_list v M xs c" "calm xs c"
  obtains (found) p c' where "find (pbuf_match cid msk (cnet c)) xs = Some p" "can_bind_frame msk b i cid c = Some (Inr p, c')" "p \<in> set xs"
      "can_list v M xs c'" "\<And>q. pkt (cnet c') q = (if q = p then (pkt (cnet c) p)\<lparr>timestamp_rx := now (cnet c)\<rparr> else pkt (cnet c) q)" "can_same c c'"
  | (fresh) p c' where "find (pbuf_match cid msk (cnet c)) xs = None" "b" "can_bind_frame msk b i cid c = Some (Inr p, c')"
      "can_list v M (p # alive c xs) c'" "cfpid (pkt (cnet c') p) = cid" "\<And>q. q \<in> set (alive c xs) \<Longrightarrow> pkt (cnet c') q = pkt (cnet c) q" "can_same c c'"
  | (nomem) c' where "find (pbuf_match cid msk (cnet c)) xs = None" "b" "can_bind_frame msk b i cid c = Some (Inl CSP_ERR_NOMEM, c')"
      "can_list v M (alive c xs) c'" "\<And>q. q \<in> set (alive c xs) \<Longrightarrow> pkt (cnet c') q = pkt (cnet c) q" "free_list (cnet c) @ filter (pbuf_expired (cnet c)) xs = []" "can_same c c'"
  | (invalid) "find (pbuf_match cid msk (cnet c)) xs = None" "\<not> b" "can_bind_frame msk b i cid c = Some (Inl CSP_ERR_INVAL, frame_inc i c)"
proof -
  have ch: "pchain (pnext c) (pbufs c) xs None" using assms(1) by (simp add: can_list_def)
  note f = pbuf_find_spec [OF ch, of cid msk]
  show thesis
  proof (cases "find (pbuf_match cid msk (cnet c)) xs")
    case (Some p)
    show thesis by (rule bind_found [OF assms(1) Some, of b i]) (use found [OF Some] in blast)
  next
    case None
    show thesis
    proof (cases b)
      case True
      from assms show thesis
      proof (cases rule: pbuf_new_spec [where cid = cid])
        case (fresh p c')
        show thesis by (rule that(2) [of p c']) (use fresh None True in \<open>simp_all add: can_bind_frame_def f\<close>)
      next
        case (nomem c')
        show thesis
          by (rule that(3) [of "can_rx_error_inc i c'"])
            (use nomem None True can_same_trans [OF nomem(5) can_same_upd(3)] in \<open>simp_all add: can_bind_frame_def f\<close>)
      qed
    next
      case False
      show thesis by (rule invalid) (use None False in \<open>simp_all add: can_bind_frame_def f\<close>)
    qed
  qed
qed

text \<open>The invariant of the interface for CFP 2.\<close>

definition can2_inv :: "nat multiset \<Rightarrow> nat list \<Rightarrow> can_state \<Rightarrow> bool" where
  "can2_inv M xs c \<longleftrightarrow> can_list 2 M xs c \<and> (\<forall>p \<in> set xs. pbuf2_ok (pkt (cnet c) p))"

text \<open>A call that has returned, in order; an error leaves the queue \<open>q\<close> of the router as it was.\<close>

definition rx2_done :: "nat multiset \<Rightarrow> (nat option \<times> nat option) pthread_queue \<Rightarrow> (int \<times> can_state) option \<Rightarrow> bool" where
  "rx2_done M q r \<longleftrightarrow> (\<exists>e c' xs'. r = Some (e, c') \<and> can2_inv M xs' c' \<and>
     (e = CSP_ERR_NONE \<or> e = CSP_ERR_INVAL \<and> qfifo (cnet c') = q))"

lemma can2_append_inv:
  assumes "can2_inv M xs c" "p \<in> set xs"
  shows "rx2_done M (qfifo (cnet c)) (can2_append i cid bs p c)"
proof -
  have l: "can_list 2 M xs c" "pbuf2_ok (pkt (cnet c) p)" "distinct xs" using assms by (simp_all add: can2_inv_def can_list_def)
  have wf: "packet_wf (pkt (cnet c) p)" by (rule can_list_mem(2) [OF l(1) assms(2)])
  from l(1) assms(2) l(2) show ?thesis
  proof (cases rule: can2_append_spec [where i = i and cid = cid and bs = bs])
    case (overflow c')
    then have "can2_inv M (remove1 p xs) c'" using assms set_remove1_subset [of p xs] by (auto simp: can2_inv_def)
    then show ?thesis using overflow by (auto simp: can_same_def rx2_done_def)
  next
    case (last c')
    then have "can2_inv M (remove1 p xs) c'" using assms l(3) by (auto simp: can2_inv_def)
    then show ?thesis using last by (auto simp: rx2_done_def)
  next
    case (more c')
    then have "can2_inv M xs c'" using assms append_frame_spec(2) [OF wf l(2) more(1)] by (auto simp: can2_inv_def)
    then show ?thesis using more by (auto simp: rx2_done_def)
  qed
qed

lemma can2_frame_inv:
  assumes "can_list 2 M xs c" "p \<in> set xs" "\<forall>q \<in> set xs. q \<noteq> p \<longrightarrow> pbuf2_ok (pkt (cnet c) q)" "cfp2_is_begin cid \<or> pbuf2_ok (pkt (cnet c) p)"
  shows "rx2_done M (qfifo (cnet c)) (can2_frame i cid bs p c)"
proof -
  have d: "distinct xs" and v: "conf_version (cnet c) = 2" using assms(1) by (simp_all add: can_list_def)
  have wf: "packet_wf (pkt (cnet c) p)" by (rule can_list_mem(2) [OF assms(1,2)])
  have drop: "rx2_done M (qfifo (cnet c)) (can_drop CSP_ERR_INVAL err i p c)" for err
  proof -
    obtain c' where c': "can_drop CSP_ERR_INVAL err i p c = Some (CSP_ERR_INVAL, c')" "can_list 2 M (remove1 p xs) c'" "can_same c c'"
      "\<And>q. pkt (cnet c') q = pkt (cnet c) q" using can_drop_spec [OF assms(1,2)] by blast
    then have "can2_inv M (remove1 p xs) c'" using assms(3) d by (auto simp: can2_inv_def)
    then show ?thesis using c' by (auto simp: can_same_def rx2_done_def)
  qed
  consider (short) "cfp2_is_begin cid" "length bs < 4" | (first) "cfp2_is_begin cid" "4 \<le> length bs"
    | (lost) "\<not> cfp2_is_begin cid" "ucast (rx_count (pkt (cnet c) p)) \<noteq> drop_bit 2 cid AND 0x7"
    | (next_frame) "\<not> cfp2_is_begin cid" "ucast (rx_count (pkt (cnet c) p)) = drop_bit 2 cid AND 0x7" by fastforce
  then show ?thesis
  proof cases
    case first
    let ?d = "upd_pbuf p (can2_begin 2 cid bs) (frame_inc i c)"
    have l: "can_list 2 M xs (frame_inc i c)" using assms(1) by simp
    have bs: "packet_wf (can2_begin 2 cid bs (pkt (cnet c) p))" "pbuf2_ok (can2_begin 2 cid bs (pkt (cnet c) p))"
      using can2_begin_spec [OF wf first(2)] by blast+
    have "can_list 2 M xs ?d" by (rule can_list_upd_pbuf [OF l]) (use bs(1) in simp)
    moreover have "pbuf2_ok (pkt (cnet ?d) q)" if "q \<in> set xs" for q
      using that assms(3) bs(2) pkt_upd_pbuf [OF l assms(2)] by auto
    ultimately have "can2_inv M xs ?d" by (simp add: can2_inv_def)
    moreover have "qfifo (cnet ?d) = qfifo (cnet c)"
      using can_same_trans [OF can_same_upd(2) can_same_upd(1)] by (simp add: can_same_def)
    moreover have "can2_frame i cid bs p c = can2_append i cid (drop 4 bs) p ?d" using first v by (simp add: can2_frame_def)
    ultimately show ?thesis using can2_append_inv [of M xs ?d p i cid "drop 4 bs"] assms(2) by simp
  next
    case next_frame
    let ?d = "upd_pbuf p (\<lambda>k. k\<lparr>rx_count := (rx_count k + 1) AND 0x7\<rparr>) c"
    have "can_list 2 M xs ?d" by (rule can_list_upd_pbuf [OF assms(1)]) (use wf in \<open>simp add: packet_wf_def\<close>)
    moreover have "pbuf2_ok (pkt (cnet ?d) q)" if "q \<in> set xs" for q
      using that assms(3,4) next_frame(1) by (auto simp: pkt_upd_pbuf [OF assms(1,2)] pbuf2_ok_def)
    ultimately have "can2_inv M xs ?d" by (simp add: can2_inv_def)
    moreover have "qfifo (cnet ?d) = qfifo (cnet c)" using can_same_upd(1) [of c] by (simp add: can_same_def)
    ultimately show ?thesis using can2_append_inv [of M xs ?d p i cid bs] assms(2) next_frame by (simp add: can2_frame_def)
  qed (use drop in \<open>simp_all add: can2_frame_def\<close>)
qed


section \<open>The frames of a packet\<close>

text \<open>The identifiers of the frames after the first one, and these frames.\<close>

definition can2_more_id :: "u32 \<Rightarrow> nat \<Rightarrow> bool \<Rightarrow> u32" where
  "can2_more_id cid fc e = (let can_id = cid OR push_bit 2 (of_nat fc AND 0x7) in if e then can_id OR push_bit 0 1 else can_id)"

definition can2_begin_id :: "u32 \<Rightarrow> bool \<Rightarrow> u32" where
  "can2_begin_id cid e = (let can_id = cid OR push_bit 1 1 in if e then can_id OR push_bit 0 1 else can_id)"

function can2_more :: "u32 \<Rightarrow> byte list \<Rightarrow> nat \<Rightarrow> (u32 \<times> byte list) list" where
  "can2_more cid bs fc = (if bs = [] then [] else (can2_more_id cid fc (length bs \<le> 8), take 8 bs) # can2_more cid (drop 8 bs) (fc + 1))"
  by pat_completeness auto
termination
  by (relation "measure (\<lambda>(cid, bs, fc). length bs)") auto

declare can2_more.simps [simp del]

definition can2_frames :: "csp_id \<Rightarrow> u16 \<Rightarrow> u32 \<Rightarrow> byte list \<Rightarrow> (u32 \<times> byte list) list" where
  "can2_frames d addr sc bs =
     (let cid = can2_conn_id d addr sc
      in (can2_begin_id cid (length bs \<le> 4), be32_enc (can2_header_extension d) @ take 4 bs) # can2_more cid (drop 4 bs) 1)"

lemma can2_tx_loop_frames:
  assumes "\<And>n. tx_func n = CSP_ERR_NONE"
  shows "can2_tx_loop tx_func i cid bs tx_count fc c = (CSP_ERR_NONE, c\<lparr>sent := sent c @ can2_more cid (drop tx_count bs) fc\<rparr>)"
proof (induction "length bs - tx_count" arbitrary: tx_count fc c rule: less_induct)
  case less
  show ?case
  proof (cases "tx_count < length bs")
    case True
    define b where "b = (if length bs - tx_count \<ge> CAN_FRAME_SIZE then CAN_FRAME_SIZE else length bs - tx_count)"
    define e where "e \<longleftrightarrow> tx_count + b = length bs"
    define d where "d = c\<lparr>sent := sent c @ [(can2_more_id cid fc e, mread tx_count b bs)]\<rparr>"
    have b: "mread tx_count b bs = take 8 (drop tx_count bs)" "drop (tx_count + b) bs = drop 8 (drop tx_count bs)" "e \<longleftrightarrow> length (drop tx_count bs) \<le> 8"
      "length bs - (tx_count + b) < length bs - tx_count"
      using True by (auto simp: b_def e_def CAN_FRAME_SIZE_def mread_def add.commute)
    have "can2_tx_loop tx_func i cid bs tx_count fc c = can2_tx_loop tx_func i cid bs (tx_count + b) (fc + 1) d"
      using True assms by (subst can2_tx_loop.simps) (simp add: can_tx_def d_def b_def [symmetric] e_def [symmetric] can2_more_id_def Let_def)
    also have "\<dots> = (CSP_ERR_NONE, d\<lparr>sent := sent d @ can2_more cid (drop (tx_count + b) bs) (fc + 1)\<rparr>)" by (rule less [OF b(4)])
    also have "d\<lparr>sent := sent d @ can2_more cid (drop (tx_count + b) bs) (fc + 1)\<rparr> = c\<lparr>sent := sent c @ can2_more cid (drop tx_count bs) fc\<rparr>"
      using True unfolding d_def b(1-3) by (subst (2) can2_more.simps) simp
    finally show ?thesis .
  next
    case False
    then show ?thesis by (subst can2_tx_loop.simps) (simp add: can2_more.simps)
  qed
qed

lemma seven_mask: "(7 :: 'a::len word) = mask 3"
  by (simp add: mask_eq_exp_minus_1)

lemma flag_bits: "cfp2_is_begin cid \<longleftrightarrow> bit cid 1" "cfp2_is_end cid \<longleftrightarrow> bit cid 0"
  unfolding cfp2_is_begin_def cfp2_is_end_def push_bit_of_1 and_exp_eq_0_iff_not_bit by simp_all

lemma conn_id_low_bits: "n < 5 \<Longrightarrow> \<not> bit (can2_conn_id d addr sc) n"
  by (simp add: can2_conn_id_def bit_simps)

lemma can2_fields:
  "cfp2_is_begin (can2_begin_id (can2_conn_id d addr sc) e)" "cfp2_is_end (can2_begin_id (can2_conn_id d addr sc) e) = e"
  "\<not> cfp2_is_begin (can2_more_id (can2_conn_id d addr sc) fc e)" "cfp2_is_end (can2_more_id (can2_conn_id d addr sc) fc e) = e"
  "drop_bit 2 (can2_more_id (can2_conn_id d addr sc) fc e) AND 0x7 = of_nat fc AND 0x7"
proof -
  let ?c = "can2_conn_id d addr sc"
  show "cfp2_is_begin (can2_begin_id ?c e)" "cfp2_is_end (can2_begin_id ?c e) = e"
    by (simp_all add: flag_bits can2_begin_id_def bit_simps conn_id_low_bits Let_def)
  show "\<not> cfp2_is_begin (can2_more_id ?c fc e)" "cfp2_is_end (can2_more_id ?c fc e) = e"
    by (simp_all add: flag_bits can2_more_id_def bit_simps conn_id_low_bits Let_def)
  define w :: u32 where "w = of_nat fc"
  have "drop_bit 2 (if e then (?c OR push_bit 2 (w AND 0x7)) OR push_bit 0 1 else ?c OR push_bit 2 (w AND 0x7)) AND 0x7 = w AND 0x7"
    unfolding seven_mask by (rule bit_word_eqI) (auto simp: bit_simps conn_id_low_bits)
  then show "drop_bit 2 (can2_more_id ?c fc e) AND 0x7 = of_nat fc AND 0x7" unfolding can2_more_id_def Let_def w_def .
qed

text \<open>All frames of a packet belong to it.\<close>

lemma conn_mask_bits: "bit CFP2_ID_CONN_MASK n \<longleftrightarrow> 5 \<le> n \<and> n < 29"
proof -
  have m: "CFP2_ID_CONN_MASK = push_bit 13 (mask 14) OR push_bit 7 (mask 6) OR push_bit 27 (mask 2) OR push_bit 5 (mask 2)"
    by (simp add: CFP2_ID_CONN_MASK_def field_masks)
  show ?thesis unfolding m by (auto simp: bit_simps)
qed

lemma can2_same_conn:
  "can2_begin_id cid e AND CFP2_ID_CONN_MASK = cid AND CFP2_ID_CONN_MASK"
  "can2_more_id cid fc e AND CFP2_ID_CONN_MASK = cid AND CFP2_ID_CONN_MASK"
proof -
  show "can2_begin_id cid e AND CFP2_ID_CONN_MASK = cid AND CFP2_ID_CONN_MASK"
    by (rule bit_word_eqI) (auto simp: can2_begin_id_def bit_simps conn_mask_bits Let_def)
  define w :: u32 where "w = of_nat fc"
  have "(if e then (cid OR push_bit 2 (w AND 0x7)) OR push_bit 0 1 else cid OR push_bit 2 (w AND 0x7)) AND CFP2_ID_CONN_MASK = cid AND CFP2_ID_CONN_MASK"
    unfolding seven_mask by (rule bit_word_eqI) (auto simp: bit_simps conn_mask_bits)
  then show "can2_more_id cid fc e AND CFP2_ID_CONN_MASK = cid AND CFP2_ID_CONN_MASK" unfolding can2_more_id_def Let_def w_def .
qed

text \<open>The header in the first frame is the header of the packet.\<close>

lemma six_bytes: "take 6 (be64_enc (push_bit 16 w)) = be16_enc (ucast (drop_bit 32 w)) @ be32_enc (ucast w)"
  by (simp add: be64_enc_def be16_enc_def be32_enc_def) (intro conjI; rule bit_word_eqI; auto simp: bit_simps)

lemma can2_first_header:
  assumes "id_fits 2 d"
  shows "be16_enc (ucast (drop_bit 13 (can2_begin_id (can2_conn_id d addr sc) e))) @ be32_enc (can2_header_extension d) = csp_id_header 2 d"
proof -
  have fit: "unat (pri d) < 2 ^ 2" "unat (dport d) < 2 ^ 6" "unat (sport d) < 2 ^ 6"
    "unat (src d) < 2 ^ 14" "unat (dst d) < 2 ^ 14" "unat (flags d) < 2 ^ 6"
    using assms by (simp_all add: id_fits_def)
  note bits = fit [THEN bit_of_small]
  have hi: "bit (ucast (drop_bit 13 (can2_begin_id (can2_conn_id d addr sc) e)) :: u16) n = bit (ucast (drop_bit 32 (csp_id2_word d)) :: u16) n"
    if "n < 16" for n
  proof -
    from that consider "n < 14" | "14 \<le> n" "n < 16" by fastforce
    then show ?thesis
      unfolding can2_begin_id_def can2_conn_id_def csp_id2_word_def field_masks Let_def
      by cases (simp_all add: bit_simps bits less_diff_conv2)
  qed
  have lo: "bit (can2_header_extension d) n = bit (ucast (csp_id2_word d) :: u32) n" if "n < 32" for n
  proof -
    from that consider "n < 6" | "6 \<le> n" "n < 12" | "12 \<le> n" "n < 18" | "18 \<le> n" "n < 32" by fastforce
    then show ?thesis
      unfolding can2_header_extension_def csp_id2_word_def field_masks
      by cases (simp_all add: bit_simps bits less_diff_conv2)
  qed
  have "ucast (drop_bit 13 (can2_begin_id (can2_conn_id d addr sc) e)) = (ucast (drop_bit 32 (csp_id2_word d)) :: u16)"
    by (rule bit_word_eqI) (use hi in simp)
  moreover have "can2_header_extension d = ucast (csp_id2_word d)"
    by (rule bit_word_eqI) (use lo in simp)
  ultimately show ?thesis by (simp add: csp_id_header_def six_bytes)
qed

section \<open>From the sender to the receiver\<close>

lemma can_list_now [simp]: "can_list v M xs (on_net (\<lambda>s. s\<lparr>now := t\<rparr>) c) = can_list v M xs c"
  by (simp add: can_list_def) (simp add: on_net_def)

lemma pkt_now [simp]: "pkt (cnet (on_net (\<lambda>s. s\<lparr>now := t\<rparr>) c)) h = pkt (cnet c) h"
  by (simp add: on_net_def pkt_def)

lemma frame_id_high_bits:
  "29 \<le> n \<Longrightarrow> \<not> bit (can2_begin_id (can2_conn_id d addr sc) e) n" "29 \<le> n \<Longrightarrow> \<not> bit (can2_more_id (can2_conn_id d addr sc) fc e) n"
proof -
  assume n: "29 \<le> n"
  have c: "\<not> bit (can2_conn_id d addr sc) n" using n unfolding can2_conn_id_def field_masks by (auto simp: bit_simps)
  show "\<not> bit (can2_begin_id (can2_conn_id d addr sc) e) n" using n c by (simp add: can2_begin_id_def bit_simps Let_def)
  show "\<not> bit (can2_more_id (can2_conn_id d addr sc) fc e) n" using n c unfolding can2_more_id_def seven_mask Let_def by (auto simp: bit_simps)
qed

lemma can_flags: "CAN_EFF_FLAG = 2 ^ 31" "CAN_ERR_FLAG OR CAN_RTR_FLAG = push_bit 29 (mask 2)" "CAN_EFF_MASK = mask 29"
  by (simp_all add: CAN_EFF_FLAG_def CAN_ERR_FLAG_def CAN_RTR_FLAG_def CAN_EFF_MASK_def mask_eq_exp_minus_1)

lemma eff_bit: "bit CAN_EFF_FLAG n \<longleftrightarrow> n = 31"
  unfolding can_flags bit_exp_iff by (auto simp: possible_bit_def)

text \<open>The flags of the operating system go on and off.\<close>

lemma socketcan_rx_data_frame:
  assumes "\<And>n. 29 \<le> n \<Longrightarrow> \<not> bit cid n"
  shows "socketcan_rx i (cid OR CAN_EFF_FLAG) bs c = map_option snd (csp_can_rx i cid bs c)"
proof -
  have "bit ((cid OR CAN_EFF_FLAG) AND CAN_EFF_FLAG) 31" by (simp add: eff_bit bit_simps)
  then have "(cid OR CAN_EFF_FLAG) AND CAN_EFF_FLAG \<noteq> 0" by (metis bit_0_eq bot_apply bot_bool_def)
  moreover have "(cid OR CAN_EFF_FLAG) AND (CAN_ERR_FLAG OR CAN_RTR_FLAG) = 0"
    unfolding can_flags(2) by (rule bit_word_eqI) (use assms in \<open>auto simp: bit_simps eff_bit\<close>)
  moreover have "(cid OR CAN_EFF_FLAG) AND CAN_EFF_MASK = cid"
    unfolding can_flags(3) by (rule bit_word_eqI) (use assms in \<open>auto simp: bit_simps eff_bit not_le [symmetric]\<close>)
  ultimately show ?thesis by (simp add: socketcan_rx_def)
qed

text \<open>A frame after the first one, in sequence.\<close>

lemma can2_rx_next:
  fixes fc :: nat
  assumes "can_list 2 M xs c" "find (pbuf_match cid CFP2_ID_CONN_MASK (cnet c)) xs = Some p" "pbuf2_ok (pkt (cnet c) p)"
    and "\<not> cfp2_is_begin cid" "ucast (rx_count (pkt (cnet c) p)) = drop_bit 2 cid AND 0x7"
    and "unat (frame_length (pkt (cnet c) p)) + length bs \<le> CSP_BUFFER_SIZE + 6" "0 < csp_queue_free (qfifo (cnet c))"
  obtains (last) c' k where "cfp2_is_end cid" "csp_can_rx i cid bs c = Some (CSP_ERR_NONE, c')" "can_list 2 M (remove1 p xs) c'"
      "\<And>q. pkt (cnet c') q = (if q = p then deliver2 (if_addr (iface (cnet c) i)) k else pkt (cnet c) q)"
      "pframe k = pframe (pkt (cnet c) p) @ bs" "packet_wf k" "pbuf2_ok k"
      "queue_list (qfifo (cnet c')) = queue_list (qfifo (cnet c)) @ [(Some i, Some p)]"
  | (more) c' where "\<not> cfp2_is_end cid" "csp_can_rx i cid bs c = Some (CSP_ERR_NONE, c')" "can_list 2 M xs c'" "can_same c c'"
      "\<And>q. q \<noteq> p \<Longrightarrow> pkt (cnet c') q = pkt (cnet c) q" "pframe (pkt (cnet c') p) = pframe (pkt (cnet c) p) @ bs" "pbuf2_ok (pkt (cnet c') p)"
      "rx_count (pkt (cnet c') p) = (rx_count (pkt (cnet c) p) + 1) AND 0x7" "cfpid (pkt (cnet c') p) = cfpid (pkt (cnet c) p)"
      "unat (frame_length (pkt (cnet c') p)) = unat (frame_length (pkt (cnet c) p)) + length bs"
proof -
  have v: "conf_version (cnet c) = 2" using assms(1) by (simp add: can_list_def)
  obtain d where d: "can_bind_frame CFP2_ID_CONN_MASK False i cid c = Some (Inr p, d)" "p \<in> set xs" "can_list 2 M xs d"
    "\<And>q. pkt (cnet d) q = (if q = p then (pkt (cnet c) p)\<lparr>timestamp_rx := now (cnet c)\<rparr> else pkt (cnet c) q)" "can_same c d"
    using bind_found [OF assms(1,2)] by metis
  define k0 where "k0 = (pkt (cnet c) p)\<lparr>timestamp_rx := now (cnet c), rx_count := (rx_count (pkt (cnet c) p) + 1) AND 0x7\<rparr>"
  define f where "f = upd_pbuf p (\<lambda>k. k\<lparr>rx_count := (rx_count k + 1) AND 0x7\<rparr>) d"
  have wf: "packet_wf (pkt (cnet c) p)" by (rule can_list_mem(2) [OF assms(1) d(2)])
  have pf: "pkt (cnet f) q = (if q = p then k0 else pkt (cnet c) q)" for q
    using pkt_upd_pbuf [OF d(3,2)] d(4) by (simp add: f_def k0_def)
  have lf: "can_list 2 M xs f" unfolding f_def by (rule can_list_upd_pbuf [OF d(3)]) (use wf d(4) in \<open>simp add: packet_wf_def\<close>)
  have sf: "can_same c f" unfolding f_def by (rule can_same_trans [OF d(5) can_same_upd(1)])
  have k0: "packet_wf k0" "pbuf2_ok k0" "pframe k0 = pframe (pkt (cnet c) p)" "frame_length k0 = frame_length (pkt (cnet c) p)"
    "cfpid k0 = cfpid (pkt (cnet c) p)" "rx_count k0 = (rx_count (pkt (cnet c) p) + 1) AND 0x7"
    using wf assms(3) by (simp_all add: k0_def packet_wf_def pbuf2_ok_def pframe_def)
  have rx: "csp_can_rx i cid bs c = can2_append i cid bs p f"
    using assms(4,5) d v by (simp add: csp_can_rx_def csp_can2_rx_def can2_frame_def f_def)
  note as = append_frame_spec [OF k0(1,2), of bs]
  have fit: "unat (frame_length k0) + length bs \<le> CSP_BUFFER_SIZE + 6" using assms(6) k0(4) by simp
  have okf: "pbuf2_ok (pkt (cnet f) p)" by (simp add: pf k0)
  from lf d(2) okf show thesis
  proof (cases rule: can2_append_spec [where i = i and cid = cid and bs = bs])
    case (overflow c')
    then show thesis using fit by (simp add: pf)
  next
    case (last c')
    show thesis
      by (rule that(1) [of c' "append_frame bs k0"])
        (use last as fit k0 rx sf assms(7) in \<open>simp_all add: pf can_same_def\<close>)
  next
    case (more c')
    show thesis
      by (rule that(2) [of c'])
        (use more as fit k0 rx can_same_trans [OF sf more(6)] in \<open>simp_all add: pf\<close>)
  qed
qed

text \<open>Frames as they are on the bus, with the times they arrive at.\<close>

definition on_bus :: "u32 list \<Rightarrow> (u32 \<times> byte list) list \<Rightarrow> (u32 \<times> u32 \<times> byte list) list" where
  "on_bus ts fs = map2 (\<lambda>t (cid, bs). (t, cid OR CAN_EFF_FLAG, bs)) ts fs"

lemma on_bus_Nil [simp]: "on_bus ts [] = []"
  by (simp add: on_bus_def)

lemma rx_count_next: "((of_nat fc AND 0x7) + 1) AND 0x7 = (of_nat (fc + 1) AND 0x7 :: u16)"
proof -
  have "take_bit 3 (take_bit 3 w + 1) = take_bit 3 (w + 1)" for w :: u16
    unfolding word_unat_eq_iff unsigned_take_bit_eq take_bit_eq_mod unat_word_ariths
    by (simp add: mod_mod_cancel mod_simps)
  then show ?thesis unfolding seven_mask take_bit_eq_mask [symmetric] by (simp add: add.commute)
qed

lemma rx_count_ucast: "ucast (of_nat fc AND 0x7 :: u16) = (of_nat fc AND 0x7 :: u32)"
  unfolding seven_mask take_bit_eq_mask [symmetric] by (rule bit_word_eqI) (auto simp: bit_simps)

lemma can2_rx_more:
  assumes "can_list 2 M xs c" "find (pbuf_match (can2_conn_id d addr sc) CFP2_ID_CONN_MASK (cnet c)) xs = Some p" "pbuf2_ok (pkt (cnet c) p)"
    and "rx_count (pkt (cnet c) p) = of_nat fc AND 0x7" "bs \<noteq> []"
    and "unat (frame_length (pkt (cnet c) p)) + length bs \<le> CSP_BUFFER_SIZE + 6" "0 < csp_queue_free (qfifo (cnet c))"
    and "length ts = length (can2_more (can2_conn_id d addr sc) bs fc)"
  shows "\<exists>c' k. socketcan_rx_thread i (on_bus ts (can2_more (can2_conn_id d addr sc) bs fc)) c = Some c' \<and> can_list 2 M (remove1 p xs) c' \<and>
    (\<forall>q. pkt (cnet c') q = (if q = p then deliver2 (if_addr (iface (cnet c) i)) k else pkt (cnet c) q)) \<and>
    pframe k = pframe (pkt (cnet c) p) @ bs \<and> packet_wf k \<and> pbuf2_ok k \<and>
    queue_list (qfifo (cnet c')) = queue_list (qfifo (cnet c)) @ [(Some i, Some p)]"
  using assms
proof (induction "can2_conn_id d addr sc" bs fc arbitrary: c ts rule: can2_more.induct)
  case (1 bs fc)
  let ?cid = "can2_conn_id d addr sc" and ?e = "length bs \<le> 8"
  obtain t ts' where ts: "ts = t # ts'" using 1(9) 1(6) by (cases ts) (simp_all add: can2_more.simps [of _ bs])
  let ?id = "can2_more_id ?cid fc ?e" and ?n = "on_net (\<lambda>s. s\<lparr>now := t\<rparr>) c"
  have m: "can2_more ?cid bs fc = (?id, take 8 bs) # can2_more ?cid (drop 8 bs) (fc + 1)" using 1(6) by (simp add: can2_more.simps [of _ bs])
  have bus: "socketcan_rx_thread i (on_bus ts (can2_more ?cid bs fc)) c =
      (case csp_can_rx i ?id (take 8 bs) ?n of None \<Rightarrow> None | Some (e, c) \<Rightarrow> socketcan_rx_thread i (on_bus ts' (can2_more ?cid (drop 8 bs) (fc + 1))) c)"
    by (simp add: m ts on_bus_def socketcan_rx_data_frame frame_id_high_bits split: option.split)
  have n: "qfifo (cnet ?n) = qfifo (cnet c)" "iface (cnet ?n) = iface (cnet c)" by (simp_all add: on_net_def iface_def [abs_def])
  have find: "find (pbuf_match ?id CFP2_ID_CONN_MASK (cnet ?n)) xs = Some p" using 1(3) by (simp add: can2_same_conn)
  have l: "can_list 2 M xs ?n" "pbuf2_ok (pkt (cnet ?n) p)" using 1(2,4) by simp_all
  have c1: "ucast (rx_count (pkt (cnet ?n) p)) = drop_bit 2 ?id AND 0x7" using 1(5) by (simp add: can2_fields rx_count_ucast)
  have c2: "unat (frame_length (pkt (cnet ?n) p)) + length (take 8 bs) \<le> CSP_BUFFER_SIZE + 6" "0 < csp_queue_free (qfifo (cnet ?n))"
    using 1(7,8) by (simp_all add: n)
  from l(1) find l(2) can2_fields(3) c1 c2 show ?case
  proof (cases rule: can2_rx_next [where i = i])
    case (last c' k)
    then have e: ?e by (simp add: can2_fields)
    then have nil: "can2_more ?cid (drop 8 bs) (fc + 1) = []" by (simp add: can2_more.simps [of _ "[]"])
    have "socketcan_rx_thread i (on_bus ts (can2_more ?cid bs fc)) c = Some c'" using last(2) unfolding bus nil by simp
    moreover have "\<forall>q. pkt (cnet c') q = (if q = p then deliver2 (if_addr (iface (cnet c) i)) k else pkt (cnet c) q)" using last(4) by (simp add: n)
    ultimately show ?thesis using last(3,5-8) e n by auto
  next
    case (more c')
    then have e: "\<not> ?e" by (simp add: can2_fields)
    have f': "find (pbuf_match ?cid CFP2_ID_CONN_MASK (cnet c')) xs = Some p"
    proof -
      have "pbuf_match ?cid CFP2_ID_CONN_MASK (cnet c') = pbuf_match ?cid CFP2_ID_CONN_MASK (cnet c)"
        using more(5,9) by (intro ext) (metis pkt_now)
      then show ?thesis using 1(3) by simp
    qed
    have r': "rx_count (pkt (cnet c') p) = of_nat (fc + 1) AND 0x7" using more(8) 1(5) rx_count_next [of fc] by simp
    have "\<exists>c'' k. socketcan_rx_thread i (on_bus ts' (can2_more ?cid (drop 8 bs) (fc + 1))) c' = Some c'' \<and> can_list 2 M (remove1 p xs) c'' \<and>
      (\<forall>q. pkt (cnet c'') q = (if q = p then deliver2 (if_addr (iface (cnet c') i)) k else pkt (cnet c') q)) \<and>
      pframe k = pframe (pkt (cnet c') p) @ drop 8 bs \<and> packet_wf k \<and> pbuf2_ok k \<and>
      queue_list (qfifo (cnet c'')) = queue_list (qfifo (cnet c')) @ [(Some i, Some p)]"
      by (rule 1(1) [OF 1(6) more(3) f' more(7) r'])
        (use e 1(7-9) more(4,10) in \<open>simp_all add: m ts can_same_def n min_def\<close>)
    then show ?thesis using more(2,4,5,6) e by (fastforce simp: bus can_same_def n)
  qed
qed

text \<open>The first frame.\<close>

lemma find_match_cong:
  "(\<And>q. q \<in> set xs \<Longrightarrow> cfpid (pkt s q) = cfpid (pkt t q)) \<Longrightarrow> find (pbuf_match cid msk s) xs = find (pbuf_match cid msk t) xs"
  by (rule find_cong) auto

lemma can2_bind_first:
  assumes "can2_inv M xs c" "calm xs c" "free_list (cnet c) \<noteq> []"
  obtains p xs' d where "can_bind_frame CFP2_ID_CONN_MASK True i cid c = Some (Inr p, d)" "can_list 2 M xs' d" "p \<in> set xs'"
    "find (pbuf_match cid CFP2_ID_CONN_MASK (cnet d)) xs' = Some p" "\<And>q. q \<in> set xs' \<Longrightarrow> q \<noteq> p \<Longrightarrow> pbuf2_ok (pkt (cnet d) q)" "can_same c d"
proof -
  have l: "can_list 2 M xs c" and ok: "\<And>p. p \<in> set xs \<Longrightarrow> pbuf2_ok (pkt (cnet c) p)" using assms(1) by (simp_all add: can2_inv_def)
  from l assms(2) show thesis
  proof (cases rule: bind_spec [where cid = cid and msk = CFP2_ID_CONN_MASK and b = True and i = i])
    case (found p d)
    have "find (pbuf_match cid CFP2_ID_CONN_MASK (cnet d)) xs = Some p"
      using found(1) find_match_cong [of xs "cnet d" "cnet c"] found(5) by simp
    then show thesis using that found ok by simp
  next
    case (fresh p d)
    have "p \<notin> set (alive c xs)" using fresh(4) by (simp add: can_list_def)
    then show thesis using that [of p d "p # alive c xs"] fresh ok by simp
  next
    case (nomem c')
    then show thesis using assms(3) by simp
  qed simp
qed

lemma can2_rx_first:
  fixes addr :: u16 and sc :: u32
  assumes "can2_inv M xs c" "calm xs c" "free_list (cnet c) \<noteq> []" "id_fits 2 d" "0 < csp_queue_free (qfifo (cnet c))"
  defines "cid \<equiv> can2_conn_id d addr sc"
  obtains (single) p xs' c' k where "length bs \<le> 4" "csp_can_rx i (can2_begin_id cid (length bs \<le> 4)) (be32_enc (can2_header_extension d) @ take 4 bs) c = Some (CSP_ERR_NONE, c')"
      "can2_inv M xs' c'" "pkt (cnet c') p = deliver2 (if_addr (iface (cnet c) i)) k" "pframe k = csp_id_header 2 d @ bs" "packet_wf k" "pbuf2_ok k"
      "queue_list (qfifo (cnet c')) = queue_list (qfifo (cnet c)) @ [(Some i, Some p)]"
  | (several) p xs' c' where "\<not> length bs \<le> 4" "csp_can_rx i (can2_begin_id cid (length bs \<le> 4)) (be32_enc (can2_header_extension d) @ take 4 bs) c = Some (CSP_ERR_NONE, c')"
      "can2_inv M xs' c'" "p \<in> set xs'" "find (pbuf_match cid CFP2_ID_CONN_MASK (cnet c')) xs' = Some p" "pframe (pkt (cnet c') p) = csp_id_header 2 d @ take 4 bs"
      "rx_count (pkt (cnet c') p) = 1" "unat (frame_length (pkt (cnet c') p)) = 10" "can_same c c'"
proof -
  let ?id = "can2_begin_id cid (length bs \<le> 4)" and ?bs = "be32_enc (can2_header_extension d) @ take 4 bs"
  have v: "conf_version (cnet c) = 2" using assms(1) by (simp add: can2_inv_def can_list_def)
  obtain p xs' e where e: "can_bind_frame CFP2_ID_CONN_MASK True i ?id c = Some (Inr p, e)" "can_list 2 M xs' e" "p \<in> set xs'"
    "find (pbuf_match ?id CFP2_ID_CONN_MASK (cnet e)) xs' = Some p" "\<And>q. q \<in> set xs' \<Longrightarrow> q \<noteq> p \<Longrightarrow> pbuf2_ok (pkt (cnet e) q)" "can_same c e"
    using can2_bind_first [OF assms(1-3)] by metis
  define f where "f = upd_pbuf p (can2_begin 2 ?id ?bs) (frame_inc i e)"
  define k0 where "k0 = can2_begin 2 ?id ?bs (pkt (cnet e) p)"
  have wf: "packet_wf (pkt (cnet e) p)" by (rule can_list_mem(2) [OF e(2,3)])
  have four: "4 \<le> length ?bs" by simp
  note k0 = can2_begin_spec [OF wf four, of ?id, folded k0_def]
  have h: "pframe k0 = csp_id_header 2 d" using k0(5) can2_first_header [OF assms(4), of addr sc] by (simp add: cid_def)
  have le: "can_list 2 M xs' (frame_inc i e)" using e(2) by simp
  have lf: "can_list 2 M xs' f" unfolding f_def by (rule can_list_upd_pbuf [OF le]) (use k0(1) in \<open>simp add: k0_def\<close>)
  have pf: "pkt (cnet f) q = (if q = p then k0 else pkt (cnet e) q)" for q
    using pkt_upd_pbuf [OF le e(3)] by (simp add: f_def k0_def)
  have sf: "can_same c f" unfolding f_def by (rule can_same_trans [OF e(6) can_same_trans [OF can_same_upd(2) can_same_upd(1)]])
  have "csp_can_rx i ?id ?bs c = can2_frame i ?id ?bs p e" using e(1) v by (simp add: csp_can_rx_def csp_can2_rx_def cid_def can2_fields)
  also have "\<dots> = can2_append i ?id (take 4 bs) p f"
    using e(6) v by (simp add: can2_frame_def cid_def can2_fields f_def can_same_def)
  finally have rx: "csp_can_rx i ?id ?bs c = can2_append i ?id (take 4 bs) p f" .
  have okf: "pbuf2_ok (pkt (cnet f) p)" by (simp add: pf k0(2))
  have fit: "unat (frame_length k0) + length (take 4 bs) \<le> CSP_BUFFER_SIZE + 6" by (simp add: k0(6) csp_config_defs)
  note as = append_frame_spec [OF k0(1,2) fit]
  from lf e(3) okf show thesis
  proof (cases rule: can2_append_spec [where i = i and cid = ?id and bs = "take 4 bs"])
    case (overflow c')
    then show thesis using fit by (simp add: pf)
  next
    case (last c')
    have inv: "can2_inv M (remove1 p xs') c'" using last(4,5) e(2,5) by (auto simp: can2_inv_def can_list_def pf)
    have "length bs \<le> 4" using last(2) by (simp add: cid_def can2_fields)
    then show thesis
      by (intro single [of c' "remove1 p xs'" p "append_frame (take 4 bs) k0"])
        (use last inv rx as h sf assms(5) in \<open>simp_all add: pf can_same_def\<close>)
  next
    case (more c')
    have inv: "can2_inv M xs' c'" using more(4,5) e(5) as(2) by (auto simp: can2_inv_def pf)
    have four: "\<not> length bs \<le> 4" using more(2) by (simp add: cid_def can2_fields)
    have "find (pbuf_match cid CFP2_ID_CONN_MASK (cnet c')) xs' = find (pbuf_match ?id CFP2_ID_CONN_MASK (cnet e)) xs'"
      using find_match_cong [of xs' "cnet c'" "cnet e"] more(5) as(4) k0(4) by (simp add: pf can2_same_conn)
    then show thesis using four more inv rx as h e k0(3,6) can_same_trans [OF sf more(6)]
      by (intro several [of c' xs' p]) (simp_all add: pf min_def)
  qed
qed

lemma can2_tx_ok:
  assumes "acct (add_mset h N) (cnet s)" "dst (pid (pkt (cnet s) h)) \<noteq> if_addr (iface (cnet s) j)" "\<And>n. tx_func n = CSP_ERR_NONE"
  shows "\<exists>s'. csp_can2_tx tx_func j h s = (CSP_ERR_NONE, s') \<and> acct N (cnet s') \<and>
    sent s' = sent s @ can2_frames (pid (pkt (cnet s) h)) (if_addr (iface (cnet s) j)) (cfp_packet_counter s) (pdata (pkt (cnet s) h))"
proof -
  let ?k = "pkt (cnet s) h" and ?n = "unat (plength (pkt (cnet s) h))"
  have len: "length (pdata ?k) = ?n" "?n \<le> CSP_BUFFER_SIZE" "length (pmem ?k) = CSP_PACKET_PADDING_BYTES + CSP_BUFFER_SIZE"
    using held_allocated(4) [OF assms(1), of h] by (simp_all add: packet_wf_def)
  have t: "mread (data_at 0) (if 4 \<le> ?n then 4 else ?n) (pmem ?k) = take 4 (pdata ?k)"
    "drop (if 4 \<le> ?n then 4 else ?n) (pdata ?k) = drop 4 (pdata ?k)" "(if 4 \<le> ?n then 4 else ?n) = ?n \<longleftrightarrow> length (pdata ?k) \<le> 4"
    using len by (auto simp: pdata_def mread_def)
  show ?thesis
    using assms(2,3) acct_free(1) [OF assms(1)] unfolding csp_can2_tx_def Let_def t
    by (simp add: can_tx_def can2_tx_loop_frames [OF assms(3)] t can2_frames_def can2_begin_id_def Let_def on_net_def)
qed

lemma can2_more_small: "list_all (\<lambda>(cid, b). length b \<le> 8) (can2_more cid bs fc)"
proof (induction cid bs fc rule: can2_more.induct)
  case (1 cid bs fc)
  then show ?case by (subst can2_more.simps) simp
qed

text \<open>The receiver on all frames of a packet.\<close>

lemma can2_rx_frames:
  fixes sa :: u16 and sc :: u32
  assumes "can2_inv M xs r" "calm xs (on_net (\<lambda>s. s\<lparr>now := hd ts\<rparr>) r)" "free_list (cnet r) \<noteq> []" "0 < csp_queue_free (qfifo (cnet r))"
    and "id_fits 2 d" "length bs \<le> CSP_BUFFER_SIZE" "length ts = length (can2_frames d sa sc bs)"
  shows "\<exists>r' xs' p. socketcan_rx_thread i (on_bus ts (can2_frames d sa sc bs)) r = Some r' \<and> can2_inv M xs' r' \<and>
    queue_list (qfifo (cnet r')) = queue_list (qfifo (cnet r)) @ [(Some i, Some p)] \<and> pdata (pkt (cnet r') p) = bs \<and>
    pid (pkt (cnet r') p) = (if dst d = 0x3FFF then d\<lparr>dst := if_addr (iface (cnet r) i)\<rparr> else d)"
proof -
  let ?cid = "can2_conn_id d sa sc" and ?fs = "can2_frames d sa sc bs"
  let ?id = "can2_begin_id ?cid (length bs \<le> 4)" and ?first = "be32_enc (can2_header_extension d) @ take 4 bs"
  have fin: "pdata (deliver2 a k) = bs \<and> pid (deliver2 a k) = (if dst d = 0x3FFF then d\<lparr>dst := a\<rparr> else d)"
    if "pframe k = csp_id_header 2 d @ bs" "packet_wf k" "pbuf2_ok k" for a k
    using deliver2_spec [OF that(2,3), of a] that(1) csp_id_decode_header [OF assms(5), of bs] length_csp_id_header [of 2 d] by (simp add: Let_def)
  obtain t ts' where ts: "ts = t # ts'" "length ts' = length (can2_more ?cid (drop 4 bs) 1)"
    using assms(7) by (cases ts) (simp_all add: can2_frames_def Let_def)
  define r0 where "r0 = on_net (\<lambda>s. s\<lparr>now := t\<rparr>) r"
  have n: "qfifo (cnet r0) = qfifo (cnet r)" "iface (cnet r0) = iface (cnet r)" "free_list (cnet r0) = free_list (cnet r)"
    by (simp_all add: r0_def on_net_def iface_def [abs_def])
  have bus: "socketcan_rx_thread i (on_bus ts ?fs) r = (case csp_can_rx i ?id ?first r0 of None \<Rightarrow> None
      | Some (e, c) \<Rightarrow> socketcan_rx_thread i (on_bus ts' (can2_more ?cid (drop 4 bs) 1)) c)"
    by (simp add: ts can2_frames_def Let_def on_bus_def socketcan_rx_data_frame frame_id_high_bits r0_def split: option.split)
  have inv0: "can2_inv M xs r0" "calm xs r0" "free_list (cnet r0) \<noteq> []" "0 < csp_queue_free (qfifo (cnet r0))"
    using assms(1-4) n by (simp_all add: can2_inv_def ts) (simp_all add: r0_def)
  from inv0(1-3) assms(5) inv0(4) show ?thesis
  proof (cases rule: can2_rx_first [where addr = sa and sc = sc and bs = bs and i = i])
    case (single p xs' c' k)
    have nil: "can2_more ?cid (drop 4 bs) 1 = []" using single(1) by (simp add: can2_more.simps [of _ "[]"])
    have "socketcan_rx_thread i (on_bus ts ?fs) r = Some c'" using single(2) unfolding bus nil by simp
    then show ?thesis using single(3,4,8) fin [OF single(5-7)] n by auto
  next
    case (several p xs' c')
    have l: "can_list 2 M xs' c'" "pbuf2_ok (pkt (cnet c') p)" using several(3,4) by (simp_all add: can2_inv_def)
    have "\<exists>r' k. socketcan_rx_thread i (on_bus ts' (can2_more ?cid (drop 4 bs) 1)) c' = Some r' \<and> can_list 2 M (remove1 p xs') r' \<and>
        (\<forall>q. pkt (cnet r') q = (if q = p then deliver2 (if_addr (iface (cnet c') i)) k else pkt (cnet c') q)) \<and>
        pframe k = pframe (pkt (cnet c') p) @ drop 4 bs \<and> packet_wf k \<and> pbuf2_ok k \<and>
        queue_list (qfifo (cnet r')) = queue_list (qfifo (cnet c')) @ [(Some i, Some p)]"
      by (rule can2_rx_more [OF l(1) several(5) l(2)])
        (use several(1,7-9) assms(6) ts(2) inv0(4) in \<open>simp_all add: can_same_def\<close>)
    then obtain r' k where r': "socketcan_rx_thread i (on_bus ts' (can2_more ?cid (drop 4 bs) 1)) c' = Some r'" "can_list 2 M (remove1 p xs') r'"
      "\<And>q. pkt (cnet r') q = (if q = p then deliver2 (if_addr (iface (cnet c') i)) k else pkt (cnet c') q)"
      "pframe k = csp_id_header 2 d @ bs" "packet_wf k" "pbuf2_ok k"
      "queue_list (qfifo (cnet r')) = queue_list (qfifo (cnet c')) @ [(Some i, Some p)]"
      using several(6) by auto
    have "can2_inv M (remove1 p xs') r'" using r'(2,3) several(3) by (auto simp: can2_inv_def can_list_def)
    moreover have "socketcan_rx_thread i (on_bus ts ?fs) r = Some r'" using several(2) r'(1) unfolding bus by simp
    ultimately show ?thesis using r'(3,7) fin [OF r'(4-6)] several(9) n by (auto simp: can_same_def)
  qed
qed

text \<open>C24: a packet that is sent over the CAN bus arrives. Every frame of it has at most eight bytes, the sender releases its buffer, and
  a receiver with room in its pool and its queue that gets the frames in order, at whatever times and whatever packets of others it is receiving,
  hands exactly one packet to the router, with the same bytes and the same identifier; a broadcast is for the receiver itself.\<close>

theorem csp_can2_roundtrip:
  assumes "acct (add_mset h N) (cnet s)" "dst (pid (pkt (cnet s) h)) \<noteq> if_addr (iface (cnet s) j)" "\<And>n. tx_func n = CSP_ERR_NONE"
    and "id_fits 2 (pid (pkt (cnet s) h))" "can2_inv M xs r" "free_list (cnet r) \<noteq> []" "0 < csp_queue_free (qfifo (cnet r))"
  defines "d \<equiv> pid (pkt (cnet s) h)"
  shows "\<exists>s' fs. csp_can2_tx tx_func j h s = (CSP_ERR_NONE, s') \<and> acct N (cnet s') \<and> sent s' = sent s @ fs \<and> list_all (\<lambda>(cid, b). length b \<le> 8) fs \<and>
    (\<forall>ts. length ts = length fs \<and> calm xs (on_net (\<lambda>s. s\<lparr>now := hd ts\<rparr>) r) \<longrightarrow>
      (\<exists>r' xs' p. socketcan_rx_thread i (on_bus ts fs) r = Some r' \<and> can2_inv M xs' r' \<and>
         queue_list (qfifo (cnet r')) = queue_list (qfifo (cnet r)) @ [(Some i, Some p)] \<and> pdata (pkt (cnet r') p) = pdata (pkt (cnet s) h) \<and>
         pid (pkt (cnet r') p) = (if dst d = 0x3FFF then d\<lparr>dst := if_addr (iface (cnet r) i)\<rparr> else d)))"
proof -
  let ?bs = "pdata (pkt (cnet s) h)"
  let ?fs = "can2_frames d (if_addr (iface (cnet s) j)) (cfp_packet_counter s) ?bs"
  obtain s' where s': "csp_can2_tx tx_func j h s = (CSP_ERR_NONE, s')" "acct N (cnet s')" "sent s' = sent s @ ?fs"
    using can2_tx_ok [where tx_func = tx_func, OF assms(1-3)] unfolding d_def by blast
  have small: "list_all (\<lambda>(cid, b). length b \<le> 8) ?fs" using can2_more_small by (simp add: can2_frames_def Let_def min_def)
  have "length ?bs \<le> CSP_BUFFER_SIZE" using held_allocated(4) [OF assms(1), of h] by (simp add: packet_wf_def)
  then show ?thesis using s' small can2_rx_frames [OF assms(5) _ assms(6,7,4), of _ ?bs] unfolding d_def by blast
qed

text \<open>A node for the examples: nothing is under construction.\<close>

definition can_ex :: can_state where
  "can_ex = \<lparr>cnet = node_ex, cfp_packet_counter = 5, pbufs = None, pnext = (\<lambda>_. None), csp_dbg_can_errno = 0, sent = []\<rparr>"

lemma can_ex_inv: "can2_inv {#0#} [] can_ex" "calm [] can_ex" "free_list (cnet can_ex) \<noteq> []" "0 < csp_queue_free (qfifo (cnet can_ex))"
  using node_ex_acct node_ex_free
  by (simp_all add: can2_inv_def can_list_def calm_def can_ex_def)
    (simp_all add: node_ex_def csp_queue_free_def pthread_queue_free_def)

theorem csp_can_pbuf_cleanup_effect_witness:
  "\<exists>c'. csp_can_pbuf_cleanup (can_ex\<lparr>cnet := node_ex\<lparr>now := 5000\<rparr>, pbufs := Some 0\<rparr>) = Some c' \<and> free_list (cnet c') = [1, 2, 0] \<and> pbufs c' = None"
proof -
  let ?c = "can_ex\<lparr>cnet := node_ex\<lparr>now := 5000\<rparr>, pbufs := Some 0\<rparr>"
  have e: "pbuf_expired (cnet ?c) 0" by (simp add: pbuf_expired_def can_ex_def node_ex_def pkt_def packet0_def PBUF_TIMEOUT_MS_def)
  have "pchain (pnext ?c) (pbufs ?c) [0] None" by (simp add: can_ex_def)
  moreover have "acct (mset [0] + {#}) (cnet ?c)" using node_ex_acct by simp
  moreover have "free_list (cnet ?c) = [1, 2]" using node_ex_free by simp
  ultimately show ?thesis using csp_can_pbuf_cleanup_effect [of ?c "[0]" "{#}"] e by auto
qed


theorem csp_can2_roundtrip_witness:
  "\<exists>s' r' p. csp_can2_tx (\<lambda>_. CSP_ERR_NONE) 1 0 can_ex = (CSP_ERR_NONE, s') \<and>
     socketcan_rx_thread 2 (on_bus (replicate (length (sent s')) 2000) (sent s')) can_ex = Some r' \<and>
     queue_list (qfifo (cnet r')) = [(Some 2, Some p)] \<and> pid (pkt (cnet r') p) = csp_id_clear"
proof -
  have a: "acct (add_mset 0 {#}) (cnet can_ex)" using node_ex_acct by (simp add: can_ex_def)
  have k: "pid (pkt (cnet can_ex) 0) = csp_id_clear" "if_addr (iface (cnet can_ex) 1) = 0x101" "sent can_ex = []" "queue_list (qfifo (cnet can_ex)) = []"
    by (simp_all add: can_ex_def node_ex_def pkt_def packet0_def iface_def iflist_ex_def iface_ex_def queue_list_def)
  have d: "dst (pid (pkt (cnet can_ex) 0)) \<noteq> if_addr (iface (cnet can_ex) 1)" "id_fits 2 (pid (pkt (cnet can_ex) 0))"
    using k by (simp_all add: csp_id_clear_def id_fits_def)
  have calm: "calm [] c" for c by (simp add: calm_def)
  from csp_can2_roundtrip [where tx_func = "\<lambda>_. CSP_ERR_NONE", OF a d(1) refl d(2) can_ex_inv(1,3,4), of 2] calm k show ?thesis
    by (force simp: csp_id_clear_def)
qed

section \<open>Interleaved packets in CFP 1\<close>

text \<open>The first frame of a packet that needs more frames and fits a buffer.\<close>

definition can1_starts :: "byte list \<Rightarrow> bool" where
  "can1_starts bs \<longleftrightarrow> 6 \<le> length bs \<and> length bs - 6 < unat (be16_dec (take 2 (drop 4 bs))) \<and> unat (be16_dec (take 2 (drop 4 bs))) \<le> CSP_BUFFER_SIZE"

lemma can1_begin_spec:
  assumes "packet_wf k" "can1_starts bs"
  shows "packet_wf (can1_begin 1 bs k)" "timestamp_rx (can1_begin 1 bs k) = 0" "cfpid (can1_begin 1 bs k) = cfpid k"
    "plength (can1_begin 1 bs k) = be16_dec (take 2 (drop 4 bs))"
proof -
  have l: "length (pmem k) = 2056" "length (take 4 bs) = 4" using assms by (simp_all add: packet_wf_def csp_config_defs can1_starts_def min_def)
  note defs = can1_begin_def csp_id_setup_rx_def csp_id1_setup_rx_def csp_id_strip_def csp_id1_strip_def csp_id_size_defs data_at_0 Let_def
  show "timestamp_rx (can1_begin 1 bs k) = 0" "cfpid (can1_begin 1 bs k) = cfpid k" "plength (can1_begin 1 bs k) = be16_dec (take 2 (drop 4 bs))"
    by (simp_all add: defs)
  show "packet_wf (can1_begin 1 bs k)" using assms(2) l by (simp add: defs packet_wf_def can1_starts_def csp_config_defs)
qed

lemma unat_remain: "unat (ucast (CFP_REMAIN cid) + 1 :: u16) = unat (CFP_REMAIN cid) + 1"
proof -
  have r: "unat (CFP_REMAIN cid) < 256" using unat_and_mask_less [of "drop_bit 10 cid" 8] by (simp add: CFP_REMAIN_def mask_eq_exp_minus_1)
  then have u: "unat (ucast (CFP_REMAIN cid) :: u16) = unat (CFP_REMAIN cid)" by (simp add: unsigned_ucast_eq take_bit_nat_eq_self)
  show ?thesis using r by (subst unat_add_lem [THEN iffD1]) (simp_all add: u)
qed

lemma can1_frame_starts:
  assumes "can_list 1 M xs c" "p \<in> set xs" "CFP_TYPE cid = CFP_BEGIN" "can1_starts bs"
  shows "\<exists>c'. can1_frame i cid bs p c = Some (CSP_ERR_NONE, c') \<and> can_list 1 M xs c' \<and> can_same c c' \<and> free_list (cnet c') = free_list (cnet c) \<and>
    timestamp_rx (pkt (cnet c') p) = 0 \<and> cfpid (pkt (cnet c') p) = cfpid (pkt (cnet c) p) \<and> (\<forall>q. q \<noteq> p \<longrightarrow> pkt (cnet c') q = pkt (cnet c) q)"
proof -
  have v: "conf_version (cnet c) = 1" using assms(1) by (simp add: can_list_def)
  have wf: "packet_wf (pkt (cnet c) p)" by (rule can_list_mem(2) [OF assms(1,2)])
  define k1 where "k1 = can1_begin 1 bs (pkt (cnet c) p)"
  note k1 = can1_begin_spec [OF wf assms(4), folded k1_def]
  let ?n = "unat (be16_dec (take 2 (drop 4 bs)))"
  have n: "length bs - 6 < ?n" "?n \<le> CSP_BUFFER_SIZE" "6 \<le> length bs" using assms(4) by (simp_all add: can1_starts_def)
  define c1 where "c1 = upd_pbuf p (can1_begin 1 bs) (frame_inc i c)"
  define c2 where "c2 = upd_pbuf p (\<lambda>k. k\<lparr>rx_count := 0, remain := ucast (CFP_REMAIN cid) + 1\<rparr>) c1"
  define c3 where "c3 = upd_pbuf p (\<lambda>k. k\<lparr>remain := remain k - 1\<rparr>) c2"
  define ds where "ds = drop 6 bs"
  define c4 where "c4 = upd_pbuf p (\<lambda>k. k\<lparr>pmem := mwrite (data_at (unat (rx_count k))) ds (pmem k), rx_count := rx_count k + of_nat (length ds)\<rparr>) c3"
  have l0: "can_list 1 M xs (frame_inc i c)" using assms(1) by simp
  have l1: "can_list 1 M xs c1" unfolding c1_def by (rule can_list_upd_pbuf [OF l0]) (use k1(1) in \<open>simp add: k1_def\<close>)
  have p1: "pkt (cnet c1) q = (if q = p then k1 else pkt (cnet c) q)" for q using pkt_upd_pbuf [OF l0 assms(2)] by (simp add: c1_def k1_def)
  have l2: "can_list 1 M xs c2" unfolding c2_def by (rule can_list_upd_pbuf [OF l1]) (use k1(1) in \<open>simp add: p1 packet_wf_def\<close>)
  have p2: "pkt (cnet c2) q = (if q = p then k1\<lparr>rx_count := 0, remain := ucast (CFP_REMAIN cid) + 1\<rparr> else pkt (cnet c) q)" for q
    using pkt_upd_pbuf [OF l1 assms(2)] by (simp add: c2_def p1)
  have l3: "can_list 1 M xs c3" unfolding c3_def by (rule can_list_upd_pbuf [OF l2]) (use k1(1) in \<open>simp add: p2 packet_wf_def\<close>)
  have p3: "pkt (cnet c3) q = (if q = p then k1\<lparr>rx_count := 0, remain := ucast (CFP_REMAIN cid)\<rparr> else pkt (cnet c) q)" for q
    using pkt_upd_pbuf [OF l2 assms(2)] by (simp add: c3_def p2)
  have mem: "data_at 0 + length ds \<le> length (pmem k1)" using k1(1) n by (simp add: packet_wf_def data_at_def ds_def)
  have l4: "can_list 1 M xs c4" unfolding c4_def by (rule can_list_upd_pbuf [OF l3]) (use k1(1) mem in \<open>simp add: p3 packet_wf_def\<close>)
  have p4: "pkt (cnet c4) q = (if q = p then k1\<lparr>rx_count := of_nat (length ds), remain := ucast (CFP_REMAIN cid),
      pmem := mwrite (data_at 0) ds (pmem k1)\<rparr> else pkt (cnet c) q)" for q
    using pkt_upd_pbuf [OF l3 assms(2)] by (simp add: c4_def p3)
  have u: "unat (of_nat (length ds) :: u16) = length ds" using n by (subst unat_of_nat) (simp add: csp_config_defs ds_def)
  have ld: "length ds < ?n" using n by (simp add: ds_def)
  then have ne: "of_nat (length ds) \<noteq> be16_dec (take 2 (drop 4 bs))" using u by auto
  have "can1_frame i cid bs p c = can1_more i cid ds p c2"
    using assms(3) n v k1(4) by (simp add: can1_frame_def Let_def c1_def [symmetric] p1 c2_def [symmetric] ds_def)
  also have "\<dots> = Some (CSP_ERR_NONE, c4)"
    using ld ne k1(4) by (simp add: can1_more_def Let_def p2 unat_remain c3_def [symmetric] p3 c4_def [symmetric] p4)
  finally have "can1_frame i cid bs p c = Some (CSP_ERR_NONE, c4)" .
  moreover have "can_same c c4" unfolding c4_def c3_def c2_def c1_def by (intro can_same_trans [OF _ can_same_upd(1)]) (rule can_same_upd(2))
  moreover have "free_list (cnet c4) = free_list (cnet c)"
    by (simp add: c4_def c3_def c2_def c1_def upd_pbuf_def on_net_def frame_inc_def upd_iface_def)
  ultimately show ?thesis using l4 p4 k1(2,3) by simp
qed

lemma bind_new:
  assumes "can_list v M xs c" "calm xs c" "find (pbuf_match cid msk (cnet c)) xs = None" "free_list (cnet c) @ filter (pbuf_expired (cnet c)) xs \<noteq> []"
  obtains p c' where "can_bind_frame msk True i cid c = Some (Inr p, c')" "can_list v M (p # alive c xs) c'" "cfpid (pkt (cnet c') p) = cid"
proof -
  from assms(1,2) show thesis
  proof (cases rule: bind_spec [where cid = cid and msk = msk and b = True and i = i])
    case (nomem c')
    then show thesis using assms(4) by blast
  qed (use that assms(3) in simp_all)
qed

text \<open>In CFP 1 a packet whose frames are interleaved with the start of another one is lost. The first frame clears the time the packet was
  last used, because \<open>csp_id_strip\<close> clears \<open>timestamp_rx\<close>, which has the same place; so when the next packet of another sender starts,
  at any time more than a second after the system did, the first one is taken for expired and its buffer released, and its second frame is
  rejected, however soon it follows.\<close>

theorem csp_can1_interleaved_lost:
  assumes "can_list 1 M [] c" "free_list (cnet c) \<noteq> []" "CFP_TYPE a = CFP_BEGIN" "can1_starts bs" "CFP_TYPE b = CFP_BEGIN" "can1_starts cs"
    and "a AND CFP_ID_CONN_MASK \<noteq> b AND CFP_ID_CONN_MASK" "a' AND CFP_ID_CONN_MASK = a AND CFP_ID_CONN_MASK" "CFP_TYPE a' = CFP_MORE"
    and "PBUF_TIMEOUT_MS < t"
  shows "\<exists>c1 c2 c3 p q. csp_can_rx i a bs c = Some (CSP_ERR_NONE, c1) \<and> pbufs c1 = Some p \<and>
    csp_can_rx i b cs (on_net (\<lambda>s. s\<lparr>now := t\<rparr>) c1) = Some (CSP_ERR_NONE, c2) \<and> can_list 1 M [q] c2 \<and> cfpid (pkt (cnet c2) q) = b \<and>
    csp_can_rx i a' bs' c2 = Some (CSP_ERR_INVAL, c3)"
proof -
  have rx: "csp_can_rx i cid ds w = csp_can1_rx i cid ds w" if "can_list 1 M ys w" for cid ds ys w
    using that by (simp add: csp_can_rx_def can_list_def)
  have calm: "calm [] w" "calm [x] w" for w x by (simp_all add: calm_def)
  obtain p d where d: "can_bind_frame CFP_ID_CONN_MASK True i a c = Some (Inr p, d)" "can_list 1 M [p] d" "cfpid (pkt (cnet d) p) = a"
    using bind_new [OF assms(1) calm(1), where cid = a and msk = CFP_ID_CONN_MASK and i = i] assms(2) by auto
  obtain c1 where c1: "can1_frame i a bs p d = Some (CSP_ERR_NONE, c1)" "can_list 1 M [p] c1" "timestamp_rx (pkt (cnet c1) p) = 0" "cfpid (pkt (cnet c1) p) = a"
    using can1_frame_starts [OF d(2) _ assms(3,4), of p i] d(3) by auto
  let ?w = "on_net (\<lambda>s. s\<lparr>now := t\<rparr>) c1"
  have w: "can_list 1 M [p] ?w" using c1(2) by simp
  have ex: "pbuf_expired (cnet ?w) p" using assms(10) c1(3) pkt_now [of t c1 p] by (simp add: pbuf_expired_def) (simp add: on_net_def)
  have no: "find (pbuf_match b CFP_ID_CONN_MASK (cnet ?w)) [p] = None" using c1(4) assms(7) by simp
  obtain q e where e: "can_bind_frame CFP_ID_CONN_MASK True i b ?w = Some (Inr q, e)" "can_list 1 M [q] e" "cfpid (pkt (cnet e) q) = b"
    using bind_new [OF w calm(2) no, of i] ex by auto
  obtain c2 where c2: "can1_frame i b cs q e = Some (CSP_ERR_NONE, c2)" "can_list 1 M [q] c2" "cfpid (pkt (cnet c2) q) = b"
    using can1_frame_starts [OF e(2) _ assms(5,6), of q i] e(3) by auto
  have "CFP_TYPE a' \<noteq> CFP_BEGIN" using assms(9) by (simp add: CFP_BEGIN_def CFP_MORE_def)
  moreover have "find (pbuf_match a' CFP_ID_CONN_MASK (cnet c2)) [q] = None" using c2(3) assms(7,8) by simp
  ultimately have "csp_can1_rx i a' bs' c2 = Some (CSP_ERR_INVAL, frame_inc i c2)"
    using pbuf_find_spec [of c2 "[q]" a' CFP_ID_CONN_MASK] c2(2) by (simp add: csp_can1_rx_def can_bind_frame_def can_list_def)
  moreover have "csp_can1_rx i a bs c = Some (CSP_ERR_NONE, c1)" "csp_can1_rx i b cs ?w = Some (CSP_ERR_NONE, c2)"
    using d(1) c1(1) e(1) c2(1) assms(3,5) by (simp_all add: csp_can1_rx_def)
  moreover have "pbufs c1 = Some p" using c1(2) by (simp add: can_list_def)
  ultimately show ?thesis using rx [OF assms(1)] rx [OF w] rx [OF c2(2)] c2(2,3) by auto
qed

theorem csp_can1_interleaved_lost_witness:
  "\<exists>c1 c2 c3. csp_can_rx 1 0x02080C07 [0, 0, 0, 0, 0, 20, 1, 2] (can_ex\<lparr>cnet := node_ex\<lparr>conf_version := 1\<rparr>\<rparr>) = Some (CSP_ERR_NONE, c1) \<and>
     csp_can_rx 1 0x03080C07 [0, 0, 0, 0, 0, 20, 1, 2] (on_net (\<lambda>s. s\<lparr>now := 5000\<rparr>) c1) = Some (CSP_ERR_NONE, c2) \<and>
     csp_can_rx 1 0x020C0807 [3, 4, 5, 6, 7, 8, 9, 10] c2 = Some (CSP_ERR_INVAL, c3)"
proof -
  let ?c = "can_ex\<lparr>cnet := node_ex\<lparr>conf_version := 1\<rparr>\<rparr>" and ?bs = "[0, 0, 0, 0, 0, 20, 1, 2] :: byte list"
  have "acct {#0#} (node_ex\<lparr>conf_version := 1\<rparr>)"
    using node_ex_acct acct_same_store [of node_ex "node_ex\<lparr>conf_version := 1\<rparr>" "{#0#}"] by (simp add: same_store_def)
  then have l: "can_list 1 {#0#} [] ?c" by (simp add: can_list_def can_ex_def)
  have f: "free_list (cnet ?c) \<noteq> []" using node_ex_free by simp
  have bs: "can1_starts ?bs" by (simp add: can1_starts_def be16_dec_def csp_config_defs)
  have t: "PBUF_TIMEOUT_MS < 5000" by (simp add: PBUF_TIMEOUT_MS_def)
  have "CFP_TYPE 0x02080C07 = CFP_BEGIN" "CFP_TYPE 0x03080C07 = CFP_BEGIN" "CFP_TYPE 0x020C0807 = CFP_MORE"
    "0x02080C07 AND CFP_ID_CONN_MASK \<noteq> 0x03080C07 AND CFP_ID_CONN_MASK" "0x020C0807 AND CFP_ID_CONN_MASK = 0x02080C07 AND CFP_ID_CONN_MASK"
    by (simp_all add: cfp1_defs)
  from csp_can1_interleaved_lost [OF l f this(1) bs this(2) bs this(4,5,3) t, of 1 "[3, 4, 5, 6, 7, 8, 9, 10]"] show ?thesis by blast
qed

text \<open>How many frames a packet needs in CFP 1, and what the first one says of it.\<close>

lemma can1_remain: "CFP_REMAIN (can1_id d dest ident ty n) = of_nat n AND 0xFF"
proof -
  define w :: u32 where "w = of_nat n"
  have m: "(0xFF :: u32) = mask 8" "(0x1F :: u32) = mask 5" "(0x3FF :: u32) = mask 10" "(1 :: u32) = mask 1" by (simp_all add: mask_eq_exp_minus_1)
  have b: "bit (CFP_REMAIN (can1_id d dest ident ty n)) k = bit (w AND 0xFF) k" if "k < 32" for k
    unfolding CFP_REMAIN_def can1_id_def w_def [symmetric] CFP_MAKE_SRC_def CFP_MAKE_DST_def CFP_MAKE_ID_def CFP_MAKE_TYPE_def CFP_MAKE_REMAIN_def m
    by (cases "k < 8") (simp_all add: bit_simps)
  show ?thesis unfolding w_def [symmetric] by (rule bit_word_eqI) (use b in simp)
qed

lemma can1_tx_loop_count:
  assumes "\<And>n. tx_func n = CSP_ERR_NONE"
  shows "\<exists>fs. can1_tx_loop tx_func i d dest ident bs tx_count c = (CSP_ERR_NONE, c\<lparr>sent := sent c @ fs\<rparr>) \<and> length fs = (length bs - tx_count + 7) div 8"
proof (induction "length bs - tx_count" arbitrary: tx_count c rule: less_induct)
  case less
  show ?case
  proof (cases "tx_count < length bs")
    case True
    define b where "b = (if length bs - tx_count \<ge> CAN_FRAME_SIZE then CAN_FRAME_SIZE else length bs - tx_count)"
    define f where "f = (can1_id d dest ident CFP_MORE ((length bs - tx_count - b + CAN_FRAME_SIZE - 1) div CAN_FRAME_SIZE), mread tx_count b bs)"
    define e where "e = c\<lparr>sent := sent c @ [f]\<rparr>"
    have b: "length bs - (tx_count + b) < length bs - tx_count" "(length bs - (tx_count + b) + 7) div 8 + 1 = (length bs - tx_count + 7) div 8"
      using True by (auto simp: b_def CAN_FRAME_SIZE_def)
    have step: "can1_tx_loop tx_func i d dest ident bs tx_count c = can1_tx_loop tx_func i d dest ident bs (tx_count + b) e"
      using True assms by (subst can1_tx_loop.simps) (simp add: can_tx_def e_def f_def b_def [symmetric] Let_def)
    obtain fs where "can1_tx_loop tx_func i d dest ident bs (tx_count + b) e = (CSP_ERR_NONE, e\<lparr>sent := sent e @ fs\<rparr>)"
      "length fs = (length bs - (tx_count + b) + 7) div 8"
      using less [OF b(1)] by blast
    then show ?thesis using step b(2) by (intro exI [of _ "f # fs"]) (simp add: e_def)
  next
    case False
    then show ?thesis by (subst can1_tx_loop.simps) simp
  qed
qed

lemma unat_low_byte: "n < 2 ^ 32 \<Longrightarrow> unat (of_nat n AND 0xFF :: u32) = n mod 256"
proof -
  assume "n < 2 ^ 32"
  then have u: "unat (of_nat n :: u32) = n" by (subst unat_of_nat) simp
  have m: "(0xFF :: u32) = mask 8" by (simp add: mask_eq_exp_minus_1)
  show "unat (of_nat n AND 0xFF :: u32) = n mod 256"
    unfolding m take_bit_eq_mask [symmetric] unsigned_take_bit_eq u by (simp add: take_bit_eq_mod)
qed

text \<open>The number of frames in CFP 1. A packet of \<open>n\<close> bytes goes out as \<open>(n + 5) div 8 + 1\<close> frames. The first frame announces how many follow in a field of eight
  bits: it says so exactly for packets of up to 2042 bytes; for the longer ones, up to the size of a buffer, it says that none follows.\<close>

theorem csp_can1_remain_bound:
  assumes "acct (add_mset h N) (cnet s)" "dst (pid (pkt (cnet s) h)) \<noteq> if_addr (iface (cnet s) j)" "\<And>n. tx_func n = CSP_ERR_NONE"
  defines "n \<equiv> unat (plength (pkt (cnet s) h))"
  shows "\<exists>s' f fs. csp_can1_tx tx_func j via h s = (CSP_ERR_NONE, s') \<and> sent s' = sent s @ f # fs \<and> length fs = (n + 5) div 8 \<and>
    unat (CFP_REMAIN (fst f)) = (if n \<le> 2042 then length fs else 0)"
proof -
  define k where "k = csp_id_prepend (conf_version (cnet s)) (pkt (cnet s) h)"
  have h: "h < length (bufs (cnet s))" "packet_wf (pkt (cnet s) h)" using held_allocated [OF assms(1), of h] by simp_all
  have k: "plength k = plength (pkt (cnet s) h)" "pid k = pid (pkt (cnet s) h)" "length (pdata k) = n"
    using pdata_prepend [OF h(2), of "conf_version (cnet s)"] h(2)
    by (simp_all add: k_def n_def csp_id_prepend_def csp_id1_prepend_def csp_id2_prepend_def)
  let ?dest = "if via \<noteq> CSP_NO_VIA_ADDRESS then ucast via else ucast (dst (pid k)) :: u8"
  let ?b = "if n \<le> 2 then n else 2"
  define c1 where "c1 = upd_pbuf h (csp_id_prepend (conf_version (cnet s))) (s\<lparr>cfp_packet_counter := cfp_packet_counter s + 1\<rparr>)"
  have p1: "pkt (cnet c1) h = k" using h(1) by (simp add: c1_def upd_pbuf_def on_net_def k_def)
  define f where "f = (can1_id (pid k) ?dest (cfp_packet_counter s) CFP_BEGIN ((n + 6 - 1) div CAN_FRAME_SIZE),
    mread (frame_begin k) 4 (pmem k) @ be16_enc (plength k) @ mread (data_at 0) ?b (pmem k))"
  define c2 where "c2 = c1\<lparr>sent := sent c1 @ [f]\<rparr>"
  obtain fs where fs: "can1_tx_loop tx_func j (pid k) ?dest (cfp_packet_counter s) (pdata k) ?b c2 = (CSP_ERR_NONE, c2\<lparr>sent := sent c2 @ fs\<rparr>)"
    "length fs = (length (pdata k) - ?b + 7) div 8"
    using can1_tx_loop_count [where tx_func = tx_func, OF assms(3)] by blast
  have tx: "can_tx tx_func (fst f) (snd f) c1 = (CSP_ERR_NONE, c2)" using assms(3) by (simp add: can_tx_def c2_def)
  have run: "csp_can1_tx tx_func j via h s = (CSP_ERR_NONE, on_net (csp_buffer_free (Some h)) (c2\<lparr>sent := sent c2 @ fs\<rparr>))"
  proof -
    have cv: "conf_version (cnet (s\<lparr>cfp_packet_counter := cfp_packet_counter s + 1\<rparr>)) = conf_version (cnet s)" by simp
    have pl: "unat (plength k) = n" "unat (plength (pkt (cnet s) h)) = n" by (simp_all add: n_def k(1))
    have "csp_can1_tx tx_func j via h s = (case can_tx tx_func (fst f) (snd f) c1 of (e, c) \<Rightarrow> if e \<noteq> CSP_ERR_NONE then (CSP_ERR_DRIVER, can_tx_error_inc j c)
        else case can1_tx_loop tx_func j (pid k) ?dest (cfp_packet_counter s) (pdata k) ?b c of (e, c) \<Rightarrow>
          if e \<noteq> CSP_ERR_NONE then (e, c) else (CSP_ERR_NONE, on_net (csp_buffer_free (Some h)) c))"
      unfolding csp_can1_tx_def Let_def cv c1_def [symmetric] p1 pl f_def fst_conv snd_conv using assms(2) by (simp only: k(2) if_False)
    then show ?thesis by (simp add: tx fs(1))
  qed
  have c2: "sent c2 = sent s @ [f]" by (simp add: c2_def c1_def upd_pbuf_def on_net_def)
  have len: "length fs = (n + 5) div 8" using fs(2) k(3) by (auto simp: not_le)
  have "n \<le> 2048" using h(2) by (simp add: packet_wf_def n_def csp_config_defs)
  then have m: "(n + 5) div 8 \<le> 256" "n \<le> 2042 \<longleftrightarrow> (n + 5) div 8 < 256" by auto
  have "unat (CFP_REMAIN (fst f)) = unat (of_nat ((n + 5) div 8) AND 0xFF :: u32)" by (simp add: f_def can1_remain CAN_FRAME_SIZE_def add.commute)
  also have "\<dots> = (n + 5) div 8 mod 256" by (rule unat_low_byte) (use m in simp)
  also have "\<dots> = (if n \<le> 2042 then length fs else 0)" using m by (auto simp: len)
  finally have "unat (CFP_REMAIN (fst f)) = (if n \<le> 2042 then length fs else 0)" .
  moreover have "sent (on_net (csp_buffer_free (Some h)) (c2\<lparr>sent := sent c2 @ fs\<rparr>)) = sent s @ f # fs" using c2 by (simp add: on_net_def)
  ultimately show ?thesis using run len by blast
qed

theorem csp_can1_remain_bound_witness:
  "\<exists>s' f. csp_can1_tx (\<lambda>_. CSP_ERR_NONE) 1 CSP_NO_VIA_ADDRESS 0 can_ex = (CSP_ERR_NONE, s') \<and> sent s' = [f] \<and> CFP_REMAIN (fst f) = 0"
proof -
  have a: "acct (add_mset 0 {#}) (cnet can_ex)" using node_ex_acct by (simp add: can_ex_def)
  have d: "dst (pid (pkt (cnet can_ex) 0)) \<noteq> if_addr (iface (cnet can_ex) 1)" "plength (pkt (cnet can_ex) 0) = 0" "sent can_ex = []"
    by (simp_all add: can_ex_def node_ex_def pkt_def packet0_def csp_id_clear_def iface_def iflist_ex_def iface_ex_def)
  from csp_can1_remain_bound [where tx_func = "\<lambda>_. CSP_ERR_NONE", OF a d(1) refl, of CSP_NO_VIA_ADDRESS] d show ?thesis by (auto simp: unat_eq_0)
qed

end
