(* ===== verification/Csp_Service.thy ===== *)
theory Csp_Service
  imports Csp_Node
begin

text \<open>
  The services every node offers on ports 0 to 6, \<open>src/csp_service_handler.c\<close>, with the message layout
  of \<open>include/csp/csp_cmp.h\<close> and the hooks of \<open>src/arch/posix\<close> (\<open>csp_system.c\<close>, \<open>csp_clock.c\<close>, \<open>csp_time.c\<close>).

  The record \<open>service\<close> is the stack together with what the handler reads and changes outside of it: the
  configured names, the date and time of the build, the system's clocks and free memory, the memory that
  peek and poke address, and the interrupt counters, which only drivers count. A request to restart or to
  halt the machine is recorded in \<open>halts\<close>; the call may return, since it needs the right to do so. The machine is
  little-endian, as the board is: \<open>htobe32\<close> in place reverses the bytes of a field.
\<close>

section \<open>Constants\<close>

definition CSP_CMP :: u8 where "CSP_CMP = 0"
definition CSP_PING :: u8 where "CSP_PING = 1"
definition CSP_PS :: u8 where "CSP_PS = 2"
definition CSP_MEMFREE :: u8 where "CSP_MEMFREE = 3"
definition CSP_REBOOT :: u8 where "CSP_REBOOT = 4"
definition CSP_BUF_FREE :: u8 where "CSP_BUF_FREE = 5"
definition CSP_UPTIME :: u8 where "CSP_UPTIME = 6"

definition CSP_REBOOT_MAGIC :: u32 where "CSP_REBOOT_MAGIC = 0x80078007"
definition CSP_REBOOT_SHUTDOWN_MAGIC :: u32 where "CSP_REBOOT_SHUTDOWN_MAGIC = 0xD1E5529A"

definition CSP_CMP_REQUEST :: u8 where "CSP_CMP_REQUEST = 0x00"
definition CSP_CMP_REPLY :: u8 where "CSP_CMP_REPLY = 0xff"

definition CSP_CMP_IDENT :: u8 where "CSP_CMP_IDENT = 1"
definition CSP_CMP_ROUTE_SET_V1 :: u8 where "CSP_CMP_ROUTE_SET_V1 = 2"
definition CSP_CMP_IF_STATS :: u8 where "CSP_CMP_IF_STATS = 3"
definition CSP_CMP_PEEK :: u8 where "CSP_CMP_PEEK = 4"
definition CSP_CMP_POKE :: u8 where "CSP_CMP_POKE = 5"
definition CSP_CMP_CLOCK :: u8 where "CSP_CMP_CLOCK = 6"
definition CSP_CMP_ROUTE_SET_V2 :: u8 where "CSP_CMP_ROUTE_SET_V2 = 7"

definition CSP_HOSTNAME_LEN :: nat where "CSP_HOSTNAME_LEN = 20"
definition CSP_MODEL_LEN :: nat where "CSP_MODEL_LEN = 30"
definition CSP_CMP_IDENT_REV_LEN :: nat where "CSP_CMP_IDENT_REV_LEN = 20"
definition CSP_CMP_IDENT_DATE_LEN :: nat where "CSP_CMP_IDENT_DATE_LEN = 12"
definition CSP_CMP_IDENT_TIME_LEN :: nat where "CSP_CMP_IDENT_TIME_LEN = 9"
definition CSP_CMP_ROUTE_IFACE_LEN :: nat where "CSP_CMP_ROUTE_IFACE_LEN = 11"
definition CSP_CMP_PEEK_MAX_LEN :: u8 where "CSP_CMP_PEEK_MAX_LEN = 200"
definition CSP_CMP_POKE_MAX_LEN :: u8 where "CSP_CMP_POKE_MAX_LEN = 200"

text \<open>\<open>CMP_SIZE\<close> of the members. The structure \<open>route_set_v2\<close> is not packed and has a byte of padding.\<close>

definition CMP_SIZE_ident :: u16 where "CMP_SIZE_ident = 93"
definition CMP_SIZE_route_set_v1 :: u16 where "CMP_SIZE_route_set_v1 = 15"
definition CMP_SIZE_route_set_v2 :: u16 where "CMP_SIZE_route_set_v2 = 20"
definition CMP_SIZE_if_stats :: u16 where "CMP_SIZE_if_stats = 53"

definition CSP_DBG_ERR_CLOCK_SET_FAIL :: u8 where "CSP_DBG_ERR_CLOCK_SET_FAIL = 12"

lemmas csp_service_defs = CSP_CMP_def CSP_PING_def CSP_PS_def CSP_MEMFREE_def CSP_REBOOT_def CSP_BUF_FREE_def
  CSP_UPTIME_def CSP_REBOOT_MAGIC_def CSP_REBOOT_SHUTDOWN_MAGIC_def CSP_CMP_REQUEST_def CSP_CMP_REPLY_def
lemmas csp_cmp_code_defs = CSP_CMP_IDENT_def CSP_CMP_ROUTE_SET_V1_def CSP_CMP_IF_STATS_def CSP_CMP_PEEK_def
  CSP_CMP_POKE_def CSP_CMP_CLOCK_def CSP_CMP_ROUTE_SET_V2_def
lemmas csp_cmp_len_defs = CSP_HOSTNAME_LEN_def CSP_MODEL_LEN_def CSP_CMP_IDENT_REV_LEN_def
  CSP_CMP_IDENT_DATE_LEN_def CSP_CMP_IDENT_TIME_LEN_def CSP_CMP_ROUTE_IFACE_LEN_def CSP_CMP_PEEK_MAX_LEN_def
  CSP_CMP_POKE_MAX_LEN_def CMP_SIZE_ident_def CMP_SIZE_route_set_v1_def CMP_SIZE_route_set_v2_def CMP_SIZE_if_stats_def

section \<open>State\<close>

datatype halt = Reboot | Shutdown

record service =
  stack :: csp_state
  conf_hostname :: "byte list"
  conf_model :: "byte list"
  conf_revision :: "byte list"
  build_date :: "byte list"
  build_time :: "byte list"
  if_irq :: "nat \<Rightarrow> u32"
  memory :: "u64 \<Rightarrow> byte"
  realtime :: "(u64 \<times> u64) option"
  clock_settime :: "u64 \<times> u64 \<Rightarrow> bool"
  monotonic :: "u64 option"
  freeram :: u64
  mem_unit :: u32
  halts :: "halt list"

definition upd_stack :: "(csp_state \<Rightarrow> csp_state) \<Rightarrow> service \<Rightarrow> service" where
  "upd_stack f v = v\<lparr>stack := f (stack v)\<rparr>"

text \<open>Reading and writing a field of the message in the packet's data, and its length.\<close>

definition cmp_get :: "nat \<Rightarrow> nat \<Rightarrow> nat \<Rightarrow> service \<Rightarrow> byte list" where
  "cmp_get h off n v = mread (data_at off) n (pmem (pkt (stack v) h))"

definition cmp_put :: "nat \<Rightarrow> nat \<Rightarrow> byte list \<Rightarrow> service \<Rightarrow> service" where
  "cmp_put h off bs =
     upd_stack (\<lambda>s. set_pkt h ((pkt s h)\<lparr>pmem := mwrite (data_at off) bs (pmem (pkt s h))\<rparr>) s)"

definition set_length :: "nat \<Rightarrow> u16 \<Rightarrow> service \<Rightarrow> service" where
  "set_length h n = upd_stack (\<lambda>s. set_pkt h ((pkt s h)\<lparr>plength := n\<rparr>) s)"

text \<open>The string at a pointer, and \<open>strncpy\<close> followed by a zero in the last byte.\<close>

definition c_string :: "byte list \<Rightarrow> string" where
  "c_string bs = map (\<lambda>b. char_of (unat b)) (takeWhile (\<lambda>b. b \<noteq> 0) bs)"

definition strncpy_z :: "byte list \<Rightarrow> nat \<Rightarrow> byte list" where
  "strncpy_z str n = (take n (str @ replicate n 0))[n - 1 := 0]"

section \<open>Hooks\<close>

definition csp_memfree_hook :: "service \<Rightarrow> u32" where
  "csp_memfree_hook v = ucast (freeram v * ucast (mem_unit v))"

definition csp_ps_hook :: "service \<Rightarrow> u16" where
  "csp_ps_hook v = 0"

definition csp_reboot_hook :: "service \<Rightarrow> service" where
  "csp_reboot_hook v = v\<lparr>halts := halts v @ [Reboot]\<rparr>"

definition csp_shutdown_hook :: "service \<Rightarrow> service" where
  "csp_shutdown_hook v = v\<lparr>halts := halts v @ [Shutdown]\<rparr>"

definition csp_get_s :: "service \<Rightarrow> u32" where
  "csp_get_s v = (case monotonic v of Some sec \<Rightarrow> ucast sec | None \<Rightarrow> 0)"

definition csp_clock_get_time :: "service \<Rightarrow> u32 \<times> u32" where
  "csp_clock_get_time v = (case realtime v of Some (sec, nsec) \<Rightarrow> (ucast sec, ucast nsec) | None \<Rightarrow> (0, 0))"

definition csp_clock_set_time :: "u32 \<times> u32 \<Rightarrow> service \<Rightarrow> int \<times> service" where
  "csp_clock_set_time t v =
     (let ts = (ucast (fst t), ucast (snd t))
      in if clock_settime v ts then (CSP_ERR_NONE, v\<lparr>realtime := Some ts\<rparr>) else (CSP_ERR_INVAL, v))"

section \<open>Management protocol\<close>

definition do_cmp_ident :: "nat \<Rightarrow> service \<Rightarrow> int \<times> service" where
  "do_cmp_ident h v =
     (let v = cmp_put h 52 (strncpy_z (conf_revision v) CSP_CMP_IDENT_REV_LEN) v;
          v = cmp_put h 72 (strncpy_z (build_date v) CSP_CMP_IDENT_DATE_LEN) v;
          v = cmp_put h 84 (strncpy_z (build_time v) CSP_CMP_IDENT_TIME_LEN) v;
          v = cmp_put h 2 (strncpy_z (conf_hostname v) CSP_HOSTNAME_LEN) v;
          v = cmp_put h 22 (strncpy_z (conf_model v) CSP_MODEL_LEN) v
      in (CSP_ERR_NONE, v))"

text \<open>\<open>csp_rtable_set\<close> on the table of the stack; a write behind the full table is recorded as fault.\<close>

definition stack_rtable_set :: "u16 \<Rightarrow> int \<Rightarrow> nat \<Rightarrow> u16 \<Rightarrow> csp_state \<Rightarrow> int \<times> csp_state" where
  "stack_rtable_set address netmask i via s =
     (case csp_rtable_set (conf_version s) (rtab s) address netmask (Some i) via of
        None \<Rightarrow> (CSP_ERR_NONE, s\<lparr>fault := True\<rparr>)
      | Some (e, t, errno) \<Rightarrow>
          (e, if errno then set_errno CSP_DBG_ERR_INVALID_RTABLE_ENTRY s else s\<lparr>rtab := t\<rparr>))"

definition cmp_route_set :: "u16 \<Rightarrow> int \<Rightarrow> string \<Rightarrow> u16 \<Rightarrow> service \<Rightarrow> int \<times> service" where
  "cmp_route_set address netmask name via v =
     (case csp_iflist_get_by_name (iflist (stack v)) name of
        None \<Rightarrow> (CSP_ERR_INVAL, v)
      | Some i \<Rightarrow>
          (case stack_rtable_set address netmask i via (stack v) of
             (e, s) \<Rightarrow> (if e \<noteq> CSP_ERR_NONE then CSP_ERR_INVAL else CSP_ERR_NONE, v\<lparr>stack := s\<rparr>)))"

definition do_cmp_route_set_v1 :: "nat \<Rightarrow> service \<Rightarrow> int \<times> service" where
  "do_cmp_route_set_v1 h v =
     cmp_route_set (ucast (cmp_get h 2 1 v ! 0)) (int (csp_id_get_host_bits (conf_version (stack v))))
       (c_string (cmp_get h 4 CSP_CMP_ROUTE_IFACE_LEN v)) (ucast (cmp_get h 3 1 v ! 0)) v"

definition do_cmp_route_set_v2 :: "nat \<Rightarrow> service \<Rightarrow> int \<times> service" where
  "do_cmp_route_set_v2 h v =
     cmp_route_set (be16_dec (cmp_get h 2 2 v)) (uint (be16_dec (cmp_get h 6 2 v)))
       (c_string (cmp_get h 8 CSP_CMP_ROUTE_IFACE_LEN v)) (be16_dec (cmp_get h 4 2 v)) v"

definition do_cmp_if_stats :: "nat \<Rightarrow> service \<Rightarrow> int \<times> service" where
  "do_cmp_if_stats h v =
     (case csp_iflist_get_by_name (iflist (stack v)) (c_string (cmp_get h 2 CSP_CMP_ROUTE_IFACE_LEN v)) of
        None \<Rightarrow> (CSP_ERR_INVAL, v)
      | Some i \<Rightarrow>
          let ifc = iface (stack v) i;
              v = cmp_put h 13 (be32_enc (if_tx ifc)) v;
              v = cmp_put h 17 (be32_enc (if_rx ifc)) v;
              v = cmp_put h 21 (be32_enc (tx_error ifc)) v;
              v = cmp_put h 25 (be32_enc (rx_error ifc)) v;
              v = cmp_put h 29 (be32_enc (if_drop ifc)) v;
              v = cmp_put h 33 (be32_enc (autherr ifc)) v;
              v = cmp_put h 37 (be32_enc (if_frame ifc)) v;
              v = cmp_put h 41 (be32_enc (txbytes ifc)) v;
              v = cmp_put h 45 (be32_enc (rxbytes ifc)) v;
              v = cmp_put h 49 (be32_enc (if_irq v i)) v
          in (CSP_ERR_NONE, v))"

text \<open>The address is swapped in place and stays so in the reply.\<close>

definition do_cmp_peek :: "nat \<Rightarrow> service \<Rightarrow> int \<times> service" where
  "do_cmp_peek h v =
     (let addr = be32_dec (cmp_get h 2 4 v);
          len = cmp_get h 6 1 v ! 0;
          v = cmp_put h 2 (rev (cmp_get h 2 4 v)) v
      in if len > CSP_CMP_PEEK_MAX_LEN then (CSP_ERR_INVAL, v)
         else (CSP_ERR_NONE, cmp_put h 7 (map (\<lambda>i. memory v (ucast addr + of_nat i)) [0..<unat len]) v))"

definition do_cmp_poke :: "nat \<Rightarrow> service \<Rightarrow> int \<times> service" where
  "do_cmp_poke h v =
     (let addr = be32_dec (cmp_get h 2 4 v);
          len = cmp_get h 6 1 v ! 0;
          v = cmp_put h 2 (rev (cmp_get h 2 4 v)) v
      in if len > CSP_CMP_POKE_MAX_LEN then (CSP_ERR_INVAL, v)
         else (CSP_ERR_NONE, v\<lparr>memory := (\<lambda>a. if unat (a - ucast addr) < unat len
                then cmp_get h 7 (unat len) v ! unat (a - ucast addr) else memory v a)\<rparr>))"

definition do_cmp_clock :: "nat \<Rightarrow> service \<Rightarrow> int \<times> service" where
  "do_cmp_clock h v =
     (let t = (be32_dec (cmp_get h 2 4 v), be32_dec (cmp_get h 6 4 v));
          (res, v) = (if fst t \<noteq> 0
             then (case csp_clock_set_time t v of
                     (res, v) \<Rightarrow>
                       (res, if res \<noteq> CSP_ERR_NONE then upd_stack (set_errno CSP_DBG_ERR_CLOCK_SET_FAIL) v else v))
             else (CSP_ERR_NONE, v));
          t = csp_clock_get_time v;
          v = cmp_put h 2 (be32_enc (fst t)) v;
          v = cmp_put h 6 (be32_enc (snd t)) v
      in (res, v))"

text \<open>The length is set whatever the result of the request; an error drops the packet.\<close>

definition cmp_switch :: "u8 \<Rightarrow> nat \<Rightarrow> service \<Rightarrow> int \<times> service" where
  "cmp_switch code h v =
     (if code = CSP_CMP_IDENT then map_prod id (set_length h CMP_SIZE_ident) (do_cmp_ident h v)
      else if code = CSP_CMP_ROUTE_SET_V1 then map_prod id (set_length h CMP_SIZE_route_set_v1) (do_cmp_route_set_v1 h v)
      else if code = CSP_CMP_ROUTE_SET_V2 then map_prod id (set_length h CMP_SIZE_route_set_v2) (do_cmp_route_set_v2 h v)
      else if code = CSP_CMP_IF_STATS then map_prod id (set_length h CMP_SIZE_if_stats) (do_cmp_if_stats h v)
      else if code = CSP_CMP_PEEK then do_cmp_peek h v
      else if code = CSP_CMP_POKE then do_cmp_poke h v
      else if code = CSP_CMP_CLOCK then do_cmp_clock h v
      else (CSP_ERR_INVAL, v))"

definition csp_cmp_handler :: "nat \<Rightarrow> service \<Rightarrow> int \<times> service" where
  "csp_cmp_handler h v =
     (if cmp_get h 0 1 v ! 0 \<noteq> CSP_CMP_REQUEST then (CSP_ERR_INVAL, v)
      else map_prod id (cmp_put h 0 [CSP_CMP_REPLY]) (cmp_switch (cmp_get h 1 1 v ! 0) h v))"

section \<open>The handler\<close>

definition service_free :: "nat \<Rightarrow> service \<Rightarrow> service" where
  "service_free h = upd_stack (csp_buffer_free (Some h))"

definition service_reply :: "nat \<Rightarrow> service \<Rightarrow> service" where
  "service_reply h = upd_stack (csp_sendto_reply (Some h) h CSP_SO_SAME)"

text \<open>\<open>memcpy (packet->data, &x, sizeof (x)); packet->length = sizeof (x)\<close> for a word in network byte order.\<close>

definition answer_word :: "nat \<Rightarrow> u32 \<Rightarrow> service \<Rightarrow> service" where
  "answer_word h w v = set_length h 4 (cmp_put h 0 (be32_enc w) v)"

definition csp_service_handler :: "nat \<Rightarrow> service \<Rightarrow> service" where
  "csp_service_handler h v =
     (let port = dport (pid (pkt (stack v) h))
      in if port = CSP_CMP
         then (case csp_cmp_handler h v of
                 (ret, v) \<Rightarrow> if ret \<noteq> CSP_ERR_NONE then service_free h v else service_reply h v)
         else if port = CSP_PING then service_reply h v
         else if port = CSP_PS
         then (let v = set_length h (csp_ps_hook v) v;
                   v = (if plength (pkt (stack v) h) = 0 then service_free h v else v)
               in service_reply h v)
         else if port = CSP_MEMFREE then service_reply h (answer_word h (csp_memfree_hook v) v)
         else if port = CSP_REBOOT
         then (let magic_word = be32_dec (cmp_get h 0 4 v);
                   v = (if magic_word = CSP_REBOOT_MAGIC then csp_reboot_hook v
                        else if magic_word = CSP_REBOOT_SHUTDOWN_MAGIC then csp_shutdown_hook v else v)
               in service_free h v)
         else if port = CSP_BUF_FREE
         then service_reply h (answer_word h (of_nat (csp_buffer_remaining (stack v))) v)
         else if port = CSP_UPTIME then service_reply h (answer_word h (csp_get_s v) v)
         else service_free h v)"

section \<open>Accounting\<close>

text \<open>The handler works on a packet it holds; every write stays within its data.\<close>

definition service_ok :: "nat \<Rightarrow> nat multiset \<Rightarrow> service \<Rightarrow> bool" where
  "service_ok h M v \<longleftrightarrow> node_ok (add_mset h M) (stack v)"

lemma service_ok_wf:
  "service_ok h M v \<Longrightarrow> packet_wf (pkt (stack v) h)" "service_ok h M v \<Longrightarrow> h < length (bufs (stack v))"
  using held_allocated [of "add_mset h M" "stack v" h] node_okD [of "add_mset h M" "stack v"]
  by (simp_all add: service_ok_def)

lemma service_ok_fields [simp]:
  "service_ok h M (upd_stack (set_errno e) v) = service_ok h M v" "service_ok h M (v\<lparr>memory := m\<rparr>) = service_ok h M v"
  "service_ok h M (v\<lparr>realtime := r\<rparr>) = service_ok h M v" "service_ok h M (v\<lparr>halts := xs\<rparr>) = service_ok h M v"
  by (simp_all add: service_ok_def upd_stack_def)

lemma service_ok_put [intro]:
  assumes "service_ok h M v" "off + length bs \<le> CSP_BUFFER_SIZE"
  shows "service_ok h M (cmp_put h off bs v)"
  using service_ok_wf(1) [OF assms(1)] assms
  by (auto simp: service_ok_def cmp_put_def upd_stack_def packet_wf_def data_at_def intro!: node_ok_set_pkt)

lemma service_ok_length [intro]:
  assumes "service_ok h M v" "unat n \<le> CSP_BUFFER_SIZE"
  shows "service_ok h M (set_length h n v)"
  using service_ok_wf(1) [OF assms(1)] assms
  by (auto simp: service_ok_def set_length_def upd_stack_def packet_wf_def intro!: node_ok_set_pkt)

lemma length_strncpy_z [simp]: "length (strncpy_z str n) = n"
  by (simp add: strncpy_z_def)

lemma length_cmp_get_le: "length (cmp_get h off n v) \<le> n"
  by (simp add: cmp_get_def)

lemma service_ok_rtab [simp]: "node_ok M (s\<lparr>rtab := t\<rparr>) = node_ok M s"
  by (simp add: node_ok_def stack_ok_def pool_simps)
    (simp add: rx_sized_def pkt_def conn_wf_def conn_def dest_ok_def port_wf_def)

lemma service_ok_route_set: "service_ok h M v \<Longrightarrow> service_ok h M (snd (cmp_route_set a n name via v))"
  by (auto simp: service_ok_def cmp_route_set_def stack_rtable_set_def split: option.splits prod.splits)

lemma service_ok_ident: "service_ok h M v \<Longrightarrow> service_ok h M (snd (do_cmp_ident h v))"
  unfolding do_cmp_ident_def Let_def snd_conv
  by (intro service_ok_put) (simp_all add: csp_cmp_len_defs CSP_BUFFER_SIZE_def)

lemma service_ok_if_stats: "service_ok h M v \<Longrightarrow> service_ok h M (snd (do_cmp_if_stats h v))"
  unfolding do_cmp_if_stats_def Let_def
  by (cases "csp_iflist_get_by_name (iflist (stack v)) (c_string (cmp_get h 2 CSP_CMP_ROUTE_IFACE_LEN v))";
      simp only: option.case snd_conv; intro service_ok_put) (simp_all add: CSP_BUFFER_SIZE_def)

lemma service_ok_swap: "service_ok h M v \<Longrightarrow> service_ok h M (cmp_put h 2 (rev (cmp_get h 2 4 v)) v)"
  using length_cmp_get_le [of h 2 4 v] by (intro service_ok_put) (simp_all add: CSP_BUFFER_SIZE_def)

lemma service_ok_peek: "service_ok h M v \<Longrightarrow> service_ok h M (snd (do_cmp_peek h v))"
  unfolding do_cmp_peek_def Let_def
  by (auto intro!: service_ok_put service_ok_swap simp: CSP_BUFFER_SIZE_def csp_cmp_len_defs word_less_nat_alt)

lemma service_ok_poke: "service_ok h M v \<Longrightarrow> service_ok h M (snd (do_cmp_poke h v))"
  unfolding do_cmp_poke_def Let_def by (auto intro: service_ok_swap)

lemma service_ok_clock: "service_ok h M v \<Longrightarrow> service_ok h M (snd (do_cmp_clock h v))"
  unfolding do_cmp_clock_def Let_def csp_clock_set_time_def
  by (auto intro!: service_ok_put simp: CSP_BUFFER_SIZE_def)

lemma service_ok_cmp: "service_ok h M v \<Longrightarrow> service_ok h M (snd (csp_cmp_handler h v))"
  unfolding csp_cmp_handler_def cmp_switch_def
  by (auto intro!: service_ok_put service_ok_length service_ok_ident service_ok_route_set service_ok_if_stats service_ok_peek
      service_ok_poke service_ok_clock simp: CSP_BUFFER_SIZE_def csp_cmp_len_defs do_cmp_route_set_v1_def do_cmp_route_set_v2_def)

lemma service_ok_release: "service_ok h M v \<Longrightarrow> node_ok M (stack (service_free h v))"
  by (simp add: service_ok_def service_free_def upd_stack_def node_ok_free)


lemma service_ok_reply:
  assumes "service_ok h M v"
  shows "node_ok M (stack (service_reply h v))"
proof -
  have id: "node_ok (add_mset h M) (set_pkt h ((pkt s h)\<lparr>pid := i\<rparr>) s)" if "node_ok (add_mset h M) s" for i s
    using that held_allocated(4) [of "add_mset h M" s h] node_okD [OF that] by (intro node_ok_set_pkt) simp_all
  have "node_ok M (csp_sendto_reply (Some h) h opts s)" if "node_ok (add_mset h M) s" for opts s
    unfolding csp_sendto_reply_def option.case Let_def
    by (rule node_reply [OF id refl]) (use that id in auto)
  then show ?thesis using assms by (simp add: service_reply_def upd_stack_def service_ok_def)
qed

lemma service_ok_word: "service_ok h M v \<Longrightarrow> service_ok h M (answer_word h w v)"
  unfolding answer_word_def by (intro service_ok_length service_ok_put) (simp_all add: CSP_BUFFER_SIZE_def)

section \<open>The data of the packet\<close>

definition msg :: "nat \<Rightarrow> service \<Rightarrow> byte list" where
  "msg h v = mread (data_at 0) CSP_BUFFER_SIZE (pmem (pkt (stack v) h))"

lemma mread_mwrite_shift:
  assumes "a + off + length bs \<le> length m" "off + length bs \<le> n"
  shows "mread a n (mwrite (a + off) bs m) = mwrite off bs (mread a n m)"
  using assms by (cases "n = off") (auto simp: mread_def mwrite_def take_drop min_def ac_simps)

lemma msg_facts:
  assumes "service_ok h M v"
  shows "length (msg h v) = CSP_BUFFER_SIZE" "pdata (pkt (stack v) h) = take (unat (plength (pkt (stack v) h))) (msg h v)"
    "off + n \<le> CSP_BUFFER_SIZE \<Longrightarrow> cmp_get h off n v = mread off n (msg h v)"
  using service_ok_wf(1) [OF assms]
  by (auto simp: msg_def pdata_def packet_wf_def cmp_get_def mread_def data_at_def take_drop min_def add.commute)

lemma msg_put:
  assumes "service_ok h M v" "off + length bs \<le> CSP_BUFFER_SIZE"
  shows "msg h (cmp_put h off bs v) = mwrite off bs (msg h v)"
    "plength (pkt (stack (cmp_put h off bs v)) h) = plength (pkt (stack v) h)"
    "pid (pkt (stack (cmp_put h off bs v)) h) = pid (pkt (stack v) h)"
  using service_ok_wf [OF assms(1)] assms(2) mread_mwrite_shift [of "data_at 0" off bs "pmem (pkt (stack v) h)" CSP_BUFFER_SIZE]
  by (simp_all add: msg_def cmp_put_def upd_stack_def packet_wf_def data_at_def)

lemma msg_length:
  assumes "service_ok h M v"
  shows "msg h (set_length h n v) = msg h v" "plength (pkt (stack (set_length h n v)) h) = n"
    "pid (pkt (stack (set_length h n v)) h) = pid (pkt (stack v) h)"
  using service_ok_wf [OF assms] by (simp_all add: msg_def set_length_def upd_stack_def)

section \<open>What the services answer\<close>

text \<open>The reply to a management request, given the length of the request and the whole data area of its packet.\<close>

definition cmp_reply :: "service \<Rightarrow> nat \<Rightarrow> byte list \<Rightarrow> byte list option" where
  "cmp_reply v n d =
     (let lookup = (\<lambda>off. csp_iflist_get_by_name (iflist (stack v)) (c_string (mread off CSP_CMP_ROUTE_IFACE_LEN d)));
          t = (be32_dec (mread 2 4 d), be32_dec (mread 6 4 d));
          now' = (if fst t = 0 then csp_clock_get_time v else t)
      in if d ! 0 \<noteq> CSP_CMP_REQUEST then None
         else if d ! 1 = CSP_CMP_IDENT
         then Some ([CSP_CMP_REPLY, CSP_CMP_IDENT] @ strncpy_z (conf_hostname v) CSP_HOSTNAME_LEN @
                strncpy_z (conf_model v) CSP_MODEL_LEN @ strncpy_z (conf_revision v) CSP_CMP_IDENT_REV_LEN @
                strncpy_z (build_date v) CSP_CMP_IDENT_DATE_LEN @ strncpy_z (build_time v) CSP_CMP_IDENT_TIME_LEN)
         else if d ! 1 = CSP_CMP_ROUTE_SET_V1
         then (if lookup 4 = None then None else Some (CSP_CMP_REPLY # mread 1 14 d))
         else if d ! 1 = CSP_CMP_ROUTE_SET_V2
         then (if lookup 8 = None then None else Some (CSP_CMP_REPLY # mread 1 19 d))
         else if d ! 1 = CSP_CMP_IF_STATS
         then (case lookup 2 of None \<Rightarrow> None
               | Some i \<Rightarrow> Some ([CSP_CMP_REPLY, CSP_CMP_IF_STATS] @ mread 2 CSP_CMP_ROUTE_IFACE_LEN d @
                   concat (map (\<lambda>f. be32_enc (f (iface (stack v) i)))
                     [if_tx, if_rx, tx_error, rx_error, if_drop, autherr, if_frame, txbytes, rxbytes]) @ be32_enc (if_irq v i)))
         else if d ! 1 = CSP_CMP_PEEK
         then (if d ! 6 > CSP_CMP_PEEK_MAX_LEN then None
               else Some (take n ([CSP_CMP_REPLY, CSP_CMP_PEEK] @ rev (mread 2 4 d) @ [d ! 6] @
                 map (\<lambda>i. memory v (ucast (be32_dec (mread 2 4 d)) + of_nat i)) [0..<unat (d ! 6)] @
                 drop (7 + unat (d ! 6)) d)))
         else if d ! 1 = CSP_CMP_POKE
         then (if d ! 6 > CSP_CMP_POKE_MAX_LEN then None
               else Some (take n ([CSP_CMP_REPLY, CSP_CMP_POKE] @ rev (mread 2 4 d) @ drop 6 d)))
         else if d ! 1 = CSP_CMP_CLOCK
         then (if fst t \<noteq> 0 \<and> \<not> clock_settime v (ucast (fst t), ucast (snd t)) then None
               else Some (take n ([CSP_CMP_REPLY, CSP_CMP_CLOCK] @ be32_enc (fst now') @ be32_enc (snd now') @ drop 10 d)))
         else None)"

text \<open>The reply of the service at a port, \<open>None\<close> if there is none.\<close>

definition service_answer :: "nat \<Rightarrow> service \<Rightarrow> byte list option" where
  "service_answer h v =
     (let p = pkt (stack v) h; port = dport (pid p)
      in if port = CSP_CMP then cmp_reply v (unat (plength p)) (msg h v)
         else if port = CSP_PING then Some (pdata p)
         else if port = CSP_MEMFREE then Some (be32_enc (csp_memfree_hook v))
         else if port = CSP_BUF_FREE then Some (be32_enc (of_nat (csp_buffer_remaining (stack v))))
         else if port = CSP_UPTIME then Some (be32_enc (csp_get_s v))
         else None)"

lemma mwrite_append3:
  assumes "off + length a + length b + length c \<le> length m" "k = off + length a" "l = k + length b"
  shows "mwrite l c (mwrite k b (mwrite off a m)) = mwrite off (a @ b @ c) m"
  using assms mwrite_append(1) [of off a b m k] mwrite_append(1) [of off "a @ b" c m l] by simp

lemma ident_layout:
  assumes "93 \<le> length d" "length a = 20" "length b = 30" "length c = 20" "length e = 12" "length f = 9"
  shows "take 93 (mwrite 0 [r] (mwrite 22 b (mwrite 2 a (mwrite 84 f (mwrite 72 e (mwrite 52 c d)))))) =
    [r, d ! 1] @ a @ b @ c @ e @ f"
proof -
  have 1: "mwrite 84 f (mwrite 72 e (mwrite 52 c d)) = mwrite 52 (c @ e @ f) d"
    by (rule mwrite_append3) (simp_all add: assms)
  have 2: "mwrite 22 b (mwrite 2 a (mwrite 52 (c @ e @ f) d)) = mwrite 2 (a @ b) (mwrite 52 (c @ e @ f) d)"
    by (rule mwrite_append(1)) (use assms in simp_all)
  have 3: "mwrite 2 (a @ b) (mwrite 52 (c @ e @ f) d) = mwrite 2 ((a @ b) @ c @ e @ f) d"
    by (rule mwrite_append(2)) (use assms in simp_all)
  define w where "w = (a @ b) @ c @ e @ f"
  have w: "length w = 91" "[r, d ! 1] @ a @ b @ c @ e @ f = [r, d ! 1] @ w" using assms by (simp_all add: w_def)
  obtain x y d' where "d = x # y # d'" using assms(1) by (cases d rule: remdups_adj.cases) simp_all
  then have "take 93 (mwrite 0 [r] (mwrite 2 w d)) = [r, d ! 1] @ w" using w(1) by (simp add: mwrite_def)
  then show ?thesis unfolding 1 2 3 w(2) w_def .
qed

lemma stats_layout:
  assumes "length d = CSP_BUFFER_SIZE" "length a = 40"
  shows "take 53 (mwrite 0 [r] (mwrite 13 a d)) = [r, d ! 1] @ mread 2 11 d @ a"
proof -
  obtain x y d' where d: "d = x # y # d'" using assms(1) by (cases d rule: remdups_adj.cases) (simp_all add: CSP_BUFFER_SIZE_def)
  then show ?thesis using assms by (simp add: mwrite_def mread_def CSP_BUFFER_SIZE_def)
qed

lemma mwrite_words:
  assumes "off + 4 * length ws \<le> length m"
  shows "fold (\<lambda>(i, w). mwrite (off + 4 * i) (be32_enc w)) (enumerate 0 ws) m = mwrite off (concat (map be32_enc ws)) m"
  using assms
proof (induction ws rule: rev_induct)
  case Nil
  then show ?case by (simp add: mwrite_def)
next
  case (snoc w ws)
  have len: "length (concat (map be32_enc ws)) = 4 * length ws" by (induction ws) simp_all
  have "mwrite (off + 4 * length ws) (be32_enc w) (mwrite off (concat (map be32_enc ws)) m) =
      mwrite off (concat (map be32_enc ws) @ be32_enc w) m"
    by (rule mwrite_append(1)) (use snoc.prems len in simp_all)
  then show ?case using snoc by (simp add: enumerate_append_eq)
qed

text \<open>The state of the packet while the handler works on it.\<close>

definition at_msg :: "nat \<Rightarrow> nat multiset \<Rightarrow> byte list \<Rightarrow> u16 \<Rightarrow> csp_id \<Rightarrow> service \<Rightarrow> bool" where
  "at_msg h M d n i v \<longleftrightarrow> service_ok h M v \<and> msg h v = d \<and> plength (pkt (stack v) h) = n \<and> pid (pkt (stack v) h) = i"

lemma at_msg_put:
  "at_msg h M d n i v \<Longrightarrow> off + length bs \<le> CSP_BUFFER_SIZE \<Longrightarrow> at_msg h M (mwrite off bs d) n i (cmp_put h off bs v)"
  by (auto simp: at_msg_def msg_put)

lemma at_msg_length:
  "at_msg h M d n i v \<Longrightarrow> unat n' \<le> CSP_BUFFER_SIZE \<Longrightarrow> at_msg h M d n' i (set_length h n' v)"
  by (auto simp: at_msg_def msg_length)

lemma at_msg_fields [simp]:
  "at_msg h M d n i (upd_stack (set_errno e) v) = at_msg h M d n i v" "at_msg h M d n i (v\<lparr>memory := m\<rparr>) = at_msg h M d n i v"
  "at_msg h M d n i (v\<lparr>realtime := r\<rparr>) = at_msg h M d n i v"
  by (simp_all add: at_msg_def msg_def) (simp add: upd_stack_def pkt_def set_errno_def)

lemma at_msg_get:
  "at_msg h M d n i v \<Longrightarrow> off + k \<le> CSP_BUFFER_SIZE \<Longrightarrow> cmp_get h off k v = mread off k d"
  by (auto simp: at_msg_def msg_facts(3))

lemma at_msg_byte:
  "at_msg h M d n i v \<Longrightarrow> off < CSP_BUFFER_SIZE \<Longrightarrow> cmp_get h off 1 v ! 0 = d ! off"
  using at_msg_get [of h M d n i v off 1] msg_facts(1) [of h M v] by (auto simp: at_msg_def)

lemma at_msg_pdata: "at_msg h M d n i v \<Longrightarrow> pdata (pkt (stack v) h) = take (unat n) d"
  by (auto simp: at_msg_def msg_facts(2))

lemma cmp_put_fields [simp]:
  "conf_hostname (cmp_put h off bs v) = conf_hostname v" "conf_model (cmp_put h off bs v) = conf_model v"
  "conf_revision (cmp_put h off bs v) = conf_revision v" "build_date (cmp_put h off bs v) = build_date v"
  "build_time (cmp_put h off bs v) = build_time v" "if_irq (cmp_put h off bs v) = if_irq v"
  "memory (cmp_put h off bs v) = memory v" "realtime (cmp_put h off bs v) = realtime v"
  by (simp_all add: cmp_put_def upd_stack_def)

lemma ident_msg:
  assumes "at_msg h M d n i v"
  shows "at_msg h M (mwrite 22 (strncpy_z (conf_model v) CSP_MODEL_LEN) (mwrite 2 (strncpy_z (conf_hostname v) CSP_HOSTNAME_LEN)
      (mwrite 84 (strncpy_z (build_time v) CSP_CMP_IDENT_TIME_LEN) (mwrite 72 (strncpy_z (build_date v) CSP_CMP_IDENT_DATE_LEN)
      (mwrite 52 (strncpy_z (conf_revision v) CSP_CMP_IDENT_REV_LEN) d))))) n i (snd (do_cmp_ident h v))"
  unfolding do_cmp_ident_def Let_def snd_conv cmp_put_fields
  by (intro at_msg_put assms) (simp_all add: csp_cmp_len_defs CSP_BUFFER_SIZE_def)

lemma stats_msg:
  assumes "at_msg h M d n i v" "csp_iflist_get_by_name (iflist (stack v)) (c_string (mread 2 CSP_CMP_ROUTE_IFACE_LEN d)) = Some k"
  defines "f \<equiv> iface (stack v) k"
  shows "at_msg h M (mwrite 13 (concat (map be32_enc [if_tx f, if_rx f, tx_error f, rx_error f, if_drop f, autherr f,
      if_frame f, txbytes f, rxbytes f, if_irq v k])) d) n i (snd (do_cmp_if_stats h v))"
proof -
  have "length d = CSP_BUFFER_SIZE" using assms(1) msg_facts(1) by (auto simp: at_msg_def)
  then have "mwrite 13 (concat (map be32_enc [if_tx f, if_rx f, tx_error f, rx_error f, if_drop f, autherr f,
      if_frame f, txbytes f, rxbytes f, if_irq v k])) d =
     mwrite 49 (be32_enc (if_irq v k)) (mwrite 45 (be32_enc (rxbytes f)) (mwrite 41 (be32_enc (txbytes f))
      (mwrite 37 (be32_enc (if_frame f)) (mwrite 33 (be32_enc (autherr f)) (mwrite 29 (be32_enc (if_drop f))
      (mwrite 25 (be32_enc (rx_error f)) (mwrite 21 (be32_enc (tx_error f)) (mwrite 17 (be32_enc (if_rx f))
      (mwrite 13 (be32_enc (if_tx f)) d)))))))))"
    by (subst mwrite_words [symmetric]) (simp_all add: CSP_BUFFER_SIZE_def)
  moreover have "cmp_get h 2 CSP_CMP_ROUTE_IFACE_LEN v = mread 2 CSP_CMP_ROUTE_IFACE_LEN d"
    by (rule at_msg_get [OF assms(1)]) (simp add: csp_cmp_len_defs CSP_BUFFER_SIZE_def)
  ultimately show ?thesis
    unfolding do_cmp_if_stats_def Let_def using assms(2)
    by (simp only: option.case snd_conv cmp_put_fields f_def [symmetric]) (intro at_msg_put assms(1); simp add: CSP_BUFFER_SIZE_def)
qed

lemma long_list7:
  assumes "7 \<le> length d"
  obtains x y a b c e l d' where "d = x # y # a # b # c # e # l # d'"
  using assms by (auto simp: Suc_le_length_iff eval_nat_numeral)

lemma patch_layout:
  fixes d :: "'a list"
  assumes "10 \<le> length d" "length a = 4"
  shows "mwrite 0 [r] (mwrite 2 a d) = [r, d ! 1] @ a @ drop 6 d"
    "length b = 4 \<Longrightarrow> mwrite 0 [r] (mwrite 6 b (mwrite 2 a d)) = [r, d ! 1] @ a @ b @ drop 10 d"
    "7 + length m \<le> length d \<Longrightarrow> mwrite 0 [r] (mwrite 7 m (mwrite 2 a d)) = [r, d ! 1] @ a @ [d ! 6] @ m @ drop (7 + length m) d"
proof -
  obtain x y a1 a2 a3 a4 l d' where d: "d = x # y # a1 # a2 # a3 # a4 # l # d'"
    by (rule long_list7 [of d]) (use assms(1) in simp)
  have dd: "drop (7 + k) zs = drop k (drop 7 zs)" for k and zs :: "'a list" by (simp add: add.commute)
  show "mwrite 0 [r] (mwrite 2 a d) = [r, d ! 1] @ a @ drop 6 d"
    using assms(2) by (simp add: mwrite_def d)
  show "mwrite 0 [r] (mwrite 6 b (mwrite 2 a d)) = [r, d ! 1] @ a @ b @ drop 10 d" if "length b = 4"
    using assms(2) that by (simp add: mwrite_def d)
  show "mwrite 0 [r] (mwrite 7 m (mwrite 2 a d)) = [r, d ! 1] @ a @ [d ! 6] @ m @ drop (7 + length m) d" if "7 + length m \<le> length d"
    unfolding mwrite_def dd using assms(2) that by (simp add: d)
qed

lemma head_layout:
  assumes "10 \<le> length d"
  shows "take 15 (mwrite 0 [r] d) = r # mread 1 14 d" "take 20 (mwrite 0 [r] d) = r # mread 1 19 d"
  using assms by (cases d; simp add: mwrite_def mread_def)+

lemma route_set_known:
  "fst (cmp_route_set a n name via v) =
     (if csp_iflist_get_by_name (iflist (stack v)) name = None then CSP_ERR_INVAL else CSP_ERR_NONE)"
  by (auto simp: cmp_route_set_def stack_rtable_set_def csp_rtable_set_def csp_rtable_set_internal_def Let_def
      split: option.splits prod.splits if_splits)

lemma route_set_msg: "at_msg h M d n i v \<Longrightarrow> at_msg h M d n i (snd (cmp_route_set a m name via v))"
proof -
  assume a: "at_msg h M d n i v"
  have "bufs (stack (snd (cmp_route_set a m name via v))) = bufs (stack v)"
    by (auto simp: cmp_route_set_def stack_rtable_set_def set_errno_def split: option.splits prod.splits)
  then show ?thesis using a service_ok_route_set [of h M v] by (simp add: at_msg_def msg_def pkt_def)
qed

lemma clock_msg:
  assumes "at_msg h M d n i v"
  defines "t \<equiv> (be32_dec (mread 2 4 d), be32_dec (mread 6 4 d))"
  defines "now' \<equiv> (if fst t = 0 then csp_clock_get_time v else t)"
  shows "fst (do_cmp_clock h v) = (if fst t \<noteq> 0 \<and> \<not> clock_settime v (ucast (fst t), ucast (snd t)) then CSP_ERR_INVAL else CSP_ERR_NONE)"
    "fst (do_cmp_clock h v) = CSP_ERR_NONE \<Longrightarrow>
     at_msg h M (mwrite 6 (be32_enc (snd now')) (mwrite 2 (be32_enc (fst now')) d)) n i (snd (do_cmp_clock h v))"
proof -
  have g: "cmp_get h 2 4 v = mread 2 4 d" "cmp_get h 6 4 v = mread 6 4 d"
    using at_msg_get [OF assms(1)] by (simp_all add: CSP_BUFFER_SIZE_def)
  have ru: "ucast (ucast (w :: u32) :: u64) = w" for w by (rule bit_word_eqI) (simp add: bit_simps)
  show "fst (do_cmp_clock h v) = (if fst t \<noteq> 0 \<and> \<not> clock_settime v (ucast (fst t), ucast (snd t)) then CSP_ERR_INVAL else CSP_ERR_NONE)"
    by (simp add: do_cmp_clock_def Let_def g t_def csp_clock_set_time_def)
  assume ok: "fst (do_cmp_clock h v) = CSP_ERR_NONE"
  show "at_msg h M (mwrite 6 (be32_enc (snd now')) (mwrite 2 (be32_enc (fst now')) d)) n i (snd (do_cmp_clock h v))"
  proof (cases "fst t = 0")
    case True
    then show ?thesis unfolding now'_def using assms(1)
      by (auto simp: do_cmp_clock_def Let_def g t_def CSP_BUFFER_SIZE_def intro!: at_msg_put)
  next
    case False
    then have "clock_settime v (ucast (fst t), ucast (snd t))"
      using ok by (auto simp: do_cmp_clock_def Let_def g t_def csp_clock_set_time_def csp_err_defs split: if_splits)
    then show ?thesis unfolding now'_def using assms(1) False
      by (auto simp: do_cmp_clock_def Let_def g t_def csp_clock_set_time_def csp_clock_get_time_def ru CSP_BUFFER_SIZE_def intro!: at_msg_put)
  qed
qed

text \<open>What a management request has to lead to: an error, or the reply in the packet.\<close>

definition replied :: "nat \<Rightarrow> nat multiset \<Rightarrow> csp_id \<Rightarrow> byte list option \<Rightarrow> int \<times> service \<Rightarrow> bool" where
  "replied h M i r ew \<longleftrightarrow> (case r of None \<Rightarrow> fst ew \<noteq> CSP_ERR_NONE
    | Some bs \<Rightarrow> fst ew = CSP_ERR_NONE \<and> service_ok h M (snd ew) \<and> pdata (pkt (stack (snd ew)) h) = bs \<and>
        pid (pkt (stack (snd ew)) h) = i)"

lemma replied_None: "fst ew \<noteq> CSP_ERR_NONE \<Longrightarrow> replied h M i None ew"
  by (simp add: replied_def)

lemma replied_Some:
  assumes "at_msg h M d n i u" "take (unat n) (mwrite 0 [CSP_CMP_REPLY] d) = bs"
  shows "replied h M i (Some bs) (CSP_ERR_NONE, cmp_put h 0 [CSP_CMP_REPLY] u)"
proof -
  have "at_msg h M (mwrite 0 [CSP_CMP_REPLY] d) n i (cmp_put h 0 [CSP_CMP_REPLY] u)"
    by (rule at_msg_put [OF assms(1)]) (simp add: CSP_BUFFER_SIZE_def)
  then show ?thesis using at_msg_pdata assms(2) by (auto simp: at_msg_def replied_def)
qed

lemma at_msg_long: "at_msg h M d n i v \<Longrightarrow> length d = CSP_BUFFER_SIZE" "at_msg h M d n i v \<Longrightarrow> 93 \<le> length d" "at_msg h M d n i v \<Longrightarrow> 10 \<le> length d"
  using msg_facts(1) [of h M v] by (auto simp: at_msg_def CSP_BUFFER_SIZE_def)

lemma at_msg_byte6: "at_msg h M d n i v \<Longrightarrow> cmp_get h 6 1 v ! 0 = d ! 6"
  by (rule at_msg_byte) (simp_all add: CSP_BUFFER_SIZE_def)

lemma at_msg_name:
  assumes "at_msg h M d n i v" "off \<le> 8"
  shows "cmp_get h off CSP_CMP_ROUTE_IFACE_LEN v = mread off CSP_CMP_ROUTE_IFACE_LEN d"
  by (rule at_msg_get [OF assms(1)]) (use assms(2) in \<open>simp add: csp_cmp_len_defs CSP_BUFFER_SIZE_def\<close>)

lemma at_msg_addr:
  assumes "at_msg h M d n i v"
  shows "cmp_get h 2 4 v = mread 2 4 d" "length (rev (mread 2 4 d)) = 4"
    "at_msg h M (mwrite 2 (rev (mread 2 4 d)) d) n i (cmp_put h 2 (rev (mread 2 4 d)) v)"
proof -
  show "cmp_get h 2 4 v = mread 2 4 d" by (rule at_msg_get [OF assms]) (simp add: CSP_BUFFER_SIZE_def)
  show l: "length (rev (mread 2 4 d)) = 4" using at_msg_long(3) [OF assms] by simp
  show "at_msg h M (mwrite 2 (rev (mread 2 4 d)) d) n i (cmp_put h 2 (rev (mread 2 4 d)) v)"
    by (intro at_msg_put assms) (use l in \<open>simp add: CSP_BUFFER_SIZE_def\<close>)
qed

lemma cmp_handler_code:
  assumes "at_msg h M d n i v"
  shows "csp_cmp_handler h v = (if d ! 0 \<noteq> CSP_CMP_REQUEST then (CSP_ERR_INVAL, v)
    else map_prod id (cmp_put h 0 [CSP_CMP_REPLY]) (cmp_switch (d ! 1) h v))"
proof -
  have b: "cmp_get h 0 1 v ! 0 = d ! 0" "cmp_get h 1 1 v ! 0 = d ! 1"
    using at_msg_byte [OF assms] by (simp_all add: CSP_BUFFER_SIZE_def)
  show ?thesis unfolding csp_cmp_handler_def b ..
qed

lemma code_ident:
  assumes "at_msg h M d n i v" "d ! 0 = CSP_CMP_REQUEST" "d ! 1 = CSP_CMP_IDENT"
  shows "replied h M i (cmp_reply v (unat n) d) (map_prod id (cmp_put h 0 [CSP_CMP_REPLY]) (cmp_switch (d ! 1) h v))"
proof -
  have m: "at_msg h M x CMP_SIZE_ident i (set_length h CMP_SIZE_ident w)" if "at_msg h M x n i w" for x w
    using that by (rule at_msg_length) (simp add: CMP_SIZE_ident_def CSP_BUFFER_SIZE_def)
  have "cmp_switch (d ! 1) h v = (CSP_ERR_NONE, set_length h CMP_SIZE_ident (snd (do_cmp_ident h v)))"
    unfolding cmp_switch_def assms(3) by (simp add: do_cmp_ident_def Let_def)
  moreover have "replied h M i (cmp_reply v (unat n) d)
      (CSP_ERR_NONE, cmp_put h 0 [CSP_CMP_REPLY] (set_length h CMP_SIZE_ident (snd (do_cmp_ident h v))))"
    using replied_Some [OF m [OF ident_msg [OF assms(1)]] refl] ident_layout [OF at_msg_long(2) [OF assms(1)]] assms(2,3)
    by (simp add: cmp_reply_def Let_def csp_cmp_len_defs)
  ultimately show ?thesis by simp
qed

lemma code_route_set:
  assumes "at_msg h M d n i v" "d ! 0 = CSP_CMP_REQUEST" "d ! 1 = CSP_CMP_ROUTE_SET_V1 \<or> d ! 1 = CSP_CMP_ROUTE_SET_V2"
  shows "replied h M i (cmp_reply v (unat n) d) (map_prod id (cmp_put h 0 [CSP_CMP_REPLY]) (cmp_switch (d ! 1) h v))"
proof -
  define size' where "size' = (if d ! 1 = CSP_CMP_ROUTE_SET_V1 then CMP_SIZE_route_set_v1 else CMP_SIZE_route_set_v2)"
  define off :: nat where "off = (if d ! 1 = CSP_CMP_ROUTE_SET_V1 then 4 else 8)"
  define name where "name = c_string (mread off CSP_CMP_ROUTE_IFACE_LEN d)"
  obtain ad nm via where c: "cmp_switch (d ! 1) h v = map_prod id (set_length h size') (cmp_route_set ad nm name via v)"
    using assms(3) at_msg_name [OF assms(1)]
    by (auto simp: cmp_switch_def do_cmp_route_set_v1_def do_cmp_route_set_v2_def csp_cmp_code_defs size'_def off_def name_def)
  have r: "cmp_reply v (unat n) d = (if csp_iflist_get_by_name (iflist (stack v)) name = None then None
      else Some (take (unat size') (mwrite 0 [CSP_CMP_REPLY] d)))"
    using assms(2,3) head_layout [OF at_msg_long(3) [OF assms(1)]]
    by (auto simp: cmp_reply_def Let_def csp_cmp_code_defs size'_def off_def name_def CMP_SIZE_route_set_v1_def CMP_SIZE_route_set_v2_def)
  have "at_msg h M d size' i (set_length h size' (snd (cmp_route_set ad nm name via v)))"
    by (rule at_msg_length [OF route_set_msg [OF assms(1)]])
      (simp add: size'_def CMP_SIZE_route_set_v1_def CMP_SIZE_route_set_v2_def CSP_BUFFER_SIZE_def)
  from replied_Some [OF this refl] show ?thesis
    using route_set_known [of ad nm name via v] replied_None unfolding c r
    by (auto simp: map_prod_def case_prod_beta csp_err_defs)
qed

lemma code_if_stats:
  assumes "at_msg h M d n i v" "d ! 0 = CSP_CMP_REQUEST" "d ! 1 = CSP_CMP_IF_STATS"
  shows "replied h M i (cmp_reply v (unat n) d) (map_prod id (cmp_put h 0 [CSP_CMP_REPLY]) (cmp_switch (d ! 1) h v))"
proof -
  note name = at_msg_name [OF assms(1), of 2, simplified]
  have c: "cmp_switch (d ! 1) h v = map_prod id (set_length h CMP_SIZE_if_stats) (do_cmp_if_stats h v)"
    unfolding cmp_switch_def assms(3) by (simp add: csp_cmp_code_defs)
  show ?thesis
  proof (cases "csp_iflist_get_by_name (iflist (stack v)) (c_string (mread 2 CSP_CMP_ROUTE_IFACE_LEN d))")
    case None
    then show ?thesis unfolding c using assms(2,3)
      by (simp add: cmp_reply_def csp_cmp_code_defs do_cmp_if_stats_def name csp_err_defs replied_None)
  next
    case (Some k)
    have m: "at_msg h M x CMP_SIZE_if_stats i (set_length h CMP_SIZE_if_stats w)" if "at_msg h M x n i w" for x w
      using that by (rule at_msg_length) (simp add: CMP_SIZE_if_stats_def CSP_BUFFER_SIZE_def)
    have "do_cmp_if_stats h v = (CSP_ERR_NONE, snd (do_cmp_if_stats h v))"
      using Some by (simp add: do_cmp_if_stats_def name Let_def)
    then have "map_prod id (cmp_put h 0 [CSP_CMP_REPLY]) (cmp_switch (d ! 1) h v) =
        (CSP_ERR_NONE, cmp_put h 0 [CSP_CMP_REPLY] (set_length h CMP_SIZE_if_stats (snd (do_cmp_if_stats h v))))"
      unfolding c by (metis map_prod_simp id_apply)
    then show ?thesis
      using replied_Some [OF m [OF stats_msg [OF assms(1) Some]] refl] stats_layout [OF at_msg_long(1) [OF assms(1)]] Some assms(2,3)
      by (simp add: cmp_reply_def Let_def csp_cmp_code_defs CMP_SIZE_if_stats_def CSP_CMP_ROUTE_IFACE_LEN_def)
  qed
qed

lemma code_peek:
  assumes "at_msg h M d n i v" "d ! 0 = CSP_CMP_REQUEST" "d ! 1 = CSP_CMP_PEEK"
  shows "replied h M i (cmp_reply v (unat n) d) (map_prod id (cmp_put h 0 [CSP_CMP_REPLY]) (cmp_switch (d ! 1) h v))"
proof -
  define bs where "bs = map (\<lambda>k. memory v (ucast (be32_dec (mread 2 4 d)) + of_nat k)) [0..<unat (d ! 6)]"
  note b = at_msg_byte6 [OF assms(1)] and ad = at_msg_addr [OF assms(1)]
  have c: "cmp_switch (d ! 1) h v = do_cmp_peek h v" unfolding cmp_switch_def assms(3) by (simp add: csp_cmp_code_defs)
  show ?thesis
  proof (cases "d ! 6 > CSP_CMP_PEEK_MAX_LEN")
    case True
    then show ?thesis unfolding c do_cmp_peek_def Let_def b using assms(2,3)
      by (simp add: cmp_reply_def csp_cmp_code_defs Let_def csp_err_defs replied_None)
  next
    case False
    then have l: "unat (d ! 6) \<le> 200" by (simp add: CSP_CMP_PEEK_MAX_LEN_def word_less_nat_alt)
    then have l': "7 + length bs \<le> length d" using at_msg_long(1) [OF assms(1)] by (simp add: bs_def CSP_BUFFER_SIZE_def)
    have eq: "do_cmp_peek h v = (CSP_ERR_NONE, cmp_put h 7 bs (cmp_put h 2 (rev (mread 2 4 d)) v))"
      unfolding do_cmp_peek_def Let_def b ad(1) bs_def using False by simp
    have m: "at_msg h M (mwrite 7 bs (mwrite 2 (rev (mread 2 4 d)) d)) n i (cmp_put h 7 bs (cmp_put h 2 (rev (mread 2 4 d)) v))"
      by (rule at_msg_put [OF ad(3)]) (use l in \<open>simp add: bs_def CSP_BUFFER_SIZE_def\<close>)
    show ?thesis unfolding c eq
      using replied_Some [OF m refl] patch_layout(3) [OF at_msg_long(3) [OF assms(1)] ad(2) l', of CSP_CMP_REPLY] assms(2,3) False
      by (simp add: cmp_reply_def Let_def csp_cmp_code_defs bs_def)
  qed
qed

lemma code_poke:
  assumes "at_msg h M d n i v" "d ! 0 = CSP_CMP_REQUEST" "d ! 1 = CSP_CMP_POKE"
  shows "replied h M i (cmp_reply v (unat n) d) (map_prod id (cmp_put h 0 [CSP_CMP_REPLY]) (cmp_switch (d ! 1) h v))"
proof -
  note b = at_msg_byte6 [OF assms(1)] and ad = at_msg_addr [OF assms(1)]
  have c: "cmp_switch (d ! 1) h v = do_cmp_poke h v" unfolding cmp_switch_def assms(3) by (simp add: csp_cmp_code_defs)
  show ?thesis
  proof (cases "d ! 6 > CSP_CMP_POKE_MAX_LEN")
    case True
    then show ?thesis unfolding c do_cmp_poke_def Let_def b using assms(2,3)
      by (simp add: cmp_reply_def csp_cmp_code_defs Let_def csp_err_defs replied_None)
  next
    case False
    then obtain m where eq: "do_cmp_poke h v = (CSP_ERR_NONE, (cmp_put h 2 (rev (mread 2 4 d)) v)\<lparr>memory := m\<rparr>)"
      unfolding do_cmp_poke_def Let_def b ad(1) by simp
    have m: "at_msg h M (mwrite 2 (rev (mread 2 4 d)) d) n i ((cmp_put h 2 (rev (mread 2 4 d)) v)\<lparr>memory := m\<rparr>)"
      using ad(3) by simp
    show ?thesis unfolding c eq
      using replied_Some [OF m refl] patch_layout(1) [OF at_msg_long(3) [OF assms(1)] ad(2), of CSP_CMP_REPLY] assms(2,3) False
      by (simp add: cmp_reply_def Let_def csp_cmp_code_defs)
  qed
qed

lemma code_clock:
  assumes "at_msg h M d n i v" "d ! 0 = CSP_CMP_REQUEST" "d ! 1 = CSP_CMP_CLOCK"
  shows "replied h M i (cmp_reply v (unat n) d) (map_prod id (cmp_put h 0 [CSP_CMP_REPLY]) (cmp_switch (d ! 1) h v))"
proof -
  have c: "cmp_switch (d ! 1) h v = do_cmp_clock h v" unfolding cmp_switch_def assms(3) by (simp add: csp_cmp_code_defs)
  note e = clock_msg(1) [OF assms(1)]
  show ?thesis
  proof (cases "fst (do_cmp_clock h v) = CSP_ERR_NONE")
    case True
    then have "map_prod id (cmp_put h 0 [CSP_CMP_REPLY]) (do_cmp_clock h v) = (CSP_ERR_NONE, cmp_put h 0 [CSP_CMP_REPLY] (snd (do_cmp_clock h v)))"
      by (simp add: map_prod_def case_prod_beta)
    then show ?thesis unfolding c
      using replied_Some [OF clock_msg(2) [OF assms(1) True] refl] True e assms(2,3)
        patch_layout(2) [OF at_msg_long(3) [OF assms(1)], of "be32_enc x" "be32_enc y" CSP_CMP_REPLY for x y]
      by (auto simp: cmp_reply_def Let_def csp_cmp_code_defs csp_err_defs split: if_splits)
  next
    case False
    then have "cmp_reply v (unat n) d = None" using e assms(2,3) by (auto simp: cmp_reply_def Let_def csp_cmp_code_defs)
    then show ?thesis unfolding c using False by (simp add: replied_None)
  qed
qed

lemma cmp_handler_reply:
  assumes "at_msg h M d n i v"
  shows "replied h M i (cmp_reply v (unat n) d) (csp_cmp_handler h v)"
proof (cases "d ! 0 = CSP_CMP_REQUEST")
  case True
  show ?thesis
  proof (cases "d ! 1 \<in> {CSP_CMP_IDENT, CSP_CMP_ROUTE_SET_V1, CSP_CMP_ROUTE_SET_V2, CSP_CMP_IF_STATS, CSP_CMP_PEEK, CSP_CMP_POKE, CSP_CMP_CLOCK}")
    case known: True
    then show ?thesis unfolding cmp_handler_code [OF assms]
      using True code_ident [OF assms] code_route_set [OF assms] code_if_stats [OF assms] code_peek [OF assms]
        code_poke [OF assms] code_clock [OF assms] by auto
  next
    case False
    then show ?thesis unfolding cmp_handler_code [OF assms] using True
      by (auto simp: cmp_switch_def cmp_reply_def csp_err_defs intro!: replied_None)
  qed
next
  case False
  then show ?thesis unfolding cmp_handler_code [OF assms] by (simp add: cmp_reply_def csp_err_defs replied_None)
qed

section \<open>Properties\<close>

lemma at_msg_start:
  "node_ok (add_mset h M) (stack v) \<Longrightarrow>
     at_msg h M (msg h v) (plength (pkt (stack v) h)) (pid (pkt (stack v) h)) v"
  by (simp add: at_msg_def service_ok_def)

lemma answer_word_facts:
  assumes "at_msg h M d n i v"
  shows "service_ok h M (answer_word h w v)" "pdata (pkt (stack (answer_word h w v)) h) = be32_enc w"
    "pid (pkt (stack (answer_word h w v)) h) = i"
proof -
  have "at_msg h M (mwrite 0 (be32_enc w) d) 4 i (answer_word h w v)"
    unfolding answer_word_def by (rule at_msg_length [OF at_msg_put [OF assms]]) (simp_all add: CSP_BUFFER_SIZE_def)
  then show "service_ok h M (answer_word h w v)" "pid (pkt (stack (answer_word h w v)) h) = i"
    "pdata (pkt (stack (answer_word h w v)) h) = be32_enc w"
    using at_msg_pdata [of h M _ 4 i] at_msg_long(1) [OF assms] by (simp_all add: at_msg_def mwrite_def)
qed

lemma upd_pkt_wire [simp]: "wire (set_pkt h x s) = wire s" "wire (set_errno e s) = wire s"
  by (simp_all add: set_pkt_def set_errno_def)

lemma cmp_put_wire [simp]: "wire (stack (cmp_put h off bs v)) = wire (stack v)" "wire (stack (set_length h n v)) = wire (stack v)"
  by (simp_all add: cmp_put_def set_length_def upd_stack_def)

lemma route_set_wire [simp]: "wire (stack (snd (cmp_route_set a n name via v))) = wire (stack v)"
  by (auto simp: cmp_route_set_def stack_rtable_set_def split: option.splits prod.splits)

lemma clock_set_wire [simp]:
  "wire (stack (snd (csp_clock_set_time t v))) = wire (stack v)" "wire (stack (upd_stack (set_errno e) v)) = wire (stack v)"
  by (simp_all add: csp_clock_set_time_def Let_def upd_stack_def)

lemma do_cmp_wire [simp]:
  "wire (stack (snd (do_cmp_ident h v))) = wire (stack v)" "wire (stack (snd (do_cmp_if_stats h v))) = wire (stack v)"
  "wire (stack (snd (do_cmp_peek h v))) = wire (stack v)" "wire (stack (snd (do_cmp_poke h v))) = wire (stack v)"
  "wire (stack (snd (do_cmp_clock h v))) = wire (stack v)" "wire (stack (snd (do_cmp_route_set_v1 h v))) = wire (stack v)"
  "wire (stack (snd (do_cmp_route_set_v2 h v))) = wire (stack v)"
proof -
  show "wire (stack (snd (do_cmp_ident h v))) = wire (stack v)" by (simp add: do_cmp_ident_def Let_def)
  show "wire (stack (snd (do_cmp_if_stats h v))) = wire (stack v)" by (simp add: do_cmp_if_stats_def Let_def split: option.split)
  show "wire (stack (snd (do_cmp_peek h v))) = wire (stack v)" by (simp add: do_cmp_peek_def Let_def)
  show "wire (stack (snd (do_cmp_poke h v))) = wire (stack v)" by (simp add: do_cmp_poke_def Let_def)
  show "wire (stack (snd (do_cmp_clock h v))) = wire (stack v)"
    by (simp add: do_cmp_clock_def Let_def clock_set_wire case_prod_beta)
  show "wire (stack (snd (do_cmp_route_set_v1 h v))) = wire (stack v)" by (simp add: do_cmp_route_set_v1_def)
  show "wire (stack (snd (do_cmp_route_set_v2 h v))) = wire (stack v)" by (simp add: do_cmp_route_set_v2_def)
qed

lemma cmp_handler_wire: "wire (stack (snd (csp_cmp_handler h v))) = wire (stack v)"
  by (simp add: csp_cmp_handler_def cmp_switch_def)

lemma service_free_wire:
  assumes "service_ok h M v"
  shows "wire (stack (service_free h v)) = wire (stack v)"
proof -
  have "acct (add_mset h M) (stack v)" using node_okD assms unfolding service_ok_def by blast
  then have "wire (csp_buffer_free (Some h) (stack v)) = wire (stack v)" by (rule more_fields(8) [OF acct_free(2)])
  then show ?thesis by (simp add: service_free_def upd_stack_def)
qed

lemma service_free_case:
  assumes "service_ok h M u" "wire (stack u) = wire (stack v)" "w = service_free h u"
  shows "node_ok M (stack w) \<and> wire (stack w) = wire (stack v)"
  using assms service_ok_release [OF assms(1)] service_free_wire [OF assms(1)] by simp

text \<open>C28: The services. The handler takes over the buffer of the request, whatever the request says, on every port but
  that of the process list: either it releases the packet and nothing is sent, or it sends the packet
  back as a reply whose data is what the service answers: the request itself for a ping, a word with the free memory, the number of free
  buffers or the uptime, or the reply of the management protocol with the names of the node, the counters
  of the interface, the bytes at an address, or the time, in the layout of the message structure.\<close>

theorem csp_service_handler_answers:
  assumes "node_ok (add_mset h M) (stack v)" "dport (pid (pkt (stack v) h)) \<noteq> CSP_PS"
  defines "w \<equiv> csp_service_handler h v"
  shows "case service_answer h v of
      None \<Rightarrow> node_ok M (stack w) \<and> wire (stack w) = wire (stack v)
    | Some bs \<Rightarrow> node_ok M (stack w) \<and>
       (\<exists>u. w = service_reply h u \<and> pdata (pkt (stack u) h) = bs \<and> pid (pkt (stack u) h) = pid (pkt (stack v) h) \<and>
         node_ok (add_mset h M) (stack u))"
proof -
  define port where "port = dport (pid (pkt (stack v) h))"
  note a = at_msg_start [OF assms(1)]
  have ok: "service_ok h M v" using assms(1) by (simp add: service_ok_def)
  have reply: ?thesis if "service_answer h v = Some bs" "w = service_reply h u" "service_ok h M u" "pdata (pkt (stack u) h) = bs"
      "pid (pkt (stack u) h) = pid (pkt (stack v) h)" for bs u
    using that service_ok_reply [OF that(3)] by (auto simp: service_ok_def)
  have drop: ?thesis if "service_answer h v = None" "w = service_free h u" "service_ok h M u" "wire (stack u) = wire (stack v)" for u
    using that service_free_case [OF that(3,4,2)] by simp
  have halts: "service_ok h M (csp_reboot_hook v)" "service_ok h M (csp_shutdown_hook v)"
    using ok by (simp_all add: csp_reboot_hook_def csp_shutdown_hook_def)
  have word: ?thesis if "service_answer h v = Some (be32_enc x)" "w = service_reply h (answer_word h x v)" for x
    by (rule reply [OF that]) (use answer_word_facts [OF a] in auto)
  note ports = csp_service_defs
  consider "port = CSP_CMP" | "port = CSP_PING" | "port = CSP_MEMFREE" | "port = CSP_REBOOT" | "port = CSP_BUF_FREE" | "port = CSP_UPTIME"
    | "port \<notin> {CSP_CMP, CSP_PING, CSP_PS, CSP_MEMFREE, CSP_REBOOT, CSP_BUF_FREE, CSP_UPTIME}"
    using assms(2) by (auto simp: port_def)
  then show ?thesis
  proof cases
    case 1
    obtain e u where eu: "csp_cmp_handler h v = (e, u)" by (rule prod.exhaust)
    have w: "w = (if e \<noteq> CSP_ERR_NONE then service_free h u else service_reply h u)"
      using 1 eu by (simp add: w_def csp_service_handler_def port_def Let_def)
    have ans: "service_answer h v = cmp_reply v (unat (plength (pkt (stack v) h))) (msg h v)"
      using 1 by (simp add: service_answer_def port_def Let_def)
    have u: "service_ok h M u" "wire (stack u) = wire (stack v)" using service_ok_cmp [OF ok] cmp_handler_wire [of h v] eu by simp_all
    show ?thesis
    proof (cases "service_answer h v")
      case None
      then have "e \<noteq> CSP_ERR_NONE" using cmp_handler_reply [OF a] eu by (simp add: ans replied_def)
      then show ?thesis using drop [OF None _ u] w by simp
    next
      case (Some bs)
      then have "e = CSP_ERR_NONE" "pdata (pkt (stack u) h) = bs" "pid (pkt (stack u) h) = pid (pkt (stack v) h)"
        using cmp_handler_reply [OF a] eu by (simp_all add: ans replied_def)
      then show ?thesis using reply [OF Some _ u(1)] w by simp
    qed
  next
    case 2
    show ?thesis by (rule reply [OF _ _ ok]) (use 2 in \<open>auto simp: w_def csp_service_handler_def service_answer_def port_def Let_def ports\<close>)
  next
    case 3
    show ?thesis by (rule word) (use 3 in \<open>simp_all add: w_def csp_service_handler_def service_answer_def port_def Let_def ports\<close>)
  next
    case 4
    let ?m = "be32_dec (cmp_get h 0 4 v)"
    show ?thesis
      by (rule drop [where u = "if ?m = CSP_REBOOT_MAGIC then csp_reboot_hook v else if ?m = CSP_REBOOT_SHUTDOWN_MAGIC then csp_shutdown_hook v else v"])
        (use 4 ok halts in \<open>simp_all add: w_def csp_service_handler_def service_answer_def port_def Let_def ports csp_reboot_hook_def csp_shutdown_hook_def\<close>)
  next
    case 5
    show ?thesis by (rule word) (use 5 in \<open>simp_all add: w_def csp_service_handler_def service_answer_def port_def Let_def ports\<close>)
  next
    case 6
    show ?thesis by (rule word) (use 6 in \<open>simp_all add: w_def csp_service_handler_def service_answer_def port_def Let_def ports\<close>)
  next
    case 7
    show ?thesis by (rule drop [OF _ _ ok refl])
      (use 7 in \<open>auto simp: w_def csp_service_handler_def service_answer_def port_def Let_def\<close>)
  qed
qed

text \<open>What the handler keeps outside the stack.\<close>

definition outside :: "service \<Rightarrow> halt list \<times> (u64 \<Rightarrow> byte) \<times> (u64 \<times> u64) option" where
  "outside v = (halts v, memory v, realtime v)"

lemma outside_stack [simp]:
  "outside (upd_stack f v) = outside v" "outside (v\<lparr>stack := s\<rparr>) = outside v"
  "outside (cmp_put h off bs v) = outside v" "outside (set_length h n v) = outside v"
  "outside (answer_word h w v) = outside v" "outside (service_free h v) = outside v" "outside (service_reply h v) = outside v"
  by (simp_all add: outside_def upd_stack_def cmp_put_def set_length_def answer_word_def service_free_def service_reply_def)

lemma outside_cmp [simp]:
  "outside (snd (do_cmp_ident h v)) = outside v" "outside (snd (do_cmp_if_stats h v)) = outside v"
  "outside (snd (do_cmp_peek h v)) = outside v" "outside (snd (cmp_route_set a n name via v)) = outside v"
proof -
  show "outside (snd (do_cmp_ident h v)) = outside v" by (simp add: do_cmp_ident_def Let_def)
  show "outside (snd (do_cmp_if_stats h v)) = outside v" by (simp add: do_cmp_if_stats_def Let_def split: option.split)
  show "outside (snd (do_cmp_peek h v)) = outside v" by (simp add: do_cmp_peek_def Let_def)
  show "outside (snd (cmp_route_set a n name via v)) = outside v"
    by (simp add: cmp_route_set_def case_prod_beta split: option.split)
qed

definition poked :: "byte list \<Rightarrow> (u64 \<Rightarrow> byte) \<Rightarrow> u64 \<Rightarrow> byte" where
  "poked d m = (\<lambda>a. let k = unat (a - ucast (be32_dec (mread 2 4 d))) in if k < unat (d ! 6) then d ! (7 + k) else m a)"

lemma outside_poke:
  assumes "at_msg h M d n i v"
  shows "outside (snd (do_cmp_poke h v)) =
    (if d ! 6 > CSP_CMP_POKE_MAX_LEN then outside v else (halts v, poked d (memory v), realtime v))"
proof (cases "d ! 6 > CSP_CMP_POKE_MAX_LEN")
  case True
  then show ?thesis unfolding do_cmp_poke_def Let_def at_msg_byte6 [OF assms] by simp
next
  case False
  note ad = at_msg_addr [OF assms] and len = at_msg_long(1) [OF assms]
  from False have l: "unat (d ! 6) \<le> 200" by (simp add: CSP_CMP_POKE_MAX_LEN_def word_less_nat_alt)
  have "cmp_get h 7 (unat (d ! 6)) (cmp_put h 2 (rev (mread 2 4 d)) v) = mread 7 (unat (d ! 6)) (mwrite 2 (rev (mread 2 4 d)) d)"
    by (rule at_msg_get [OF ad(3)]) (use l in \<open>simp add: CSP_BUFFER_SIZE_def\<close>)
  also have "\<dots> = mread 7 (unat (d ! 6)) d"
    by (rule mread_mwrite_disjoint) (use ad(2) l len in \<open>simp_all add: CSP_BUFFER_SIZE_def\<close>)
  finally have g: "cmp_get h 7 (unat (d ! 6)) (cmp_put h 2 (rev (mread 2 4 d)) v) ! k = d ! (7 + k)" if "k < unat (d ! 6)" for k
    using that l len by (simp add: CSP_BUFFER_SIZE_def)
  show ?thesis unfolding do_cmp_poke_def Let_def at_msg_byte6 [OF assms] ad(1) using False g
    by (auto simp: outside_def poked_def Let_def fun_eq_iff cmp_put_def upd_stack_def)
qed

text \<open>The time a message asks to set.\<close>

definition clock_arg :: "byte list \<Rightarrow> u64 \<times> u64" where
  "clock_arg d = (ucast (be32_dec (mread 2 4 d)), ucast (be32_dec (mread 6 4 d)))"

lemma outside_clock:
  assumes "at_msg h M d n i v"
  shows "outside (snd (do_cmp_clock h v)) =
    (if be32_dec (mread 2 4 d) \<noteq> 0 \<and> clock_settime v (clock_arg d) then (halts v, memory v, Some (clock_arg d)) else outside v)"
proof -
  have g: "cmp_get h 2 4 v = mread 2 4 d" "cmp_get h 6 4 v = mread 6 4 d"
    using at_msg_get [OF assms] by (simp_all add: CSP_BUFFER_SIZE_def)
  show ?thesis
    by (simp add: do_cmp_clock_def Let_def g csp_clock_set_time_def clock_arg_def) (simp add: outside_def)
qed

lemma outside_switch:
  assumes "at_msg h M d n i v"
  shows "outside (snd (cmp_switch code h v)) = (halts v,
    if code = CSP_CMP_POKE \<and> d ! 6 \<le> CSP_CMP_POKE_MAX_LEN then poked d (memory v) else memory v,
    if code = CSP_CMP_CLOCK \<and> be32_dec (mread 2 4 d) \<noteq> 0 \<and> clock_settime v (clock_arg d) then Some (clock_arg d) else realtime v)"
proof -
  have o: "outside v = (halts v, memory v, realtime v)" by (simp add: outside_def)
  consider "code = CSP_CMP_POKE" | "code = CSP_CMP_CLOCK" | "code \<noteq> CSP_CMP_POKE" "code \<noteq> CSP_CMP_CLOCK" by blast
  then show ?thesis
  proof cases
    case 1
    then have "cmp_switch code h v = do_cmp_poke h v" by (simp add: cmp_switch_def csp_cmp_code_defs)
    then show ?thesis using outside_poke [OF assms] 1 o by (simp add: csp_cmp_code_defs not_less [symmetric])
  next
    case 2
    then have "cmp_switch code h v = do_cmp_clock h v" by (simp add: cmp_switch_def csp_cmp_code_defs)
    then show ?thesis using outside_clock [OF assms] 2 o by (simp add: csp_cmp_code_defs)
  next
    case 3
    then show ?thesis using o by (simp add: cmp_switch_def do_cmp_route_set_v1_def do_cmp_route_set_v2_def)
  qed
qed

text \<open>C29: Reboot, memory and clock. The handler asks for a restart or a halt exactly if a packet to the reboot port starts with
  the magic word for it, writes to memory exactly the bytes a poke request of at most 200 bytes names, and
  sets the clock exactly if a clock request carries a time other than zero that the system accepts.\<close>

theorem csp_service_handler_effects:
  assumes "node_ok (add_mset h M) (stack v)"
  defines "d \<equiv> msg h v" and "port \<equiv> dport (pid (pkt (stack v) h))" and "w \<equiv> csp_service_handler h v"
  defines "cmp code \<equiv> port = CSP_CMP \<and> d ! 0 = CSP_CMP_REQUEST \<and> d ! 1 = code"
  shows "halts w = halts v @
      (if port \<noteq> CSP_REBOOT then [] else if be32_dec (mread 0 4 d) = CSP_REBOOT_MAGIC then [Reboot]
       else if be32_dec (mread 0 4 d) = CSP_REBOOT_SHUTDOWN_MAGIC then [Shutdown] else []) \<and>
    memory w = (if cmp CSP_CMP_POKE \<and> d ! 6 \<le> CSP_CMP_POKE_MAX_LEN then poked d (memory v) else memory v) \<and>
    realtime w = (if cmp CSP_CMP_CLOCK \<and> be32_dec (mread 2 4 d) \<noteq> 0 \<and> clock_settime v (clock_arg d)
       then Some (clock_arg d) else realtime v)"
proof -
  note a = at_msg_start [OF assms(1), folded d_def]
  have o: "outside v = (halts v, memory v, realtime v)" for v by (simp add: outside_def)
  consider (cmp) "port = CSP_CMP" | (reboot) "port = CSP_REBOOT" | (other) "port \<noteq> CSP_CMP" "port \<noteq> CSP_REBOOT" by blast
  then show ?thesis
  proof cases
    case cmp
    then have "outside w = outside (snd (csp_cmp_handler h v))"
      by (simp add: w_def csp_service_handler_def port_def Let_def case_prod_beta)
    also have "\<dots> = (if d ! 0 \<noteq> CSP_CMP_REQUEST then outside v else outside (snd (cmp_switch (d ! 1) h v)))"
      unfolding cmp_handler_code [OF a] by simp
    finally have w: "outside w = \<dots>" .
    show ?thesis using w [unfolded outside_switch [OF a] o [of w] o [of v]]
      by (cases "d ! 0 = CSP_CMP_REQUEST") (simp_all add: cmp_def cmp, simp_all add: csp_service_defs)
  next
    case reboot
    have g: "cmp_get h 0 4 v = mread 0 4 d" by (rule at_msg_get [OF a]) (simp add: CSP_BUFFER_SIZE_def)
    have "outside w = (halts v @ (if be32_dec (mread 0 4 d) = CSP_REBOOT_MAGIC then [Reboot]
       else if be32_dec (mread 0 4 d) = CSP_REBOOT_SHUTDOWN_MAGIC then [Shutdown] else []), memory v, realtime v)"
      using reboot unfolding w_def csp_service_handler_def port_def [symmetric] Let_def g
      by (simp add: csp_service_defs) (simp add: outside_def csp_reboot_hook_def csp_shutdown_hook_def)
    then show ?thesis using reboot by (simp add: o cmp_def csp_service_defs)
  next
    case other
    then have "outside w = outside v"
      by (simp add: w_def csp_service_handler_def port_def [symmetric] Let_def)
    then show ?thesis using other by (simp add: o cmp_def)
  qed
qed

text \<open>The process list. The hook of this platform returns no data, so the handler releases the packet and then replies with it all the same: the
  reply is made of a buffer that is in the pool of free buffers.\<close>

theorem csp_service_ps_sends_released:
  assumes "node_ok (add_mset h M) (stack v)" "dport (pid (pkt (stack v) h)) = CSP_PS"
  defines "u \<equiv> service_free h (set_length h 0 v)"
  shows "csp_service_handler h v = service_reply h u \<and> h \<in> set (free_list (stack u)) \<and> refcount (bufs (stack u) ! h) = 0"
proof -
  have ok: "service_ok h M (set_length h 0 v)" using assms(1) by (auto simp: service_ok_def [symmetric])
  then have a: "acct (add_mset h M) (stack (set_length h 0 v))" using node_okD unfolding service_ok_def by blast
  note held = held_allocated [OF a, of h, simplified]
  have "pool_inv (stack (set_length h 0 v))" using a by (simp add: acct_def)
  then obtain t where t: "csp_buffer_free (Some h) (stack (set_length h 0 v)) = t"
    "free_list t = free_list (stack (set_length h 0 v)) @ [h]" "refcount (bufs t ! h) = 0"
    by (rule csp_buffer_free_last [OF _ held(1,3)]) blast
  have "stack u = t" using t(1) by (simp add: u_def service_free_def upd_stack_def)
  then have "h \<in> set (free_list (stack u)) \<and> refcount (bufs (stack u) ! h) = 0" using t(2,3) by simp
  moreover have "csp_service_handler h v = service_reply h u"
    using assms(2) msg_length(2) [of h M v 0] assms(1)
    by (simp add: csp_service_handler_def Let_def csp_service_defs csp_ps_hook_def u_def service_ok_def)
  ultimately show ?thesis by blast
qed

section \<open>Examples\<close>

text \<open>A node that holds one request, with the given destination port and first bytes of the data.\<close>

definition service_ex :: "u8 \<Rightarrow> byte list \<Rightarrow> service" where
  "service_ex port bs =
     \<lparr>stack = set_pkt 0 (packet0\<lparr>plength := of_nat (length bs), pid := csp_id_clear\<lparr>dport := port\<rparr>,
        pmem := mwrite (data_at 0) bs (pmem packet0)\<rparr>) pool_ex,
      conf_hostname = [], conf_model = [], conf_revision = [], build_date = [], build_time = [], if_irq = (\<lambda>i. 0),
      memory = (\<lambda>a. 0), realtime = Some (1000, 0), clock_settime = (\<lambda>t. False), monotonic = Some 7, freeram = 0, mem_unit = 1, halts = []\<rparr>"

lemma service_ex_facts:
  assumes "length bs \<le> 8"
  shows "node_ok {#0#} (stack (service_ex port bs))" "dport (pid (pkt (stack (service_ex port bs)) 0)) = port"
    "msg 0 (service_ex port bs) = bs @ replicate (CSP_BUFFER_SIZE - length bs) 0"
proof -
  have "unat (of_nat (length bs) :: u16) = length bs" using assms by (simp add: unat_of_nat)
  then have wf: "packet_wf (packet0\<lparr>plength := of_nat (length bs), pid := csp_id_clear\<lparr>dport := port\<rparr>,
        pmem := mwrite (data_at 0) bs (pmem packet0)\<rparr>)"
    using assms by (simp add: packet_wf_def packet0_def data_at_def CSP_BUFFER_SIZE_def)
  show "node_ok {#0#} (stack (service_ex port bs))"
    unfolding service_ex_def service.select_convs by (rule node_ok_set_pkt [OF _ wf]) (rule pool_ex_node)
  have b: "0 < length (bufs pool_ex)" using held_allocated(2) [OF pool_ex_facts(1), of 0] by simp
  then show "dport (pid (pkt (stack (service_ex port bs)) 0)) = port" by (simp add: service_ex_def)
  show "msg 0 (service_ex port bs) = bs @ replicate (CSP_BUFFER_SIZE - length bs) 0"
    using b assms by (simp add: msg_def service_ex_def packet0_def mread_def mwrite_def data_at_def CSP_BUFFER_SIZE_def)
qed

text \<open>A request for the identification of the node.\<close>

theorem csp_service_handler_answers_witness:
  "node_ok {#} (stack (csp_service_handler 0 (service_ex CSP_CMP [0, 1])))"
proof -
  let ?v = "service_ex CSP_CMP [0, 1]"
  have "CSP_CMP \<noteq> CSP_PS" by (simp add: csp_service_defs)
  moreover obtain bs where "service_answer 0 ?v = Some bs"
    using service_ex_facts(2,3) [of "[0, 1]" CSP_CMP] by (simp add: service_answer_def cmp_reply_def Let_def csp_service_defs csp_cmp_code_defs)
  ultimately show ?thesis
    using csp_service_handler_answers [of 0 "{#}" ?v] service_ex_facts(1,2) [of "[0, 1]" CSP_CMP] by simp
qed

text \<open>A request to restart.\<close>

theorem csp_service_handler_effects_witness:
  "halts (csp_service_handler 0 (service_ex CSP_REBOOT (be32_enc CSP_REBOOT_MAGIC))) = [Reboot]"
proof -
  let ?v = "service_ex CSP_REBOOT (be32_enc CSP_REBOOT_MAGIC)"
  note f = service_ex_facts [of "be32_enc CSP_REBOOT_MAGIC" CSP_REBOOT, simplified]
  have "mread 0 4 (msg 0 ?v) = be32_enc CSP_REBOOT_MAGIC" by (simp add: f(3) mread_def)
  moreover have "halts ?v = []" by (simp add: service_ex_def)
  ultimately show ?thesis using csp_service_handler_effects [of 0 "{#}" ?v, OF f(1)] f(2) by (simp add: csp_service_defs)
qed

end
