(* ===== verification/Csp_Sfp.thy ===== *)
theory Csp_Sfp
  imports Csp_Io
begin

text \<open>
  The fragmentation protocol, \<open>src/csp_sfp.c\<close>: data of any size is sent over a connection in packets that
  carry a trailer with their offset and the total size, and put together again by the receiver.

  Where the copy of a fragment leaves the array it is copied to, the behaviour of the program is undefined; the call ends
  there in the model, with \<open>fault\<close> set. The memory allocator is an argument: the memory it gives for a size, or nothing.
  What other tasks do while a call waits is an argument too, with the position in the data as its first argument.
\<close>

section \<open>Headers\<close>

definition SFP_HEADER_SIZE :: nat where "SFP_HEADER_SIZE = 8"

text \<open>The position of the header in the memory of the packet.\<close>

definition csp_sfp_header_add :: "csp_packet \<Rightarrow> nat \<times> csp_packet" where
  "csp_sfp_header_add p = (data_at (unat (plength p)), p\<lparr>plength := plength p + of_nat SFP_HEADER_SIZE\<rparr>)"

text \<open>The fields of the header are converted in place, on a little-endian machine.\<close>

definition csp_sfp_header_remove :: "csp_packet \<Rightarrow> (u32 \<times> u32) option \<times> csp_packet" where
  "csp_sfp_header_remove p =
     (if flags (pid p) AND CSP_FFRAG = 0 then (None, p)
      else if unat (plength p) < SFP_HEADER_SIZE then (None, p)
      else
        let header = data_at (unat (plength p) - SFP_HEADER_SIZE);
            p = p\<lparr>plength := plength p - of_nat SFP_HEADER_SIZE\<rparr>;
            offset = be32_dec (mread header 4 (pmem p));
            totalsize = be32_dec (mread (header + 4) 4 (pmem p));
            p = p\<lparr>pmem := mwrite header (rev (mread header 4 (pmem p))) (pmem p)\<rparr>;
            p = p\<lparr>pmem := mwrite (header + 4) (rev (mread (header + 4) 4 (pmem p))) (pmem p)\<rparr>
        in (if offset > totalsize then None else Some (offset, totalsize), p))"

section \<open>Sending\<close>

text \<open>The packet of the fragment of \<open>size\<close> bytes at \<open>count'\<close>.\<close>

definition sfp_fill :: "byte list \<Rightarrow> u32 \<Rightarrow> u32 \<Rightarrow> u32 \<Rightarrow> csp_packet \<Rightarrow> csp_packet" where
  "sfp_fill data totalsize size' count' p =
     (let p = p\<lparr>pmem := mwrite (data_at 0) (take (unat size') (drop (unat count') data)) (pmem p)\<rparr>;
          p = p\<lparr>plength := ucast size'\<rparr>;
          (header, p) = csp_sfp_header_add p;
          p = p\<lparr>pmem := mwrite (header + 4) (be32_enc totalsize) (pmem p)\<rparr>;
          p = p\<lparr>pmem := mwrite header (be32_enc count') (pmem p)\<rparr>
      in p)"

text \<open>The test for a zero \<open>mtu\<close> is the one before the loop; \<open>mtu\<close> does not change.\<close>

function sfp_send_loop ::
    "(u32 \<Rightarrow> (csp_state \<Rightarrow> csp_state) list) \<Rightarrow> nat \<Rightarrow> byte list \<Rightarrow> u32 \<Rightarrow> u32 \<Rightarrow> u32 \<Rightarrow> csp_state \<Rightarrow> int \<times> csp_state" where
  "sfp_send_loop ws c data totalsize mtu count' s =
     (if mtu = 0 then (CSP_ERR_INVAL, s)
      else if \<not> (count' < totalsize \<and> csp_conn_is_active c s) then (CSP_ERR_NONE, s)
      else
        (case csp_buffer_get s of
           (None, s) \<Rightarrow> (CSP_ERR_NOMEM, s)
         | (Some p, s) \<Rightarrow>
             let size' = totalsize - count'; size' = (if size' > mtu then mtu else size')
             in if unat size' + SFP_HEADER_SIZE > CSP_BUFFER_SIZE then (CSP_ERR_NONE, s\<lparr>fault := True\<rparr>)
                else
                  let s = upd_conn c (\<lambda>k. k\<lparr>cidout := (cidout k)\<lparr>flags := flags (cidout k) OR CSP_FFRAG\<rparr>\<rparr>) s;
                      s = set_pkt p (sfp_fill data totalsize size' count' (pkt s p)) s;
                      s = csp_send (ws count') (Some c) (Some p) s
                  in sfp_send_loop ws c data totalsize mtu (count' + size') s))"
  by pat_completeness auto

definition csp_sfp_send_own_memcpy ::
    "(u32 \<Rightarrow> (csp_state \<Rightarrow> csp_state) list) \<Rightarrow> nat \<Rightarrow> byte list \<Rightarrow> u32 \<Rightarrow> u32 \<Rightarrow> csp_state \<Rightarrow> int \<times> csp_state" where
  "csp_sfp_send_own_memcpy ws c data totalsize mtu s = sfp_send_loop ws c data totalsize mtu 0 s"

section \<open>Receiving\<close>

datatype sfp_step = Sfp_error int | Sfp_fault | Sfp_done "byte list" | Sfp_more "byte list" u32 u32

text \<open>What the receiver does with one fragment: \<open>data\<close> is the memory for the data once it is allocated.\<close>

definition sfp_fragment ::
    "(u32 \<Rightarrow> byte list option) \<Rightarrow> (u32 \<times> u32) option \<Rightarrow> csp_packet \<Rightarrow> byte list option \<Rightarrow> u32 \<Rightarrow> u32 \<Rightarrow> sfp_step" where
  "sfp_fragment malloc sfp_header p data datasize data_offset =
     (case sfp_header of None \<Rightarrow> Sfp_error CSP_ERR_SFP
      | Some (offset, totalsize) \<Rightarrow>
          if offset \<noteq> data_offset then Sfp_error CSP_ERR_SFP
          else (case (case data of Some d \<Rightarrow> Some (d, datasize) | None \<Rightarrow> map_option (\<lambda>d. (d, totalsize)) (malloc totalsize)) of
                  None \<Rightarrow> Sfp_error CSP_ERR_NOMEM
                | Some (d, datasize) \<Rightarrow>
                    if data_offset + ucast (plength p) > datasize \<or> datasize \<noteq> totalsize then Sfp_error CSP_ERR_SFP
                    else if unat data_offset + unat (plength p) > unat datasize then Sfp_fault
                    else
                      let d = mwrite (unat data_offset) (pdata p) d;
                          data_offset = data_offset + ucast (plength p)
                      in if data_offset \<ge> datasize then Sfp_done d
                         else if plength p = 0 then Sfp_error CSP_ERR_SFP
                         else Sfp_more d datasize data_offset))"

function sfp_recv_loop ::
    "(u32 \<Rightarrow> byte list option) \<Rightarrow> (u32 \<Rightarrow> u32 \<Rightarrow> csp_state \<Rightarrow> csp_state) \<Rightarrow> nat \<Rightarrow> u32 \<Rightarrow> nat \<Rightarrow> byte list option \<Rightarrow> u32 \<Rightarrow> u32 \<Rightarrow>
     csp_state \<Rightarrow> int \<times> byte list option \<times> csp_state" where
  "sfp_recv_loop malloc w c timeout packet data datasize data_offset s =
     (case csp_sfp_header_remove (pkt s packet) of
        (sfp_header, p) \<Rightarrow>
          let s = set_pkt packet p s
          in case sfp_fragment malloc sfp_header p data datasize data_offset of
               Sfp_error e \<Rightarrow> (e, None, csp_buffer_free (Some packet) s)
             | Sfp_fault \<Rightarrow> (CSP_ERR_NONE, None, s\<lparr>fault := True\<rparr>)
             | Sfp_done d \<Rightarrow> (CSP_ERR_NONE, Some d, csp_buffer_free (Some packet) s)
             | Sfp_more d datasize data_offset \<Rightarrow>
                 (case csp_read (w data_offset) (Some c) timeout (csp_buffer_free (Some packet) s) of
                    (None, s) \<Rightarrow> (CSP_ERR_TIMEDOUT, None, s)
                  | (Some packet, s) \<Rightarrow> sfp_recv_loop malloc w c timeout packet (Some d) datasize data_offset s))"
  by pat_completeness auto

definition csp_sfp_recv_fp ::
    "(u32 \<Rightarrow> byte list option) \<Rightarrow> (u32 \<Rightarrow> u32 \<Rightarrow> csp_state \<Rightarrow> csp_state) \<Rightarrow> nat \<Rightarrow> u32 \<Rightarrow> nat option \<Rightarrow>
     csp_state \<Rightarrow> int \<times> byte list option \<times> csp_state" where
  "csp_sfp_recv_fp malloc w c timeout first_packet s =
     (case first_packet of
        Some packet \<Rightarrow> sfp_recv_loop malloc w c timeout packet None 0 0 s
      | None \<Rightarrow>
          (case csp_read (w 0) (Some c) timeout s of
             (None, s) \<Rightarrow> (CSP_ERR_TIMEDOUT, None, s)
           | (Some packet, s) \<Rightarrow> sfp_recv_loop malloc w c timeout packet None 0 0 s))"

section \<open>Termination\<close>

termination sfp_send_loop
proof (relation "measure (\<lambda>(ws, c, data, totalsize, mtu, count', s). unat totalsize - unat count')", goal_cases)
  case 1
  then show ?case by simp
next
  case (2 ws c data totalsize mtu count' s)
  then have "count' < totalsize" "mtu \<noteq> 0" by auto
  from chunk_size [OF this] show ?case using 2 by (auto simp: word_less_nat_alt)
qed

lemma sfp_fragment_more:
  assumes "sfp_fragment malloc h p data n off = Sfp_more d' n' off'"
  shows "unat off < unat off'" "unat off' < unat n'" "data = Some d \<Longrightarrow> n' = n"
proof -
  have "n' = (case data of None \<Rightarrow> snd (the h) | Some _ \<Rightarrow> n)" "unat off + unat (plength p) \<le> unat n'"
    "off' = off + ucast (plength p)" "off' < n'" "plength p \<noteq> 0"
    using assms by (auto simp: sfp_fragment_def Let_def not_le split: option.splits prod.splits if_splits)
  then show "unat off < unat off'" "unat off' < unat n'" "data = Some d \<Longrightarrow> n' = n"
    using unat_add_length [of off "plength p" n'] by (auto simp: word_less_nat_alt unat_gt_0)
qed

termination sfp_recv_loop
proof (relation "measure (\<lambda>(malloc, w, c, timeout, packet, data, n, off, s). case data of None \<Rightarrow> 2 ^ 32 | Some d \<Rightarrow> unat n - unat (off :: u32))", goal_cases)
  case 1
  then show ?case by simp
next
  case (2 malloc w c timeout packet data n off s x h t d' n' off' y q u)
  then have "sfp_fragment malloc x h data n off = Sfp_more d' n' off'" by simp
  note more = sfp_fragment_more [OF this]
  have "unat n' < 2 ^ 32" using unsigned_less [of n'] by simp
  then show ?case using more 2 by (cases data) auto
qed

declare sfp_send_loop.simps [simp del] sfp_recv_loop.simps [simp del]

section \<open>Fragments\<close>

text \<open>The payload of a fragment packet: the data, its offset and the total size.\<close>

definition sfp_payload :: "byte list \<Rightarrow> u32 \<Rightarrow> u32 \<Rightarrow> byte list" where
  "sfp_payload bs off tot = bs @ be32_enc off @ be32_enc tot"

lemma length_sfp_payload [simp]: "length (sfp_payload bs off tot) = length bs + 8"
  by (simp add: sfp_payload_def)

lemma sfp_fill_payload:
  assumes "packet_wf p" "unat n + SFP_HEADER_SIZE \<le> CSP_BUFFER_SIZE" "unat k + unat n \<le> length data"
  shows "pdata (sfp_fill data tot n k p) = sfp_payload (take (unat n) (drop (unat k) data)) k tot"
    "packet_wf (sfp_fill data tot n k p)" "pid (sfp_fill data tot n k p) = pid p"
proof -
  define bs where "bs = take (unat n) (drop (unat k) data)"
  have bs: "length bs = unat n" using assms(3) by (simp add: bs_def)
  have n: "unat n \<le> 2040" using assms(2) by (simp add: SFP_HEADER_SIZE_def CSP_BUFFER_SIZE_def)
  then have l: "unat (ucast n :: u16) = unat n" by (simp add: unsigned_ucast_eq take_bit_nat_eq_self)
  have l8: "unat (ucast n + 8 :: u16) = unat n + 8"
    using l n by (subst unat_add_lem [THEN iffD1]) simp_all
  have fits: "data_at 0 + (unat n + 8) \<le> length (pmem p)" using assms(1) n by (simp add: packet_wf_def data_at_def CSP_BUFFER_SIZE_def)
  have "mwrite (data_at (unat n)) (be32_enc k) (mwrite (data_at (unat n) + 4) (be32_enc tot) (mwrite (data_at 0) bs (pmem p))) =
      mwrite (data_at (unat n)) (be32_enc k @ be32_enc tot) (mwrite (data_at 0) bs (pmem p))"
    by (rule mwrite_append(2)) (use fits bs in \<open>simp_all add: data_at_def\<close>)
  also have "\<dots> = mwrite (data_at 0) (sfp_payload bs k tot) (pmem p)"
    unfolding sfp_payload_def by (rule mwrite_append(1)) (use fits bs in \<open>simp_all add: data_at_def\<close>)
  finally have eq: "sfp_fill data tot n k p = p\<lparr>pmem := mwrite (data_at 0) (sfp_payload bs k tot) (pmem p), plength := ucast n + 8\<rparr>"
    by (simp add: sfp_fill_def csp_sfp_header_add_def Let_def SFP_HEADER_SIZE_def l bs_def)
  show "pdata (sfp_fill data tot n k p) = sfp_payload (take (unat n) (drop (unat k) data)) k tot"
    unfolding eq bs_def [symmetric] using fits bs by (simp add: pdata_def l8 mread_mwrite_same)
  show "packet_wf (sfp_fill data tot n k p)" "pid (sfp_fill data tot n k p) = pid p"
    unfolding eq using assms(1) fits bs n by (simp_all add: packet_wf_def l8 CSP_BUFFER_SIZE_def)
qed

lemma header_remove_wf:
  assumes "packet_wf p"
  shows "packet_wf (snd (csp_sfp_header_remove p))" "pid (snd (csp_sfp_header_remove p)) = pid p"
proof -
  have "unat (plength p - 8) = unat (plength p) - 8" if "8 \<le> unat (plength p)"
    using that by (subst unat_sub) (simp_all add: word_le_nat_alt)
  then show "packet_wf (snd (csp_sfp_header_remove p))"
    using assms by (auto simp: csp_sfp_header_remove_def Let_def packet_wf_def SFP_HEADER_SIZE_def data_at_def not_less)
  show "pid (snd (csp_sfp_header_remove p)) = pid p" by (simp add: csp_sfp_header_remove_def Let_def)
qed

lemma header_remove_payload:
  assumes "packet_wf p" "pdata p = sfp_payload bs off tot" "flags (pid p) AND CSP_FFRAG \<noteq> 0" "off \<le> tot"
  obtains q where "csp_sfp_header_remove p = (Some (off, tot), q)" "pdata q = bs" "unat (plength q) = length bs" "packet_wf q"
proof -
  have len: "unat (plength p) = length bs + 8" using arg_cong [OF assms(2), of length] assms(1) by simp
  have sub: "unat (plength p - 8) = length bs" using len by (subst unat_sub) (simp_all add: word_le_nat_alt)
  have size: "data_at 0 + (length bs + 8) \<le> length (pmem p)" using assms(1) len by (simp add: packet_wf_def data_at_def)
  have area: "mread (data_at 0) (length bs + 8) (pmem p) = bs @ be32_enc off @ be32_enc tot"
    using assms(2) len by (simp add: pdata_def sfp_payload_def)
  have split: "mread (data_at 0) (length bs + 8) (pmem p) = mread (data_at 0) (length bs) (pmem p) @
      mread (data_at (length bs)) 4 (pmem p) @ mread (data_at (length bs) + 4) 4 (pmem p)"
    using mread_append_split [of "data_at 0" "length bs" 8 "pmem p"] mread_append_split [of "data_at (length bs)" 4 4 "pmem p"]
    size by (simp add: data_at_def)
  have parts: "mread (data_at 0) (length bs) (pmem p) = bs \<and> mread (data_at (length bs)) 4 (pmem p) = be32_enc off \<and>
      mread (data_at (length bs) + 4) 4 (pmem p) = be32_enc tot"
    using area size unfolding split by (simp add: append_eq_append_conv data_at_def)
  define m where "m = mwrite (data_at (length bs)) (rev (be32_enc off)) (pmem p)"
  have m: "mread (data_at (length bs) + 4) 4 m = be32_enc tot" "mread (data_at 0) (length bs) m = bs" "length m = length (pmem p)"
    using parts size by (simp_all add: m_def mread_mwrite_disjoint data_at_def)
  define q where "q = p\<lparr>plength := plength p - 8, pmem := mwrite (data_at (length bs) + 4) (rev (be32_enc tot)) m\<rparr>"
  have "csp_sfp_header_remove p = (Some (off, tot), q)"
    using assms(3,4) len parts m by (simp add: csp_sfp_header_remove_def Let_def SFP_HEADER_SIZE_def q_def m_def)
  moreover have "pdata q = bs" "unat (plength q) = length bs" "packet_wf q"
    using m size assms(1) len by (simp_all add: q_def pdata_def sub mread_mwrite_disjoint data_at_def packet_wf_def)
  ultimately show ?thesis by (rule that)
qed

section \<open>Receiving whatever arrives\<close>

text \<open>What the receiver relies on: the allocator gives memory of the size it is asked for. An allocation that leaves less than one packet
  to the end of the 32-bit range is excluded; for such a size the check of a fragment overflows.\<close>

definition malloc_ok :: "(u32 \<Rightarrow> byte list option) \<Rightarrow> bool" where
  "malloc_ok malloc \<longleftrightarrow> (\<forall>n bs. malloc n = Some bs \<longrightarrow> length bs = unat n \<and> n \<le> 0xFFFF0000)"

definition sfp_buffer :: "byte list option \<Rightarrow> u32 \<Rightarrow> bool" where
  "sfp_buffer data n \<longleftrightarrow> (\<forall>d. data = Some d \<longrightarrow> length d = unat n \<and> n \<le> 0xFFFF0000)"

lemma header_remove_le: "csp_sfp_header_remove p = (Some (off, tot), q) \<Longrightarrow> off \<le> tot"
  by (auto simp: csp_sfp_header_remove_def Let_def split: if_splits)

lemma no_wrap:
  fixes off n :: u32 and l :: u16
  assumes "off \<le> n" "n \<le> 0xFFFF0000" "off + ucast l \<le> n"
  shows "unat off + unat l \<le> unat n"
proof -
  have l: "unat l < 2 ^ LENGTH(16)" by (rule unsigned_less)
  then have u: "unat (ucast l :: u32) = unat l" by (simp add: unsigned_ucast_eq take_bit_nat_eq_self)
  have "unat off \<le> 0xFFFF0000" using assms(1,2) by (simp add: word_le_nat_alt)
  then have "unat (off + ucast l) = unat off + unat l" using l u by (subst unat_add_lem [THEN iffD1]) simp_all
  then show ?thesis using assms(3) by (simp add: word_le_nat_alt)
qed

lemma sfp_fragment_ok:
  assumes "malloc_ok malloc" "sfp_buffer data n" "csp_sfp_header_remove p = (h, q)" "packet_wf q"
  shows "case sfp_fragment malloc h q data n off of
      Sfp_error e \<Rightarrow> e \<noteq> CSP_ERR_NONE | Sfp_fault \<Rightarrow> False | Sfp_done d \<Rightarrow> True | Sfp_more d n' off' \<Rightarrow> sfp_buffer (Some d) n'"
proof (cases "h = None \<or> fst (the h) \<noteq> off")
  case True
  then show ?thesis by (cases h) (auto simp: sfp_fragment_def csp_err_defs)
next
  case False
  then obtain tot where h: "h = Some (off, tot)" by (cases h) auto
  have le: "off \<le> tot" using header_remove_le assms(3) h by blast
  let ?a = "case data of Some d \<Rightarrow> Some (d, n) | None \<Rightarrow> map_option (\<lambda>d. (d, tot)) (malloc tot)"
  show ?thesis
  proof (cases ?a)
    case None
    then show ?thesis using h by (simp add: sfp_fragment_def csp_err_defs)
  next
    case (Some dn)
    obtain d k where dn: "dn = (d, k)" by (rule prod.exhaust)
    have k: "length d = unat k" "k \<le> 0xFFFF0000"
      using Some dn assms(1,2) by (auto simp: malloc_ok_def sfp_buffer_def split: option.splits)
    show ?thesis
    proof (cases "off + ucast (plength q) > k \<or> k \<noteq> tot")
      case True
      then show ?thesis using h Some dn by (simp add: sfp_fragment_def csp_err_defs)
    next
      case False
      then have nw: "unat off + unat (plength q) \<le> unat k" using le k(2) by (intro no_wrap) (auto simp: not_less)
      then have "length (mwrite (unat off) (pdata q) d) = unat k" using k(1) assms(4) by simp
      then show ?thesis using h Some dn False nw k(2) by (simp add: sfp_fragment_def Let_def csp_err_defs sfp_buffer_def)
    qed
  qed
qed

lemma recv_loop_ok:
  assumes "malloc_ok malloc" "\<And>k n. sound_task (w k n)" "stack_ok (add_mset packet M) s" "c < length (conns s)" "sfp_buffer data n"
    and "sfp_recv_loop malloc w c timeout packet data n off s = (e, r, t)"
  shows "stack_ok M t \<and> same_size s t \<and> (e = CSP_ERR_NONE \<longleftrightarrow> r \<noteq> None)"
  using assms
proof (induction malloc w c timeout packet data n off s rule: sfp_recv_loop.induct)
  case (1 malloc w c timeout packet data n off s)
  obtain h q where hq: "csp_sfp_header_remove (pkt s packet) = (h, q)" by (rule prod.exhaust)
  have "packet_wf (pkt s packet)" using held_allocated(4) [of "add_mset packet M" s packet] 1(4) by (simp add: stack_ok_def)
  then have q: "packet_wf q" using header_remove_wf(1) [of "pkt s packet"] hq by simp
  define u where "u = set_pkt packet q s"
  have u: "stack_ok (add_mset packet M) u" "same_size s u" using stack_ok_set_pkt [OF 1(4) q] by (simp_all add: u_def)
  have f: "stack_ok M (csp_buffer_free (Some packet) u)" "same_size s (csp_buffer_free (Some packet) u)"
    using stack_ok_free [OF u(1)] same_size_trans [OF u(2)] by blast+
  note fr = sfp_fragment_ok [OF 1(2,6) hq q, of off]
  note run = 1(7) [unfolded sfp_recv_loop.simps [of malloc w c timeout packet data n off s] hq prod.case Let_def u_def [symmetric]]
  show ?case
  proof (cases "sfp_fragment malloc h q data n off")
    case (Sfp_more d n' off')
    obtain r' v where rd: "csp_read (w off') (Some c) timeout (csp_buffer_free (Some packet) u) = (r', v)" by (rule prod.exhaust)
    have c: "c < length (conns (csp_buffer_free (Some packet) u))" using 1(5) f(2) by (simp add: same_size_def)
    note rok = read_ok [OF f(1) c 1(3) rd]
    show ?thesis
    proof (cases r')
      case None
      then show ?thesis using run Sfp_more rd rok same_size_trans [OF f(2)] by (auto simp: csp_err_defs)
    next
      case (Some packet')
      have "sfp_recv_loop malloc w c timeout packet' (Some d) n' off' v = (e, r, t)"
        using run Sfp_more rd Some by simp
      moreover have "stack_ok (add_mset packet' M) v" "same_size s v" "c < length (conns v)"
        using rok Some same_size_trans [OF f(2)] c by (auto simp: same_size_def)
      moreover have "sfp_buffer (Some d) n'" using fr Sfp_more by simp
      ultimately show ?thesis
        using 1(1) [OF hq [symmetric] u_def Sfp_more rd [symmetric] Some 1(2,3)] same_size_trans by blast
    qed
  qed (use run f fr in \<open>auto simp: csp_err_defs\<close>)
qed

text \<open>The bound on the allocation is needed: with a size at the end of the 32-bit range the sum of offset and length wraps around in the check, and a
  fragment is copied behind the end of the memory.\<close>

lemma sfp_fragment_wraps:
  assumes "plength p = 0x20"
  shows "sfp_fragment malloc (Some (0xFFFFFFF0, 0xFFFFFFFF)) p (Some d) 0xFFFFFFFF 0xFFFFFFF0 = Sfp_fault"
  using assms by (simp add: sfp_fragment_def)

section \<open>Receiving the fragments of a sender\<close>

lemma sfp_fragment_next:
  assumes "pdata q = bs" "unat (plength q) = length bs" "bs \<noteq> []" "length a + length bs \<le> tot" "tot < 2 ^ 32"
    and "case data of None \<Rightarrow> a = [] \<and> (\<exists>d. malloc (of_nat tot) = Some d \<and> length d = tot)
      | Some d \<Rightarrow> length d = tot \<and> take (length a) d = a \<and> n = of_nat tot"
  obtains d where "length d = tot" "take (length (a @ bs)) d = a @ bs"
    "sfp_fragment malloc (Some (of_nat (length a), of_nat tot)) q data n (of_nat (length a)) =
      (if length (a @ bs) = tot then Sfp_done d else Sfp_more d (of_nat tot) (of_nat (length (a @ bs))))"
proof -
  obtain d0 where d0: "(case data of Some d \<Rightarrow> Some (d, n) | None \<Rightarrow> map_option (\<lambda>d. (d, of_nat tot)) (malloc (of_nat tot))) =
      Some (d0, of_nat tot)" "length d0 = tot" "take (length a) d0 = a"
    using assms(6) by (cases data) auto
  have u: "unat (of_nat k :: u32) = k" if "k \<le> tot" for k using that assms(5) by (simp add: unat_of_nat)
  have off: "of_nat (length a) + ucast (plength q) = (of_nat (length (a @ bs)) :: u32)"
  proof -
    have "ucast (plength q) = (of_nat (unat (plength q)) :: u32)" by simp
    then show ?thesis unfolding assms(2) by simp
  qed
  have pl: "plength q \<noteq> 0" using assms(2,3) by auto
  define d where "d = mwrite (length a) bs d0"
  have d: "length d = tot" "take (length (a @ bs)) d = a @ bs" using d0 assms(4) by (simp_all add: d_def mwrite_def)
  define l where "l = length (a @ bs)"
  have l: "l \<le> tot" "length a \<le> tot" "length a + length bs = l" using assms(4) by (simp_all add: l_def)
  have c: "\<not> of_nat tot < (of_nat l :: u32)" "\<not> unat (of_nat tot :: u32) < unat (of_nat (length a) :: u32) + unat (plength q)"
    "(of_nat tot :: u32) \<le> of_nat l \<longleftrightarrow> l = tot"
    using u l assms(2) by (auto simp: word_less_nat_alt word_le_nat_alt)
  have "sfp_fragment malloc (Some (of_nat (length a), of_nat tot)) q data n (of_nat (length a)) =
      (if l = tot then Sfp_done d else Sfp_more d (of_nat tot) (of_nat l))"
    unfolding sfp_fragment_def option.case prod.case d0(1) off [folded l_def] Let_def assms(1) u [OF l(2)] d_def
    using pl by (simp add: c(1,3) c(2) [unfolded u [OF l(2)]])
  with d show ?thesis unfolding l_def by (rule that)
qed

fun fragments :: "csp_state \<Rightarrow> nat \<Rightarrow> u32 \<Rightarrow> (nat \<times> byte list) list \<Rightarrow> bool" where
  "fragments s off tot [] = True"
| "fragments s off tot ((h, bs) # xs) =
     (pdata (pkt s h) = sfp_payload bs (of_nat off) tot \<and> flags (pid (pkt s h)) AND CSP_FFRAG \<noteq> 0 \<and> bs \<noteq> [] \<and>
      fragments s (off + length bs) tot xs)"

lemma fragments_cong: "(\<And>h. h \<in> fst ` set xs \<Longrightarrow> pkt t h = pkt s h) \<Longrightarrow> fragments t off tot xs = fragments s off tot xs"
  by (induction s off tot xs rule: fragments.induct) auto

text \<open>The state of a transfer: the packet \<open>h\<close> in the hands of the receiver and the ones in its queue continue the data \<open>a\<close> received so far.\<close>

definition transfer :: "nat multiset \<Rightarrow> nat \<Rightarrow> byte list \<Rightarrow> nat \<Rightarrow> (nat \<times> byte list) list \<Rightarrow> csp_state \<Rightarrow> bool" where
  "transfer M c a tot xs s \<longleftrightarrow> stack_ok M s \<and> c < length (conns s) \<and> cstate (conn s c) = CONN_OPEN \<and>
     queue_list (rx_queue (conn s c)) = map (\<lambda>x. Some (fst x)) xs \<and> fragments s (length a) (of_nat tot) xs \<and>
     tot = length (a @ concat (map snd xs))"

definition received :: "(u32 \<Rightarrow> byte list option) \<Rightarrow> byte list option \<Rightarrow> u32 \<Rightarrow> byte list \<Rightarrow> nat \<Rightarrow> bool" where
  "received malloc data n a tot \<longleftrightarrow> tot < 2 ^ 32 \<and> (case data of None \<Rightarrow> a = [] \<and> (\<exists>d. malloc (of_nat tot) = Some d \<and> length d = tot)
      | Some d \<Rightarrow> length d = tot \<and> take (length a) d = a \<and> n = of_nat tot)"

lemma recv_step:
  assumes "stack_ok (add_mset h M) s" "c < length (conns s)" "cstate (conn s c) = CONN_OPEN"
    and "queue_list (rx_queue (conn s c)) = map (\<lambda>x. Some (fst x)) xs"
    and "fragments s (length a) (of_nat tot) ((h, bs) # xs)" "tot = length (a @ bs @ concat (map snd xs))"
    and "received malloc data n a tot"
  obtains d u where "transfer M c (a @ bs) tot xs u" "received malloc (Some d) (of_nat tot) (a @ bs) tot"
    "sfp_recv_loop malloc w c timeout h data n (of_nat (length a)) s =
      (if length (a @ bs) = tot then (CSP_ERR_NONE, Some d, u)
       else case csp_read (w (of_nat (length (a @ bs)))) (Some c) timeout u of
              (None, s) \<Rightarrow> (CSP_ERR_TIMEDOUT, None, s)
            | (Some packet, s) \<Rightarrow> sfp_recv_loop malloc w c timeout packet (Some d) (of_nat tot) (of_nat (length (a @ bs))) s)"
proof -
  have ac: "acct (add_mset h M) s" using assms(1) by (simp add: stack_ok_def)
  have h: "packet_wf (pkt s h)" "h < length (bufs s)" using held_allocated [OF ac, of h] by simp_all
  have len: "(of_nat (length a) :: u32) \<le> of_nat tot"
  proof -
    have "length a \<le> tot" "tot < 2 ^ 32" using assms(6,7) by (simp_all add: received_def)
    then show ?thesis by (simp add: word_le_nat_alt unat_of_nat)
  qed
  obtain q where q: "csp_sfp_header_remove (pkt s h) = (Some (of_nat (length a), of_nat tot), q)" "pdata q = bs"
    "unat (plength q) = length bs" "packet_wf q"
    by (rule header_remove_payload [OF h(1) _ _ len]) (use assms(5) in auto)
  obtain d where d: "length d = tot" "take (length (a @ bs)) d = a @ bs"
    "sfp_fragment malloc (Some (of_nat (length a), of_nat tot)) q data n (of_nat (length a)) =
      (if length (a @ bs) = tot then Sfp_done d else Sfp_more d (of_nat tot) (of_nat (length (a @ bs))))"
    by (rule sfp_fragment_next [OF q(2,3), where a = a and tot = tot and data = data and malloc = malloc and n = n]) (use assms(5-7) in \<open>auto simp: received_def\<close>)
  define u where "u = csp_buffer_free (Some h) (set_pkt h q s)"
  have st: "stack_ok (add_mset h M) (set_pkt h q s)" by (rule stack_ok_set_pkt(1) [OF assms(1) q(4)])
  then have ac': "acct (add_mset h M) (set_pkt h q s)" by (simp add: stack_ok_def)
  note fr = acct_free [OF ac'] and mf = more_fields [OF acct_free(2) [OF ac']]
  have conns: "conns u = conns s" "conn u k = conn s k" for k unfolding u_def mf by (simp_all add: set_pkt_def conn_def)
  have pk: "pkt u k = pkt s k" if "k \<noteq> h" for k using that fr(3) [of k] by (simp add: u_def)
  have "h \<notin> fst ` set xs" using held_not_queued [OF assms(1,2)] unfolding assms(4) by force
  then have "fragments u (length (a @ bs)) (of_nat tot) xs"
    using assms(5) fragments_cong [of xs u s] pk by (metis fragments.simps(2) length_append)
  then have "transfer M c (a @ bs) tot xs u"
    using stack_ok_free(1) [OF st] conns assms(2-4,6) by (simp add: transfer_def u_def [symmetric])
  moreover have "received malloc (Some d) (of_nat tot) (a @ bs) tot" using d(1,2) assms(7) by (simp add: received_def)
  moreover have "sfp_recv_loop malloc w c timeout h data n (of_nat (length a)) s =
      (if length (a @ bs) = tot then (CSP_ERR_NONE, Some d, u)
       else case csp_read (w (of_nat (length (a @ bs)))) (Some c) timeout u of
              (None, s) \<Rightarrow> (CSP_ERR_TIMEDOUT, None, s)
            | (Some packet, s) \<Rightarrow> sfp_recv_loop malloc w c timeout packet (Some d) (of_nat tot) (of_nat (length (a @ bs))) s)"
    unfolding sfp_recv_loop.simps [of malloc w c timeout h data n "of_nat (length a)" s] q(1) prod.case Let_def d(3) u_def [symmetric]
    by (cases "length (a @ bs) = tot") (simp_all only: if_True if_False sfp_step.case simp_thms)
  ultimately show ?thesis by (rule that)
qed

lemma transfer_read:
  assumes "transfer M c a tot ((h, bs) # xs) s" "csp_read w (Some c) timeout s = (r, t)"
  shows "r = Some h" "stack_ok (add_mset h M) t" "c < length (conns t)" "cstate (conn t c) = CONN_OPEN"
    "queue_list (rx_queue (conn t c)) = map (\<lambda>x. Some (fst x)) xs" "fragments t (length a) (of_nat tot) ((h, bs) # xs)"
proof -
  have tr: "stack_ok M s" "c < length (conns s)" "cstate (conn s c) = CONN_OPEN"
    "queue_list (rx_queue (conn s c)) = Some h # map (\<lambda>x. Some (fst x)) xs" "fragments s (length a) (of_nat tot) ((h, bs) # xs)"
    using assms(1) unfolding transfer_def by auto
  note rd = read_next [OF tr(1-4) assms(2)]
  show "r = Some h" "stack_ok (add_mset h M) t" "c < length (conns t)" "cstate (conn t c) = CONN_OPEN"
    "queue_list (rx_queue (conn t c)) = map (\<lambda>x. Some (fst x)) xs" by (rule rd)+
  have "fragments t (length a) (of_nat tot) ((h, bs) # xs) = fragments s (length a) (of_nat tot) ((h, bs) # xs)"
  proof (rule fragments_cong)
    fix k assume "k \<in> fst ` set ((h, bs) # xs)"
    then have "Some k \<in> set (Some h # map (\<lambda>x. Some (fst x)) xs)" by force
    then show "pkt t k = pkt s k" by (rule rd(4))
  qed
  then show "fragments t (length a) (of_nat tot) ((h, bs) # xs)" using tr(5) by simp
qed

lemma recv_loop_fragments:
  assumes "stack_ok (add_mset h M) s" "c < length (conns s)" "cstate (conn s c) = CONN_OPEN"
    and "queue_list (rx_queue (conn s c)) = map (\<lambda>x. Some (fst x)) xs"
    and "fragments s (length a) (of_nat tot) ((h, bs) # xs)" "tot = length (a @ bs @ concat (map snd xs))"
    and "received malloc data n a tot"
  shows "\<exists>t. sfp_recv_loop malloc w c timeout h data n (of_nat (length a)) s = (CSP_ERR_NONE, Some (a @ bs @ concat (map snd xs)), t) \<and>
    stack_ok M t \<and> queue_list (rx_queue (conn t c)) = []"
  using assms
proof (induction xs arbitrary: a h bs data n s)
  case (Nil a h bs data n s)
  obtain d u where st: "transfer M c (a @ bs) tot [] u" "received malloc (Some d) (of_nat tot) (a @ bs) tot"
    "sfp_recv_loop malloc w c timeout h data n (of_nat (length a)) s =
      (if length (a @ bs) = tot then (CSP_ERR_NONE, Some d, u)
       else case csp_read (w (of_nat (length (a @ bs)))) (Some c) timeout u of
              (None, s) \<Rightarrow> (CSP_ERR_TIMEDOUT, None, s)
            | (Some packet, s) \<Rightarrow> sfp_recv_loop malloc w c timeout packet (Some d) (of_nat tot) (of_nat (length (a @ bs))) s)"
    by (rule recv_step [OF Nil, where w = w and timeout = timeout])
  have "length (a @ bs) = tot" using Nil(6) by simp
  moreover have "d = a @ bs" using st(2) calculation by (auto simp: received_def)
  ultimately show ?case using st(1,3) by (simp add: transfer_def)
next
  case (Cons x xs a h bs data n s)
  obtain d u where st: "transfer M c (a @ bs) tot (x # xs) u" "received malloc (Some d) (of_nat tot) (a @ bs) tot"
    "sfp_recv_loop malloc w c timeout h data n (of_nat (length a)) s =
      (if length (a @ bs) = tot then (CSP_ERR_NONE, Some d, u)
       else case csp_read (w (of_nat (length (a @ bs)))) (Some c) timeout u of
              (None, s) \<Rightarrow> (CSP_ERR_TIMEDOUT, None, s)
            | (Some packet, s) \<Rightarrow> sfp_recv_loop malloc w c timeout packet (Some d) (of_nat tot) (of_nat (length (a @ bs))) s)"
    by (rule recv_step [OF Cons(2-8), where w = w and timeout = timeout])
  obtain h' bs' where x: "x = (h', bs')" by (rule prod.exhaust)
  obtain r t where rd: "csp_read (w (of_nat (length (a @ bs)))) (Some c) timeout u = (r, t)" by (rule prod.exhaust)
  note tr = transfer_read [OF st(1) [unfolded x] rd]
  have "bs' \<noteq> []" using tr(6) by simp
  then have ne: "length (a @ bs) \<noteq> tot" using Cons(7) x by simp
  have tot: "tot = length ((a @ bs) @ bs' @ concat (map snd xs))" using Cons(7) x by simp
  obtain v where "sfp_recv_loop malloc w c timeout h' (Some d) (of_nat tot) (of_nat (length (a @ bs))) t =
      (CSP_ERR_NONE, Some ((a @ bs) @ bs' @ concat (map snd xs)), v)" "stack_ok M v" "queue_list (rx_queue (conn v c)) = []"
    using Cons(1) [OF tr(2-6) tot st(2)] by blast
  then show ?case unfolding st(3) using ne rd tr(1) x by simp
qed

text \<open>The pieces a sender cuts the data into.\<close>

definition sfp_chunk :: "byte list \<Rightarrow> nat \<Rightarrow> nat \<Rightarrow> byte list" where
  "sfp_chunk data m k = take (min m (length data - k * m)) (drop (k * m) data)"

lemma concat_chunks: "concat (map (sfp_chunk data m) [0..<n]) = take (n * m) data"
proof (induction n)
  case (Suc n)
  have "sfp_chunk data m n = take m (drop (n * m) data)" by (simp add: sfp_chunk_def min_def)
  moreover have "take (Suc n * m) data = take (n * m) data @ take m (drop (n * m) data)"
    using take_add [of "n * m" m data] by (simp add: add.commute)
  ultimately show ?case using Suc by simp
qed simp

lemma fragments_upt:
  assumes "\<And>k. k < n \<Longrightarrow> pdata (pkt s (hs ! k)) = sfp_payload (sfp_chunk data m k) (of_nat (k * m)) tot \<and>
      flags (pid (pkt s (hs ! k))) AND CSP_FFRAG \<noteq> 0"
    and "0 < m" "\<And>k. k < n \<Longrightarrow> k * m < length data" "i \<le> n"
  shows "fragments s (i * m) tot (map (\<lambda>k. (hs ! k, sfp_chunk data m k)) [i..<n])"
  using assms(4)
proof (induction "n - i" arbitrary: i)
  case (Suc j)
  then have i: "i < n" by simp
  have rest: "fragments s (Suc i * m) tot (map (\<lambda>k. (hs ! k, sfp_chunk data m k)) [Suc i..<n])"
    by (rule Suc(1)) (use Suc(2,3) i in auto)
  have len: "length (sfp_chunk data m i) = min m (length data - i * m)" by (simp add: sfp_chunk_def)
  have "sfp_chunk data m i \<noteq> []" using len assms(2) assms(3) [OF i] by auto
  moreover have "fragments s (i * m + length (sfp_chunk data m i)) tot (map (\<lambda>k. (hs ! k, sfp_chunk data m k)) [Suc i..<n])"
  proof (cases "Suc i < n")
    case True
    then have "length (sfp_chunk data m i) = m" using assms(3) [OF True] len by simp
    then show ?thesis using rest by (simp add: add.commute)
  qed simp
  ultimately show ?case using assms(1) [OF i] i by (simp add: upt_conv_Cons)
qed simp

section \<open>Properties\<close>

text \<open>C26: Segmentation. The data cut into fragments of at most \<open>m\<close> bytes by the sender, in packets as the sender fills them, is put
  together again by the receiver that finds these packets in the queue of its connection: the call returns
  without error and with the data, whatever its length, and every buffer is released.\<close>

theorem csp_sfp_roundtrip:
  assumes "stack_ok M s" "c < length (conns s)" "cstate (conn s c) = CONN_OPEN" "queue_list (rx_queue (conn s c)) = map Some hs"
    and "data \<noteq> []" "length data < 2 ^ 32" "0 < m" "m + SFP_HEADER_SIZE \<le> CSP_BUFFER_SIZE" "length hs = (length data + m - 1) div m"
    and sent: "\<And>k. k < length hs \<Longrightarrow> flags (pid (pkt s (hs ! k))) AND CSP_FFRAG \<noteq> 0 \<and>
      (\<exists>p. packet_wf p \<and> pdata (pkt s (hs ! k)) =
        pdata (sfp_fill data (of_nat (length data)) (of_nat (min m (length data - k * m))) (of_nat (k * m)) p))"
    and "malloc (of_nat (length data)) = Some d" "length d = length data"
  shows "\<exists>t. csp_sfp_recv_fp malloc w c timeout None s = (CSP_ERR_NONE, Some data, t) \<and> stack_ok M t \<and> queue_list (rx_queue (conn t c)) = []"
proof -
  define n where "n = length hs"
  define xs where "xs = map (\<lambda>k. (hs ! k, sfp_chunk data m k)) [0..<n]"
  have km: "k * m < length data" if "k < n" for k
  proof -
    have "Suc k * m \<le> (length data + m - 1) div m * m" using that assms(9) by (intro mult_right_mono) (simp_all add: n_def)
    also have "\<dots> \<le> length data + m - 1" by (rule div_times_less_eq_dividend)
    finally show ?thesis using assms(7) by simp
  qed
  have pay: "pdata (pkt s (hs ! k)) = sfp_payload (sfp_chunk data m k) (of_nat (k * m)) (of_nat (length data)) \<and>
      flags (pid (pkt s (hs ! k))) AND CSP_FFRAG \<noteq> 0" if kn: "k < n" for k
  proof -
    have u: "unat (of_nat (k * m) :: u32) = k * m" "unat (of_nat (min m (length data - k * m)) :: u32) = min m (length data - k * m)"
      using km [OF kn] assms(6) by (auto simp: unat_of_nat simp del: of_nat_mult)
    obtain p where p: "packet_wf p" "pdata (pkt s (hs ! k)) =
        pdata (sfp_fill data (of_nat (length data)) (of_nat (min m (length data - k * m))) (of_nat (k * m)) p)"
      using sent kn unfolding n_def by blast
    have "pdata (pkt s (hs ! k)) = sfp_payload (sfp_chunk data m k) (of_nat (k * m)) (of_nat (length data))"
      unfolding p(2) sfp_chunk_def by (subst sfp_fill_payload(1) [OF p(1)]; unfold u; use km [OF kn] assms(8) in simp)
    then show ?thesis using sent kn unfolding n_def by blast
  qed
  have cover: "length data \<le> n * m"
  proof -
    have "length data + m - 1 < Suc n * m" using dividend_less_div_times [OF assms(7), of "length data + m - 1"] assms(9) by (simp add: n_def add.commute)
    then show ?thesis by simp
  qed
  have "map snd xs = map (sfp_chunk data m) [0..<n]" "map fst xs = hs" by (simp_all add: xs_def o_def n_def map_nth)
  then have xs: "concat (map snd xs) = data" "map (\<lambda>x. Some (fst x)) xs = map Some hs"
    using concat_chunks [of data m n] cover by auto
  have frag: "fragments s (0 * m) (of_nat (length data)) xs"
    unfolding xs_def by (rule fragments_upt [OF pay assms(7) km]) simp_all
  have "xs \<noteq> []" using xs(1) assms(5) by auto
  then obtain h bs ys where x: "xs = (h, bs) # ys" by (cases xs) auto
  have "transfer M c [] (length data) ((h, bs) # ys) s"
    using assms(1-4) frag xs unfolding transfer_def x by simp
  moreover obtain r t where rd: "csp_read (w 0) (Some c) timeout s = (r, t)" by (rule prod.exhaust)
  ultimately have tr: "r = Some h" "stack_ok (add_mset h M) t" "c < length (conns t)" "cstate (conn t c) = CONN_OPEN"
    "queue_list (rx_queue (conn t c)) = map (\<lambda>x. Some (fst x)) ys" "fragments t (length ([] :: byte list)) (of_nat (length data)) ((h, bs) # ys)"
    by (rule transfer_read)+
  have "received malloc None 0 [] (length data)" using assms(6,11,12) by (simp add: received_def)
  moreover have "length data = length ([] @ bs @ concat (map snd ys))" using xs(1) by (auto simp: x)
  ultimately show ?thesis
    using recv_loop_fragments [OF tr(2-6), of malloc None 0 w timeout] xs(1) rd tr(1) by (simp add: csp_sfp_recv_fp_def x)
qed


text \<open>Sending releases or hands on every buffer too, as long as a fragment with its header fits a packet.\<close>

lemma stack_ok_set_flag:
  "stack_ok M (upd_conn c (\<lambda>k. k\<lparr>cidout := f k\<rparr>) s) = stack_ok M s" "same_size s (upd_conn c (\<lambda>k. k\<lparr>cidout := f k\<rparr>) s)"
  by (simp_all add: stack_ok_def acct_upd_conn)

theorem csp_sfp_send_conserves:
  assumes "\<forall>k. \<forall>f \<in> set (ws k). sound_task f" "unat totalsize \<le> length data" "unat mtu + SFP_HEADER_SIZE \<le> CSP_BUFFER_SIZE"
    and "stack_ok M s" "c < length (conns s)" "sfp_send_loop ws c data totalsize mtu count' s = (e, t)"
  shows "stack_ok M t \<and> same_size s t \<and> (e = CSP_ERR_INVAL \<longleftrightarrow> mtu = 0)"
  using assms
proof (induction ws c data totalsize mtu count' s rule: sfp_send_loop.induct)
  case (1 ws c data totalsize mtu k s)
  note run = 1(7) [unfolded sfp_send_loop.simps [of ws c data totalsize mtu k s]]
  show ?case
  proof (cases "mtu = 0 \<or> \<not> (k < totalsize \<and> csp_conn_is_active c s)")
    case True
    then show ?thesis using run 1(5) by (auto simp: csp_err_defs split: if_splits)
  next
    case False
    then have kt: "k < totalsize" "mtu \<noteq> 0" by auto
    obtain r u where get: "csp_buffer_get s = (r, u)" by (rule prod.exhaust)
    note g = stack_ok_get [OF 1(5) get]
    show ?thesis
    proof (cases r)
      case None
      then show ?thesis using run False get g by (auto simp: csp_err_defs)
    next
      case (Some p)
      define n where "n = (if totalsize - k > mtu then mtu else totalsize - k)"
      note sz = chunk_size [OF kt, folded n_def]
      have fits: "unat n + SFP_HEADER_SIZE \<le> CSP_BUFFER_SIZE" "unat k + unat n \<le> length data"
        using sz(1) 1(3,4) kt(1) by (auto simp: word_less_nat_alt)
      define u1 where "u1 = upd_conn c (\<lambda>k. k\<lparr>cidout := (cidout k)\<lparr>flags := flags (cidout k) OR CSP_FFRAG\<rparr>\<rparr>) u"
      have u1: "stack_ok (add_mset p M) u1" "same_size s u1"
        using g Some same_size_trans [OF g(2)] by (simp_all add: u1_def stack_ok_set_flag)
      define u2 where "u2 = set_pkt p (sfp_fill data totalsize n k (pkt u1 p)) u1"
      have "packet_wf (pkt u1 p)" using held_allocated(4) [of "add_mset p M" u1 p] u1(1) by (simp add: stack_ok_def)
      from stack_ok_set_pkt [OF u1(1) sfp_fill_payload(2) [OF this fits]]
      have u2: "stack_ok (add_mset p M) u2" "same_size s u2" using same_size_trans [OF u1(2)] unfolding u2_def by blast+
      define u3 where "u3 = csp_send (ws k) (Some c) (Some p) u2"
      have "c < length (conns u2)" using u2(2) 1(6) by (simp add: same_size_def)
      then have u3: "stack_ok M u3" "same_size u2 u3" using send_ok [OF u2(1) _ _ u3_def] 1(2) by blast+
      have "sfp_send_loop ws c data totalsize mtu (k + n) u3 = (e, t)"
        using run False get Some fits(1) by (simp add: Let_def n_def [symmetric] u3_def u2_def u1_def)
      moreover have "c < length (conns u3)" "same_size s u3" using u3(2) same_size_trans [OF u2(2)] 1(6) by (auto simp: same_size_def)
      moreover have "\<not> \<not> (k < totalsize \<and> csp_conn_is_active c s)" "\<not> CSP_BUFFER_SIZE < unat n + SFP_HEADER_SIZE" using False fits(1) by auto
      ultimately show ?thesis
        using 1(1) [OF kt(2) _ get [symmetric] Some refl n_def _ u1_def u2_def u3_def 1(2-4) u3(1)] same_size_trans by blast
    qed
  qed
qed

section \<open>Examples\<close>

definition sfp_ex :: csp_state where
  "sfp_ex = snd (csp_conn_enqueue_packet 0 (Some 0) (set_pkt 0 (sfp_fill [1, 2, 3] 3 3 0
     (packet0\<lparr>pid := csp_id_clear\<lparr>flags := CSP_FFRAG\<rparr>\<rparr>)) rdp_node_ex))"

lemma sfp_ex_facts:
  defines "x \<equiv> sfp_fill [1, 2, 3] 3 3 0 (packet0\<lparr>pid := csp_id_clear\<lparr>flags := CSP_FFRAG\<rparr>\<rparr>)"
  shows "stack_ok {#} sfp_ex" "conns sfp_ex = [conn sfp_ex 0]" "cstate (conn sfp_ex 0) = CONN_OPEN"
    "queue_list (rx_queue (conn sfp_ex 0)) = [Some 0]" "pkt sfp_ex 0 = x"
proof -
  have wf: "packet_wf x" unfolding x_def by (rule sfp_fill_payload(2)) (simp_all add: SFP_HEADER_SIZE_def CSP_BUFFER_SIZE_def)
  define u where "u = set_pkt 0 x rdp_node_ex"
  have u: "acct {#0#} u" "pkt u 0 = x"
    using acct_set_pkt [OF rdp_node_ex_acct wf] held_allocated(2) [OF rdp_node_ex_acct, of 0] unfolding u_def by simp_all
  have u': "conns u = conns rdp_node_ex" "rx_sized u"
    by (simp_all add: u_def set_pkt_def rx_sized_def)
  obtain e t where en: "csp_conn_enqueue_packet 0 (Some 0) u = (e, t)" by (rule prod.exhaust)
  have "csp_queue_free (rx_queue (conn u 0)) = 4" "queue_list (rx_queue (conn u 0)) = []"
    using u'(1) by (simp_all add: conn_def conn_ex_def csp_queue_free_def pthread_queue_free_def queue_list_def)
  then obtain q where t: "acct {#} t" "t = upd_conn 0 (\<lambda>k. k\<lparr>rx_queue := q\<rparr>) u" "queue_list q = [Some 0]"
    using conn_enqueue_spec [OF _ _ en, of "{#}"] u(1) u'(1) by auto
  have "cstate (conn sfp_ex 0) = CONN_OPEN \<and> conns sfp_ex = [conn sfp_ex 0] \<and> queue_list (rx_queue (conn sfp_ex 0)) = [Some 0] \<and>
      stack_ok {#} sfp_ex \<and> pkt sfp_ex 0 = x"
    using t u(2) u' by (simp add: sfp_ex_def x_def [symmetric] u_def [symmetric] en stack_ok_def) (simp add: conn_def upd_conn_def conn_ex_def)
  then show "stack_ok {#} sfp_ex" "conns sfp_ex = [conn sfp_ex 0]" "cstate (conn sfp_ex 0) = CONN_OPEN"
    "queue_list (rx_queue (conn sfp_ex 0)) = [Some 0]" "pkt sfp_ex 0 = x" by blast+
qed

theorem csp_sfp_roundtrip_witness:
  "\<exists>t. csp_sfp_recv_fp (\<lambda>n. Some (replicate (unat n) 0)) (\<lambda>k n s. s) 0 100 None sfp_ex = (CSP_ERR_NONE, Some [1, 2, 3], t) \<and> stack_ok {#} t"
proof -
  note f = sfp_ex_facts
  have wf: "packet_wf (packet0\<lparr>pid := csp_id_clear\<lparr>flags := CSP_FFRAG\<rparr>\<rparr>)" by simp
  have "0 < length (conns sfp_ex)" unfolding f(2) by simp
  moreover have "pid (pkt sfp_ex 0) = csp_id_clear\<lparr>flags := CSP_FFRAG\<rparr>"
    unfolding f(5) by (subst sfp_fill_payload(3) [OF wf]) (simp_all add: SFP_HEADER_SIZE_def CSP_BUFFER_SIZE_def)
  moreover have "\<exists>p. packet_wf p \<and> pdata (sfp_fill [1, 2, 3] 3 3 0 (packet0\<lparr>pid := csp_id_clear\<lparr>flags := 16\<rparr>\<rparr>)) = pdata (sfp_fill [1, 2, 3] 3 3 0 p)"
    by (rule exI [of _ "packet0\<lparr>pid := csp_id_clear\<lparr>flags := 16\<rparr>\<rparr>"]) simp
  ultimately show ?thesis
    using csp_sfp_roundtrip [OF f(1) _ f(3), where hs = "[0]" and data = "[1, 2, 3]" and m = 100 and d = "replicate 3 0"
        and malloc = "\<lambda>n. Some (replicate (unat n) 0)" and w = "\<lambda>k n s. s" and timeout = 100] f(4,5) wf
    by (auto simp: SFP_HEADER_SIZE_def CSP_BUFFER_SIZE_def csp_flag_defs)
qed


end
