(* ===== verification/Param_List.thy ===== *)
theory Param_List
  imports Csp_Iflist Param
begin

text \<open>
  The list of parameters, \<open>lib/param/src/param/list/param_list.c\<close>: the parameters of the program itself, an array the linker
  puts together, followed by a linked list of parameters of other nodes that are created at run time, built with
  \<open>list_dynamic\<close> as the application is.

  A parameter is known by a number: the first ones are the static parameters, the others elements of \<open>heap\<close> in the order of their
  allocation. A released element is \<open>None\<close>. The value of an allocated parameter is a variable of its own, as in theory \<open>Param\<close>; when it is
  released the variable has no bytes left, so that an access to it sets \<open>ub\<close>. A name, unit or help text is
  the bytes of the string without the terminating zero.
\<close>

section \<open>State\<close>

record param_t = param +
  param_name :: "byte list"
  param_unit :: "byte list option"
  param_docstr :: "byte list option"
  param_timestamp :: u32

record lstate = pstate +
  statics :: "param_t list"
  heap :: "param_t option list"
  slist :: "nat list"

definition PM_REMOTE :: u32 where "PM_REMOTE = 2"
definition PM_PRIO_MASK :: u32 where "PM_PRIO_MASK = 0x3000"

definition heap_ref :: "'a lstate_scheme \<Rightarrow> nat \<Rightarrow> nat" where
  "heap_ref s h = length (statics s) + h"

definition param_at :: "'a lstate_scheme \<Rightarrow> nat \<Rightarrow> param_t" where
  "param_at s r = (if r < length (statics s) then statics s ! r else the (heap s ! (r - length (statics s))))"

definition param_is_static :: "'a lstate_scheme \<Rightarrow> nat \<Rightarrow> bool" where
  "param_is_static s r \<longleftrightarrow> statics s \<noteq> [] \<and> r < length (statics s)"

text \<open>The numbers of the types in messages. \<open>param_typesize\<close> is -1 for any other number.\<close>

definition param_types :: "param_type list" where
  "param_types = [PARAM_TYPE_UINT8, PARAM_TYPE_UINT16, PARAM_TYPE_UINT32, PARAM_TYPE_UINT64, PARAM_TYPE_INT8, PARAM_TYPE_INT16,
     PARAM_TYPE_INT32, PARAM_TYPE_INT64, PARAM_TYPE_XINT8, PARAM_TYPE_XINT16, PARAM_TYPE_XINT32, PARAM_TYPE_XINT64,
     PARAM_TYPE_FLOAT, PARAM_TYPE_DOUBLE, PARAM_TYPE_STRING, PARAM_TYPE_DATA, PARAM_TYPE_INVALID]"

definition type_of_num :: "u8 \<Rightarrow> param_type option" where
  "type_of_num n = (if unat n < length param_types then Some (param_types ! unat n) else None)"

fun index_of :: "'a \<Rightarrow> 'a list \<Rightarrow> nat" where
  "index_of x [] = 0"
| "index_of x (y # ys) = (if x = y then 0 else Suc (index_of x ys))"

definition num_of_type :: "param_type \<Rightarrow> u8" where
  "num_of_type ty = of_nat (index_of ty param_types)"

section \<open>Iteration\<close>

record param_list_iterator =
  phase :: nat
  element :: "nat option"

definition SLIST_FIRST :: "'a lstate_scheme \<Rightarrow> nat option" where
  "SLIST_FIRST s = (case slist s of [] \<Rightarrow> None | h # _ \<Rightarrow> Some (heap_ref s h))"

definition SLIST_NEXT :: "'a lstate_scheme \<Rightarrow> nat \<Rightarrow> nat option" where
  "SLIST_NEXT s r =
     (case dropWhile (\<lambda>h. heap_ref s h \<noteq> r) (slist s) of _ # h # _ \<Rightarrow> Some (heap_ref s h) | _ \<Rightarrow> None)"

definition param_list_iterate :: "'a lstate_scheme \<Rightarrow> param_list_iterator \<Rightarrow> nat option \<times> param_list_iterator" where
  "param_list_iterate s i =
     (case element i of
        None \<Rightarrow> let i = (if statics s \<noteq> [] then i\<lparr>phase := 0, element := Some 0\<rparr> else i\<lparr>phase := 1, element := SLIST_FIRST s\<rparr>)
                in (element i, i)
      | Some r \<Rightarrow>
          if phase i = 0
          then (if r + 1 < length (statics s) then (Some (r + 1), i\<lparr>element := Some (r + 1)\<rparr>)
                else (SLIST_FIRST s, i\<lparr>phase := 1, element := SLIST_FIRST s\<rparr>))
          else if phase i = 1 then (SLIST_NEXT s r, i\<lparr>element := SLIST_NEXT s r\<rparr>)
          else (None, i))"

text \<open>The elements the loop \<open>while ((param = param_list_iterate(&i)) != NULL)\<close> visits, in \<open>n\<close> calls.\<close>

fun iterate_from :: "nat \<Rightarrow> 'a lstate_scheme \<Rightarrow> param_list_iterator \<Rightarrow> nat list" where
  "iterate_from 0 s i = []"
| "iterate_from (Suc n) s i = (case param_list_iterate s i of (None, i) \<Rightarrow> [] | (Some r, i) \<Rightarrow> r # iterate_from n s i)"

definition param_list_loop :: "'a lstate_scheme \<Rightarrow> nat list" where
  "param_list_loop s = iterate_from (Suc (length (statics s) + length (slist s))) s \<lparr>phase = 0, element = None\<rparr>"

definition param_list_find_id :: "int \<Rightarrow> int \<Rightarrow> 'a lstate_scheme \<Rightarrow> nat option" where
  "param_list_find_id node i s =
     (let node = (if node < 0 then 0 else node)
      in find (\<lambda>r. uint (param_node (param_at s r)) = node \<and> uint (param_id (param_at s r)) = i) (param_list_loop s))"

definition param_list_find_name :: "int \<Rightarrow> byte list \<Rightarrow> 'a lstate_scheme \<Rightarrow> nat option" where
  "param_list_find_name node name s =
     (let node = (if node < 0 then 0 else node)
      in find (\<lambda>r. uint (param_node (param_at s r)) = node \<and> param_name (param_at s r) = name) (param_list_loop s))"

section \<open>Allocation\<close>

text \<open>The size of \<open>param_heap_t\<close> on the board: 88 bytes of \<open>param_t\<close>, a pointer, the timestamp and the texts.\<close>

definition PARAM_HEAP_SIZE :: nat where "PARAM_HEAP_SIZE = 296"

text \<open>\<open>mem\<close> says whether \<open>calloc\<close> has memory for a number of bytes. For a number that is no type the size is \<open>SIZE_MAX\<close>, which no allocation can have.\<close>

definition param_list_alloc :: "(nat \<Rightarrow> bool) \<Rightarrow> u8 \<Rightarrow> int \<Rightarrow> (param_type \<times> byte list) option" where
  "param_list_alloc mem ty size' =
     (if \<not> mem PARAM_HEAP_SIZE then None
      else case type_of_num ty of None \<Rightarrow> None
           | Some t \<Rightarrow> if mem (param_typesize t * nat size') then Some (t, replicate (param_typesize t * nat size') 0) else None)"

definition strlcpy :: "byte list \<Rightarrow> nat \<Rightarrow> byte list" where
  "strlcpy str n = take (n - 1) str"

definition param_list_create_remote ::
    "(nat \<Rightarrow> bool) \<Rightarrow> u16 \<Rightarrow> u16 \<Rightarrow> u8 \<Rightarrow> u32 \<Rightarrow> int \<Rightarrow> byte list \<Rightarrow> byte list option \<Rightarrow> byte list option \<Rightarrow>
     'a lstate_scheme \<Rightarrow> nat option \<times> 'a lstate_scheme" where
  "param_list_create_remote mem i node ty fl size' name unit help s =
     (let size' = (if size' < 1 then 1 else size')
      in case param_list_alloc mem ty size' of None \<Rightarrow> (None, s)
         | Some (t, buf) \<Rightarrow>
             let p = \<lparr>param_id = i, param_node = node, param_ty = t, param_mask = fl, param_addr = length (vars s), param_vmem = None,
                   array_size = size', array_step = int (param_typesize t), param_callback = None,
                   param_name = strlcpy name 36,
                   param_unit = Some (case unit of Some u \<Rightarrow> strlcpy u 10 | None \<Rightarrow> []),
                   param_docstr = Some (case help of Some d \<Rightarrow> strlcpy d 150 | None \<Rightarrow> []), param_timestamp = 0\<rparr>
             in (Some (heap_ref s (length (heap s))), s\<lparr>vars := vars s @ [buf], heap := heap s @ [Some p]\<rparr>))"

text \<open>Releasing a static parameter, or one that is released already, is undefined.\<close>

definition param_list_destroy :: "nat \<Rightarrow> 'a lstate_scheme \<Rightarrow> 'a lstate_scheme" where
  "param_list_destroy r s =
     (let h = r - length (statics s)
      in if r < length (statics s) \<or> length (heap s) \<le> h \<or> heap s ! h = None then s\<lparr>ub := True\<rparr>
         else s\<lparr>vars := (vars s)[param_addr (param_at s r) := []], heap := (heap s)[h := None]\<rparr>)"

section \<open>Adding and removing\<close>

text \<open>\<open>strcpy\<close> into an array of \<open>n\<close> bytes.\<close>

definition strcpy_fits :: "byte list option \<Rightarrow> nat \<Rightarrow> bool" where
  "strcpy_fits str n \<longleftrightarrow> (case str of None \<Rightarrow> False | Some x \<Rightarrow> length x < n)"

definition SLIST_INSERT_HEAD :: "nat \<Rightarrow> 'a lstate_scheme \<Rightarrow> 'a lstate_scheme" where
  "SLIST_INSERT_HEAD r s = s\<lparr>slist := (r - length (statics s)) # slist s\<rparr>"

definition param_list_add :: "nat \<Rightarrow> 'a lstate_scheme \<Rightarrow> int \<times> 'a lstate_scheme" where
  "param_list_add item s =
     (let p = param_at s item
      in case param_list_find_id (uint (param_node p)) (uint (param_id p)) s of
           Some r \<Rightarrow>
             if param_is_static s r then (1, s)
             else if \<not> (length (param_name p) < 36 \<and> strcpy_fits (param_unit p) 10 \<and> strcpy_fits (param_docstr p) 150)
             then (1, s\<lparr>ub := True\<rparr>)
             else (1, s\<lparr>heap := (heap s)[r - length (statics s) := Some ((param_at s r)
                    \<lparr>param_mask := param_mask p, param_ty := param_ty p, array_size := array_size p, array_step := array_step p,
                     param_name := param_name p, param_unit := param_unit p, param_docstr := param_docstr p\<rparr>)]\<rparr>)
         | None \<Rightarrow> (0, SLIST_INSERT_HEAD item s))"

text \<open>\<open>SLIST_REMOVE\<close> walks to the predecessor of the element, behind the end of the list if there is none.\<close>

definition SLIST_REMOVE :: "nat \<Rightarrow> 'a lstate_scheme \<Rightarrow> 'a lstate_scheme" where
  "SLIST_REMOVE r s =
     (if length (statics s) \<le> r \<and> r - length (statics s) \<in> set (slist s)
      then s\<lparr>slist := remove1 (r - length (statics s)) (slist s)\<rparr> else s\<lparr>ub := True\<rparr>)"

definition param_list_remove_specific :: "nat \<Rightarrow> bool \<Rightarrow> 'a lstate_scheme \<Rightarrow> 'a lstate_scheme" where
  "param_list_remove_specific r destroy s =
     (let s = SLIST_REMOVE r s in if destroy then param_list_destroy r s else s)"

text \<open>The loop of \<open>param_list_remove\<close>; it ends early where the behaviour is undefined.\<close>

fun remove_loop :: "nat \<Rightarrow> int \<Rightarrow> nat option \<Rightarrow> param_list_iterator \<Rightarrow> int \<Rightarrow> 'a lstate_scheme \<Rightarrow> int \<times> 'a lstate_scheme" where
  "remove_loop 0 node iter_param i count' s = (count', s)"
| "remove_loop (Suc n) node iter_param i count' s =
     (case iter_param of None \<Rightarrow> (count', s)
      | Some r \<Rightarrow>
          (case param_list_iterate s i of
             (iter_param, i) \<Rightarrow>
               if phase i = 0 then remove_loop n node iter_param i count' s
               else if node > 0 \<and> uint (param_node (param_at s r)) \<noteq> node then remove_loop n node iter_param i count' s
               else let s = param_list_destroy r (SLIST_REMOVE r s)
                    in if ub s then (count', s) else remove_loop n node iter_param i (count' + 1) s))"

definition param_list_remove :: "int \<Rightarrow> 'a lstate_scheme \<Rightarrow> int \<times> 'a lstate_scheme" where
  "param_list_remove node s =
     (case param_list_iterate s \<lparr>phase = 0, element = None\<rparr> of
        (iter_param, i) \<Rightarrow> remove_loop (Suc (length (statics s) + length (slist s))) node iter_param i 0 s)"

section \<open>Messages\<close>

text \<open>The layout of \<open>param_transfer_t\<close>, \<open>param_transfer2_t\<close> and \<open>param_transfer3_t\<close>: the names start at 8, 10 and 10, and
  the third one goes on with the type of the memory at 46, the unit at 47 and the help text at 57.\<close>

definition param_list_packed_size :: "int \<Rightarrow> nat" where
  "param_list_packed_size list_version =
     (if list_version = 1 then 44 else if list_version = 2 then 46 else if list_version = 3 then 207 else 0)"

definition c_bytes :: "nat \<Rightarrow> byte list \<Rightarrow> byte list" where
  "c_bytes off d = takeWhile (\<lambda>b. b \<noteq> 0) (drop off d)"

record rparam =
  rp_node :: u16
  rp_id :: u16
  rp_type :: u8
  rp_size :: u8
  rp_mask :: u32
  rp_name :: "byte list"
  rp_unit :: "byte list option"
  rp_help :: "byte list option"

text \<open>What \<open>param_list_unpack\<close> reads from a message and the message with the strings terminated.\<close>

definition unpack_name_end :: "int \<Rightarrow> nat \<Rightarrow> nat" where
  "unpack_name_end len name =
     (let strlen = (of_int (len - int name) :: u16) in if strlen \<ge> 36 then 35 else unat strlen)"

definition unpack_fields :: "byte list \<Rightarrow> int \<Rightarrow> int \<Rightarrow> rparam \<times> byte list" where
  "unpack_fields data len list_version =
     (if list_version = 1 then
        let d = data[8 + unpack_name_end len 8 := 0];
            n = be16_dec (mread 0 2 d); ty = d ! 2; size' = d ! 3; fl = be32_dec (mread 4 4 d) OR PM_REMOTE;
            d = d[8 + 35 := 0]
        in (\<lparr>rp_node = drop_bit 11 n, rp_id = n AND 0x7FF, rp_type = ty, rp_size = size', rp_mask = fl,
             rp_name = c_bytes 8 d, rp_unit = None, rp_help = None\<rparr>, d)
      else if list_version = 2 then
        let d = data[10 + unpack_name_end len 10 := 0];
            node = be16_dec (mread 2 2 d); i = be16_dec (mread 0 2 d); ty = d ! 4; size' = d ! 5;
            fl = be32_dec (mread 6 4 d) OR PM_REMOTE;
            d = d[10 + 35 := 0]
        in (\<lparr>rp_node = node, rp_id = i, rp_type = ty, rp_size = size', rp_mask = fl,
             rp_name = c_bytes 10 d, rp_unit = None, rp_help = None\<rparr>, d)
      else
        let d = data;
            node = be16_dec (mread 2 2 d); i = be16_dec (mread 0 2 d); ty = d ! 4; size' = d ! 5;
            fl = be32_dec (mread 6 4 d) OR PM_REMOTE;
            d = d[10 + 35 := 0, 47 + 9 := 0, 57 + 149 := 0]
        in (\<lparr>rp_node = node, rp_id = i, rp_type = ty, rp_size = size', rp_mask = fl,
             rp_name = c_bytes 10 d, rp_unit = Some (c_bytes 47 d), rp_help = Some (c_bytes 57 d)\<rparr>, d))"

definition param_list_unpack ::
    "(nat \<Rightarrow> bool) \<Rightarrow> int \<Rightarrow> byte list \<Rightarrow> int \<Rightarrow> int \<Rightarrow> bool \<Rightarrow> 'a lstate_scheme \<Rightarrow> int \<times> byte list \<times> 'a lstate_scheme" where
  "param_list_unpack mem node data len list_version include_remotes s =
     (case unpack_fields data len list_version of
        (m, d) \<Rightarrow>
          let addr = (if rp_node m = 0 then of_int node else rp_node m);
              size' = (if rp_size m = 255 then 1 else uint (rp_size m))
          in if \<not> include_remotes \<and> node \<noteq> uint addr then (1, d, s)
             else (case param_list_create_remote mem (rp_id m) addr (rp_type m) (rp_mask m) size' (rp_name m) (rp_unit m) (rp_help m) s of
                     (None, s) \<Rightarrow> (-1, d, s)
                   | (Some r, s) \<Rightarrow>
                       (case param_list_add r s of (e, s) \<Rightarrow> (0, d, if e \<noteq> 0 then param_list_destroy r s else s))))"

text \<open>The type of a virtual memory (\<open>VMEM_TYPE_RAM\<close>, \<open>VMEM_TYPE_FILE\<close>).\<close>

definition vmem_type :: "vmem_driver \<Rightarrow> u8" where
  "vmem_type drv = (case drv of VMEM_RAM \<Rightarrow> 1 | VMEM_FILE _ \<Rightarrow> 7)"

text \<open>Writes to the fields of a message at \<open>pos\<close>.\<close>

definition put_fields :: "nat \<Rightarrow> (nat \<times> byte list) list \<Rightarrow> byte list \<Rightarrow> byte list" where
  "put_fields pos fs d = foldl (\<lambda>d (off, bs). mwrite (pos + off) bs d) d fs"

definition transfer_head :: "param_t \<Rightarrow> (nat \<times> byte list) list" where
  "transfer_head p = [(0, be16_enc (param_id p)), (2, be16_enc (param_node p)), (4, [num_of_type (param_ty p)]),
     (5, [of_int (array_size p)]), (6, be32_enc (param_mask p))]"

definition pack_entry :: "int \<Rightarrow> 'a lstate_scheme \<Rightarrow> param_t \<Rightarrow> (nat \<times> byte list) list" where
  "pack_entry list_version s p =
     (if list_version = 1 then []
      else if list_version = 2 then transfer_head p @ [(10, strlcpy (param_name p) 36 @ [0]), (10 + 35, [0])]
      else transfer_head p @ [(10, strlcpy (param_name p) 36 @ [0])]
        @ (case param_vmem p of Some v \<Rightarrow> [(46, [vmem_type (vm_driver (vmems s ! v))])] | None \<Rightarrow> [])
        @ (case param_unit p of Some u \<Rightarrow> [(47, strlcpy u 10 @ [0])] | None \<Rightarrow> [])
        @ (case param_docstr p of Some h \<Rightarrow> [(57, strlcpy h 150 @ [0])] | None \<Rightarrow> [])
        @ [(10 + 35, [0]), (47 + 9, [0]), (57 + 149, [0])])"

text \<open>Packing the list into an array of bytes. The result is \<open>None\<close> when an entry is written behind its end.\<close>

definition pack_end :: "int \<Rightarrow> nat" where
  "pack_end list_version = (if list_version = 1 then 0 else if list_version = 2 then 46 else 207)"

fun pack_loop :: "bool \<Rightarrow> bool \<Rightarrow> int \<Rightarrow> 'a lstate_scheme \<Rightarrow> nat list \<Rightarrow> nat \<Rightarrow> int \<Rightarrow> byte list \<Rightarrow> (int \<times> byte list) option" where
  "pack_loop prio_only remote_only list_version s [] pos num_params buf = Some (num_params, buf)"
| "pack_loop prio_only remote_only list_version s (r # rs) pos num_params buf =
     (let p = param_at s r
      in if prio_only \<and> param_mask p AND PM_PRIO_MASK = 0 \<or> remote_only \<and> param_node p = 0
         then pack_loop prio_only remote_only list_version s rs pos num_params buf
         else if pos + pack_end list_version > length buf then None
         else
           let buf = put_fields pos (pack_entry list_version s p) buf;
               pos = pos + param_list_packed_size list_version;
               num_params = num_params + 1
           in if pos + param_list_packed_size list_version > length buf then Some (num_params, buf)
              else pack_loop prio_only remote_only list_version s rs pos num_params buf)"

definition param_list_pack :: "byte list \<Rightarrow> bool \<Rightarrow> bool \<Rightarrow> int \<Rightarrow> 'a lstate_scheme \<Rightarrow> (int \<times> byte list) option" where
  "param_list_pack buf prio_only remote_only list_version s =
     pack_loop prio_only remote_only list_version s (param_list_loop s) 0 0 buf"

text \<open>The message the list server sends for a parameter (\<open>rparam_list_handler\<close> in \<open>src/vmem/vmem_server.c\<close>), in 256 bytes that are zero first,
  and its length.\<close>

definition strncpy_field :: "byte list \<Rightarrow> nat \<Rightarrow> byte list" where
  "strncpy_field str n = take n (str @ replicate n 0)"

definition rparam_entry :: "'a lstate_scheme \<Rightarrow> param_t \<Rightarrow> (nat \<times> byte list) list" where
  "rparam_entry s p = transfer_head p @ [(10, strncpy_field (param_name p) 35)]
     @ (case param_vmem p of Some v \<Rightarrow> [(46, [vmem_type (vm_driver (vmems s ! v))])] | None \<Rightarrow> [])
     @ (case param_unit p of Some u \<Rightarrow> [(47, strncpy_field u 9)] | None \<Rightarrow> [])
     @ (case param_docstr p of Some h \<Rightarrow> [(57, strncpy_field h 149)] | None \<Rightarrow> [])"

definition rparam_length :: "param_t \<Rightarrow> nat" where
  "rparam_length p = 57 + (case param_docstr p of Some h \<Rightarrow> min 149 (length h) | None \<Rightarrow> 0) + 1"

definition rparam_bytes :: "'a lstate_scheme \<Rightarrow> param_t \<Rightarrow> byte list" where
  "rparam_bytes s p = put_fields 0 (rparam_entry s p) (replicate 256 0)"


section \<open>The elements of the list\<close>

definition param_refs :: "'a lstate_scheme \<Rightarrow> nat list" where
  "param_refs s = [0..<length (statics s)] @ map (heap_ref s) (slist s)"

text \<open>The phase an iterator is in belongs to its element.\<close>

definition phase_of :: "'a lstate_scheme \<Rightarrow> nat option \<Rightarrow> nat" where
  "phase_of s e = (case e of None \<Rightarrow> 0 | Some r \<Rightarrow> if r < length (statics s) then 0 else 1)"

definition param_next :: "'a lstate_scheme \<Rightarrow> nat option \<Rightarrow> nat option" where
  "param_next s e = fst (param_list_iterate s \<lparr>phase = phase_of s e, element = e\<rparr>)"

lemma slist_next:
  assumes "distinct (slist s)" "slist s = xs @ h # ys"
  shows "SLIST_NEXT s (heap_ref s h) = (case ys of [] \<Rightarrow> None | k # _ \<Rightarrow> Some (heap_ref s k))"
proof -
  have "dropWhile (\<lambda>k. heap_ref s k \<noteq> heap_ref s h) (slist s) = h # ys"
    by (subst assms(2), subst dropWhile_append2) (use assms in \<open>auto simp: heap_ref_def\<close>)
  then show ?thesis by (simp add: SLIST_NEXT_def split: list.split)
qed

lemma param_refs_split:
  assumes "param_refs s = xs @ r # ys"
  shows "r < length (statics s) \<and> r = length xs \<and> ys = [Suc r..<length (statics s)] @ map (heap_ref s) (slist s) \<or>
    (\<exists>h as bs. r = heap_ref s h \<and> slist s = as @ h # bs \<and> ys = map (heap_ref s) bs)"
proof (cases "length xs < length (statics s)")
  case True
  have "r = param_refs s ! length xs" using assms by simp
  also have "\<dots> = length xs" using True by (simp add: param_refs_def nth_append)
  finally have r: "r = length xs" .
  have "ys = drop (Suc (length xs)) (param_refs s)" using assms by simp
  also have "\<dots> = [Suc r..<length (statics s)] @ map (heap_ref s) (slist s)" using True r by (simp add: param_refs_def)
  finally show ?thesis using True r by simp
next
  case False
  define k where "k = length xs - length (statics s)"
  have len: "length (param_refs s) = length (statics s) + length (slist s)" by (simp add: param_refs_def)
  then have k: "k < length (slist s)" using assms False by (simp add: k_def)
  have "r = param_refs s ! length xs" using assms by simp
  also have "\<dots> = heap_ref s (slist s ! k)" using False k by (simp add: param_refs_def nth_append k_def)
  finally have r: "r = heap_ref s (slist s ! k)" .
  have "ys = drop (Suc (length xs)) (param_refs s)" using assms by simp
  also have "\<dots> = map (heap_ref s) (drop (Suc k) (slist s))" using False by (simp add: param_refs_def k_def drop_map Suc_diff_le)
  finally show ?thesis using r k id_take_nth_drop [OF k] by blast
qed

interpretation params: iterator param_next param_refs "\<lambda>s. distinct (slist s)"
proof
  fix s :: "'a lstate_scheme"
  show "param_next s None = (case param_refs s of [] \<Rightarrow> None | i # _ \<Rightarrow> Some i)"
    by (cases "statics s"; cases "slist s")
      (simp_all add: param_next_def param_list_iterate_def phase_of_def param_refs_def SLIST_FIRST_def upt_rec del: upt_Suc)
next
  fix s :: "'a lstate_scheme" and xs r ys
  assume d: "distinct (slist s)" and sp: "param_refs s = xs @ r # ys"
  from param_refs_split [OF sp] show "param_next s (Some r) = (case ys of [] \<Rightarrow> None | j # _ \<Rightarrow> Some j)"
  proof
    assume r: "r < length (statics s) \<and> r = length xs \<and> ys = [Suc r..<length (statics s)] @ map (heap_ref s) (slist s)"
    then show ?thesis
      by (cases "Suc r < length (statics s)"; cases "slist s")
        (simp_all add: param_next_def param_list_iterate_def phase_of_def SLIST_FIRST_def upt_conv_Cons)
  next
    assume "\<exists>h as bs. r = heap_ref s h \<and> slist s = as @ h # bs \<and> ys = map (heap_ref s) bs"
    then obtain h as bs where "r = heap_ref s h" "slist s = as @ h # bs" "ys = map (heap_ref s) bs" by blast
    then show ?thesis using slist_next [OF d]
      by (simp add: param_next_def param_list_iterate_def phase_of_def heap_ref_def split: list.split)
  qed
qed

lemma SLIST_above: "SLIST_FIRST s = Some r \<Longrightarrow> length (statics s) \<le> r" "SLIST_NEXT s q = Some r \<Longrightarrow> length (statics s) \<le> r"
  by (auto simp: SLIST_FIRST_def SLIST_NEXT_def heap_ref_def split: list.splits)

lemma iterate_next:
  assumes "phase i = phase_of s (element i)" "element i \<noteq> None \<or> phase i = 0"
  shows "param_list_iterate s i = (param_next s (element i), \<lparr>phase = phase (snd (param_list_iterate s i)), element = param_next s (element i)\<rparr>)"
    "param_next s (element i) = Some r \<Longrightarrow> phase (snd (param_list_iterate s i)) = phase_of s (Some r)"
proof -
  have i: "i = \<lparr>phase = phase_of s (element i), element = element i\<rparr>" using assms(1) by (cases i) simp
  show "param_list_iterate s i = (param_next s (element i), \<lparr>phase = phase (snd (param_list_iterate s i)), element = param_next s (element i)\<rparr>)"
    unfolding param_next_def i [symmetric] by (simp add: param_list_iterate_def Let_def phase_of_def assms(1) split: option.split)
  show "param_next s (element i) = Some r \<Longrightarrow> phase (snd (param_list_iterate s i)) = phase_of s (Some r)"
    unfolding param_next_def i [symmetric]
    by (auto simp: param_list_iterate_def Let_def phase_of_def assms(1) split: option.splits if_splits dest: SLIST_above)
qed

lemma iterate_from_run:
  assumes "phase i = phase_of s (element i)"
  shows "iterate_from n s i = run_iterator n (param_next s) (element i)"
  using assms
proof (induction n arbitrary: i)
  case (Suc n)
  have "element i \<noteq> None \<or> phase i = 0" using Suc.prems by (cases "element i") (auto simp: phase_of_def)
  note nx = iterate_next [OF Suc.prems this]
  define j where "j = \<lparr>phase = phase (snd (param_list_iterate s i)), element = param_next s (element i)\<rparr>"
  show ?case
  proof (cases "param_next s (element i)")
    case (Some r)
    then have "phase j = phase_of s (element j)" using nx(2) by (simp add: j_def)
    then show ?thesis using Suc.IH [of j] nx(1) Some by (simp add: j_def)
  qed (subst iterate_from.simps, subst nx(1), simp)
qed simp

lemma param_list_loop_refs:
  assumes "distinct (slist s)"
  shows "param_list_loop s = param_refs s"
proof -
  have "param_list_loop s = run_iterator (Suc (length (statics s) + length (slist s))) (param_next s) None"
    unfolding param_list_loop_def by (subst iterate_from_run) (simp_all add: phase_of_def del: iterate_from.simps run_iterator.simps)
  also have "\<dots> = param_refs s" by (rule params.run_all [OF assms]) (simp add: param_refs_def)
  finally show ?thesis .
qed

section \<open>Well-formed lists\<close>

definition param_key :: "'a lstate_scheme \<Rightarrow> nat \<Rightarrow> u16 \<times> u16" where
  "param_key s r = (param_node (param_at s r), param_id (param_at s r))"

text \<open>An allocated parameter has a variable of its own and its texts fit into its arrays.\<close>

definition heap_param_ok :: "'a lstate_scheme \<Rightarrow> param_t \<Rightarrow> bool" where
  "heap_param_ok s p \<longleftrightarrow> param_addr p < length (vars s) \<and>
     (\<forall>q\<in>set (statics s). param_vmem q = None \<longrightarrow> param_addr q \<noteq> param_addr p) \<and>
     length (param_name p) < 36 \<and> strcpy_fits (param_unit p) 10 \<and> strcpy_fits (param_docstr p) 150"

definition plist_wf :: "'a lstate_scheme \<Rightarrow> bool" where
  "plist_wf s \<longleftrightarrow> distinct (slist s) \<and> (\<forall>h\<in>set (slist s). h < length (heap s) \<and> heap s ! h \<noteq> None) \<and>
     distinct (map (param_key s) (param_refs s)) \<and>
     (\<forall>q\<in>set (statics s). param_vmem q = None \<longrightarrow> param_addr q < length (vars s)) \<and>
     (\<forall>h < length (heap s). \<forall>p. heap s ! h = Some p \<longrightarrow> heap_param_ok s p) \<and>
     (\<forall>h < length (heap s). \<forall>k < length (heap s). \<forall>p q. heap s ! h = Some p \<longrightarrow> heap s ! k = Some q \<longrightarrow> param_addr p = param_addr q \<longrightarrow> h = k)"

lemma plist_wfD:
  assumes "plist_wf s"
  shows "distinct (slist s)" "\<And>h. h \<in> set (slist s) \<Longrightarrow> h < length (heap s) \<and> heap s ! h \<noteq> None"
    "distinct (map (param_key s) (param_refs s))" "param_list_loop s = param_refs s"
  using assms param_list_loop_refs by (auto simp: plist_wf_def)

lemma plist_wfI:
  assumes "distinct (slist t)" "\<And>h. h \<in> set (slist t) \<Longrightarrow> h < length (heap t) \<and> heap t ! h \<noteq> None" "distinct (map (param_key t) (param_refs t))"
    and "\<And>q. q \<in> set (statics t) \<Longrightarrow> param_vmem q = None \<Longrightarrow> param_addr q < length (vars t)"
    and "\<And>h p. h < length (heap t) \<Longrightarrow> heap t ! h = Some p \<Longrightarrow> heap_param_ok t p"
    and "\<And>i j x y. i < length (heap t) \<Longrightarrow> j < length (heap t) \<Longrightarrow> heap t ! i = Some x \<Longrightarrow> heap t ! j = Some y \<Longrightarrow>
      param_addr x = param_addr y \<Longrightarrow> i = j"
  shows "plist_wf t"
  using assms unfolding plist_wf_def by blast

lemma plist_static_var: "plist_wf s \<Longrightarrow> q \<in> set (statics s) \<Longrightarrow> param_vmem q = None \<Longrightarrow> param_addr q < length (vars s)"
  unfolding plist_wf_def by blast

lemma refs_cases:
  assumes "r \<in> set (param_refs s)"
  obtains "r < length (statics s)" | h where "r = heap_ref s h" "h \<in> set (slist s)"
  using assms by (auto simp: param_refs_def)

lemma find_id_iff:
  assumes "plist_wf s"
  shows "param_list_find_id (uint n) (uint i) s = Some r \<longleftrightarrow> r \<in> set (param_refs s) \<and> param_key s r = (n, i)"
proof -
  let ?P = "\<lambda>r. uint (param_node (param_at s r)) = uint n \<and> uint (param_id (param_at s r)) = uint i"
  have P: "?P r \<longleftrightarrow> param_key s r = (n, i)" for r by (auto simp: param_key_def word_uint_eq_iff)
  have f: "param_list_find_id (uint n) (uint i) s = find (\<lambda>r. param_key s r = (n, i)) (param_refs s)"
    using plist_wfD(4) [OF assms] by (simp add: param_list_find_id_def P not_less [symmetric] cong: find_cong)
  have u: "r = q" if "r \<in> set (param_refs s)" "q \<in> set (param_refs s)" "param_key s r = param_key s q" for r q
    using that plist_wfD(3) [OF assms] by (auto simp: distinct_map inj_on_def)
  show ?thesis
  proof
    assume "param_list_find_id (uint n) (uint i) s = Some r"
    then show "r \<in> set (param_refs s) \<and> param_key s r = (n, i)" unfolding f by (auto simp: find_Some_iff)
  next
    assume r: "r \<in> set (param_refs s) \<and> param_key s r = (n, i)"
    then obtain q where q: "find (\<lambda>r. param_key s r = (n, i)) (param_refs s) = Some q"
      by (cases "find (\<lambda>r. param_key s r = (n, i)) (param_refs s)") (auto simp: find_None_iff)
    then have "q \<in> set (param_refs s)" "param_key s q = (n, i)" by (auto simp: find_Some_iff)
    then show "param_list_find_id (uint n) (uint i) s = Some r" unfolding f using q u r by simp
  qed
qed

text \<open>The parameter an unpacked message describes.\<close>

definition remote_param :: "rparam \<Rightarrow> u16 \<Rightarrow> param_type \<Rightarrow> nat \<Rightarrow> param_t" where
  "remote_param m addr t var =
     (let size' = (if rp_size m = 255 \<or> rp_size m = 0 then 1 else uint (rp_size m))
      in \<lparr>param_id = rp_id m, param_node = addr, param_ty = t, param_mask = rp_mask m, param_addr = var, param_vmem = None,
          array_size = size', array_step = int (param_typesize t), param_callback = None, param_name = strlcpy (rp_name m) 36,
          param_unit = Some (case rp_unit m of Some u \<Rightarrow> strlcpy u 10 | None \<Rightarrow> []),
          param_docstr = Some (case rp_help m of Some d \<Rightarrow> strlcpy d 150 | None \<Rightarrow> []), param_timestamp = 0\<rparr>)"

lemma create_remote_eq:
  assumes "sz = (if rp_size m = 255 then 1 else uint (rp_size m))" "sz' = (if sz < 1 then 1 else sz)"
  shows "param_list_create_remote mem (rp_id m) addr (rp_type m) (rp_mask m) sz (rp_name m) (rp_unit m) (rp_help m) s =
    (case param_list_alloc mem (rp_type m) sz' of None \<Rightarrow> (None, s)
     | Some (t, buf) \<Rightarrow> (Some (heap_ref s (length (heap s))),
         s\<lparr>vars := vars s @ [buf], heap := heap s @ [Some (remote_param m addr t (length (vars s)))]\<rparr>))"
proof -
  have "uint (rp_size m) < 1 \<longleftrightarrow> rp_size m = 0" 
  proof -
    have "0 \<le> uint (rp_size m)" by simp
    then have "uint (rp_size m) < 1 \<longleftrightarrow> uint (rp_size m) = 0" by linarith
    then show ?thesis by (simp add: uint_0_iff)
  qed
  then show ?thesis using assms
    by (auto simp: param_list_create_remote_def remote_param_def Let_def split: option.split)
qed


text \<open>What the operations keep: allocating, changing the description of an element, and releasing what is not in the list.\<close>

lemma refs_below: "plist_wf s \<Longrightarrow> r \<in> set (param_refs s) \<Longrightarrow> r < length (statics s) + length (heap s)"
  by (auto simp: param_refs_def heap_ref_def dest: plist_wfD(2))

lemma refs_same [simp]:
  "param_refs (s\<lparr>heap := x\<rparr>) = param_refs s" "param_refs (s\<lparr>vars := v\<rparr>) = param_refs s"
  "heap_ref (s\<lparr>heap := x\<rparr>) h = heap_ref s h" "heap_ref (s\<lparr>vars := v\<rparr>) h = heap_ref s h" "heap_ref (s\<lparr>slist := xs\<rparr>) h = heap_ref s h"
  by (simp_all add: param_refs_def heap_ref_def)

lemma param_at_append:
  assumes "r < length (statics s) + length (heap s)"
  shows "param_at (s\<lparr>vars := v, heap := heap s @ [p]\<rparr>) r = param_at s r"
  using assms by (auto simp: param_at_def nth_append)

lemma keys_cong: "(\<And>r. r \<in> set (param_refs s) \<Longrightarrow> param_at t r = param_at s r) \<Longrightarrow>
    map (param_key t) (param_refs s) = map (param_key s) (param_refs s)"
  by (simp add: param_key_def)

lemma alloc_wf:
  fixes buf :: "byte list"
  assumes "plist_wf s" "param_addr p = length (vars s)" "length (param_name p) < 36" "strcpy_fits (param_unit p) 10" "strcpy_fits (param_docstr p) 150"
  defines "t \<equiv> s\<lparr>vars := vars s @ [buf], heap := heap s @ [Some p]\<rparr>"
  shows "plist_wf t" "\<And>r. r \<in> set (param_refs s) \<Longrightarrow> param_at t r = param_at s r" "param_at t (heap_ref s (length (heap s))) = p"
proof -
  show at: "param_at t r = param_at s r" if "r \<in> set (param_refs s)" for r
    unfolding t_def using refs_below [OF assms(1) that] by (rule param_at_append)
  show "param_at t (heap_ref s (length (heap s))) = p" by (simp add: param_at_def heap_ref_def t_def)
  have h: "heap_param_ok t q" if "k < length (heap t)" "heap t ! k = Some q" for k q
    using that assms(1-5) by (auto simp: t_def plist_wf_def heap_param_ok_def nth_append less_Suc_eq)
  have a: "i = j" if ij: "i < length (heap t)" "j < length (heap t)" "heap t ! i = Some x" "heap t ! j = Some y" "param_addr x = param_addr y" for i j x y
  proof -
    have old: "param_addr x \<noteq> length (vars s)" if "k < length (heap s)" "heap s ! k = Some x" for k x
      using that assms(1) by (fastforce simp: plist_wf_def heap_param_ok_def)
    show ?thesis
    proof (cases "i < length (heap s) \<and> j < length (heap s)")
      case True
      then show ?thesis using ij assms(1) unfolding plist_wf_def t_def by (auto simp: nth_append)
    next
      case False
      then show ?thesis using ij old [of i x] old [of j y] assms(2) by (auto simp: t_def nth_append split: if_splits)
    qed
  qed
  have "map (param_key t) (param_refs t) = map (param_key s) (param_refs s)" using keys_cong [of s t] at by (simp add: t_def)
  then have keys: "distinct (map (param_key t) (param_refs t))" using plist_wfD(3) [OF assms(1)] by simp
  show "plist_wf t"
    by (rule plist_wfI; (fact keys h a)?) (use plist_wfD(1,2) [OF assms(1)] plist_static_var [OF assms(1)] in \<open>auto simp: t_def nth_append less_SucI\<close>)
qed

lemma update_wf:
  assumes "plist_wf s" "h \<in> set (slist s)" "heap s ! h = Some q" "param_node p = param_node q" "param_id p = param_id q" "param_addr p = param_addr q"
    and "length (param_name p) < 36" "strcpy_fits (param_unit p) 10" "strcpy_fits (param_docstr p) 150"
  defines "t \<equiv> s\<lparr>heap := (heap s)[h := Some p]\<rparr>"
  shows "plist_wf t" "\<And>r. r \<noteq> heap_ref s h \<Longrightarrow> param_at t r = param_at s r" "param_at t (heap_ref s h) = p"
proof -
  have l: "h < length (heap s)" using plist_wfD(2) [OF assms(1,2)] by simp
  show at: "param_at t r = param_at s r" if "r \<noteq> heap_ref s h" for r
    using that by (auto simp: t_def param_at_def heap_ref_def nth_update_if)
  show p: "param_at t (heap_ref s h) = p" using l by (simp add: t_def param_at_def heap_ref_def)
  have "param_key t r = param_key s r" for r
    using at [of r] p assms(3-5) by (cases "r = heap_ref s h") (auto simp: param_key_def param_at_def heap_ref_def)
  then have "map (param_key t) (param_refs t) = map (param_key s) (param_refs s)" by (simp add: t_def)
  then have keys: "distinct (map (param_key t) (param_refs t))" using plist_wfD(3) [OF assms(1)] by simp
  have h: "heap_param_ok t x" if "k < length (heap t)" "heap t ! k = Some x" for k x
  proof -
    have "heap_param_ok s q" using assms(1,3) l unfolding plist_wf_def by blast
    then have "heap_param_ok t p" using assms(6-9) by (simp add: t_def heap_param_ok_def)
    then show ?thesis using that assms(1) by (cases "k = h") (auto simp: t_def plist_wf_def heap_param_ok_def)
  qed
  have a: "i = j" if ij: "i < length (heap t)" "j < length (heap t)" "heap t ! i = Some x" "heap t ! j = Some y" "param_addr x = param_addr y" for i j x y
  proof -
    obtain x' y' where "heap s ! i = Some x'" "heap s ! j = Some y'" "param_addr x' = param_addr y'"
      using ij assms(3,6) by (auto simp: t_def nth_update_if split: if_splits)
    then show ?thesis using ij assms(1) unfolding plist_wf_def t_def by auto
  qed
  show "plist_wf t"
    by (rule plist_wfI; (fact keys h a)?) (use plist_wfD(1,2) [OF assms(1)] plist_static_var [OF assms(1)] in \<open>auto simp: t_def nth_update_if\<close>)
qed

lemma destroy_wf:
  assumes "plist_wf s" "h < length (heap s)" "heap s ! h \<noteq> None" "h \<notin> set (slist s)"
  defines "t \<equiv> param_list_destroy (heap_ref s h) s"
  shows "plist_wf t" "\<And>r. r \<in> set (param_refs s) \<Longrightarrow> param_at t r = param_at s r" "ub t = ub s" "slist t = slist s" "statics t = statics s"
    "heap t = (heap s)[h := None]" "param_refs t = param_refs s"
proof -
  have t: "t = s\<lparr>vars := (vars s)[param_addr (param_at s (heap_ref s h)) := []], heap := (heap s)[h := None]\<rparr>"
    using assms(2,3) by (auto simp: t_def param_list_destroy_def heap_ref_def)
  show at: "param_at t r = param_at s r" if "r \<in> set (param_refs s)" for r
    using that assms(4) by (auto simp: t param_refs_def param_at_def heap_ref_def nth_update_if)
  show "ub t = ub s" "slist t = slist s" "statics t = statics s" "heap t = (heap s)[h := None]" "param_refs t = param_refs s"
    by (simp_all add: t param_refs_def heap_ref_def)
  have "map (param_key t) (param_refs t) = map (param_key s) (param_refs s)" using keys_cong [of s t] at by (simp add: t)
  then have keys: "distinct (map (param_key t) (param_refs t))" using plist_wfD(3) [OF assms(1)] by simp
  have h: "heap_param_ok t x" if "k < length (heap t)" "heap t ! k = Some x" for k x
    using that assms(1) by (auto simp: t plist_wf_def heap_param_ok_def nth_update_if split: if_splits)
  have a: "i = j" if "i < length (heap t)" "j < length (heap t)" "heap t ! i = Some x" "heap t ! j = Some y" "param_addr x = param_addr y" for i j x y
    using that assms(1) unfolding plist_wf_def by (auto simp: t nth_update_if split: if_splits)
  show "plist_wf t"
    by (rule plist_wfI; (fact keys h a)?) (use plist_wfD(1,2) [OF assms(1)] plist_static_var [OF assms(1)] assms(4) in \<open>auto simp: t nth_update_if\<close>)
qed


lemma remote_texts: "length (param_name (remote_param m addr t k)) < 36" "strcpy_fits (param_unit (remote_param m addr t k)) 10"
  "strcpy_fits (param_docstr (remote_param m addr t k)) 150"
  by (auto simp: remote_param_def Let_def strcpy_fits_def strlcpy_def split: option.split)

lemma remote_fields [simp]:
  "param_node (remote_param m addr t k) = addr" "param_id (remote_param m addr t k) = rp_id m" "param_addr (remote_param m addr t k) = k"
  by (simp_all add: remote_param_def Let_def)

lemma insert_wf:
  assumes "plist_wf s" "h < length (heap s)" "heap s ! h = Some p" "h \<notin> set (slist s)"
    and "\<And>r. r \<in> set (param_refs s) \<Longrightarrow> param_key s r \<noteq> (param_node p, param_id p)"
  shows "plist_wf (s\<lparr>slist := h # slist s\<rparr>)"
proof -
  let ?t = "s\<lparr>slist := h # slist s\<rparr>"
  have at: "param_key ?t = param_key s" by (rule ext) (simp add: param_key_def param_at_def)
  have "param_key s (heap_ref s h) = (param_node p, param_id p)" using assms(3) by (simp add: param_key_def param_at_def heap_ref_def)
  then have n: "param_key s (heap_ref s h) \<notin> param_key s ` set (param_refs s)" using assms(5) by (metis imageE)
  have refs: "param_refs ?t = [0..<length (statics s)] @ heap_ref s h # map (heap_ref s) (slist s)" by (simp add: param_refs_def heap_ref_def)
  have keys: "distinct (map (param_key ?t) (param_refs ?t))"
    unfolding at refs using plist_wfD(3) [OF assms(1)] n by (auto simp: param_refs_def image_iff simp del: map_map)
  show ?thesis
    by (rule plist_wfI; (fact keys)?) (use assms(1-4) in \<open>auto simp: plist_wf_def heap_param_ok_def\<close>)
qed

text \<open>The parameter a description is stored as: the identity and the value stay, the rest is replaced.\<close>

definition redescribe :: "param_t \<Rightarrow> param_t \<Rightarrow> param_t" where
  "redescribe q p = q\<lparr>param_mask := param_mask p, param_ty := param_ty p, array_size := array_size p, array_step := array_step p,
     param_name := param_name p, param_unit := param_unit p, param_docstr := param_docstr p\<rparr>"

definition unpack_addr :: "rparam \<Rightarrow> int \<Rightarrow> u16" where
  "unpack_addr m node = (if rp_node m = 0 then of_int node else rp_node m)"

definition unpack_size :: "rparam \<Rightarrow> int" where
  "unpack_size m = (if rp_size m = 255 \<or> rp_size m = 0 then 1 else uint (rp_size m))"

lemma unpack_cases:
  assumes "param_list_unpack mem node data len v incl s = (e, d, t)" "m = fst (unpack_fields data len v)" "addr = unpack_addr m node"
  shows "if \<not> incl \<and> node \<noteq> uint addr then e = 1 \<and> t = s
    else case param_list_alloc mem (rp_type m) (unpack_size m) of
           None \<Rightarrow> e = -1 \<and> t = s
         | Some (ty, buf) \<Rightarrow>
             e = 0 \<and> (case param_list_add (heap_ref s (length (heap s)))
               (s\<lparr>vars := vars s @ [buf], heap := heap s @ [Some (remote_param m addr ty (length (vars s)))]\<rparr>) of
               (f, u) \<Rightarrow> t = (if f \<noteq> 0 then param_list_destroy (heap_ref s (length (heap s))) u else u))"
proof -
  define sz where "sz = (if rp_size m = 255 then 1 else uint (rp_size m))"
  have "0 \<le> uint (rp_size m)" by simp
  then have "uint (rp_size m) < 1 \<longleftrightarrow> rp_size m = 0" using uint_0_iff [of "rp_size m"] by linarith
  then have sz: "unpack_size m = (if sz < 1 then 1 else sz)" by (auto simp: unpack_size_def sz_def)
  note cr = create_remote_eq [OF sz_def sz, of mem addr s]
  obtain d' where u: "unpack_fields data len v = (m, d')" using assms(2) by (cases "unpack_fields data len v") auto
  have run: "(if \<not> incl \<and> node \<noteq> uint addr then (1, d', s)
      else case param_list_create_remote mem (rp_id m) addr (rp_type m) (rp_mask m) sz (rp_name m) (rp_unit m) (rp_help m) s of
             (None, s) \<Rightarrow> (-1, d', s)
           | (Some r, s) \<Rightarrow> (case param_list_add r s of (e, s) \<Rightarrow> (0, d', if e \<noteq> 0 then param_list_destroy r s else s))) = (e, d, t)"
    using assms(1) by (simp only: param_list_unpack_def u prod.case Let_def assms(3) unpack_addr_def sz_def)
  show ?thesis
  proof (cases "\<not> incl \<and> node \<noteq> uint addr")
    case True
    then show ?thesis using run by simp
  next
    case False
    show ?thesis
      using False run by (auto simp: cr split: option.splits prod.splits if_splits)
  qed
qed


lemma unpack_effect:
  assumes "plist_wf s" "param_list_unpack mem node data len v incl s = (e, d, t)"
    and "m = fst (unpack_fields data len v)" "addr = unpack_addr m node"
  shows "plist_wf t \<and> ub t = ub s \<and> statics t = statics s \<and>
    (if \<not> incl \<and> node \<noteq> uint addr then e = 1 \<and> t = s
     else case param_list_alloc mem (rp_type m) (unpack_size m) of
            None \<Rightarrow> e = -1 \<and> t = s
          | Some (ty, buf) \<Rightarrow>
              e = 0 \<and> (\<exists>r. param_list_find_id (uint addr) (uint (rp_id m)) t = Some r \<and>
                (\<forall>q\<in>set (param_refs s). q \<noteq> r \<longrightarrow> param_at t q = param_at s q) \<and>
                (case param_list_find_id (uint addr) (uint (rp_id m)) s of
                   None \<Rightarrow> param_refs t = [0..<length (statics s)] @ r # map (heap_ref s) (slist s) \<and>
                     param_at t r = remote_param m addr ty (length (vars s)) \<and> vars t = vars s @ [buf]
                 | Some r' \<Rightarrow> r' = r \<and> param_refs t = param_refs s \<and>
                     param_at t r = (if param_is_static s r then param_at s r
                       else redescribe (param_at s r) (remote_param m addr ty (length (vars s)))))))"
proof -
  note uc = unpack_cases [OF assms(2-4)]
  show ?thesis
  proof (cases "(\<not> incl \<and> node \<noteq> uint addr) \<or> param_list_alloc mem (rp_type m) (unpack_size m) = None")
    case True
    then show ?thesis using uc assms(1) by (auto split: if_splits)
  next
    case False
    then obtain ty buf where al: "param_list_alloc mem (rp_type m) (unpack_size m) = Some (ty, buf)" by fastforce
    define p where "p = remote_param m addr ty (length (vars s))"
    define h where "h = length (heap s)"
    define u where "u = s\<lparr>vars := vars s @ [buf], heap := heap s @ [Some p]\<rparr>"
    have u: "plist_wf u" "\<And>r. r \<in> set (param_refs s) \<Longrightarrow> param_at u r = param_at s r" "param_at u (heap_ref s h) = p"
      using alloc_wf [OF assms(1), where p = p and buf = buf] remote_texts by (simp_all add: p_def u_def h_def)
    have us [simp]: "param_refs u = param_refs s" "heap_ref u k = heap_ref s k" "ub u = ub s" "statics u = statics s" "slist u = slist s" "vars u = vars s @ [buf]" for k
      by (simp_all add: u_def)
    have h: "h < length (heap u)" "heap u ! h = Some p" "h \<notin> set (slist u)"
      using plist_wfD(2) [OF assms(1), of h] by (auto simp: u_def h_def)
    have t: "e = 0" "case param_list_add (heap_ref s h) u of (f, w) \<Rightarrow> t = (if f \<noteq> 0 then param_list_destroy (heap_ref s h) w else w)"
      using uc False al by (auto simp: u_def p_def h_def)
    have key: "param_key u r = param_key s r" if "r \<in> set (param_refs s)" for r using u(2) [OF that] by (simp add: param_key_def)
    have fu: "param_list_find_id (uint addr) (uint (rp_id m)) u = Some r \<longleftrightarrow> param_list_find_id (uint addr) (uint (rp_id m)) s = Some r" for r
      using find_id_iff [OF assms(1), of addr "rp_id m" r] find_id_iff [OF u(1), of addr "rp_id m" r] key by auto
    note add = param_list_add_def [of "heap_ref s h" u, unfolded u(3) Let_def, simplified p_def remote_fields, folded p_def]
    have skip: "(\<not> incl \<and> node \<noteq> uint addr) = False" using False by blast
    show ?thesis
    proof (cases "param_list_find_id (uint addr) (uint (rp_id m)) s")
      case None
      then have n: "param_list_find_id (uint addr) (uint (rp_id m)) u = None" using fu by (metis not_Some_eq)
      then have tt: "t = u\<lparr>slist := h # slist u\<rparr>" using t(2) [unfolded add] by (simp add: SLIST_INSERT_HEAD_def) (simp add: heap_ref_def)
      have "param_key u r \<noteq> (param_node p, param_id p)" if "r \<in> set (param_refs u)" for r
        using that n find_id_iff [OF u(1), of addr "rp_id m" r] by (auto simp: p_def)
      then have wf: "plist_wf t" unfolding tt by (rule insert_wf [OF u(1) h])
      have refs: "param_refs t = [0..<length (statics s)] @ heap_ref s h # map (heap_ref s) (slist s)" by (simp add: tt param_refs_def u_def)
      have at: "param_at t q = param_at u q" for q by (simp add: tt param_at_def)
      have "param_key t (heap_ref s h) = (addr, rp_id m)" by (simp add: param_key_def at u(3)) (simp add: p_def)
      then have "param_list_find_id (uint addr) (uint (rp_id m)) t = Some (heap_ref s h)"
        using find_id_iff [OF wf] refs by simp
      then show ?thesis unfolding skip using None wf refs at u t(1) al tt by (auto simp: p_def)
    next
      case (Some r)
      then have n: "param_list_find_id (uint addr) (uint (rp_id m)) u = Some r" using fu by blast
      have r: "r \<in> set (param_refs s)" "param_key s r = (addr, rp_id m)" using Some find_id_iff [OF assms(1)] by auto
      define w where "w = snd (param_list_add (heap_ref s h) u)"
      have w1: "fst (param_list_add (heap_ref s h) u) = 1" using n by (simp add: add)
      then have tt: "t = param_list_destroy (heap_ref s h) w" using t(2) by (simp add: w_def split: prod.splits)
      have w: "plist_wf w \<and> (\<forall>q. q \<noteq> r \<longrightarrow> param_at w q = param_at u q) \<and> h < length (heap w) \<and> heap w ! h = Some p \<and> slist w = slist s \<and>
          statics w = statics s \<and> ub w = ub s \<and> param_at w r = (if param_is_static s r then param_at s r else redescribe (param_at s r) p)"
      proof (cases "param_is_static s r")
        case True
        then have "w = u" using n by (simp add: w_def add param_is_static_def)
        then show ?thesis using u h r True by simp
      next
        case False
        then obtain k where k: "r = heap_ref s k" "k \<in> set (slist s)" using r(1) by (auto simp: param_refs_def param_is_static_def)
        have "\<not> param_is_static u r" using False by (simp add: param_is_static_def)
        moreover have "r - length (statics s) = k" using k(1) by (simp add: heap_ref_def)
        ultimately have w: "w = u\<lparr>heap := (heap u)[k := Some (redescribe (param_at u r) p)]\<rparr>"
          unfolding w_def add using n remote_texts [of m addr ty "length (vars s)"] by (simp add: redescribe_def p_def [symmetric])
        obtain q where q: "heap u ! k = Some q" using plist_wfD(2) [OF u(1), of k] k(2) by auto
        then have uq: "param_at u r = q" using k(1) by (simp add: param_at_def heap_ref_def)
        note up = update_wf [OF u(1), of k q "redescribe (param_at u r) p"]
        have "k \<noteq> h" using k(2) h(3) by auto
        then show ?thesis using up k q uq h False r(1) u(2) remote_texts [of m addr ty "length (vars s)"]
          by (simp add: w redescribe_def p_def [symmetric])
      qed
      have hr: "heap_ref w h = heap_ref s h" "param_refs w = param_refs s" using w by (simp_all add: heap_ref_def param_refs_def)
      note ds = destroy_wf [of w h, unfolded hr, folded tt]
      have d: "plist_wf t" "\<And>q. q \<in> set (param_refs s) \<Longrightarrow> param_at t q = param_at w q" "ub t = ub w" "statics t = statics w" "param_refs t = param_refs s"
        using ds w h(3) by auto
      have at: "param_at t q = param_at s q" if "q \<in> set (param_refs s)" "q \<noteq> r" for q using that d(2) w u(2) by simp
      have atr: "param_at t r = (if param_is_static s r then param_at s r else redescribe (param_at s r) p)" using d(2) [OF r(1)] w by simp
      have "param_key t r = (addr, rp_id m)" using r(2) by (simp add: param_key_def atr redescribe_def)
      then have "param_list_find_id (uint addr) (uint (rp_id m)) t = Some r" using find_id_iff [OF d(1)] d(5) r(1) by simp
      then show ?thesis unfolding skip using Some d w at atr t(1) al by (simp add: p_def)
    qed
  qed
qed

section \<open>Messages of the list server\<close>

lemma mwrite_grow:
  "length xs \<le> off \<Longrightarrow> off + length bs \<le> length xs + n \<Longrightarrow>
    mwrite off bs (xs @ replicate n (0 :: byte)) = (xs @ replicate (off - length xs) 0 @ bs) @ replicate (length xs + n - (off + length bs)) 0"
  by (simp add: mwrite_def)

lemma length_strncpy_field [simp]: "length (strncpy_field str n) = n"
  by (simp add: strncpy_field_def)

lemma length_transfer [simp]: "length (be16_enc a) = 2" "length (be32_enc b) = 4"
  by simp_all

definition the_text :: "byte list option \<Rightarrow> byte list" where
  "the_text x = (case x of Some u \<Rightarrow> u | None \<Rightarrow> [])"

lemma strncpy_field_Nil: "strncpy_field [] n = replicate n 0"
  by (simp add: strncpy_field_def)

lemma put_fields_Cons: "put_fields pos ((off, bs) # fs) d = put_fields pos fs (mwrite (pos + off) bs d)"
  by (simp add: put_fields_def)

lemma put_fields_Nil: "put_fields pos [] d = d"
  by (simp add: put_fields_def)

text \<open>The message, field by field.\<close>

lemma rparam_bytes_eq:
  "rparam_bytes s p = be16_enc (param_id p) @ be16_enc (param_node p) @ [num_of_type (param_ty p)] @ [of_int (array_size p)] @ be32_enc (param_mask p) @
     strncpy_field (param_name p) 35 @ [0] @ [case param_vmem p of Some v \<Rightarrow> vmem_type (vm_driver (vmems s ! v)) | None \<Rightarrow> 0] @
     strncpy_field (the_text (param_unit p)) 9 @ [0] @ strncpy_field (the_text (param_docstr p)) 149 @ replicate 50 0"
proof -
  define a where "a = be16_enc (param_id p) @ be16_enc (param_node p) @ [num_of_type (param_ty p)] @ [of_int (array_size p)] @ be32_enc (param_mask p)"
  define b where "b = a @ strncpy_field (param_name p) 35"
  define v where "v = (case param_vmem p of Some v \<Rightarrow> vmem_type (vm_driver (vmems s ! v)) | None \<Rightarrow> 0)"
  have la: "length a = 10" "length b = 45" by (simp_all add: a_def b_def)
  have "put_fields 0 (transfer_head p) (replicate 256 0) = a @ replicate 246 0"
    using mwrite_grow [of "[]" 0 "be16_enc (param_id p)" 256] mwrite_grow [of "be16_enc (param_id p)" 2 "be16_enc (param_node p)" 254]
      mwrite_grow [of "be16_enc (param_id p) @ be16_enc (param_node p)" 4 "[num_of_type (param_ty p)]" 252]
      mwrite_grow [of "be16_enc (param_id p) @ be16_enc (param_node p) @ [num_of_type (param_ty p)]" 5 "[of_int (array_size p)]" 251]
      mwrite_grow [of "be16_enc (param_id p) @ be16_enc (param_node p) @ [num_of_type (param_ty p), of_int (array_size p)]" 6 "be32_enc (param_mask p)" 250]
    by (simp add: transfer_head_def put_fields_def a_def)
  then have 1: "put_fields 0 (transfer_head p @ [(10, strncpy_field (param_name p) 35)]) (replicate 256 0) = b @ replicate 211 0"
    using mwrite_grow [of a 10 "strncpy_field (param_name p) 35" 246] la by (simp add: put_fields_def b_def)
  define c where "c = b @ [0, v]"
  have 2: "put_fields 0 (case param_vmem p of Some v \<Rightarrow> [(46, [vmem_type (vm_driver (vmems s ! v))])] | None \<Rightarrow> []) (b @ replicate 211 0) = c @ replicate 209 0"
  proof (cases "param_vmem p")
    case None
    have "replicate 211 (0 :: byte) = [0, 0] @ replicate 209 0" by (simp add: numeral_eq_Suc)
    then show ?thesis using None by (simp add: put_fields_def c_def v_def)
  next
    case (Some k)
    then show ?thesis using mwrite_grow [of b 46 "[v]" 211] la by (simp add: put_fields_def c_def v_def)
  qed
  define e where "e = c @ strncpy_field (the_text (param_unit p)) 9"
  have lc: "length c = 47" "length e = 56" using la by (simp_all add: c_def e_def)
  have 3: "put_fields 0 (case param_unit p of Some u \<Rightarrow> [(47, strncpy_field u 9)] | None \<Rightarrow> []) (c @ replicate 209 0) = e @ replicate 200 0"
    using mwrite_grow [of c 47 _ 209] lc
    by (auto simp: put_fields_def e_def the_text_def strncpy_field_Nil replicate_add [symmetric] split: option.split)
  have 4: "put_fields 0 (case param_docstr p of Some u \<Rightarrow> [(57, strncpy_field u 149)] | None \<Rightarrow> []) (e @ replicate 200 0) =
      e @ [0] @ strncpy_field (the_text (param_docstr p)) 149 @ replicate 50 0"
  proof (cases "param_docstr p")
    case None
    have "replicate 200 (0 :: byte) = [0] @ replicate 149 0 @ replicate 50 0" by (simp add: replicate_add [symmetric] numeral_eq_Suc)
    then show ?thesis using None by (simp add: put_fields_def the_text_def strncpy_field_Nil)
  next
    case (Some u)
    then show ?thesis using mwrite_grow [of e 57 "strncpy_field u 149" 200] lc by (simp add: put_fields_def the_text_def)
  qed
  have app: "put_fields 0 (xs @ ys) d = put_fields 0 ys (put_fields 0 xs d)" for xs ys d by (simp add: put_fields_def)
  have "rparam_bytes s p = e @ [0] @ strncpy_field (the_text (param_docstr p)) 149 @ replicate 50 0"
    unfolding rparam_bytes_def rparam_entry_def append_assoc [symmetric] app 1 [unfolded app] 2 3 4 by simp
  then show ?thesis by (simp add: e_def c_def b_def a_def v_def)
qed


text \<open>The texts of a parameter that fits into a message.\<close>

definition text_ok :: "byte list \<Rightarrow> nat \<Rightarrow> bool" where
  "text_ok x n \<longleftrightarrow> length x \<le> n \<and> 0 \<notin> set x"

definition sendable :: "param_t \<Rightarrow> bool" where
  "sendable p \<longleftrightarrow> text_ok (param_name p) 35 \<and> text_ok (the_text (param_unit p)) 9 \<and> text_ok (the_text (param_docstr p)) 149 \<and>
     1 \<le> array_size p \<and> array_size p \<le> 254"

lemma c_bytes_text:
  assumes "mread off (Suc (length x)) d = x @ [0]" "0 \<notin> set x"
  shows "c_bytes off d = x"
proof -
  have "drop off d = mread off (Suc (length x)) d @ drop (Suc (length x)) (drop off d)" unfolding mread_def by (rule append_take_drop_id [symmetric])
  also have "\<dots> = x @ 0 # drop (Suc (length x)) (drop off d)" by (simp add: assms(1))
  finally have "c_bytes off d = takeWhile (\<lambda>b. b \<noteq> 0) (x @ 0 # drop (Suc (length x)) (drop off d))" by (simp add: c_bytes_def)
  also have "\<dots> = x" using assms(2) by (subst takeWhile_append2) auto
  finally show ?thesis .
qed

lemma mread_take:
  assumes "a + n \<le> k" "take k d = take k x"
  shows "mread a n d = mread a n x"
proof -
  have "mread a n y = drop a (take (a + n) (take k y))" for y :: "'a list" using assms(1) by (simp add: mread_def drop_take min_def)
  then show ?thesis using assms(2) by (simp only:)
qed

lemma strncpy_text:
  assumes "text_ok x n" "length a = off"
  shows "mread off (Suc (length x)) (a @ strncpy_field x n @ 0 # b) = x @ [0]"
proof -
  have l: "length x \<le> n" using assms(1) by (simp add: text_ok_def)
  then have f: "strncpy_field x n = x @ replicate (n - length x) 0" by (simp add: strncpy_field_def)
  show ?thesis
  proof (cases "length x = n")
    case True
    then show ?thesis using f assms(2) by (simp add: mread_def)
  next
    case False
    then have "replicate (n - length x) (0 :: byte) = 0 # replicate (n - length x - 1) 0" using l by (cases "n - length x") simp_all
    then show ?thesis using f assms(2) by (simp add: mread_def)
  qed
qed

text \<open>The receiver reads from a message of the list server what the server put into it, whatever its buffer held behind the message.\<close>

lemma unpack_rparam:
  assumes "sendable p" "207 \<le> length d" "take (rparam_length p) d = take (rparam_length p) (rparam_bytes s p)"
  shows "fst (unpack_fields d (int (rparam_length p)) 3) =
    \<lparr>rp_node = param_node p, rp_id = param_id p, rp_type = num_of_type (param_ty p), rp_size = of_int (array_size p),
     rp_mask = param_mask p OR PM_REMOTE, rp_name = param_name p, rp_unit = Some (the_text (param_unit p)), rp_help = Some (the_text (param_docstr p))\<rparr>"
proof -
  define rb where "rb = rparam_bytes s p"
  define n where "n = rparam_length p"
  have ok: "text_ok (param_name p) 35" "text_ok (the_text (param_unit p)) 9" "text_ok (the_text (param_docstr p)) 149"
    using assms(1) by (simp_all add: sendable_def)
  have n: "n = 58 + length (the_text (param_docstr p))"
    using ok(3) by (simp add: n_def rparam_length_def the_text_def text_ok_def split: option.splits)
  note rb = rparam_bytes_eq [of s p, folded rb_def]
  have lrb: "length rb = 256" by (simp add: rb)
  define d' where "d' = d[45 := 0, 56 := 0, 206 := 0]"
  have z: "rb ! 45 = 0" "rb ! 56 = 0" "n = 207 \<Longrightarrow> rb ! 206 = 0" by (simp_all add: rb nth_append)
  have eq: "d ! i = rb ! i" if "i < n" for i
    using that assms(2,3) lrb unfolding n_def [symmetric] rb_def [symmetric] by (metis nth_take)
  have n207: "n \<le> 207" using n ok(3) by (simp add: text_ok_def)
  have tk: "take n d' = take n rb"
  proof (rule nth_equalityI)
    show "length (take n d') = length (take n rb)" using assms(2) n207 lrb by (simp add: d'_def)
    fix i assume "i < length (take n d')"
    then have "i < n" "i < length d" using assms(2) by (simp_all add: d'_def)
    then show "take n d' ! i = take n rb ! i"
      using eq [of i] z n207 assms(2) by (cases "i = 206"; cases "i = 56"; cases "i = 45") (auto simp: d'_def)
  qed
  have rd: "mread a k d = mread a k rb" if "a + k \<le> n" for a k
    using mread_take [OF that] assms(3) by (simp add: n_def rb_def)
  have rd': "mread a k d' = mread a k rb" if "a + k \<le> n" for a k using mread_take [OF that tk] .
  have "mread 0 2 d = be16_enc (param_id p)" "mread 2 2 d = be16_enc (param_node p)" "mread 6 4 d = be32_enc (param_mask p)"
    using n rd [of 0 2] rd [of 2 2] rd [of 6 4] by simp_all (simp_all add: rb mread_def)
  moreover have "d ! 4 = num_of_type (param_ty p)" "d ! 5 = of_int (array_size p)" using n by (simp_all add: eq) (simp_all add: rb nth_append)
  moreover have tx: "c_bytes (length a) d' = x"
    if "rb = a @ strncpy_field x k @ 0 # b" "text_ok x k" "length a + Suc (length x) \<le> n" for a x k b
    by (rule c_bytes_text) (use rd' [OF that(3)] strncpy_text [OF that(2) refl, of a b] that(1,2) in \<open>simp_all add: text_ok_def\<close>)
  moreover have "c_bytes 10 d' = param_name p"
    using tx [of "be16_enc (param_id p) @ be16_enc (param_node p) @ [num_of_type (param_ty p)] @ [of_int (array_size p)] @ be32_enc (param_mask p)" "param_name p" 35, OF _ ok(1)]
      ok(1) n by (simp add: rb text_ok_def)
  moreover define pre where "pre = be16_enc (param_id p) @ be16_enc (param_node p) @ [num_of_type (param_ty p)] @ [of_int (array_size p)] @ be32_enc (param_mask p) @
     strncpy_field (param_name p) 35 @ [0] @ [case param_vmem p of Some v \<Rightarrow> vmem_type (vm_driver (vmems s ! v)) | None \<Rightarrow> 0]"
  moreover have "c_bytes 47 d' = the_text (param_unit p)"
    using tx [of pre "the_text (param_unit p)" 9, OF _ ok(2)] ok(2) n by (simp add: rb text_ok_def pre_def)
  moreover have "c_bytes 57 d' = the_text (param_docstr p)"
    using tx [of "pre @ strncpy_field (the_text (param_unit p)) 9 @ [0]" "the_text (param_docstr p)" 149 "replicate 49 0", OF _ ok(3)] n
      replicate_Suc [of 49 "0 :: byte"] by (simp add: rb pre_def)
  ultimately show ?thesis by (simp add: unpack_fields_def Let_def d'_def)
qed


section \<open>Properties\<close>

text \<open>C35: unpacking a message into the list. The list stays well-formed and no access is undefined. A message of another node is skipped
  when these are not wanted, and a message with an unknown type or without memory changes nothing. Otherwise the parameter can be found
  afterwards under the identifier of the message: a new one stands at the head of the list, as the message describes it; of a known one the
  description is replaced while identity and value stay; a static one stays as it is; and no other parameter of the list changes.\<close>

theorem param_list_unpack_effect:
  assumes "plist_wf s" "param_list_unpack mem node data len v incl s = (e, d, t)"
    and "m = fst (unpack_fields data len v)" "addr = unpack_addr m node"
  shows "plist_wf t \<and> ub t = ub s \<and> statics t = statics s \<and>
    (if \<not> incl \<and> node \<noteq> uint addr then e = 1 \<and> t = s
     else case param_list_alloc mem (rp_type m) (unpack_size m) of
            None \<Rightarrow> e = -1 \<and> t = s
          | Some (ty, buf) \<Rightarrow>
              e = 0 \<and> (\<exists>r. param_list_find_id (uint addr) (uint (rp_id m)) t = Some r \<and>
                (\<forall>q\<in>set (param_refs s). q \<noteq> r \<longrightarrow> param_at t q = param_at s q) \<and>
                (case param_list_find_id (uint addr) (uint (rp_id m)) s of
                   None \<Rightarrow> param_refs t = [0..<length (statics s)] @ r # map (heap_ref s) (slist s) \<and>
                     param_at t r = remote_param m addr ty (length (vars s)) \<and> vars t = vars s @ [buf]
                 | Some r' \<Rightarrow> r' = r \<and> param_refs t = param_refs s \<and>
                     param_at t r = (if param_is_static s r then param_at s r
                       else redescribe (param_at s r) (remote_param m addr ty (length (vars s)))))))"
  by (rule unpack_effect [OF assms])

text \<open>C36: the list server and its client. What \<open>rparam_list_handler\<close> sends for a parameter, whose texts fit into the message and which has fewer than 255
  elements, is what the client that unpacks the message adds to its list: identifier, type, flags, number of elements, name, unit and help text, and the
  address of the node where the message left it open. The rest of the client's buffer does not matter.\<close>

theorem param_list_roundtrip:
  assumes "sendable p" "207 \<le> length d" "take (rparam_length p) d = take (rparam_length p) (rparam_bytes s p)"
    and "addr = (if param_node p = 0 then of_int node else param_node p)"
    and "plist_wf c" "param_list_find_id (uint addr) (uint (param_id p)) c = None"
    and "mem PARAM_HEAP_SIZE" "mem (param_typesize (param_ty p) * nat (array_size p))"
    and "param_list_unpack mem node d (int (rparam_length p)) 3 True c = (e, d', t)"
  shows "e = 0 \<and> plist_wf t \<and>
    (\<exists>r. param_list_find_id (uint addr) (uint (param_id p)) t = Some r \<and> hd (slist t) + length (statics t) = r \<and>
      param_at t r = \<lparr>param_id = param_id p, param_node = addr, param_ty = param_ty p, param_mask = param_mask p OR PM_REMOTE,
        param_addr = length (vars c), param_vmem = None, array_size = array_size p, array_step = int (param_typesize (param_ty p)),
        param_callback = None, param_name = param_name p, param_unit = Some (the_text (param_unit p)),
        param_docstr = Some (the_text (param_docstr p)), param_timestamp = 0\<rparr> \<and>
      vars t ! length (vars c) = replicate (param_typesize (param_ty p) * nat (array_size p)) 0)"
proof -
  note f = unpack_rparam [OF assms(1-3)]
  define m where "m = fst (unpack_fields d (int (rparam_length p)) 3)"
  have ty: "type_of_num (num_of_type (param_ty p)) = Some (param_ty p)"
    by (cases "param_ty p") (simp_all add: type_of_num_def num_of_type_def param_types_def)
  have sz: "uint (of_int (array_size p) :: u8) = array_size p" using assms(1) by (simp add: sendable_def uint_word_of_int_eq take_bit_int_eq_self)
  then have sz': "(of_int (array_size p) :: u8) \<noteq> 255" "(of_int (array_size p) :: u8) \<noteq> 0" using assms(1) by (auto simp: sendable_def)
  have us: "unpack_size m = array_size p" using sz sz' by (simp add: m_def f unpack_size_def)
  have ua: "addr = unpack_addr m node" using assms(4) by (simp add: m_def f unpack_addr_def)
  have id: "rp_id m = param_id p" "rp_type m = num_of_type (param_ty p)" by (simp_all add: m_def f)
  have al: "param_list_alloc mem (rp_type m) (unpack_size m) = Some (param_ty p, replicate (param_typesize (param_ty p) * nat (array_size p)) 0)"
    using assms(7,8) by (simp add: id ty us param_list_alloc_def)
  have texts: "strlcpy (param_name p) 36 = param_name p" "strlcpy (the_text (param_unit p)) 10 = the_text (param_unit p)"
    "strlcpy (the_text (param_docstr p)) 150 = the_text (param_docstr p)"
    using assms(1) by (simp_all add: sendable_def text_ok_def strlcpy_def)
  have rp: "remote_param m addr (param_ty p) k = \<lparr>param_id = param_id p, param_node = addr, param_ty = param_ty p, param_mask = param_mask p OR PM_REMOTE,
        param_addr = k, param_vmem = None, array_size = array_size p, array_step = int (param_typesize (param_ty p)),
        param_callback = None, param_name = param_name p, param_unit = Some (the_text (param_unit p)),
        param_docstr = Some (the_text (param_docstr p)), param_timestamp = 0\<rparr>" for k
    using sz sz' by (simp add: remote_param_def m_def f Let_def texts)
  note eff = unpack_effect [OF assms(5,9) m_def ua, unfolded al id(1) assms(6), simplified]
  then obtain r where r: "param_list_find_id (uint addr) (uint (param_id p)) t = Some r"
    "param_refs t = [0..<length (statics c)] @ r # map (heap_ref c) (slist c)" "param_at t r = remote_param m addr (param_ty p) (length (vars c))"
    "vars t = vars c @ [replicate (param_typesize (param_ty p) * nat (array_size p)) 0]" "statics t = statics c" "e = 0" "plist_wf t"
    by auto
  have "map (heap_ref t) (slist t) = r # map (heap_ref c) (slist c)" using r(2,5) by (simp add: param_refs_def)
  then have "hd (slist t) + length (statics t) = r" by (cases "slist t") (auto simp: heap_ref_def)
  then show ?thesis using r rp by (simp add: nth_append)
qed


section \<open>Removing\<close>

lemma unlink_wf:
  assumes "plist_wf s" "slist s = pre @ h # post"
  shows "plist_wf (s\<lparr>slist := pre @ post\<rparr>)"
proof -
  let ?t = "s\<lparr>slist := pre @ post\<rparr>"
  have at: "param_key ?t = param_key s" by (rule ext) (simp add: param_key_def param_at_def)
  have refs: "param_refs ?t = [0..<length (statics s)] @ map (heap_ref s) (pre @ post)" by (simp add: param_refs_def heap_ref_def)
  have keys: "distinct (map (param_key ?t) (param_refs ?t))"
    unfolding at refs using plist_wfD(3) [OF assms(1)] by (auto simp: param_refs_def assms(2) simp del: map_map)
  show ?thesis
    by (rule plist_wfI; (fact keys)?) (use assms in \<open>auto simp: plist_wf_def heap_param_ok_def\<close>)
qed

text \<open>One removal: the element leaves the list and its memory is released.\<close>

lemma remove_one:
  assumes "plist_wf s" "slist s = pre @ h # post"
  defines "t \<equiv> param_list_destroy (heap_ref s h) (SLIST_REMOVE (heap_ref s h) s)"
  shows "plist_wf t" "ub t = ub s" "slist t = pre @ post" "statics t = statics s" "heap t = (heap s)[h := None]"
proof -
  define u where "u = s\<lparr>slist := pre @ post\<rparr>"
  have "remove1 h (slist s) = pre @ post" using plist_wfD(1) [OF assms(1)] assms(2) by (simp add: remove1_append)
  then have "SLIST_REMOVE (heap_ref s h) s = u" using assms(2) by (simp add: SLIST_REMOVE_def u_def heap_ref_def)
  then have t: "t = param_list_destroy (heap_ref u h) u" by (simp add: t_def u_def)
  have h: "h < length (heap u)" "heap u ! h \<noteq> None" "h \<notin> set (slist u)"
    using plist_wfD(1,2) [OF assms(1)] assms(2) by (auto simp: u_def)
  note d = destroy_wf [OF unlink_wf [OF assms(1,2), folded u_def] h, folded t]
  show "plist_wf t" "ub t = ub s" "slist t = pre @ post" "statics t = statics s" "heap t = (heap s)[h := None]"
    using d by (simp_all add: u_def)
qed

definition kept :: "int \<Rightarrow> 'a lstate_scheme \<Rightarrow> nat \<Rightarrow> bool" where
  "kept node s h \<longleftrightarrow> node > 0 \<and> uint (param_node (the (heap s ! h))) \<noteq> node"

lemma remove_dynamic:
  assumes "plist_wf s" "\<not> ub s" "slist s = pre @ post" "length post < n"
    and "phase i = 1" "element i = x" "x = (case post of [] \<Rightarrow> None | h # _ \<Rightarrow> Some (heap_ref s h))"
    and "remove_loop n node x i c s = (k, t)"
  shows "plist_wf t \<and> \<not> ub t \<and> slist t = pre @ filter (kept node s) post \<and> statics t = statics s \<and>
    k = c + int (length (filter (\<lambda>h. \<not> kept node s h) post)) \<and> (\<forall>h. h \<notin> set post \<or> kept node s h \<longrightarrow> heap t ! h = heap s ! h)"
  using assms
proof (induction post arbitrary: pre n i x c s)
  case Nil
  then obtain m where "n = Suc m" by (cases n) auto
  then show ?case using Nil by auto
next
  case (Cons h post)
  obtain m where m: "n = Suc m" "length post < m" using Cons.prems(4) by (cases n) auto
  have d: "distinct (slist s)" by (rule plist_wfD(1) [OF Cons.prems(1)])
  define y where "y = (case post of [] \<Rightarrow> None | h # _ \<Rightarrow> Some (heap_ref s h))"
  define j where "j = i\<lparr>element := y\<rparr>"
  have x: "x = Some (heap_ref s h)" using Cons.prems(7) by simp
  then have it: "param_list_iterate s i = (y, j)"
    using Cons.prems(5,6) slist_next [OF d Cons.prems(3)] by (simp add: param_list_iterate_def y_def j_def split: list.split)
  have j: "phase j = 1" "element j = y" using Cons.prems(5) by (simp_all add: j_def)
  have at: "param_at s (heap_ref s h) = the (heap s ! h)" by (simp add: param_at_def heap_ref_def)
  note run = Cons.prems(8) [unfolded m(1) x, simplified, unfolded it prod.case j(1) at, simplified]
  show ?case
  proof (cases "kept node s h")
    case True
    then have "remove_loop m node y j c s = (k, t)" using run by (simp add: kept_def)
    from Cons.IH [OF Cons.prems(1,2) _ m(2) j y_def this, of "pre @ [h]"] Cons.prems(3) True
    show ?thesis by auto
  next
    case False
    define u where "u = param_list_destroy (heap_ref s h) (SLIST_REMOVE (heap_ref s h) s)"
    note u = remove_one [OF Cons.prems(1,3), folded u_def]
    have r: "remove_loop m node y j (c + 1) u = (k, t)" using run False Cons.prems(2) u(2) by (auto simp: kept_def Let_def u_def [symmetric] split: if_splits)
    have hr: "heap_ref u q = heap_ref s q" for q using u(4) by (simp add: heap_ref_def)
    have y: "y = (case post of [] \<Rightarrow> None | h # _ \<Rightarrow> Some (heap_ref u h))" by (simp add: y_def hr split: list.split)
    have hp: "h \<notin> set post" using d Cons.prems(3) by auto
    then have ke: "kept node u q = kept node s q" if "q \<in> set post" for q using that u(5) by (auto simp: kept_def nth_update_if)
    have "filter (kept node u) post = filter (kept node s) post" "filter (\<lambda>h. \<not> kept node u h) post = filter (\<lambda>h. \<not> kept node s h) post"
      using ke by (auto intro: filter_cong)
    moreover have "kept node u q \<longleftrightarrow> kept node s q" "heap u ! q = heap s ! q" if "q \<noteq> h" for q using that u(5) by (auto simp: kept_def)
    ultimately show ?thesis
      using Cons.IH [OF u(1) _ u(3) m(2) j y r] Cons.prems(2) u(2,4) False by (auto simp: hr) metis
  qed
qed


text \<open>The static parameters come first. All but the last are recognised by the phase of the iterator, which is that of the next element.\<close>

lemma remove_static:
  assumes "r < length (statics s)" "length (statics s) - r + length (slist s) < n" "phase i = 0" "element i = Some r"
  shows "\<exists>m j. length (slist s) < m \<and> phase j = 1 \<and> element j = SLIST_FIRST s \<and>
    remove_loop n node (Some r) i c s =
      (let l = length (statics s) - 1
       in if node > 0 \<and> uint (param_node (statics s ! l)) \<noteq> node then remove_loop m node (SLIST_FIRST s) j c s
          else let u = param_list_destroy l (SLIST_REMOVE l s) in if ub u then (c, u) else remove_loop m node (SLIST_FIRST s) j (c + 1) u)"
  using assms
proof (induction "length (statics s) - r" arbitrary: r n i)
  case (Suc k)
  obtain m where m: "n = Suc m" using Suc.prems(2) by (cases n) auto
  show ?case
  proof (cases "r + 1 < length (statics s)")
    case True
    define j where "j = i\<lparr>element := Some (r + 1)\<rparr>"
    have it: "param_list_iterate s i = (Some (r + 1), j)" using Suc.prems True by (simp add: param_list_iterate_def j_def)
    have "phase j = 0" "element j = Some (r + 1)" using Suc.prems by (simp_all add: j_def)
    from Suc.hyps(1) [OF _ True _ this, of m] Suc.hyps(2) Suc.prems(2) it \<open>phase j = 0\<close> m show ?thesis by simp
  next
    case False
    then have l: "r = length (statics s) - 1" using Suc.prems(1) by simp
    define j where "j = i\<lparr>phase := 1, element := SLIST_FIRST s\<rparr>"
    have it: "param_list_iterate s i = (SLIST_FIRST s, j)" using Suc.prems False by (simp add: param_list_iterate_def j_def)
    have "param_at s r = statics s ! (length (statics s) - 1)" using Suc.prems(1) l by (simp add: param_at_def)
    then have "remove_loop n node (Some r) i c s =
      (let l = length (statics s) - 1
       in if node > 0 \<and> uint (param_node (statics s ! l)) \<noteq> node then remove_loop m node (SLIST_FIRST s) j c s
          else let u = param_list_destroy l (SLIST_REMOVE l s) in if ub u then (c, u) else remove_loop m node (SLIST_FIRST s) j (c + 1) u)"
      using it l by (simp add: m j_def Let_def)
    moreover have "length (slist s) < m" using Suc.prems(1,2) m l by simp
    ultimately show ?thesis by (intro exI [of _ m] exI [of _ j]) (simp add: j_def)
  qed
qed simp



section \<open>Examples\<close>

definition param_ex :: param_t where
  "param_ex = \<lparr>param_id = 31, param_node = 0, param_ty = PARAM_TYPE_UINT16, param_mask = 4, param_addr = 0, param_vmem = None,
     array_size = 3, array_step = 2, param_callback = None, param_name = [115, 117], param_unit = None, param_docstr = Some [83, 84, 79],
     param_timestamp = 0\<rparr>"

definition plist_ex :: lstate where
  "plist_ex = \<lparr>vars = [[0, 0, 0, 0, 0, 0]], vmems = [], files = (\<lambda>f. None), can_write = (\<lambda>f. True), ub = False,
     statics = [param_ex], heap = [], slist = []\<rparr>"

lemma plist_ex_facts: "plist_wf plist_ex" "\<not> ub plist_ex" "statics plist_ex = [param_ex]" "slist plist_ex = []" "vars plist_ex = [[0, 0, 0, 0, 0, 0]]"
  by (simp_all add: plist_ex_def plist_wf_def param_refs_def heap_ref_def param_ex_def)

lemma sendable_ex: "sendable param_ex"
  by (simp add: sendable_def text_ok_def param_ex_def the_text_def)

lemma rparam_ex: "207 \<le> length (rparam_bytes plist_ex param_ex)"
  by (simp add: rparam_bytes_eq)

lemma find_ex: "param_list_find_id (uint (21 :: u16)) (uint (31 :: u16)) plist_ex = None"
  using find_id_iff [OF plist_ex_facts(1), of 21 31]
  by (cases "param_list_find_id (uint (21 :: u16)) (uint (31 :: u16)) plist_ex") (auto simp: param_refs_def plist_ex_facts param_key_def param_at_def param_ex_def)

theorem param_list_unpack_effect_witness:
  "plist_wf (snd (snd (param_list_unpack (\<lambda>k. True) 21 (rparam_bytes plist_ex param_ex) 61 3 True plist_ex)))"
proof -
  obtain e d t where "param_list_unpack (\<lambda>k. True) 21 (rparam_bytes plist_ex param_ex) 61 3 True plist_ex = (e, d, t)" by (rule prod_cases3)
  then show ?thesis using param_list_unpack_effect [OF plist_ex_facts(1) _ refl refl] by fastforce
qed

theorem param_list_roundtrip_witness:
  "\<exists>r. param_list_find_id 21 31 (snd (snd (param_list_unpack (\<lambda>k. True) 21 (rparam_bytes plist_ex param_ex) (int (rparam_length param_ex)) 3 True plist_ex))) = Some r"
proof -
  obtain e d t where run: "param_list_unpack (\<lambda>k. True) 21 (rparam_bytes plist_ex param_ex) (int (rparam_length param_ex)) 3 True plist_ex = (e, d, t)"
    by (rule prod_cases3)
  have addr: "(21 :: u16) = (if param_node param_ex = 0 then of_int 21 else param_node param_ex)" by (simp add: param_ex_def)
  have find: "param_list_find_id (uint (21 :: u16)) (uint (param_id param_ex)) plist_ex = None" using find_ex by (simp add: param_ex_def)
  from param_list_roundtrip [OF sendable_ex rparam_ex refl addr plist_ex_facts(1) find _ _ run] run show ?thesis
    by (auto simp: param_ex_def)
qed


text \<open>A second description of a parameter may have more elements than the first one; the memory stays the one that was allocated for the first.\<close>

lemma redescribed_too_large:
  "let s = snd (snd (param_list_unpack (\<lambda>k. True) 5 ([0, 7, 0, 5, 0, 1] @ replicate 250 0) 60 3 True plist_ex));
       t = snd (snd (param_list_unpack (\<lambda>k. True) 5 ([0, 7, 0, 5, 3, 9] @ replicate 250 0) 60 3 True s));
       p = param_at t 1
   in array_size p = 9 \<and> param_ty p = PARAM_TYPE_UINT64 \<and> length (vars t ! param_addr p) = 1"
  by code_simp


end
