(* ===== verification/Vmem_Server.thy ===== *)
theory Vmem_Server
  imports Csp_Node Param_List
begin

text \<open>
  The memory server of the system manager: \<open>lib/param/src/vmem/vmem.c\<close>, \<open>vmem_crc32.c\<close> and \<open>vmem_server.c\<close>. It serves
  connections on two ports: requests to read, write, list, check, back up and restore the virtual memories, and the
  list of parameters.

  The areas are the virtual memories of theory \<open>Param\<close>, with the parts of their description that only the server uses in \<open>areas\<close>. As both macros that define an area
  have it, the address of an area is that of the array behind it. \<open>vhost\<close> is the memory of the process outside of the areas; an
  address is a machine word and the arithmetic on it wraps around, as the processor does it. The buffers of packets lie in no area. What blocks and what is outside of the code is
  in \<open>vmem_env\<close>: what other tasks do during a wait, the functions behind the pointers \<open>backup\<close> and \<open>restore\<close>, and the number of packets
  the upload loop is followed for, which has no bound of its own.
\<close>

section \<open>State\<close>

record vmem_desc =
  vd_vaddr :: u64
  vd_name :: "byte list"
  vd_backup :: bool
  vd_restore :: bool

record vserver =
  vstack :: csp_state
  vparams :: lstate
  areas :: "vmem_desc list"
  vhost :: "u64 \<Rightarrow> byte"
  unlocked :: int

record vmem_env =
  send_wait :: "u32 \<Rightarrow> (csp_state \<Rightarrow> csp_state) list"
  read_wait :: "nat \<Rightarrow> u32 \<Rightarrow> csp_state \<Rightarrow> csp_state"
  backup_fn :: "nat \<Rightarrow> lstate \<Rightarrow> int \<times> lstate"
  restore_fn :: "nat \<Rightarrow> lstate \<Rightarrow> int \<times> lstate"
  uploads :: nat

definition VMEM_SERVER_TIMEOUT :: u32 where "VMEM_SERVER_TIMEOUT = 30000"
definition VMEM_SERVER_MTU :: u32 where "VMEM_SERVER_MTU = 192"
definition VMEM_PORT_SERVER :: nat where "VMEM_PORT_SERVER = 14"
definition PARAM_PORT_LIST :: nat where "PARAM_PORT_LIST = 12"

definition VMEM_SERVER_UPLOAD :: u8 where "VMEM_SERVER_UPLOAD = 0"
definition VMEM_SERVER_DOWNLOAD :: u8 where "VMEM_SERVER_DOWNLOAD = 1"
definition VMEM_SERVER_LIST :: u8 where "VMEM_SERVER_LIST = 2"
definition VMEM_SERVER_RESTORE :: u8 where "VMEM_SERVER_RESTORE = 3"
definition VMEM_SERVER_BACKUP :: u8 where "VMEM_SERVER_BACKUP = 4"
definition VMEM_SERVER_UNLOCK :: u8 where "VMEM_SERVER_UNLOCK = 5"
definition VMEM_SERVER_CALCULATE_CRC32 :: u8 where "VMEM_SERVER_CALCULATE_CRC32 = 6"

lemmas vmem_type_defs = VMEM_SERVER_UPLOAD_def VMEM_SERVER_DOWNLOAD_def VMEM_SERVER_LIST_def VMEM_SERVER_RESTORE_def
  VMEM_SERVER_BACKUP_def VMEM_SERVER_UNLOCK_def VMEM_SERVER_CALCULATE_CRC32_def

definition upd_vstack :: "(csp_state \<Rightarrow> csp_state) \<Rightarrow> vserver \<Rightarrow> vserver" where
  "upd_vstack f v = v\<lparr>vstack := f (vstack v)\<rparr>"

section \<open>Memory\<close>

definition area :: "vserver \<Rightarrow> nat \<Rightarrow> vmem" where
  "area v k = vmems (vparams v) ! k"

text \<open>The bytes of the process: those of the arrays behind the areas, and the others.\<close>

definition area_of :: "vserver \<Rightarrow> u64 \<Rightarrow> nat option" where
  "area_of v a = find (\<lambda>k. unat (a - vd_vaddr (areas v ! k)) < length (vm_mem (area v k))) [0..<length (areas v)]"

definition mem_byte :: "vserver \<Rightarrow> u64 \<Rightarrow> byte" where
  "mem_byte v a = (case area_of v a of None \<Rightarrow> vhost v a | Some k \<Rightarrow> vm_mem (area v k) ! unat (a - vd_vaddr (areas v ! k)))"

definition mem_put :: "u64 \<Rightarrow> byte \<Rightarrow> vserver \<Rightarrow> vserver" where
  "mem_put a b v =
     (case area_of v a of None \<Rightarrow> v\<lparr>vhost := (vhost v)(a := b)\<rparr>
      | Some k \<Rightarrow> v\<lparr>vparams := (vparams v)\<lparr>vmems := (vmems (vparams v))[k := (area v k)
          \<lparr>vm_mem := (vm_mem (area v k))[unat (a - vd_vaddr (areas v ! k)) := b]\<rparr>]\<rparr>\<rparr>)"

definition memcpy_from :: "u64 \<Rightarrow> nat \<Rightarrow> vserver \<Rightarrow> byte list" where
  "memcpy_from a n v = map (\<lambda>i. mem_byte v (a + of_nat i)) [0..<n]"

fun memcpy_to :: "u64 \<Rightarrow> byte list \<Rightarrow> vserver \<Rightarrow> vserver" where
  "memcpy_to a [] v = v"
| "memcpy_to a (b # bs) v = memcpy_to (a + 1) bs (mem_put a b v)"

text \<open>\<open>vmem_memcpy\<close> with the address as source and as destination; the other one is the data of a packet.\<close>

definition vmem_hit :: "vserver \<Rightarrow> u64 \<Rightarrow> u32 \<Rightarrow> nat \<Rightarrow> bool" where
  "vmem_hit v a size' k \<longleftrightarrow> vd_vaddr (areas v ! k) \<le> a \<and> a + ucast size' \<le> vd_vaddr (areas v ! k) + of_nat (vm_size (area v k))"

definition vmem_find :: "vserver \<Rightarrow> u64 \<Rightarrow> u32 \<Rightarrow> nat option" where
  "vmem_find v a size' = find (vmem_hit v a size') [0..<length (areas v)]"

definition vmem_offset :: "vserver \<Rightarrow> u64 \<Rightarrow> nat \<Rightarrow> u32" where
  "vmem_offset v a k = ucast (a - vd_vaddr (areas v ! k))"

definition vmem_memcpy_from :: "u64 \<Rightarrow> u32 \<Rightarrow> vserver \<Rightarrow> byte list \<times> vserver" where
  "vmem_memcpy_from a size' v =
     (case vmem_find v a size' of
        Some k \<Rightarrow> (case vmem_read k (unat (vmem_offset v a k)) (unat size') (vparams v) of (bs, ps) \<Rightarrow> (bs, v\<lparr>vparams := ps\<rparr>))
      | None \<Rightarrow> (memcpy_from a (unat size') v, v))"

definition vmem_memcpy_to :: "u64 \<Rightarrow> byte list \<Rightarrow> vserver \<Rightarrow> vserver" where
  "vmem_memcpy_to a bs v =
     (case vmem_find v a (of_nat (length bs)) of
        Some k \<Rightarrow> v\<lparr>vparams := vmem_write k (unat (vmem_offset v a k)) bs (vparams v)\<rparr>
      | None \<Rightarrow> memcpy_to a bs v)"

definition vmem_index_to_ptr :: "u8 \<Rightarrow> nat" where
  "vmem_index_to_ptr idx = unat idx"

section \<open>Checksum of a range\<close>

text \<open>With an empty buffer the loop does not end, which is the result \<open>None\<close>.\<close>

function crc32_loop :: "u64 \<Rightarrow> u32 \<Rightarrow> u32 \<Rightarrow> u32 \<Rightarrow> u32 \<Rightarrow> byte list \<Rightarrow> vserver \<Rightarrow> (u32 \<times> byte list \<times> vserver) option" where
  "crc32_loop addr len buffer_len count' crc buf v =
     (if count' < len then
        let chunk_len = (if buffer_len > len - count' then len - count' else buffer_len)
        in if chunk_len = 0 then None
           else (case vmem_memcpy_from (addr + ucast count') chunk_len v of
                   (bs, v) \<Rightarrow> crc32_loop addr len buffer_len (count' + chunk_len) (csp_crc32_update crc bs) (mwrite 0 bs buf) v)
      else Some (crc, buf, v))"
  by pat_completeness auto

definition vmem_calc_crc32 :: "u64 \<Rightarrow> u32 \<Rightarrow> byte list \<Rightarrow> u32 \<Rightarrow> vserver \<Rightarrow> (u32 \<times> byte list \<times> vserver) option" where
  "vmem_calc_crc32 addr len buf buffer_len v =
     map_option (\<lambda>(crc, buf, v). (csp_crc32_final crc, buf, v)) (crc32_loop addr len buffer_len 0 csp_crc32_init buf v)"

termination crc32_loop
proof (relation "measure (\<lambda>(addr, len, buffer_len, count', crc, buf, v). unat len - unat count')", goal_cases)
  case 1
  then show ?case by simp
next
  case (2 addr len buffer_len count' crc buf v chunk_len x y)
  then have l: "count' < len" "buffer_len \<noteq> 0" by (auto split: if_splits)
  note c = chunk_size [OF l]
  have "chunk_len = (if len - count' > buffer_len then buffer_len else len - count')" using 2(2) chunk_eq by simp
  then show ?case using c l(1) by (auto simp: word_less_nat_alt)
qed

declare crc32_loop.simps [simp del]

section \<open>Requests\<close>

text \<open>The fields of \<open>vmem_request_t\<close>: version, type, and from the third byte on the arguments.\<close>

definition req_get :: "nat \<Rightarrow> nat \<Rightarrow> nat \<Rightarrow> csp_state \<Rightarrow> byte list" where
  "req_get p off n s = mread (data_at off) n (pmem (pkt s p))"

definition req_put :: "nat \<Rightarrow> nat \<Rightarrow> byte list \<Rightarrow> csp_state \<Rightarrow> csp_state" where
  "req_put p off bs s = set_pkt p ((pkt s p)\<lparr>pmem := mwrite (data_at off) bs (pmem (pkt s p))\<rparr>) s"

definition req_length :: "nat \<Rightarrow> u16 \<Rightarrow> csp_state \<Rightarrow> csp_state" where
  "req_length p n s = set_pkt p ((pkt s p)\<lparr>plength := n\<rparr>) s"

definition req_byte :: "nat \<Rightarrow> nat \<Rightarrow> csp_state \<Rightarrow> byte" where
  "req_byte p off s = hd (req_get p off 1 s)"

definition req_address :: "nat \<Rightarrow> csp_state \<Rightarrow> u64" where
  "req_address p s = (if req_byte p 0 s = 2 then be64_dec (req_get p 2 8 s) else ucast (be32_dec (req_get p 2 4 s)))"

definition req_size :: "nat \<Rightarrow> csp_state \<Rightarrow> u32" where
  "req_size p s = (if req_byte p 0 s = 2 then be32_dec (req_get p 10 4 s) else be32_dec (req_get p 6 4 s))"

function download_loop :: "vmem_env \<Rightarrow> nat \<Rightarrow> u64 \<Rightarrow> u32 \<Rightarrow> u32 \<Rightarrow> vserver \<Rightarrow> vserver" where
  "download_loop env c address len count' v =
     (if \<not> (count' < len \<and> csp_conn_is_active c (vstack v)) then v
      else
        (case csp_buffer_get (vstack v) of
           (None, s) \<Rightarrow> v\<lparr>vstack := s\<rparr>
         | (Some p, s) \<Rightarrow>
             let n = (if VMEM_SERVER_MTU < len - count' then VMEM_SERVER_MTU else len - count');
                 v = v\<lparr>vstack := req_length p (ucast n) s\<rparr>;
                 (bs, v) = vmem_memcpy_from (address + ucast count') n v;
                 v = upd_vstack (req_put p 0 bs) v;
                 v = upd_vstack (csp_send (send_wait env count') (Some c) (Some p)) v
             in download_loop env c address len (count' + n) v))"
  by pat_completeness auto
termination
proof (relation "measure (\<lambda>(env, c, address, len, count', v). unat len - unat count')", goal_cases)
  case 1
  then show ?case by simp
next
  case (2 env c address len count' v x y p n u bs w w' w'')
  then have l: "count' < len" "VMEM_SERVER_MTU \<noteq> 0" by (auto simp: VMEM_SERVER_MTU_def)
  note c = chunk_size [OF l]
  then show ?case using l(1) 2 by (auto simp: word_less_nat_alt)
qed

declare download_loop.simps [simp del]

definition serve_download :: "vmem_env \<Rightarrow> nat \<Rightarrow> nat \<Rightarrow> vserver \<Rightarrow> vserver" where
  "serve_download env c p v =
     (let address = req_address p (vstack v); len = req_size p (vstack v)
      in download_loop env c address len 0 (upd_vstack (csp_buffer_free (Some p)) v))"

text \<open>The checksum loop ends, as the buffer of \<open>VMEM_SERVER_MTU\<close> bytes is not empty.\<close>

definition serve_crc32 :: "vmem_env \<Rightarrow> nat \<Rightarrow> nat \<Rightarrow> vserver \<Rightarrow> vserver" where
  "serve_crc32 env c p v =
     (case vmem_calc_crc32 (req_address p (vstack v)) (req_size p (vstack v)) (req_get p 0 CSP_BUFFER_SIZE (vstack v)) VMEM_SERVER_MTU v of
        None \<Rightarrow> v
      | Some (crc, buf, v) \<Rightarrow>
          let v = upd_vstack (req_put p 0 buf) v;
              v = upd_vstack (req_put p 0 (be32_enc crc)) v;
              v = upd_vstack (req_length p 4) v
          in upd_vstack (csp_send (send_wait env 0) (Some c) (Some p)) v)"

fun upload_loop :: "vmem_env \<Rightarrow> nat \<Rightarrow> nat \<Rightarrow> u64 \<Rightarrow> u32 \<Rightarrow> vserver \<Rightarrow> bool \<times> vserver" where
  "upload_loop env 0 c address count' v = (False, v)"
| "upload_loop env (Suc n) c address count' v =
     (case csp_read (read_wait env n) (Some c) VMEM_SERVER_TIMEOUT (vstack v) of
        (None, s) \<Rightarrow> (True, v\<lparr>vstack := s\<rparr>)
      | (Some p, s) \<Rightarrow>
          let v = vmem_memcpy_to (address + scast count') (pdata (pkt s p)) (v\<lparr>vstack := s\<rparr>);
              count' = count' + ucast (plength (pkt s p))
          in upload_loop env n c address count' (upd_vstack (csp_buffer_free (Some p)) v))"

definition serve_upload :: "vmem_env \<Rightarrow> nat \<Rightarrow> nat \<Rightarrow> vserver \<Rightarrow> vserver" where
  "serve_upload env c p v =
     (let address = req_address p (vstack v)
      in snd (upload_loop env (uploads env) c address 0 (upd_vstack (csp_buffer_free (Some p)) v)))"

text \<open>The entries \<open>vmem_list_t\<close> and \<open>vmem_list2_t\<close>. An entry behind the end of the packet is undefined.\<close>

definition list_entry :: "u8 \<Rightarrow> vserver \<Rightarrow> nat \<Rightarrow> byte list" where
  "list_entry version v i =
     (if version = 1 then be32_enc (ucast (vd_vaddr (areas v ! i))) else be64_enc (vd_vaddr (areas v ! i)))
     @ be32_enc (of_nat (vm_size (area v i))) @ [of_nat i] @ [vmem_type (vm_driver (area v i))] @ strncpy_field (vd_name (areas v ! i)) 5"

definition list_entry_size :: "u8 \<Rightarrow> nat" where
  "list_entry_size version = (if version = 1 then 15 else 19)"

fun list_loop :: "u8 \<Rightarrow> nat \<Rightarrow> nat list \<Rightarrow> vserver \<Rightarrow> vserver" where
  "list_loop version p [] v = v"
| "list_loop version p (i # is) v =
     (if (i + 1) * list_entry_size version > CSP_BUFFER_SIZE then upd_vstack (\<lambda>s. s\<lparr>fault := True\<rparr>) v
      else
        let v = upd_vstack (req_put p (i * list_entry_size version) (list_entry version v i)) v;
            v = upd_vstack (\<lambda>s. req_length p (plength (pkt s p) + of_nat (list_entry_size version)) s) v
        in list_loop version p is v)"

definition serve_list :: "vmem_env \<Rightarrow> nat \<Rightarrow> nat \<Rightarrow> vserver \<Rightarrow> vserver" where
  "serve_list env c p v =
     (let version = req_byte p 0 (vstack v);
          v = (if version = 1 \<or> version = 2 then list_loop version p [0..<length (areas v)] (upd_vstack (req_length p 0) v) else v)
      in upd_vstack (csp_send (send_wait env 0) (Some c) (Some p)) v)"

text \<open>The number of the area in the request is not checked; an area that does not exist is read from behind the table.\<close>

definition serve_backup :: "vmem_env \<Rightarrow> nat \<Rightarrow> nat \<Rightarrow> vserver \<Rightarrow> vserver" where
  "serve_backup env c p v =
     (let k = vmem_index_to_ptr (req_byte p 2 (vstack v));
          backup = (req_byte p 1 (vstack v) = VMEM_SERVER_BACKUP);
          v = (if (\<not> backup \<or> unlocked v = 1) \<and> length (areas v) \<le> k then upd_vstack (\<lambda>s. s\<lparr>fault := True\<rparr>) v else v);
          (result, ps) =
            (if backup then (if unlocked v = 1 \<and> vd_backup (areas v ! k) then backup_fn env k (vparams v) else (-4, vparams v))
             else (if vd_restore (areas v ! k) then restore_fn env k (vparams v) else (-3, vparams v)));
          v = v\<lparr>vparams := ps\<rparr>;
          v = upd_vstack (req_put p 0 [of_int result]) v;
          v = upd_vstack (req_length p 1) v
      in upd_vstack (csp_send (send_wait env 0) (Some c) (Some p)) v)"

definition UNLOCK_CODE :: u32 where "UNLOCK_CODE = 0x28140360"

definition serve_unlock :: "vmem_env \<Rightarrow> nat \<Rightarrow> nat \<Rightarrow> vserver \<Rightarrow> vserver" where
  "serve_unlock env c p v =
     (if be32_dec (req_get p 2 4 (vstack v)) \<noteq> UNLOCK_CODE then upd_vstack (csp_buffer_free (Some p)) v
      else
        let verification_sequence = rand_r (vstack v) (now (vstack v));
            v = upd_vstack (req_put p 2 (be32_enc verification_sequence)) v;
            v = upd_vstack (csp_send (send_wait env 0) (Some c) (Some p)) v
        in case csp_read (read_wait env 0) (Some c) 30000 (vstack v) of
             (None, s) \<Rightarrow> v\<lparr>vstack := s\<rparr>
           | (Some p, s) \<Rightarrow>
               let v = v\<lparr>vstack := s\<rparr>;
                   v = (if be32_dec (req_get p 2 4 s) = verification_sequence
                        then upd_vstack (req_put p 2 (be32_enc 0)) (v\<lparr>unlocked := 1\<rparr>)
                        else upd_vstack (req_put p 2 (be32_enc 0xFFFFFFFF)) (v\<lparr>unlocked := 0\<rparr>))
               in upd_vstack (csp_send (send_wait env 1) (Some c) (Some p)) v)"

definition vmem_server_handler :: "vmem_env \<Rightarrow> nat \<Rightarrow> vserver \<Rightarrow> vserver" where
  "vmem_server_handler env c v =
     (case csp_read (read_wait env (uploads env)) (Some c) VMEM_SERVER_TIMEOUT (vstack v) of
        (None, s) \<Rightarrow> v\<lparr>vstack := s\<rparr>
      | (Some p, s) \<Rightarrow>
          let v = v\<lparr>vstack := s\<rparr>; type = req_byte p 1 s
          in if type = VMEM_SERVER_DOWNLOAD then serve_download env c p v
             else if type = VMEM_SERVER_CALCULATE_CRC32 then serve_crc32 env c p v
             else if type = VMEM_SERVER_UPLOAD then serve_upload env c p v
             else if type = VMEM_SERVER_LIST then serve_list env c p v
             else if type = VMEM_SERVER_RESTORE \<or> type = VMEM_SERVER_BACKUP then serve_backup env c p v
             else if type = VMEM_SERVER_UNLOCK then serve_unlock env c p v
             else upd_vstack (csp_buffer_free (Some p)) v)"

section \<open>The list of parameters\<close>

fun rparam_loop :: "vmem_env \<Rightarrow> nat \<Rightarrow> nat list \<Rightarrow> vserver \<Rightarrow> vserver" where
  "rparam_loop env c [] v = v"
| "rparam_loop env c (r # rs) v =
     (case csp_buffer_get (vstack v) of
        (None, s) \<Rightarrow> v\<lparr>vstack := s\<rparr>
      | (Some p, s) \<Rightarrow>
          let rp = param_at (vparams v) r;
              s = req_put p 0 (rparam_bytes (vparams v) rp) s;
              s = req_length p (of_nat (rparam_length rp)) s;
              s = csp_send (send_wait env (of_nat r)) (Some c) (Some p) s
          in rparam_loop env c rs (v\<lparr>vstack := s\<rparr>))"

definition rparam_list_handler :: "vmem_env \<Rightarrow> nat \<Rightarrow> vserver \<Rightarrow> vserver" where
  "rparam_list_handler env c v = rparam_loop env c (param_list_loop (vparams v)) v"

section \<open>The server task\<close>

definition vmem_server_start :: "nat \<Rightarrow> vserver \<Rightarrow> vserver" where
  "vmem_server_start sock v =
     (let v = upd_vstack (\<lambda>s. snd (csp_bind (Some sock) VMEM_PORT_SERVER s)) v;
          v = upd_vstack (\<lambda>s. snd (csp_bind (Some sock) PARAM_PORT_LIST s)) v
      in upd_vstack (\<lambda>s. snd (csp_listen sock s)) v)"

text \<open>One round of the endless loop; \<open>w\<close> is what the other tasks do while it waits for a connection.\<close>

definition vmem_server_round :: "vmem_env \<Rightarrow> (u32 \<Rightarrow> csp_state \<Rightarrow> csp_state) \<Rightarrow> nat \<Rightarrow> vserver \<Rightarrow> vserver" where
  "vmem_server_round env w sock v =
     (case csp_accept w (Some sock) 0xFFFFFFFF (vstack v) of
        (None, s) \<Rightarrow> v\<lparr>vstack := s\<rparr>
      | (Some c, s) \<Rightarrow>
          let v = v\<lparr>vstack := s\<rparr>; port = unat (dport (cidin (conn s c)));
              v = (if port = VMEM_PORT_SERVER then vmem_server_handler env c v
                   else if port = PARAM_PORT_LIST then rparam_list_handler env c v
                   else v)
          in upd_vstack (\<lambda>s. snd (csp_close (Some c) s)) v)"


section \<open>Ranges in an area\<close>

text \<open>The areas as the linker places them: every one has its array, below the end of the address space, and no two overlap.\<close>

definition area_end :: "vserver \<Rightarrow> nat \<Rightarrow> nat" where
  "area_end v k = unat (vd_vaddr (areas v ! k)) + vm_size (area v k)"

definition areas_ok :: "vserver \<Rightarrow> bool" where
  "areas_ok v \<longleftrightarrow> length (vmems (vparams v)) = length (areas v) \<and>
     (\<forall>k < length (areas v). vm_size (area v k) = length (vm_mem (area v k)) \<and> vm_size (area v k) < 2 ^ 32 \<and> area_end v k < 2 ^ 64) \<and>
     (\<forall>j < length (areas v). \<forall>k < length (areas v). j \<noteq> k \<longrightarrow>
        area_end v j \<le> unat (vd_vaddr (areas v ! k)) \<or> area_end v k \<le> unat (vd_vaddr (areas v ! j)))"

definition in_area :: "vserver \<Rightarrow> nat \<Rightarrow> nat \<Rightarrow> nat \<Rightarrow> bool" where
  "in_area v k a n \<longleftrightarrow> k < length (areas v) \<and> unat (vd_vaddr (areas v ! k)) \<le> a \<and> a + n \<le> area_end v k"

lemma areas_okD:
  assumes "areas_ok v" "k < length (areas v)"
  shows "vm_size (area v k) = length (vm_mem (area v k))" "vm_size (area v k) < 2 ^ 32" "area_end v k < 2 ^ 64" "k < length (vmems (vparams v))"
  using assms by (auto simp: areas_ok_def)

lemma in_area_fits:
  assumes "areas_ok v" "in_area v k a n"
  shows "a - unat (vd_vaddr (areas v ! k)) + n \<le> length (vm_mem (area v k))"
proof -
  have "unat (vd_vaddr (areas v ! k)) \<le> a" "a + n \<le> unat (vd_vaddr (areas v ! k)) + length (vm_mem (area v k))"
    using assms areas_okD(1) [OF assms(1), of k] by (auto simp: in_area_def area_end_def)
  then show ?thesis by linarith
qed

lemma unat_ucast_64 [simp]: "unat (ucast (n :: u32) :: u64) = unat n"
proof -
  have "unat n < 2 ^ LENGTH(32)" by (rule unsigned_less)
  then show ?thesis by (simp add: unsigned_ucast_eq take_bit_nat_eq_self)
qed

lemma unat_of_nat_64: "n < 2 ^ 64 \<Longrightarrow> unat (of_nat n :: u64) = n"
  by (simp add: unat_of_nat)

lemma unat_add_64: "unat a + unat b < 2 ^ 64 \<Longrightarrow> unat (a + b) = unat a + unat b" for a b :: u64
  by (rule unat_add_lem [THEN iffD1]) simp

text \<open>An address that does not wrap hits an area exactly if the range is inside of it.\<close>

lemma vmem_hit_iff:
  assumes "areas_ok v" "k < length (areas v)" "unat a + unat n < 2 ^ 64"
  shows "vmem_hit v a n k \<longleftrightarrow> in_area v k (unat a) (unat n)"
proof -
  note ok = areas_okD [OF assms(1,2)]
  have s: "unat (of_nat (vm_size (area v k)) :: u64) = vm_size (area v k)" using ok(2) by (intro unat_of_nat_64) simp
  have "unat (vd_vaddr (areas v ! k) + of_nat (vm_size (area v k))) = area_end v k"
    using unat_add_64 [of "vd_vaddr (areas v ! k)" "of_nat (vm_size (area v k))"] ok(3) unfolding s area_end_def by blast
  moreover have "unat (a + ucast n) = unat a + unat n" using unat_add_64 [of a "ucast n"] assms(3) unfolding unat_ucast_64 by blast
  ultimately show ?thesis using assms(2) by (simp add: vmem_hit_def in_area_def word_le_nat_alt)
qed

lemma find_unique: "x \<in> set xs \<Longrightarrow> P x \<Longrightarrow> (\<And>y. y \<in> set xs \<Longrightarrow> P y \<Longrightarrow> y = x) \<Longrightarrow> find P xs = Some x"
proof (induction xs)
  case (Cons z zs)
  show ?case
  proof (cases "P z")
    case True
    then show ?thesis using Cons.prems(3) [of z] by simp
  next
    case False
    then have "x \<in> set zs" using Cons.prems(1,2) by auto
    then have "find P zs = Some x" by (rule Cons.IH) (use Cons.prems(2,3) in simp_all)
    then show ?thesis using False by simp
  qed
qed simp

lemma vmem_find_in:
  assumes "areas_ok v" "in_area v k (unat a) (unat n)" "0 < unat n"
  shows "vmem_find v a n = Some k" "unat (vmem_offset v a k) = unat a - unat (vd_vaddr (areas v ! k))"
proof -
  have k: "k < length (areas v)" "unat (vd_vaddr (areas v ! k)) \<le> unat a" "unat a + unat n \<le> area_end v k" using assms(2) by (simp_all add: in_area_def)
  note ok = areas_okD [OF assms(1) k(1)]
  have w: "unat a + unat n < 2 ^ 64" using k(3) ok(3) by linarith
  show "vmem_find v a n = Some k"
    unfolding vmem_find_def
  proof (rule find_unique)
    show "vmem_hit v a n k" using vmem_hit_iff [OF assms(1) k(1) w] assms(2) by simp
    fix j assume "j \<in> set [0..<length (areas v)]" "vmem_hit v a n j"
    then have j: "j < length (areas v)" "in_area v j (unat a) (unat n)" using vmem_hit_iff [OF assms(1) _ w] by auto
    show "j = k"
    proof (rule ccontr)
      assume "j \<noteq> k"
      then have "area_end v j \<le> unat (vd_vaddr (areas v ! k)) \<or> area_end v k \<le> unat (vd_vaddr (areas v ! j))"
        using assms(1) j(1) k(1) unfolding areas_ok_def by blast
      then show False using j(2) k(2,3) assms(3) unfolding in_area_def by linarith
    qed
  qed (use k in simp)
  have d: "unat (a - vd_vaddr (areas v ! k)) = unat a - unat (vd_vaddr (areas v ! k))" using k(2) by (intro unat_sub) (simp add: word_le_nat_alt)
  also have "\<dots> < 2 ^ 32" using k(3) ok(2) assms(3) by (simp add: area_end_def)
  finally show "unat (vmem_offset v a k) = unat a - unat (vd_vaddr (areas v ! k))"
    using d by (simp add: vmem_offset_def unsigned_ucast_eq take_bit_nat_eq_self)
qed

lemma memcpy_from_in:
  assumes "areas_ok v" "in_area v k (unat a) (unat n)" "0 < unat n"
  shows "vmem_memcpy_from a n v = (mread (unat a - unat (vd_vaddr (areas v ! k))) (unat n) (vm_mem (area v k)), v)"
proof -
  have "unat a - unat (vd_vaddr (areas v ! k)) + unat n \<le> length (vm_mem (area v k))"
    by (rule in_area_fits [OF assms(1,2)])
  then show ?thesis unfolding vmem_memcpy_from_def vmem_find_in(1) [OF assms] option.case vmem_find_in(2) [OF assms]
    by (cases "vm_driver (area v k)") (simp_all add: vmem_read_def vmem_file_read_def vmem_ram_read_def area_def)
qed

text \<open>A write into an area changes its array, and its file when it has one that can be written.\<close>

lemma memcpy_to_in:
  assumes "areas_ok v" "in_area v k (unat a) (length bs)" "bs \<noteq> []"
  defines "t \<equiv> vmem_memcpy_to a bs v"
  shows "vmems (vparams t) = (vmems (vparams v))[k := (area v k)\<lparr>vm_mem := mwrite (unat a - unat (vd_vaddr (areas v ! k))) bs (vm_mem (area v k))\<rparr>]"
    "vstack t = vstack v" "areas t = areas v" "ub (vparams t) = ub (vparams v)" "can_write (vparams t) = can_write (vparams v)"
    "vm_driver (area v k) = VMEM_FILE f \<Longrightarrow> can_write (vparams v) f \<Longrightarrow>
      files (vparams t) f = Some (mwrite (unat a - unat (vd_vaddr (areas v ! k))) bs (vm_mem (area v k)))"
proof -
  have k: "k < length (areas v)" using assms(2) by (simp add: in_area_def)
  note ok = areas_okD [OF assms(1) k]
  have l: "length bs \<le> vm_size (area v k)" using assms(2) by (simp add: in_area_def area_end_def)
  then have n: "unat (of_nat (length bs) :: u32) = length bs" using ok(2) by (simp add: unat_of_nat)
  have ia: "in_area v k (unat a) (unat (of_nat (length bs) :: u32))" "0 < unat (of_nat (length bs) :: u32)" unfolding n using assms(2,3) by simp_all
  define off where "off = unat a - unat (vd_vaddr (areas v ! k))"
  have fits: "off + length bs \<le> length (vm_mem (vmems (vparams v) ! k))"
    using in_area_fits [OF assms(1,2)] by (simp add: off_def area_def)
  have t: "t = v\<lparr>vparams := vmem_write k off bs (vparams v)\<rparr>"
    unfolding t_def vmem_memcpy_to_def vmem_find_in(1) [OF assms(1) ia] option.case vmem_find_in(2) [OF assms(1) ia] off_def ..
  show "vmems (vparams t) = (vmems (vparams v))[k := (area v k)\<lparr>vm_mem := mwrite (unat a - unat (vd_vaddr (areas v ! k))) bs (vm_mem (area v k))\<rparr>]"
    "vstack t = vstack v" "areas t = areas v" "ub (vparams t) = ub (vparams v)" "can_write (vparams t) = can_write (vparams v)"
    "vm_driver (area v k) = VMEM_FILE f \<Longrightarrow> can_write (vparams v) f \<Longrightarrow>
      files (vparams t) f = Some (mwrite (unat a - unat (vd_vaddr (areas v ! k))) bs (vm_mem (area v k)))"
    using fits ok(1,4) unfolding t off_def [symmetric]
    by (auto simp: vmem_write_def vmem_ram_write_def vmem_file_write_def area_def Let_def split: vmem_driver.split)
qed


lemma unat_offset:
  fixes a :: u64 and k :: u32
  assumes "areas_ok v" "in_area v j (unat a) n" "unat k \<le> n"
  shows "unat (a + ucast k) = unat a + unat k"
proof -
  have "j < length (areas v)" "unat a + n \<le> area_end v j" using assms(2) by (simp_all add: in_area_def)
  then have "unat a + unat k < 2 ^ 64" using areas_okD(3) [OF assms(1), of j] assms(3) by linarith
  then show ?thesis using unat_add_64 [of a "ucast k"] unfolding unat_ucast_64 by blast
qed

lemma in_area_sub: "in_area v k a n \<Longrightarrow> i + m \<le> n \<Longrightarrow> in_area v k (a + i) m"
  by (simp add: in_area_def)

lemma crc32_loop_in:
  assumes "areas_ok v" "in_area v k (unat addr) (unat len)" "buffer_len \<noteq> 0" "unat buffer_len \<le> length buf" "unat count' \<le> unat len"
  shows "\<exists>b. length b = length buf \<and> crc32_loop addr len buffer_len count' crc buf v =
    Some (csp_crc32_update crc (mread (unat addr - unat (vd_vaddr (areas v ! k)) + unat count') (unat len - unat count') (vm_mem (area v k))), b, v)"
  using assms(4,5)
proof (induction "unat len - unat count'" arbitrary: count' crc buf rule: less_induct)
  case less
  define off where "off = unat addr - unat (vd_vaddr (areas v ! k))"
  have addr: "unat (vd_vaddr (areas v ! k)) \<le> unat addr" using assms(2) by (simp add: in_area_def)
  have fits: "off + unat len \<le> length (vm_mem (area v k))" using in_area_fits [OF assms(1,2)] by (simp add: off_def)
  show ?case
  proof (cases "count' < len")
    case False
    then have "unat len - unat count' = 0" using less.prems(2) by (simp add: word_less_nat_alt)
    then show ?thesis using False by (simp add: crc32_loop.simps [of addr len buffer_len count' crc buf v])
  next
    case True
    define n where "n = (if len - count' > buffer_len then buffer_len else len - count')"
    note c = chunk_size [OF True assms(3), folded n_def]
    have n: "0 < unat n" "unat n \<le> unat buffer_len" "unat count' + unat n \<le> unat len" "unat (count' + n) = unat count' + unat n"
      using c True by (auto simp: word_less_nat_alt)
    define bs where "bs = mread (off + unat count') (unat n) (vm_mem (area v k))"
    have ad: "unat (addr + ucast count') = unat addr + unat count'" using unat_offset [OF assms(1,2)] less.prems(2) by blast
    have rd: "vmem_memcpy_from (addr + ucast count') n v = (bs, v)"
      using memcpy_from_in [OF assms(1), of k "addr + ucast count'" n] in_area_sub [OF assms(2) n(3)] n(1) addr by (simp add: ad bs_def off_def)
    have lb: "length (mwrite 0 bs buf) = length buf" using n(2) less.prems(1) fits n(3) by (subst length_mwrite) (simp_all add: bs_def)
    obtain b where b: "length b = length buf" "crc32_loop addr len buffer_len (count' + n) (csp_crc32_update crc bs) (mwrite 0 bs buf) v =
        Some (csp_crc32_update (csp_crc32_update crc bs) (mread (off + (unat count' + unat n)) (unat len - (unat count' + unat n)) (vm_mem (area v k))), b, v)"
    proof -
      have "unat len - unat (count' + n) < unat len - unat count'" unfolding n(4) using n(1,3) by linarith
      from less.hyps [OF this, of "mwrite 0 bs buf" "csp_crc32_update crc bs"] show ?thesis
        unfolding off_def n(4) lb using n(3) less.prems(1) that [unfolded off_def] by blast
    qed
    have sp: "mread (off + unat count') (unat len - unat count') (vm_mem (area v k)) =
        bs @ mread (off + (unat count' + unat n)) (unat len - (unat count' + unat n)) (vm_mem (area v k))"
      using mread_append_split [of "off + unat count'" "unat n" "unat len - (unat count' + unat n)" "vm_mem (area v k)"] fits n(3)
      by (simp add: bs_def add.assoc)
    have "n \<noteq> 0" using n(1) by auto
    then have "crc32_loop addr len buffer_len count' crc buf v =
        crc32_loop addr len buffer_len (count' + n) (csp_crc32_update crc bs) (mwrite 0 bs buf) v"
      unfolding crc32_loop.simps [of addr len buffer_len count' crc buf v] chunk_eq n_def [symmetric] Let_def
      by (simp only: True if_True if_False rd prod.case)
    then have "crc32_loop addr len buffer_len count' crc buf v =
        Some (csp_crc32_update crc (mread (off + unat count') (unat len - unat count') (vm_mem (area v k))), b, v)"
      unfolding b(2) sp csp_crc32_update_append .
    then show ?thesis using b(1) unfolding off_def by blast
  qed
qed


section \<open>Uploads\<close>

lemma scast_small:
  fixes k :: u32
  assumes "unat k < 2 ^ 31"
  shows "(scast k :: u64) = ucast k"
proof -
  have "take_bit 31 (unat k) = unat k" using assms by (rule take_bit_nat_eq_self)
  then have "\<not> bit (unat k) 31" by (metis bit_take_bit_iff less_irrefl)
  then have k: "\<not> bit k 31" by (simp add: bit_unsigned_iff)
  have "\<not> bit k n" if "31 \<le> n" for n
  proof (cases "n = 31")
    case False
    then show ?thesis using that bit_imp_le_length [of k n] by auto
  qed (use k in simp)
  with k show ?thesis by (intro bit_word_eqI) (auto simp: bit_simps min_def not_le)
qed

lemma areas_ok_cong:
  assumes "areas t = areas v" "length (vmems (vparams t)) = length (vmems (vparams v))"
    and "\<And>j. vm_size (area t j) = vm_size (area v j)" "\<And>j. length (vm_mem (area t j)) = length (vm_mem (area v j))"
  shows "areas_ok t = areas_ok v" "in_area t j a n = in_area v j a n"
  by (simp_all only: areas_ok_def area_end_def in_area_def assms)

lemma areas_ok_write:
  assumes "areas_ok v" "k < length (areas v)" "areas t = areas v" "length m = length (vm_mem (area v k))"
    and "vmems (vparams t) = (vmems (vparams v))[k := (area v k)\<lparr>vm_mem := m\<rparr>]"
  shows "areas_ok t" "in_area t j a n = in_area v j a n"
    "area t k = (area v k)\<lparr>vm_mem := m\<rparr>" "j \<noteq> k \<Longrightarrow> area t j = area v j"
proof -
  have k: "k < length (vmems (vparams v))" by (rule areas_okD(4) [OF assms(1,2)])
  show at: "area t k = (area v k)\<lparr>vm_mem := m\<rparr>" "j \<noteq> k \<Longrightarrow> area t j = area v j" for j
    using k by (simp_all add: area_def assms(5))
  have sz: "vm_size (area t j) = vm_size (area v j)" "length (vm_mem (area t j)) = length (vm_mem (area v j))" for j
    using at assms(4) by (cases "j = k"; simp)+
  have "length (vmems (vparams t)) = length (vmems (vparams v))" by (simp add: assms(5))
  from areas_ok_cong [OF assms(3) this sz] show "areas_ok t" "in_area t j a n = in_area v j a n" using assms(1) by simp_all
qed

lemma upload_done:
  assumes "stack_ok M (vstack v)" "c < length (conns (vstack v))" "cstate (conn (vstack v) c) = CONN_OPEN"
    and "queue_list (rx_queue (conn (vstack v) c)) = []" "read_wait env = (\<lambda>n t s. s)" "0 < m"
  shows "upload_loop env m c address count' v = (True, v)"
proof -
  have "queue_inv (rx_queue (conn (vstack v) c))" using assms(1,2) acct_queue_inv(5) [of M "vstack v" c] by (simp add: stack_ok_def)
  then obtain x where "csp_queue_dequeue (rx_queue (conn (vstack v) c)) = (None, x)"
    using assms(4) by (cases "csp_queue_dequeue (rx_queue (conn (vstack v) c))") (auto elim: deq_cases)
  then have "csp_read (\<lambda>t s. s) (Some c) VMEM_SERVER_TIMEOUT (vstack v) = (None, vstack v)"
    using assms(3) by (simp add: csp_read_def Let_def)
  then show ?thesis using assms(5,6) by (cases m) auto
qed

lemma upload_writes:
  assumes "areas_ok v" "stack_ok M (vstack v)" "c < length (conns (vstack v))" "cstate (conn (vstack v) c) = CONN_OPEN"
    and "queue_list (rx_queue (conn (vstack v) c)) = map Some hs" "\<And>h. h \<in> set hs \<Longrightarrow> pdata (pkt (vstack v) h) \<noteq> []"
    and "ds = concat (map (\<lambda>h. pdata (pkt (vstack v) h)) hs)" "k < length (areas v)" "in_area v k (unat address + unat count') (length ds)"
    and "unat count' + length ds < 2 ^ 31" "unat (vd_vaddr (areas v ! k)) \<le> unat address"
    and "length hs < m" "read_wait env = (\<lambda>n t s. s)" "upload_loop env m c address count' v = (fin, t)"
  shows "fin \<and> stack_ok M (vstack t) \<and> areas t = areas v \<and> ub (vparams t) = ub (vparams v) \<and>
    vmems (vparams t) = (vmems (vparams v))
      [k := (area v k)\<lparr>vm_mem := mwrite (unat address + unat count' - unat (vd_vaddr (areas v ! k))) ds (vm_mem (area v k))\<rparr>] \<and>
    (hs \<noteq> [] \<longrightarrow> (\<forall>f. vm_driver (area v k) = VMEM_FILE f \<and> can_write (vparams v) f \<longrightarrow> files (vparams t) f = Some (vm_mem (area t k))))"
  using assms
proof (induction hs arbitrary: v count' m ds)
  case Nil
  then have "upload_loop env m c address count' v = (True, v)" by (intro upload_done) auto
  then show ?case using Nil.prems by (auto simp: mwrite_def area_def)
next
  case (Cons h hs)
  obtain n where m: "m = Suc n" "length hs < n" using Cons.prems(12) by (cases m) auto
  define off where "off = unat address + unat count' - unat (vd_vaddr (areas v ! k))"
  obtain r s where rd: "csp_read (\<lambda>t s. s) (Some c) VMEM_SERVER_TIMEOUT (vstack v) = (r, s)" by (rule prod.exhaust)
  note nx = read_next [OF Cons.prems(2-4) _ rd, of h "map Some hs"]
  have q: "queue_list (rx_queue (conn (vstack v) c)) = Some h # map Some hs" using Cons.prems(5) by simp
  define bs where "bs = pdata (pkt (vstack v) h)"
  have pk: "pkt s p = pkt (vstack v) p" if "p \<in> set (h # hs)" for p using nx(4) [OF q] that by auto
  have bs: "bs \<noteq> []" "pdata (pkt s h) = bs" using Cons.prems(6) [of h] pk [of h] by (simp_all add: bs_def)
  have ac: "acct (add_mset h M) s" using nx(2) [OF q] by (simp add: stack_ok_def)
  have lbs: "length bs = unat (plength (pkt s h))" using held_allocated(4) [OF ac, of h] arg_cong [OF bs(2), of length] by simp
  define es where "es = concat (map (\<lambda>h. pdata (pkt (vstack v) h)) hs)"
  have ds: "ds = bs @ es" using Cons.prems(7) by (simp add: bs_def es_def)
  have la: "unat (address + scast count') = unat address + unat count'"
  proof -
    have "unat address + unat count' < 2 ^ 64" using Cons.prems(9) areas_okD(3) [OF Cons.prems(1,8)] unfolding in_area_def by linarith
    then show ?thesis using unat_add_64 [of address "ucast count'"] scast_small [of count'] Cons.prems(10) unfolding unat_ucast_64 by simp
  qed
  define u where "u = vmem_memcpy_to (address + scast count') bs (v\<lparr>vstack := s\<rparr>)"
  define v' where "v' = v\<lparr>vstack := s\<rparr>"
  have v': "areas_ok v'" "area v' j = area v j" "areas v' = areas v" "in_area v' k x y = in_area v k x y" "vparams v' = vparams v" for j x y
    using Cons.prems(1) areas_ok_cong [of v' v] by (simp_all add: v'_def area_def)
  have ia: "in_area v' k (unat (address + scast count')) (length bs)"
    unfolding la v' using in_area_sub [OF Cons.prems(9), of 0 "length bs"] ds by simp
  note mt = memcpy_to_in [OF v'(1) ia bs(1), folded u_def [folded v'_def], unfolded la v' off_def [symmetric]]
  have fits: "off + length bs \<le> length (vm_mem (area v k))"
    using in_area_fits [OF v'(1) ia] unfolding la v' by (simp add: off_def)
  define w where "w = upd_vstack (csp_buffer_free (Some h)) u"
  define cnt where "cnt = count' + ucast (plength (pkt s h))"
  have run: "upload_loop env n c address cnt w = (fin, t)"
    using Cons.prems(13,14) rd nx(1) [OF q] by (simp add: m(1) Let_def bs(2) w_def u_def cnt_def)
  have us: "vstack u = s" using mt(2) by (simp add: v'_def)
  note fr = acct_free [OF ac] and mf = more_fields [OF acct_free(2) [OF ac]]
  have ws: "vstack w = csp_buffer_free (Some h) s" "vparams w = vparams u" "areas w = areas v"
    using us mt(3) by (simp_all add: w_def upd_vstack_def)
  have cn: "unat cnt = unat count' + length bs"
  proof -
    have "unat count' + unat (plength (pkt s h)) \<le> unat (2 ^ 31 :: u32)" using Cons.prems(10) ds lbs by simp
    from unat_add_length [OF this] show ?thesis by (simp add: cnt_def lbs)
  qed
  have wmem: "vmems (vparams w) = (vmems (vparams v))[k := (area v k)\<lparr>vm_mem := mwrite off bs (vm_mem (area v k))\<rparr>]" using mt(1) ws(2) by simp
  note aw = areas_ok_write [OF Cons.prems(1,8) ws(3) _ wmem]
  have lm: "length (mwrite off bs (vm_mem (area v k))) = length (vm_mem (area v k))" using fits by simp
  have wk: "area w k = (area v k)\<lparr>vm_mem := mwrite off bs (vm_mem (area v k))\<rparr>" using aw(3) lm by simp
  have esw: "es = concat (map (\<lambda>h. pdata (pkt (vstack w) h)) hs)" "\<And>x. x \<in> set hs \<Longrightarrow> pdata (pkt (vstack w) x) \<noteq> []"
    using pk Cons.prems(6) fr(3) by (auto simp: es_def ws intro!: arg_cong [of _ _ concat])
  have st: "stack_ok M (vstack w)" "c < length (conns (vstack w))" "cstate (conn (vstack w) c) = CONN_OPEN"
    "queue_list (rx_queue (conn (vstack w) c)) = map Some hs"
    using stack_ok_free(1) [OF nx(2) [OF q]] nx(3,5,6) [OF q] by (simp_all add: ws(1) mf)
  have iw: "in_area w k (unat address + unat cnt) (length es)" "unat cnt + length es < 2 ^ 31" "k < length (areas w)"
      "unat (vd_vaddr (areas w ! k)) \<le> unat address"
    using in_area_sub [OF Cons.prems(9), of "length bs" "length es"] Cons.prems(8,10,11) ds lm aw(2) by (simp_all add: cn ws(3) add.assoc)
  note ih = Cons.IH [OF aw(1) [OF lm] st esw(2,1) iw(3,1,2,4) m(2) Cons.prems(13) run, unfolded ws(3) wk cn]
  have off': "unat address + (unat count' + length bs) - unat (vd_vaddr (areas v ! k)) = off + length bs"
    using Cons.prems(11) by (simp add: off_def)
  have mm: "mwrite (off + length bs) es (mwrite off bs (vm_mem (area v k))) = mwrite off (bs @ es) (vm_mem (area v k))"
    using in_area_fits [OF Cons.prems(1,9)] ds by (intro mwrite_append(1)) (simp_all add: off_def)
  have vt: "vmems (vparams t) = (vmems (vparams v))[k := (area v k)\<lparr>vm_mem := mwrite off ds (vm_mem (area v k))\<rparr>]"
    using ih by (simp add: off' mm ds wmem)
  have kt: "area t k = (area v k)\<lparr>vm_mem := mwrite off ds (vm_mem (area v k))\<rparr>"
    using areas_okD(4) [OF Cons.prems(1,8)] by (simp add: area_def vt)
  have "files (vparams t) f = Some (vm_mem (area t k))" if f: "vm_driver (area v k) = VMEM_FILE f" "can_write (vparams v) f" for f
  proof (cases "hs = []")
    case True
    have "files (vparams w) f = Some (mwrite off bs (vm_mem (area v k)))" using mt(6) f ws(2) by simp
    moreover have "t = w" using run upload_done [OF st(1-3) _ Cons.prems(13), of n address cnt] m(2) st(4) True by simp
    ultimately show ?thesis using True kt ds by (simp add: es_def)
  next
    case False
    then show ?thesis using ih f mt(5) ws(2) by simp
  qed
  then show ?case using ih vt mt(4) ws(2) by (simp add: off_def)
qed


section \<open>Buffers\<close>

lemma mem_put_frame [simp]: "vstack (mem_put a b v) = vstack v" "areas (mem_put a b v) = areas v" "unlocked (mem_put a b v) = unlocked v"
  by (simp_all add: mem_put_def split: option.split)

lemma memcpy_to_frame: "vstack (memcpy_to a bs v) = vstack v \<and> areas (memcpy_to a bs v) = areas v \<and> unlocked (memcpy_to a bs v) = unlocked v"
  by (induction a bs v rule: memcpy_to.induct) simp_all

lemma vmem_memcpy_frame:
  "vstack (vmem_memcpy_to a bs v) = vstack v" "areas (vmem_memcpy_to a bs v) = areas v" "unlocked (vmem_memcpy_to a bs v) = unlocked v"
  "vmem_memcpy_from a n v = (xs, w) \<Longrightarrow> vstack w = vstack v \<and> areas w = areas v \<and> unlocked w = unlocked v \<and> length xs = unat n"
  using memcpy_to_frame
  by (auto simp: vmem_memcpy_to_def vmem_memcpy_from_def memcpy_from_def vmem_read_def vmem_file_read_def vmem_ram_read_def
      split: option.splits prod.splits vmem_driver.splits if_splits)

lemma crc32_loop_total:
  assumes "buffer_len \<noteq> 0" "unat buffer_len \<le> length buf"
  shows "\<exists>x b w. crc32_loop addr len buffer_len count' crc buf v = Some (x, b, w) \<and> length b = length buf \<and>
    vstack w = vstack v \<and> areas w = areas v \<and> unlocked w = unlocked v"
  using assms(2)
proof (induction "unat len - unat count'" arbitrary: count' crc buf v rule: less_induct)
  case less
  show ?case
  proof (cases "count' < len")
    case False
    then show ?thesis by (simp add: crc32_loop.simps [of addr len buffer_len count' crc buf v])
  next
    case True
    define n where "n = (if len - count' > buffer_len then buffer_len else len - count')"
    note c = chunk_size [OF True assms(1), folded n_def]
    have n: "0 < unat n" "unat n \<le> unat buffer_len" "unat count' + unat n \<le> unat len" "unat (count' + n) = unat count' + unat n"
      using c True by (auto simp: word_less_nat_alt)
    then have n0: "n \<noteq> 0" by auto
    obtain bs w where rd: "vmem_memcpy_from (addr + ucast count') n v = (bs, w)" by (rule prod.exhaust)
    note fr = vmem_memcpy_frame(4) [OF rd]
    have lb: "length (mwrite 0 bs buf) = length buf" using n(2) less.prems fr by (subst length_mwrite) simp_all
    have "unat len - unat (count' + n) < unat len - unat count'" unfolding n(4) using n(1,3) by linarith
    note ih = less.hyps [OF this, of "mwrite 0 bs buf" "csp_crc32_update crc bs" w, unfolded lb, OF less.prems]
    have "crc32_loop addr len buffer_len count' crc buf v =
        crc32_loop addr len buffer_len (count' + n) (csp_crc32_update crc bs) (mwrite 0 bs buf) w"
      using n0 unfolding crc32_loop.simps [of addr len buffer_len count' crc buf v] chunk_eq n_def [symmetric] Let_def
      by (simp only: True if_True if_False rd prod.case)
    then show ?thesis using ih fr by simp
  qed
qed

text \<open>The tasks that run during a wait keep the accounting.\<close>

definition env_ok :: "vmem_env \<Rightarrow> bool" where
  "env_ok env \<longleftrightarrow> (\<forall>k. \<forall>w \<in> set (send_wait env k). sound_task w) \<and> (\<forall>k n. sound_task (read_wait env k n))"

lemma env_okD: "env_ok env \<Longrightarrow> w \<in> set (send_wait env k) \<Longrightarrow> sound_task w" "env_ok env \<Longrightarrow> sound_task (read_wait env j n)"
  by (simp_all add: env_ok_def)

text \<open>The server holds the packet \<open>p\<close>.\<close>

definition holds :: "nat \<Rightarrow> nat multiset \<Rightarrow> nat \<Rightarrow> csp_state \<Rightarrow> bool" where
  "holds p M c s \<longleftrightarrow> stack_ok (add_mset p M) s \<and> c < length (conns s)"

lemma holds_wf: "holds p M c s \<Longrightarrow> packet_wf (pkt s p)"
  using held_allocated(4) [of "add_mset p M" s p] by (simp add: holds_def stack_ok_def)

lemma holds_put:
  assumes "holds p M c s" "off + length bs \<le> CSP_BUFFER_SIZE"
  shows "holds p M c (req_put p off bs s)" "same_size s (req_put p off bs s)"
proof -
  have "packet_wf ((pkt s p)\<lparr>pmem := mwrite (data_at off) bs (pmem (pkt s p))\<rparr>)"
    using holds_wf [OF assms(1)] assms(2) by (simp add: packet_wf_def data_at_def)
  from stack_ok_set_pkt [OF _ this, of p M] assms(1) show "holds p M c (req_put p off bs s)" "same_size s (req_put p off bs s)"
    by (simp_all add: holds_def req_put_def same_size_def)
qed

lemma holds_length:
  assumes "holds p M c s" "unat n \<le> CSP_BUFFER_SIZE"
  shows "holds p M c (req_length p n s)" "same_size s (req_length p n s)"
proof -
  have "packet_wf ((pkt s p)\<lparr>plength := n\<rparr>)" using holds_wf [OF assms(1)] assms(2) by (simp add: packet_wf_def)
  from stack_ok_set_pkt [OF _ this, of p M] assms(1) show "holds p M c (req_length p n s)" "same_size s (req_length p n s)"
    by (simp_all add: holds_def req_length_def same_size_def)
qed

lemma holds_send:
  assumes "holds p M c s" "env_ok env"
  shows "stack_ok M (csp_send (send_wait env k) (Some c) (Some p) s)" "same_size s (csp_send (send_wait env k) (Some c) (Some p) s)"
  using send_ok [of p M s c "send_wait env k", OF _ _ env_okD(1) [OF assms(2)] refl] assms(1) by (simp_all add: holds_def)

lemma holds_free:
  assumes "holds p M c s"
  shows "stack_ok M (csp_buffer_free (Some p) s)" "same_size s (csp_buffer_free (Some p) s)"
  using stack_ok_free [of p M s] assms by (simp_all add: holds_def)

lemma holds_get:
  assumes "stack_ok M s" "c < length (conns s)" "csp_buffer_get s = (r, t)"
  shows "case r of None \<Rightarrow> stack_ok M t | Some p \<Rightarrow> holds p M c t" "same_size s t"
  using stack_ok_get [OF assms(1,3)] assms(2) by (auto simp: holds_def same_size_def split: option.splits)

lemma holds_read:
  assumes "stack_ok M s" "c < length (conns s)" "env_ok env" "csp_read (read_wait env k) (Some c) timeout s = (r, t)"
  shows "case r of None \<Rightarrow> stack_ok M t | Some p \<Rightarrow> holds p M c t" "same_size s t"
  using read_ok [OF assms(1,2) env_okD(2) [OF assms(3)] assms(4)] assms(2) by (auto simp: holds_def same_size_def split: option.splits)

lemma download_ok:
  assumes "env_ok env" "stack_ok M (vstack v)" "c < length (conns (vstack v))"
  shows "stack_ok M (vstack (download_loop env c address len count' v)) \<and> same_size (vstack v) (vstack (download_loop env c address len count' v)) \<and>
    areas (download_loop env c address len count' v) = areas v \<and> unlocked (download_loop env c address len count' v) = unlocked v"
  using assms(2,3)
proof (induction "unat len - unat count'" arbitrary: count' v rule: less_induct)
  case less
  show ?case
  proof (cases "count' < len \<and> csp_conn_is_active c (vstack v)")
    case False
    then show ?thesis using less.prems by (simp add: download_loop.simps [of env c address len count' v])
  next
    case True
    define n where "n = (if VMEM_SERVER_MTU < len - count' then VMEM_SERVER_MTU else len - count')"
    have mtu: "VMEM_SERVER_MTU \<noteq> 0" by (simp add: VMEM_SERVER_MTU_def)
    note c = chunk_size [OF conjunct1 [OF True] mtu, folded n_def]
    have n: "0 < unat n" "unat n \<le> 192" "unat count' + unat n \<le> unat len" "unat (count' + n) = unat count' + unat n"
      using c True by (auto simp: word_less_nat_alt VMEM_SERVER_MTU_def)
    obtain r s where g: "csp_buffer_get (vstack v) = (r, s)" by (rule prod.exhaust)
    note hg = holds_get [OF less.prems g]
    show ?thesis
    proof (cases r)
      case None
      then show ?thesis using hg g True less.prems by (simp add: download_loop.simps [of env c address len count' v])
    next
      case (Some p)
      define v1 where "v1 = v\<lparr>vstack := req_length p (ucast n) s\<rparr>"
      obtain bs v2 where rd: "vmem_memcpy_from (address + ucast count') n v1 = (bs, v2)" by (rule prod.exhaust)
      note fr = vmem_memcpy_frame(4) [OF rd]
      define s3 where "s3 = csp_send (send_wait env count') (Some c) (Some p) (req_put p 0 bs (vstack v2))"
      define v3 where "v3 = v2\<lparr>vstack := s3\<rparr>"
      have un: "unat (ucast n :: u16) = unat n" using n(2) by (simp add: unsigned_ucast_eq take_bit_nat_eq_self)
      have h0: "holds p M c s" using hg Some by simp
      have h1: "holds p M c (vstack v1)" "same_size s (vstack v1)"
        using holds_length [OF h0, of "ucast n"] n(2) un by (simp_all add: v1_def CSP_BUFFER_SIZE_def)
      have h2: "holds p M c (req_put p 0 bs (vstack v2))" "same_size s (req_put p 0 bs (vstack v2))"
        using holds_put [OF h1(1), of 0 bs] fr n(2) same_size_trans [OF h1(2)] by (simp_all add: CSP_BUFFER_SIZE_def)
      have h3: "stack_ok M s3" "same_size (vstack v) s3"
        using holds_send [OF h2(1) assms(1), of count'] same_size_trans [OF hg(2)] same_size_trans [OF h2(2)] by (auto simp: s3_def)
      have st: "stack_ok M (vstack v3)" "c < length (conns (vstack v3))" using h3 less.prems(2) by (simp_all add: v3_def same_size_def)
      have "unat len - unat (count' + n) < unat len - unat count'" unfolding n(4) using n(1,3) by linarith
      note ih = less.hyps [OF this st]
      have "download_loop env c address len count' v = download_loop env c address len (count' + n) v3"
        using True unfolding download_loop.simps [of env c address len count' v] n_def [symmetric] Let_def g Some
        by (simp add: v1_def [symmetric] rd upd_vstack_def v3_def s3_def)
      then show ?thesis using ih fr same_size_trans [OF h3(2)] by (simp add: v3_def v1_def)
    qed
  qed
qed


lemma serve_crc32_ok:
  assumes "env_ok env" "holds p M c (vstack v)"
  shows "stack_ok M (vstack (serve_crc32 env c p v)) \<and> same_size (vstack v) (vstack (serve_crc32 env c p v)) \<and>
    areas (serve_crc32 env c p v) = areas v \<and> unlocked (serve_crc32 env c p v) = unlocked v"
proof -
  let ?buf = "req_get p 0 CSP_BUFFER_SIZE (vstack v)"
  have l: "length ?buf = CSP_BUFFER_SIZE" using holds_wf [OF assms(2)] by (simp add: req_get_def packet_wf_def data_at_def)
  have "VMEM_SERVER_MTU \<noteq> 0" "unat VMEM_SERVER_MTU \<le> length ?buf" by (simp_all add: l VMEM_SERVER_MTU_def) (simp add: CSP_BUFFER_SIZE_def)
  from crc32_loop_total [OF this, of "req_address p (vstack v)" "req_size p (vstack v)" 0 csp_crc32_init v]
  obtain x b w where crc: "vmem_calc_crc32 (req_address p (vstack v)) (req_size p (vstack v)) ?buf VMEM_SERVER_MTU v = Some (x, b, w)"
    "length b = CSP_BUFFER_SIZE" "vstack w = vstack v" "areas w = areas v" "unlocked w = unlocked v"
    unfolding l by (auto simp: vmem_calc_crc32_def)
  define s1 where "s1 = req_put p 0 b (vstack v)"
  define s2 where "s2 = req_put p 0 (be32_enc x) s1"
  define s3 where "s3 = req_length p 4 s2"
  note h1 = holds_put [OF assms(2), of 0 b, folded s1_def]
  have h: "holds p M c s1" "same_size (vstack v) s1" using h1 crc(2) by simp_all
  have h': "holds p M c s3" "same_size (vstack v) s3"
    using holds_put [OF h(1), of 0 "be32_enc x"] holds_length [of p M c s2 4] same_size_trans [OF h(2)]
    by (auto simp: s2_def s3_def CSP_BUFFER_SIZE_def intro: same_size_trans)
  have "vstack (serve_crc32 env c p v) = csp_send (send_wait env 0) (Some c) (Some p) s3"
    "areas (serve_crc32 env c p v) = areas v" "unlocked (serve_crc32 env c p v) = unlocked v"
    using crc by (simp_all add: serve_crc32_def upd_vstack_def s1_def s2_def s3_def)
  then show ?thesis using holds_send [OF h'(1) assms(1), of 0] same_size_trans [OF h'(2)] by simp
qed

lemma upload_ok:
  assumes "env_ok env" "stack_ok M (vstack v)" "c < length (conns (vstack v))"
  shows "stack_ok M (vstack (snd (upload_loop env n c address count' v))) \<and> same_size (vstack v) (vstack (snd (upload_loop env n c address count' v))) \<and>
    areas (snd (upload_loop env n c address count' v)) = areas v \<and> unlocked (snd (upload_loop env n c address count' v)) = unlocked v"
  using assms(2,3)
proof (induction n arbitrary: count' v)
  case (Suc n)
  obtain r s where rd: "csp_read (read_wait env n) (Some c) VMEM_SERVER_TIMEOUT (vstack v) = (r, s)" by (rule prod.exhaust)
  note hr = holds_read [OF Suc.prems assms(1) rd]
  show ?case
  proof (cases r)
    case None
    then show ?thesis using hr rd by simp
  next
    case (Some p)
    define w where "w = upd_vstack (csp_buffer_free (Some p)) (vmem_memcpy_to (address + scast count') (pdata (pkt s p)) (v\<lparr>vstack := s\<rparr>))"
    have ws: "vstack w = csp_buffer_free (Some p) s" "areas w = areas v" "unlocked w = unlocked v"
      by (simp_all add: w_def upd_vstack_def vmem_memcpy_frame)
    have "holds p M c s" using hr Some by simp
    note f = holds_free [OF this]
    have st: "stack_ok M (vstack w)" "same_size (vstack v) (vstack w)" using f same_size_trans [OF hr(2)] by (simp_all add: ws)
    then have "c < length (conns (vstack w))" using Suc.prems(2) by (simp add: same_size_def)
    from Suc.IH [OF st(1) this] show ?thesis using rd Some ws same_size_trans [OF st(2)] by (auto simp: Let_def w_def [symmetric])
  qed
qed simp

lemma list_loop_ok:
  assumes "holds p M c (vstack v)" "sz = list_entry_size version" "unat (plength (pkt (vstack v) p)) = i * sz" "i \<le> n" "n * sz \<le> CSP_BUFFER_SIZE"
  shows "holds p M c (vstack (list_loop version p [i..<n] v)) \<and> same_size (vstack v) (vstack (list_loop version p [i..<n] v)) \<and>
    areas (list_loop version p [i..<n] v) = areas v \<and> unlocked (list_loop version p [i..<n] v) = unlocked v \<and> vparams (list_loop version p [i..<n] v) = vparams v"
  using assms(1,3,4)
proof (induction "n - i" arbitrary: i v)
  case (Suc k)
  then have i: "i < n" by simp
  have sz: "sz = 15 \<or> sz = 19" using assms(2) by (simp add: list_entry_size_def)
  have fits: "(i + 1) * sz \<le> CSP_BUFFER_SIZE" using mult_le_mono1 [of "i + 1" n sz] i assms(5) by simp
  have le: "length (list_entry version v i) = sz" using assms(2) by (simp add: list_entry_def list_entry_size_def)
  define s1 where "s1 = req_put p (i * sz) (list_entry version v i) (vstack v)"
  define s2 where "s2 = req_length p (plength (pkt s1 p) + of_nat sz) s1"
  define w where "w = v\<lparr>vstack := s2\<rparr>"
  have h1: "holds p M c s1" "same_size (vstack v) s1" using holds_put [OF Suc.prems(1), of "i * sz"] le fits by (simp_all add: s1_def)
  have pb: "p < length (bufs (vstack v))" "p < length (bufs s1)"
    using held_allocated(2) [of "add_mset p M" _ p] Suc.prems(1) h1(1) by (auto simp: holds_def stack_ok_def)
  have p1: "unat (plength (pkt s1 p)) = i * sz" using Suc.prems(2) pb by (simp add: s1_def req_put_def)
  have un: "unat (plength (pkt s1 p) + of_nat sz) = (i + 1) * sz"
    using p1 fits sz by (subst unat_add_lem [THEN iffD1]) (auto simp: unat_of_nat CSP_BUFFER_SIZE_def)
  have h2: "holds p M c s2" "same_size (vstack v) s2"
    using holds_length [OF h1(1), of "plength (pkt s1 p) + of_nat sz"] un fits same_size_trans [OF h1(2)] by (simp_all add: s2_def)
  have p2: "unat (plength (pkt (vstack w) p)) = (i + 1) * sz" using un pb by (simp add: w_def s2_def req_length_def)
  have "list_loop version p [i..<n] v = list_loop version p [i + 1..<n] w"
    using i fits assms(2) by (simp add: upt_conv_Cons upd_vstack_def w_def s1_def s2_def)
  moreover note Suc.hyps(1) [of "i + 1" w]
  ultimately show ?case using Suc.hyps(2) h2 p2 i same_size_trans [OF h2(2)] by (auto simp: w_def)
qed (use assms in simp)


lemma serve_list_ok:
  assumes "env_ok env" "holds p M c (vstack v)" "length (areas v) * 19 \<le> CSP_BUFFER_SIZE"
  shows "stack_ok M (vstack (serve_list env c p v)) \<and> areas (serve_list env c p v) = areas v \<and>
    unlocked (serve_list env c p v) = unlocked v \<and> vparams (serve_list env c p v) = vparams v"
proof -
  define version where "version = req_byte p 0 (vstack v)"
  define u where "u = upd_vstack (req_length p 0) v"
  have pb: "p < length (bufs (vstack v))" using held_allocated(2) [of "add_mset p M" _ p] assms(2) by (auto simp: holds_def stack_ok_def)
  have u: "holds p M c (vstack u)" "unat (plength (pkt (vstack u) p)) = 0 * list_entry_size version"
    using holds_length [OF assms(2), of 0] pb by (simp_all add: u_def upd_vstack_def req_length_def)
  have us: "areas u = areas v" "unlocked u = unlocked v" "vparams u = vparams v" by (simp_all add: u_def upd_vstack_def)
  have "length (areas v) * list_entry_size version \<le> CSP_BUFFER_SIZE" using assms(3) by (simp add: list_entry_size_def)
  note l = list_loop_ok [OF u(1) refl u(2) _ this, unfolded us]
  define w where "w = (if version = 1 \<or> version = 2 then list_loop version p [0..<length (areas v)] u else v)"
  have w: "holds p M c (vstack w)" "areas w = areas v" "unlocked w = unlocked v" "vparams w = vparams v" using l assms(2) by (simp_all add: w_def)
  have "serve_list env c p v = upd_vstack (csp_send (send_wait env 0) (Some c) (Some p)) w"
    by (simp add: serve_list_def Let_def w_def u_def version_def)
  then show ?thesis using holds_send [OF w(1) assms(1), of 0] w(2-4) by (simp add: upd_vstack_def)
qed

lemma serve_backup_ok:
  assumes "env_ok env" "holds p M c (vstack v)" "unat (req_byte p 2 (vstack v)) < length (areas v)"
  shows "stack_ok M (vstack (serve_backup env c p v)) \<and> areas (serve_backup env c p v) = areas v \<and> unlocked (serve_backup env c p v) = unlocked v"
proof -
  obtain x ps where res: "(if req_byte p 1 (vstack v) = VMEM_SERVER_BACKUP
      then (if unlocked v = 1 \<and> vd_backup (areas v ! unat (req_byte p 2 (vstack v))) then backup_fn env (unat (req_byte p 2 (vstack v))) (vparams v) else (-4, vparams v))
      else (if vd_restore (areas v ! unat (req_byte p 2 (vstack v))) then restore_fn env (unat (req_byte p 2 (vstack v))) (vparams v) else (-3, vparams v))) = (x, ps)"
    by (rule prod.exhaust)
  define s1 where "s1 = req_length p 1 (req_put p 0 [of_int x] (vstack v))"
  have nf: "(b \<and> length (areas v) \<le> unat (req_byte p 2 (vstack v))) = False" for b using assms(3) by simp
  have "serve_backup env c p v = v\<lparr>vparams := ps, vstack := csp_send (send_wait env 0) (Some c) (Some p) s1\<rparr>"
    unfolding serve_backup_def Let_def vmem_index_to_ptr_def nf if_False res prod.case by (simp add: upd_vstack_def s1_def)
  moreover have "holds p M c s1"
    using holds_put(1) [OF assms(2), of 0 "[of_int x]"] by (simp add: s1_def holds_length CSP_BUFFER_SIZE_def)
  ultimately show ?thesis using holds_send(1) [OF _ assms(1)] by simp
qed

lemma serve_unlock_ok:
  assumes "env_ok env" "holds p M c (vstack v)"
  shows "stack_ok M (vstack (serve_unlock env c p v)) \<and> areas (serve_unlock env c p v) = areas v \<and> vparams (serve_unlock env c p v) = vparams v"
proof (cases "be32_dec (req_get p 2 4 (vstack v)) = UNLOCK_CODE")
  case False
  then show ?thesis using holds_free [OF assms(2)] by (simp add: serve_unlock_def upd_vstack_def)
next
  case True
  define x where "x = rand_r (vstack v) (now (vstack v))"
  define s1 where "s1 = csp_send (send_wait env 0) (Some c) (Some p) (req_put p 2 (be32_enc x) (vstack v))"
  note h = holds_put [OF assms(2), of 2 "be32_enc x"]
  have h': "holds p M c (req_put p 2 (be32_enc x) (vstack v))" "same_size (vstack v) (req_put p 2 (be32_enc x) (vstack v))"
    using h by (simp_all add: CSP_BUFFER_SIZE_def)
  have s1: "stack_ok M s1" "same_size (vstack v) s1" using holds_send [OF h'(1) assms(1), of 0] same_size_trans [OF h'(2)] by (simp_all add: s1_def)
  have c: "c < length (conns s1)" using s1(2) assms(2) by (simp add: holds_def same_size_def)
  obtain r s where rd: "csp_read (read_wait env 0) (Some c) 30000 s1 = (r, s)" by (rule prod.exhaust)
  note hr = holds_read [OF s1(1) c assms(1) rd]
  note def = serve_unlock_def [of env c p v, unfolded x_def [symmetric] Let_def]
  show ?thesis
  proof (cases r)
    case None
    then show ?thesis using hr rd True by (simp add: def upd_vstack_def s1_def [symmetric])
  next
    case (Some q)
    have hq: "holds q M c s" using hr Some by simp
    have "stack_ok M (csp_send (send_wait env 1) (Some c) (Some q) (req_put q 2 (be32_enc y) s))" for y
      using holds_put(1) [OF hq, of 2 "be32_enc y"] by (intro holds_send(1) [OF _ assms(1)]) (simp add: CSP_BUFFER_SIZE_def)
    then show ?thesis using Some rd True by (simp add: def upd_vstack_def s1_def [symmetric])
  qed
qed

section \<open>Properties\<close>

text \<open>C33: the memory server and the buffers. Whatever the first packet of a connection asks for, and whatever arrives afterwards, the handler releases or sends every buffer
  it takes exactly once and does nothing undefined in the stack, in every branch: it returns from reading and checksumming for every length, also of 4 GiB.
  The areas have to fit into one packet when they are listed, and the number of an area to back up or restore, which the code does not check, has to exist.\<close>

theorem vmem_server_handler_conserves:
  assumes "env_ok env" "stack_ok M (vstack v)" "c < length (conns (vstack v))" "length (areas v) * 19 \<le> CSP_BUFFER_SIZE"
    and "csp_read (read_wait env (uploads env)) (Some c) VMEM_SERVER_TIMEOUT (vstack v) = (r, s)"
    and "\<And>p. r = Some p \<Longrightarrow> req_byte p 1 s = VMEM_SERVER_RESTORE \<or> req_byte p 1 s = VMEM_SERVER_BACKUP \<Longrightarrow> unat (req_byte p 2 s) < length (areas v)"
  shows "stack_ok M (vstack (vmem_server_handler env c v)) \<and> areas (vmem_server_handler env c v) = areas v"
proof -
  note hr = holds_read [OF assms(2,3,1,5)]
  show ?thesis
  proof (cases r)
    case None
    then show ?thesis using hr assms(5) by (simp add: vmem_server_handler_def)
  next
    case (Some p)
    define u where "u = v\<lparr>vstack := s\<rparr>"
    have h: "holds p M c (vstack u)" using hr Some by (simp add: u_def)
    have us: "areas u = areas v" "vstack u = s" by (simp_all add: u_def)
    note f = holds_free [OF h]
    define w where "w = upd_vstack (csp_buffer_free (Some p)) u"
    have w: "stack_ok M (vstack w)" "c < length (conns (vstack w))" "areas w = areas v"
      using f h by (auto simp: w_def upd_vstack_def us holds_def same_size_def)
    have dl: "serve_download env c p u = download_loop env c (req_address p s) (req_size p s) 0 w"
      by (simp add: serve_download_def w_def us Let_def)
    have ul: "serve_upload env c p u = snd (upload_loop env (uploads env) c (req_address p s) 0 w)"
      by (simp add: serve_upload_def w_def us Let_def)
    have bk: "unat (req_byte p 2 (vstack u)) < length (areas u)" if "req_byte p 1 s = VMEM_SERVER_RESTORE \<or> req_byte p 1 s = VMEM_SERVER_BACKUP"
      using assms(6) [OF Some that] by (simp add: us)
    have "vmem_server_handler env c v = (let type = req_byte p 1 s in
        if type = VMEM_SERVER_DOWNLOAD then serve_download env c p u
        else if type = VMEM_SERVER_CALCULATE_CRC32 then serve_crc32 env c p u
        else if type = VMEM_SERVER_UPLOAD then serve_upload env c p u
        else if type = VMEM_SERVER_LIST then serve_list env c p u
        else if type = VMEM_SERVER_RESTORE \<or> type = VMEM_SERVER_BACKUP then serve_backup env c p u
        else if type = VMEM_SERVER_UNLOCK then serve_unlock env c p u else w)"
      using assms(5) Some by (simp add: vmem_server_handler_def u_def w_def Let_def)
    then show ?thesis
      using download_ok [OF assms(1) w(1,2)] upload_ok [OF assms(1) w(1,2)] serve_crc32_ok [OF assms(1) h] serve_list_ok [OF assms(1) h]
        serve_backup_ok [OF assms(1) h] serve_unlock_ok [OF assms(1) h] w assms(4) bk
      unfolding dl ul us Let_def by (auto simp: us)
  qed
qed


text \<open>C34: the checksum of a range of an area is the CRC-32C of its bytes, computed in pieces of any size in a buffer of any size but zero; the
  loop ends and memory stays as it was.\<close>

theorem vmem_calc_crc32_is_crc32c:
  assumes "areas_ok v" "in_area v k (unat addr) (unat len)" "buffer_len \<noteq> 0" "unat buffer_len \<le> length buf"
  shows "\<exists>b. vmem_calc_crc32 addr len buf buffer_len v =
    Some (csp_crc32_memory (mread (unat addr - unat (vd_vaddr (areas v ! k))) (unat len) (vm_mem (area v k))), b, v)"
  using crc32_loop_in [OF assms, of 0 csp_crc32_init] by (auto simp: vmem_calc_crc32_def csp_crc32_memory_def)

text \<open>C31: an upload. The packets that follow an upload request, of any number and size, are written one behind the other to the address of the request, if they
  stay inside of an area: the area holds their data and is otherwise unchanged, the other areas and the accounting of buffers too, and the file behind the area, if there is one that can be
  written, has the contents of the area. What the server reads from that address afterwards, as it does for a download, is the data.\<close>

theorem vmem_upload_effect:
  assumes "areas_ok v" "stack_ok M (vstack v)" "c < length (conns (vstack v))" "cstate (conn (vstack v) c) = CONN_OPEN"
    and "queue_list (rx_queue (conn (vstack v) c)) = map Some (p # hs)" "req_byte p 1 (vstack v) = VMEM_SERVER_UPLOAD"
    and "\<And>h. h \<in> set hs \<Longrightarrow> pdata (pkt (vstack v) h) \<noteq> []" "hs \<noteq> []"
    and "ds = concat (map (\<lambda>h. pdata (pkt (vstack v) h)) hs)" "address = req_address p (vstack v)"
    and "in_area v k (unat address) (length ds)" "length ds < 2 ^ 31" "length hs < uploads env" "read_wait env = (\<lambda>n t s. s)"
    and "t = vmem_server_handler env c v"
  shows "stack_ok M (vstack t) \<and> areas t = areas v \<and> ub (vparams t) = ub (vparams v) \<and> (\<forall>j. j \<noteq> k \<longrightarrow> area t j = area v j) \<and>
    vm_mem (area t k) = mwrite (unat address - unat (vd_vaddr (areas v ! k))) ds (vm_mem (area v k)) \<and>
    (\<forall>f. vm_driver (area v k) = VMEM_FILE f \<and> can_write (vparams v) f \<longrightarrow> files (vparams t) f = Some (vm_mem (area t k))) \<and>
    vmem_memcpy_from address (of_nat (length ds)) t = (ds, t)"
proof -
  obtain r s where rd: "csp_read (\<lambda>t s. s) (Some c) VMEM_SERVER_TIMEOUT (vstack v) = (r, s)" by (rule prod.exhaust)
  have q: "queue_list (rx_queue (conn (vstack v) c)) = Some p # map Some hs" using assms(5) by simp
  note nx = read_next [OF assms(2-4) q rd]
  have pk: "pkt s h = pkt (vstack v) h" if "h \<in> set (p # hs)" for h using nx(4) that by auto
  have req: "req_byte p 1 s = VMEM_SERVER_UPLOAD" "req_address p s = address"
    using assms(6,10) pk [of p] by (simp_all add: req_byte_def req_get_def req_address_def)
  define w where "w = v\<lparr>vstack := csp_buffer_free (Some p) s\<rparr>"
  have ac: "acct (add_mset p M) s" using nx(2) by (simp add: stack_ok_def)
  note fr = acct_free [OF ac] and mf = more_fields [OF acct_free(2) [OF ac]]
  obtain fin t' where ul: "upload_loop env (uploads env) c address 0 w = (fin, t')" by (rule prod.exhaust)
  have t: "t = t'" using assms(14,15) rd nx(1) req ul
    by (simp add: vmem_server_handler_def Let_def serve_upload_def upd_vstack_def w_def vmem_type_defs)
  have ok: "areas_ok w" "in_area w k x y = in_area v k x y" "area w j = area v j" "areas w = areas v" "vparams w = vparams v" for x y j
    using assms(1) areas_ok_cong [of w v] by (simp_all add: w_def area_def)
  have k: "k < length (areas v)" "unat (vd_vaddr (areas v ! k)) \<le> unat address" using assms(11) by (simp_all add: in_area_def)
  have ws: "stack_ok M (vstack w)" "c < length (conns (vstack w))" "cstate (conn (vstack w) c) = CONN_OPEN"
    "queue_list (rx_queue (conn (vstack w) c)) = map Some hs"
    using stack_ok_free(1) [OF nx(2)] nx(3,5,6) by (simp_all add: w_def mf)
  have pw: "pkt (vstack w) h = pkt (vstack v) h" if "h \<in> set hs" for h using that fr(3) pk by (simp add: w_def)
  have ds: "ds = concat (map (\<lambda>h. pdata (pkt (vstack w) h)) hs)" unfolding assms(9) using pw by (intro arg_cong [of _ _ concat]) simp
  have ne: "pdata (pkt (vstack w) h) \<noteq> []" if "h \<in> set hs" for h using assms(7) [OF that] pw [OF that] by simp
  have ia: "in_area w k (unat address + unat (0 :: u32)) (length ds)" "unat (0 :: u32) + length ds < 2 ^ 31" "k < length (areas w)"
    "unat (vd_vaddr (areas w ! k)) \<le> unat address" using assms(11,12) k ok by simp_all
  note up = upload_writes [OF ok(1) ws ne ds ia(3,1,2,4) assms(13,14) ul, unfolded ok t [symmetric]]
  define m where "m = mwrite (unat address - unat (vd_vaddr (areas v ! k))) ds (vm_mem (area v k))"
  have fits: "unat address - unat (vd_vaddr (areas v ! k)) + length ds \<le> length (vm_mem (area v k))" by (rule in_area_fits [OF assms(1,11)])
  have vt: "vmems (vparams t) = (vmems (vparams v))[k := (area v k)\<lparr>vm_mem := m\<rparr>]" "areas t = areas v" using up by (simp_all add: m_def)
  have lm: "length m = length (vm_mem (area v k))" using fits by (simp add: m_def)
  note aw = areas_ok_write [OF assms(1) k(1) vt(2) lm vt(1)]
  have n: "unat (of_nat (length ds) :: u32) = length ds" using assms(12) by (simp add: unat_of_nat)
  have "ds \<noteq> []" using assms(7,8) unfolding assms(9) by (cases hs) auto
  then have "vmem_memcpy_from address (of_nat (length ds)) t = (ds, t)"
    using memcpy_from_in [OF aw(1), of k address "of_nat (length ds)", unfolded n aw(2) aw(3) vt(2)] assms(11) fits
    by (simp add: m_def mread_mwrite_same)
  then show ?thesis using up aw(3,4) assms(8) by (simp add: m_def)
qed


section \<open>Locked areas\<close>

lemma download_backup: "download_loop (env\<lparr>backup_fn := f\<rparr>) c address len count' v = download_loop env c address len count' v"
proof (induction "unat len - unat count'" arbitrary: count' v rule: less_induct)
  case less
  show ?case
  proof (cases "count' < len")
    case True
    define n where "n = (if VMEM_SERVER_MTU < len - count' then VMEM_SERVER_MTU else len - count')"
    have mtu: "VMEM_SERVER_MTU \<noteq> 0" by (simp add: VMEM_SERVER_MTU_def)
    note c = chunk_size [OF True mtu, folded n_def]
    have "unat len - unat (count' + n) < unat len - unat count'" using c True by (auto simp: word_less_nat_alt)
    note ih = less.hyps [OF this]
    show ?thesis
      unfolding download_loop.simps [of "env\<lparr>backup_fn := f\<rparr>" c address len count' v] download_loop.simps [of env c address len count' v]
        n_def [symmetric] Let_def by (simp add: ih split: option.split prod.split)
  qed (simp add: download_loop.simps [of _ c address len count' v])
qed

lemma download_unlocked: "unlocked (download_loop env c address len count' v) = unlocked v"
proof (induction "unat len - unat count'" arbitrary: count' v rule: less_induct)
  case less
  show ?case
  proof (cases "count' < len")
    case True
    define n where "n = (if VMEM_SERVER_MTU < len - count' then VMEM_SERVER_MTU else len - count')"
    have mtu: "VMEM_SERVER_MTU \<noteq> 0" by (simp add: VMEM_SERVER_MTU_def)
    note c = chunk_size [OF True mtu, folded n_def]
    have "unat len - unat (count' + n) < unat len - unat count'" using c True by (auto simp: word_less_nat_alt)
    note ih = less.hyps [OF this]
    show ?thesis
      unfolding download_loop.simps [of env c address len count' v] n_def [symmetric] Let_def
      by (auto simp: ih upd_vstack_def split: option.split prod.split dest!: vmem_memcpy_frame(4))
  qed (simp add: download_loop.simps [of env c address len count' v])
qed

lemma upload_backup: "upload_loop (env\<lparr>backup_fn := f\<rparr>) n c address count' v = upload_loop env n c address count' v"
  by (induction n arbitrary: count' v) (simp_all add: Let_def split: prod.split option.split)

lemma upload_unlocked: "unlocked (snd (upload_loop env n c address count' v)) = unlocked v"
  by (induction n arbitrary: count' v) (simp_all add: Let_def upd_vstack_def vmem_memcpy_frame split: prod.split option.split)

lemma list_unlocked: "unlocked (list_loop version p is v) = unlocked v"
  by (induction version p "is" v rule: list_loop.induct) (simp_all add: Let_def upd_vstack_def)

lemma crc32_unlocked: "unlocked (serve_crc32 env c p v) = unlocked v"
proof -
  have "unlocked w = unlocked v" if "crc32_loop addr len bl count' crc buf v = Some (x, b, w)" for addr len bl count' crc buf x b w
    using that
  proof (induction addr len bl count' crc buf v rule: crc32_loop.induct)
    case (1 addr len bl count' crc buf v)
    obtain bs u where rd: "vmem_memcpy_from (addr + ucast count') (if bl > len - count' then len - count' else bl) v = (bs, u)" by (rule prod.exhaust)
    show ?case
    proof (cases "count' < len")
      case True
      then have "(if bl > len - count' then len - count' else bl) \<noteq> 0" "crc32_loop addr len bl (count' + (if bl > len - count' then len - count' else bl))
          (csp_crc32_update crc bs) (mwrite 0 bs buf) u = Some (x, b, w)"
        using "1.prems" rd unfolding crc32_loop.simps [of addr len bl count' crc buf v] Let_def by (auto split: if_splits)
      from "1.IH" [OF True refl this(1) rd [symmetric] this(2)] show ?thesis using vmem_memcpy_frame(4) [OF rd] by simp
    next
      case False
      then show ?thesis using "1.prems" by (simp add: crc32_loop.simps [of addr len bl count' crc buf v])
    qed
  qed
  then show ?thesis by (auto simp: serve_crc32_def vmem_calc_crc32_def upd_vstack_def Let_def split: option.split)
qed

text \<open>C32: the lock of the backups. As long as the server is not unlocked, what the backup functions of the areas do has no influence on it: none is called. And the
  server is unlocked after a request only if it was before, or the request had the unlock code and the next packet of the connection returned the sequence generated for it.\<close>

theorem vmem_backup_locked:
  shows "(unlocked v \<noteq> 1 \<longrightarrow> vmem_server_handler (env\<lparr>backup_fn := f\<rparr>) c v = vmem_server_handler env c v) \<and>
    (unlocked (vmem_server_handler env c v) = 1 \<longrightarrow> unlocked v = 1 \<or>
      (\<exists>p s q s' x. csp_read (read_wait env (uploads env)) (Some c) VMEM_SERVER_TIMEOUT (vstack v) = (Some p, s) \<and>
        req_byte p 1 s = VMEM_SERVER_UNLOCK \<and> be32_dec (req_get p 2 4 s) = UNLOCK_CODE \<and> x = rand_r s (now s) \<and>
        csp_read (read_wait env 0) (Some c) 30000 (csp_send (send_wait env 0) (Some c) (Some p) (req_put p 2 (be32_enc x) s)) = (Some q, s') \<and>
        be32_dec (req_get q 2 4 s') = x))"
proof -
  obtain r s where rd: "csp_read (read_wait env (uploads env)) (Some c) VMEM_SERVER_TIMEOUT (vstack v) = (r, s)" by (rule prod.exhaust)
  show ?thesis
  proof (cases r)
    case None
    then show ?thesis using rd by (simp add: vmem_server_handler_def)
  next
    case (Some p)
    define u where "u = v\<lparr>vstack := s\<rparr>"
    have us: "unlocked u = unlocked v" "vstack u = s" by (simp_all add: u_def)
    have h: "vmem_server_handler e c v = (let type = req_byte p 1 s in
        if type = VMEM_SERVER_DOWNLOAD then serve_download e c p u
        else if type = VMEM_SERVER_CALCULATE_CRC32 then serve_crc32 e c p u
        else if type = VMEM_SERVER_UPLOAD then serve_upload e c p u
        else if type = VMEM_SERVER_LIST then serve_list e c p u
        else if type = VMEM_SERVER_RESTORE \<or> type = VMEM_SERVER_BACKUP then serve_backup e c p u
        else if type = VMEM_SERVER_UNLOCK then serve_unlock e c p u else upd_vstack (csp_buffer_free (Some p)) u)"
      if "read_wait e = read_wait env" "uploads e = uploads env" for e
      using rd Some that by (simp add: vmem_server_handler_def u_def Let_def)
    have e: "send_wait (env\<lparr>backup_fn := f\<rparr>) = send_wait env" "read_wait (env\<lparr>backup_fn := f\<rparr>) = read_wait env"
      "uploads (env\<lparr>backup_fn := f\<rparr>) = uploads env" "restore_fn (env\<lparr>backup_fn := f\<rparr>) = restore_fn env" by simp_all
    have same: "serve_download (env\<lparr>backup_fn := f\<rparr>) c p u = serve_download env c p u" "serve_crc32 (env\<lparr>backup_fn := f\<rparr>) c p u = serve_crc32 env c p u"
      "serve_upload (env\<lparr>backup_fn := f\<rparr>) c p u = serve_upload env c p u" "serve_list (env\<lparr>backup_fn := f\<rparr>) c p u = serve_list env c p u"
      "serve_unlock (env\<lparr>backup_fn := f\<rparr>) c p u = serve_unlock env c p u"
      unfolding serve_download_def serve_crc32_def serve_upload_def serve_list_def serve_unlock_def download_backup upload_backup e by (rule refl)+
    have bk: "serve_backup (env\<lparr>backup_fn := f\<rparr>) c p u = serve_backup env c p u" if "unlocked v \<noteq> 1"
      using that us(1) unfolding serve_backup_def e Let_def
      by (cases "req_byte p 1 (vstack u) = VMEM_SERVER_BACKUP") (simp_all add: upd_vstack_def)
    have one: "unlocked v \<noteq> 1 \<Longrightarrow> vmem_server_handler (env\<lparr>backup_fn := f\<rparr>) c v = vmem_server_handler env c v"
      using h [of env] h [of "env\<lparr>backup_fn := f\<rparr>"] same bk by (simp add: Let_def)
    have keep: "unlocked (serve_download env c p u) = unlocked v" "unlocked (serve_crc32 env c p u) = unlocked v"
      "unlocked (serve_upload env c p u) = unlocked v" "unlocked (serve_list env c p u) = unlocked v" "unlocked (serve_backup env c p u) = unlocked v"
      by (simp_all add: serve_download_def serve_upload_def serve_list_def serve_backup_def download_unlocked upload_unlocked list_unlocked crc32_unlocked us Let_def upd_vstack_def
          split: prod.split)
    have un: "unlocked (serve_unlock env c p u) = 1 \<Longrightarrow> unlocked v = 1 \<or> (\<exists>q s' x. be32_dec (req_get p 2 4 s) = UNLOCK_CODE \<and> x = rand_r s (now s) \<and>
        csp_read (read_wait env 0) (Some c) 30000 (csp_send (send_wait env 0) (Some c) (Some p) (req_put p 2 (be32_enc x) s)) = (Some q, s') \<and>
        be32_dec (req_get q 2 4 s') = x)"
      by (auto simp: serve_unlock_def us Let_def upd_vstack_def split: if_splits prod.splits option.splits)
    show ?thesis
    proof (intro conjI impI one)
      assume "unlocked (vmem_server_handler env c v) = 1"
      then have "unlocked v = 1 \<or> req_byte p 1 s = VMEM_SERVER_UNLOCK \<and> unlocked (serve_unlock env c p u) = 1"
        using h [of env] keep us by (auto simp: Let_def upd_vstack_def split: if_splits)
      then show "unlocked v = 1 \<or>
      (\<exists>p s q s' x. csp_read (read_wait env (uploads env)) (Some c) VMEM_SERVER_TIMEOUT (vstack v) = (Some p, s) \<and>
        req_byte p 1 s = VMEM_SERVER_UNLOCK \<and> be32_dec (req_get p 2 4 s) = UNLOCK_CODE \<and> x = rand_r s (now s) \<and>
        csp_read (read_wait env 0) (Some c) 30000 (csp_send (send_wait env 0) (Some c) (Some p) (req_put p 2 (be32_enc x) s)) = (Some q, s') \<and>
        be32_dec (req_get q 2 4 s') = x)"
        using un rd Some by blast
    qed
  qed
qed


section \<open>Addresses that wrap\<close>

text \<open>The end of a range at the end of the address space wraps around and lies below the end of every area, so the first area takes the access; the offset in the area
  is then outside of its array.\<close>

lemma vmem_hit_wraps:
  assumes "vd_vaddr (areas v ! k) \<le> 0xFFFFFFFFFFFFFFF0" "176 \<le> vd_vaddr (areas v ! k) + of_nat (vm_size (area v k))"
  shows "vmem_hit v 0xFFFFFFFFFFFFFFF0 192 k"
proof -
  have "(0xFFFFFFFFFFFFFFF0 + ucast (192 :: u32) :: u64) = 176" by code_simp
  then show ?thesis using assms by (simp only: vmem_hit_def simp_thms)
qed

section \<open>Examples\<close>

lemma fill_enqueue:
  assumes "stack_ok (add_mset h M) s" "conns s = [conn s 0]" "packet_wf x" "0 < csp_queue_free (rx_queue (conn s 0))"
  defines "t \<equiv> snd (csp_conn_enqueue_packet 0 (Some h) (set_pkt h x s))"
  shows "stack_ok M t" "conns t = [conn t 0]" "cstate (conn t 0) = cstate (conn s 0)"
    "queue_list (rx_queue (conn t 0)) = queue_list (rx_queue (conn s 0)) @ [Some h]" "pkt t h = x" "k \<noteq> h \<Longrightarrow> pkt t k = pkt s k"
    "Suc (csp_queue_free (rx_queue (conn t 0))) = csp_queue_free (rx_queue (conn s 0))"
proof -
  define u where "u = set_pkt h x s"
  have u: "stack_ok (add_mset h M) u" using stack_ok_set_pkt(1) [OF assms(1,3)] by (simp add: u_def)
  have us: "conns u = conns s" "conn u 0 = conn s 0" by (simp_all add: u_def set_pkt_def conn_def)
  have hb: "h < length (bufs s)" using held_allocated(2) [of "add_mset h M" s h] assms(1) by (simp add: stack_ok_def)
  obtain e where en: "csp_conn_enqueue_packet 0 (Some h) u = (e, t)" by (cases "csp_conn_enqueue_packet 0 (Some h) u") (simp add: t_def u_def)
  have c: "0 < length (conns u)" using assms(2) us by (metis length_greater_0_conv list.distinct(1))
  obtain q where t: "acct M t" "t = upd_conn 0 (\<lambda>k. k\<lparr>rx_queue := q\<rparr>) u" "queue_list q = queue_list (rx_queue (conn s 0)) @ [Some h]"
    "Suc (csp_queue_free q) = csp_queue_free (rx_queue (conn s 0))"
    using conn_enqueue_spec [where x = "Some h" and M = M and s = u and c = 0 and e = e and t = t] u c en us assms(4) by (auto simp: stack_ok_def)
  have ct: "conn t 0 = (conn s 0)\<lparr>rx_queue := q\<rparr>" using c us by (simp add: t(2) conn_def upd_conn_def)
  show "stack_ok M t" using t(1,2) u by (simp add: stack_ok_def)
  have "length (conns s) = 1" using assms(2) by (metis One_nat_def length_Cons list.size(3))
  then have "length (conns t) = 1" using us by (simp add: t(2) upd_conn_def)
  then show "conns t = [conn t 0]" by (cases "conns t") (auto simp: conn_def)
  show "cstate (conn t 0) = cstate (conn s 0)" "queue_list (rx_queue (conn t 0)) = queue_list (rx_queue (conn s 0)) @ [Some h]"
    "Suc (csp_queue_free (rx_queue (conn t 0))) = csp_queue_free (rx_queue (conn s 0))"
    using ct t(3,4) by simp_all
  show "pkt t h = x" "k \<noteq> h \<Longrightarrow> pkt t k = pkt s k" using hb by (simp_all add: t(2) u_def)
qed

definition packet_ex :: "byte list \<Rightarrow> csp_packet" where
  "packet_ex bs = packet0\<lparr>plength := of_nat (length bs), pmem := mwrite (data_at 0) bs (pmem packet0)\<rparr>"

definition upload_ex :: "byte list" where
  "upload_ex = [2, 0, 0, 0, 0, 0, 0, 0, 0x10, 4, 0, 0, 0, 3]"

definition vstack_ex :: csp_state where
  "vstack_ex =
     (let s = snd (csp_buffer_get rdp_node_ex);
          s = snd (csp_conn_enqueue_packet 0 (Some 0) (set_pkt 0 (packet_ex upload_ex) s))
      in snd (csp_conn_enqueue_packet 0 (Some 1) (set_pkt 1 (packet_ex [7, 8, 9]) s)))"

lemma packet_ex_wf: "length bs \<le> CSP_BUFFER_SIZE \<Longrightarrow> packet_wf (packet_ex bs)" "length bs \<le> CSP_BUFFER_SIZE \<Longrightarrow> pdata (packet_ex bs) = bs"
  "length bs \<le> CSP_BUFFER_SIZE \<Longrightarrow> i + n \<le> length bs \<Longrightarrow> mread (data_at i) n (pmem (packet_ex bs)) = take n (drop i bs)"
proof -
  assume l: "length bs \<le> CSP_BUFFER_SIZE"
  have m: "length (pmem packet0) = CSP_PACKET_PADDING_BYTES + CSP_BUFFER_SIZE" using packet_wf_packet0 by (simp add: packet_wf_def)
  have u: "unat (of_nat (length bs) :: u16) = length bs" using l by (simp add: unat_of_nat CSP_BUFFER_SIZE_def)
  show "packet_wf (packet_ex bs)" using l m u by (simp add: packet_ex_def packet_wf_def data_at_def)
  show "pdata (packet_ex bs) = bs" using l m u by (simp add: packet_ex_def pdata_def data_at_def mread_mwrite_same)
  assume "i + n \<le> length bs"
  then show "mread (data_at i) n (pmem (packet_ex bs)) = take n (drop i bs)"
    using l m by (simp add: packet_ex_def mread_def mwrite_def data_at_def)
qed

lemma vstack_ex_facts:
  "stack_ok {#} vstack_ex" "conns vstack_ex = [conn vstack_ex 0]" "cstate (conn vstack_ex 0) = CONN_OPEN"
  "queue_list (rx_queue (conn vstack_ex 0)) = map Some [0, 1]" "pkt vstack_ex 0 = packet_ex upload_ex" "pkt vstack_ex 1 = packet_ex [7, 8, 9]"
proof -
  obtain r s where g: "csp_buffer_get rdp_node_ex = (r, s)" by (rule prod.exhaust)
  have "fst (csp_buffer_get rdp_node_ex) = Some 1"
    by (simp add: csp_buffer_get_def rdp_node_ex_def node_ex_def csp_queue_dequeue_def pthread_queue_dequeue_def CSP_QUEUE_OK_def Let_def)
  then have r: "r = Some 1" using g by simp
  have s: "stack_ok {#1, 0#} s" using stack_ok_get(1) [of "{#0#}" rdp_node_ex r s] g r rdp_node_ex_acct by (simp add: stack_ok_def)
  have "conns s = conns rdp_node_ex"
    using g by (auto simp: csp_buffer_get_def Let_def set_pkt_def set_refcount_def set_errno_def split: prod.splits option.splits if_splits)
  then have c: "conns s = [conn_ex]" "conn s 0 = conn_ex" by (simp_all add: rdp_node_ex_def conn_def)
  have cq: "csp_queue_free (rx_queue conn_ex) = 4" "queue_list (rx_queue conn_ex) = []" "cstate conn_ex = CONN_OPEN"
    by (simp_all add: conn_ex_def csp_queue_free_def pthread_queue_free_def queue_list_def)
  define s1 where "s1 = snd (csp_conn_enqueue_packet 0 (Some 0) (set_pkt 0 (packet_ex upload_ex) s))"
  have w: "packet_wf (packet_ex upload_ex)" "packet_wf (packet_ex [7, 8, 9])" by (rule packet_ex_wf; simp add: upload_ex_def CSP_BUFFER_SIZE_def)+
  have "stack_ok (add_mset 0 {#1#}) s" using s by (simp add: add_mset_commute)
  note e1 = fill_enqueue [OF this _ w(1), folded s1_def, unfolded c cq, OF refl zero_less_numeral]
  have q1: "0 < csp_queue_free (rx_queue (conn s1 0))" using e1(7) by simp
  have vs: "vstack_ex = snd (csp_conn_enqueue_packet 0 (Some 1) (set_pkt 1 (packet_ex [7, 8, 9]) s1))" by (simp add: vstack_ex_def g s1_def)
  note e2 = fill_enqueue [OF e1(1,2) w(2) q1, folded vs]
  show "stack_ok {#} vstack_ex" "conns vstack_ex = [conn vstack_ex 0]" "pkt vstack_ex 1 = packet_ex [7, 8, 9]" by (rule e2)+
  show "cstate (conn vstack_ex 0) = CONN_OPEN" "queue_list (rx_queue (conn vstack_ex 0)) = map Some [0, 1]" "pkt vstack_ex 0 = packet_ex upload_ex"
    using e1 e2(3,4,6) by simp_all
qed

definition vserver_ex :: vserver where
  "vserver_ex = \<lparr>vstack = vstack_ex,
     vparams = \<lparr>vars = [], vmems = [\<lparr>vm_driver = VMEM_FILE ''f'', vm_size = 16, vm_big_endian = False, vm_ack_with_pull = True, vm_mem = replicate 16 0\<rparr>],
       files = (\<lambda>f. None), can_write = (\<lambda>f. True), ub = False, statics = [], heap = [], slist = []\<rparr>,
     areas = [\<lparr>vd_vaddr = 0x1000, vd_name = [99], vd_backup = False, vd_restore = False\<rparr>], vhost = (\<lambda>a. 0), unlocked = 0\<rparr>"

definition vmem_env_ex :: vmem_env where
  "vmem_env_ex = \<lparr>send_wait = (\<lambda>k. []), read_wait = (\<lambda>n t s. s), backup_fn = (\<lambda>k s. (0, s)), restore_fn = (\<lambda>k s. (0, s)), uploads = 5\<rparr>"

lemma vserver_ex_facts: "vstack vserver_ex = vstack_ex" "areas_ok vserver_ex" "env_ok vmem_env_ex" "in_area vserver_ex 0 0x1004 3"
  "length (areas vserver_ex) = 1" "vd_vaddr (areas vserver_ex ! 0) = 0x1000" "vm_mem (area vserver_ex 0) = replicate 16 0"
  by (simp_all add: vserver_ex_def areas_ok_def area_def area_end_def in_area_def vmem_env_ex_def env_ok_def sound_task_def same_size_def)

lemma upload_ex_request:
  "req_byte 0 1 vstack_ex = VMEM_SERVER_UPLOAD" "req_address 0 vstack_ex = 0x1004"
proof -
  have g: "req_get 0 i n vstack_ex = take n (drop i upload_ex)" if "i + n \<le> 14" for i n
    using that packet_ex_wf(3) [of upload_ex i n] vstack_ex_facts(5) by (simp add: req_get_def upload_ex_def CSP_BUFFER_SIZE_def)
  show "req_byte 0 1 vstack_ex = VMEM_SERVER_UPLOAD" "req_address 0 vstack_ex = 0x1004"
    using g [of 1 1] g [of 0 1] g [of 2 8] by (simp_all add: req_byte_def req_address_def upload_ex_def VMEM_SERVER_UPLOAD_def be64_dec_def)
qed

lemma vstack_ex_read: "csp_read (\<lambda>t s. s) (Some 0) VMEM_SERVER_TIMEOUT vstack_ex = (r, s) \<Longrightarrow> r = Some 0 \<and> req_byte 0 1 s = VMEM_SERVER_UPLOAD"
proof -
  assume rd: "csp_read (\<lambda>t s. s) (Some 0) VMEM_SERVER_TIMEOUT vstack_ex = (r, s)"
  have c: "0 < length (conns vstack_ex)" unfolding vstack_ex_facts(2) by simp
  have q: "queue_list (rx_queue (conn vstack_ex 0)) = Some 0 # map Some [1]" using vstack_ex_facts(4) by simp
  note nx = read_next [OF vstack_ex_facts(1) c vstack_ex_facts(3) q rd]
  have "pkt s 0 = pkt vstack_ex 0" using nx(4) [of 0] by simp
  then show ?thesis using nx(1) upload_ex_request(1) by (simp add: req_byte_def req_get_def)
qed

theorem vmem_server_handler_conserves_witness: "stack_ok {#} (vstack (vmem_server_handler vmem_env_ex 0 vserver_ex))"
proof -
  obtain r s where rd: "csp_read (\<lambda>t s. s) (Some 0) VMEM_SERVER_TIMEOUT vstack_ex = (r, s)" by (rule prod.exhaust)
  have "0 < length (conns vstack_ex)" unfolding vstack_ex_facts(2) by simp
  then show ?thesis
    using vmem_server_handler_conserves [OF vserver_ex_facts(3), of "{#}" vserver_ex 0 r s] vstack_ex_facts(1) rd vstack_ex_read [OF rd]
    by (simp add: vserver_ex_facts vmem_env_ex_def CSP_BUFFER_SIZE_def vmem_type_defs)
qed

theorem vmem_calc_crc32_is_crc32c_witness:
  "\<exists>b. vmem_calc_crc32 0x1004 3 (replicate 192 0) 192 vserver_ex = Some (csp_crc32_memory [0, 0, 0], b, vserver_ex)"
proof -
  have "mread 4 3 (replicate 16 (0::8 word)) = [0, 0, 0]" by (simp add: mread_def numeral_eq_Suc)
  then show ?thesis
    using vmem_calc_crc32_is_crc32c [OF vserver_ex_facts(2), where k = 0 and addr = "0x1004" and len = 3 and buffer_len = 192 and buf = "replicate 192 0"] vserver_ex_facts(4,6,7)
    by simp
qed

theorem vmem_upload_effect_witness:
  "vm_mem (area (vmem_server_handler vmem_env_ex 0 vserver_ex) 0) = [0, 0, 0, 0, 7, 8, 9, 0, 0, 0, 0, 0, 0, 0, 0, 0]"
proof -
  have c: "0 < length (conns vstack_ex)" unfolding vstack_ex_facts(2) by simp
  have d: "pdata (pkt vstack_ex 1) = [7, 8, 9]" unfolding vstack_ex_facts(6) by (rule packet_ex_wf(2)) (simp add: CSP_BUFFER_SIZE_def)
  have q: "queue_list (rx_queue (conn vstack_ex 0)) = map Some (0 # [1])" using vstack_ex_facts(4) by simp
  note u = vmem_upload_effect [where v = vserver_ex and M = "{#}" and c = 0 and p = 0 and hs = "[1]" and ds = "[7, 8, 9]" and k = 0 and env = vmem_env_ex
      and address = "0x1004" and t = "vmem_server_handler vmem_env_ex 0 vserver_ex", unfolded vserver_ex_facts(1),
      OF vserver_ex_facts(2) vstack_ex_facts(1) c vstack_ex_facts(3) q upload_ex_request(1) _ _ _ upload_ex_request(2) [symmetric] _ _ _ _ refl]
  have a: "unat (0x1004 :: 64 word) = 0x1004" "unat (0x1000 :: 64 word) = 0x1000" by simp_all
  have e: "length [1::nat] < uploads vmem_env_ex" "read_wait vmem_env_ex = (\<lambda>n t s. s)" "length [7, 8, 9 :: 8 word] < 2 ^ 31" by (simp_all add: vmem_env_ex_def)
  have i: "in_area vserver_ex 0 (unat (0x1004 :: 64 word)) (length [7, 8, 9 :: 8 word])" unfolding a using vserver_ex_facts(4) by (simp add: numeral_3_eq_3)
  have ds: "[7, 8, 9] = concat (map (\<lambda>h. pdata (pkt vstack_ex h)) [1])" "\<And>h. h \<in> set [1] \<Longrightarrow> pdata (pkt vstack_ex h) \<noteq> []" using d by simp_all
  have "vm_mem (area (vmem_server_handler vmem_env_ex 0 vserver_ex) 0) = mwrite (0x1004 - 0x1000) [7, 8, 9] (replicate 16 0)"
    using u [OF ds(2) _ ds(1) i e(3,1,2)] unfolding vserver_ex_facts(6,7) a by blast
  then show ?thesis by (simp add: mwrite_def numeral_eq_Suc)
qed

theorem vmem_backup_locked_witness:
  "vmem_server_handler (vmem_env_ex\<lparr>backup_fn := \<lambda>k s. (1, s\<lparr>ub := True\<rparr>)\<rparr>) 0 vserver_ex = vmem_server_handler vmem_env_ex 0 vserver_ex"
  using vmem_backup_locked [where v = vserver_ex and env = vmem_env_ex and f = "\<lambda>k s. (1, s\<lparr>ub := True\<rparr>)" and c = 0] by (simp add: vserver_ex_def)

end
