(* ===== verification/Spec2Isabelle.thy ===== *)
theory Spec2Isabelle
  imports Sys_Manager Csp_Can Csp_Service Csp_Sfp Vmem_Server
begin

text \<open>
  A verification development for the system manager of the DISCO-2 payload computer
  (\<open>custom/layers/meta-disco-scheduler/files/app-sys-manager\<close>) and the two libraries it is built from, the
  network stack libcsp (\<open>lib/csp\<close>) and the parameter library libparam (\<open>lib/param\<close>).

  \<^bold>\<open>The program.\<close> The system manager is a node of the satellite's network. Packets come from the drivers into the
  input queue of the router; \<open>csp_route_work\<close> takes them out one by one and forwards them to other
  interfaces or delivers them to connections, sockets and callbacks. RDP, a reliable protocol, can run
  inside a connection. Everything works on packets from one static pool of buffers whose handles travel through the
  queues. On top of the stack the application keeps parameters, some of them in a virtual memory with a
  file behind it, whose callbacks start and stop processes and suspend the processor.

  \<^bold>\<open>Theories.\<close>

  \<^item> \<open>Prelude\<close>: machine words, byte memories with reads and writes at offsets, big-endian encodings.
  \<^item> \<open>Csp_Types\<close>: identifiers, packets with their memory, error codes (\<open>include/csp/csp_types.h\<close>,
    \<open>csp_error.h\<close>, \<open>csp_debug.h\<close>). \<open>Csp_Id\<close>: the header codec of \<open>src/csp_id.c\<close>, with the round trip of the headers.
  \<^item> \<open>Csp_Crc32\<close>, \<open>Csp_Sha1\<close>, \<open>Csp_Hmac\<close>: the checksum and the authentication code (\<open>src/csp_crc32.c\<close>, \<open>src/crypto\<close>), equal to
    reference definitions of CRC-32C, SHA-1 and HMAC that do not follow the code.
  \<^item> \<open>Csp_Queue\<close>: the ring buffer of \<open>src/arch/posix/pthread_queue.c\<close>; the locale \<open>bounded_queue\<close> is the
    contract of a bounded queue, interpreted on the code's functions, and every other component uses the queue through it.
  \<^item> \<open>Csp_Buffer\<close>: the pool of \<open>src/csp_buffer.c\<close>. \<open>Csp_Iflist\<close>, \<open>Csp_Rtable\<close>: interfaces and routes
    (\<open>src/csp_iflist.c\<close>, \<open>src/csp_rtable_cidr.c\<close>); the locale \<open>iterator\<close> is the contract of their \<open>get next\<close> functions and is
    interpreted on four of them. \<open>Csp_Dedup\<close>: the filter of duplicates (\<open>src/csp_dedup.c\<close>).
  \<^item> \<open>Csp_State\<close>: the state of a node, one record with the static variables of all modules, and \<open>acct\<close>, the accounting
    of buffers: every allocated buffer is in exactly one queue or held by exactly one caller.
  \<^item> \<open>Csp_Send\<close>: promiscuous mode, input queue and transmission (\<open>src/csp_promisc.c\<close>, \<open>src/csp_qfifo.c\<close>, \<open>csp_send_direct\<close> and the
    functions it calls in \<open>src/csp_io.c\<close>). \<open>Csp_Port\<close>: \<open>src/csp_port.c\<close>.
  \<^item> \<open>Csp_Rdp_Queue\<close>, \<open>Csp_Rdp\<close>, \<open>Csp_Rdp_Machine\<close>: RDP (\<open>src/csp_rdp_queue.c\<close>, \<open>src/csp_rdp.c\<close>), with the locale \<open>packet_queue\<close>
    for the two queues; the machine refines an abstract transition relation of the connection states.
  \<^item> \<open>Csp_Conn\<close>, \<open>Csp_Io\<close>, \<open>Csp_Route\<close>: connections, the calls of the applications, and the router (\<open>src/csp_conn.c\<close>,
    \<open>src/csp_io.c\<close>, \<open>src/csp_route.c\<close>). \<open>Csp_Node\<close>: the bridge (\<open>src/csp_bridge.c\<close>), \<open>csp_init\<close>, and the states reachable from it by
    any sequence of calls, as an inductive predicate.
  \<^item> \<open>Csp_Can\<close>: the CAN interface (\<open>src/interfaces/csp_if_can.c\<close>, \<open>csp_if_can_pbuf.c\<close>) and the part of the driver
    \<open>src/drivers/can/can_socketcan.c\<close> between it and the operating system.
  \<^item> \<open>Csp_Service\<close>: the services every node offers, with the management protocol (\<open>src/csp_service_handler.c\<close>, \<open>include/csp/csp_cmp.h\<close>).
    \<open>Csp_Sfp\<close>: data larger than a packet, in fragments (\<open>src/csp_sfp.c\<close>).
  \<^item> \<open>Param\<close>: parameters and the drivers of virtual memory (\<open>lib/param/src/param/param.c\<close>, \<open>lib/param/src/vmem\<close>). \<open>Param_List\<close>: the list of
    all parameters, its own and those of other nodes (\<open>param/list/param_list.c\<close>), a further interpretation of \<open>iterator\<close>. \<open>Vmem_Server\<close>: the server that
    gives other nodes access to the virtual memory and the list of parameters (\<open>vmem/vmem_server.c\<close>, \<open>vmem.c\<close>,
    \<open>vmem_crc32.c\<close>). \<open>Sys_Manager\<close>: the application, \<open>main.c\<close>.

  \<^bold>\<open>How the model reads.\<close> Definitions have the names of the C functions; a function that is too long for one definition is
  cut at its branches, and the pieces are named after it. The state is passed explicitly; a pointer to a buffer, an interface, a
  connection or a socket is its index, \<open>None\<close> is \<open>NULL\<close>. Integers are words of the width the C type has
  wherever they are stored. Undefined behaviour (a \<open>NULL\<close> that is dereferenced, an access outside an array) sets
  \<open>fault\<close>, or \<open>ub\<close> in \<open>Param\<close>, and most theorems include that it does not happen. What blocks or depends on the outside is an argument: what
  the drivers return, what other tasks do to a queue while a call waits, the contents of uninitialised memory, files and the
  output of commands. Calls run to completion one after the other; a race between two tasks inside a call is not modelled.

  \<^bold>\<open>What is shown.\<close> Round trips of the codecs, from the header bits up to a packet that goes over the CAN bus as a sequence of
  frames; the equivalence of checksum and authentication code with their standards; the longest-prefix routing and
  the forwarding rules; for every operation of the stack that no buffer is lost, used twice or released twice, including all error
  paths, combined into one invariant of all reachable states of a node; the sequence-number arithmetic of RDP, its window, its
  order of delivery and its state machine; which packets the security checks of the router let through; the answers and effects of
  the services; that data cut into fragments arrives whole and that no fragment is copied outside of the memory for it; the
  parameters, the round trip of their descriptions and the well-formedness of the list; the uploads, checksums and the lock of the memory
  server; and the start of the application. Where the code does not do what it is meant to, the theorem
  states what it does: the header-inclusive checksum that never verifies, the route table that is written behind its
  end, the interface list that is cut off, the packet that leaks in RDP, the list of CAN packets that keeps a released buffer, the CAN
  packets that expire at once, the service that sends a released packet, the static parameter that is released, the settings that do not
  survive a restart, the byte behind the output buffer.

  \<^bold>\<open>Loops.\<close> Loops over arrays and lists recurse on the data. Loops with a counter have a termination proof. The loops over the linked list of
  CAN packets are partial functions in the option monad, where \<open>None\<close> means that the loop does not end, and the theorems prove that
  they return. The iteration loops over interfaces and routes take the number of calls as fuel; the theorems show that one more than
  the length of the list is enough. The loop that receives an upload takes the number of packets as fuel, one more than the packets that
  arrive is enough; the loop of the checksum returns \<open>None\<close> for an empty buffer, with which it does not end. The endless loops of the router thread and of \<open>main\<close> are the repetition of the step that is modelled.

  \<^bold>\<open>Not modelled.\<close> Third-party and generated code: mpack (\<open>lib/param/src/mpack\<close>), the Python
  bindings. The parameter server with its queues and serializer (\<open>param_server.c\<close>, \<open>param_queue.c\<close>, \<open>param_serializer.c\<close>), whose messages are
  written and read by the macros and functions of mpack. Other platforms and interfaces the application does not start: FreeRTOS, Zephyr, Windows, macOS, KISS, Ethernet,
  UDP, TUN, I2C, ZMQ and their drivers. Text input and output: \<open>csp_yaml.c\<close>, \<open>csp_rtable_stdio.c\<close>, \<open>csp_hex_dump.c\<close>, the slash
  commands, \<open>param_string.c\<close>. What a client of a service or server does: \<open>csp_services.c\<close>, \<open>vmem_client.c\<close>, \<open>param_client.c\<close>; they are sequences of
  \<open>csp_transaction\<close> and \<open>csp_read\<close>, which are modelled, and printing. The scheduler, commands and collector of parameters and the object store, which
  the application does not start.
\<close>

end
